(* ===== verification/Go_Base.thy ===== *)
theory Go_Base imports Main "HOL-Library.Word" begin

text \<open>
  The fragment of Go's language and standard library that the modelled packages use:
  the wrap-around of \<open>int64\<close> and \<open>uint64\<close>, \<open>strings\<close> (prefix tests,
  splitting, trimming, replacing), \<open>net/textproto.TrimString\<close> and
  \<open>strconv.ParseInt\<close> / \<open>FormatInt\<close> in base 10.  A Go string is a byte
  sequence, so it is a \<^typ>\<open>string\<close> here (a \<^typ>\<open>char\<close> is a byte).
\<close>

named_theorems go_simps \<open>simplification rules for the Go library functions\<close>
named_theorems inv_simps \<open>unfolding rules of the component invariants\<close>
named_theorems frame_simps \<open>what an operation leaves unchanged\<close>

section \<open>Machine integers\<close>

text \<open>Integers are \<^typ>\<open>int\<close>; where a result may leave the range the wrap-around is written
  out with these functions.\<close>

definition wrap64 :: "int \<Rightarrow> int" where
  "wrap64 x = (x + 2 ^ 63) mod 2 ^ 64 - 2 ^ 63"

definition wrapu64 :: "int \<Rightarrow> int" where
  "wrapu64 x = x mod 2 ^ 64"

definition int64_range :: "int \<Rightarrow> bool" where
  "int64_range x \<longleftrightarrow> - (2 ^ 63) \<le> x \<and> x < 2 ^ 63"

lemma wrap64_id [go_simps]: "int64_range x \<Longrightarrow> wrap64 x = x"
  by (simp add: wrap64_def int64_range_def)

lemma wrap64_range: "int64_range (wrap64 x)"
proof -
  have "0 \<le> (x + 2 ^ 63) mod 2 ^ 64" and "(x + 2 ^ 63) mod 2 ^ 64 < 2 ^ 64"
    by simp_all
  then show ?thesis by (simp add: wrap64_def int64_range_def)
qed

text \<open>Go's integer division and remainder truncate towards zero.\<close>

definition go_div :: "int \<Rightarrow> int \<Rightarrow> int" where
  "go_div a b = sgn a * sgn b * (\<bar>a\<bar> div \<bar>b\<bar>)"

definition go_mod :: "int \<Rightarrow> int \<Rightarrow> int" where
  "go_mod a b = a - b * go_div a b"

lemma go_div_nonneg [go_simps]: "0 \<le> a \<Longrightarrow> 0 < b \<Longrightarrow> go_div a b = a div b"
  by (cases "a = 0") (simp_all add: go_div_def)

lemma go_mod_nonneg [go_simps]: "0 \<le> a \<Longrightarrow> 0 < b \<Longrightarrow> go_mod a b = a mod b"
  by (simp add: go_mod_def go_div_nonneg minus_mult_div_eq_mod)

section \<open>Package strings\<close>

fun has_prefix :: "string \<Rightarrow> string \<Rightarrow> bool" where
  "has_prefix s [] = True"
| "has_prefix [] (p # ps) = False"
| "has_prefix (c # s) (p # ps) = (c = p \<and> has_prefix s ps)"

lemma has_prefix_iff: "has_prefix s p \<longleftrightarrow> (\<exists>t. s = p @ t)"
  by (induction s p rule: has_prefix.induct) auto

lemma has_prefix_append [simp]: "has_prefix (p @ t) p"
  by (auto simp: has_prefix_iff)

definition has_suffix :: "string \<Rightarrow> string \<Rightarrow> bool" where
  "has_suffix s p = has_prefix (rev s) (rev p)"

lemma has_suffix_iff: "has_suffix s p \<longleftrightarrow> (\<exists>t. s = t @ p)"
proof -
  have "(\<exists>t. rev s = rev p @ t) \<longleftrightarrow> (\<exists>t. s = t @ p)"
    by (metis rev_append rev_rev_ident)
  then show ?thesis by (simp add: has_suffix_def has_prefix_iff)
qed

definition trim_prefix :: "string \<Rightarrow> string \<Rightarrow> string" where
  "trim_prefix s p = (if has_prefix s p then drop (length p) s else s)"

lemma trim_prefix_append [simp]: "trim_prefix (p @ t) p = t"
  by (simp add: trim_prefix_def)

text \<open>\<open>strings.Cut\<close> at a single byte: the parts around its first occurrence, or nothing.\<close>

fun cut_char :: "char \<Rightarrow> string \<Rightarrow> (string \<times> string) option" where
  "cut_char c [] = None"
| "cut_char c (x # xs) =
     (if x = c then Some ([], xs)
      else map_option (\<lambda>(a, b). (x # a, b)) (cut_char c xs))"

lemma cut_char_Some: "cut_char c s = Some (a, b) \<Longrightarrow> s = a @ c # b \<and> c \<notin> set a"
  by (induction s arbitrary: a b) (auto split: if_splits)

lemma cut_char_None: "cut_char c s = None \<longleftrightarrow> c \<notin> set s"
  by (induction s) auto

lemma cut_char_append: "c \<notin> set a \<Longrightarrow> cut_char c (a @ c # b) = Some (a, b)"
  by (induction a) auto

text \<open>\<open>strings.IndexByte\<close> and \<open>strings.LastIndex\<close> of a one-byte separator; -1 is \<^const>\<open>None\<close>.\<close>

definition index_char :: "char \<Rightarrow> string \<Rightarrow> nat option" where
  "index_char c s = map_option (\<lambda>(a, b). length a) (cut_char c s)"

definition last_index_char :: "char \<Rightarrow> string \<Rightarrow> nat option" where
  "last_index_char c s =
     (if c \<in> set s then Some (length s - 1 - length (takeWhile (\<lambda>x. x \<noteq> c) (rev s))) else None)"

text \<open>\<open>strings.Contains\<close>.\<close>

fun contains_str :: "string \<Rightarrow> string \<Rightarrow> bool" where
  "contains_str [] p = (p = [])"
| "contains_str (c # s) p = (has_prefix (c # s) p \<or> contains_str s p)"

lemma contains_str_iff: "contains_str s p \<longleftrightarrow> (\<exists>a b. s = a @ p @ b)"
proof (induction s)
  case Nil
  then show ?case by auto
next
  case (Cons c s)
  show ?case
  proof
    assume "contains_str (c # s) p"
    then consider "has_prefix (c # s) p" | "contains_str s p" by auto
    then show "\<exists>a b. c # s = a @ p @ b"
    proof cases
      case 1
      then obtain t where "c # s = [] @ p @ t" by (auto simp: has_prefix_iff)
      then show ?thesis by blast
    next
      case 2
      then obtain a b where "s = a @ p @ b" using Cons.IH by blast
      then have "c # s = (c # a) @ p @ b" by simp
      then show ?thesis by blast
    qed
  next
    assume "\<exists>a b. c # s = a @ p @ b"
    then obtain a b where ab: "c # s = a @ p @ b" by blast
    show "contains_str (c # s) p"
    proof (cases a)
      case Nil
      with ab have "has_prefix (c # s) p" by (simp add: has_prefix_iff)
      then show ?thesis by simp
    next
      case (Cons d a')
      with ab have "s = a' @ p @ b" by simp
      with Cons.IH show ?thesis by auto
    qed
  qed
qed

text \<open>\<open>strings.Split\<close> at a one-byte separator (always at least one part) and \<open>strings.Join\<close>.\<close>

fun split_char :: "char \<Rightarrow> string \<Rightarrow> string list" where
  "split_char c [] = [[]]"
| "split_char c (x # xs) =
     (if x = c then [] # split_char c xs
      else (case split_char c xs of [] \<Rightarrow> [[x]] | p # ps \<Rightarrow> (x # p) # ps))"

fun join_char :: "char \<Rightarrow> string list \<Rightarrow> string" where
  "join_char c [] = []"
| "join_char c [p] = p"
| "join_char c (p # q # ps) = p @ c # join_char c (q # ps)"

lemma split_char_nonempty [simp]: "split_char c s \<noteq> []"
  by (induction s) (auto split: list.splits)

lemma split_char_parts: "p \<in> set (split_char c s) \<Longrightarrow> c \<notin> set p"
  by (induction s arbitrary: p) (auto split: list.splits if_splits)

lemma join_split_char [simp]: "join_char c (split_char c s) = s"
proof (induction s)
  case (Cons x s)
  show ?case
  proof (cases "split_char c s")
    case Nil
    then show ?thesis by simp
  next
    case (Cons p ps)
    with Cons.IH show ?thesis by (cases ps) auto
  qed
qed simp

lemma split_char_single: "c \<notin> set p \<Longrightarrow> split_char c p = [p]"
  by (induction p) auto

lemma split_char_append:
  "c \<notin> set p \<Longrightarrow> split_char c (p @ c # s) = p # split_char c s"
  by (induction p) auto

lemma split_join_char:
  "ps \<noteq> [] \<Longrightarrow> \<forall>p \<in> set ps. c \<notin> set p \<Longrightarrow> split_char c (join_char c ps) = ps"
  by (induction c ps rule: join_char.induct) (auto simp: split_char_single split_char_append)

lemma join_char_Cons: "ps \<noteq> [] \<Longrightarrow> join_char c (p # ps) = p @ c # join_char c ps"
  by (cases ps) auto

lemma join_char_append:
  "ps \<noteq> [] \<Longrightarrow> qs \<noteq> [] \<Longrightarrow> join_char c (ps @ qs) = join_char c ps @ c # join_char c qs"
proof (induction ps)
  case (Cons p ps)
  then show ?case by (cases "ps = []") (auto simp: join_char_Cons)
qed simp

text \<open>\<open>strings.ReplaceAll\<close> of one byte by a string.\<close>

definition replace_char :: "char \<Rightarrow> string \<Rightarrow> string \<Rightarrow> string" where
  "replace_char c r s = concat (map (\<lambda>x. if x = c then r else [x]) s)"

text \<open>\<open>net/textproto.TrimString\<close>: space, tab, newline and carriage return.\<close>

definition ascii_ws :: "char \<Rightarrow> bool" where
  "ascii_ws c \<longleftrightarrow> c = CHR '' '' \<or> c = CHR 0x09 \<or> c = CHR 0x0A \<or> c = CHR 0x0D"

definition trim_string :: "string \<Rightarrow> string" where
  "trim_string s = rev (dropWhile ascii_ws (rev (dropWhile ascii_ws s)))"

lemma trim_string_id:
  "(\<And>c. c \<in> set s \<Longrightarrow> \<not> ascii_ws c) \<Longrightarrow> trim_string s = s"
proof -
  assume h: "\<And>c. c \<in> set s \<Longrightarrow> \<not> ascii_ws c"
  then have "dropWhile ascii_ws s = s" by (cases s) auto
  moreover from h have "dropWhile ascii_ws (rev s) = rev s"
    by (cases "rev s") (auto simp: rev_eq_Cons_iff)
  ultimately show ?thesis by (simp add: trim_string_def)
qed

text \<open>\<open>strings.TrimSpace\<close>: the white space of Unicode, in UTF-8.\<close>

definition space_runes :: "string list" where
  "space_runes =
     [[CHR 0x09], [CHR 0x0A], [CHR 0x0B], [CHR 0x0C], [CHR 0x0D], [CHR 0x20],
      [CHR 0xC2, CHR 0x85], [CHR 0xC2, CHR 0xA0], [CHR 0xE1, CHR 0x9A, CHR 0x80],
      [CHR 0xE2, CHR 0x80, CHR 0x80], [CHR 0xE2, CHR 0x80, CHR 0x81],
      [CHR 0xE2, CHR 0x80, CHR 0x82], [CHR 0xE2, CHR 0x80, CHR 0x83],
      [CHR 0xE2, CHR 0x80, CHR 0x84], [CHR 0xE2, CHR 0x80, CHR 0x85],
      [CHR 0xE2, CHR 0x80, CHR 0x86], [CHR 0xE2, CHR 0x80, CHR 0x87],
      [CHR 0xE2, CHR 0x80, CHR 0x88], [CHR 0xE2, CHR 0x80, CHR 0x89],
      [CHR 0xE2, CHR 0x80, CHR 0x8A], [CHR 0xE2, CHR 0x80, CHR 0xA8],
      [CHR 0xE2, CHR 0x80, CHR 0xA9], [CHR 0xE2, CHR 0x80, CHR 0xAF],
      [CHR 0xE2, CHR 0x81, CHR 0x9F], [CHR 0xE3, CHR 0x80, CHR 0x80]]"

fun strip_runes :: "nat \<Rightarrow> string list \<Rightarrow> string \<Rightarrow> string" where
  "strip_runes 0 rs s = s"
| "strip_runes (Suc n) rs s =
     (case List.find (has_prefix s) rs of
        None \<Rightarrow> s
      | Some r \<Rightarrow> strip_runes n rs (drop (length r) s))"

definition trim_left_space :: "string \<Rightarrow> string" where
  "trim_left_space s = strip_runes (length s) space_runes s"

definition trim_space :: "string \<Rightarrow> string" where
  "trim_space s =
     (let l = trim_left_space s
      in rev (strip_runes (length l) (map rev space_runes) (rev l)))"

section \<open>Package strconv, base 10\<close>

definition is_digit :: "char \<Rightarrow> bool" where
  "is_digit c \<longleftrightarrow> 48 \<le> (of_char c :: nat) \<and> (of_char c :: nat) \<le> 57"

definition digit_val :: "char \<Rightarrow> int" where
  "digit_val c = of_char c - 48"

fun digits_val :: "int \<Rightarrow> string \<Rightarrow> int option" where
  "digits_val acc [] = Some acc"
| "digits_val acc (c # cs) =
     (if is_digit c then digits_val (acc * 10 + digit_val c) cs else None)"

text \<open>\<open>strconv.ParseInt(s, 10, 64)\<close>; \<^const>\<open>None\<close> is a non-nil error (syntax or range).\<close>

definition parse_int :: "string \<Rightarrow> int option" where
  "parse_int s =
     (let (neg, ds) = (case s of
                         c # cs \<Rightarrow> if c = CHR ''-'' then (True, cs)
                                   else if c = CHR ''+'' then (False, cs) else (False, s)
                       | [] \<Rightarrow> (False, s))
      in if ds = [] then None
         else (case digits_val 0 ds of
                 None \<Rightarrow> None
               | Some n \<Rightarrow> (let v = (if neg then - n else n)
                           in if int64_range v then Some v else None)))"

function nat_dec :: "nat \<Rightarrow> string" where
  "nat_dec n = (if n < 10 then [char_of (48 + n)]
                else nat_dec (n div 10) @ [char_of (48 + n mod 10)])"
  by pat_completeness auto
termination by (relation "measure id") auto

declare nat_dec.simps [simp del]

definition format_int :: "int \<Rightarrow> string" where
  "format_int v = (if v < 0 then CHR ''-'' # nat_dec (nat (- v)) else nat_dec (nat v))"

lemma of_char_digit: "d < 10 \<Longrightarrow> (of_char (char_of (48 + d) :: char) :: nat) = 48 + d"
  by (simp add: take_bit_eq_mod)

lemma is_digit_char_of: "d < 10 \<Longrightarrow> is_digit (char_of (48 + d :: nat))"
  by (simp add: is_digit_def of_char_digit)

lemma digit_val_char_of: "d < 10 \<Longrightarrow> digit_val (char_of (48 + d :: nat)) = int d"
proof -
  assume "d < 10"
  then have "int (of_char (char_of (48 + d) :: char)) = int (48 + d)"
    using of_char_digit by presburger
  then have "(of_char (char_of (48 + d) :: char) :: int) = int (48 + d)"
    by (simp only: of_nat_of_char)
  then show ?thesis unfolding digit_val_def by simp
qed

lemma nat_dec_digits: "c \<in> set (nat_dec n) \<Longrightarrow> is_digit c"
proof (induction n rule: nat_dec.induct)
  case (1 n)
  then show ?case
    by (subst (asm) (2) nat_dec.simps) (auto split: if_splits simp: is_digit_char_of)
qed

lemma nat_dec_nonempty [simp]: "nat_dec n \<noteq> []"
  by (subst nat_dec.simps) simp

lemma digits_val_append:
  "digits_val acc (xs @ ys) = (case digits_val acc xs of None \<Rightarrow> None | Some a \<Rightarrow> digits_val a ys)"
  by (induction acc xs rule: digits_val.induct) auto

lemma digits_val_nat_dec: "digits_val 0 (nat_dec n) = Some (int n)"
proof (induction n rule: nat_dec.induct)
  case (1 n)
  show ?case
  proof (cases "n < 10")
    case True
    then show ?thesis
      by (subst nat_dec.simps) (simp add: is_digit_char_of digit_val_char_of)
  next
    case False
    with 1 have "digits_val 0 (nat_dec (n div 10)) = Some (int (n div 10))" by simp
    with False show ?thesis
      by (subst nat_dec.simps)
        (simp add: digits_val_append is_digit_char_of digit_val_char_of zdiv_int zmod_int)
  qed
qed

lemma is_digit_not [simp]:
  "\<not> is_digit (CHR ''-'')" "\<not> is_digit (CHR ''+'')" "\<not> is_digit (CHR '' '')"
  "\<not> is_digit (CHR ''/'')" "\<not> is_digit (CHR '','')" "\<not> is_digit (CHR '':'')"
  "\<not> is_digit (CHR ''e'')" "\<not> is_digit (CHR ''i'')"
  "\<not> is_digit (CHR 0x09)" "\<not> is_digit (CHR 0x0A)" "\<not> is_digit (CHR 0x0D)"
  by (simp_all add: is_digit_def)

lemma nat_dec_no_sign:
  "nat_dec n = c # cs \<Longrightarrow> c \<noteq> CHR ''-'' \<and> c \<noteq> CHR ''+''"
  using nat_dec_digits[of c n] by auto

lemma parse_format_int: "int64_range v \<Longrightarrow> parse_int (format_int v) = Some v"
proof -
  assume r: "int64_range v"
  obtain c cs where d: "nat_dec (nat v) = c # cs" by (meson nat_dec_nonempty neq_Nil_conv)
  have s: "digits_val 0 (c # cs) = Some (int (nat v))" using digits_val_nat_dec d by metis
  from d have "c \<noteq> CHR ''-''" "c \<noteq> CHR ''+''" by (auto dest: nat_dec_no_sign)
  then show ?thesis
    using r d s by (auto simp: parse_int_def format_int_def digits_val_nat_dec simp del: digits_val.simps)
qed

lemma parse_int_range: "parse_int s = Some v \<Longrightarrow> int64_range v"
  by (auto simp: parse_int_def Let_def split: prod.splits if_splits option.splits list.splits)

lemma format_int_nonempty [simp]: "format_int v \<noteq> []"
  by (simp add: format_int_def)

lemma format_int_chars: "c \<in> set (format_int v) \<Longrightarrow> is_digit c \<or> c = CHR ''-''"
  by (auto simp: format_int_def nat_dec_digits split: if_splits)

lemma format_int_nonneg_chars: "0 \<le> v \<Longrightarrow> c \<in> set (format_int v) \<Longrightarrow> is_digit c"
  by (auto simp: format_int_def nat_dec_digits split: if_splits)

lemma trim_format_int: "trim_string (format_int v) = format_int v"
proof (rule trim_string_id)
  fix c assume "c \<in> set (format_int v)"
  then have "is_digit c \<or> c = CHR ''-''" by (rule format_int_chars)
  then show "\<not> ascii_ws c" by (auto simp: ascii_ws_def)
qed


lemma nat_dec_inj: "nat_dec a = nat_dec b \<Longrightarrow> a = b"
  using digits_val_nat_dec by (metis nat_int option.inject)

lemma format_int_inj: "format_int v = format_int w \<Longrightarrow> v = w"
proof -
  assume e: "format_int v = format_int w"
  have no: "nat_dec n \<noteq> CHR ''-'' # nat_dec k" for n k
    using nat_dec_digits[of "CHR ''-''" n] by (metis is_digit_not(1) list.set_intros(1))
  show ?thesis
  proof (cases "v < 0"; cases "w < 0")
  qed (use e no no[symmetric] in \<open>auto simp: format_int_def dest!: nat_dec_inj\<close>)
qed

text \<open>A separator that neither end contains cuts a string at its first and at its last occurrence.\<close>

lemma sep_ends_inject:
  fixes c :: char
  assumes "c \<notin> set a" "c \<notin> set a'" "c \<notin> set b" "c \<notin> set b'"
    and "a @ [c] @ p @ [c] @ b = a' @ [c] @ p' @ [c] @ b'"
  shows "a = a' \<and> p = p' \<and> b = b'"
proof -
  have "cut_char c (a @ c # (p @ c # b)) = cut_char c (a' @ c # (p' @ c # b'))" using assms(5) by simp
  then have l: "a = a'" "p @ c # b = p' @ c # b'" using assms(1,2) by (simp_all add: cut_char_append)
  then have "cut_char c (rev b @ c # rev p) = cut_char c (rev b' @ c # rev p')"
    by (metis append.assoc append_Cons append_Nil rev.simps(2) rev_append)
  then show ?thesis using l assms(3,4) by (simp add: cut_char_append)
qed

section \<open>Visible characters\<close>

definition visible :: "char \<Rightarrow> bool" where
  "visible c \<longleftrightarrow> 32 < (of_char c :: nat) \<and> (of_char c :: nat) < 128"

lemma strip_none:
  assumes "s \<noteq> [] \<Longrightarrow> \<forall>r \<in> set rs. r \<noteq> [] \<and> hd s \<noteq> hd r" "\<forall>r \<in> set rs. r \<noteq> []"
  shows "strip_runes n rs s = s"
proof (cases n)
  case (Suc k)
  have "\<not> has_prefix s r" if "r \<in> set rs" for r
    using assms that by (cases s; cases r) auto
  then have "List.find (has_prefix s) rs = None" by (simp add: find_None_iff)
  then show ?thesis by (simp add: Suc)
qed simp

lemma visible_runes: "visible c \<Longrightarrow> r \<in> set space_runes \<Longrightarrow> r \<noteq> [] \<and> c \<noteq> hd r \<and> rev r \<noteq> [] \<and> c \<noteq> hd (rev r)"
  by (auto simp: space_runes_def visible_def)

lemma space_runes_nonempty: "[] \<notin> set space_runes"
  by (simp add: space_runes_def)

lemma trim_space_id:
  assumes "s \<noteq> [] \<Longrightarrow> visible (hd s) \<and> visible (last s)"
  shows "trim_space s = s"
proof -
  have "trim_left_space s = s"
    unfolding trim_left_space_def using assms visible_runes space_runes_nonempty by (intro strip_none) auto
  moreover have "strip_runes n (map rev space_runes) (rev s) = rev s" for n
    using assms visible_runes space_runes_nonempty by (intro strip_none) (auto simp: hd_rev)
  ultimately show ?thesis by (simp add: trim_space_def Let_def)
qed

lemma is_digit_visible: "is_digit c \<Longrightarrow> visible c"
  by (simp add: is_digit_def visible_def)

lemma index_char_None: "c \<notin> set s \<Longrightarrow> index_char c s = None"
  by (simp add: index_char_def cut_char_None)

lemma digit_val_nonneg: "is_digit c \<Longrightarrow> 0 \<le> digit_val c"
proof -
  have "(of_char c :: int) = int (of_char c)" by (simp only: of_nat_of_char)
  then show "is_digit c \<Longrightarrow> 0 \<le> digit_val c" unfolding is_digit_def digit_val_def by linarith
qed

end
