(* ===== verification/Go_Path.thy ===== *)
theory Go_Path imports Go_Base "HOL-Library.Sublist" begin

text \<open>
  Go's package \<open>path\<close>: \<open>Clean\<close>, \<open>Join\<close>, \<open>Split\<close>, \<open>Dir\<close> and \<open>Base\<close>, and
  the normal form of rooted paths that the components reason with: \<open>mk_abs cs\<close> is the
  string of the component list \<open>cs\<close>, and \<open>normal_comps cs\<close> says that the components are
  proper names.
\<close>

abbreviation slash :: char where "slash \<equiv> CHR ''/''"

fun clean_comps :: "bool \<Rightarrow> string list \<Rightarrow> string list \<Rightarrow> string list" where
  "clean_comps rooted out [] = rev out"
| "clean_comps rooted out (c # cs) =
     (if c = '''' \<or> c = ''.'' then clean_comps rooted out cs
      else if c = ''..'' then
        (case out of
           q # qs \<Rightarrow> if q \<noteq> ''..'' then clean_comps rooted qs cs
                     else clean_comps rooted (c # out) cs
         | [] \<Rightarrow> if rooted then clean_comps rooted [] cs else clean_comps rooted [c] cs)
      else clean_comps rooted (c # out) cs)"

definition path_clean :: "string \<Rightarrow> string" where
  "path_clean p =
     (case p of [] \<Rightarrow> ''.''
      | c # _ \<Rightarrow>
          if c = slash then slash # join_char slash (clean_comps True [] (split_char slash p))
          else (let cs = clean_comps False [] (split_char slash p)
                in if cs = [] then ''.'' else join_char slash cs))"

definition path_join :: "string \<Rightarrow> string \<Rightarrow> string" where
  "path_join a b =
     (if a = [] then (if b = [] then [] else path_clean b) else path_clean (a @ slash # b))"

definition path_split :: "string \<Rightarrow> string \<times> string" where
  "path_split p =
     (case last_index_char slash p of None \<Rightarrow> ([], p) | Some i \<Rightarrow> (take (Suc i) p, drop (Suc i) p))"

definition path_dir :: "string \<Rightarrow> string" where
  "path_dir p = path_clean (fst (path_split p))"

definition path_base :: "string \<Rightarrow> string" where
  "path_base p =
     (if p = [] then ''.''
      else (let q = rev (dropWhile (\<lambda>c. c = slash) (rev p)); b = snd (path_split q)
            in if b = [] then ''/'' else b))"

section \<open>Normal rooted paths\<close>

definition name_ok :: "string \<Rightarrow> bool" where
  "name_ok c \<longleftrightarrow> c \<noteq> [] \<and> c \<noteq> ''.'' \<and> c \<noteq> ''..'' \<and> slash \<notin> set c"

definition normal_comps :: "string list \<Rightarrow> bool" where
  "normal_comps cs \<longleftrightarrow> (\<forall>c \<in> set cs. name_ok c)"

definition mk_abs :: "string list \<Rightarrow> string" where
  "mk_abs cs = slash # join_char slash cs"

lemma normal_comps_simps [simp]:
  "normal_comps []" "normal_comps (c # cs) \<longleftrightarrow> name_ok c \<and> normal_comps cs"
  "normal_comps (as @ bs) \<longleftrightarrow> normal_comps as \<and> normal_comps bs"
  by (auto simp: normal_comps_def)

lemma mk_abs_nonempty [simp]: "mk_abs cs \<noteq> []" "hd (mk_abs cs) = slash"
  by (simp_all add: mk_abs_def)

lemma clean_comps_rooted_normal:
  assumes "normal_comps out" and "\<forall>c \<in> set cs. slash \<notin> set c"
  shows "normal_comps (clean_comps True out cs)"
  using assms
proof (induction cs arbitrary: out)
  case Nil
  then show ?case by (simp add: normal_comps_def)
next
  case (Cons c cs)
  show ?case
  proof (cases out)
    case Nil
    with Cons show ?thesis by (simp add: name_ok_def)
  next
    fix q qs assume "out = q # qs"
    with Cons show ?thesis by (simp add: name_ok_def)
  qed
qed

lemma clean_comps_normal_id:
  "normal_comps cs \<Longrightarrow> clean_comps r out cs = rev out @ cs"
  by (induction cs arbitrary: out) (auto simp: name_ok_def)

lemma clean_comps_append_normal:
  "normal_comps as \<Longrightarrow> clean_comps r out (as @ bs) = clean_comps r (rev as @ out) bs"
  by (induction as arbitrary: out) (auto simp: name_ok_def)

lemma split_mk_abs:
  "cs \<noteq> [] \<Longrightarrow> normal_comps cs \<Longrightarrow> split_char slash (mk_abs cs) = [] # cs"
  unfolding mk_abs_def
  by (simp add: split_join_char normal_comps_def name_ok_def)

lemma split_mk_abs_Nil: "split_char slash (mk_abs []) = [[], []]"
  by (simp add: mk_abs_def)

lemma path_clean_rooted: "path_clean (slash # p) = mk_abs (clean_comps True [] (split_char slash p))"
  by (simp add: path_clean_def mk_abs_def)

lemma path_clean_mk_abs [simp]: "normal_comps cs \<Longrightarrow> path_clean (mk_abs cs) = mk_abs cs"
  by (cases "cs = []")
    (simp_all add: mk_abs_def path_clean_def split_join_char normal_comps_def name_ok_def
       clean_comps_normal_id[unfolded normal_comps_def name_ok_def])

lemma path_clean_abs_normal: "\<exists>cs. normal_comps cs \<and> path_clean (slash # p) = mk_abs cs"
  unfolding path_clean_rooted
  using clean_comps_rooted_normal[of "[]" "split_char slash p"] by (auto dest: split_char_parts)

lemma split_join_append:
  "as \<noteq> [] \<Longrightarrow> normal_comps as \<Longrightarrow>
     split_char slash (join_char slash as @ slash # s) = as @ split_char slash s"
proof (induction as)
  case (Cons a as)
  then show ?case
    by (cases "as = []") (simp_all add: join_char_Cons split_char_append name_ok_def)
qed simp

lemma path_join_mk_abs:
  assumes "normal_comps as" and "normal_comps bs"
  shows "path_join (mk_abs as) (mk_abs bs) = mk_abs (as @ bs)"
proof -
  have j: "path_join (mk_abs as) (mk_abs bs)
      = mk_abs (clean_comps True [] (split_char slash (join_char slash as @ slash # mk_abs bs)))"
    by (simp add: path_join_def path_clean_rooted) (simp add: mk_abs_def path_clean_rooted)
  have b: "clean_comps True out (split_char slash (mk_abs bs)) = rev out @ bs" for out
    using assms(2) by (cases "bs = []") (simp_all add: split_mk_abs split_mk_abs_Nil clean_comps_normal_id)
  have "split_char slash (join_char slash as @ slash # mk_abs bs)
      = (if as = [] then [[]] else as) @ split_char slash (mk_abs bs)"
    using assms(1) by (cases "as = []") (simp_all add: split_join_append)
  then show ?thesis
    using assms(1) by (auto simp: j b clean_comps_append_normal)
qed

lemma mk_abs_concat: "cs \<noteq> [] \<Longrightarrow> mk_abs cs = concat (map (Cons slash) cs)"
proof (induction cs)
  case (Cons c cs)
  then show ?case by (cases "cs = []") (auto simp: mk_abs_def join_char_Cons)
qed simp

lemma mk_abs_single: "mk_abs cs = ''/'' \<longleftrightarrow> cs = []" if "normal_comps cs"
proof (cases cs)
  case Nil
  then show ?thesis by (simp add: mk_abs_def)
next
  case (Cons x xs)
  with that show ?thesis
    by (cases "xs = []") (simp_all add: mk_abs_def name_ok_def join_char_Cons)
qed

lemma mk_abs_inject:
  assumes "normal_comps as" and "normal_comps bs" and "mk_abs as = mk_abs bs"
  shows "as = bs"
proof (cases "as = []")
  case True
  then have "mk_abs bs = ''/''" using assms(3) by (simp add: mk_abs_def)
  with True show ?thesis using mk_abs_single[OF assms(2)] by simp
next
  case False
  then have "mk_abs bs \<noteq> ''/''" using mk_abs_single[OF assms(1)] assms(3) by simp
  then have "bs \<noteq> []" by (auto simp: mk_abs_def)
  then have "[] # as = [] # bs"
    using False assms split_mk_abs[of as] split_mk_abs[of bs] by metis
  then show ?thesis by simp
qed

lemma takeWhile_name:
  "slash \<notin> set a \<Longrightarrow> r = [] \<or> (\<exists>r'. r = slash # r') \<Longrightarrow> takeWhile (\<lambda>c. c \<noteq> slash) (a @ r) = a"
  by (induction a) auto

lemma concat_slash_prefix:
  assumes "normal_comps as" and "normal_comps bs"
    and "concat (map (Cons slash) as) @ slash # t = concat (map (Cons slash) bs)"
  shows "strict_prefix as bs"
  using assms
proof (induction as arbitrary: bs)
  case Nil
  then show ?case by (cases bs) auto
next
  case (Cons a as)
  then obtain b bs' where b: "bs = b # bs'" by (cases bs) auto
  have no: "slash \<notin> set a" "slash \<notin> set b" using Cons.prems b by (auto simp: name_ok_def)
  let ?R = "concat (map (Cons slash) as) @ slash # t" and ?S = "concat (map (Cons slash) bs')"
  have eq: "a @ ?R = b @ ?S" using Cons.prems(3) b by simp
  have R: "?R = [] \<or> (\<exists>r. ?R = slash # r)" by (cases as) simp_all
  have S: "?S = [] \<or> (\<exists>r. ?S = slash # r)" by (cases bs') simp_all
  have ab: "a = b"
    using takeWhile_name[OF no(1) R] takeWhile_name[OF no(2) S] eq by simp
  with eq have "?R = ?S" by simp
  moreover have "normal_comps as" "normal_comps bs'" using Cons.prems b by simp_all
  ultimately have "strict_prefix as bs'" by (intro Cons.IH)
  with ab b show ?case by simp
qed

lemma mk_abs_slash_prefix:
  assumes "normal_comps as" and "normal_comps bs" and "as \<noteq> []"
  shows "has_prefix (mk_abs bs) (mk_abs as @ ''/'') \<longleftrightarrow> strict_prefix as bs"
proof
  assume "has_prefix (mk_abs bs) (mk_abs as @ ''/'')"
  then obtain t where t: "mk_abs bs = mk_abs as @ slash # t" by (auto simp: has_prefix_iff)
  have "bs \<noteq> []" using t assms(3) by (auto simp: mk_abs_def)
  with t assms show "strict_prefix as bs"
    by (intro concat_slash_prefix[of as bs t]) (simp_all add: mk_abs_concat)
next
  assume "strict_prefix as bs"
  then obtain c cs where b: "bs = as @ c # cs" by (auto elim: strict_prefixE')
  have "mk_abs bs = mk_abs as @ slash # join_char slash (c # cs)"
    using assms(3) by (simp add: b mk_abs_def join_char_append)
  then show "has_prefix (mk_abs bs) (mk_abs as @ ''/'')" by (auto simp: has_prefix_iff)
qed

lemma mk_abs_suffix_slash:
  assumes "normal_comps as"
  shows "has_suffix (mk_abs as) ''/'' \<longleftrightarrow> as = []"
proof (cases "as = []")
  case True
  then show ?thesis by (simp add: mk_abs_def has_suffix_def)
next
  case False
  then obtain xs x where x: "as = xs @ [x]" by (metis append_butlast_last_id)
  with assms have "x \<noteq> []" "slash \<notin> set x" by (auto simp: name_ok_def)
  then obtain y c where "x = y @ [c]" "c \<noteq> slash" by (cases x rule: rev_cases) auto
  with x have "\<exists>z. mk_abs as = z @ [c]"
    by (cases "xs = []") (auto simp: mk_abs_def join_char_append)
  with \<open>c \<noteq> slash\<close> False show ?thesis by (auto simp: has_suffix_iff)
qed

section \<open>Parent and name of a normal path\<close>

lemma last_index_char_append: "c \<notin> set b \<Longrightarrow> last_index_char c (a @ c # b) = Some (length a)"
proof -
  assume "c \<notin> set b"
  then have "takeWhile (\<lambda>x. x \<noteq> c) (rev b @ c # rev a) = rev b" by (subst takeWhile_append2) auto
  then show ?thesis by (simp add: last_index_char_def)
qed

lemma mk_abs_snoc: "mk_abs (cs @ [c]) = (if cs = [] then [] else mk_abs cs) @ slash # c"
  by (simp add: mk_abs_def join_char_append)

lemma path_split_mk_abs:
  assumes "name_ok c"
  shows "path_split (mk_abs (cs @ [c])) = ((if cs = [] then [] else mk_abs cs) @ [slash], c)"
proof -
  have "last_index_char slash (mk_abs (cs @ [c])) = Some (length (if cs = [] then [] else mk_abs cs))"
    unfolding mk_abs_snoc using assms by (intro last_index_char_append) (simp add: name_ok_def)
  then show ?thesis by (simp add: path_split_def mk_abs_snoc)
qed

lemma path_clean_trailing_slash: "normal_comps cs \<Longrightarrow> cs \<noteq> [] \<Longrightarrow> path_clean (mk_abs cs @ [slash]) = mk_abs cs"
  using path_clean_rooted[of "join_char slash cs @ [slash]"] split_join_append[of cs "[]"]
  by (simp add: mk_abs_def clean_comps_append_normal)

lemma path_dir_mk_abs [simp]:
  assumes "normal_comps cs"
  shows "path_dir (mk_abs cs) = mk_abs (butlast cs)"
proof (cases cs rule: rev_cases)
  case Nil
  then show ?thesis by (simp add: path_dir_def path_split_def mk_abs_def last_index_char_def path_clean_def)
next
  case (snoc ds c)
  then have n: "name_ok c" "normal_comps ds" using assms by simp_all
  have r: "path_clean [slash] = mk_abs []" by (simp add: path_clean_rooted)
  show ?thesis using path_clean_trailing_slash[OF n(2)] r by (simp add: snoc path_dir_def path_split_mk_abs[OF n(1)])
qed

lemma path_base_mk_abs [simp]:
  assumes "normal_comps (cs @ [c])"
  shows "path_base (mk_abs (cs @ [c])) = c"
proof -
  have c: "name_ok c" using assms by simp
  then obtain d x where x: "c = d @ [x]" "x \<noteq> slash" by (cases c rule: rev_cases) (auto simp: name_ok_def)
  have "rev (dropWhile (\<lambda>y. y = slash) (rev (mk_abs (cs @ [c])))) = mk_abs (cs @ [c])"
    unfolding mk_abs_snoc by (simp add: x)
  then show ?thesis using c by (simp add: path_base_def path_split_mk_abs name_ok_def)
qed

lemma path_base_root [simp]: "path_base ''/'' = ''/''"
  by (simp add: path_base_def path_split_def last_index_char_def)

lemma path_join_name:
  assumes "normal_comps ds" "name_ok c"
  shows "path_join (mk_abs ds) c = mk_abs (ds @ [c])"
proof -
  have s: "slash \<notin> set c" using assms(2) by (simp add: name_ok_def)
  have n: "normal_comps (ds @ [c])" using assms by simp
  have "path_join (mk_abs ds) c = mk_abs (clean_comps True [] (split_char slash (join_char slash ds @ slash # c)))"
    by (simp add: path_join_def mk_abs_def path_clean_rooted)
  also have "split_char slash (join_char slash ds @ slash # c) = (if ds = [] then [[]] else ds) @ [c]"
    using assms s by (cases "ds = []") (simp_all add: split_join_append split_char_single)
  finally show ?thesis using clean_comps_normal_id[OF n] assms by (cases "ds = []") (simp_all add: mk_abs_def)
qed

end
