(* ===== verification/Paths.thy ===== *)
theory Paths imports Go_Path begin

text \<open>
  \<open>pkg/utils/path.go\<close>, \<open>pkg/utils/balance.go\<close> and \<open>slashClean\<close> of
  \<open>server/webdav/file.go\<close>: the path functions every handler goes through.  A cleaned path
  is \<open>mk_abs\<close> of its normal components, on which sub-path tests are list prefixes.
\<close>

section \<open>Definitions\<close>

definition FixAndCleanPath :: "string \<Rightarrow> string" where
  "FixAndCleanPath path =
     (let path = replace_char (CHR 0x5C) ''/'' path;
          path = (if \<not> has_prefix path ''/'' then ''/'' @ path else path)
      in path_clean path)"

definition PathAddSeparatorSuffix :: "string \<Rightarrow> string" where
  "PathAddSeparatorSuffix path = (if \<not> has_suffix path ''/'' then path @ ''/'' else path)"

definition PathEqual :: "string \<Rightarrow> string \<Rightarrow> bool" where
  "PathEqual path1 path2 \<longleftrightarrow> FixAndCleanPath path1 = FixAndCleanPath path2"

definition IsSubPath :: "string \<Rightarrow> string \<Rightarrow> bool" where
  "IsSubPath path subPath =
     (let path = FixAndCleanPath path; subPath = FixAndCleanPath subPath
      in path = subPath \<or> has_prefix subPath (PathAddSeparatorSuffix path))"

text \<open>\<open>url.PathEscape\<close> of one segment.\<close>

definition hex_digit :: "nat \<Rightarrow> char" where
  "hex_digit n = (if n < 10 then char_of (48 + n) else char_of (55 + n))"

definition path_escape_char :: "char \<Rightarrow> string" where
  "path_escape_char c =
     (let n = (of_char c :: nat)
      in if 48 \<le> n \<and> n \<le> 57 \<or> 65 \<le> n \<and> n \<le> 90 \<or> 97 \<le> n \<and> n \<le> 122 \<or> c \<in> set ''-_.~$&+:=@''
         then [c] else [CHR ''%'', hex_digit (n div 16), hex_digit (n mod 16)])"

definition path_escape :: "string \<Rightarrow> string" where
  "path_escape s = concat (map path_escape_char s)"

definition EncodePath_toReplace :: "(char \<times> string) list" where
  "EncodePath_toReplace =
     [(CHR ''%'', ''%25''), (CHR ''%'', ''%25''), (CHR ''?'', ''%3F''), (CHR ''#'', ''%23'')]"

definition EncodePath :: "string \<Rightarrow> bool list \<Rightarrow> string" where
  "EncodePath path all =
     (let seg = split_char slash path
      in join_char slash
           (map (\<lambda>s. if all \<noteq> [] \<and> hd all then path_escape s
                     else fold (\<lambda>(src, dst) s. replace_char src dst s) EncodePath_toReplace s) seg))"

datatype path_error = RelativePath

definition JoinBasePath :: "string \<Rightarrow> string \<Rightarrow> path_error + string" where
  "JoinBasePath basePath reqPath =
     (let isRelativePath = contains_str reqPath ''..'';
          reqPath = FixAndCleanPath reqPath
      in if isRelativePath \<and> \<not> contains_str reqPath ''..'' then Inl RelativePath
         else Inr (path_join (FixAndCleanPath basePath) reqPath))"

fun last_index_str :: "string \<Rightarrow> string \<Rightarrow> nat option" where
  "last_index_str [] p = (if p = [] then Some 0 else None)"
| "last_index_str (c # s) p =
     (case last_index_str s p of
        Some i \<Rightarrow> Some (Suc i)
      | None \<Rightarrow> if has_prefix (c # s) p then Some 0 else None)"

definition balance :: string where
  "balance = ''.balance''"

definition IsBalance :: "string \<Rightarrow> bool" where
  "IsBalance str = contains_str str balance"

definition GetActualMountPath :: "string \<Rightarrow> string" where
  "GetActualMountPath mountPath =
     (case last_index_str mountPath ''.balance'' of
        Some bIndex \<Rightarrow> take bIndex mountPath
      | None \<Rightarrow> mountPath)"

definition GetFullPath :: "string \<Rightarrow> string \<Rightarrow> string" where
  "GetFullPath mountPath path = path_join (GetActualMountPath mountPath) path"

text \<open>The loop of \<open>GetPathHierarchy\<close>: the builder's content and the parts still to come.\<close>

fun hierarchy_loop :: "string \<Rightarrow> string list \<Rightarrow> string list" where
  "hierarchy_loop currentPath [] = []"
| "hierarchy_loop currentPath (part # parts) =
     (if part = [] then hierarchy_loop currentPath parts
      else (let currentPath = currentPath @ ''/'' @ part
            in currentPath # hierarchy_loop currentPath parts))"

definition GetPathHierarchy :: "string \<Rightarrow> string list" where
  "GetPathHierarchy path =
     (if path = [] \<or> path = ''/'' then [''/'']
      else (let path = FixAndCleanPath path;
                path = (if \<not> has_prefix path ''/'' then ''/'' @ path else path)
            in ''/'' # hierarchy_loop [] (split_char slash path)))"

definition slashClean :: "string \<Rightarrow> string" where
  "slashClean name = (let name = (if name = [] \<or> hd name \<noteq> slash then ''/'' @ name else name)
                      in path_clean name)"

section \<open>Normal form\<close>

text \<open>The components of a cleaned path.\<close>

definition comps_of :: "string \<Rightarrow> string list" where
  "comps_of p = filter (\<lambda>c. c \<noteq> []) (split_char slash p)"

lemma comps_of_mk_abs [simp]: "normal_comps cs \<Longrightarrow> comps_of (mk_abs cs) = cs"
proof -
  assume n: "normal_comps cs"
  then have "filter (\<lambda>c. c \<noteq> []) cs = cs"
    by (simp add: filter_id_conv normal_comps_def name_ok_def)
  with n show ?thesis
    by (cases "cs = []") (simp_all add: comps_of_def split_mk_abs split_mk_abs_Nil)
qed

lemma replace_char_removes: "c \<notin> set r \<Longrightarrow> c \<notin> set (replace_char c r s)"
  by (auto simp: replace_char_def)

lemma rooted_form: "\<exists>q. (if \<not> has_prefix p ''/'' then ''/'' @ p else p) = slash # q"
  by (cases p) auto

lemma FixAndCleanPath_rooted:
  "\<exists>q. FixAndCleanPath p = mk_abs (clean_comps True [] (split_char slash (slash # q)))
      \<and> CHR 0x5C \<notin> set q"
proof -
  let ?r = "replace_char (CHR 0x5C) ''/'' p"
  obtain q where q: "(if \<not> has_prefix ?r ''/'' then ''/'' @ ?r else ?r) = slash # q"
    using rooted_form[of ?r] by blast
  have "CHR 0x5C \<notin> set ?r" by (rule replace_char_removes) simp
  then have "CHR 0x5C \<notin> set (slash # q)" by (simp flip: q)
  moreover have "FixAndCleanPath p = path_clean (slash # q)"
    by (simp only: FixAndCleanPath_def Let_def q)
  ultimately show ?thesis by (auto simp: path_clean_rooted)
qed

lemma FixAndCleanPath_normal: "\<exists>cs. normal_comps cs \<and> FixAndCleanPath p = mk_abs cs"
proof -
  obtain q where "FixAndCleanPath p = path_clean (slash # q)"
    using FixAndCleanPath_rooted[of p] by (auto simp: path_clean_rooted)
  then show ?thesis using path_clean_abs_normal by simp
qed

lemma slashClean_normal: "\<exists>cs. normal_comps cs \<and> slashClean p = mk_abs cs"
proof -
  have "\<exists>q. (if p = [] \<or> hd p \<noteq> slash then ''/'' @ p else p) = slash # q" by (cases p) auto
  then obtain q where "slashClean p = path_clean (slash # q)" by (auto simp: slashClean_def Let_def)
  then show ?thesis using path_clean_abs_normal by simp
qed

definition fix_comps :: "string \<Rightarrow> string list" where
  "fix_comps p = comps_of (FixAndCleanPath p)"

lemma fix_comps: "normal_comps (fix_comps p)" "FixAndCleanPath p = mk_abs (fix_comps p)"
  using FixAndCleanPath_normal[of p] by (auto simp: fix_comps_def)

lemma replace_char_id: "c \<notin> set s \<Longrightarrow> replace_char c r s = s"
  by (induction s) (auto simp: replace_char_def)

lemma FixAndCleanPath_mk_abs:
  "normal_comps cs \<Longrightarrow> CHR 0x5C \<notin> set (mk_abs cs) \<Longrightarrow> FixAndCleanPath (mk_abs cs) = mk_abs cs"
  by (simp add: FixAndCleanPath_def Let_def replace_char_id) (simp add: mk_abs_def)

definition clean_push :: "bool \<Rightarrow> string list \<Rightarrow> string \<Rightarrow> string list" where
  "clean_push r out c =
     (if c = [] \<or> c = ''.'' then out
      else if c = ''..'' then
        (case out of q # qs \<Rightarrow> if q \<noteq> ''..'' then qs else c # out
         | [] \<Rightarrow> if r then [] else [c])
      else c # out)"

lemma clean_comps_push: "clean_comps r out (c # cs) = clean_comps r (clean_push r out c) cs"
  unfolding clean_push_def
  apply (cases out)
   apply (simp split del: if_split)
   apply (cases "c = [] \<or> c = ''.''"; cases "c = ''..''"; cases r; simp)
  apply (cases "c = [] \<or> c = ''.''"; cases "c = ''..''"; simp)
  done

lemma clean_push_subset: "set (clean_push r out c) \<subseteq> insert c (set out)"
  unfolding clean_push_def
  apply (cases out)
   apply (cases "c = [] \<or> c = ''.''"; cases "c = ''..''"; cases r; auto)
  apply (cases "c = [] \<or> c = ''.''"; cases "c = ''..''"; auto)
  done

lemma clean_comps_chars:
  "\<forall>p \<in> set out. x \<notin> set p \<Longrightarrow> \<forall>p \<in> set cs. x \<notin> set p \<Longrightarrow>
     \<forall>p \<in> set (clean_comps r out cs). x \<notin> set p"
proof (induction cs arbitrary: out)
  case (Cons c cs)
  have "\<forall>p \<in> set (clean_push r out c). x \<notin> set p"
    using clean_push_subset[of r out c] Cons.prems by auto
  moreover have "\<forall>p \<in> set cs. x \<notin> set p" using Cons.prems by simp
  ultimately show ?case unfolding clean_comps_push by (rule Cons.IH)
qed simp

lemma set_join_char: "set (join_char c ps) \<subseteq> insert c (set (concat ps))"
  by (induction c ps rule: join_char.induct) auto

lemma set_split_char: "p \<in> set (split_char c s) \<Longrightarrow> set p \<subseteq> set s"
proof (induction s arbitrary: p)
  case (Cons x s)
  obtain q qs where q: "split_char c s = q # qs" by (meson split_char_nonempty neq_Nil_conv)
  have IH: "\<And>p. p \<in> set (q # qs) \<Longrightarrow> set p \<subseteq> set s" using Cons.IH q by simp
  have "split_char c (x # s) = (if x = c then [] # q # qs else (x # q) # qs)" by (simp add: q)
  with Cons.prems have "p \<in> set (if x = c then [] # q # qs else (x # q) # qs)" by simp
  then consider "p = []" | "p \<in> set (q # qs)" | "p = x # q" by (auto split: if_splits)
  then show ?case using IH by cases auto
qed simp

lemma FixAndCleanPath_no_backslash: "CHR 0x5C \<notin> set (FixAndCleanPath p)"
proof -
  obtain q where q: "FixAndCleanPath p = mk_abs (clean_comps True [] (split_char slash (slash # q)))"
    "CHR 0x5C \<notin> set q"
    using FixAndCleanPath_rooted by blast
  have "\<forall>c \<in> set (split_char slash (slash # q)). CHR 0x5C \<notin> set c"
    using set_split_char[of _ slash "slash # q"] q(2) by auto
  then have "\<forall>c \<in> set (clean_comps True [] (split_char slash (slash # q))). CHR 0x5C \<notin> set c"
    by (intro clean_comps_chars) simp_all
  then show ?thesis
    using set_join_char[of slash "clean_comps True [] (split_char slash (slash # q))"]
    unfolding q(1) mk_abs_def by auto
qed

lemma FixAndCleanPath_idem [simp]: "FixAndCleanPath (FixAndCleanPath p) = FixAndCleanPath p"
  using FixAndCleanPath_mk_abs fix_comps[of p] FixAndCleanPath_no_backslash[of p] by metis

lemma PathEqual_comps: "PathEqual p q \<longleftrightarrow> fix_comps p = fix_comps q"
  using mk_abs_inject fix_comps unfolding PathEqual_def by metis

lemma IsSubPath_mk_abs:
  assumes "normal_comps as" and "normal_comps bs"
  shows "mk_abs as = mk_abs bs \<or> has_prefix (mk_abs bs) (PathAddSeparatorSuffix (mk_abs as))
           \<longleftrightarrow> prefix as bs"
proof (cases "as = []")
  case True
  then have "PathAddSeparatorSuffix (mk_abs as) = ''/''"
    by (simp add: PathAddSeparatorSuffix_def mk_abs_def has_suffix_def)
  with True show ?thesis by (simp add: mk_abs_def)
next
  case False
  have "mk_abs as = mk_abs bs \<longleftrightarrow> as = bs" using assms mk_abs_inject by blast
  moreover have "PathAddSeparatorSuffix (mk_abs as) = mk_abs as @ ''/''"
    using False assms by (simp add: PathAddSeparatorSuffix_def mk_abs_suffix_slash)
  ultimately show ?thesis
    using mk_abs_slash_prefix[OF assms False] by (auto simp: strict_prefix_def)
qed

lemma IsSubPath_comps: "IsSubPath p q \<longleftrightarrow> prefix (fix_comps p) (fix_comps q)"
  unfolding IsSubPath_def Let_def
  using IsSubPath_mk_abs[OF fix_comps(1)[of p] fix_comps(1)[of q]] by (simp flip: fix_comps(2))

section \<open>Joining a request path to a base path\<close>

lemma path_join_fix:
  "path_join (FixAndCleanPath b) (FixAndCleanPath r) = mk_abs (fix_comps b @ fix_comps r)"
  by (metis fix_comps path_join_mk_abs)

lemma fix_comps_join:
  "fix_comps (mk_abs (fix_comps b @ fix_comps r)) = fix_comps b @ fix_comps r"
proof -
  have n: "normal_comps (fix_comps b @ fix_comps r)" by (simp add: fix_comps)
  have nb: "CHR 0x5C \<notin> set (concat (fix_comps x))" for x
  proof -
    have "set (concat (fix_comps x)) \<subseteq> set (FixAndCleanPath x)"
      using set_split_char[of _ slash "FixAndCleanPath x"] by (auto simp: fix_comps_def comps_of_def)
    then show ?thesis using FixAndCleanPath_no_backslash by blast
  qed
  have "CHR 0x5C \<notin> set (mk_abs (fix_comps b @ fix_comps r))"
    using set_join_char[of slash "fix_comps b @ fix_comps r"] nb[of b] nb[of r]
    by (auto simp: mk_abs_def)
  then show ?thesis using n by (simp add: fix_comps_def[of "mk_abs _"] FixAndCleanPath_mk_abs)
qed

lemma JoinBasePath_joined:
  assumes "JoinBasePath basePath reqPath = Inr p"
  shows "fix_comps p = fix_comps basePath @ fix_comps reqPath" "FixAndCleanPath p = p" "IsSubPath basePath p"
proof -
  have p: "p = mk_abs (fix_comps basePath @ fix_comps reqPath)"
    using assms by (auto simp: JoinBasePath_def Let_def path_join_fix split: if_splits)
  then show c: "fix_comps p = fix_comps basePath @ fix_comps reqPath" by (simp add: fix_comps_join)
  then show "FixAndCleanPath p = p" using p fix_comps(2)[of p] by simp
  show "IsSubPath basePath p" using c by (simp add: IsSubPath_comps)
qed

text \<open>C4: a request path never leaves the user's base path.  Whatever the request contains
  (dot segments, back slashes, repeated or missing slashes), the joined path has the base path's
  components first, then the request's own, and it is a sub-path of the base.\<close>

theorem JoinBasePath_confined:
  assumes "JoinBasePath basePath reqPath = Inr p"
  shows "IsSubPath basePath p \<and> fix_comps p = fix_comps basePath @ fix_comps reqPath
           \<and> FixAndCleanPath p = p"
  using JoinBasePath_joined[OF assms] by simp

theorem JoinBasePath_confined_witness:
  "IsSubPath ''/home/a'' ''/home/a/etc/x'' \<and>
   fix_comps ''/home/a/etc/x'' = fix_comps ''/home/a'' @ fix_comps (''//etc'' @ [CHR 0x5C] @ ''x'')"
proof -
  have "JoinBasePath ''/home/a'' (''//etc'' @ [CHR 0x5C] @ ''x'') = Inr ''/home/a/etc/x''"
    by code_simp
  from JoinBasePath_confined[OF this] show ?thesis by simp
qed

lemma JoinBasePath_error_iff:
  "JoinBasePath b r = Inl e \<longleftrightarrow>
     e = RelativePath \<and> contains_str r ''..'' \<and> \<not> contains_str (FixAndCleanPath r) ''..''"
  by (cases e) (auto simp: JoinBasePath_def Let_def)

section \<open>The hierarchy of a path\<close>

lemma tl_prefixes_Cons: "tl (prefixes (c # cs)) = [c] # map (Cons c) (tl (prefixes cs))"
  by (cases cs) simp_all

lemma hierarchy_loop_normal:
  "normal_comps cs \<Longrightarrow>
     hierarchy_loop cur cs = map (\<lambda>p. cur @ concat (map (Cons slash) p)) (tl (prefixes cs))"
proof (induction cs arbitrary: cur)
  case (Cons c cs)
  then have "c \<noteq> []" by (simp add: name_ok_def)
  with Cons show ?case by (simp add: tl_prefixes_Cons Let_def comp_def del: prefixes.simps)
qed simp

lemma map_mk_abs_prefixes:
  "''/'' # map (\<lambda>p. concat (map (Cons slash) p)) (tl (prefixes cs)) = map mk_abs (prefixes cs)"
proof (cases cs)
  case (Cons c cs')
  have "p \<noteq> []" if "p \<in> set (tl (prefixes cs))" for p
    using that Cons by auto
  then have "map (\<lambda>p. concat (map (Cons slash) p)) (tl (prefixes cs)) = map mk_abs (tl (prefixes cs))"
    by (simp add: mk_abs_concat)
  then show ?thesis using Cons by (simp add: mk_abs_def)
qed (simp add: mk_abs_def)

text \<open>the hierarchy of a path is exactly the list of its ancestors, the root first and the
  cleaned path itself last.\<close>

theorem GetPathHierarchy_prefixes:
  "GetPathHierarchy p = map mk_abs (prefixes (fix_comps p))"
proof (cases "p = [] \<or> p = ''/''")
  case True
  have "FixAndCleanPath [] = ''/''" "FixAndCleanPath ''/'' = ''/''" by code_simp+
  then have "fix_comps p = []" using True by (auto simp: fix_comps_def comps_of_def)
  with True show ?thesis by (simp add: GetPathHierarchy_def mk_abs_def)
next
  case False
  have pre: "has_prefix (FixAndCleanPath p) ''/''"
    using fix_comps(2)[of p] by (simp add: mk_abs_def)
  have "hierarchy_loop [] (split_char slash (FixAndCleanPath p))
      = hierarchy_loop [] (fix_comps p)"
    using fix_comps[of p]
    by (cases "fix_comps p = []") (simp_all add: split_mk_abs split_mk_abs_Nil)
  with False pre show ?thesis
    using hierarchy_loop_normal[OF fix_comps(1)[of p], of "[]"] map_mk_abs_prefixes[of "fix_comps p"]
    by (simp add: GetPathHierarchy_def)
qed

section \<open>Percent encoding\<close>

text \<open>\<open>url.PathUnescape\<close>: the decoding a receiver applies; an incomplete or non-hexadecimal escape is
  an error.\<close>

definition hex_val :: "char \<Rightarrow> nat option" where
  "hex_val c = (let n = (of_char c :: nat)
     in if 48 \<le> n \<and> n \<le> 57 then Some (n - 48)
        else if 65 \<le> n \<and> n \<le> 70 then Some (n - 55)
        else if 97 \<le> n \<and> n \<le> 102 then Some (n - 87) else None)"

fun path_unescape :: "string \<Rightarrow> string option" where
  "path_unescape [] = Some []"
| "path_unescape (c # s) =
     (if c = CHR ''%'' then
        (case s of
           h # l # s' \<Rightarrow>
             (case (hex_val h, hex_val l) of
                (Some a, Some b) \<Rightarrow> map_option (Cons (char_of (16 * a + b))) (path_unescape s')
              | _ \<Rightarrow> None)
         | _ \<Rightarrow> None)
      else map_option (Cons c) (path_unescape s))"

definition encode_char :: "char \<Rightarrow> string" where
  "encode_char c =
     (if c = CHR ''%'' then ''%2525'' else if c = CHR ''?'' then ''%3F''
      else if c = CHR ''#'' then ''%23'' else [c])"

lemma replace_fold_encode:
  "fold (\<lambda>(src, dst) s. replace_char src dst s) EncodePath_toReplace s = concat (map encode_char s)"
proof -
  have "replace_char (CHR ''#'') ''%23'' (replace_char (CHR ''?'') ''%3F''
          (replace_char (CHR ''%'') ''%25'' (replace_char (CHR ''%'') ''%25'' s)))
      = concat (map encode_char s)"
    by (induction s) (auto simp: replace_char_def encode_char_def)
  then show ?thesis by (simp add: EncodePath_toReplace_def)
qed

lemma encode_char_slash: "encode_char slash = [slash]"
  by (simp add: encode_char_def)

lemma map_join_char:
  "f c = [c] \<Longrightarrow> concat (map f (join_char c ps)) = join_char c (map (\<lambda>p. concat (map f p)) ps)"
  by (induction c ps rule: join_char.induct) auto

lemma EncodePath_default: "EncodePath path [] = concat (map encode_char path)"
proof -
  have "EncodePath path [] = join_char slash (map (\<lambda>s. concat (map encode_char s)) (split_char slash path))"
    by (simp add: EncodePath_def replace_fold_encode)
  also have "\<dots> = concat (map encode_char (join_char slash (split_char slash path)))"
    by (rule map_join_char [of encode_char slash, OF encode_char_slash, symmetric])
  finally show ?thesis by simp
qed

lemma hex_val_consts [simp]:
  "hex_val (CHR ''2'') = Some 2" "hex_val (CHR ''3'') = Some 3" "hex_val (CHR ''5'') = Some 5"
  "hex_val (CHR ''F'') = Some 15"
  by (simp_all add: hex_val_def)

lemma char_of_consts [simp]:
  "(char_of (37 :: nat) :: char) = CHR ''%''" "(char_of (63 :: nat) :: char) = CHR ''?''"
  "(char_of (35 :: nat) :: char) = CHR ''#''"
  using char_of_char [of "CHR ''%''", where ?'a = nat] char_of_char [of "CHR ''?''", where ?'a = nat]
    char_of_char [of "CHR ''#''", where ?'a = nat] by simp_all

lemma path_unescape_encode:
  "path_unescape (concat (map encode_char s)) = Some (replace_char (CHR ''%'') ''%25'' s)"
  by (induction s) (auto simp: encode_char_def replace_char_def)

text \<open>What decoding an encoded path gives back.  The question mark and the hash survive the
  round trip, but the table lists the percent sign twice, so a percent sign of the path comes back as
  a percent sign followed by 25: the round trip is the identity exactly on the paths without one.\<close>

theorem EncodePath_roundtrip:
  "path_unescape (EncodePath path []) = Some (replace_char (CHR ''%'') ''%25'' path)
   \<and> (path_unescape (EncodePath path []) = Some path \<longleftrightarrow> CHR ''%'' \<notin> set path)"
proof -
  have len: "length (replace_char (CHR ''%'') ''%25'' s) \<ge> length s" for s
    by (induction s) (auto simp: replace_char_def)
  have "replace_char (CHR ''%'') ''%25'' s \<noteq> s" if "CHR ''%'' \<in> set s" for s
  proof -
    from that obtain a b where s: "s = a @ CHR ''%'' # b" by (auto dest: split_list)
    have "length (replace_char (CHR ''%'') ''%25'' s)
        = length (replace_char (CHR ''%'') ''%25'' a) + 3 + length (replace_char (CHR ''%'') ''%25'' b)"
      by (simp add: s replace_char_def)
    also have "\<dots> > length s" using len[of a] len[of b] by (simp add: s)
    finally show ?thesis by auto
  qed
  then show ?thesis
    unfolding EncodePath_default path_unescape_encode using replace_char_id by blast
qed

section \<open>Mount paths of balanced storages\<close>

lemma last_index_str_None: "p \<noteq> [] \<Longrightarrow> last_index_str s p = None \<longleftrightarrow> \<not> contains_str s p"
  by (induction s) (auto split: option.splits)

lemma last_index_str_Some:
  "last_index_str s p = Some i \<Longrightarrow> i \<le> length s \<and> has_prefix (drop i s) p"
  by (induction s arbitrary: i) (auto split: option.splits if_splits)

lemma GetActualMountPath_plain: "\<not> IsBalance m \<Longrightarrow> GetActualMountPath m = m"
  by (simp add: GetActualMountPath_def IsBalance_def balance_def split: option.splits)
    (metis last_index_str_None list.distinct(1) option.distinct(1))

lemma GetActualMountPath_balance:
  "IsBalance m \<Longrightarrow> \<exists>t. m = GetActualMountPath m @ ''.balance'' @ t"
proof -
  assume "IsBalance m"
  then obtain i where i: "last_index_str m ''.balance'' = Some i"
    using last_index_str_None[of "''.balance''" m] by (auto simp: IsBalance_def balance_def)
  then obtain t where "drop i m = ''.balance'' @ t"
    using last_index_str_Some has_prefix_iff by meson
  then have "m = take i m @ ''.balance'' @ t" by (metis append_take_drop_id)
  then show ?thesis using i by (auto simp: GetActualMountPath_def)
qed

end
