(* ===== verification/Go_File.thy ===== *)
theory Go_File imports Go_Base begin

text \<open>
  Byte buffers and files: \<open>os.File\<close> content as a byte list with \<open>ReadAt\<close> and
  \<open>WriteAt\<close> (a write beyond the end leaves a hole of zero bytes), the slice copy
  \<open>copy(dst[off:], src)\<close>, and \<open>hash/crc32\<close> with the IEEE polynomial.
\<close>

unbundle bit_operations_syntax

type_synonym byte = "8 word"

section \<open>Reading and writing at an offset\<close>

definition file_read_at :: "byte list \<Rightarrow> nat \<Rightarrow> nat \<Rightarrow> byte list" where
  "file_read_at f off n = take n (drop off f)"

definition file_write_at :: "byte list \<Rightarrow> nat \<Rightarrow> byte list \<Rightarrow> byte list" where
  "file_write_at f off data =
     take off (f @ replicate (off - length f) 0) @ data @ drop (off + length data) f"

text \<open>Overwriting inside a fixed buffer: as much of the data as fits.\<close>

definition slice_copy :: "'a list \<Rightarrow> nat \<Rightarrow> 'a list \<Rightarrow> 'a list" where
  "slice_copy b off data =
     take off b @ take (length b - off) data @ drop (off + length data) b"

lemma length_file_read_at [simp]: "length (file_read_at f off n) = min n (length f - off)"
  by (simp add: file_read_at_def)

lemma length_file_write_at [simp]:
  "length (file_write_at f off data) = max (length f) (off + length data)"
  by (auto simp: file_write_at_def max_def min_def)

lemma nth_file_write_at:
  "i < max (length f) (off + length data) \<Longrightarrow>
     file_write_at f off data ! i =
       (if off \<le> i \<and> i < off + length data then data ! (i - off)
        else if i < length f then f ! i else 0)"
proof -
  assume "i < max (length f) (off + length data)"
  then have "i < length f \<or> i < off + length data" by (simp add: less_max_iff_disj)
  then show ?thesis by (auto simp: file_write_at_def nth_append min_def)
qed

lemma nth_file_read_at:
  "i < n \<Longrightarrow> off + i < length f \<Longrightarrow> file_read_at f off n ! i = f ! (off + i)"
  by (simp add: file_read_at_def)

lemma file_read_at_write_same:
  "file_read_at (file_write_at f off data) off (length data) = data"
  by (simp add: file_read_at_def file_write_at_def)

lemma file_read_at_write_disjoint:
  assumes "off2 + n \<le> off \<or> off + length data \<le> off2" and "off2 + n \<le> length f"
  shows "file_read_at (file_write_at f off data) off2 n = file_read_at f off2 n"
proof (rule nth_equalityI)
  show "length (file_read_at (file_write_at f off data) off2 n) = length (file_read_at f off2 n)"
    using assms(2) by simp
  fix i assume "i < length (file_read_at (file_write_at f off data) off2 n)"
  then have i: "i < n" by simp
  then show "file_read_at (file_write_at f off data) off2 n ! i = file_read_at f off2 n ! i"
    using assms by (auto simp: nth_file_read_at nth_file_write_at)
qed

lemma length_slice_copy [simp]:
  "off \<le> length b \<Longrightarrow> length (slice_copy b off data) = length b"
  by (simp add: slice_copy_def)

lemma nth_slice_copy:
  "i < length b \<Longrightarrow> off \<le> length b \<Longrightarrow>
     slice_copy b off data ! i =
       (if off \<le> i \<and> i < off + length data then data ! (i - off) else b ! i)"
  by (auto simp: slice_copy_def nth_append min_def)

section \<open>CRC-32\<close>

definition crc_bit :: "32 word \<Rightarrow> 32 word" where
  "crc_bit c = (if bit c 0 then drop_bit 1 c XOR 0xEDB88320 else drop_bit 1 c)"

definition crc_byte :: "32 word \<Rightarrow> byte \<Rightarrow> 32 word" where
  "crc_byte c b =
     crc_bit (crc_bit (crc_bit (crc_bit (crc_bit (crc_bit (crc_bit (crc_bit (c XOR ucast b))))))))"

definition crc32 :: "byte list \<Rightarrow> 32 word" where
  "crc32 bs = NOT (foldl crc_byte (NOT 0) bs)"

end
