(* ===== verification/Multipart_Window.thy ===== *)
theory Multipart_Window imports Go_File begin

text \<open>
  \<open>internal/multipart/window.go\<close>: a ring of chunk slots on disk that turns concurrently
  uploaded chunks into one sequential stream.  Every critical section of the code (what runs
  between taking and releasing \<open>w.mu\<close>) is one function on the window; the unlocked file
  copies between them are functions of their own, so that the step relation at the end
  can interleave any number of writers, the one reader and a close.
\<close>

section \<open>State\<close>

datatype slot_state = slotFree | slotFilling | slotReady

datatype window_err =
    ErrClosed | ErrAborted | ErrChunkInFlight | ErrOutOfWindow
  | ErrParams | ErrMkdir | ErrOpen | ErrIndexRange | ErrIncomplete | ErrTooLarge
  | ErrEOF | ErrUnexpectedEOF | ErrFile

datatype 'a outcome = Return 'a | Error window_err | Panic

record Window =
  f :: "byte list option"
  chunkSize :: nat
  totalSize :: nat
  total :: nat
  slots :: nat
  slotState :: "slot_state list"
  slotChunk :: "int list"
  readPos :: nat
  crcs :: "32 word list"
  crcSet :: "bool list"
  err :: "window_err option"

text \<open>Whether \<open>os.MkdirAll\<close> and \<open>os.OpenFile\<close> succeed is the environment's choice.  The
  number of chunks is computed in \<open>int64\<close> and given to \<open>make\<close>, which panics on a negative length.\<close>

definition NewWindow :: "bool \<Rightarrow> bool \<Rightarrow> int \<Rightarrow> int \<Rightarrow> int \<Rightarrow> Window outcome" where
  "NewWindow mkdir_ok open_ok cs ts n =
     (if cs \<le> 0 \<or> ts \<le> 0 \<or> n \<le> 0 then Error ErrParams
      else if \<not> mkdir_ok then Error ErrMkdir
      else if \<not> open_ok then Error ErrOpen
      else (let tot = go_div (wrap64 (wrap64 (ts + cs) - 1)) cs
            in if tot < 0 then Panic
               else Return \<lparr>f = Some [], chunkSize = nat cs, totalSize = nat ts, total = nat tot,
                      slots = nat n, slotState = replicate (nat n) slotFree,
                      slotChunk = replicate (nat n) (-1), readPos = 0,
                      crcs = replicate (nat tot) 0, crcSet = replicate (nat tot) False,
                      err = None\<rparr>))"

definition TotalChunks :: "Window \<Rightarrow> nat" where
  "TotalChunks w = total w"

definition ChunkLen :: "Window \<Rightarrow> nat \<Rightarrow> nat" where
  "ChunkLen w idx =
     (if Suc idx = total w then totalSize w - idx * chunkSize w else chunkSize w)"

definition frontier :: "Window \<Rightarrow> nat" where
  "frontier w = (if readPos w \<ge> totalSize w then total w else readPos w div chunkSize w)"

section \<open>WriteChunk\<close>

datatype admission =
    AdmitErr window_err
  | AdmitDone "32 word"
  | AdmitWait
  | AdmitSlot nat

text \<open>One round of the admission loop with the lock held; \<open>expired\<close> says that the deadline has passed.\<close>

definition WriteChunk_admit :: "Window \<Rightarrow> int \<Rightarrow> bool \<Rightarrow> Window \<times> admission" where
  "WriteChunk_admit w idx expired =
     (case err w of Some e \<Rightarrow> (w, AdmitErr e)
      | None \<Rightarrow>
          if idx < 0 \<or> int (total w) \<le> idx then (w, AdmitErr ErrIndexRange)
          else (let i = nat idx; len = ChunkLen w i; slot = i mod slots w
                in if i * chunkSize w + len \<le> readPos w then (w, AdmitDone (crcs w ! i))
                   else if slotChunk w ! slot = int i \<and> slotState w ! slot = slotReady
                     then (w, AdmitDone (crcs w ! i))
                   else if slotChunk w ! slot = int i \<and> slotState w ! slot = slotFilling
                     then (w, AdmitErr ErrChunkInFlight)
                   else if slotState w ! slot = slotFree \<and> i < frontier w + slots w
                     then (w\<lparr>slotState := (slotState w)[slot := slotFilling],
                             slotChunk := (slotChunk w)[slot := int i]\<rparr>, AdmitSlot slot)
                   else if expired then (w, AdmitErr ErrOutOfWindow)
                   else (w, AdmitWait)))"

text \<open>The unlocked copy: at most one chunk of the body goes into the slot's region of the ring file (which
  fails once the file is closed), then one more byte is probed for.\<close>

definition WriteChunk_copy :: "Window \<Rightarrow> nat \<Rightarrow> nat \<Rightarrow> byte list \<Rightarrow> Window \<times> window_err option" where
  "WriteChunk_copy w idx slot body =
     (let len = ChunkLen w idx; data = take len body
      in case f w of
           None \<Rightarrow> (w, Some ErrIncomplete)
         | Some c \<Rightarrow>
             (w\<lparr>f := Some (file_write_at c (slot * chunkSize w) data)\<rparr>,
              if length body < len then Some ErrIncomplete
              else if length body > len then Some ErrTooLarge else None))"

definition WriteChunk_commit ::
  "Window \<Rightarrow> nat \<Rightarrow> nat \<Rightarrow> byte list \<Rightarrow> window_err option \<Rightarrow> Window \<times> (window_err + 32 word)" where
  "WriteChunk_commit w idx slot data cerr =
     (if slotState w ! slot \<noteq> slotFilling \<or> slotChunk w ! slot \<noteq> int idx
      then (w, Inl (case err w of Some e \<Rightarrow> e | None \<Rightarrow> ErrClosed))
      else (case (case cerr of None \<Rightarrow> err w | Some e \<Rightarrow> Some e) of
              Some e \<Rightarrow> (w\<lparr>slotState := (slotState w)[slot := slotFree],
                           slotChunk := (slotChunk w)[slot := -1]\<rparr>, Inl e)
            | None \<Rightarrow> (w\<lparr>slotState := (slotState w)[slot := slotReady],
                         crcs := (crcs w)[idx := crc32 data],
                         crcSet := (crcSet w)[idx := True]\<rparr>, Inr (crc32 data))))"

section \<open>Read\<close>

datatype read_check =
    ReadNone
  | ReadErr window_err
  | ReadWait
  | ReadAt nat nat nat nat

text \<open>One round of the read loop; \<open>ReadAt cur slot n off\<close> is the unlocked read it goes on to.\<close>

definition Read_check :: "Window \<Rightarrow> nat \<Rightarrow> read_check" where
  "Read_check w plen =
     (if plen = 0 then ReadNone
      else case err w of Some e \<Rightarrow> ReadErr e
      | None \<Rightarrow>
          if readPos w \<ge> totalSize w then ReadErr ErrEOF
          else (let cur = readPos w div chunkSize w; slot = cur mod slots w
                in if slotState w ! slot = slotReady \<and> slotChunk w ! slot = int cur
                   then (let chunkStart = cur * chunkSize w; chunkEnd = chunkStart + ChunkLen w cur;
                             n = min plen (chunkEnd - readPos w)
                         in ReadAt cur slot n (slot * chunkSize w + (readPos w - chunkStart)))
                   else ReadWait))"

definition Read_file :: "Window \<Rightarrow> nat \<Rightarrow> nat \<Rightarrow> byte list" where
  "Read_file w n off = (case f w of None \<Rightarrow> [] | Some c \<Rightarrow> file_read_at c off n)"

text \<open>After the read: advance, release the slot when the chunk is used up, report.\<close>

definition Read_finish :: "Window \<Rightarrow> nat \<Rightarrow> nat \<Rightarrow> byte list \<Rightarrow> Window \<times> (window_err + byte list)" where
  "Read_finish w cur slot data =
     (if data \<noteq> []
      then (let pos = readPos w + length data;
                w1 = w\<lparr>readPos := pos\<rparr>
            in (if pos \<ge> cur * chunkSize w + ChunkLen w cur
                then w1\<lparr>slotState := (slotState w)[slot := slotFree],
                        slotChunk := (slotChunk w)[slot := -1]\<rparr>
                else w1, Inr data))
      else (w, Inl (case err w of Some e \<Rightarrow> e | None \<Rightarrow> ErrUnexpectedEOF)))"

section \<open>Close, Snapshot, CRCs\<close>

definition CloseWithError :: "Window \<Rightarrow> window_err \<Rightarrow> Window" where
  "CloseWithError w sticky =
     w\<lparr>err := (case err w of None \<Rightarrow> Some sticky | Some e \<Rightarrow> Some e), f := None,
       slotState := replicate (length (slotState w)) slotFree,
       slotChunk := replicate (length (slotState w)) (-1)\<rparr>"

definition Close :: "Window \<Rightarrow> Window" where
  "Close w = CloseWithError w ErrClosed"

record Snapshot =
  Frontier :: nat
  ReadPos :: nat
  ReceivedBytes :: nat
  Received :: "(nat \<times> nat) list"

fun push_range :: "(nat \<times> nat) list \<Rightarrow> nat \<Rightarrow> (nat \<times> nat) list" where
  "push_range ranges idx =
     (if ranges \<noteq> [] \<and> Suc (snd (last ranges)) = idx
      then butlast ranges @ [(fst (last ranges), idx)] else ranges @ [(idx, idx)])"

definition slot_has :: "Window \<Rightarrow> nat \<Rightarrow> bool" where
  "slot_has w idx \<longleftrightarrow> slotState w ! (idx mod slots w) = slotReady
     \<and> slotChunk w ! (idx mod slots w) = int idx"

fun snapshot_loop :: "Window \<Rightarrow> nat list \<Rightarrow> nat \<times> (nat \<times> nat) list \<Rightarrow> nat \<times> (nat \<times> nat) list" where
  "snapshot_loop w [] acc = acc"
| "snapshot_loop w (idx # is) (bytes, ranges) =
     (if \<not> slot_has w idx then snapshot_loop w is (bytes, ranges)
      else (let start = idx * chunkSize w;
                consumed = (if readPos w > start then readPos w - start else 0)
            in snapshot_loop w is (bytes + (ChunkLen w idx - consumed), push_range ranges idx)))"

definition Window_Snapshot :: "Window \<Rightarrow> Snapshot" where
  "Window_Snapshot w =
     (let fr = frontier w;
          (bytes, ranges) =
            snapshot_loop w [fr ..< min (fr + slots w) (total w)]
              (readPos w, if fr > 0 then [(0, fr - 1)] else [])
      in \<lparr>Frontier = fr, ReadPos = readPos w, ReceivedBytes = bytes, Received = ranges\<rparr>)"

definition CRCs :: "Window \<Rightarrow> 32 word list \<times> bool list" where
  "CRCs w = (crcs w, crcSet w)"

section \<open>Chunk geometry\<close>

text \<open>What \<open>NewWindow\<close> establishes and nothing changes.\<close>

definition window_geometry :: "Window \<Rightarrow> bool" where
  "window_geometry w \<longleftrightarrow> 0 < chunkSize w \<and> 0 < totalSize w \<and> 0 < slots w
     \<and> total w = (totalSize w + chunkSize w - 1) div chunkSize w"

definition chunk_end :: "Window \<Rightarrow> nat \<Rightarrow> nat" where
  "chunk_end w c = c * chunkSize w + ChunkLen w c"

lemma total_pos: "window_geometry w \<Longrightarrow> 0 < total w"
  by (auto simp: window_geometry_def div_greater_zero_iff)

lemma ceil_div_bounds:
  fixes a b :: nat
  assumes "0 < b" and "0 < a" and "t = (a + b - 1) div b"
  shows "(t - 1) * b < a" "a \<le> t * b"
proof -
  have "t * b \<le> a + b - 1" using assms(3) by simp
  moreover have m: "a + b - 1 < t * b + b"
    using dividend_less_div_times[OF assms(1), of "a + b - 1"] assms(3) by simp
  ultimately show "(t - 1) * b < a" using assms(1,2) by (simp add: diff_mult_distrib)
  show "a \<le> t * b" using m by simp
qed

lemma chunk_bounds:
  assumes "window_geometry w" and "c < total w"
  shows "c * chunkSize w < totalSize w" "0 < ChunkLen w c" "ChunkLen w c \<le> chunkSize w"
    "chunk_end w c = min (Suc c * chunkSize w) (totalSize w)"
proof -
  note cb = ceil_div_bounds[of "chunkSize w" "totalSize w" "total w"]
  have g: "(total w - 1) * chunkSize w < totalSize w" "totalSize w \<le> total w * chunkSize w"
    using assms(1) cb by (auto simp: window_geometry_def)
  have pos: "0 < chunkSize w" using assms(1) by (simp add: window_geometry_def)
  have "c \<le> total w - 1" using assms(2) by linarith
  then have "c * chunkSize w \<le> (total w - 1) * chunkSize w" by (rule mult_le_mono1)
  with g(1) show lt: "c * chunkSize w < totalSize w" by linarith
  show "0 < ChunkLen w c" using lt pos by (simp add: ChunkLen_def)
  have last: "Suc c = total w \<Longrightarrow> totalSize w \<le> Suc c * chunkSize w" using g(2) by simp
  have notlast: "Suc c * chunkSize w < totalSize w" if "Suc c \<noteq> total w"
  proof -
    have "Suc c \<le> total w - 1" using that assms(2) by linarith
    then have "Suc c * chunkSize w \<le> (total w - 1) * chunkSize w" by (rule mult_le_mono1)
    with g(1) show ?thesis by linarith
  qed
  show "ChunkLen w c \<le> chunkSize w"
  proof (cases "Suc c = total w")
    case True
    have "totalSize w \<le> Suc c * chunkSize w" by (rule last[OF True])
    then have "totalSize w - c * chunkSize w \<le> chunkSize w" by simp
    with True show ?thesis by (simp add: ChunkLen_def)
  qed (simp add: ChunkLen_def)
  show "chunk_end w c = min (Suc c * chunkSize w) (totalSize w)"
    using last notlast lt by (cases "Suc c = total w") (auto simp: chunk_end_def ChunkLen_def)
qed

lemma chunk_end_last: "window_geometry w \<Longrightarrow> chunk_end w (total w - 1) = totalSize w"
  using chunk_bounds(4)[of w "total w - 1"] total_pos[of w]
    ceil_div_bounds(2)[of "chunkSize w" "totalSize w" "total w"]
  by (auto simp: window_geometry_def)

lemma pos_chunk:
  assumes "window_geometry w" and "p < totalSize w"
  shows "p div chunkSize w < total w" "p div chunkSize w * chunkSize w \<le> p"
    "p < chunk_end w (p div chunkSize w)"
proof -
  have pos: "0 < chunkSize w" using assms(1) by (simp add: window_geometry_def)
  have "p < total w * chunkSize w"
    using assms ceil_div_bounds(2)[of "chunkSize w" "totalSize w" "total w"]
    by (auto simp: window_geometry_def)
  then show t: "p div chunkSize w < total w" using pos by (simp add: less_mult_imp_div_less)
  show "p div chunkSize w * chunkSize w \<le> p" by simp
  have "p < Suc (p div chunkSize w) * chunkSize w" using pos dividend_less_div_times[of "chunkSize w" p] by simp
  then show "p < chunk_end w (p div chunkSize w)"
    using chunk_bounds(4)[OF assms(1) t] assms(2) by simp
qed

lemma frontier_le: "window_geometry w \<Longrightarrow> frontier w \<le> total w"
  using pos_chunk(1)[of w "readPos w"] by (auto simp: frontier_def)

lemma chunk_done_iff:
  assumes "window_geometry w" and "c < total w" and "readPos w \<le> totalSize w"
  shows "chunk_end w c \<le> readPos w \<longleftrightarrow> c < frontier w"
proof (cases "readPos w < totalSize w")
  case False
  then have "readPos w = totalSize w" using assms(3) by simp
  then show ?thesis using chunk_bounds(4)[OF assms(1,2)] assms(2) by (simp add: frontier_def)
next
  case True
  have pos: "0 < chunkSize w" using assms(1) by (simp add: window_geometry_def)
  have "Suc c * chunkSize w \<le> readPos w \<longleftrightarrow> Suc c \<le> readPos w div chunkSize w"
    using pos by (simp add: less_eq_div_iff_mult_less_eq)
  then show ?thesis using True chunk_bounds(4)[OF assms(1,2)] by (auto simp: frontier_def)
qed

end
