(* ===== verification/Multipart_Stream.thy ===== *)
theory Multipart_Stream imports Multipart_Window begin

text \<open>
  Concurrent use of one window: a step relation whose steps are the critical sections of
  \<open>Multipart_Window\<close>, for any number of \<open>WriteChunk\<close> calls, one reader and closes at
  any moment.  Two ghost fields record what happened: \<open>got c\<close> is the body the window
  accepted for chunk \<open>c\<close> and \<open>delivered\<close> is everything \<open>Read\<close> has returned.
\<close>

section \<open>The system\<close>

datatype writer =
    WTry int "byte list"
  | WCopy nat nat "byte list"
  | WDone nat nat "byte list" "window_err option"

datatype reader =
    RIdle
  | RBusy nat nat nat nat
  | RDone nat nat "byte list"

record wsys =
  win :: Window
  writers :: "nat \<Rightarrow> writer option"
  rd :: reader
  delivered :: "byte list"
  got :: "nat \<Rightarrow> byte list option"

definition wsys_start :: "Window \<Rightarrow> wsys" where
  "wsys_start w = \<lparr>win = w, writers = (\<lambda>_. None), rd = RIdle, delivered = [], got = (\<lambda>_. None)\<rparr>"

inductive wstep :: "wsys \<Rightarrow> wsys \<Rightarrow> bool" where
  w_start: "writers s i = None \<Longrightarrow>
     wstep s (s\<lparr>writers := (writers s)(i := Some (WTry idx body))\<rparr>)"
| w_wait: "writers s i = Some (WTry idx body) \<Longrightarrow>
     WriteChunk_admit (win s) idx ex = (w, AdmitWait) \<Longrightarrow> wstep s (s\<lparr>win := w\<rparr>)"
| w_reject: "writers s i = Some (WTry idx body) \<Longrightarrow>
     WriteChunk_admit (win s) idx ex = (w, AdmitErr e) \<Longrightarrow>
     wstep s (s\<lparr>win := w, writers := (writers s)(i := None)\<rparr>)"
| w_absorb: "writers s i = Some (WTry idx body) \<Longrightarrow>
     WriteChunk_admit (win s) idx ex = (w, AdmitDone crc) \<Longrightarrow>
     wstep s (s\<lparr>win := w, writers := (writers s)(i := None)\<rparr>)"
| w_slot: "writers s i = Some (WTry idx body) \<Longrightarrow>
     WriteChunk_admit (win s) idx ex = (w, AdmitSlot slot) \<Longrightarrow>
     wstep s (s\<lparr>win := w, writers := (writers s)(i := Some (WCopy (nat idx) slot body))\<rparr>)"
| w_copy: "writers s i = Some (WCopy c slot body) \<Longrightarrow>
     WriteChunk_copy (win s) c slot body = (w, e) \<Longrightarrow>
     wstep s (s\<lparr>win := w,
       writers := (writers s)(i := Some (WDone c slot (take (ChunkLen (win s) c) body) e))\<rparr>)"
| w_fail: "writers s i = Some (WDone c slot data e) \<Longrightarrow>
     WriteChunk_commit (win s) c slot data e = (w, Inl e') \<Longrightarrow>
     wstep s (s\<lparr>win := w, writers := (writers s)(i := None)\<rparr>)"
| w_ready: "writers s i = Some (WDone c slot data e) \<Longrightarrow>
     WriteChunk_commit (win s) c slot data e = (w, Inr crc) \<Longrightarrow>
     wstep s (s\<lparr>win := w, writers := (writers s)(i := None), got := (got s)(c := Some data)\<rparr>)"
| r_check: "rd s = RIdle \<Longrightarrow> Read_check (win s) plen = ReadAt cur slot n off \<Longrightarrow>
     wstep s (s\<lparr>rd := RBusy cur slot n off\<rparr>)"
| r_file: "rd s = RBusy cur slot n off \<Longrightarrow>
     wstep s (s\<lparr>rd := RDone cur slot (Read_file (win s) n off)\<rparr>)"
| r_finish: "rd s = RDone cur slot data \<Longrightarrow> Read_finish (win s) cur slot data = (w, res) \<Longrightarrow>
     wstep s (s\<lparr>win := w, rd := RIdle, delivered := delivered s @ data\<rparr>)"
| close: "wstep s (s\<lparr>win := CloseWithError (win s) e\<rparr>)"

inductive wreach :: "Window \<Rightarrow> wsys \<Rightarrow> bool" for w0 where
  wreach_start: "wreach w0 (wsys_start w0)"
| wreach_step: "wreach w0 s \<Longrightarrow> wstep s t \<Longrightarrow> wreach w0 t"

section \<open>The invariant\<close>

definition inv_geo :: "Window \<Rightarrow> bool" where
  "inv_geo w \<longleftrightarrow> window_geometry w \<and> length (slotState w) = slots w \<and> length (slotChunk w) = slots w
     \<and> length (crcs w) = total w \<and> length (crcSet w) = total w \<and> readPos w \<le> totalSize w"

definition slot_ok :: "Window \<Rightarrow> nat \<Rightarrow> bool" where
  "slot_ok w k \<longleftrightarrow> (if slotState w ! k = slotFree then slotChunk w ! k = -1
     else \<exists>c. slotChunk w ! k = int c \<and> c < total w \<and> c mod slots w = k
            \<and> frontier w \<le> c \<and> c < frontier w + slots w)"

definition inv_slots :: "Window \<Rightarrow> bool" where
  "inv_slots w \<longleftrightarrow> (\<forall>k < slots w. slot_ok w k)"

definition inv_closed :: "Window \<Rightarrow> bool" where
  "inv_closed w \<longleftrightarrow> (f w = None \<longleftrightarrow> err w \<noteq> None)
     \<and> (err w \<noteq> None \<longrightarrow> (\<forall>k < slots w. slotState w ! k = slotFree))"

definition region_ok :: "Window \<Rightarrow> nat \<Rightarrow> byte list \<Rightarrow> bool" where
  "region_ok w k d \<longleftrightarrow> (\<exists>c. f w = Some c \<and> k * chunkSize w + length d \<le> length c
     \<and> file_read_at c (k * chunkSize w) (length d) = d)"

definition inv_got :: "wsys \<Rightarrow> bool" where
  "inv_got s \<longleftrightarrow> (\<forall>c d. got s c = Some d \<longrightarrow> c < total (win s) \<and> length d = ChunkLen (win s) c
     \<and> crcs (win s) ! c = crc32 d \<and> crcSet (win s) ! c
     \<and> (err (win s) = None \<longrightarrow> frontier (win s) \<le> c \<longrightarrow> slot_has (win s) c))"

definition inv_ready :: "wsys \<Rightarrow> bool" where
  "inv_ready s \<longleftrightarrow> (\<forall>k < slots (win s).
     (slotState (win s) ! k = slotReady \<longrightarrow>
        (\<exists>d. got s (nat (slotChunk (win s) ! k)) = Some d \<and> region_ok (win s) k d)) \<and>
     (slotState (win s) ! k = slotFilling \<longrightarrow> got s (nat (slotChunk (win s) ! k)) = None))"

definition inv_front :: "wsys \<Rightarrow> bool" where
  "inv_front s \<longleftrightarrow> (\<forall>c < frontier (win s). got s c \<noteq> None)
     \<and> (readPos (win s) < totalSize (win s) \<and> readPos (win s) mod chunkSize (win s) \<noteq> 0 \<longrightarrow>
          got s (readPos (win s) div chunkSize (win s)) \<noteq> None)"

definition inv_deliv :: "wsys \<Rightarrow> bool" where
  "inv_deliv s \<longleftrightarrow> length (delivered s) = readPos (win s)
     \<and> (\<forall>i < readPos (win s).
          delivered s ! i = the (got s (i div chunkSize (win s))) ! (i mod chunkSize (win s)))"

fun writer_slot :: "writer option \<Rightarrow> (nat \<times> nat) option" where
  "writer_slot (Some (WCopy c k body)) = Some (c, k)"
| "writer_slot (Some (WDone c k data e)) = Some (c, k)"
| "writer_slot _ = None"

definition filling :: "Window \<Rightarrow> nat \<Rightarrow> nat \<Rightarrow> bool" where
  "filling w c k \<longleftrightarrow> slotState w ! k = slotFilling \<and> slotChunk w ! k = int c"

definition inv_writers :: "wsys \<Rightarrow> bool" where
  "inv_writers s \<longleftrightarrow>
     (\<forall>i c k. writer_slot (writers s i) = Some (c, k) \<longrightarrow>
        k = c mod slots (win s) \<and> c < total (win s) \<and> (err (win s) = None \<longrightarrow> filling (win s) c k)) \<and>
     (\<forall>i j c c' k. err (win s) = None \<longrightarrow> writer_slot (writers s i) = Some (c, k) \<longrightarrow>
        writer_slot (writers s j) = Some (c', k) \<longrightarrow> i = j) \<and>
     (\<forall>i c k data. writers s i = Some (WDone c k data None) \<longrightarrow> length data = ChunkLen (win s) c
        \<and> (err (win s) = None \<longrightarrow> region_ok (win s) k data))"

definition inv_filling :: "wsys \<Rightarrow> bool" where
  "inv_filling s \<longleftrightarrow> (\<forall>k < slots (win s). slotState (win s) ! k = slotFilling \<longrightarrow>
     (\<exists>i c. writer_slot (writers s i) = Some (c, k)))"

definition read_at :: "wsys \<Rightarrow> nat \<Rightarrow> nat \<Rightarrow> bool" where
  "read_at s cur k \<longleftrightarrow> readPos (win s) < totalSize (win s)
     \<and> cur = readPos (win s) div chunkSize (win s) \<and> k = cur mod slots (win s)
     \<and> got s cur \<noteq> None"

definition inv_reader :: "wsys \<Rightarrow> bool" where
  "inv_reader s \<longleftrightarrow>
     (\<forall>cur k n off. rd s = RBusy cur k n off \<longrightarrow> read_at s cur k \<and> 0 < n
        \<and> readPos (win s) + n \<le> chunk_end (win s) cur
        \<and> off = k * chunkSize (win s) + readPos (win s) mod chunkSize (win s)) \<and>
     (\<forall>cur k data. rd s = RDone cur k data \<longrightarrow> read_at s cur k
        \<and> readPos (win s) + length data \<le> chunk_end (win s) cur
        \<and> data = take (length data) (drop (readPos (win s) mod chunkSize (win s)) (the (got s cur))))"

definition winv :: "wsys \<Rightarrow> bool" where
  "winv s \<longleftrightarrow> inv_geo (win s) \<and> inv_slots (win s) \<and> inv_closed (win s) \<and> inv_got s \<and> inv_ready s
     \<and> inv_front s \<and> inv_deliv s \<and> inv_writers s \<and> inv_filling s \<and> inv_reader s"

lemma winvI:
  "\<lbrakk>inv_geo (win s); inv_slots (win s); inv_closed (win s); inv_got s; inv_ready s; inv_front s;
    inv_deliv s; inv_writers s; inv_filling s; inv_reader s\<rbrakk> \<Longrightarrow> winv s"
  by (simp add: winv_def)

lemma winvD:
  assumes "winv s"
  shows "inv_geo (win s)" "inv_slots (win s)" "inv_closed (win s)" "inv_got s" "inv_ready s"
    "inv_front s" "inv_deliv s" "inv_writers s" "inv_filling s" "inv_reader s"
  using assms by (simp_all add: winv_def)

lemma inv_writersI:
  assumes "\<And>i c k. writer_slot (writers s i) = Some (c, k) \<Longrightarrow> k = c mod slots (win s) \<and> c < total (win s)"
    and "\<And>i c k. writer_slot (writers s i) = Some (c, k) \<Longrightarrow> err (win s) = None \<Longrightarrow> filling (win s) c k"
    and "\<And>i j c c' k. err (win s) = None \<Longrightarrow> writer_slot (writers s i) = Some (c, k) \<Longrightarrow>
           writer_slot (writers s j) = Some (c', k) \<Longrightarrow> i = j"
    and "\<And>i c k data. writers s i = Some (WDone c k data None) \<Longrightarrow> length data = ChunkLen (win s) c"
    and "\<And>i c k data. writers s i = Some (WDone c k data None) \<Longrightarrow> err (win s) = None \<Longrightarrow>
           region_ok (win s) k data"
  shows "inv_writers s"
  using assms unfolding inv_writers_def by blast

lemma inv_writersD:
  assumes "inv_writers s"
  shows "writer_slot (writers s i) = Some (c, k) \<Longrightarrow> k = c mod slots (win s) \<and> c < total (win s)"
    and "writer_slot (writers s i) = Some (c, k) \<Longrightarrow> err (win s) = None \<Longrightarrow> filling (win s) c k"
    and "err (win s) = None \<Longrightarrow> writer_slot (writers s i) = Some (c, k) \<Longrightarrow>
           writer_slot (writers s j) = Some (c', k) \<Longrightarrow> i = j"
    and "writers s i = Some (WDone c k data None) \<Longrightarrow> length data = ChunkLen (win s) c"
    and "writers s i = Some (WDone c k data None) \<Longrightarrow> err (win s) = None \<Longrightarrow> region_ok (win s) k data"
  using assms unfolding inv_writers_def by blast+

lemmas inv_parts = inv_geo_def inv_slots_def inv_closed_def inv_got_def inv_ready_def
  inv_front_def inv_deliv_def inv_writers_def inv_filling_def inv_reader_def

section \<open>Start\<close>

lemma NewWindow_Return:
  assumes "NewWindow a b cs ts n = Return w" and small: "ts + cs \<le> 2 ^ 63"
  shows "inv_geo w" "inv_slots w" "inv_closed w" "readPos w = 0" "err w = None" "frontier w = 0"
    "chunkSize w = nat cs" "totalSize w = nat ts" "slots w = nat n"
proof -
  have c0: "0 < cs" "0 < ts" "0 < n"
    using assms(1) by (auto simp: NewWindow_def split: if_splits)
  define v where "v = ts + cs - 1"
  have v: "wrap64 (wrap64 (ts + cs) - 1) = v"
  proof (cases "ts + cs = 2 ^ 63")
    case True
    then show ?thesis unfolding v_def by (simp add: wrap64_def)
  next
    case False
    then show ?thesis using c0 small by (simp add: v_def wrap64_id int64_range_def)
  qed
  have d: "go_div v cs = v div cs" using c0 by (simp add: v_def go_div_nonneg)
  have w: "w = \<lparr>f = Some [], chunkSize = nat cs, totalSize = nat ts, total = nat (v div cs),
                slots = nat n, slotState = replicate (nat n) slotFree,
                slotChunk = replicate (nat n) (-1), readPos = 0,
                crcs = replicate (nat (v div cs)) 0, crcSet = replicate (nat (v div cs)) False,
                err = None\<rparr>"
    using assms(1) by (simp add: NewWindow_def Let_def v d split: if_splits)
  have tot: "nat (v div cs) = (nat ts + nat cs - 1) div nat cs"
    using c0 by (simp add: v_def nat_div_distrib nat_add_distrib nat_diff_distrib)
  show "inv_slots w" "inv_closed w" "readPos w = 0" "err w = None"
    "chunkSize w = nat cs" "totalSize w = nat ts" "slots w = nat n"
    using c0 by (auto simp: w inv_slots_def slot_ok_def inv_closed_def)
  show "frontier w = 0" using c0 by (simp add: w frontier_def)
  show "inv_geo w" using c0 by (simp add: inv_geo_def window_geometry_def w tot)
qed

lemma winv_start: "inv_geo w \<Longrightarrow> inv_slots w \<Longrightarrow> inv_closed w \<Longrightarrow> readPos w = 0 \<Longrightarrow>
    frontier w = 0 \<Longrightarrow> (\<forall>k < slots w. slotState w ! k = slotFree) \<Longrightarrow> winv (wsys_start w)"
  by (simp add: winv_def wsys_start_def inv_got_def inv_ready_def inv_front_def inv_deliv_def
      inv_writers_def inv_filling_def inv_reader_def)

section \<open>Frame facts\<close>

text \<open>The geometry does not depend on the slots, the file or the CRC table.\<close>

lemma frontier_cong:
  "readPos w' = readPos w \<Longrightarrow> totalSize w' = totalSize w \<Longrightarrow> total w' = total w \<Longrightarrow>
     chunkSize w' = chunkSize w \<Longrightarrow> frontier w' = frontier w"
  by (simp add: frontier_def)

lemma ChunkLen_cong:
  "totalSize w' = totalSize w \<Longrightarrow> total w' = total w \<Longrightarrow> chunkSize w' = chunkSize w \<Longrightarrow>
     ChunkLen w' c = ChunkLen w c"
  by (simp add: ChunkLen_def)

lemma frame_window [simp]:
  "frontier (w\<lparr>slotState := a\<rparr>) = frontier w" "frontier (w\<lparr>slotChunk := b\<rparr>) = frontier w"
  "frontier (w\<lparr>f := g\<rparr>) = frontier w" "frontier (w\<lparr>crcs := c\<rparr>) = frontier w"
  "frontier (w\<lparr>crcSet := d\<rparr>) = frontier w" "frontier (w\<lparr>err := e\<rparr>) = frontier w"
  "ChunkLen (w\<lparr>slotState := a\<rparr>) = ChunkLen w" "ChunkLen (w\<lparr>slotChunk := b\<rparr>) = ChunkLen w"
  "ChunkLen (w\<lparr>f := g\<rparr>) = ChunkLen w" "ChunkLen (w\<lparr>crcs := c\<rparr>) = ChunkLen w"
  "ChunkLen (w\<lparr>crcSet := d\<rparr>) = ChunkLen w" "ChunkLen (w\<lparr>err := e\<rparr>) = ChunkLen w"
  "ChunkLen (w\<lparr>readPos := p\<rparr>) = ChunkLen w"
  "window_geometry (w\<lparr>slotState := a\<rparr>) = window_geometry w"
  "window_geometry (w\<lparr>slotChunk := b\<rparr>) = window_geometry w"
  "window_geometry (w\<lparr>f := g\<rparr>) = window_geometry w"
  "window_geometry (w\<lparr>crcs := c\<rparr>) = window_geometry w"
  "window_geometry (w\<lparr>crcSet := d\<rparr>) = window_geometry w"
  "window_geometry (w\<lparr>err := e\<rparr>) = window_geometry w"
  "window_geometry (w\<lparr>readPos := p\<rparr>) = window_geometry w"
  by (auto simp: frontier_def ChunkLen_def window_geometry_def fun_eq_iff)

lemma chunk_end_frame [simp]:
  "chunk_end (w\<lparr>slotState := a\<rparr>) = chunk_end w" "chunk_end (w\<lparr>slotChunk := b\<rparr>) = chunk_end w"
  "chunk_end (w\<lparr>f := g\<rparr>) = chunk_end w" "chunk_end (w\<lparr>crcs := c\<rparr>) = chunk_end w"
  "chunk_end (w\<lparr>crcSet := d\<rparr>) = chunk_end w" "chunk_end (w\<lparr>err := e\<rparr>) = chunk_end w"
  "chunk_end (w\<lparr>readPos := p\<rparr>) = chunk_end w"
  by (auto simp: chunk_end_def fun_eq_iff)

lemma region_frame [simp]:
  "region_ok (w\<lparr>slotState := a\<rparr>) = region_ok w" "region_ok (w\<lparr>slotChunk := b\<rparr>) = region_ok w"
  "region_ok (w\<lparr>crcs := c\<rparr>) = region_ok w" "region_ok (w\<lparr>crcSet := d\<rparr>) = region_ok w"
  "region_ok (w\<lparr>err := e\<rparr>) = region_ok w" "region_ok (w\<lparr>readPos := p\<rparr>) = region_ok w"
  by (auto simp: region_ok_def fun_eq_iff)

section \<open>Preservation, step by step\<close>

lemma admit_cases:
  assumes "WriteChunk_admit w idx ex = (w', r)"
  shows "w' = w \<or> (\<exists>slot. r = AdmitSlot slot)"
  using assms
  by (auto simp: WriteChunk_admit_def Let_def split: option.splits if_splits)

lemma admit_slot:
  assumes "WriteChunk_admit w idx ex = (w', AdmitSlot slot)"
  shows "err w = None" "0 \<le> idx" "nat idx < total w" "slot = nat idx mod slots w"
    "slotState w ! slot = slotFree" "nat idx < frontier w + slots w"
    "\<not> chunk_end w (nat idx) \<le> readPos w"
    "w' = w\<lparr>slotState := (slotState w)[slot := slotFilling],
            slotChunk := (slotChunk w)[slot := int (nat idx)]\<rparr>"
  using assms
  by (auto simp: WriteChunk_admit_def Let_def chunk_end_def split: option.splits if_splits)

lemma winv_writer_none:
  assumes "winv s" and "writer_slot (writers s i) = None" and "writer_slot x = None"
  shows "winv (s\<lparr>writers := (writers s)(i := x)\<rparr>)"
proof -
  have ws: "writer_slot (((writers s)(i := x)) j) = writer_slot (writers s j)" for j
    using assms(2,3) by simp
  have nd: "x \<noteq> Some (WDone c k d e)" for c k d e using assms(3) by auto
  show ?thesis
  proof (rule winvI)
    show "inv_writers (s\<lparr>writers := (writers s)(i := x)\<rparr>)"
      using winvD(8)[OF assms(1)] nd unfolding inv_writers_def by (simp add: ws del: fun_upd_apply) (simp add: fun_upd_def)
    show "inv_filling (s\<lparr>writers := (writers s)(i := x)\<rparr>)"
      using winvD(9)[OF assms(1)] unfolding inv_filling_def by (simp add: ws del: fun_upd_apply)
  qed (use winvD[OF assms(1)] in \<open>simp_all add: inv_got_def inv_ready_def inv_front_def inv_deliv_def
      inv_reader_def read_at_def\<close>)
qed

lemma slot_mod_less: "inv_geo w \<Longrightarrow> c mod slots w < slots w"
  by (simp add: inv_geo_def window_geometry_def)

lemma winv_w_slot:
  assumes inv: "winv s" and wr: "writers s i = Some (WTry idx body)"
    and ad: "WriteChunk_admit (win s) idx ex = (w', AdmitSlot k)"
  shows "winv (s\<lparr>win := w', writers := (writers s)(i := Some (WCopy (nat idx) k body))\<rparr>)"
proof -
  let ?w = "win s" and ?c = "nat idx"
  let ?t = "s\<lparr>win := w', writers := (writers s)(i := Some (WCopy ?c k body))\<rparr>"
  note a = admit_slot[OF ad]
  have w': "w' = ?w\<lparr>slotState := (slotState ?w)[k := slotFilling], slotChunk := (slotChunk ?w)[k := int ?c]\<rparr>"
    by (rule a(8))
  note I = winvD[OF inv]
  have kl: "k < slots ?w" "k < length (slotState ?w)" "k < length (slotChunk ?w)"
    using I(1) a(4) slot_mod_less[OF I(1)] by (simp_all add: inv_geo_def)
  have fr: "frontier ?w \<le> ?c"
    using chunk_done_iff[of ?w ?c] a(3,7) I(1) by (auto simp: inv_geo_def)
  have gn: "got s ?c = None"
  proof (rule ccontr)
    assume "got s ?c \<noteq> None"
    then have "slot_has ?w ?c" using I(4) a(1) fr by (auto simp: inv_got_def)
    then show False using a(4,5) by (simp add: slot_has_def)
  qed
  have has: "slot_has w' c" if "slot_has ?w c" for c
  proof -
    have "c mod slots ?w \<noteq> k" using that a(5) by (auto simp: slot_has_def)
    then show ?thesis using that by (simp add: slot_has_def w')
  qed
  have free: "writer_slot (writers s j) \<noteq> Some (c, k)" for j c
    using inv_writersD(2)[OF I(8) _ a(1), of j c k] a(5) by (auto simp: filling_def)
  show ?thesis
  proof (rule winvI)
    show "inv_geo (win ?t)" using I(1) by (simp add: inv_geo_def w')
    show "inv_slots (win ?t)"
      unfolding inv_slots_def
    proof (intro allI impI)
      fix k' assume "k' < slots (win ?t)"
      then have o: "slot_ok ?w k'" using I(2) by (simp add: inv_slots_def w')
      show "slot_ok (win ?t) k'"
      proof (cases "k' = k")
        case True
        have "slotState w' ! k = slotFilling" "slotChunk w' ! k = int ?c"
          using kl by (simp_all add: w')
        moreover have "?c < total w'" "?c mod slots w' = k" "frontier w' \<le> ?c" "?c < frontier w' + slots w'"
          using a(3,4,6) fr by (simp_all add: w')
        ultimately show ?thesis unfolding slot_ok_def True by (auto simp del: int_nat_eq)
      next
        case False
        with o show ?thesis by (simp add: slot_ok_def w')
      qed
    qed
    show "inv_closed (win ?t)" using I(3) a(1) by (simp add: inv_closed_def w')
    show "inv_got ?t" using I(4) has by (simp add: inv_got_def w')
    show "inv_ready ?t" using I(5) kl gn by (auto simp: inv_ready_def w' nth_list_update)
    show "inv_front ?t" using I(6) by (simp add: inv_front_def w')
    show "inv_deliv ?t" using I(7) by (simp add: inv_deliv_def w')
    show "inv_reader ?t" using I(10) by (simp add: inv_reader_def read_at_def w')
    show "inv_filling ?t"
      unfolding inv_filling_def
    proof (intro allI impI)
      fix k' assume k': "k' < slots (win ?t)" "slotState (win ?t) ! k' = slotFilling"
      show "\<exists>j c. writer_slot (writers ?t j) = Some (c, k')"
      proof (cases "k' = k")
        case True
        then show ?thesis by (intro exI[of _ i] exI[of _ ?c]) simp
      next
        case False
        then obtain j c where "writer_slot (writers s j) = Some (c, k')"
          using I(9) k' by (auto simp: inv_filling_def w')
        moreover then have "j \<noteq> i" using wr by auto
        ultimately show ?thesis by (intro exI[of _ j] exI[of _ c]) simp
      qed
    qed
    show "inv_writers ?t"
    proof (rule inv_writersI)
      fix j c' k' assume j: "writer_slot (writers ?t j) = Some (c', k')"
      show "k' = c' mod slots (win ?t) \<and> c' < total (win ?t)"
        using j a(3,4) inv_writersD(1)[OF I(8), of j] by (cases "j = i") (auto simp: w')
      assume "err (win ?t) = None"
      show "filling (win ?t) c' k'"
      proof (cases "j = i")
        case True
        then show ?thesis using j kl by (auto simp: filling_def w')
      next
        case False
        then have "writer_slot (writers s j) = Some (c', k')" using j by simp
        moreover then have "k' \<noteq> k" using free by auto
        ultimately show ?thesis using inv_writersD(2)[OF I(8)] a(1) by (auto simp: filling_def w')
      qed
    next
      fix j j' c1 c2 k'
      assume "writer_slot (writers ?t j) = Some (c1, k')" "writer_slot (writers ?t j') = Some (c2, k')"
      then show "j = j'"
        using free inv_writersD(3)[OF I(8) a(1)] by (cases "j = i"; cases "j' = i") auto
    next
      fix j c' k' data assume "writers ?t j = Some (WDone c' k' data None)"
      then have j: "writers s j = Some (WDone c' k' data None)" by (cases "j = i") auto
      then show "length data = ChunkLen (win ?t) c'" using inv_writersD(4)[OF I(8) j] by (simp add: w')
      show "region_ok (win ?t) k' data" using inv_writersD(5)[OF I(8) j a(1)] by (simp add: w')
    qed
  qed
qed


text \<open>The copy writes one slot's region and leaves the others alone.\<close>

lemma region_write_other:
  assumes "region_ok w k' d" and "k' \<noteq> k" and "length d \<le> chunkSize w"
    and "length data \<le> chunkSize w" and "f w = Some c"
  shows "region_ok (w\<lparr>f := Some (file_write_at c (k * chunkSize w) data)\<rparr>) k' d"
proof -
  have r: "k' * chunkSize w + length d \<le> length c"
    "file_read_at c (k' * chunkSize w) (length d) = d"
    using assms(1,5) by (auto simp: region_ok_def)
  have "k' * chunkSize w + length d \<le> k * chunkSize w
      \<or> k * chunkSize w + length data \<le> k' * chunkSize w"
  proof (cases "k' < k")
    case True
    then have "Suc k' * chunkSize w \<le> k * chunkSize w" by (intro mult_le_mono1) simp
    then show ?thesis using assms(3) by simp
  next
    case False
    then have "Suc k * chunkSize w \<le> k' * chunkSize w" using assms(2) by (intro mult_le_mono1) simp
    then show ?thesis using assms(4) by simp
  qed
  then have "file_read_at (file_write_at c (k * chunkSize w) data) (k' * chunkSize w) (length d) = d"
    using r file_read_at_write_disjoint by metis
  then show ?thesis using r by (simp add: region_ok_def)
qed

lemma region_write_same:
  "region_ok (w\<lparr>f := Some (file_write_at c (k * chunkSize w) data)\<rparr>) k data"
  by (simp add: region_ok_def file_read_at_write_same)

lemma copy_result:
  assumes "WriteChunk_copy w c k body = (w', e)"
  shows "f w = None \<Longrightarrow> w' = w \<and> e = Some ErrIncomplete"
    "f w = Some cont \<Longrightarrow>
       w' = w\<lparr>f := Some (file_write_at cont (k * chunkSize w) (take (ChunkLen w c) body))\<rparr>"
    "e = None \<Longrightarrow> length body = ChunkLen w c"
  using assms by (auto simp: WriteChunk_copy_def Let_def split: option.splits if_splits)

lemma winv_w_copy:
  assumes inv: "winv s" and wr: "writers s i = Some (WCopy c k body)"
    and cp: "WriteChunk_copy (win s) c k body = (w', e)"
  shows "winv (s\<lparr>win := w',
    writers := (writers s)(i := Some (WDone c k (take (ChunkLen (win s) c) body) e))\<rparr>)"
proof -
  let ?w = "win s" and ?data = "take (ChunkLen (win s) c) body"
  let ?t = "s\<lparr>win := w', writers := (writers s)(i := Some (WDone c k ?data e))\<rparr>"
  note I = winvD[OF inv] and r = copy_result[OF cp]
  obtain g where w': "w' = ?w\<lparr>f := g\<rparr>" "g = None \<longleftrightarrow> f ?w = None"
    using r(1,2) by (cases "f ?w") auto
  have ws: "writer_slot (writers ?t j) = writer_slot (writers s j)" for j using wr by simp
  have ck: "k = c mod slots ?w" "c < total ?w" "err ?w = None \<Longrightarrow> filling ?w c k"
    using inv_writersD(1,2)[OF I(8), of i c k] wr by simp_all
  have dl: "length ?data \<le> chunkSize ?w"
    using chunk_bounds(3)[of ?w c] I(1) ck(2) by (simp add: inv_geo_def)
  have keep: "region_ok w' k' d"
    if h: "region_ok ?w k' d" "k' \<noteq> k" "length d \<le> chunkSize ?w" for k' d
  proof -
    obtain cont where fl: "f ?w = Some cont" using h(1) by (auto simp: region_ok_def)
    show ?thesis using region_write_other[OF h dl fl] r(2)[OF fl] by simp
  qed
  have gl: "length d \<le> chunkSize ?w" if "got s x = Some d" for x d
    using I(1,4) that chunk_bounds(3)[of ?w x] by (auto simp: inv_got_def inv_geo_def)
  have open_: "err ?w = None" if "region_ok ?w x d" for x d
    using that I(3) by (auto simp: region_ok_def inv_closed_def)
  show ?thesis
  proof (rule winvI)
    show "inv_geo (win ?t)" using I(1) by (simp add: inv_geo_def w')
    show "inv_slots (win ?t)" using I(2) by (simp add: inv_slots_def slot_ok_def w')
    show "inv_closed (win ?t)" using I(3) w'(2) by (simp add: inv_closed_def w'(1))
    show "inv_got ?t" using I(4) by (simp add: inv_got_def w' slot_has_def)
    show "inv_front ?t" using I(6) by (simp add: inv_front_def w')
    show "inv_deliv ?t" using I(7) by (simp add: inv_deliv_def w')
    show "inv_reader ?t" using I(10) by (simp add: inv_reader_def read_at_def w')
    show "inv_filling ?t"
      using I(9) unfolding inv_filling_def ws by (simp add: w'(1))
    show "inv_ready ?t"
      unfolding inv_ready_def
    proof (intro allI impI conjI)
      fix k' assume k': "k' < slots (win ?t)"
      { assume "slotState (win ?t) ! k' = slotReady"
        then obtain d where d: "got s (nat (slotChunk ?w ! k')) = Some d" "region_ok ?w k' d"
          using I(5) k' by (auto simp: inv_ready_def w'(1))
        have "k' \<noteq> k"
          using ck(3)[OF open_[OF d(2)]] \<open>slotState (win ?t) ! k' = slotReady\<close>
          by (auto simp: filling_def w'(1))
        then show "\<exists>d. got ?t (nat (slotChunk (win ?t) ! k')) = Some d \<and> region_ok (win ?t) k' d"
          using d keep[OF d(2) _ gl[OF d(1)]] by (simp add: w'(1)) }
      { assume "slotState (win ?t) ! k' = slotFilling"
        then show "got ?t (nat (slotChunk (win ?t) ! k')) = None"
          using I(5) k' by (auto simp: inv_ready_def w'(1)) }
    qed
    show "inv_writers ?t"
    proof (rule inv_writersI)
      fix j x k' data assume j: "writers ?t j = Some (WDone x k' data None)"
      show "length data = ChunkLen (win ?t) x"
        using j r(3) inv_writersD(4)[OF I(8), of j] by (cases "j = i") (auto simp: w'(1))
      assume op: "err (win ?t) = None"
      show "region_ok (win ?t) k' data"
      proof (cases "j = i")
        case True
        then have "k' = k" "data = ?data" using j by auto
        moreover obtain cont where "f ?w = Some cont" using op I(3) by (auto simp: w'(1) inv_closed_def)
        ultimately show ?thesis using r(2) region_write_same by simp
      next
        case False
        have o: "err ?w = None" using op by (simp add: w'(1))
        have js: "writers s j = Some (WDone x k' data None)" using j False by simp
        have "k' \<noteq> k"
        proof
          assume "k' = k"
          then have "j = i" using inv_writersD(3)[OF I(8) o, of j x k i c] js wr by simp
          then show False using False by simp
        qed
        moreover have "length data \<le> chunkSize ?w"
          using inv_writersD(4)[OF I(8) js] inv_writersD(1)[OF I(8), of j x k'] js I(1)
            chunk_bounds(3)[of ?w x] by (simp add: inv_geo_def)
        ultimately show ?thesis using keep inv_writersD(5)[OF I(8) js o] by simp
      qed
    next
      fix j x k' assume "writer_slot (writers ?t j) = Some (x, k')"
      then have j: "writer_slot (writers s j) = Some (x, k')" by (simp only: ws)
      show "k' = x mod slots (win ?t) \<and> x < total (win ?t)"
        using inv_writersD(1)[OF I(8) j] by (simp add: w'(1))
      show "filling (win ?t) x k'" if "err (win ?t) = None"
        using inv_writersD(2)[OF I(8) j] that by (simp add: w'(1) filling_def)
    next
      fix j j' c1 c2 k'
      assume "err (win ?t) = None" "writer_slot (writers ?t j) = Some (c1, k')"
        "writer_slot (writers ?t j') = Some (c2, k')"
      then show "j = j'" using inv_writersD(3)[OF I(8)] unfolding ws by (simp add: w'(1))
    qed
  qed
qed


text \<open>Committing: the slot is given back or becomes readable.\<close>

lemma commit_cases:
  assumes "WriteChunk_commit w c k data e = (w', r)"
  shows "\<not> filling w c k \<and> w' = w \<and> (\<exists>x. r = Inl x)
    \<or> filling w c k \<and> (e \<noteq> None \<or> err w \<noteq> None) \<and> (\<exists>x. r = Inl x)
        \<and> w' = w\<lparr>slotState := (slotState w)[k := slotFree], slotChunk := (slotChunk w)[k := -1]\<rparr>
    \<or> filling w c k \<and> e = None \<and> err w = None \<and> r = Inr (crc32 data)
        \<and> w' = w\<lparr>slotState := (slotState w)[k := slotReady], crcs := (crcs w)[c := crc32 data],
                crcSet := (crcSet w)[c := True]\<rparr>"
  using assms by (auto simp: WriteChunk_commit_def filling_def split: if_splits option.splits)

lemma closed_not_filling: "inv_closed w \<Longrightarrow> k < slots w \<Longrightarrow> slotState w ! k \<noteq> slotFree \<Longrightarrow> err w = None"
  by (auto simp: inv_closed_def)

lemma winv_w_fail:
  assumes inv: "winv s" and wr: "writers s i = Some (WDone c k data e)"
    and cm: "WriteChunk_commit (win s) c k data e = (w', Inl e')"
  shows "winv (s\<lparr>win := w', writers := (writers s)(i := None)\<rparr>)"
proof -
  let ?w = "win s" and ?t = "s\<lparr>win := w', writers := (writers s)(i := None)\<rparr>"
  note I = winvD[OF inv]
  have ck: "k = c mod slots ?w" "c < total ?w" "err ?w = None \<Longrightarrow> filling ?w c k"
    using inv_writersD(1,2)[OF I(8), of i c k] wr by simp_all
  have kl: "k < slots ?w" "k < length (slotState ?w)" "k < length (slotChunk ?w)"
    using I(1) ck(1) slot_mod_less[OF I(1)] by (simp_all add: inv_geo_def)
  have ws: "writer_slot (writers ?t j) = (if j = i then None else writer_slot (writers s j))" for j
    by simp
  obtain ss sc where w': "w' = ?w\<lparr>slotState := ss, slotChunk := sc\<rparr>"
    and len: "length ss = length (slotState ?w)" "length sc = length (slotChunk ?w)"
    and other: "\<And>k'. k' \<noteq> k \<Longrightarrow> ss ! k' = slotState ?w ! k' \<and> sc ! k' = slotChunk ?w ! k'"
    and here: "ss ! k = slotFree" "sc ! k = -1"
  proof (cases "filling ?w c k")
    case True
    then show thesis using commit_cases[OF cm] kl
      by (intro that[where ss = "(slotState ?w)[k := slotFree]" and sc = "(slotChunk ?w)[k := -1]"]) auto
  next
    case False
    then have "err ?w \<noteq> None" using ck(3) by auto
    then have "slotState ?w ! k = slotFree" "slotChunk ?w ! k = -1"
      using I(2,3) kl(1) by (auto simp: inv_closed_def inv_slots_def slot_ok_def)
    then show thesis using False commit_cases[OF cm]
      by (intro that[where ss = "slotState ?w" and sc = "slotChunk ?w"]) auto
  qed
  have nr: "err ?w = None \<Longrightarrow> slotState ?w ! k = slotFilling" using ck(3) by (simp add: filling_def)
  have has: "slot_has w' x" if "err ?w = None" "slot_has ?w x" for x
  proof -
    have "x mod slots ?w \<noteq> k" using that nr by (auto simp: slot_has_def)
    then show ?thesis using that(2) other by (simp add: slot_has_def w')
  qed
  show ?thesis
  proof (rule winvI)
    show "inv_geo (win ?t)" using I(1) by (simp add: inv_geo_def w' len)
    show "inv_slots (win ?t)"
      unfolding inv_slots_def
    proof (intro allI impI)
      fix k' assume "k' < slots (win ?t)"
      then have "slot_ok ?w k'" using I(2) by (simp add: inv_slots_def w')
      then show "slot_ok (win ?t) k'"
        using here other[of k'] by (cases "k' = k") (simp_all add: slot_ok_def w')
    qed
    show "inv_closed (win ?t)"
      using I(3) here other unfolding inv_closed_def by (auto simp: w') (metis)
    show "inv_got ?t" using I(4) has by (simp add: inv_got_def w')
    show "inv_ready ?t"
      unfolding inv_ready_def
    proof (intro allI)
      fix k' show "k' < slots (win ?t) \<longrightarrow>
        (slotState (win ?t) ! k' = slotReady \<longrightarrow>
          (\<exists>d. got ?t (nat (slotChunk (win ?t) ! k')) = Some d \<and> region_ok (win ?t) k' d)) \<and>
        (slotState (win ?t) ! k' = slotFilling \<longrightarrow> got ?t (nat (slotChunk (win ?t) ! k')) = None)"
        using I(5) here other[of k'] by (cases "k' = k") (auto simp: inv_ready_def w')
    qed
    show "inv_front ?t" using I(6) by (simp add: inv_front_def w')
    show "inv_deliv ?t" using I(7) by (simp add: inv_deliv_def w')
    show "inv_reader ?t" using I(10) by (simp add: inv_reader_def read_at_def w')
    show "inv_filling ?t"
      unfolding inv_filling_def
    proof (intro allI impI)
      fix k' assume k': "k' < slots (win ?t)" "slotState (win ?t) ! k' = slotFilling"
      then have "k' \<noteq> k" using here by (auto simp: w')
      then obtain j x where "writer_slot (writers s j) = Some (x, k')"
        using I(9) k' other[of k'] by (auto simp: inv_filling_def w')
      moreover then have "j \<noteq> i" using wr \<open>k' \<noteq> k\<close> by auto
      ultimately show "\<exists>j x. writer_slot (writers ?t j) = Some (x, k')" by (auto simp: ws)
    qed
    show "inv_writers ?t"
    proof (rule inv_writersI)
      fix j x k' assume "writer_slot (writers ?t j) = Some (x, k')"
      then have j: "j \<noteq> i" "writer_slot (writers s j) = Some (x, k')" by (auto simp: ws split: if_splits)
      show "k' = x mod slots (win ?t) \<and> x < total (win ?t)"
        using inv_writersD(1)[OF I(8) j(2)] by (simp add: w')
      assume "err (win ?t) = None"
      then have o: "err ?w = None" by (simp add: w')
      have "k' \<noteq> k" using inv_writersD(3)[OF I(8) o j(2), of i c] wr j(1) by auto
      then show "filling (win ?t) x k'"
        using inv_writersD(2)[OF I(8) j(2) o] other by (simp add: filling_def w')
    next
      fix j j' c1 c2 k'
      assume "err (win ?t) = None" "writer_slot (writers ?t j) = Some (c1, k')"
        "writer_slot (writers ?t j') = Some (c2, k')"
      then show "j = j'"
        using inv_writersD(3)[OF I(8)] unfolding ws by (auto simp: w' split: if_splits)
    next
      fix j x k' d assume "writers ?t j = Some (WDone x k' d None)"
      then have j: "writers s j = Some (WDone x k' d None)" by (cases "j = i") auto
      show "length d = ChunkLen (win ?t) x" using inv_writersD(4)[OF I(8) j] by (simp add: w')
      show "region_ok (win ?t) k' d" if "err (win ?t) = None"
        using inv_writersD(5)[OF I(8) j] that by (simp add: w')
    qed
  qed
qed

lemma got_read:
  assumes "winv s" and "p < readPos (win s)"
  shows "got s (p div chunkSize (win s)) \<noteq> None"
proof -
  note I = winvD[OF assms(1)]
  have g: "window_geometry (win s)" "readPos (win s) \<le> totalSize (win s)"
    using I(1) by (simp_all add: inv_geo_def)
  have pos: "0 < chunkSize (win s)" using g(1) by (simp add: window_geometry_def)
  let ?q = "p div chunkSize (win s)"
  show ?thesis
  proof (cases "?q < frontier (win s)")
    case True
    then show ?thesis using I(6) by (simp add: inv_front_def)
  next
    case False
    have "?q < total (win s)" using pos_chunk(1)[OF g(1), of p] assms(2) g(2) by simp
    with False have lt: "readPos (win s) < totalSize (win s)" by (auto simp: frontier_def split: if_splits)
    with False have eq: "?q = readPos (win s) div chunkSize (win s)"
      using assms(2) div_le_mono[of p "readPos (win s)" "chunkSize (win s)"]
      by (auto simp: frontier_def)
    have "readPos (win s) mod chunkSize (win s) \<noteq> 0"
    proof
      assume "readPos (win s) mod chunkSize (win s) = 0"
      then have "readPos (win s) = ?q * chunkSize (win s)" using eq by (metis add.right_neutral div_mult_mod_eq)
      then show False using assms(2) by (metis div_times_less_eq_dividend not_less)
    qed
    then show ?thesis using I(6) lt eq by (simp add: inv_front_def)
  qed
qed

lemma winv_w_ready:
  assumes inv: "winv s" and wr: "writers s i = Some (WDone c k data e)"
    and cm: "WriteChunk_commit (win s) c k data e = (w', Inr crc)"
  shows "winv (s\<lparr>win := w', writers := (writers s)(i := None), got := (got s)(c := Some data)\<rparr>)"
proof -
  let ?w = "win s"
  let ?t = "s\<lparr>win := w', writers := (writers s)(i := None), got := (got s)(c := Some data)\<rparr>"
  note I = winvD[OF inv]
  have fi: "filling ?w c k" "e = None" "err ?w = None"
    and w': "w' = ?w\<lparr>slotState := (slotState ?w)[k := slotReady], crcs := (crcs ?w)[c := crc32 data],
                crcSet := (crcSet ?w)[c := True]\<rparr>"
    using commit_cases[OF cm] by auto
  have ck: "k = c mod slots ?w" "c < total ?w"
    using inv_writersD(1)[OF I(8), of i c k] wr by simp_all
  have dt: "length data = ChunkLen ?w c" "region_ok ?w k data"
    using inv_writersD(4,5)[OF I(8), of i c k data] wr fi by simp_all
  have kl: "k < slots ?w" "k < length (slotState ?w)" "k < length (slotChunk ?w)"
    "c < length (crcs ?w)" "c < length (crcSet ?w)"
    using I(1) ck slot_mod_less[OF I(1)] by (simp_all add: inv_geo_def)
  have sk: "slotState ?w ! k = slotFilling" "slotChunk ?w ! k = int c"
    using fi(1) by (simp_all add: filling_def)
  have gn: "got s c = None" using I(5) sk kl(1) by (auto simp: inv_ready_def)
  have old: "got s x \<noteq> None \<Longrightarrow> x \<noteq> c" for x using gn by auto
  have has: "slot_has w' x" if "slot_has ?w x" for x
  proof -
    have "x mod slots ?w \<noteq> k" using that sk by (auto simp: slot_has_def)
    then show ?thesis using that by (simp add: slot_has_def w')
  qed
  have hasc: "slot_has w' c" using kl sk ck by (simp add: slot_has_def w')
  show ?thesis
  proof (rule winvI)
    show "inv_geo (win ?t)" using I(1) by (simp add: inv_geo_def w')
    show "inv_slots (win ?t)"
      unfolding inv_slots_def
    proof (intro allI impI)
      fix k' assume "k' < slots (win ?t)"
      then have "slot_ok ?w k'" using I(2) by (simp add: inv_slots_def w')
      then show "slot_ok (win ?t) k'"
        using kl sk by (cases "k' = k") (auto simp: slot_ok_def w')
    qed
    show "inv_closed (win ?t)" using I(3) fi(3) by (simp add: inv_closed_def w')
    show "inv_got ?t"
      using I(4) has hasc kl ck dt(1) by (auto simp: inv_got_def w' nth_list_update)
    show "inv_ready ?t"
      unfolding inv_ready_def
    proof (intro allI impI)
      fix k' assume k': "k' < slots (win ?t)"
      show "(slotState (win ?t) ! k' = slotReady \<longrightarrow>
          (\<exists>d. got ?t (nat (slotChunk (win ?t) ! k')) = Some d \<and> region_ok (win ?t) k' d)) \<and>
        (slotState (win ?t) ! k' = slotFilling \<longrightarrow> got ?t (nat (slotChunk (win ?t) ! k')) = None)"
      proof (cases "k' = k")
        case True
        then show ?thesis using kl sk dt(2) by (simp add: w')
      next
        case False
        have ne: "nat (slotChunk ?w ! k') \<noteq> c" if "slotState ?w ! k' \<noteq> slotFree"
        proof
          assume "nat (slotChunk ?w ! k') = c"
          moreover have "slot_ok ?w k'" using I(2) k' by (simp add: inv_slots_def w')
          ultimately have "c mod slots ?w = k'" using that by (auto simp: slot_ok_def)
          then show False using False ck(1) by simp
        qed
        then show ?thesis using I(5) k' False by (auto simp: inv_ready_def w')
      qed
    qed
    show "inv_front ?t" using I(6) by (auto simp: inv_front_def w')
    show "inv_deliv ?t"
      using I(7) got_read[OF inv] old by (auto simp: inv_deliv_def w')
    show "inv_reader ?t"
      using I(10) old by (auto simp: inv_reader_def read_at_def w')
    show "inv_filling ?t"
      unfolding inv_filling_def
    proof (intro allI impI)
      fix k' assume k': "k' < slots (win ?t)" "slotState (win ?t) ! k' = slotFilling"
      then have "k' \<noteq> k" using kl by (auto simp: w')
      then obtain j x where "writer_slot (writers s j) = Some (x, k')"
        using I(9) k' by (auto simp: inv_filling_def w')
      moreover then have "j \<noteq> i" using wr \<open>k' \<noteq> k\<close> by auto
      ultimately show "\<exists>j x. writer_slot (writers ?t j) = Some (x, k')"
        by (intro exI[of _ j] exI[of _ x]) simp
    qed
    show "inv_writers ?t"
    proof (rule inv_writersI)
      fix j x k' assume "writer_slot (writers ?t j) = Some (x, k')"
      then have j: "j \<noteq> i" "writer_slot (writers s j) = Some (x, k')" by (cases "j = i"; simp)+
      show "k' = x mod slots (win ?t) \<and> x < total (win ?t)"
        using inv_writersD(1)[OF I(8) j(2)] by (simp add: w')
      have "k' \<noteq> k" using inv_writersD(3)[OF I(8) fi(3) j(2), of i c] wr j(1) by auto
      then show "filling (win ?t) x k'"
        using inv_writersD(2)[OF I(8) j(2) fi(3)] by (simp add: filling_def w')
    next
      fix j j' c1 c2 k'
      assume "writer_slot (writers ?t j) = Some (c1, k')" "writer_slot (writers ?t j') = Some (c2, k')"
      then show "j = j'"
        using inv_writersD(3)[OF I(8) fi(3)] by (cases "j = i"; cases "j' = i") auto
    next
      fix j x k' d assume "writers ?t j = Some (WDone x k' d None)"
      then have j: "writers s j = Some (WDone x k' d None)" by (cases "j = i") auto
      show "length d = ChunkLen (win ?t) x" using inv_writersD(4)[OF I(8) j] by (simp add: w')
      show "region_ok (win ?t) k' d" using inv_writersD(5)[OF I(8) j fi(3)] by (simp add: w')
    qed
  qed
qed


text \<open>The reader: it reads the region of the chunk at the frontier and then moves the frontier.\<close>

lemma read_check_at:
  assumes "Read_check w plen = ReadAt cur k n off"
  shows "err w = None" "readPos w < totalSize w" "cur = readPos w div chunkSize w"
    "k = cur mod slots w" "slot_has w cur" "0 < plen" "n = min plen (chunk_end w cur - readPos w)"
    "off = k * chunkSize w + readPos w mod chunkSize w"
  using assms
  by (auto simp: Read_check_def Let_def slot_has_def chunk_end_def minus_div_mult_eq_mod
      split: option.splits if_splits)

lemma ready_got:
  assumes "winv s" and "slot_has (win s) c" and "c < total (win s)"
  shows "\<exists>d. got s c = Some d \<and> region_ok (win s) (c mod slots (win s)) d"
  using winvD(5)[OF assms(1)] slot_mod_less[OF winvD(1)[OF assms(1)], of c] assms(2)
  by (auto simp: inv_ready_def slot_has_def)

lemma winv_rd:
  assumes "winv s" and "inv_reader (s\<lparr>rd := r\<rparr>)"
  shows "winv (s\<lparr>rd := r\<rparr>)"
  using winvD[OF assms(1)] assms(2)
  by (intro winvI) (simp_all add: inv_got_def inv_ready_def inv_front_def inv_deliv_def
      inv_writers_def inv_filling_def)

lemma winv_r_check:
  assumes "winv s" and "Read_check (win s) plen = ReadAt cur k n off"
  shows "winv (s\<lparr>rd := RBusy cur k n off\<rparr>)"
proof (rule winv_rd[OF assms(1)])
  note r = read_check_at[OF assms(2)]
  have g: "window_geometry (win s)" using winvD(1)[OF assms(1)] by (simp add: inv_geo_def)
  note p = pos_chunk[OF g r(2), folded r(3)]
  obtain d where "got s cur = Some d" using ready_got[OF assms(1) r(5) p(1)] by blast
  then show "inv_reader (s\<lparr>rd := RBusy cur k n off\<rparr>)"
    using r(2-4,6-8) p(3) by (simp add: inv_reader_def read_at_def)
qed

lemma winv_r_file:
  assumes inv: "winv s" and rd: "rd s = RBusy cur k n off"
  shows "winv (s\<lparr>rd := RDone cur k (Read_file (win s) n off)\<rparr>)"
proof (rule winv_rd[OF inv])
  let ?w = "win s" and ?m = "readPos (win s) mod chunkSize (win s)"
  note I = winvD[OF inv]
  have b: "read_at s cur k" "readPos ?w + n \<le> chunk_end ?w cur"
    "off = k * chunkSize ?w + ?m"
    using I(10) rd by (simp_all add: inv_reader_def)
  have g: "window_geometry ?w" using I(1) by (simp add: inv_geo_def)
  have cur: "cur = readPos ?w div chunkSize ?w" "readPos ?w < totalSize ?w"
    using b(1) by (simp_all add: read_at_def)
  have ch: "chunk_end ?w cur = cur * chunkSize ?w + ChunkLen ?w cur" by (simp add: chunk_end_def)
  have pos: "readPos ?w = cur * chunkSize ?w + ?m" by (simp add: cur(1))
  have mn: "?m + n \<le> ChunkLen ?w cur" using b(2) ch pos by linarith
  obtain d where d: "got s cur = Some d" using b(1) by (auto simp: read_at_def)
  have dl: "length d = ChunkLen ?w cur" using I(4) d by (simp add: inv_got_def)
  show "inv_reader (s\<lparr>rd := RDone cur k (Read_file ?w n off)\<rparr>)"
  proof (cases "f ?w")
    case None
    moreover have "readPos ?w \<le> chunk_end ?w cur" using b(2) by linarith
    ultimately show ?thesis using b(1) by (auto simp: inv_reader_def read_at_def Read_file_def)
  next
    case (Some cont)
    then have open_: "err ?w = None" using I(3) by (simp add: inv_closed_def)
    have "slot_has ?w cur"
      using I(4) d open_ cur by (simp add: inv_got_def frontier_def)
    moreover have "k = cur mod slots ?w" using b(1) by (simp add: read_at_def)
    ultimately have "region_ok ?w k d"
      using ready_got[OF inv _ pos_chunk(1)[OF g cur(2), folded cur(1)]] d by auto
    then have r: "k * chunkSize ?w + length d \<le> length cont"
      "file_read_at cont (k * chunkSize ?w) (length d) = d"
      using Some by (auto simp: region_ok_def)
    have rf: "Read_file ?w n off = take n (drop ?m d)"
    proof -
      have "take n (drop ?m d) = take n (drop ?m (take (length d) (drop (k * chunkSize ?w) cont)))"
        using r(2) by (simp add: file_read_at_def)
      also have "\<dots> = take n (drop (?m + k * chunkSize ?w) cont)"
        using mn dl by (simp add: drop_take min_def)
      finally show ?thesis using Some b(3) by (simp add: Read_file_def file_read_at_def add.commute)
    qed
    moreover have "length (take n (drop ?m d)) = n" using mn dl by simp
    ultimately show ?thesis using b d by (simp add: inv_reader_def read_at_def)
  qed
qed


lemma finish_cases:
  assumes "Read_finish w cur k data = (w', res)"
  shows "data = [] \<and> w' = w \<and> (\<exists>e. res = Inl e)
    \<or> data \<noteq> [] \<and> res = Inr data
      \<and> w' = (if chunk_end w cur \<le> readPos w + length data
             then w\<lparr>readPos := readPos w + length data, slotState := (slotState w)[k := slotFree],
                    slotChunk := (slotChunk w)[k := -1]\<rparr>
             else w\<lparr>readPos := readPos w + length data\<rparr>)"
  using assms by (auto simp: Read_finish_def Let_def chunk_end_def split: if_splits)

lemma frontier_advance:
  assumes g: "window_geometry w" and p: "readPos w < totalSize w" "cur = readPos w div chunkSize w"
    and q: "readPos w \<le> q" "q \<le> chunk_end w cur"
  shows "frontier (w\<lparr>readPos := q\<rparr>) = (if q = chunk_end w cur then Suc cur else cur)"
    "q < totalSize w \<Longrightarrow> q div chunkSize w = (if q = chunk_end w cur then Suc cur else cur)"
    "q = chunk_end w cur \<Longrightarrow> q < totalSize w \<Longrightarrow> q mod chunkSize w = 0"
proof -
  have pos: "0 < chunkSize w" using g by (simp add: window_geometry_def)
  have ct: "cur < total w" using pos_chunk(1)[OF g p(1)] p(2) by simp
  note ce = chunk_bounds(4)[OF g ct]
  have lo: "cur * chunkSize w \<le> q" using order_trans[OF div_times_less_eq_dividend q(1)] p(2) by simp
  have inside: "q div chunkSize w = cur" if "q < chunk_end w cur"
  proof (rule div_nat_eqI)
    show "chunkSize w * cur \<le> q" using lo by (simp add: mult.commute)
    show "q < chunkSize w * Suc cur" using that ce by (simp add: mult.commute)
  qed
  have ends: "q = Suc cur * chunkSize w" if "q = chunk_end w cur" "q < totalSize w"
    using that ce by (simp add: min_def split: if_splits)
  have m0: "q mod chunkSize w = 0" if "q = chunk_end w cur" "q < totalSize w"
    using ends[OF that] by simp
  have dv: "q div chunkSize w = (if q = chunk_end w cur then Suc cur else cur)" if "q < totalSize w"
    using ends that inside q(2) pos by (cases "q = chunk_end w cur") auto
  have full: "Suc cur = total w" if "totalSize w \<le> q"
  proof (rule ccontr)
    assume "Suc cur \<noteq> total w"
    then have "Suc cur < total w" using ct by simp
    then show False using chunk_bounds(1)[OF g, of "Suc cur"] ce q(2) that by linarith
  qed
  have fr: "frontier (w\<lparr>readPos := q\<rparr>) = (if q = chunk_end w cur then Suc cur else cur)"
  proof (cases "totalSize w \<le> q")
    case True
    then have "q = chunk_end w cur" using q(2) ce by simp
    then show ?thesis using True full by (simp add: frontier_def)
  next
    case False
    then show ?thesis using dv by (simp add: frontier_def)
  qed
  show "frontier (w\<lparr>readPos := q\<rparr>) = (if q = chunk_end w cur then Suc cur else cur)"
    "q < totalSize w \<Longrightarrow> q div chunkSize w = (if q = chunk_end w cur then Suc cur else cur)"
    "q = chunk_end w cur \<Longrightarrow> q < totalSize w \<Longrightarrow> q mod chunkSize w = 0"
    by (fact fr, fact dv, fact m0)
qed

lemma winv_r_finish:
  assumes inv: "winv s" and rd: "rd s = RDone cur k data"
    and fin: "Read_finish (win s) cur k data = (w', res)"
  shows "winv (s\<lparr>win := w', rd := RIdle, delivered := delivered s @ data\<rparr>)"
proof (cases "data = []")
  case True
  then have "w' = win s" using finish_cases[OF fin] by simp
  moreover have "winv (s\<lparr>rd := RIdle\<rparr>)" by (rule winv_rd[OF inv]) (simp add: inv_reader_def)
  ultimately show ?thesis using True by simp
next
  case False
  let ?w = "win s" and ?q = "readPos (win s) + length data"
  let ?t = "s\<lparr>win := w', rd := RIdle, delivered := delivered s @ data\<rparr>"
  note I = winvD[OF inv]
  have g: "window_geometry ?w" using I(1) by (simp add: inv_geo_def)
  have b: "read_at s cur k" "?q \<le> chunk_end ?w cur"
    "data = take (length data) (drop (readPos ?w mod chunkSize ?w) (the (got s cur)))"
    using I(10) rd by (simp_all add: inv_reader_def)
  have cur: "cur = readPos ?w div chunkSize ?w" "readPos ?w < totalSize ?w" "k = cur mod slots ?w"
    using b(1) by (simp_all add: read_at_def)
  obtain d where d: "got s cur = Some d" using b(1) by (auto simp: read_at_def)
  have ct: "cur < total ?w" using pos_chunk(1)[OF g cur(2)] cur(1) by simp
  note fa = frontier_advance[OF g cur(2,1), of ?q]
  define fin where "fin \<longleftrightarrow> ?q = chunk_end ?w cur"
  have fr: "frontier ?w = cur" using cur(1,2) by (simp add: frontier_def)
  have fq: "frontier (?w\<lparr>readPos := ?q\<rparr>) = (if fin then Suc cur else cur)"
    using fa(1) b(2) by (simp add: fin_def)
  obtain ss sc where w': "w' = ?w\<lparr>readPos := ?q, slotState := ss, slotChunk := sc\<rparr>"
    and ss: "ss = (if fin then (slotState ?w)[k := slotFree] else slotState ?w)"
    and sc: "sc = (if fin then (slotChunk ?w)[k := -1] else slotChunk ?w)"
    using finish_cases[OF assms(3)] False b(2) by (cases fin) (auto simp: fin_def)
  have len: "length ss = slots ?w" "length sc = slots ?w" using I(1) by (auto simp: ss sc inv_geo_def)
  have kl: "k < slots ?w" using cur(3) slot_mod_less[OF I(1)] by simp
  have here: "ss ! k = slotFree \<and> sc ! k = -1" if fin
    using that kl I(1) by (simp add: ss sc inv_geo_def)
  have other: "ss ! k' = slotState ?w ! k' \<and> sc ! k' = slotChunk ?w ! k'" if "fin \<longrightarrow> k' \<noteq> k" for k'
    using that by (auto simp: ss sc)
  have rdy: "slot_has ?w cur" if "err ?w = None" using I(4) d that fr by (simp add: inv_got_def)
  have nochunk: "slotState ?w ! k' = slotFree \<or> slotChunk ?w ! k' \<noteq> int cur"
    if "k' < slots ?w" "k' \<noteq> k" for k'
    using I(2) that cur(3) by (auto simp: inv_slots_def slot_ok_def)
  have fill: "filling w' c k'" if "filling ?w c k'" "err ?w = None" for c k'
  proof -
    have "k' \<noteq> k" using that rdy by (auto simp: filling_def slot_has_def cur(3))
    then show ?thesis using that(1) other by (simp add: filling_def w')
  qed
  show ?thesis
  proof (rule winvI)
    show "inv_geo (win ?t)"
      using I(1) len b(2) chunk_bounds(4)[OF g ct] by (simp add: inv_geo_def w')
    show "inv_slots (win ?t)"
      unfolding inv_slots_def
    proof (intro allI impI)
      fix k' assume k': "k' < slots (win ?t)"
      then have o: "slot_ok ?w k'" using I(2) by (simp add: inv_slots_def w')
      have f': "frontier (win ?t) = (if fin then Suc cur else cur)" using fq by (simp add: w')
      show "slot_ok (win ?t) k'"
      proof (cases "fin \<and> k' = k")
        case True
        then show ?thesis using here by (simp add: slot_ok_def w')
      next
        case F: False
        then have e: "ss ! k' = slotState ?w ! k'" "sc ! k' = slotChunk ?w ! k'" using other by auto
        show ?thesis
        proof (cases "slotState ?w ! k' = slotFree")
          case True
          then show ?thesis using o e by (simp add: slot_ok_def w')
        next
          case nf: False
          then obtain c where c: "slotChunk ?w ! k' = int c" "c < total ?w" "c mod slots ?w = k'"
            "cur \<le> c" "c < cur + slots ?w"
            using o fr by (auto simp: slot_ok_def)
          have "fin \<Longrightarrow> Suc cur \<le> c" using F c(3,4) cur(3) by (cases "c = cur") auto
          then have "frontier (win ?t) \<le> c \<and> c < frontier (win ?t) + slots ?w"
            using f' c(4,5) by simp
          then show ?thesis using nf e c unfolding slot_ok_def by (auto simp: w')
        qed
      qed
    qed
    show "inv_closed (win ?t)"
      using I(3) here other unfolding inv_closed_def by (simp add: w') (metis)
    show "inv_got ?t"
      unfolding inv_got_def
    proof (intro allI impI)
      fix c x assume "got ?t c = Some x"
      then have gx: "c < total ?w \<and> length x = ChunkLen ?w c \<and> crcs ?w ! c = crc32 x \<and> crcSet ?w ! c"
        "err ?w = None \<Longrightarrow> frontier ?w \<le> c \<Longrightarrow> slot_has ?w c"
        using I(4) by (auto simp: inv_got_def)
      have "slot_has w' c" if h: "err w' = None" "frontier w' \<le> c"
      proof -
        have cc: "cur \<le> c" "fin \<longrightarrow> Suc cur \<le> c" using h(2) fq by (auto simp: w' split: if_splits)
        have sh: "slot_has ?w c" using gx(2) h(1) cc fr by (simp add: w')
        have "c mod slots ?w \<noteq> k" if fin
        proof
          assume "c mod slots ?w = k"
          then have "slotChunk ?w ! k = int c" using sh by (simp add: slot_has_def)
          moreover have "slotChunk ?w ! k = int cur" using rdy h(1) by (simp add: slot_has_def cur(3) w')
          ultimately show False using cc that by simp
        qed
        then show ?thesis using sh other by (auto simp: slot_has_def w')
      qed
      then show "c < total (win ?t) \<and> length x = ChunkLen (win ?t) c \<and> crcs (win ?t) ! c = crc32 x
        \<and> crcSet (win ?t) ! c
        \<and> (err (win ?t) = None \<longrightarrow> frontier (win ?t) \<le> c \<longrightarrow> slot_has (win ?t) c)"
        using gx(1) by (simp add: w')
    qed
    show "inv_ready ?t"
      unfolding inv_ready_def
    proof (intro allI)
      fix k' show "k' < slots (win ?t) \<longrightarrow>
        (slotState (win ?t) ! k' = slotReady \<longrightarrow>
          (\<exists>d. got ?t (nat (slotChunk (win ?t) ! k')) = Some d \<and> region_ok (win ?t) k' d)) \<and>
        (slotState (win ?t) ! k' = slotFilling \<longrightarrow> got ?t (nat (slotChunk (win ?t) ! k')) = None)"
        using I(5) here other[of k'] by (cases "fin \<and> k' = k") (auto simp: inv_ready_def w')
    qed
    show "inv_front ?t"
    proof -
      have "\<forall>c < frontier (win ?t). got s c \<noteq> None"
        using I(6) fq d fr by (auto simp: inv_front_def w' less_Suc_eq split: if_splits)
      moreover have "got s (?q div chunkSize ?w) \<noteq> None"
        if "?q < totalSize ?w" "?q mod chunkSize ?w \<noteq> 0"
      proof -
        have "\<not> fin" using fa(3) that b(2) by (auto simp: fin_def)
        then have "?q div chunkSize ?w = cur" using fa(2) that b(2) by (simp add: fin_def)
        then show ?thesis using d by simp
      qed
      ultimately show ?thesis by (simp add: inv_front_def w')
    qed
    show "inv_deliv ?t"
    proof -
      have ld: "length (delivered s) = readPos ?w" using I(7) by (simp add: inv_deliv_def)
      have "(delivered s @ data) ! i = the (got s (i div chunkSize ?w)) ! (i mod chunkSize ?w)"
        if i: "i < ?q" for i
      proof (cases "i < readPos ?w")
        case True
        then show ?thesis using I(7) by (simp add: inv_deliv_def nth_append)
      next
        case False
        define m where "m = readPos ?w mod chunkSize ?w"
        define j where "j = i - readPos ?w"
        have j: "j < length data" "i = readPos ?w + j" using i False by (auto simp: j_def)
        have ie: "i = cur * chunkSize ?w + (m + j)" using j(2) cur(1) by (simp add: m_def)
        have qe: "?q \<le> Suc cur * chunkSize ?w" using b(2) chunk_bounds(4)[OF g ct] by simp
        then have mj: "m + j < chunkSize ?w" using ie i by simp
        have "i div chunkSize ?w = cur" "i mod chunkSize ?w = m + j" using mj by (simp_all add: ie)
        moreover have "data ! j = d ! (m + j)"
        proof -
          have "m + length data \<le> length d"
          proof -
            have "cur * chunkSize ?w + (m + length data) = ?q" using cur(1) by (simp add: m_def)
            moreover have "length d = ChunkLen ?w cur" using I(4) d by (simp add: inv_got_def)
            ultimately show ?thesis using b(2) by (simp add: chunk_end_def)
          qed
          moreover have "data ! j = take (length data) (drop m d) ! j" using b(3) d by (simp add: m_def)
          ultimately show ?thesis using j(1) by simp
        qed
        ultimately show ?thesis using d ld j(2) by (simp add: nth_append)
      qed
      then show ?thesis using ld by (simp add: inv_deliv_def w')
    qed
    show "inv_reader ?t" by (simp add: inv_reader_def)
    show "inv_filling ?t"
      unfolding inv_filling_def
    proof (intro allI impI)
      fix k' assume k': "k' < slots (win ?t)" "slotState (win ?t) ! k' = slotFilling"
      then have "slotState ?w ! k' = slotFilling"
        using here other[of k'] by (cases "fin \<and> k' = k") (auto simp: w')
      then show "\<exists>i c. writer_slot (writers ?t i) = Some (c, k')"
        using I(9) k'(1) by (simp add: inv_filling_def w')
    qed
    show "inv_writers ?t"
    proof (rule inv_writersI)
      fix i c k' assume "writer_slot (writers ?t i) = Some (c, k')"
      then have j: "writer_slot (writers s i) = Some (c, k')" by simp
      show "k' = c mod slots (win ?t) \<and> c < total (win ?t)"
        using inv_writersD(1)[OF I(8) j] by (simp add: w')
      show "filling (win ?t) c k'" if "err (win ?t) = None"
        using inv_writersD(2)[OF I(8) j] that fill by (simp add: w')
    next
      fix i j c c' k'
      assume "err (win ?t) = None" "writer_slot (writers ?t i) = Some (c, k')"
        "writer_slot (writers ?t j) = Some (c', k')"
      then show "i = j" using inv_writersD(3)[OF I(8)] by (simp add: w')
    next
      fix i c k' x assume "writers ?t i = Some (WDone c k' x None)"
      then have j: "writers s i = Some (WDone c k' x None)" by simp
      show "length x = ChunkLen (win ?t) c" using inv_writersD(4)[OF I(8) j] by (simp add: w')
      show "region_ok (win ?t) k' x" if "err (win ?t) = None"
        using inv_writersD(5)[OF I(8) j] that by (simp add: w')
    qed
  qed
qed

lemma winv_close:
  assumes inv: "winv s"
  shows "winv (s\<lparr>win := CloseWithError (win s) e\<rparr>)"
proof -
  let ?t = "s\<lparr>win := CloseWithError (win s) e\<rparr>"
  note I = winvD[OF inv]
  have fr: "frontier (CloseWithError (win s) e) = frontier (win s)"
    "ChunkLen (CloseWithError (win s) e) = ChunkLen (win s)"
    "chunk_end (CloseWithError (win s) e) = chunk_end (win s)"
    "window_geometry (CloseWithError (win s) e) = window_geometry (win s)"
    by (simp_all add: CloseWithError_def)
  have er: "(err (CloseWithError (win s) e) = None) = False" by (simp add: CloseWithError_def split: option.split)
  have len: "length (slotState (win s)) = slots (win s)" using I(1) by (simp add: inv_geo_def)
  have cl: "slotState (CloseWithError (win s) e) = replicate (slots (win s)) slotFree"
    "slotChunk (CloseWithError (win s) e) = replicate (slots (win s)) (-1)"
    "f (CloseWithError (win s) e) = None" "crcs (CloseWithError (win s) e) = crcs (win s)"
    "crcSet (CloseWithError (win s) e) = crcSet (win s)" "slots (CloseWithError (win s) e) = slots (win s)"
    "total (CloseWithError (win s) e) = total (win s)" "chunkSize (CloseWithError (win s) e) = chunkSize (win s)"
    "totalSize (CloseWithError (win s) e) = totalSize (win s)" "readPos (CloseWithError (win s) e) = readPos (win s)"
    by (simp_all add: CloseWithError_def len)
  show ?thesis
  proof (rule winvI)
    show "inv_geo (win ?t)" using I(1) by (simp add: inv_geo_def fr cl)
    show "inv_slots (win ?t)" by (simp add: inv_slots_def slot_ok_def cl)
    show "inv_closed (win ?t)" using er by (simp add: inv_closed_def cl)
    show "inv_got ?t" using I(4) er by (auto simp: inv_got_def cl fr)
    show "inv_ready ?t" by (simp add: inv_ready_def cl)
    show "inv_front ?t" using I(6) by (simp add: inv_front_def fr cl)
    show "inv_deliv ?t" using I(7) by (simp add: inv_deliv_def cl)
    show "inv_writers ?t" using I(8) by (simp add: inv_writers_def cl fr er)
    show "inv_filling ?t" by (simp add: inv_filling_def cl)
    show "inv_reader ?t" using I(10) by (simp add: inv_reader_def read_at_def cl fr)
  qed
qed

lemma wstep_winv: "wstep s t \<Longrightarrow> winv s \<Longrightarrow> winv t"
proof (induction rule: wstep.induct)
  case (w_wait s i idx body ex w)
  then have "w = win s" using admit_cases by blast
  then show ?case using w_wait by simp
next
  case (w_reject s i idx body ex w e)
  then have "w = win s" using admit_cases by blast
  then show ?case using winv_writer_none[of s i None] w_reject by simp
next
  case (w_absorb s i idx body ex w crc)
  then have "w = win s" using admit_cases by blast
  then show ?case using winv_writer_none[of s i None] w_absorb by simp
next
  case (w_start s i idx body)
  then show ?case by (intro winv_writer_none) simp_all
qed (simp_all only: winv_w_slot winv_w_copy winv_w_fail winv_w_ready winv_r_check winv_r_file
      winv_r_finish winv_close)

lemma wreach_winv:
  assumes "NewWindow a b cs ts n = Return w0" "ts + cs \<le> 2 ^ 63" "wreach w0 s"
  shows "winv s"
  using assms(3)
proof induction
  case wreach_start
  note n = NewWindow_Return[OF assms(1,2)]
  have "slotState w0 = replicate (nat n) slotFree"
    using assms(1) by (auto simp: NewWindow_def Let_def split: if_splits)
  then show ?case using n by (intro winv_start) simp_all
next
  case (wreach_step s t)
  then show ?case using wstep_winv by blast
qed


text \<open>No step changes the sizes.\<close>

lemma wstep_geometry:
  "wstep s t \<Longrightarrow> chunkSize (win t) = chunkSize (win s) \<and> totalSize (win t) = totalSize (win s)
     \<and> total (win t) = total (win s) \<and> slots (win t) = slots (win s)"
proof (induction rule: wstep.induct)
  case (w_copy s i c slot body w e)
  then show ?case using copy_result[OF w_copy(2)] by (cases "f (win s)") auto
next
  case (w_fail s i c slot data e w e')
  then show ?case using commit_cases by fastforce
next
  case (w_ready s i c slot data e w crc)
  then show ?case using commit_cases by fastforce
next
  case (r_finish s cur slot data w res)
  then show ?case using finish_cases[OF r_finish(2)] by (auto split: if_splits)
qed (auto dest: admit_cases admit_slot simp: CloseWithError_def)

lemma wreach_geometry:
  "wreach w0 s \<Longrightarrow> chunkSize (win s) = chunkSize w0 \<and> totalSize (win s) = totalSize w0
     \<and> total (win s) = total w0 \<and> slots (win s) = slots w0"
proof (induction rule: wreach.induct)
  case wreach_start
  show ?case by (simp add: wsys_start_def)
next
  case (wreach_step s t)
  then show ?case using wstep_geometry[OF wreach_step.hyps(2)] by simp
qed

end
