(* ===== verification/Multipart_Contract.thy ===== *)
theory Multipart_Contract imports Multipart_Stream begin

text \<open>
  What \<open>internal/multipart/window.go\<close> promises to its callers, stated over every state that any
  interleaving of writers, the reader and closes can reach: the stream the driver reads is the
  file, writers never share a slot, the ring file never grows beyond the window, the reader cannot
  be starved by the slot discipline, a resent chunk is absorbed, an error is sticky, and the
  progress report counts exactly the chunks received.
\<close>

section \<open>Received chunks\<close>

text \<open>While the window is open, a chunk has been received iff it is behind the frontier or sits in
  its slot.\<close>

lemma got_iff:
  assumes "winv s" and "err (win s) = None"
  shows "c < total (win s) \<and> (c < frontier (win s) \<or> slot_has (win s) c) \<longleftrightarrow> got s c \<noteq> None"
proof -
  note I = winvD[OF assms(1)]
  have "got s c \<noteq> None" if "c < total (win s)" "c < frontier (win s) \<or> slot_has (win s) c"
    using that I(6) ready_got[OF assms(1), of c] by (auto simp: inv_front_def)
  moreover have "c < total (win s) \<and> (c < frontier (win s) \<or> slot_has (win s) c)" if "got s c = Some d" for d
    using that I(4) assms(2) not_le[of "frontier (win s)" c] by (auto simp: inv_got_def)
  ultimately show ?thesis by blast
qed

lemma slot_has_window:
  assumes "winv s" and "slot_has (win s) c"
  shows "frontier (win s) \<le> c" "c < frontier (win s) + slots (win s)" "c < total (win s)"
proof -
  have "slot_ok (win s) (c mod slots (win s))"
    using winvD(2)[OF assms(1)] slot_mod_less[OF winvD(1)[OF assms(1)], of c] by (simp add: inv_slots_def)
  then show "frontier (win s) \<le> c" "c < frontier (win s) + slots (win s)" "c < total (win s)"
    using assms(2) by (auto simp: slot_ok_def slot_has_def)
qed

lemma wstep_ring:
  "wstep s t \<Longrightarrow> winv s \<Longrightarrow> \<forall>c. f (win s) = Some c \<longrightarrow> length c \<le> slots (win s) * chunkSize (win s) \<Longrightarrow>
     f (win t) = Some cont \<Longrightarrow> length cont \<le> slots (win t) * chunkSize (win t)"
proof (induction rule: wstep.induct)
  case (w_copy s i c slot body w e)
  have inv: "inv_geo (win s)" "k = c mod slots (win s) \<and> c < total (win s)"
    if "writer_slot (writers s i) = Some (c, k)" for k
    using winvD(1)[OF w_copy(3)] inv_writersD(1)[OF winvD(8)[OF w_copy(3)] that] by auto
  then have g: "window_geometry (win s)" "c < total (win s)" "slot = c mod slots (win s)"
    using w_copy(1) by (auto simp: inv_geo_def)
  have "slot < slots (win s)" using g(1,3) by (simp add: window_geometry_def)
  then have "Suc slot * chunkSize (win s) \<le> slots (win s) * chunkSize (win s)" by (intro mult_le_mono1) simp
  then have "slot * chunkSize (win s) + min (length body) (ChunkLen (win s) c) \<le> slots (win s) * chunkSize (win s)"
    using chunk_bounds(3)[OF g(1,2)] by simp
  then show ?case
    using w_copy(4,5) copy_result[OF w_copy(2)] by (cases "f (win s)") (auto simp: min.commute)
next
  case (w_fail s i c slot data e w e')
  then show ?case using commit_cases[OF w_fail(2)] by auto
next
  case (w_ready s i c slot data e w crc)
  then show ?case using commit_cases[OF w_ready(2)] by auto
next
  case (r_finish s cur slot data w res)
  then show ?case using finish_cases[OF r_finish(2)] by (auto split: if_splits)
qed (auto dest: admit_cases admit_slot simp: CloseWithError_def)

lemma ring_bound:
  assumes "NewWindow a b cs ts n = Return w0" "ts + cs \<le> 2 ^ 63" "wreach w0 s"
  shows "\<forall>c. f (win s) = Some c \<longrightarrow> length c \<le> slots (win s) * chunkSize (win s)"
  using assms(3)
proof induction
  case wreach_start
  then show ?case using assms(1) by (auto simp: NewWindow_def Let_def wsys_start_def split: if_splits)
next
  case (wreach_step s t)
  then show ?case using wstep_ring[OF wreach_step.hyps(2) wreach_winv[OF assms(1,2)]] by blast
qed

section \<open>Runs\<close>

text \<open>An executable scheduler: a list of events names the steps of one run.\<close>

datatype wevent =
    Start nat int "byte list"
  | Admit nat bool
  | Copy nat
  | Commit nat
  | Check nat
  | Pread
  | Finish
  | Shut window_err

fun wexec :: "wsys \<Rightarrow> wevent \<Rightarrow> wsys option" where
  "wexec s (Start i idx body) =
     (case writers s i of None \<Rightarrow> Some (s\<lparr>writers := (writers s)(i := Some (WTry idx body))\<rparr>)
      | Some _ \<Rightarrow> None)"
| "wexec s (Admit i ex) =
     (case writers s i of
        Some (WTry idx body) \<Rightarrow>
          (case WriteChunk_admit (win s) idx ex of
             (w, AdmitWait) \<Rightarrow> Some (s\<lparr>win := w\<rparr>)
           | (w, AdmitErr e) \<Rightarrow> Some (s\<lparr>win := w, writers := (writers s)(i := None)\<rparr>)
           | (w, AdmitDone crc) \<Rightarrow> Some (s\<lparr>win := w, writers := (writers s)(i := None)\<rparr>)
           | (w, AdmitSlot slot) \<Rightarrow>
               Some (s\<lparr>win := w, writers := (writers s)(i := Some (WCopy (nat idx) slot body))\<rparr>))
      | _ \<Rightarrow> None)"
| "wexec s (Copy i) =
     (case writers s i of
        Some (WCopy c slot body) \<Rightarrow>
          (case WriteChunk_copy (win s) c slot body of
             (w, e) \<Rightarrow> Some (s\<lparr>win := w, writers := (writers s)(i :=
                         Some (WDone c slot (take (ChunkLen (win s) c) body) e))\<rparr>))
      | _ \<Rightarrow> None)"
| "wexec s (Commit i) =
     (case writers s i of
        Some (WDone c slot data e) \<Rightarrow>
          (case WriteChunk_commit (win s) c slot data e of
             (w, Inl e') \<Rightarrow> Some (s\<lparr>win := w, writers := (writers s)(i := None)\<rparr>)
           | (w, Inr crc) \<Rightarrow> Some (s\<lparr>win := w, writers := (writers s)(i := None),
                                  got := (got s)(c := Some data)\<rparr>))
      | _ \<Rightarrow> None)"
| "wexec s (Check plen) =
     (case (rd s, Read_check (win s) plen) of
        (RIdle, ReadAt cur slot n off) \<Rightarrow> Some (s\<lparr>rd := RBusy cur slot n off\<rparr>)
      | _ \<Rightarrow> None)"
| "wexec s Pread =
     (case rd s of RBusy cur slot n off \<Rightarrow> Some (s\<lparr>rd := RDone cur slot (Read_file (win s) n off)\<rparr>)
      | _ \<Rightarrow> None)"
| "wexec s Finish =
     (case rd s of
        RDone cur slot data \<Rightarrow>
          (case Read_finish (win s) cur slot data of
             (w, res) \<Rightarrow> Some (s\<lparr>win := w, rd := RIdle, delivered := delivered s @ data\<rparr>))
      | _ \<Rightarrow> None)"
| "wexec s (Shut e) = Some (s\<lparr>win := CloseWithError (win s) e\<rparr>)"

fun wruns :: "wsys \<Rightarrow> wevent list \<Rightarrow> wsys option" where
  "wruns s [] = Some s"
| "wruns s (e # es) = (case wexec s e of None \<Rightarrow> None | Some t \<Rightarrow> wruns t es)"

lemma wexec_wstep: "wexec s e = Some t \<Longrightarrow> wstep s t"
  by (cases e)
    (auto intro: wstep.intros split: option.splits writer.splits reader.splits prod.splits
      admission.splits sum.splits read_check.splits)

lemma wruns_wreach: "wruns s es = Some t \<Longrightarrow> wreach w0 s \<Longrightarrow> wreach w0 t"
  by (induction es arbitrary: s) (auto split: option.splits intro: wreach_step dest: wexec_wstep)

text \<open>A small window for the examples: three bytes in chunks of two, one slot.\<close>

definition demo_window :: Window where
  "demo_window = (case NewWindow True True 2 3 1 of Return w \<Rightarrow> w | _ \<Rightarrow> undefined)"

definition demo_upload :: "wevent list" where
  "demo_upload = [Start 0 0 [7, 8], Admit 0 False, Copy 0, Commit 0, Check 9, Pread, Finish,
     Start 1 1 [9], Admit 1 False, Copy 1, Commit 1, Check 9, Pread, Finish]"

definition demo_done :: wsys where
  "demo_done = (case wruns (wsys_start demo_window) demo_upload of Some s \<Rightarrow> s | None \<Rightarrow> undefined)"

lemma demo_window_Return: "NewWindow True True 2 3 1 = Return demo_window"
  by code_simp

lemma demo_done_reach: "wreach demo_window demo_done"
proof -
  have "wruns (wsys_start demo_window) demo_upload \<noteq> None" by code_simp
  then have "wruns (wsys_start demo_window) demo_upload = Some demo_done"
    by (auto simp: demo_done_def)
  then show ?thesis by (rule wruns_wreach) (rule wreach_start)
qed

lemma demo_done_got: "got demo_done c = Some d \<Longrightarrow> c = 0 \<and> d = [7, 8] \<or> c = 1 \<and> d = [9]"
proof -
  assume g: "got demo_done c = Some d"
  have "winv demo_done" by (rule wreach_winv[OF demo_window_Return _ demo_done_reach]) simp
  then have "c < total (win demo_done)" using g winvD(4) by (auto simp: inv_got_def)
  moreover have "total (win demo_done) = 2" "got demo_done 0 = Some [7, 8]" "got demo_done 1 = Some [9]"
    by code_simp+
  ultimately show ?thesis using g by (cases "c = 0"; cases "c = 1") auto
qed

definition demo_busy :: wsys where
  "demo_busy = (case wruns (wsys_start demo_window) (take 3 demo_upload) of
     Some s \<Rightarrow> s | None \<Rightarrow> undefined)"

lemma demo_busy_reach: "wreach demo_window demo_busy"
proof -
  have "wruns (wsys_start demo_window) (take 3 demo_upload) \<noteq> None" by code_simp
  then have "wruns (wsys_start demo_window) (take 3 demo_upload) = Some demo_busy"
    by (auto simp: demo_busy_def)
  then show ?thesis by (rule wruns_wreach) (rule wreach_start)
qed

section \<open>The stream\<close>

definition chunk_of :: "byte list \<Rightarrow> nat \<Rightarrow> nat \<Rightarrow> byte list" where
  "chunk_of F cs c = take cs (drop (c * cs) F)"

text \<open>C1: Whatever the interleaving of concurrent chunk uploads, reads and closes, if every chunk the
  window accepted is the corresponding chunk of a file, then the bytes handed to the reader so far
  are exactly the first \<open>readPos\<close> bytes of that file, in order, with nothing lost, repeated or torn.\<close>

theorem window_delivers_the_file:
  assumes "NewWindow a b cs ts n = Return w0" and "ts + cs \<le> 2 ^ 63" and "wreach w0 s"
    and "length F = nat ts" and "\<forall>c d. got s c = Some d \<longrightarrow> d = chunk_of F (nat cs) c"
  shows "delivered s = take (readPos (win s)) F"
proof (rule nth_equalityI)
  have inv: "winv s" by (rule wreach_winv[OF assms(1,2,3)])
  note I = winvD[OF inv]
  have geo: "chunkSize (win s) = nat cs" "totalSize (win s) = nat ts"
    using wreach_geometry[OF assms(3)] NewWindow_Return[OF assms(1,2)] by simp_all
  show len: "length (delivered s) = length (take (readPos (win s)) F)"
    using I(1,7) assms(4) geo by (simp add: inv_deliv_def inv_geo_def)
  fix i assume i: "i < length (delivered s)"
  let ?cs = "chunkSize (win s)"
  have ir: "i < readPos (win s)" "i < length F" using i len I(7) by (simp_all add: inv_deliv_def)
  obtain d where d: "got s (i div ?cs) = Some d" using got_read[OF inv ir(1)] by blast
  have "i mod ?cs < ?cs" using I(1) by (simp add: inv_geo_def window_geometry_def)
  then have "chunk_of F ?cs (i div ?cs) ! (i mod ?cs) = F ! i"
    using ir(2) le_trans[OF div_times_less_eq_dividend less_imp_le[OF ir(2)]]
    by (simp add: chunk_of_def nth_drop)
  moreover have "d = chunk_of F ?cs (i div ?cs)" using assms(5) d geo by simp
  ultimately have "d ! (i mod ?cs) = F ! i" by simp
  then show "delivered s ! i = take (readPos (win s)) F ! i"
    using I(7) ir d by (simp add: inv_deliv_def)
qed


theorem window_delivers_the_file_witness: "delivered demo_done = [7, 8, 9]"
proof -
  have "delivered demo_done = take (readPos (win demo_done)) [7, 8, 9]"
    by (rule window_delivers_the_file[OF demo_window_Return _ demo_done_reach])
      (auto simp: chunk_of_def dest!: demo_done_got)
  moreover have "readPos (win demo_done) = 3" by code_simp
  ultimately show ?thesis by simp
qed

section \<open>Slots and the ring file\<close>

text \<open>C2: In every reachable open state two uploads in progress always own different ring slots (so
  their unlocked file writes never overlap), the chunk the reader is inside is never being written,
  and the ring file is never longer than \<open>slots * chunkSize\<close>.\<close>

theorem window_slots_exclusive:
  assumes "NewWindow a b cs ts n = Return w0" and "ts + cs \<le> 2 ^ 63" and "wreach w0 s"
    and "err (win s) = None"
  shows "(\<forall>i j c c' k k'. i \<noteq> j \<longrightarrow> writer_slot (writers s i) = Some (c, k) \<longrightarrow>
            writer_slot (writers s j) = Some (c', k') \<longrightarrow> k \<noteq> k' \<and> c \<noteq> c')
       \<and> (\<forall>i c k cur kr m off. rd s = RBusy cur kr m off \<longrightarrow>
            writer_slot (writers s i) = Some (c, k) \<longrightarrow> k \<noteq> kr)
       \<and> (\<forall>cont. f (win s) = Some cont \<longrightarrow> length cont \<le> nat n * nat cs)"
proof -
  have inv: "winv s" by (rule wreach_winv[OF assms(1,2,3)])
  note I = winvD[OF inv]
  have "k \<noteq> k' \<and> c \<noteq> c'"
    if h: "i \<noteq> j" "writer_slot (writers s i) = Some (c, k)" "writer_slot (writers s j) = Some (c', k')"
    for i j c c' k k'
    using inv_writersD(1)[OF I(8) h(2)] inv_writersD(1)[OF I(8) h(3)]
      inv_writersD(3)[OF I(8) assms(4) h(2), of j c'] h(1,3) by auto
  moreover have "k \<noteq> kr"
    if h: "rd s = RBusy cur kr m off" "writer_slot (writers s i) = Some (c, k)" for i c k cur kr m off
  proof -
    have ra: "read_at s cur kr" using I(10) h(1) by (simp add: inv_reader_def)
    then have "slot_has (win s) cur"
      using I(4) assms(4) by (auto simp: read_at_def inv_got_def frontier_def)
    then show ?thesis
      using ra inv_writersD(2)[OF I(8) h(2) assms(4)] by (auto simp: filling_def slot_has_def read_at_def)
  qed
  moreover have "length cont \<le> nat n * nat cs" if "f (win s) = Some cont" for cont
    using ring_bound[OF assms(1,2,3)] that wreach_geometry[OF assms(3)] NewWindow_Return[OF assms(1,2)]
    by simp
  ultimately show ?thesis by blast
qed


theorem window_slots_exclusive_witness: "the (f (win demo_busy)) = [7, 8] \<and> length (the (f (win demo_busy))) \<le> 1 * 2"
proof -
  have s: "err (win demo_busy) = None" "f (win demo_busy) = Some [7, 8]" by code_simp+
  show ?thesis
    using window_slots_exclusive[OF demo_window_Return _ demo_busy_reach s(1)] s(2) by simp
qed

section \<open>Progress\<close>

text \<open>C3: The slot discipline cannot deadlock an open, unfinished window: the chunk the reader waits for
  is either readable now, or being filled by a live upload, or its slot is free and a fresh upload of it
  is admitted at once.\<close>

theorem window_no_deadlock:
  assumes "NewWindow a b cs ts n = Return w0" and "ts + cs \<le> 2 ^ 63" and "wreach w0 s"
    and "err (win s) = None" and "readPos (win s) < totalSize (win s)"
  defines "c \<equiv> frontier (win s)"
  shows "(\<forall>plen > 0. \<exists>m off. Read_check (win s) plen = ReadAt c (c mod slots (win s)) m off \<and> 0 < m)
    \<or> (\<exists>i. writer_slot (writers s i) = Some (c, c mod slots (win s)))
    \<or> (\<forall>expired. \<exists>w. WriteChunk_admit (win s) (int c) expired = (w, AdmitSlot (c mod slots (win s))))"
proof -
  have inv: "winv s" by (rule wreach_winv[OF assms(1,2,3)])
  note I = winvD[OF inv]
  let ?w = "win s" and ?k = "c mod slots (win s)"
  have g: "window_geometry ?w" using I(1) by (simp add: inv_geo_def)
  have c: "c = readPos ?w div chunkSize ?w" using assms(5) by (simp add: c_def frontier_def)
  note p = pos_chunk[OF g assms(5), folded c]
  have kl: "?k < slots ?w" by (rule slot_mod_less[OF I(1)])
  have ok: "slot_ok ?w ?k" using I(2) kl by (simp add: inv_slots_def)
  have occupied: "slotChunk ?w ! ?k = int c" if nf: "slotState ?w ! ?k \<noteq> slotFree"
  proof -
    obtain x where x: "slotChunk ?w ! ?k = int x" "x mod slots ?w = c mod slots ?w" "c \<le> x" "x < c + slots ?w"
      using ok nf by (auto simp: slot_ok_def c_def)
    have "x - c < slots ?w" "slots ?w dvd x - c" using x mod_eq_dvd_iff_nat[of c x "slots ?w"] by auto
    then show ?thesis using x(1,3) nat_dvd_not_less[of "x - c" "slots ?w"] by (cases "x = c") auto
  qed
  show ?thesis
  proof (cases "slotState ?w ! ?k")
    case slotReady
    then have "\<exists>m off. Read_check ?w plen = ReadAt c ?k m off \<and> 0 < m" if "0 < plen" for plen
      using that assms(4,5) occupied p(3)
      by (simp add: Read_check_def Let_def c[symmetric] chunk_end_def)
    then show ?thesis by blast
  next
    case slotFilling
    then obtain i x where i: "writer_slot (writers s i) = Some (x, ?k)" using I(9) kl by (auto simp: inv_filling_def)
    then have "slotChunk ?w ! ?k = int x" using inv_writersD(2)[OF I(8) i assms(4)] by (simp add: filling_def)
    then have "x = c" using occupied slotFilling by simp
    then show ?thesis using i by blast
  next
    case slotFree
    have "\<not> chunk_end ?w c \<le> readPos ?w" using p(3) by simp
    moreover have "c < c + slots ?w" using g by (simp add: window_geometry_def)
    moreover have "slotChunk ?w ! ?k = -1" using ok slotFree by (simp add: slot_ok_def)
    ultimately show ?thesis
      using assms(4) p(1) slotFree by (simp add: WriteChunk_admit_def Let_def chunk_end_def c_def[symmetric] not_le)
  qed
qed

theorem window_no_deadlock_witness:
  "\<exists>i. writer_slot (writers demo_busy i) = Some (0, 0)"
proof -
  have s: "err (win demo_busy) = None" "readPos (win demo_busy) < totalSize (win demo_busy)"
    "frontier (win demo_busy) = 0" "Read_check (win demo_busy) 1 = ReadWait"
    "snd (WriteChunk_admit (win demo_busy) 0 False) = AdmitErr ErrChunkInFlight"
    by code_simp+
  show ?thesis
    using window_no_deadlock[OF demo_window_Return _ demo_busy_reach s(1,2)] s(3,4,5)
    by (auto dest: spec[of _ 1] spec[of _ False])
qed

text \<open>Sending a chunk again is harmless: once the window has accepted a chunk, any later upload of it
  is absorbed with the stored checksum and changes nothing, whatever its own body is.\<close>

theorem window_resend_absorbed:
  assumes "NewWindow a b cs ts n = Return w0" and "ts + cs \<le> 2 ^ 63" and "wreach w0 s"
    and "err (win s) = None" and "got s c = Some d"
  shows "WriteChunk_admit (win s) (int c) expired = (win s, AdmitDone (crc32 d))"
proof -
  have inv: "winv s" by (rule wreach_winv[OF assms(1,2,3)])
  note I = winvD[OF inv]
  have g: "window_geometry (win s)" "readPos (win s) \<le> totalSize (win s)" using I(1) by (simp_all add: inv_geo_def)
  have c: "c < total (win s)" "crcs (win s) ! c = crc32 d" using I(4) assms(5) by (auto simp: inv_got_def)
  have "chunk_end (win s) c \<le> readPos (win s) \<or> slot_has (win s) c"
    using chunk_done_iff[OF g(1) c(1) g(2)] got_iff[OF inv assms(4), of c] assms(5) by auto
  then show ?thesis using assms(4) c by (auto simp: WriteChunk_admit_def Let_def chunk_end_def slot_has_def)
qed

theorem window_resend_absorbed_witness:
  "WriteChunk_admit (win demo_done) 0 True = (win demo_done, AdmitDone (crc32 [7, 8]))"
proof -
  have "err (win demo_done) = None" "got demo_done 0 = Some [7, 8]" by code_simp+
  then show ?thesis
    using window_resend_absorbed[OF demo_window_Return _ demo_done_reach, of 0 "[7, 8]" True] by simp
qed


section \<open>Closing\<close>

lemma wstep_closed:
  assumes "wstep s t" and "winv s" and "err (win s) = Some e"
  shows "err (win t) = Some e \<and> got t = got s"
  using assms
proof (induction rule: wstep.induct)
  case (w_slot s i idx body ex w slot)
  then show ?case using admit_slot(1)[OF w_slot(2)] by simp
next
  case (w_copy s i c slot body w e')
  then show ?case using copy_result[OF w_copy(2)] by (cases "f (win s)") auto
next
  case (w_fail s i c slot data e' w e'')
  then show ?case using commit_cases[OF w_fail(2)] by auto
next
  case (w_ready s i c slot data e' w crc)
  then show ?case using commit_cases[OF w_ready(2)] by auto
next
  case (r_finish s cur slot data w res)
  then show ?case using finish_cases[OF r_finish(2)] by (auto split: if_splits)
qed (auto dest: admit_cases simp: CloseWithError_def)

lemma wsteps_closed:
  "wstep\<^sup>*\<^sup>* s t \<Longrightarrow> winv s \<Longrightarrow> err (win s) = Some e \<Longrightarrow>
     winv t \<and> err (win t) = Some e \<and> got t = got s"
proof (induction rule: rtranclp_induct)
  case (step y z)
  then show ?case using wstep_winv wstep_closed by metis
qed simp

text \<open>Closing is final: after the first error the window keeps that very error through every later
  step (a second close cannot overwrite it), accepts no further chunk, and every later upload and every
  later non-empty read is answered with that error.\<close>

theorem window_close_is_final:
  assumes "NewWindow a b cs ts n = Return w0" and "ts + cs \<le> 2 ^ 63" and "wreach w0 s"
    and "err (win s) = Some e" and "wstep\<^sup>*\<^sup>* s t"
  shows "got t = got s \<and> WriteChunk_admit (win t) idx expired = (win t, AdmitErr e)
       \<and> (0 < plen \<longrightarrow> Read_check (win t) plen = ReadErr e) \<and> f (win t) = None"
proof -
  have t: "winv t" "err (win t) = Some e" "got t = got s"
    using wsteps_closed[OF assms(5) wreach_winv[OF assms(1,2,3)] assms(4)] by simp_all
  then show ?thesis using winvD(3)[OF t(1)] by (simp add: WriteChunk_admit_def Read_check_def inv_closed_def)
qed

theorem window_close_is_final_witness:
  "\<exists>t. wexec demo_busy (Shut ErrAborted) = Some t
     \<and> WriteChunk_admit (win (t\<lparr>win := CloseWithError (win t) ErrClosed\<rparr>)) 0 False
        = (win (t\<lparr>win := CloseWithError (win t) ErrClosed\<rparr>), AdmitErr ErrAborted)"
proof -
  let ?s = "demo_busy\<lparr>win := CloseWithError (win demo_busy) ErrAborted\<rparr>"
  have e: "err (win ?s) = Some ErrAborted" by code_simp
  have r: "wreach demo_window ?s" by (rule wreach_step[OF demo_busy_reach wstep.close])
  have st: "wstep\<^sup>*\<^sup>* ?s (?s\<lparr>win := CloseWithError (win ?s) ErrClosed\<rparr>)"
    by (rule r_into_rtranclp) (rule wstep.close)
  have "(3::int) + 2 \<le> 2 ^ 63" by simp
  from window_close_is_final[OF demo_window_Return this r e st, of 0 False] show ?thesis by simp
qed

section \<open>The progress report\<close>

definition covers :: "(nat \<times> nat) list \<Rightarrow> nat set" where
  "covers rs = (\<Union>r \<in> set rs. {fst r .. snd r})"

definition ranges_ok :: "nat \<Rightarrow> (nat \<times> nat) list \<Rightarrow> bool" where
  "ranges_ok m rs \<longleftrightarrow> sorted_wrt (\<lambda>a b. Suc (snd a) < fst b) rs \<and> (\<forall>r \<in> set rs. fst r \<le> snd r \<and> snd r < m)"

lemma covers_simps [simp]:
  "covers [] = {}" "covers (rs @ rs') = covers rs \<union> covers rs'" "covers (r # rs) = {fst r .. snd r} \<union> covers rs"
  by (auto simp: covers_def)

lemma push_range_ok:
  assumes "ranges_ok m rs" and "m \<le> i"
  shows "ranges_ok (Suc i) (push_range rs i) \<and> covers (push_range rs i) = insert i (covers rs)"
proof (cases rs rule: rev_cases)
  case Nil
  then show ?thesis by (simp add: ranges_ok_def)
next
  case (snoc bs x)
  obtain l h where x: "x = (l, h)" by (cases x)
  have b: "sorted_wrt (\<lambda>a b. Suc (snd a) < fst b) bs" "\<forall>r \<in> set bs. fst r \<le> snd r \<and> snd r < m \<and> Suc (snd r) < l"
    "l \<le> h" "h < m"
    using assms(1) by (auto simp: snoc x ranges_ok_def sorted_wrt_append)
  show ?thesis
  proof (cases "Suc h = i")
    case True
    have "{l .. i} = insert i {l .. h}" using True b(3) by auto
    moreover have "\<forall>r \<in> set bs. snd r < Suc i" using b assms(2) by (meson less_SucI less_le_trans)
    ultimately show ?thesis using True b assms(2) by (auto simp: snoc x ranges_ok_def sorted_wrt_append)
  next
    case False
    then have "Suc h < i" using b(4) assms(2) by linarith
    moreover have "\<forall>r \<in> set bs. Suc (snd r) < i \<and> snd r < Suc i"
      using b calculation by (auto dest!: bspec)
    ultimately show ?thesis using False b by (auto simp: snoc x ranges_ok_def sorted_wrt_append)
  qed
qed

lemma snapshot_loop_spec:
  assumes "snapshot_loop w [i ..< m] (b, rs) = (b', rs')" and "ranges_ok i rs" and "i \<le> m"
  shows "b' = b + (\<Sum>c | c \<in> {i ..< m} \<and> slot_has w c. ChunkLen w c - (readPos w - c * chunkSize w))
    \<and> ranges_ok m rs' \<and> covers rs' = covers rs \<union> {c \<in> {i ..< m}. slot_has w c}"
  using assms
proof (induction "m - i" arbitrary: i b rs)
  case 0
  then show ?case by simp
next
  case (Suc x)
  have im: "i < m" using Suc.hyps(2) by linarith
  then have l: "[i ..< m] = i # [Suc i ..< m]" by (rule upt_conv_Cons)
  have set: "{c \<in> {i ..< m}. slot_has w c} =
      (if slot_has w i then insert i {c \<in> {Suc i ..< m}. slot_has w c} else {c \<in> {Suc i ..< m}. slot_has w c})"
    using im by (auto simp: Suc_le_eq order.order_iff_strict)
  have x: "x = m - Suc i" using Suc.hyps(2) by linarith
  show ?case
  proof (cases "slot_has w i")
    case False
    have "ranges_ok (Suc i) rs" using Suc.prems(2) by (auto simp: ranges_ok_def less_Suc_eq)
    then show ?thesis using Suc.hyps(1)[OF x, of b rs] Suc.prems(1) False im set by (simp add: l)
  next
    case True
    note pr = push_range_ok[OF Suc.prems(2), of i]
    let ?v = "ChunkLen w i - (readPos w - i * chunkSize w)"
    have "snapshot_loop w [Suc i ..< m] (b + ?v, push_range rs i) = (b', rs')"
      using Suc.prems(1) True by (simp add: l Let_def diff_is_0_eq' not_less del: push_range.simps split: if_splits)
    then show ?thesis using Suc.hyps(1)[OF x, of "b + ?v" "push_range rs i"] pr True im set by (simp del: push_range.simps)
  qed
qed


text \<open>The bytes read so far are the chunks behind the frontier plus the read part of the frontier chunk.\<close>

lemma sum_ChunkLen:
  "window_geometry w \<Longrightarrow> c \<le> total w \<Longrightarrow> (\<Sum>x < c. ChunkLen w x) = min (c * chunkSize w) (totalSize w)"
proof (induction c)
  case (Suc c)
  then have "chunk_end w c = min (Suc c * chunkSize w) (totalSize w)" "c * chunkSize w < totalSize w"
    using chunk_bounds[of w c] by simp_all
  then show ?case using Suc by (simp add: chunk_end_def)
qed simp

lemma snapshot_bytes:
  assumes inv: "winv s" and op: "err (win s) = None"
    and H: "H \<subseteq> {c. slot_has (win s) c \<and> c < total (win s) \<and> frontier (win s) \<le> c}"
      "\<And>c. slot_has (win s) c \<Longrightarrow> c < total (win s) \<Longrightarrow> frontier (win s) \<le> c \<Longrightarrow> c \<in> H"
  shows "readPos (win s) + (\<Sum>c \<in> H. ChunkLen (win s) c - (readPos (win s) - c * chunkSize (win s)))
    = (\<Sum>c \<in> {..< frontier (win s)} \<union> H. ChunkLen (win s) c)"
proof -
  note I = winvD[OF inv]
  let ?w = "win s" and ?fr = "frontier (win s)"
  let ?v = "\<lambda>c. ChunkLen ?w c - (readPos ?w - c * chunkSize ?w)"
  have g: "window_geometry ?w" "readPos ?w \<le> totalSize ?w" using I(1) by (simp_all add: inv_geo_def)
  have fin: "finite H" by (rule finite_subset[OF H(1)]) simp
  have split: "(\<Sum>c \<in> {..< ?fr} \<union> H. ChunkLen ?w c) = (\<Sum>c < ?fr. ChunkLen ?w c) + (\<Sum>c \<in> H. ChunkLen ?w c)"
    using H(1) by (intro sum.union_disjoint[OF _ fin]) auto
  have behind: "(\<Sum>c < ?fr. ChunkLen ?w c) = min (?fr * chunkSize ?w) (totalSize ?w)"
    by (rule sum_ChunkLen[OF g(1) frontier_le[OF g(1)]])
  show ?thesis
  proof (cases "readPos ?w < totalSize ?w")
    case False
    then have "?fr = total ?w" by (simp add: frontier_def)
    then have "H = {}" using H(1) by auto
    moreover have "(\<Sum>c < ?fr. ChunkLen ?w c) = totalSize ?w"
      using behind \<open>?fr = total ?w\<close> ceil_div_bounds(2)[of "chunkSize ?w" "totalSize ?w" "total ?w"] g(1)
      by (simp add: window_geometry_def)
    ultimately show ?thesis using split False g(2) by simp
  next
    case True
    then have fr: "?fr = readPos ?w div chunkSize ?w" by (simp add: frontier_def)
    note p = pos_chunk[OF g(1) True, folded fr]
    have b: "(\<Sum>c < ?fr. ChunkLen ?w c) = ?fr * chunkSize ?w" using behind p(2) True by simp
    have later: "?v c = ChunkLen ?w c" if "c \<in> H" "c \<noteq> ?fr" for c
    proof -
      have "Suc ?fr * chunkSize ?w \<le> c * chunkSize ?w" using that H(1) by (intro mult_le_mono1) auto
      moreover have "readPos ?w < Suc ?fr * chunkSize ?w"
        using p(3) chunk_bounds(4)[OF g(1) p(1)] by simp
      ultimately show ?thesis by simp
    qed
    have pos: "readPos ?w = ?fr * chunkSize ?w + readPos ?w mod chunkSize ?w" by (simp add: fr)
    show ?thesis
    proof (cases "?fr \<in> H")
      case True
      have "readPos ?w + ?v ?fr = ?fr * chunkSize ?w + ChunkLen ?w ?fr"
        using p(2,3) by (simp add: chunk_end_def)
      moreover have "sum ?v (H - {?fr}) = sum (ChunkLen ?w) (H - {?fr})"
        by (rule sum.cong) (use later in auto)
      ultimately show ?thesis
        using split b sum.remove[OF fin True, of ?v] sum.remove[OF fin True, of "ChunkLen ?w"] by simp
    next
      case nf: False
      then have "\<not> slot_has ?w ?fr" using H(2)[of ?fr] p(1) by auto
      then have "got s ?fr = None" using got_iff[OF inv op, of ?fr] by auto
      then have "readPos ?w mod chunkSize ?w = 0" using I(6) True fr by (auto simp: inv_front_def)
      moreover have "sum ?v H = sum (ChunkLen ?w) H" by (rule sum.cong) (use later nf in auto)
      ultimately show ?thesis using split b pos by simp
    qed
  qed
qed

lemma snapshot_exact:
  assumes "NewWindow a b cs ts n = Return w0" and "ts + cs \<le> 2 ^ 63" and "wreach w0 s"
    and "err (win s) = None"
  shows "covers (Received (Window_Snapshot (win s))) = {c. got s c \<noteq> None}
    \<and> ranges_ok (total (win s)) (Received (Window_Snapshot (win s)))
    \<and> ReceivedBytes (Window_Snapshot (win s)) = (\<Sum>c | got s c \<noteq> None. ChunkLen (win s) c)"
proof -
  have inv: "winv s" by (rule wreach_winv[OF assms(1,2,3)])
  note I = winvD[OF inv]
  let ?w = "win s" and ?fr = "frontier (win s)"
  let ?m = "min (?fr + slots ?w) (total ?w)" and ?rs = "if ?fr > 0 then [(0, ?fr - 1)] else []"
  let ?H = "{c \<in> {?fr ..< ?m}. slot_has ?w c}"
  have g: "window_geometry ?w" "readPos ?w \<le> totalSize ?w" using I(1) by (simp_all add: inv_geo_def)
  have fm: "?fr \<le> ?m" using frontier_le[OF g(1)] by simp
  obtain b rs where l: "snapshot_loop ?w [?fr ..< ?m] (readPos ?w, ?rs) = (b, rs)" by fastforce
  have sn: "Received (Window_Snapshot ?w) = rs" "ReceivedBytes (Window_Snapshot ?w) = b"
    using l by (simp_all add: Window_Snapshot_def Let_def)
  have rs0: "ranges_ok ?fr ?rs" "covers ?rs = {..< ?fr}" by (auto simp: ranges_ok_def)
  note sp = snapshot_loop_spec[OF l rs0(1) fm]
  have "c \<in> {..< ?fr} \<union> ?H \<longleftrightarrow> got s c \<noteq> None" for c
    unfolding got_iff[OF inv assms(4), of c, symmetric]
    using slot_has_window[OF inv, of c] frontier_le[OF g(1)] by auto
  then have gs: "{c. got s c \<noteq> None} = {..< ?fr} \<union> ?H" by blast
  have H: "?H \<subseteq> {c. slot_has ?w c \<and> c < total ?w \<and> ?fr \<le> c}"
    "slot_has ?w c \<Longrightarrow> c < total ?w \<Longrightarrow> ?fr \<le> c \<Longrightarrow> c \<in> ?H" for c
    using slot_has_window[OF inv, of c] by auto
  have cov: "covers rs = {c. got s c \<noteq> None}" using sp rs0(2) gs by simp
  have mono: "ranges_ok m' rs" if "ranges_ok m rs" "m \<le> m'" for m m'
    using that by (auto simp: ranges_ok_def)
  have rok: "ranges_ok (total ?w) rs" by (rule mono[of ?m]) (use sp in auto)
  have "b = (\<Sum>c | got s c \<noteq> None. ChunkLen ?w c)"
    using sp snapshot_bytes[OF inv assms(4) H] by (simp only: gs)
  then show ?thesis using sn cov rok by simp
qed


text \<open>The progress report of an open window is exact: \<open>Received\<close> lists, as ascending ranges
  separated by gaps, precisely the chunks that have been accepted, and \<open>ReceivedBytes\<close> is the number
  of their bytes, chunks partly handed to the reader counted once.\<close>

theorem snapshot_is_exact:
  assumes "NewWindow a b cs ts n = Return w0" and "ts + cs \<le> 2 ^ 63" and "wreach w0 s"
    and "err (win s) = None"
  shows "covers (Received (Window_Snapshot (win s))) = {c. got s c \<noteq> None}
    \<and> ranges_ok (total (win s)) (Received (Window_Snapshot (win s)))
    \<and> ReceivedBytes (Window_Snapshot (win s)) = (\<Sum>c | got s c \<noteq> None. ChunkLen (win s) c)"
  by (rule snapshot_exact[OF assms])

theorem snapshot_is_exact_witness:
  "covers (Received (Window_Snapshot (win demo_done))) = {c. got demo_done c \<noteq> None}
   \<and> Received (Window_Snapshot (win demo_done)) = [(0, 1)]"
proof -
  have "err (win demo_done) = None" "Received (Window_Snapshot (win demo_done)) = [(0, 1)]"
    by code_simp+
  then show ?thesis using snapshot_is_exact[OF demo_window_Return _ demo_done_reach] by simp
qed

text \<open>The number of chunks is computed in 64-bit arithmetic: for a declared size near the top of
  the range the sum wraps and the slice allocation panics.\<close>

lemma NewWindow_overflow_panics: "NewWindow True True 4 (2 ^ 63 - 1) 1 = Panic"
  by code_simp

end

