(* ===== verification/Multipart_Session.thy ===== *)
theory Multipart_Session imports Multipart_Contract Go_Path begin

text \<open>
  \<open>internal/multipart/session.go\<close> and the policy functions of \<open>server/handles/multipart.go\<close>: the manager
  with its two maps, sessions as heap cells (the pipeline goroutine keeps its pointer after the session
  has left the maps), one window per pipeline attempt.  A function stands for one critical section;
  \<open>mstep\<close> interleaves them.  \<open>uuid.NewString\<close>, the clock, the file system and the driver's verdict
  are arguments.
\<close>

section \<open>Errors\<close>

text \<open>An error value is the chain of sentinels that \<open>errors.Is\<close> finds in it.\<close>

datatype sentinel =
    ContextCanceled | UploadNotSupported | PermissionDenied | StorageNotFound | ObjectAlreadyExists
  | RelativePathErr | IgnoredSystemFile | WinErr window_err | ErrSessionNotFound | ErrNotOwner
  | SessionExpired | Superseded | AbortedByClient | ContentChanged nat | BadSize | BadChunkSize
  | ResendFromZero | SessionIs | Incomplete | OtherErr nat

type_synonym err_chain = "sentinel list"

definition errors_is :: "err_chain \<Rightarrow> sentinel \<Rightarrow> bool" where
  "errors_is e t \<longleftrightarrow> t \<in> set e"

definition permanent_targets :: "sentinel list" where
  "permanent_targets = [UploadNotSupported, PermissionDenied, StorageNotFound, ObjectAlreadyExists,
     RelativePathErr, IgnoredSystemFile]"

definition isPermanentPutError :: "err_chain \<Rightarrow> bool" where
  "isPermanentPutError e =
     (if errors_is e ContextCanceled then False else list_ex (errors_is e) permanent_targets)"

definition multipartErrCode :: "err_chain \<Rightarrow> nat" where
  "multipartErrCode e =
     (if errors_is e (WinErr ErrOutOfWindow) then 429
      else if errors_is e (WinErr ErrChunkInFlight) then 409
      else if errors_is e ErrSessionNotFound then 404
      else if errors_is e ErrNotOwner then 403 else 400)"

definition multipartMinChunkSize :: int where
  "multipartMinChunkSize = 2 ^ 20"

text \<open>\<open>setting\<close> is the administrator's ceiling in megabytes; the shift is a 64-bit shift.\<close>

definition multipartChunkSize :: "int \<Rightarrow> int \<Rightarrow> int" where
  "multipartChunkSize setting requested =
     (let ceiling = wrap64 (setting * 2 ^ 20);
          ceiling = (if ceiling < multipartMinChunkSize then multipartMinChunkSize else ceiling)
      in if requested > 0 \<and> requested < ceiling then max requested multipartMinChunkSize else ceiling)"

section \<open>State\<close>

datatype State =
    StateReceiving | StateCompleted | StateFailedRetriable | StateFailedPermanent | StateAborted

record Session =
  ID :: string
  Path :: string
  DstDir :: string
  Name :: string
  Size :: int
  ChunkSize :: int
  Total :: nat
  Hashes :: "(string \<times> string) list"
  Creator :: nat
  state :: State
  serr :: "err_chain option"
  attempt :: nat
  swin :: "nat option"
  sdone :: "nat option"
  prevCRCs :: "32 word list"
  prevSet :: "bool list"
  storagePct :: nat
  lastActive :: int
  locked :: bool

record Manager =
  byID :: "string \<Rightarrow> nat option"
  byKey :: "string \<Rightarrow> string option"
  sess :: "nat \<Rightarrow> Session"
  fresh :: nat
  wins :: "nat \<Rightarrow> Window"
  freshWin :: nat
  running :: "nat \<Rightarrow> nat option"

record InitReq =
  reqUser :: nat
  reqPath :: string
  reqSize :: int
  reqChunkSize :: int
  reqHashes :: "(string \<times> string) list"

record SessionSnapshot =
  snapID :: string
  snapState :: State
  snapAttempt :: nat
  snapPath :: string
  snapSize :: int
  snapChunkSize :: int
  snapTotalChunks :: nat
  snapReceived :: "(nat \<times> nat) list"
  snapReceivedBytes :: int
  snapFrontier :: nat
  snapStoragePct :: nat
  snapError :: "err_chain option"

definition upd_sess :: "nat \<Rightarrow> (Session \<Rightarrow> Session) \<Rightarrow> Manager \<Rightarrow> Manager" where
  "upd_sess a g m = m\<lparr>sess := (sess m)(a := g (sess m a))\<rparr>"

definition touch :: "int \<Rightarrow> nat \<Rightarrow> Manager \<Rightarrow> Manager" where
  "touch now a m = upd_sess a (\<lambda>s. s\<lparr>lastActive := now\<rparr>) m"

definition snapshotLocked :: "Manager \<Rightarrow> nat \<Rightarrow> SessionSnapshot" where
  "snapshotLocked m a =
     (let s = sess m a;
          snap = \<lparr>snapID = ID s, snapState = state s, snapAttempt = attempt s, snapPath = Path s,
                  snapSize = Size s, snapChunkSize = ChunkSize s, snapTotalChunks = Total s,
                  snapReceived = [], snapReceivedBytes = 0, snapFrontier = 0,
                  snapStoragePct = storagePct s, snapError = serr s\<rparr>
      in if state s = StateCompleted
         then snap\<lparr>snapReceived := [(0, Total s - 1)], snapReceivedBytes := Size s,
                   snapFrontier := Total s, snapStoragePct := 100\<rparr>
         else (case swin s of None \<Rightarrow> snap
           | Some w \<Rightarrow> (let ws = Window_Snapshot (wins m w)
                       in snap\<lparr>snapReceived := Received ws, snapReceivedBytes := int (ReceivedBytes ws),
                               snapFrontier := Frontier ws\<rparr>)))"

definition sessionKey :: "nat \<Rightarrow> string \<Rightarrow> int \<Rightarrow> string" where
  "sessionKey uid path sz = nat_dec uid @ ''|'' @ path @ ''|'' @ format_int sz"

definition keyOf :: "Session \<Rightarrow> string" where
  "keyOf s = sessionKey (Creator s) (Path s) (Size s)"

text \<open>The loop ranges over the old map in an order of the runtime's choosing: the list.\<close>

fun hashes_loop :: "(string \<times> string) list \<Rightarrow> (string \<times> string) list \<Rightarrow> bool \<Rightarrow> bool" where
  "hashes_loop [] new shared = shared"
| "hashes_loop ((t, ov) # old) new shared =
     (case map_of new t of
        Some nv \<Rightarrow> if ov \<noteq> nv then False else hashes_loop old new True
      | None \<Rightarrow> hashes_loop old new shared)"

definition hashesQualifyResume :: "(string \<times> string) list \<Rightarrow> (string \<times> string) list \<Rightarrow> bool" where
  "hashesQualifyResume old new = hashes_loop old new False"

section \<open>Ending a session\<close>

definition killAttemptLocked :: "nat \<Rightarrow> Manager \<Rightarrow> Manager" where
  "killAttemptLocked a m =
     (case swin (sess m a) of None \<Rightarrow> m
      | Some w \<Rightarrow> m\<lparr>wins := (wins m)(w := CloseWithError (wins m w) ErrAborted)\<rparr>)"

definition terminate_locked :: "nat \<Rightarrow> err_chain \<Rightarrow> Manager \<Rightarrow> Manager" where
  "terminate_locked a cause m =
     killAttemptLocked a
       (if state (sess m a) = StateReceiving
        then upd_sess a (\<lambda>s. s\<lparr>state := StateAborted, serr := Some cause\<rparr>) m else m)"

definition remove_session :: "nat \<Rightarrow> Manager \<Rightarrow> Manager" where
  "remove_session a m =
     (let s = sess m a; m1 = m\<lparr>byID := (byID m)(ID s := None)\<rparr>
      in if byKey m1 (keyOf s) = Some (ID s) then m1\<lparr>byKey := (byKey m1)(keyOf s := None)\<rparr> else m1)"

text \<open>\<open>None\<close>: the call never returns, because \<open>s.mu\<close> is never released.\<close>

definition manager_terminate :: "nat \<Rightarrow> err_chain \<Rightarrow> Manager \<Rightarrow> Manager option" where
  "manager_terminate a cause m =
     (if locked (sess m a) then None else Some (remove_session a (terminate_locked a cause m)))"

text \<open>The sessions whose turn has come, in the map's iteration order \<open>addrs\<close>.\<close>

definition gc_expired :: "int \<Rightarrow> nat list \<Rightarrow> Manager \<Rightarrow> nat list" where
  "gc_expired deadline addrs m = filter (\<lambda>a. lastActive (sess m a) < deadline) addrs"

fun gc_terminate :: "nat list \<Rightarrow> Manager \<Rightarrow> Manager option" where
  "gc_terminate [] m = Some m"
| "gc_terminate (a # as) m =
     (case manager_terminate a [SessionExpired] m of None \<Rightarrow> None | Some m' \<Rightarrow> gc_terminate as m')"

definition sessionTTL :: "int \<Rightarrow> int" where
  "sessionTTL ttl = (if ttl > 0 then ttl else 30 * 60 * 10 ^ 9)"

definition gc :: "int \<Rightarrow> int \<Rightarrow> nat list \<Rightarrow> Manager \<Rightarrow> Manager option" where
  "gc now ttl addrs m = gc_terminate (gc_expired (now - sessionTTL ttl) addrs m) m"

definition get :: "nat \<Rightarrow> string \<Rightarrow> Manager \<Rightarrow> err_chain + nat" where
  "get user i m =
     (case byID m i of None \<Rightarrow> Inl [ErrSessionNotFound]
      | Some a \<Rightarrow> if Creator (sess m a) \<noteq> user then Inl [ErrNotOwner] else Inr a)"

section \<open>Init and attempts\<close>

definition WindowSlots :: int where
  "WindowSlots = 8"

datatype 'a started = Started 'a | StartError window_err | StartPanic

definition startAttemptLocked :: "bool \<Rightarrow> bool \<Rightarrow> nat \<Rightarrow> Manager \<Rightarrow> Manager started" where
  "startAttemptLocked mk op a m =
     (let s = sess m a; w = freshWin m
      in case NewWindow mk op (ChunkSize s) (Size s) WindowSlots of
           Error e \<Rightarrow> StartError e
         | Panic \<Rightarrow> StartPanic
         | Return nw \<Rightarrow>
             Started (upd_sess a (\<lambda>s. s\<lparr>swin := Some w, sdone := Some w, state := StateReceiving,
                                        serr := None, storagePct := 0\<rparr>)
               (m\<lparr>wins := (wins m)(w := nw), freshWin := Suc w, running := (running m)(w := Some a)\<rparr>)))"

definition newSession :: "string \<Rightarrow> int \<Rightarrow> InitReq \<Rightarrow> Session" where
  "newSession uuid now req =
     (let (dstDir, name) = path_split (reqPath req)
      in \<lparr>ID = uuid, Path = reqPath req, DstDir = dstDir, Name = name, Size = reqSize req,
          ChunkSize = reqChunkSize req, Total = 0, Hashes = reqHashes req, Creator = reqUser req,
          state = StateReceiving, serr = None, attempt = 0, swin = None, sdone = None,
          prevCRCs = [], prevSet = [], storagePct = 0, lastActive = now, locked = False\<rparr>)"

datatype init_lookup = InitResume nat | InitSupersede nat | InitFresh | InitBlocked

definition Init_lookup :: "InitReq \<Rightarrow> Manager \<Rightarrow> init_lookup" where
  "Init_lookup req m =
     (case byKey m (sessionKey (reqUser req) (reqPath req) (reqSize req)) of
        None \<Rightarrow> InitFresh
      | Some i \<Rightarrow> (case byID m i of
          None \<Rightarrow> InitFresh
        | Some a \<Rightarrow> (let s = sess m a
            in if locked s then InitBlocked
               else if state s = StateFailedRetriable
                 \<or> state s = StateReceiving \<and> hashesQualifyResume (Hashes s) (reqHashes req)
               then InitResume a else InitSupersede a)))"

definition Init_start :: "bool \<Rightarrow> bool \<Rightarrow> string \<Rightarrow> int \<Rightarrow> InitReq \<Rightarrow> Manager \<Rightarrow> (Manager \<times> nat) started" where
  "Init_start mk op uuid now req m =
     (let a = fresh m
      in case startAttemptLocked mk op a (m\<lparr>sess := (sess m)(a := newSession uuid now req), fresh := Suc a\<rparr>) of
           StartError e \<Rightarrow> StartError e
         | StartPanic \<Rightarrow> StartPanic
         | Started m' \<Rightarrow>
             Started (upd_sess a (\<lambda>s. s\<lparr>Total := (case swin s of Some w \<Rightarrow> TotalChunks (wins m' w) | None \<Rightarrow> 0)\<rparr>) m', a))"

definition Init_register :: "nat \<Rightarrow> Manager \<Rightarrow> Manager" where
  "Init_register a m =
     m\<lparr>byID := (byID m)(ID (sess m a) := Some a),
       byKey := (byKey m)(keyOf (sess m a) := Some (ID (sess m a)))\<rparr>"

datatype init_result =
    InitDone Manager SessionSnapshot bool
  | InitErr Manager err_chain
  | InitPanics
  | InitHangs

text \<open>The whole call with nothing in between.\<close>

definition Init_create :: "bool \<Rightarrow> bool \<Rightarrow> string \<Rightarrow> int \<Rightarrow> InitReq \<Rightarrow> Manager \<Rightarrow> init_result" where
  "Init_create mk op uuid now req m =
     (case Init_start mk op uuid now req m of
        StartError e \<Rightarrow> InitErr m [WinErr e]
      | StartPanic \<Rightarrow> InitPanics
      | Started (m', a) \<Rightarrow> InitDone (Init_register a m') (snapshotLocked m' a) False)"

definition Init :: "bool \<Rightarrow> bool \<Rightarrow> string \<Rightarrow> int \<Rightarrow> InitReq \<Rightarrow> Manager \<Rightarrow> init_result" where
  "Init mk op uuid now req m =
     (if reqSize req \<le> 0 then InitErr m [BadSize]
      else if reqChunkSize req \<le> 0 then InitErr m [BadChunkSize]
      else case Init_lookup req m of
          InitResume a \<Rightarrow> (let m' = touch now a m in InitDone m' (snapshotLocked m' a) True)
        | InitSupersede a \<Rightarrow>
            (case manager_terminate a [Superseded] m of
               None \<Rightarrow> InitHangs
             | Some m' \<Rightarrow> Init_create mk op uuid now req m')
        | InitFresh \<Rightarrow> Init_create mk op uuid now req m
        | InitBlocked \<Rightarrow> InitHangs)"

definition finishAttempt :: "int \<Rightarrow> nat \<Rightarrow> nat \<Rightarrow> err_chain option \<Rightarrow> Manager \<Rightarrow> Manager" where
  "finishAttempt now a w e m =
     (let (crc, set) = CRCs (wins m w);
          m1 = m\<lparr>wins := (wins m)(w := Close (wins m w)), running := (running m)(w := None)\<rparr>
      in upd_sess a (\<lambda>s.
           let s1 = s\<lparr>lastActive := now, swin := (if swin s = Some w then None else swin s),
                      prevCRCs := crc, prevSet := set\<rparr>
           in case e of
                None \<Rightarrow> s1\<lparr>state := StateCompleted, serr := None, storagePct := 100\<rparr>
              | Some pe \<Rightarrow>
                  if state s \<noteq> StateReceiving
                  then s1\<lparr>serr := (case serr s of None \<Rightarrow> Some pe | Some old \<Rightarrow> Some old)\<rparr>
                  else if isPermanentPutError pe
                  then s1\<lparr>state := StateFailedPermanent, serr := Some pe\<rparr>
                  else s1\<lparr>state := StateFailedRetriable, serr := Some pe, attempt := Suc (attempt s)\<rparr>) m1)"

section \<open>Chunk\<close>

datatype chunk_start =
    ChunkErr SessionSnapshot err_chain
  | ChunkAbsorbed SessionSnapshot
  | ChunkGo nat "32 word option"
  | ChunkPanic
  | ChunkNilWindow
  | ChunkBlocked

definition errOr :: "err_chain option \<Rightarrow> err_chain" where
  "errOr e = (case e of None \<Rightarrow> [] | Some x \<Rightarrow> x)"

text \<open>Reading the previous attempt's checksum: a negative index passes the length test and then panics
  while \<open>s.mu\<close> is held; nothing releases it.\<close>

definition Chunk_prev :: "nat \<Rightarrow> int \<Rightarrow> Manager \<Rightarrow> Manager \<times> chunk_start" where
  "Chunk_prev a idx m =
     (let s = sess m a
      in if idx < int (length (prevSet s)) \<and> idx < 0
         then (upd_sess a (\<lambda>s. s\<lparr>locked := True\<rparr>) m, ChunkPanic)
         else (m, case swin s of
             None \<Rightarrow> ChunkNilWindow
           | Some w \<Rightarrow> ChunkGo w (if idx < int (length (prevSet s)) \<and> prevSet s ! nat idx
                                then Some (prevCRCs s ! nat idx) else None)))"

definition Chunk_begin :: "bool \<Rightarrow> bool \<Rightarrow> nat \<Rightarrow> int \<Rightarrow> Manager \<Rightarrow> Manager \<times> chunk_start" where
  "Chunk_begin mk op a idx m =
     (if locked (sess m a) then (m, ChunkBlocked)
      else case state (sess m a) of
          StateReceiving \<Rightarrow> Chunk_prev a idx m
        | StateFailedRetriable \<Rightarrow>
            if idx \<noteq> 0 then (m, ChunkErr (snapshotLocked m a) (ResendFromZero # errOr (serr (sess m a))))
            else (case startAttemptLocked mk op a m of
                    StartError e \<Rightarrow> (m, ChunkErr (snapshotLocked m a) [WinErr e])
                  | StartPanic \<Rightarrow> (upd_sess a (\<lambda>s. s\<lparr>locked := True\<rparr>) m, ChunkPanic)
                  | Started m' \<Rightarrow> Chunk_prev a idx m')
        | StateCompleted \<Rightarrow> (m, ChunkAbsorbed (snapshotLocked m a))
        | _ \<Rightarrow> (m, ChunkErr (snapshotLocked m a) (SessionIs # errOr (serr (sess m a)))))"

text \<open>After \<open>WriteChunk\<close> returned; for a closed window the wait for the verdict comes first.\<close>

definition Chunk_end :: "nat \<Rightarrow> int \<Rightarrow> 32 word option \<Rightarrow> err_chain + 32 word \<Rightarrow> Manager \<Rightarrow>
    Manager \<times> (SessionSnapshot \<times> err_chain option)" where
  "Chunk_end a idx prev res m =
     (case res of
        Inl e \<Rightarrow> (m, snapshotLocked m a, if state (sess m a) = StateCompleted then None else Some e)
      | Inr crc \<Rightarrow>
          (if prev \<noteq> None \<and> prev \<noteq> Some crc
           then (let e = [ContentChanged (nat idx)];
                     m' = killAttemptLocked a
                       (upd_sess a (\<lambda>s. s\<lparr>state := StateFailedPermanent, serr := Some e\<rparr>) m)
                 in (m', snapshotLocked m' a, Some e))
           else (m, snapshotLocked m a, None)))"

section \<open>Complete, Status, Find, Abort\<close>

datatype complete_round =
    CompleteRefused SessionSnapshot
  | CompleteWait nat
  | CompleteVerdict

text \<open>One round of the waiting loop; it waits for the attempt's \<open>done\<close>.\<close>

definition Complete_round :: "nat \<Rightarrow> Manager \<Rightarrow> complete_round" where
  "Complete_round a m =
     (let s = sess m a
      in if state s \<noteq> StateReceiving then CompleteVerdict
         else (case swin s of
             None \<Rightarrow> CompleteWait (the (sdone s))
           | Some w \<Rightarrow> if int (ReceivedBytes (Window_Snapshot (wins m w))) < Size s
                       then CompleteRefused (snapshotLocked m a) else CompleteWait (the (sdone s))))"

definition Complete_finish :: "nat \<Rightarrow> Manager \<Rightarrow> Manager \<times> (SessionSnapshot \<times> err_chain option)" where
  "Complete_finish a m =
     (let s = sess m a; snap = snapshotLocked m a
      in if state s = StateCompleted then (remove_session a m, snap, None)
         else (m, snap, Some (SessionIs # errOr (serr s))))"

definition Status :: "nat \<Rightarrow> string \<Rightarrow> int \<Rightarrow> Manager \<Rightarrow> Manager \<times> (err_chain + SessionSnapshot)" where
  "Status user i now m =
     (case get user i m of Inl e \<Rightarrow> (m, Inl e)
      | Inr a \<Rightarrow> (let m' = touch now a m in (m', Inr (snapshotLocked m' a))))"

definition Find :: "nat \<Rightarrow> string \<Rightarrow> int \<Rightarrow> int \<Rightarrow> Manager \<Rightarrow> Manager \<times> (err_chain + SessionSnapshot)" where
  "Find user path sz now m =
     (case byKey m (sessionKey user path sz) of None \<Rightarrow> (m, Inl [ErrSessionNotFound])
      | Some i \<Rightarrow> Status user i now m)"

definition Abort :: "nat \<Rightarrow> string \<Rightarrow> Manager \<Rightarrow> (Manager \<times> err_chain option) option" where
  "Abort user i m =
     (case get user i m of Inl e \<Rightarrow> Some (m, Some e)
      | Inr a \<Rightarrow> map_option (\<lambda>m'. (m', None)) (manager_terminate a [AbortedByClient] m))"

end
