(* ===== verification/Multipart_Lifecycle.thy ===== *)
theory Multipart_Lifecycle imports Multipart_Session begin

text \<open>
  The life of upload sessions: the critical sections of \<open>Multipart_Session\<close> as steps that any number of
  requests, pipelines and the expiry loop interleave, the invariant of the manager, and what it gives:
  one pipeline per session, no nil window, consistent maps, ownership, resume and abort.
\<close>

section \<open>Steps\<close>

definition manager_start :: Manager where
  "manager_start = \<lparr>byID = (\<lambda>_. None), byKey = (\<lambda>_. None), sess = (\<lambda>_. undefined), fresh = 0,
     wins = (\<lambda>_. undefined), freshWin = 0, running = (\<lambda>_. None)\<rparr>"

inductive mstep :: "Manager \<Rightarrow> Manager \<Rightarrow> bool" where
  ms_init: "Init_start mk op uuid now req m = Started (m', a) \<Longrightarrow>
     \<forall>b < fresh m. ID (sess m b) \<noteq> uuid \<Longrightarrow> mstep m m'"
| ms_register: "a < fresh m \<Longrightarrow> mstep m (Init_register a m)"
| ms_terminate: "a < fresh m \<Longrightarrow> \<not> locked (sess m a) \<Longrightarrow> mstep m (terminate_locked a cause m)"
| ms_remove: "a < fresh m \<Longrightarrow> mstep m (remove_session a m)"
| ms_touch: "a < fresh m \<Longrightarrow> mstep m (touch now a m)"
| ms_chunk: "a < fresh m \<Longrightarrow> Chunk_begin mk op a idx m = (m', r) \<Longrightarrow> mstep m m'"
| ms_chunk_end: "a < fresh m \<Longrightarrow> \<not> locked (sess m a) \<Longrightarrow> Chunk_end a idx prev res m = (m', out) \<Longrightarrow>
     mstep m m'"
| ms_window: "win s = wins m w \<Longrightarrow> winv s \<Longrightarrow> wstep s t \<Longrightarrow> mstep m (m\<lparr>wins := (wins m)(w := win t)\<rparr>)"
| ms_finish: "running m w = Some a \<Longrightarrow> \<not> locked (sess m a) \<Longrightarrow> mstep m (finishAttempt now a w e m)"

inductive mreach :: "Manager \<Rightarrow> bool" where
  mreach_start: "mreach manager_start"
| mreach_step: "mreach m \<Longrightarrow> mstep m m' \<Longrightarrow> mreach m'"

section \<open>The invariant\<close>

definition minv_pipe :: "Manager \<Rightarrow> bool" where
  "minv_pipe m \<longleftrightarrow>
     (\<forall>a w. running m w = Some a \<longrightarrow> a < fresh m \<and> w < freshWin m) \<and>
     (\<forall>a w. a < fresh m \<longrightarrow> (swin (sess m a) = Some w \<longleftrightarrow> running m w = Some a))"

definition minv_state :: "Manager \<Rightarrow> bool" where
  "minv_state m \<longleftrightarrow> (\<forall>a < fresh m.
     (state (sess m a) = StateReceiving \<longrightarrow> swin (sess m a) \<noteq> None \<and> sdone (sess m a) = swin (sess m a)) \<and>
     (state (sess m a) = StateFailedRetriable \<longrightarrow> swin (sess m a) = None))"

definition minv_crc :: "Manager \<Rightarrow> bool" where
  "minv_crc m \<longleftrightarrow> (\<forall>a < fresh m. length (prevCRCs (sess m a)) = length (prevSet (sess m a))) \<and>
     (\<forall>w < freshWin m. length (crcs (wins m w)) = length (crcSet (wins m w)))"

definition minv_index :: "Manager \<Rightarrow> bool" where
  "minv_index m \<longleftrightarrow>
     (\<forall>i a. byID m i = Some a \<longrightarrow> a < fresh m \<and> ID (sess m a) = i) \<and>
     (\<forall>k i. byKey m k = Some i \<longrightarrow> (\<exists>a. byID m i = Some a \<and> keyOf (sess m a) = k)) \<and>
     inj_on (\<lambda>a. ID (sess m a)) {..< fresh m}"

definition minv :: "Manager \<Rightarrow> bool" where
  "minv m \<longleftrightarrow> minv_pipe m \<and> minv_state m \<and> minv_crc m \<and> minv_index m"

lemma minvI: "minv_pipe m \<Longrightarrow> minv_state m \<Longrightarrow> minv_crc m \<Longrightarrow> minv_index m \<Longrightarrow> minv m"
  by (simp add: minv_def)

lemma minvD: assumes "minv m" shows "minv_pipe m" "minv_state m" "minv_crc m" "minv_index m"
  using assms by (simp_all add: minv_def)

lemma minv_start: "minv manager_start"
  by (simp add: minv_def minv_pipe_def minv_state_def minv_crc_def minv_index_def manager_start_def)

text \<open>Session updates that leave what the invariant reads.\<close>

definition same_view :: "Session \<Rightarrow> Session \<Rightarrow> bool" where
  "same_view s t \<longleftrightarrow> ID t = ID s \<and> keyOf t = keyOf s \<and> swin t = swin s \<and> sdone t = sdone s
     \<and> length (prevCRCs t) = length (prevCRCs s) \<and> length (prevSet t) = length (prevSet s)"

lemma upd_sess_simps [simp]:
  "byID (upd_sess a g m) = byID m" "byKey (upd_sess a g m) = byKey m" "fresh (upd_sess a g m) = fresh m"
  "wins (upd_sess a g m) = wins m" "freshWin (upd_sess a g m) = freshWin m"
  "running (upd_sess a g m) = running m"
  "sess (upd_sess a g m) = (sess m)(a := g (sess m a))"
  by (simp_all add: upd_sess_def)

lemma minv_upd:
  assumes "minv m" and "same_view (sess m a) (g (sess m a))"
    and "state (g (sess m a)) = state (sess m a) \<or> state (g (sess m a)) \<notin> {StateReceiving, StateFailedRetriable}"
  shows "minv (upd_sess a g m)"
proof -
  have v: "(let t = (if b = a then g (sess m a) else sess m b) in
      swin t = swin (sess m b) \<and> sdone t = sdone (sess m b) \<and> ID t = ID (sess m b) \<and> keyOf t = keyOf (sess m b)
      \<and> length (prevCRCs t) = length (prevCRCs (sess m b)) \<and> length (prevSet t) = length (prevSet (sess m b)))" for b
    using assms(2) by (simp add: same_view_def)
  have s: "state (sess (upd_sess a g m) b) = state (sess m b)
      \<or> state (sess (upd_sess a g m) b) \<notin> {StateReceiving, StateFailedRetriable}" for b
    using assms(3) by simp
  have f: "swin (sess (upd_sess a g m) b) = swin (sess m b)" "sdone (sess (upd_sess a g m) b) = sdone (sess m b)"
    "ID (sess (upd_sess a g m) b) = ID (sess m b)" "keyOf (sess (upd_sess a g m) b) = keyOf (sess m b)"
    "length (prevCRCs (sess (upd_sess a g m) b)) = length (prevCRCs (sess m b))"
    "length (prevSet (sess (upd_sess a g m) b)) = length (prevSet (sess m b))" for b
    using v[of b] by (simp_all add: Let_def split: if_splits)
  note I = minvD[OF assms(1)]
  show ?thesis
  proof (rule minvI)
    show "minv_pipe (upd_sess a g m)" using I(1) by (simp add: minv_pipe_def f del: upd_sess_simps(7))
    show "minv_crc (upd_sess a g m)" using I(3) by (simp add: minv_crc_def f del: upd_sess_simps(7))
    show "minv_index (upd_sess a g m)" using I(4) by (simp add: minv_index_def f del: upd_sess_simps(7))
    show "minv_state (upd_sess a g m)"
      unfolding minv_state_def f
    proof (intro allI impI conjI)
      fix b assume b: "b < fresh (upd_sess a g m)"
      { assume "state (sess (upd_sess a g m) b) = StateReceiving"
        then have "state (sess m b) = StateReceiving" using s[of b] by auto
        then show "swin (sess m b) \<noteq> None" "sdone (sess m b) = swin (sess m b)"
          using I(2) b by (simp_all add: minv_state_def) }
      assume "state (sess (upd_sess a g m) b) = StateFailedRetriable"
      then have "state (sess m b) = StateFailedRetriable" using s[of b] by auto
      then show "swin (sess m b) = None" using I(2) b by (simp add: minv_state_def)
    qed
  qed
qed

lemma minv_wins:
  assumes "minv m" and "length (crcs v) = length (crcSet v)"
  shows "minv (m\<lparr>wins := (wins m)(w := v)\<rparr>)"
  using minvD[OF assms(1)] assms(2)
  by (intro minvI) (simp_all add: minv_pipe_def minv_state_def minv_crc_def minv_index_def)

lemma minv_kill: assumes "minv m" "a < fresh m" shows "minv (killAttemptLocked a m)"
proof (cases "swin (sess m a)")
  case (Some w)
  then have "w < freshWin m" using minvD(1)[OF assms(1)] assms(2) by (auto simp: minv_pipe_def)
  then have "length (crcs (wins m w)) = length (crcSet (wins m w))" using minvD(3)[OF assms(1)] by (simp add: minv_crc_def)
  then show ?thesis using assms(1) Some by (simp add: killAttemptLocked_def minv_wins CloseWithError_def)
qed (simp add: killAttemptLocked_def assms)

lemma minv_terminate: "minv m \<Longrightarrow> a < fresh m \<Longrightarrow> minv (terminate_locked a cause m)"
  unfolding terminate_locked_def
  by (intro minv_kill) (auto intro!: minv_upd simp: same_view_def keyOf_def)

lemma minv_indexI:
  assumes "\<And>i a. byID m i = Some a \<Longrightarrow> a < fresh m \<and> ID (sess m a) = i"
    and "\<And>k i. byKey m k = Some i \<Longrightarrow> \<exists>a. byID m i = Some a \<and> keyOf (sess m a) = k"
    and "inj_on (\<lambda>a. ID (sess m a)) {..< fresh m}"
  shows "minv_index m"
  using assms by (simp add: minv_index_def)

lemma minv_indexD:
  assumes "minv_index m"
  shows "byID m i = Some a \<Longrightarrow> a < fresh m" "byID m i = Some a \<Longrightarrow> ID (sess m a) = i"
    "byKey m k = Some i \<Longrightarrow> \<exists>a. byID m i = Some a \<and> keyOf (sess m a) = k"
    "a < fresh m \<Longrightarrow> b < fresh m \<Longrightarrow> ID (sess m a) = ID (sess m b) \<Longrightarrow> a = b"
  using assms by (auto simp: minv_index_def dest: inj_onD)

lemma minv_remove:
  assumes "minv m" "a < fresh m"
  shows "minv (remove_session a m)"
proof -
  note I = minvD[OF assms(1)] and D = minv_indexD[OF minvD(4)[OF assms(1)]]
  let ?m = "remove_session a m"
  have r: "sess ?m = sess m" "fresh ?m = fresh m" "running ?m = running m" "wins ?m = wins m"
    "freshWin ?m = freshWin m" "byID ?m = (byID m)(ID (sess m a) := None)"
    "byKey ?m = (if byKey m (keyOf (sess m a)) = Some (ID (sess m a))
       then (byKey m)(keyOf (sess m a) := None) else byKey m)"
    by (simp_all add: remove_session_def Let_def)
  have "minv_index ?m"
  proof (rule minv_indexI)
    fix i b assume "byID ?m i = Some b"
    then have "byID m i = Some b" by (simp add: r split: if_splits)
    then show "b < fresh ?m \<and> ID (sess ?m b) = i" using D(1,2) by (simp add: r)
  next
    fix k i assume k: "byKey ?m k = Some i"
    then have km: "byKey m k = Some i" by (simp add: r split: if_splits)
    then obtain b where b: "byID m i = Some b" "keyOf (sess m b) = k" using D(3) by blast
    have "i \<noteq> ID (sess m a)"
    proof
      assume "i = ID (sess m a)"
      then have "b = a" using D(1,2)[OF b(1)] D(4) assms(2) by metis
      then show False using k km b(2) \<open>i = ID (sess m a)\<close> by (simp add: r)
    qed
    then show "\<exists>b. byID ?m i = Some b \<and> keyOf (sess ?m b) = k" using b by (simp add: r)
  next
    show "inj_on (\<lambda>a. ID (sess ?m a)) {..< fresh ?m}" using I(4) by (simp add: minv_index_def r)
  qed
  then show ?thesis using I
    by (intro minvI) (simp_all add: minv_pipe_def minv_state_def minv_crc_def r)
qed

lemma minv_register:
  assumes "minv m" "a < fresh m"
  shows "minv (Init_register a m)"
proof -
  note I = minvD[OF assms(1)] and D = minv_indexD[OF minvD(4)[OF assms(1)]]
  let ?m = "Init_register a m" and ?i = "ID (sess m a)"
  have r: "sess ?m = sess m" "fresh ?m = fresh m" "running ?m = running m" "wins ?m = wins m"
    "freshWin ?m = freshWin m" "byID ?m = (byID m)(?i := Some a)"
    "byKey ?m = (byKey m)(keyOf (sess m a) := Some ?i)"
    by (simp_all add: Init_register_def)
  have "minv_index ?m"
  proof (rule minv_indexI)
    fix i b assume "byID ?m i = Some b"
    then show "b < fresh ?m \<and> ID (sess ?m b) = i" using D(1,2) assms(2) by (auto simp: r split: if_splits)
  next
    fix k i assume k: "byKey ?m k = Some i"
    show "\<exists>b. byID ?m i = Some b \<and> keyOf (sess ?m b) = k"
    proof (cases "k = keyOf (sess m a)")
      case True
      then show ?thesis using k by (simp add: r)
    next
      case False
      then obtain b where b: "byID m i = Some b" "keyOf (sess m b) = k" using D(3) k by (auto simp: r)
      then have "i \<noteq> ?i" using D(1,2)[OF b(1)] D(4)[OF _ assms(2), of b] False by auto
      then show ?thesis using b by (simp add: r)
    qed
  next
    show "inj_on (\<lambda>a. ID (sess ?m a)) {..< fresh ?m}" using I(4) by (simp add: minv_index_def r)
  qed
  then show ?thesis using I
    by (intro minvI) (simp_all add: minv_pipe_def minv_state_def minv_crc_def r)
qed

text \<open>A fresh attempt for a session without a window.\<close>

lemma NewWindow_lengths: "NewWindow mk op cs ts n = Return w \<Longrightarrow> length (crcs w) = length (crcSet w)"
  by (auto simp: NewWindow_def Let_def split: if_splits)

lemma startAttempt_Started:
  assumes "startAttemptLocked mk op a m = Started m'"
  obtains nw where "length (crcs nw) = length (crcSet nw)"
    "NewWindow mk op (ChunkSize (sess m a)) (Size (sess m a)) WindowSlots = Return nw"
    "m' = upd_sess a (\<lambda>s. s\<lparr>swin := Some (freshWin m), sdone := Some (freshWin m), state := StateReceiving,
        serr := None, storagePct := 0\<rparr>)
      (m\<lparr>wins := (wins m)(freshWin m := nw), freshWin := Suc (freshWin m),
         running := (running m)(freshWin m := Some a)\<rparr>)"
  using assms NewWindow_lengths
  by (auto simp: startAttemptLocked_def Let_def split: outcome.splits)

lemma minv_startAttempt:
  assumes I: "minv_pipe m" "minv_crc m" "minv_index m"
    "minv_state (m\<lparr>sess := (sess m)(a := (sess m a)\<lparr>state := StateAborted\<rparr>)\<rparr>)"
    and A: "a < fresh m" "swin (sess m a) = None" "startAttemptLocked mk op a m = Started m'"
  shows "minv m'"
proof -
  from A(3) obtain nw where nw: "length (crcs nw) = length (crcSet nw)"
    and m': "m' = upd_sess a (\<lambda>s. s\<lparr>swin := Some (freshWin m), sdone := Some (freshWin m),
        state := StateReceiving, serr := None, storagePct := 0\<rparr>)
      (m\<lparr>wins := (wins m)(freshWin m := nw), freshWin := Suc (freshWin m),
         running := (running m)(freshWin m := Some a)\<rparr>)"
    by (rule startAttempt_Started)
  let ?f = "freshWin m"
  have f: "ID (sess m' b) = ID (sess m b)" "keyOf (sess m' b) = keyOf (sess m b)"
    "prevCRCs (sess m' b) = prevCRCs (sess m b)" "prevSet (sess m' b) = prevSet (sess m b)"
    "swin (sess m' b) = (if b = a then Some ?f else swin (sess m b))"
    "sdone (sess m' b) = (if b = a then Some ?f else sdone (sess m b))"
    "state (sess m' b) = (if b = a then StateReceiving else state (sess m b))" for b
    by (simp_all add: m' keyOf_def)
  have r: "running m' w = (if w = ?f then Some a else running m w)"
    "wins m' w = (if w = ?f then nw else wins m w)" for w by (simp_all add: m')
  have g: "fresh m' = fresh m" "freshWin m' = Suc ?f" "byID m' = byID m" "byKey m' = byKey m"
    by (simp_all add: m')
  have lt: "running m w = Some b \<Longrightarrow> b < fresh m \<and> w < ?f" for w b using I(1) by (simp add: minv_pipe_def)
  have iff: "b < fresh m \<Longrightarrow> swin (sess m b) = Some w \<longleftrightarrow> running m w = Some b" for w b
    using I(1) by (simp add: minv_pipe_def)
  have "swin (sess m' b) = Some w \<longleftrightarrow> running m' w = Some b" if "b < fresh m" for b w
    using iff[OF that, of w] iff[OF A(1), of w] lt[of ?f b] A(2) by (auto simp: f r)
  moreover have "running m' w = Some b \<Longrightarrow> b < fresh m' \<and> w < freshWin m'" for b w
    using lt[of w b] A(1) by (auto simp: r g split: if_splits)
  ultimately have "minv_pipe m'" by (simp add: minv_pipe_def g)
  moreover have "minv_state m'" using I(4) by (auto simp: minv_state_def f g)
  moreover have "minv_crc m'" using I(2) nw by (simp add: minv_crc_def f g r less_Suc_eq)
  moreover have "minv_index m'" using I(3) by (simp add: minv_index_def f g)
  ultimately show ?thesis by (rule minvI)
qed

text \<open>A new session is added outside the maps.\<close>

lemma minv_newSession:
  assumes "minv m" and "\<forall>b < fresh m. ID (sess m b) \<noteq> ID s"
    and "swin s = None" "length (prevCRCs s) = length (prevSet s)"
  shows "minv_pipe (m\<lparr>sess := (sess m)(fresh m := s), fresh := Suc (fresh m)\<rparr>)"
    "minv_crc (m\<lparr>sess := (sess m)(fresh m := s), fresh := Suc (fresh m)\<rparr>)"
    "minv_index (m\<lparr>sess := (sess m)(fresh m := s), fresh := Suc (fresh m)\<rparr>)"
proof -
  let ?m = "m\<lparr>sess := (sess m)(fresh m := s), fresh := Suc (fresh m)\<rparr>"
  note I = minvD[OF assms(1)] and D = minv_indexD[OF minvD(4)[OF assms(1)]]
  have no: "running m w \<noteq> Some (fresh m)" for w using I(1) by (auto simp: minv_pipe_def)
  show "minv_pipe ?m"
    using I(1) assms(3) no by (simp add: minv_pipe_def less_Suc_eq)
  show "minv_crc ?m" using I(3) assms(4) by (simp add: minv_crc_def less_Suc_eq)
  have lt: "byID m i = Some a \<Longrightarrow> a < fresh m" for i a using D(1) by blast
  show "minv_index ?m"
  proof (rule minv_indexI)
    fix i a assume "byID ?m i = Some a"
    then show "a < fresh ?m \<and> ID (sess ?m a) = i" using lt[of i a] D(2)[of i a] by auto
  next
    fix k i assume "byKey ?m k = Some i"
    then obtain a where a: "byID m i = Some a" "keyOf (sess m a) = k" using D(3) by auto
    then show "\<exists>a. byID ?m i = Some a \<and> keyOf (sess ?m a) = k" using lt[OF a(1)] by (intro exI[of _ a]) simp
  next
    show "inj_on (\<lambda>a. ID (sess ?m a)) {..< fresh ?m}"
      using D(4) assms(2) by (auto simp: inj_on_def less_Suc_eq)
  qed
qed


lemma minv_init:
  assumes "minv m" and "\<forall>b < fresh m. ID (sess m b) \<noteq> uuid"
    and "Init_start mk op uuid now req m = Started (m', a)"
  shows "minv m'" "a = fresh m" "fresh m' = Suc a" "ID (sess m' a) = uuid" "locked (sess m' a) = False"
proof -
  let ?s = "newSession uuid now req" and ?a = "fresh m"
  let ?m = "m\<lparr>sess := (sess m)(?a := ?s), fresh := Suc ?a\<rparr>"
  have s: "ID ?s = uuid" "swin ?s = None" "prevCRCs ?s = []" "prevSet ?s = []" "locked ?s = False"
    by (simp_all add: newSession_def split: prod.split)
  obtain m1 where m1: "startAttemptLocked mk op ?a ?m = Started m1"
    and m': "m' = upd_sess ?a (\<lambda>s. s\<lparr>Total := (case swin s of Some w \<Rightarrow> TotalChunks (wins m1 w) | None \<Rightarrow> 0)\<rparr>) m1"
    and a: "a = ?a"
  proof (cases "startAttemptLocked mk op ?a ?m")
    case (Started m1)
    have "m' = upd_sess ?a (\<lambda>s. s\<lparr>Total := (case swin s of Some w \<Rightarrow> TotalChunks (wins m1 w) | None \<Rightarrow> 0)\<rparr>) m1
        \<and> a = ?a"
      using assms(3) unfolding Init_start_def Let_def Started started.case started.inject prod.inject
      by (elim conjE, intro conjI) (erule sym)+
    then show thesis using Started by (intro that[of m1]) simp_all
  qed (use assms(3) in \<open>simp_all add: Init_start_def Let_def\<close>)
  have "\<forall>b < fresh m. ID (sess m b) \<noteq> ID ?s" "length (prevCRCs ?s) = length (prevSet ?s)"
    using assms(2) s by simp_all
  note N = minv_newSession[OF assms(1) this(1) s(2) this(2)]
  have st: "minv_state (?m\<lparr>sess := (sess ?m)(?a := (sess ?m ?a)\<lparr>state := StateAborted\<rparr>)\<rparr>)"
    using minvD(2)[OF assms(1)] by (simp add: minv_state_def less_Suc_eq)
  have "minv m1"
    using s(2) by (intro minv_startAttempt[OF N st _ _ m1]) simp_all
  then show "minv m'" unfolding m' by (intro minv_upd) (simp_all add: same_view_def keyOf_def)
  show "a = fresh m" by (rule a)
  obtain g where "sess m1 = (sess ?m)(?a := g ?s)" "fresh m1 = fresh ?m" "ID (g ?s) = ID ?s"
      "locked (g ?s) = locked ?s"
    by (rule startAttempt_Started[OF m1]) simp
  then have "fresh m1 = Suc ?a" "ID (sess m1 ?a) = uuid" "locked (sess m1 ?a) = False"
    using s by simp_all
  then show "fresh m' = Suc a" "ID (sess m' a) = uuid" "locked (sess m' a) = False" by (simp_all add: m' a)
qed

lemma minv_chunk_prev: "minv m \<Longrightarrow> Chunk_prev a idx m = (m', r) \<Longrightarrow> minv m'"
  by (auto simp: Chunk_prev_def Let_def same_view_def keyOf_def intro!: minv_upd split: if_splits)

lemma minv_retry:
  assumes "minv m" "a < fresh m" "state (sess m a) = StateFailedRetriable"
    "startAttemptLocked mk op a m = Started m'"
  shows "minv m'"
proof (rule minv_startAttempt[OF _ _ _ _ assms(2) _ assms(4)])
  show "swin (sess m a) = None" using minvD(2)[OF assms(1)] assms(2,3) by (simp add: minv_state_def)
  show "minv_state (m\<lparr>sess := (sess m)(a := (sess m a)\<lparr>state := StateAborted\<rparr>)\<rparr>)"
    using minvD(2)[OF assms(1)] by (simp add: minv_state_def)
qed (use minvD[OF assms(1)] in simp_all)

lemma minv_chunk_begin:
  assumes "minv m" "a < fresh m" "Chunk_begin mk op a idx m = (m', r)"
  shows "minv m'"
proof (cases "state (sess m a) = StateFailedRetriable \<and> \<not> locked (sess m a) \<and> idx = 0")
  case True
  then show ?thesis
  proof (cases "startAttemptLocked mk op a m")
    case (Started m1)
    then have "minv m1" using minv_retry assms True by blast
    then show ?thesis using assms(3) True Started minv_chunk_prev by (simp add: Chunk_begin_def)
  next
    case StartPanic
    then show ?thesis using assms True
      by (auto simp: Chunk_begin_def same_view_def keyOf_def intro!: minv_upd)
  qed (use assms True in \<open>simp_all add: Chunk_begin_def\<close>)
next
  case False
  then show ?thesis using assms minv_chunk_prev
    by (auto simp: Chunk_begin_def split: if_splits State.splits)
qed

lemma minv_chunk_end:
  assumes "minv m" "a < fresh m" "Chunk_end a idx prev res m = (m', out)"
  shows "minv m'"
proof -
  have "minv (upd_sess a (\<lambda>s. s\<lparr>state := StateFailedPermanent, serr := e\<rparr>) m)" for e
    using assms(1) by (intro minv_upd) (simp_all add: same_view_def keyOf_def)
  then show ?thesis using assms minv_kill
    by (auto simp: Chunk_end_def Let_def split: sum.splits if_splits)
qed

lemma minv_finish:
  assumes inv: "minv m" and run: "running m w = Some a"
  shows "minv (finishAttempt now a w e m)"
proof -
  let ?m = "finishAttempt now a w e m" and ?s = "sess m a"
  note I = minvD[OF inv]
  have aw: "a < fresh m" "w < freshWin m" "swin ?s = Some w"
    using I(1) run by (auto simp: minv_pipe_def)
  have t: "swin (sess ?m a) = None" "ID (sess ?m a) = ID ?s" "keyOf (sess ?m a) = keyOf ?s"
    "prevCRCs (sess ?m a) = crcs (wins m w)" "prevSet (sess ?m a) = crcSet (wins m w)"
    "state (sess ?m a) \<noteq> StateReceiving"
    using aw(3) by (simp_all add: finishAttempt_def CRCs_def Let_def keyOf_def split: option.splits)
  have f: "b \<noteq> a \<Longrightarrow> sess ?m b = sess m b" for b by (simp add: finishAttempt_def CRCs_def Let_def)
  have g: "fresh ?m = fresh m" "freshWin ?m = freshWin m" "byID ?m = byID m" "byKey ?m = byKey m"
    "running ?m = (running m)(w := None)" "wins ?m = (wins m)(w := Close (wins m w))"
    by (simp_all add: finishAttempt_def CRCs_def)
  have ids: "ID (sess ?m b) = ID (sess m b)" "keyOf (sess ?m b) = keyOf (sess m b)" for b
    using t f by (cases "b = a"; simp)+
  have uniq: "running m v = Some a \<longleftrightarrow> v = w" for v
    using I(1) aw run by (metis minv_pipe_def option.inject)
  have "swin (sess ?m b) = Some v \<longleftrightarrow> running ?m v = Some b" if "b < fresh m" for b v
  proof (cases "b = a \<or> v = w")
    case av: True
    have "swin (sess m b) = Some w \<longleftrightarrow> running m w = Some b" using that I(1) by (simp add: minv_pipe_def)
    then have sw: "b \<noteq> a \<Longrightarrow> swin (sess m b) \<noteq> Some w" unfolding run by simp
    show ?thesis
    proof (cases "b = a")
      case True
      then show ?thesis using t(1) uniq[of v] by (simp add: g)
    next
      case False
      then show ?thesis using sw f av by (simp add: g)
    qed
  next
    case False
    then show ?thesis using that I(1) f by (simp add: g minv_pipe_def)
  qed
  moreover have "running ?m v = Some b \<Longrightarrow> b < fresh ?m \<and> v < freshWin ?m" for b v
    using I(1) by (auto simp: g minv_pipe_def split: if_splits)
  ultimately have "minv_pipe ?m" by (simp add: minv_pipe_def g)
  moreover have "minv_state ?m"
    unfolding minv_state_def g
  proof (intro allI impI)
    fix b assume "b < fresh m"
    then show "(state (sess ?m b) = StateReceiving \<longrightarrow> swin (sess ?m b) \<noteq> None \<and> sdone (sess ?m b) = swin (sess ?m b))
      \<and> (state (sess ?m b) = StateFailedRetriable \<longrightarrow> swin (sess ?m b) = None)"
      using I(2) t f by (cases "b = a") (simp_all add: minv_state_def)
  qed
  moreover have "minv_crc ?m"
  proof -
    have "length (prevCRCs (sess ?m b)) = length (prevSet (sess ?m b))" if "b < fresh m" for b
      using I(3) t f aw(2) that by (cases "b = a") (simp_all add: minv_crc_def)
    then show ?thesis using I(3) aw(2) by (simp add: minv_crc_def g Close_def CloseWithError_def)
  qed
  moreover have "minv_index ?m" using I(4) by (simp add: minv_index_def g ids)
  ultimately show ?thesis by (rule minvI)
qed

lemma mstep_minv: "mstep m m' \<Longrightarrow> minv m \<Longrightarrow> minv m'"
proof (induction rule: mstep.induct)
  case (ms_window s m w t)
  have "winv t" by (rule wstep_winv[OF ms_window(3,2)])
  then have "length (crcs (win t)) = length (crcSet (win t))" using winvD(1) by (simp add: inv_geo_def)
  then show ?case using ms_window by (intro minv_wins)
next
  case (ms_touch a m now)
  then show ?case unfolding touch_def by (intro minv_upd) (simp_all add: same_view_def keyOf_def)
next
  case (ms_init mk op uuid now req m m' a)
  then show ?case using minv_init(1) by blast
next
  case (ms_chunk a m mk op idx m' r)
  then show ?case using minv_chunk_begin by blast
next
  case (ms_chunk_end a m idx prev res m' out)
  then show ?case using minv_chunk_end by blast
qed (simp_all add: minv_register minv_terminate minv_remove minv_finish)

lemma mreach_minv: "mreach m \<Longrightarrow> minv m"
  by (induction rule: mreach.induct) (use minv_start mstep_minv in blast)+


section \<open>A small manager for the examples\<close>

definition demo_req :: InitReq where
  "demo_req = \<lparr>reqUser = 1, reqPath = ''/a/b'', reqSize = 3, reqChunkSize = 2, reqHashes = [(''md5'', ''x'')]\<rparr>"

definition demo_init :: Manager where
  "demo_init = (case Init_start True True ''u1'' 0 demo_req manager_start of
     Started (m, a) \<Rightarrow> m | _ \<Rightarrow> manager_start)"

definition demo_manager :: Manager where
  "demo_manager = Init_register 0 demo_init"

lemma demo_manager_reach: "mreach demo_manager"
proof -
  have "case Init_start True True ''u1'' 0 demo_req manager_start of Started (m, a) \<Rightarrow> a = 0 | _ \<Rightarrow> False"
    by code_simp
  then have "Init_start True True ''u1'' 0 demo_req manager_start = Started (demo_init, 0)"
    by (auto simp: demo_init_def split: started.splits)
  then have "mstep manager_start demo_init" by (rule ms_init) (simp add: manager_start_def)
  then have "mreach demo_init" using mreach_start mreach_step by blast
  moreover have "0 < fresh demo_init" by code_simp
  ultimately show ?thesis unfolding demo_manager_def using mreach_step ms_register by blast
qed

section \<open>The key of a session\<close>

lemma sessionKey_inject:
  assumes "sessionKey u p z = sessionKey u' p' z'"
  shows "u = u' \<and> p = p' \<and> z = z'"
proof -
  have no: "CHR ''|'' \<notin> set (nat_dec n)" "CHR ''|'' \<notin> set (format_int v)" for n v
    using nat_dec_digits[of "CHR ''|''" n] format_int_chars[of "CHR ''|''" v] by (auto simp: is_digit_def)
  show ?thesis
    using sep_ends_inject[OF no(1)[of u] no(1)[of u'] no(2)[of z] no(2)[of z'], of p p'] assms
      nat_dec_inj[of u u'] format_int_inj[of z z'] by (simp add: sessionKey_def)
qed

text \<open>C6: Looking an upload up by destination finds the caller's own session for exactly that path and
  size or nothing: different (user, path, size) never share a key, a key never points to a session that is
  gone, and the lookup never answers that the session belongs to someone else.\<close>

theorem Find_is_own_session:
  assumes "mreach m"
  shows "(case Find user path sz now m of
      (m', Inr snap) \<Rightarrow> (\<exists>a < fresh m. byID m (ID (sess m a)) = Some a \<and> snapID snap = ID (sess m a)
          \<and> Creator (sess m a) = user \<and> Path (sess m a) = path \<and> Size (sess m a) = sz)
    | (m', Inl e) \<Rightarrow> e = [ErrSessionNotFound] \<and> m' = m)"
proof -
  note D = minv_indexD[OF minvD(4)[OF mreach_minv[OF assms]]]
  show ?thesis
  proof (cases "byKey m (sessionKey user path sz)")
    case (Some i)
    then obtain a where a: "byID m i = Some a" "keyOf (sess m a) = sessionKey user path sz"
      using D(3) by blast
    then have "Creator (sess m a) = user \<and> Path (sess m a) = path \<and> Size (sess m a) = sz"
      using sessionKey_inject by (simp add: keyOf_def)
    moreover have "ID (sess m a) = i" "a < fresh m" using D(1,2)[OF a(1)] by simp_all
    moreover have "snapID (snapshotLocked (touch now a m) a) = ID (sess m a)"
      by (simp add: snapshotLocked_def touch_def Let_def split: option.split)
    ultimately show ?thesis
      using Some a(1) by (auto simp: Find_def Status_def get_def Let_def)
  qed (simp add: Find_def)
qed

theorem Find_is_own_session_witness:
  "\<exists>snap. snd (Find 1 ''/a/b'' 3 5 demo_manager) = Inr snap \<and> snapID snap = ''u1''"
proof -
  have "case snd (Find 1 ''/a/b'' 3 5 demo_manager) of Inr snap \<Rightarrow> True | Inl _ \<Rightarrow> False" by code_simp
  moreover have "fresh demo_manager = 1" "ID (sess demo_manager 0) = ''u1''" by code_simp+
  ultimately show ?thesis
    using Find_is_own_session[OF demo_manager_reach, of 1 "''/a/b''" 3 5]
    by (auto split: prod.splits sum.splits)
qed

section \<open>One pipeline per session\<close>

lemma chunk_prev_window: "swin (sess m a) \<noteq> None \<Longrightarrow> snd (Chunk_prev a idx m) \<noteq> ChunkNilWindow"
  by (auto simp: Chunk_prev_def Let_def)

text \<open>C5: However requests, pipelines, aborts and expiry interleave, a session never has two upload
  pipelines at once; while it is receiving it has one, whose window it points to and whose completion
  channel \<open>Complete\<close> waits on, so a chunk never meets a nil window.\<close>

theorem session_has_one_pipeline:
  assumes "mreach m" and "a < fresh m"
  shows "(\<forall>w w'. running m w = Some a \<longrightarrow> running m w' = Some a \<longrightarrow> w = w')
    \<and> (state (sess m a) = StateReceiving \<longrightarrow>
        (\<exists>w. running m w = Some a \<and> swin (sess m a) = Some w \<and> sdone (sess m a) = Some w))
    \<and> snd (Chunk_begin mk op a idx m) \<noteq> ChunkNilWindow"
proof -
  have inv: "minv m" by (rule mreach_minv[OF assms(1)])
  have own: "running m w = Some a \<longleftrightarrow> swin (sess m a) = Some w" for w
    using minvD(1)[OF inv] assms(2) by (simp add: minv_pipe_def)
  have rec: "swin (sess m a) \<noteq> None \<and> sdone (sess m a) = swin (sess m a)"
    if "state (sess m a) = StateReceiving"
    using minvD(2)[OF inv] assms(2) that by (simp add: minv_state_def)
  have retry: "snd (Chunk_prev a idx m') \<noteq> ChunkNilWindow"
    if "startAttemptLocked mk op a m = Started m'" for m'
    by (rule startAttempt_Started[OF that]) (intro chunk_prev_window, simp)
  have "snd (Chunk_begin mk op a idx m) \<noteq> ChunkNilWindow"
    using retry rec chunk_prev_window by (auto simp: Chunk_begin_def split: State.split started.split)
  then show ?thesis using own rec by auto
qed

theorem session_has_one_pipeline_witness: "\<exists>w. running demo_manager w = Some 0"
proof -
  have "0 < fresh demo_manager" "state (sess demo_manager 0) = StateReceiving" by code_simp+
  then show ?thesis using session_has_one_pipeline[OF demo_manager_reach] by blast
qed

section \<open>Ending a session\<close>

lemma terminate_frame:
  "sess (remove_session a m) = sess m" "wins (remove_session a m) = wins m"
  "byID (terminate_locked a cause m) = byID m" "byKey (terminate_locked a cause m) = byKey m"
  "ID (sess (terminate_locked a cause m) b) = ID (sess m b)"
  "keyOf (sess (terminate_locked a cause m) b) = keyOf (sess m b)"
  "swin (sess (terminate_locked a cause m) b) = swin (sess m b)"
  by (simp_all add: remove_session_def terminate_locked_def killAttemptLocked_def Let_def keyOf_def
      split: option.split)

lemma terminate_wins:
  "swin (sess m a) = Some w \<Longrightarrow>
     wins (terminate_locked a cause m) w = CloseWithError (wins m w) ErrAborted"
  by (simp add: terminate_locked_def killAttemptLocked_def)

text \<open>An abort that returns has ended the session for good: its id is unknown, no key leads to it, it is
  no longer receiving, and the window of its attempt is closed, so a driver blocked in it is released.\<close>

theorem Abort_forgets_the_session:
  assumes "mreach m" and "Abort user i m = Some (m', None)"
  shows "get other i m' = Inl [ErrSessionNotFound] \<and> (\<forall>k. byKey m' k \<noteq> Some i)
    \<and> (\<exists>a. byID m i = Some a \<and> Creator (sess m a) = user \<and> state (sess m' a) \<noteq> StateReceiving
         \<and> (\<forall>w. swin (sess m' a) = Some w \<longrightarrow> err (wins m' w) \<noteq> None \<and> f (wins m' w) = None))"
proof -
  obtain a where a: "byID m i = Some a" "Creator (sess m a) = user" "\<not> locked (sess m a)"
    and m': "m' = remove_session a (terminate_locked a [AbortedByClient] m)"
    using assms(2) by (auto simp: Abort_def get_def manager_terminate_def split: option.splits if_splits)
  let ?t = "terminate_locked a [AbortedByClient] m"
  note D = minv_indexD[OF minvD(4)[OF mreach_minv[OF assms(1)]]]
  have i: "ID (sess m a) = i" using D(2)[OF a(1)] .
  have "byKey m' k \<noteq> Some i" for k
  proof
    assume k: "byKey m' k = Some i"
    then have "byKey m k = Some i" unfolding m' remove_session_def Let_def
      by (auto simp: terminate_frame split: if_splits)
    then have "k = keyOf (sess m a)" using D(3) a(1) by fastforce
    then show False using k i \<open>byKey m k = Some i\<close>
      unfolding m' remove_session_def Let_def by (simp add: terminate_frame)
  qed
  moreover have "byID m' i = None"
    unfolding m' remove_session_def Let_def by (simp add: terminate_frame i)
  moreover have "state (sess m' a) \<noteq> StateReceiving"
    unfolding m' by (simp add: terminate_frame terminate_locked_def killAttemptLocked_def split: option.split)
  moreover have "err (wins m' w) \<noteq> None \<and> f (wins m' w) = None" if "swin (sess m' a) = Some w" for w
    using that unfolding m'
    by (simp add: terminate_frame terminate_wins CloseWithError_def split: option.split)
  ultimately show ?thesis using a by (auto simp: get_def)
qed


theorem Abort_forgets_the_session_witness:
  "\<exists>m'. Abort 1 ''u1'' demo_manager = Some (m', None) \<and> get 1 ''u1'' m' = Inl [ErrSessionNotFound]"
proof -
  have "case Abort 1 ''u1'' demo_manager of Some (m', None) \<Rightarrow> True | _ \<Rightarrow> False" by code_simp
  then obtain m' where "Abort 1 ''u1'' demo_manager = Some (m', None)" by (auto split: option.splits)
  then show ?thesis using Abort_forgets_the_session[OF demo_manager_reach] by blast
qed

section \<open>Resuming\<close>

lemma hashes_loop_iff:
  "hashes_loop old new shared \<longleftrightarrow>
     (\<forall>(t, ov) \<in> set old. map_of new t = None \<or> map_of new t = Some ov) \<and>
     (shared \<or> (\<exists>(t, ov) \<in> set old. map_of new t \<noteq> None))"
  by (induction old new shared rule: hashes_loop.induct) (auto split: option.splits)

text \<open>A live upload is joined by a new client exactly when it failed retriably, or when it still receives
  and the two hash sets share a type and agree on every shared type, whatever the map's iteration order;
  any other live upload under that key is superseded.\<close>

theorem Init_resumes_iff_same_file:
  assumes "byKey m (sessionKey (reqUser req) (reqPath req) (reqSize req)) = Some i"
    and "byID m i = Some a" and "\<not> locked (sess m a)"
  shows "Init_lookup req m =
    (if state (sess m a) = StateFailedRetriable
        \<or> state (sess m a) = StateReceiving
          \<and> (\<exists>(t, v) \<in> set (Hashes (sess m a)). map_of (reqHashes req) t \<noteq> None)
          \<and> (\<forall>(t, v) \<in> set (Hashes (sess m a)). map_of (reqHashes req) t \<in> {None, Some v})
     then InitResume a else InitSupersede a)"
  using assms by (simp add: Init_lookup_def hashesQualifyResume_def hashes_loop_iff Let_def case_prod_unfold conj_commute)

theorem Init_resumes_iff_same_file_witness: "Init_lookup demo_req demo_manager = InitResume 0"
proof -
  have "byKey demo_manager (sessionKey (reqUser demo_req) (reqPath demo_req) (reqSize demo_req)) = Some ''u1''"
    "byID demo_manager ''u1'' = Some 0" "\<not> locked (sess demo_manager 0)"
    "state (sess demo_manager 0) = StateReceiving" "Hashes (sess demo_manager 0) = [(''md5'', ''x'')]"
    by code_simp+
  then show ?thesis
    by (subst Init_resumes_iff_same_file) (auto simp: demo_req_def)
qed

section \<open>Chunks\<close>

text \<open>A retried upload cannot mix two files unnoticed: when a re-sent chunk's checksum differs from the one
  recorded in the previous attempt, the session becomes permanently failed, its window is closed, and the
  client gets the error; an unchanged chunk changes nothing.\<close>

theorem Chunk_detects_changed_content:
  assumes "swin (sess m a) = Some w" and "crc \<noteq> old"
  shows "(case Chunk_end a idx (Some old) (Inr crc) m of (m', snap, e) \<Rightarrow>
      state (sess m' a) = StateFailedPermanent \<and> err (wins m' w) \<noteq> None
      \<and> e = Some [ContentChanged (nat idx)] \<and> snapState snap = StateFailedPermanent)
    \<and> Chunk_end a idx (Some crc) (Inr crc) m = (m, snapshotLocked m a, None)"
  using assms
  by (simp add: Chunk_end_def Let_def killAttemptLocked_def CloseWithError_def snapshotLocked_def
      split: option.split)

theorem Chunk_detects_changed_content_witness:
  "err (wins (fst (Chunk_end 0 2 (Some 7) (Inr 9) demo_manager)) 0) \<noteq> None"
proof -
  have "swin (sess demo_manager 0) = Some 0" by code_simp
  from Chunk_detects_changed_content[OF this, of 9 7 2] show ?thesis by (simp add: case_prod_unfold)
qed

section \<open>A flaw: the negative chunk index\<close>

text \<open>The code's flaw: a negative chunk index, which the handler passes on unchecked, passes the length
  test and panics while \<open>s.mu\<close> is held.\<close>

text \<open>No step touches a session whose lock is held, but for its time of last activity.\<close>

definition frozen :: "nat \<Rightarrow> Session \<Rightarrow> Manager \<Rightarrow> bool" where
  "frozen a s m \<longleftrightarrow> a < fresh m \<and> locked s \<and> sess m a = s\<lparr>lastActive := lastActive (sess m a)\<rparr>"

lemma frozenD: "frozen a s m \<Longrightarrow> locked (sess m a) \<and> a < fresh m"
  unfolding frozen_def by (metis Session.select_convs(19) Session.surjective Session.update_convs(18))

lemma frozen_cong: "frozen a s m \<Longrightarrow> sess m' a = sess m a \<Longrightarrow> fresh m \<le> fresh m' \<Longrightarrow> frozen a s m'"
  by (simp add: frozen_def)

lemma startAttempt_other:
  "startAttemptLocked mk op b m = Started m' \<Longrightarrow> fresh m' = fresh m \<and> (a \<noteq> b \<longrightarrow> sess m' a = sess m a)"
  by (auto simp: startAttemptLocked_def Let_def split: outcome.splits)

lemma kill_sess [simp]: "sess (killAttemptLocked b m) = sess m" "fresh (killAttemptLocked b m) = fresh m"
  by (simp_all add: killAttemptLocked_def split: option.split)

lemma Chunk_begin_other:
  assumes "Chunk_begin mk op b idx m = (m', r)" "locked (sess m a)"
  shows "fresh m' = fresh m \<and> sess m' a = sess m a"
proof (cases "a = b")
  case True
  then show ?thesis using assms by (simp add: Chunk_begin_def)
next
  case False
  have prev: "Chunk_prev b idx n = (n', q) \<Longrightarrow> fresh n' = fresh n \<and> sess n' a = sess n a" for n n' q
    using False by (auto simp: Chunk_prev_def Let_def split: if_splits)
  then show ?thesis
    using assms(1) False startAttempt_other[of mk op b m _ a]
    by (auto simp: Chunk_begin_def split: if_splits State.splits started.splits dest: prev)
qed

lemma mstep_frozen: "mstep m m' \<Longrightarrow> frozen a s m \<Longrightarrow> frozen a s m'"
proof (induction rule: mstep.induct)
  case (ms_init mk op uuid now req m m' b)
  from ms_init(1) have "b = fresh m \<and> fresh m' = Suc (fresh m) \<and> (a \<noteq> b \<longrightarrow> sess m' a = sess m a)"
    by (auto simp: Init_start_def Let_def split: started.splits dest!: startAttempt_other[where a = a])
  then show ?case using ms_init(3) frozenD[OF ms_init(3)] by (intro frozen_cong[OF ms_init(3)]) auto
next
  case (ms_register b m)
  then show ?case by (auto simp: Init_register_def intro: frozen_cong)
next
  case (ms_terminate b m cause)
  then have "a \<noteq> b" using frozenD by blast
  then show ?case using ms_terminate by (auto simp: terminate_locked_def intro: frozen_cong)
next
  case (ms_remove b m)
  then show ?case by (auto simp: remove_session_def Let_def intro: frozen_cong)
next
  case (ms_touch b m now)
  obtain x where "b < fresh m" "locked s" "sess m a = s\<lparr>lastActive := x\<rparr>" "a < fresh m"
    using ms_touch unfolding frozen_def by metis
  then show ?case by (auto simp: touch_def frozen_def)
next
  case (ms_chunk b m mk op idx m' r)
  then show ?case using Chunk_begin_other frozenD frozen_cong by (metis order_refl)
next
  case (ms_chunk_end b m idx prev res m' out)
  then have "a \<noteq> b" using frozenD by blast
  then show ?case using ms_chunk_end by (auto simp: Chunk_end_def Let_def split: sum.splits if_splits intro: frozen_cong)
next
  case (ms_window s m w t)
  then show ?case by (auto intro: frozen_cong)
next
  case (ms_finish m w b now e)
  then have "a \<noteq> b" using frozenD by blast
  then show ?case using ms_finish by (auto simp: finishAttempt_def CRCs_def intro: frozen_cong)
qed

lemma gc_hangs:
  assumes "locked (sess m a)" "a \<in> set as"
  shows "gc_terminate as m = None"
  using assms
proof (induction as arbitrary: m)
  case (Cons b bs)
  show ?case
  proof (cases "b = a")
    case True
    then show ?thesis using Cons.prems by (simp add: manager_terminate_def)
  next
    case False
    have "locked (sess m' a)" if "manager_terminate b [SessionExpired] m = Some m'" for m'
      using that False Cons.prems(1)
      by (auto simp: manager_terminate_def terminate_frame(1) terminate_locked_def split: if_splits)
    then show ?thesis using Cons False by (auto split: option.split)
  qed
qed simp



section \<open>Completing\<close>

lemma received_all:
  assumes inv: "winv s" and b: "totalSize (win s) \<le> (\<Sum>c | got s c \<noteq> None. ChunkLen (win s) c)"
  shows "\<forall>c < total (win s). got s c \<noteq> None"
proof (rule ccontr)
  have g: "window_geometry (win s)" using winvD(1)[OF inv] by (simp add: inv_geo_def)
  let ?G = "{c. got s c \<noteq> None}"
  have sub: "?G \<subseteq> {..< total (win s)}" using winvD(4)[OF inv] by (auto simp: inv_got_def)
  assume "\<not> (\<forall>c < total (win s). got s c \<noteq> None)"
  then obtain c where c: "c < total (win s)" "c \<notin> ?G" by auto
  have "totalSize (win s) < total (win s) * chunkSize (win s) + 1"
    using ceil_div_bounds(2)[of "chunkSize (win s)" "totalSize (win s)" "total (win s)"] g
    by (simp add: window_geometry_def less_Suc_eq_le)
  then have tot: "(\<Sum>x < total (win s). ChunkLen (win s) x) = totalSize (win s)"
    using sum_ChunkLen[OF g order_refl] by simp
  have "(\<Sum>x \<in> insert c ?G. ChunkLen (win s) x) \<le> (\<Sum>x < total (win s). ChunkLen (win s) x)"
    using sub c(1) by (intro sum_mono2) auto
  moreover have "finite ?G" by (rule finite_subset[OF sub]) simp
  ultimately show False using b c chunk_bounds(2)[OF g c(1)] tot by simp
qed

definition demo_window8 :: Window where
  "demo_window8 = (case NewWindow True True 2 3 8 of Return w \<Rightarrow> w | _ \<Rightarrow> undefined)"

definition demo_full :: wsys where
  "demo_full = (case wruns (wsys_start demo_window8) [Start 0 1 [9], Start 1 0 [7, 8], Admit 0 False,
     Admit 1 False, Copy 0, Copy 1, Commit 1, Commit 0] of Some s \<Rightarrow> s | None \<Rightarrow> undefined)"

lemma demo_full_reach: "wreach demo_window8 demo_full"
proof -
  have "wruns (wsys_start demo_window8) [Start 0 1 [9], Start 1 0 [7, 8], Admit 0 False,
     Admit 1 False, Copy 0, Copy 1, Commit 1, Commit 0] \<noteq> None" by code_simp
  then have "wruns (wsys_start demo_window8) [Start 0 1 [9], Start 1 0 [7, 8], Admit 0 False,
     Admit 1 False, Copy 0, Copy 1, Commit 1, Commit 0] = Some demo_full" by (auto simp: demo_full_def)
  then show ?thesis by (rule wruns_wreach) (rule wreach_start)
qed

text \<open>\<open>Complete\<close> only waits for the pipeline when nothing is missing: for a receiving session whose
  open window is in a reachable state, either it refuses, or every chunk of the file has been accepted.\<close>

theorem Complete_waits_only_for_a_full_upload:
  assumes "Complete_round a m = CompleteWait d" and "swin (sess m a) = Some w"
    and "NewWindow mk op (ChunkSize (sess m a)) (Size (sess m a)) WindowSlots = Return w0"
    and "Size (sess m a) + ChunkSize (sess m a) \<le> 2 ^ 63"
    and "wreach w0 s" and "wins m w = win s" and "err (win s) = None"
  shows "\<forall>c < total (win s). got s c \<noteq> None"
proof -
  have inv: "winv s" by (rule wreach_winv[OF assms(3,4,5)])
  have "\<not> int (ReceivedBytes (Window_Snapshot (win s))) < Size (sess m a)"
    using assms(1,2,6) by (auto simp: Complete_round_def Let_def split: if_splits)
  moreover have "totalSize (win s) = nat (Size (sess m a))"
    using wreach_geometry[OF assms(5)] NewWindow_Return[OF assms(3,4)] by simp
  ultimately have "totalSize (win s) \<le> ReceivedBytes (Window_Snapshot (win s))" by linarith
  then show ?thesis using snapshot_exact[OF assms(3,4,5,7)] received_all[OF inv] by simp
qed

theorem Complete_waits_only_for_a_full_upload_witness:
  "\<exists>m. Complete_round 0 m = CompleteWait 0 \<and> wins m 0 = win demo_full
     \<and> (\<forall>c < total (win demo_full). got demo_full c \<noteq> None)"
proof -
  let ?m = "demo_manager\<lparr>wins := (\<lambda>_. win demo_full)\<rparr>"
  have s: "Complete_round 0 ?m = CompleteWait 0" "swin (sess ?m 0) = Some 0"
    "NewWindow True True (ChunkSize (sess ?m 0)) (Size (sess ?m 0)) WindowSlots = Return demo_window8"
    "Size (sess ?m 0) + ChunkSize (sess ?m 0) \<le> 2 ^ 63" "err (win demo_full) = None" by code_simp+
  have "wins ?m 0 = win demo_full" by simp
  from Complete_waits_only_for_a_full_upload[OF s(1-4) demo_full_reach this s(5)] show ?thesis
    using s(1) by (intro exI[of _ ?m]) simp
qed

text \<open>A client can only shrink the chunk size: the effective size is at least one megabyte and never above
  the administrator's ceiling (itself raised to one megabyte), for every 64-bit setting and request.\<close>

theorem multipartChunkSize_bounds:
  "multipartMinChunkSize \<le> multipartChunkSize s r
    \<and> multipartChunkSize s r \<le> max multipartMinChunkSize (wrap64 (s * 2 ^ 20))
    \<and> (r \<le> 0 \<or> multipartChunkSize s r \<le> max multipartMinChunkSize r)"
  by (auto simp: multipartChunkSize_def Let_def)

end
