(* ===== verification/Go_Heap.thy ===== *)
theory Go_Heap imports Go_Base "HOL-Library.Multiset" begin

text \<open>
  \<open>container/heap\<close> of the standard library on a slice ordered by an integer key: \<open>up\<close>, \<open>down\<close>,
  \<open>Push\<close>, \<open>Remove\<close> with the library's index arithmetic, and the facts its users rely on: the
  operations permute the elements and keep the least key in front.
\<close>

section \<open>The operations\<close>

definition swap_at :: "nat \<Rightarrow> nat \<Rightarrow> 'a list \<Rightarrow> 'a list" where
  "swap_at i j h = h[i := h ! j, j := h ! i]"

function heap_up :: "('a \<Rightarrow> int) \<Rightarrow> nat \<Rightarrow> 'a list \<Rightarrow> 'a list" where
  "heap_up key j h =
     (let i = (j - 1) div 2
      in if i = j \<or> \<not> key (h ! j) < key (h ! i) then h else heap_up key i (swap_at i j h))"
  by pat_completeness auto
termination by (relation "measure (\<lambda>(key, j, h). j)") auto

definition least_child :: "('a \<Rightarrow> int) \<Rightarrow> nat \<Rightarrow> nat \<Rightarrow> 'a list \<Rightarrow> nat" where
  "least_child key i n h =
     (let j1 = 2 * i + 1; j2 = j1 + 1 in if j2 < n \<and> key (h ! j2) < key (h ! j1) then j2 else j1)"

lemma least_child_bounds: "2 * i + 1 < n \<Longrightarrow> least_child key i n h < n \<and> i < least_child key i n h
    \<and> (least_child key i n h - 1) div 2 = i \<and> 0 < least_child key i n h"
  by (auto simp: least_child_def Let_def)

lemma least_child_least:
  assumes "c < n" "0 < c" "(c - 1) div 2 = i"
  shows "key (h ! least_child key i n h) \<le> key (h ! c)"
proof -
  have "c = 2 * i + 1 \<or> c = 2 * i + 2" using assms(2,3) by linarith
  then show ?thesis using assms(1) by (auto simp: least_child_def Let_def)
qed

function heap_down :: "('a \<Rightarrow> int) \<Rightarrow> nat \<Rightarrow> nat \<Rightarrow> 'a list \<Rightarrow> nat \<times> 'a list" where
  "heap_down key i n h =
     (if 2 * i + 1 \<ge> n then (i, h)
      else (let j = least_child key i n h
            in if \<not> key (h ! j) < key (h ! i) then (i, h)
               else heap_down key j n (swap_at i j h)))"
  by pat_completeness auto
termination
proof (relation "measure (\<lambda>(key, i, n, h). n - i)", goal_cases)
  case (2 key i n h x)
  then show ?case using least_child_bounds[of i n key h] by auto
qed simp

declare heap_up.simps [simp del] heap_down.simps [simp del]

definition heap_push :: "('a \<Rightarrow> int) \<Rightarrow> 'a \<Rightarrow> 'a list \<Rightarrow> 'a list" where
  "heap_push key x h = heap_up key (length h) (h @ [x])"

definition heap_remove :: "('a \<Rightarrow> int) \<Rightarrow> nat \<Rightarrow> 'a list \<Rightarrow> 'a list" where
  "heap_remove key i h =
     (let n = length h - 1
      in if n = i then butlast h
         else (let (k, h') = heap_down key i n (swap_at i n h)
               in butlast (if k > i then h' else heap_up key i h')))"

section \<open>Elements\<close>

lemma length_swap_at [simp]: "length (swap_at i j h) = length h"
  by (simp add: swap_at_def)

lemma mset_swap_at: "i < length h \<Longrightarrow> j < length h \<Longrightarrow> mset (swap_at i j h) = mset h"
  by (simp add: swap_at_def mset_swap)

lemma nth_swap_at:
  "i < length h \<Longrightarrow> j < length h \<Longrightarrow> k < length h \<Longrightarrow>
     swap_at i j h ! k = (if k = j then h ! i else if k = i then h ! j else h ! k)"
  by (auto simp: swap_at_def nth_list_update)

lemma heap_up_mset: "j < length h \<Longrightarrow> mset (heap_up key j h) = mset h"
proof (induction key j h rule: heap_up.induct)
  case (1 key j h)
  show ?case
  proof (cases "(j - 1) div 2 = j \<or> \<not> key (h ! j) < key (h ! ((j - 1) div 2))")
    case True
    then show ?thesis by (subst heap_up.simps) (simp add: Let_def)
  next
    case False
    have i: "(j - 1) div 2 < length h" using "1.prems" by linarith
    then show ?thesis using False "1.IH"[OF refl] "1.prems"
      by (subst heap_up.simps) (simp add: Let_def mset_swap_at)
  qed
qed

lemma heap_down_mset: "n \<le> length h \<Longrightarrow> mset (snd (heap_down key i n h)) = mset h"
proof (induction key i n h rule: heap_down.induct)
  case (1 key i n h)
  let ?j = "least_child key i n h"
  show ?case
  proof (cases "2 * i + 1 \<ge> n \<or> \<not> key (h ! ?j) < key (h ! i)")
    case True
    then show ?thesis by (subst heap_down.simps) (auto simp: Let_def)
  next
    case False
    then have "i < length h" "?j < length h" using "1.prems" least_child_bounds[of i n key h] by auto
    then show ?thesis using False "1.IH"[OF _ refl] "1.prems"
      by (subst heap_down.simps) (simp add: Let_def mset_swap_at)
  qed
qed

section \<open>Order\<close>

definition heap_on :: "('a \<Rightarrow> int) \<Rightarrow> nat \<Rightarrow> 'a list \<Rightarrow> bool" where
  "heap_on key n h \<longleftrightarrow> (\<forall>c < n. 0 < c \<longrightarrow> key (h ! ((c - 1) div 2)) \<le> key (h ! c))"

definition heap_but_up :: "('a \<Rightarrow> int) \<Rightarrow> nat \<Rightarrow> nat \<Rightarrow> 'a list \<Rightarrow> bool" where
  "heap_but_up key j n h \<longleftrightarrow>
     (\<forall>c < n. 0 < c \<longrightarrow> c \<noteq> j \<longrightarrow> key (h ! ((c - 1) div 2)) \<le> key (h ! c)) \<and>
     (\<forall>c < n. 0 < c \<longrightarrow> 0 < j \<longrightarrow> (c - 1) div 2 = j \<longrightarrow> key (h ! ((j - 1) div 2)) \<le> key (h ! c))"

definition heap_but_down :: "('a \<Rightarrow> int) \<Rightarrow> nat \<Rightarrow> nat \<Rightarrow> 'a list \<Rightarrow> bool" where
  "heap_but_down key i n h \<longleftrightarrow>
     (\<forall>c < n. 0 < c \<longrightarrow> (c - 1) div 2 \<noteq> i \<longrightarrow> key (h ! ((c - 1) div 2)) \<le> key (h ! c)) \<and>
     (\<forall>c < n. 0 < c \<longrightarrow> 0 < i \<longrightarrow> (c - 1) div 2 = i \<longrightarrow> key (h ! ((i - 1) div 2)) \<le> key (h ! c))"

lemma heap_up_heap: "j < n \<Longrightarrow> n \<le> length h \<Longrightarrow> heap_but_up key j n h \<Longrightarrow> heap_on key n (heap_up key j h)"
proof (induction key j h rule: heap_up.induct)
  case (1 key j h)
  define i where "i = (j - 1) div 2"
  show ?case
  proof (cases "i = j \<or> \<not> key (h ! j) < key (h ! i)")
    case True
    have "heap_on key n h" unfolding heap_on_def
    proof (intro allI impI)
      fix c assume c: "c < n" "0 < c"
      show "key (h ! ((c - 1) div 2)) \<le> key (h ! c)"
        using True c "1.prems"(3) by (cases "c = j") (auto simp: heap_but_up_def i_def)
    qed
    then show ?thesis using True by (subst heap_up.simps) (simp add: Let_def i_def)
  next
    case False
    then have lt: "key (h ! j) < key (h ! i)" "i < j" "0 < j" by (auto simp: i_def)
    have ij: "i < length h" "j < length h" using lt "1.prems" by simp_all
    have sw: "swap_at i j h ! k = (if k = j then h ! i else if k = i then h ! j else h ! k)" if "k < n" for k
      using nth_swap_at[OF ij] that "1.prems"(2) by simp
    have P: "\<And>c. c < n \<Longrightarrow> 0 < c \<Longrightarrow> c \<noteq> j \<Longrightarrow> key (h ! ((c - 1) div 2)) \<le> key (h ! c)"
      and Q: "\<And>c. c < n \<Longrightarrow> 0 < c \<Longrightarrow> (c - 1) div 2 = j \<Longrightarrow> key (h ! i) \<le> key (h ! c)"
      using "1.prems"(3) lt(3) unfolding heap_but_up_def i_def by blast+
    have "heap_but_up key i n (swap_at i j h)"
      unfolding heap_but_up_def
    proof (intro conjI allI impI)
      fix c assume c: "c < n" "0 < c" "c \<noteq> i"
      have pc: "(c - 1) div 2 < n" using c by linarith
      show "key (swap_at i j h ! ((c - 1) div 2)) \<le> key (swap_at i j h ! c)"
        using sw[OF c(1)] sw[OF pc] P[OF c(1,2)] Q[OF c(1,2)] lt c(3)
        by (cases "c = j"; cases "(c - 1) div 2 = j"; cases "(c - 1) div 2 = i") (auto simp: i_def)
    next
      fix c assume c: "c < n" "0 < c" "0 < i" "(c - 1) div 2 = i"
      have pi: "(i - 1) div 2 < n" "i < n" "(i - 1) div 2 \<noteq> i" "(i - 1) div 2 \<noteq> j"
        using c(3) lt(2) "1.prems"(1) by (linarith | auto)+
      have "key (h ! ((i - 1) div 2)) \<le> key (h ! i)" using P[of i] pi(2) c(3) lt(2) by simp
      moreover have "key (h ! i) \<le> key (h ! c)" if "c \<noteq> j" using P[OF c(1,2) that] c(4) by simp
      moreover have "c \<noteq> i" using c by auto
      ultimately show "key (swap_at i j h ! ((i - 1) div 2)) \<le> key (swap_at i j h ! c)"
        using sw[OF c(1)] sw[OF pi(1)] pi by auto
    qed
    then have "heap_on key n (heap_up key i (swap_at i j h))"
      using "1.IH"[OF refl] False lt "1.prems"(1,2) by (simp add: i_def)
    then show ?thesis using False by (subst heap_up.simps) (simp add: Let_def i_def)
  qed
qed


lemma heap_down_stop:
  assumes "\<And>c. c < n \<Longrightarrow> 0 < c \<Longrightarrow> (c - 1) div 2 = i \<Longrightarrow> key (h ! i) \<le> key (h ! c)"
  shows "heap_down key i n h = (i, h)"
proof (cases "2 * i + 1 \<ge> n")
  case False
  then have "key (h ! i) \<le> key (h ! least_child key i n h)"
    using assms[of "least_child key i n h"] least_child_bounds[of i n key h] by simp
  then show ?thesis using False by (subst heap_down.simps) (simp add: Let_def)
qed (subst heap_down.simps, simp)

lemma heap_down_ge: "i \<le> fst (heap_down key i n h)"
proof (induction key i n h rule: heap_down.induct)
  case (1 key i n h)
  let ?j = "least_child key i n h"
  show ?case
  proof (cases "2 * i + 1 \<ge> n \<or> \<not> key (h ! ?j) < key (h ! i)")
    case False
    then have "?j \<le> fst (heap_down key ?j n (swap_at i ?j h))" using "1.IH"[OF _ refl] by simp
    moreover have "i < ?j" using False least_child_bounds[of i n key h] by simp
    ultimately show ?thesis using False by (subst heap_down.simps) (simp add: Let_def)
  qed (subst heap_down.simps, auto simp: Let_def)
qed

lemma heap_down_unmoved: "fst (heap_down key i n h) = i \<Longrightarrow> snd (heap_down key i n h) = h"
  using heap_down_ge[of "least_child key i n h" key n "swap_at i (least_child key i n h) h"]
    least_child_bounds[of i n key h]
  by (subst (asm) heap_down.simps, subst heap_down.simps) (auto simp: Let_def split: if_splits)

lemma heap_down_heap:
  "n \<le> length h \<Longrightarrow> heap_but_down key i n h \<Longrightarrow> (0 < i \<Longrightarrow> i < n \<Longrightarrow> key (h ! ((i - 1) div 2)) \<le> key (h ! i)) \<Longrightarrow>
     heap_on key n (snd (heap_down key i n h))"
proof (induction key i n h rule: heap_down.induct)
  case (1 key i n h)
  define j where "j = least_child key i n h"
  have P: "\<And>c. c < n \<Longrightarrow> 0 < c \<Longrightarrow> (c - 1) div 2 \<noteq> i \<Longrightarrow> key (h ! ((c - 1) div 2)) \<le> key (h ! c)"
    and Q: "\<And>c. c < n \<Longrightarrow> 0 < c \<Longrightarrow> 0 < i \<Longrightarrow> (c - 1) div 2 = i \<Longrightarrow> key (h ! ((i - 1) div 2)) \<le> key (h ! c)"
    using "1.prems"(2) unfolding heap_but_down_def by blast+
  show ?case
  proof (cases "2 * i + 1 \<ge> n \<or> \<not> key (h ! j) < key (h ! i)")
    case True
    have "heap_on key n h" unfolding heap_on_def
    proof (intro allI impI)
      fix c assume c: "c < n" "0 < c"
      show "key (h ! ((c - 1) div 2)) \<le> key (h ! c)"
      proof (cases "(c - 1) div 2 = i")
        case ci: True
        then have "2 * i + 1 < n" using c by linarith
        then show ?thesis using True ci least_child_least[OF c ci, of key h] by (simp add: j_def)
      qed (use P c in blast)
    qed
    then show ?thesis using True by (subst heap_down.simps) (auto simp: Let_def j_def)
  next
    case False
    then have lc: "j < n" "i < j" "(j - 1) div 2 = i" "0 < j" and lt: "key (h ! j) < key (h ! i)"
      using least_child_bounds[of i n key h] by (auto simp: j_def)
    have ij: "i < length h" "j < length h" using lc "1.prems"(1) by simp_all
    have sw: "swap_at i j h ! k = (if k = j then h ! i else if k = i then h ! j else h ! k)" if "k < n" for k
      using nth_swap_at[OF ij] that "1.prems"(1) by simp
    have least: "key (h ! j) \<le> key (h ! c)" if "c < n" "0 < c" "(c - 1) div 2 = i" for c
      using least_child_least[OF that] by (simp add: j_def)
    have "heap_but_down key j n (swap_at i j h)"
      unfolding heap_but_down_def
    proof (intro conjI allI impI)
      fix c assume c: "c < n" "0 < c" "(c - 1) div 2 \<noteq> j"
      have pc: "(c - 1) div 2 < n" using c by linarith
      show "key (swap_at i j h ! ((c - 1) div 2)) \<le> key (swap_at i j h ! c)"
      proof (cases "(c - 1) div 2 = i")
        case ci: True
        then have "c \<noteq> i" using c(2) by linarith
        then show ?thesis using sw[OF c(1)] sw[OF pc] ci lc(2) lt least[OF c(1,2) ci] by auto
      next
        case ni: False
        then have "c \<noteq> j" using lc(3) by auto
        moreover have "key (h ! ((i - 1) div 2)) \<le> key (h ! j)" if "c = i"
          using Q[OF lc(1,4) _ lc(3)] that c(2) by simp
        ultimately show ?thesis using sw[OF c(1)] sw[OF pc] P[OF c(1,2) ni] ni c(3) by auto
      qed
    next
      fix c assume c: "c < n" "0 < c" "0 < j" "(c - 1) div 2 = j"
      have "c \<noteq> j" "c \<noteq> i" using c lc by linarith+
      then show "key (swap_at i j h ! ((j - 1) div 2)) \<le> key (swap_at i j h ! c)"
        using sw[OF c(1)] sw[of i] lc P[OF c(1,2)] c(4) by simp
    qed
    moreover have "key (swap_at i j h ! ((j - 1) div 2)) \<le> key (swap_at i j h ! j)"
      using sw[of i] sw[of j] lc lt by simp
    ultimately have "heap_on key n (snd (heap_down key j n (swap_at i j h)))"
      using "1.IH"[OF _ j_def] False "1.prems"(1) by (simp add: j_def)
    then show ?thesis using False by (subst heap_down.simps) (simp add: Let_def j_def)
  qed
qed

section \<open>Push and Remove\<close>

lemma heap_on_cong:
  "n \<le> length h \<Longrightarrow> (\<And>k. k < n \<Longrightarrow> h' ! k = h ! k) \<Longrightarrow> heap_on key n h \<Longrightarrow> heap_on key n h'"
  by (auto simp: heap_on_def)

lemma heap_push_mset: "mset (heap_push key x h) = add_mset x (mset h)"
  by (simp add: heap_push_def heap_up_mset)

lemma heap_push_heap:
  assumes "heap_on key (length h) h"
  shows "heap_on key (length (heap_push key x h)) (heap_push key x h)"
proof -
  have "length (heap_push key x h) = Suc (length h)"
    using arg_cong[OF heap_push_mset[of key x h], of size] by simp
  moreover have "heap_but_up key (length h) (Suc (length h)) (h @ [x])"
    unfolding heap_but_up_def
  proof (intro conjI allI impI)
    fix c assume "c < Suc (length h)" "0 < c" "c \<noteq> length h"
    then show "key ((h @ [x]) ! ((c - 1) div 2)) \<le> key ((h @ [x]) ! c)"
      using assms by (auto simp: heap_on_def nth_append)
  next
    fix c assume "c < Suc (length h)" "0 < c" "(c - 1) div 2 = length h"
    then have False by linarith
    then show "key ((h @ [x]) ! ((length h - 1) div 2)) \<le> key ((h @ [x]) ! c)" ..
  qed
  then have "heap_on key (Suc (length h)) (heap_push key x h)"
    unfolding heap_push_def by (intro heap_up_heap) simp_all
  ultimately show ?thesis by simp
qed

lemma heap_on_but_up: "heap_on key n h \<Longrightarrow> j < n \<Longrightarrow> heap_but_up key j n h"
proof -
  assume h: "heap_on key n h" "j < n"
  have "key (h ! ((j - 1) div 2)) \<le> key (h ! c)" if "c < n" "0 < c" "0 < j" "(c - 1) div 2 = j" for c
  proof -
    have "key (h ! ((c - 1) div 2)) \<le> key (h ! c)" using h that(1,2) unfolding heap_on_def by blast
    moreover have "key (h ! ((j - 1) div 2)) \<le> key (h ! j)" using h that(3) unfolding heap_on_def by blast
    ultimately show ?thesis unfolding that(4) by linarith
  qed
  then show ?thesis using h(1) by (auto simp: heap_but_up_def heap_on_def)
qed

lemma heap_remove_steps:
  assumes "i < length h" and "heap_on key (length h) h" and "length h - 1 \<noteq> i"
  defines "n \<equiv> length h - 1" and "h1 \<equiv> swap_at i (length h - 1) h"
  shows "heap_on key n (let (k, h') = heap_down key i n h1 in if k > i then h' else heap_up key i h')"
    "mset (let (k, h') = heap_down key i n h1 in if k > i then h' else heap_up key i h') = mset h"
proof -
  have n: "n < length h" "i < n" "n \<le> length h1" using assms(1,3) by (auto simp: n_def h1_def)
  have sw: "h1 ! k = (if k = i then h ! n else h ! k)" if "k < n" for k
    using nth_swap_at[OF assms(1) n(1), of k] that n by (auto simp: h1_def n_def)
  have H: "\<And>c. c < length h \<Longrightarrow> 0 < c \<Longrightarrow> key (h ! ((c - 1) div 2)) \<le> key (h ! c)"
    using assms(2) by (simp add: heap_on_def)
  have P: "key (h1 ! ((c - 1) div 2)) \<le> key (h1 ! c)" if "c < n" "0 < c" "(c - 1) div 2 \<noteq> i" "c \<noteq> i" for c
    using sw[of c] sw[of "(c - 1) div 2"] H[of c] that n by auto
  have Q: "key (h1 ! ((i - 1) div 2)) \<le> key (h1 ! c)" if c: "c < n" "0 < c" "0 < i" "(c - 1) div 2 = i" for c
  proof -
    have "c \<noteq> i" "(i - 1) div 2 < n" "(i - 1) div 2 \<noteq> i" using c n by (linarith | auto)+
    then show ?thesis using sw[of c] sw[of "(i - 1) div 2"] H[of c] H[of i] c n by auto
  qed
  obtain k h' where d: "heap_down key i n h1 = (k, h')" by fastforce
  have m1: "mset h1 = mset h" using assms(1) n by (simp add: h1_def n_def mset_swap_at)
  have mh': "mset h' = mset h" using heap_down_mset[OF n(3), of key i] d m1 by simp
  have lh': "length h' = length h" using arg_cong[OF mh', of size] by simp
  have ki: "i \<le> k" "k = i \<Longrightarrow> h' = h1" using heap_down_ge[of i key n h1] heap_down_unmoved[of key i n h1] d by simp_all
  show "mset (let (k, h') = heap_down key i n h1 in if k > i then h' else heap_up key i h') = mset h"
    using mh' heap_up_mset[of i h' key] lh' assms(1) by (simp add: d)
  show "heap_on key n (let (k, h') = heap_down key i n h1 in if k > i then h' else heap_up key i h')"
  proof (cases "i = 0 \<or> key (h1 ! ((i - 1) div 2)) \<le> key (h1 ! i)")
    case True
    have "heap_but_down key i n h1"
      unfolding heap_but_down_def
    proof (intro conjI allI impI)
      fix c assume c: "c < n" "0 < c" "(c - 1) div 2 \<noteq> i"
      show "key (h1 ! ((c - 1) div 2)) \<le> key (h1 ! c)" using P[OF c] True c(2) by (cases "c = i") auto
    qed (use Q in blast)
    then have "heap_on key n h'" using heap_down_heap[of n h1 key i] n True d by auto
    then show ?thesis using heap_up_heap[OF n(2) _ heap_on_but_up[OF _ n(2)], of h' key] lh' n(1) by (simp add: d)
  next
    case False
    have kids: "key (h1 ! i) \<le> key (h1 ! c)" if "c < n" "0 < c" "(c - 1) div 2 = i" for c
      using Q[OF that(1,2) _ that(3)] False by fastforce
    have "heap_down key i n h1 = (i, h1)" using heap_down_stop kids by blast
    then have k: "k = i" "h' = h1" using d by simp_all
    have "heap_but_up key i n h1"
      unfolding heap_but_up_def
    proof (intro conjI allI impI)
      fix c assume c: "c < n" "0 < c" "c \<noteq> i"
      show "key (h1 ! ((c - 1) div 2)) \<le> key (h1 ! c)"
        using P[OF c(1,2) _ c(3)] kids[OF c(1,2)] by (cases "(c - 1) div 2 = i") simp_all
    qed (use Q in blast)
    then have "heap_on key n (heap_up key i h1)" by (rule heap_up_heap[OF n(2,3)])
    then show ?thesis using k by (simp add: d)
  qed
qed

lemma heap_remove_heap:
  assumes "i < length h" and "heap_on key (length h) h"
  shows "heap_on key (length h - 1) (heap_remove key i h)" "length (heap_remove key i h) = length h - 1"
proof -
  have b: "heap_on key n (butlast l)" if "heap_on key n l" "n = length l - 1" for n and l :: "'a list"
    using that by (auto simp: heap_on_def nth_butlast)
  show "heap_on key (length h - 1) (heap_remove key i h)"
  proof (cases "length h - 1 = i")
    case True
    have "heap_on key (length h - 1) h" using assms(2) by (simp add: heap_on_def)
    then show ?thesis using True b[of "length h - 1" h] by (simp add: heap_remove_def)
  next
    case False
    note s = heap_remove_steps[OF assms False]
    have "size (mset (let (k, h') = heap_down key i (length h - 1) (swap_at i (length h - 1) h)
        in if k > i then h' else heap_up key i h')) = length h" using s(2) by simp
    then show ?thesis using False b[OF s(1)] by (simp add: heap_remove_def case_prod_unfold Let_def)
  qed
  show "length (heap_remove key i h) = length h - 1"
  proof (cases "length h - 1 = i")
    case False
    then show ?thesis using arg_cong[OF heap_remove_steps(2)[OF assms False], of size]
      by (simp add: heap_remove_def case_prod_unfold Let_def split: if_splits)
  qed (simp add: heap_remove_def)
qed

lemma heap_min: "heap_on key n h \<Longrightarrow> c < n \<Longrightarrow> key (h ! 0) \<le> key (h ! c)"
proof (induction c rule: less_induct)
  case (less c)
  show ?case
  proof (cases "c = 0")
    case False
    then have "key (h ! ((c - 1) div 2)) \<le> key (h ! c)" using less.prems by (simp add: heap_on_def)
    moreover have "key (h ! 0) \<le> key (h ! ((c - 1) div 2))" using less.IH[of "(c - 1) div 2"] less.prems False by simp
    ultimately show ?thesis by linarith
  qed simp
qed


section \<open>The removed element ends up last\<close>

definition heap_sift :: "('a \<Rightarrow> int) \<Rightarrow> nat \<Rightarrow> 'a list \<Rightarrow> 'a list" where
  "heap_sift key i h =
     (let n = length h - 1
      in if n = i then h
         else (let (k, h') = heap_down key i n (swap_at i n h) in if k > i then h' else heap_up key i h'))"

lemma heap_up_above: "j < m \<Longrightarrow> m < length h \<Longrightarrow> heap_up key j h ! m = h ! m"
proof (induction key j h rule: heap_up.induct)
  case (1 key j h)
  let ?i = "(j - 1) div 2"
  show ?case
  proof (cases "?i = j \<or> \<not> key (h ! j) < key (h ! ?i)")
    case False
    have "?i < j" using False by linarith
    then show ?thesis using "1.IH"[OF refl] False "1.prems"
      by (subst heap_up.simps) (simp add: Let_def nth_swap_at)
  qed (subst heap_up.simps, simp add: Let_def)
qed

lemma heap_down_above: "n \<le> m \<Longrightarrow> m < length h \<Longrightarrow> snd (heap_down key i n h) ! m = h ! m"
proof (induction key i n h rule: heap_down.induct)
  case (1 key i n h)
  let ?j = "least_child key i n h"
  show ?case
  proof (cases "2 * i + 1 \<ge> n \<or> \<not> key (h ! ?j) < key (h ! i)")
    case True
    then show ?thesis by (subst heap_down.simps) (auto simp: Let_def)
  next
    case False
    then have "i < m" "?j < m" using least_child_bounds[of i n key h] "1.prems" by auto
    then show ?thesis using "1.IH"[OF _ refl] False "1.prems"
      by (subst heap_down.simps) (simp add: Let_def nth_swap_at)
  qed
qed

lemma heap_sift:
  assumes "i < length h"
  shows "butlast (heap_sift key i h) = heap_remove key i h" "length (heap_sift key i h) = length h"
    "last (heap_sift key i h) = h ! i" "mset (heap_sift key i h) = mset h"
proof -
  let ?n = "length h - 1" and ?h1 = "swap_at i (length h - 1) h"
  show "butlast (heap_sift key i h) = heap_remove key i h"
    by (simp add: heap_sift_def heap_remove_def Let_def case_prod_unfold)
  have m: "mset (heap_sift key i h) = mset h \<and> heap_sift key i h ! ?n = h ! i"
  proof (cases "?n = i")
    case False
    obtain k h' where d: "heap_down key i ?n ?h1 = (k, h')" by fastforce
    have n: "?n < length h" using assms by linarith
    have mm: "mset h' = mset h" using heap_down_mset[of ?n ?h1 key i] d assms n by (simp add: mset_swap_at)
    then have l: "length h' = length h" by (metis size_mset)
    have "h' ! ?n = h ! i" using heap_down_above[of ?n ?n ?h1 key i] d n assms by (simp add: nth_swap_at)
    then show ?thesis using d mm l False n assms heap_up_mset[of i h' key] heap_up_above[of i ?n h' key]
      by (simp add: heap_sift_def Let_def)
  qed (simp add: heap_sift_def)
  then show "mset (heap_sift key i h) = mset h" ..
  then show l: "length (heap_sift key i h) = length h" by (metis size_mset)
  show "last (heap_sift key i h) = h ! i" using m l assms by (subst last_conv_nth) auto
qed

section \<open>The interface\<close>

text \<open>The library works through \<open>Less\<close>, \<open>Swap\<close>, \<open>Push\<close> and \<open>Pop\<close> of its argument.\<close>

function hi_up :: "('s \<Rightarrow> nat \<Rightarrow> nat \<Rightarrow> bool) \<Rightarrow> (nat \<Rightarrow> nat \<Rightarrow> 's \<Rightarrow> 's) \<Rightarrow> nat \<Rightarrow> 's \<Rightarrow> 's" where
  "hi_up lt swap j s =
     (let i = (j - 1) div 2
      in if i = j \<or> \<not> lt s j i then s else hi_up lt swap i (swap i j s))"
  by pat_completeness auto
termination by (relation "measure (\<lambda>(lt, swap, j, s). j)") auto

function hi_down :: "('s \<Rightarrow> nat \<Rightarrow> nat \<Rightarrow> bool) \<Rightarrow> (nat \<Rightarrow> nat \<Rightarrow> 's \<Rightarrow> 's) \<Rightarrow> nat \<Rightarrow> nat \<Rightarrow> 's \<Rightarrow> nat \<times> 's" where
  "hi_down lt swap i n s =
     (let j1 = 2 * i + 1
      in if j1 \<ge> n then (i, s)
         else (let j2 = j1 + 1; j = (if j2 < n \<and> lt s j2 j1 then j2 else j1)
               in if \<not> lt s j i then (i, s) else hi_down lt swap j n (swap i j s)))"
  by pat_completeness auto
termination by (relation "measure (\<lambda>(lt, swap, i, n, s). n - i)") (auto simp: Let_def split: if_splits)

declare hi_up.simps [simp del] hi_down.simps [simp del]

definition hi_sift :: "('s \<Rightarrow> nat \<Rightarrow> nat \<Rightarrow> bool) \<Rightarrow> (nat \<Rightarrow> nat \<Rightarrow> 's \<Rightarrow> 's) \<Rightarrow> nat \<Rightarrow> nat \<Rightarrow> 's \<Rightarrow> 's" where
  "hi_sift lt swap len i s =
     (let n = len - 1
      in if n = i then s
         else (let (k, s') = hi_down lt swap i n (swap i n s)
               in if k > i then s' else hi_up lt swap i s'))"

text \<open>What an implementation of the interface promises: a view as a list of keyed elements that
  \<open>Less\<close> compares and \<open>Swap\<close> exchanges.\<close>

locale heap_interface =
  fixes lt :: "'s \<Rightarrow> nat \<Rightarrow> nat \<Rightarrow> bool"
    and swap :: "nat \<Rightarrow> nat \<Rightarrow> 's \<Rightarrow> 's"
    and view :: "'s \<Rightarrow> ('a \<times> int) list"
    and good :: "'s \<Rightarrow> bool"
  assumes lt_view: "good s \<Longrightarrow> i < length (view s) \<Longrightarrow> j < length (view s) \<Longrightarrow>
      lt s i j \<longleftrightarrow> snd (view s ! i) < snd (view s ! j)"
    and swap_view: "good s \<Longrightarrow> i < length (view s) \<Longrightarrow> j < length (view s) \<Longrightarrow>
      view (swap i j s) = swap_at i j (view s)"
    and swap_good: "good s \<Longrightarrow> i < length (view s) \<Longrightarrow> j < length (view s) \<Longrightarrow> good (swap i j s)"
begin

lemma up_view:
  "good s \<Longrightarrow> j < length (view s) \<Longrightarrow>
     view (hi_up lt swap j s) = heap_up snd j (view s) \<and> good (hi_up lt swap j s)"
proof (induction j arbitrary: s rule: less_induct)
  case (less j)
  let ?i = "(j - 1) div 2"
  have i: "?i < length (view s)" using less.prems(2) by linarith
  show ?case
  proof (cases "?i = j \<or> \<not> snd (view s ! j) < snd (view s ! ?i)")
    case True
    then show ?thesis using lt_view[OF less.prems(1) less.prems(2) i] less.prems(1)
      by (subst (1 2) hi_up.simps, subst heap_up.simps) (auto simp: Let_def)
  next
    case False
    then have "?i < j" by linarith
    then show ?thesis
      using less.IH[of ?i "swap ?i j s"] lt_view[OF less.prems i] swap_view[OF less.prems(1) i less.prems(2)]
        swap_good[OF less.prems(1) i less.prems(2)] False i
      by (subst (1 2) hi_up.simps, subst heap_up.simps) (simp add: Let_def)
  qed
qed

lemma down_view:
  "good s \<Longrightarrow> n \<le> length (view s) \<Longrightarrow>
     fst (hi_down lt swap i n s) = fst (heap_down snd i n (view s))
     \<and> view (snd (hi_down lt swap i n s)) = snd (heap_down snd i n (view s))
     \<and> good (snd (hi_down lt swap i n s))"
proof (induction "n - i" arbitrary: i s rule: less_induct)
  case (less i s)
  show ?case
  proof (cases "2 * i + 1 \<ge> n")
    case True
    then show ?thesis using less.prems
      by (subst (1 2 3) hi_down.simps, subst (1 2) heap_down.simps) simp
  next
    case False
    let ?j = "least_child snd i n (view s)"
    have b: "?j < n" "i < ?j" using False least_child_bounds[of i n snd "view s"] by auto
    have j: "(if 2 * i + 1 + 1 < n \<and> lt s (2 * i + 1 + 1) (2 * i + 1) then 2 * i + 1 + 1 else 2 * i + 1) = ?j"
      using False lt_view[OF less.prems(1), of "2 * i + 1 + 1" "2 * i + 1"] less.prems(2)
      by (auto simp: least_child_def Let_def)
    have ij: "i < length (view s)" "?j < length (view s)" using b less.prems(2) by simp_all
    have lv: "lt s ?j i \<longleftrightarrow> snd (view s ! ?j) < snd (view s ! i)"
      by (rule lt_view[OF less.prems(1) ij(2,1)])
    have rec: "hi_down lt swap i n s = (if \<not> lt s ?j i then (i, s) else hi_down lt swap ?j n (swap i ?j s))"
      using False by (subst hi_down.simps) (simp only: Let_def j if_False)
    have rec': "heap_down snd i n (view s) = (if \<not> lt s ?j i then (i, view s)
        else heap_down snd ?j n (view (swap i ?j s)))"
      using False lv swap_view[OF less.prems(1) ij] by (subst heap_down.simps) (simp add: Let_def)
    have "n - ?j < n - i" using b by linarith
    then show ?thesis
      using less.hyps[of ?j "swap i ?j s"] swap_view[OF less.prems(1) ij] swap_good[OF less.prems(1) ij]
        less.prems unfolding rec rec' by simp
  qed
qed

lemma sift_view:
  assumes "good s" and "i < length (view s)"
  shows "good (hi_sift lt swap (length (view s)) i s)"
    and "butlast (view (hi_sift lt swap (length (view s)) i s)) = heap_remove snd i (view s)"
    and "length (view (hi_sift lt swap (length (view s)) i s)) = length (view s)"
    and "last (view (hi_sift lt swap (length (view s)) i s)) = view s ! i"
proof -
  let ?n = "length (view s) - 1" and ?v = "view s"
  have "good (hi_sift lt swap (length ?v) i s)
    \<and> view (hi_sift lt swap (length ?v) i s) = heap_sift snd i ?v"
  proof (cases "?n = i")
    case True
    then show ?thesis using assms by (simp add: hi_sift_def heap_sift_def)
  next
    case False
    have n: "?n < length ?v" using assms(2) by linarith
    let ?s = "swap i ?n s"
    have s: "good ?s" "view ?s = swap_at i ?n ?v" using assms n swap_view swap_good by simp_all
    obtain k s' where d: "hi_down lt swap i ?n ?s = (k, s')" by fastforce
    then have d': "heap_down snd i ?n (swap_at i ?n ?v) = (k, view s')" "good s'"
      using down_view[OF s(1), of ?n i] s(2) by (auto simp: prod_eq_iff)
    have "length (view s') = length ?v"
      using arg_cong[OF heap_down_mset[of ?n "swap_at i ?n ?v" snd i], of size] d'(1) by simp
    then show ?thesis using False d d' up_view[of s' i] assms(2)
      by (simp add: hi_sift_def heap_sift_def Let_def)
  qed
  then show "good (hi_sift lt swap (length ?v) i s)"
    "butlast (view (hi_sift lt swap (length ?v) i s)) = heap_remove snd i ?v"
    "length (view (hi_sift lt swap (length ?v) i s)) = length ?v"
    "last (view (hi_sift lt swap (length ?v) i s)) = ?v ! i"
    using heap_sift[OF assms(2), of snd] by simp_all
qed

end

end
