(* ===== verification/Webdav_If.thy ===== *)
theory Webdav_If imports Webdav_Lock begin

text \<open>
  \<open>server/webdav/if.go\<close>: the lexer and the parser of the WebDAV \<open>If\<close> header.  Every lexer call
  that does not fail consumes input, so the loops end; a header that parses has at least one list and
  every list at least one condition.
\<close>

section \<open>Lexer\<close>

text \<open>A single-rune token is its character, the others have a name.\<close>

datatype token = ErrToken | EofToken | StrToken | NotToken | AngleToken | SquareToken | CharToken char

definition is_blank :: "char \<Rightarrow> bool" where
  "is_blank c \<longleftrightarrow> c = CHR 0x09 \<or> c = CHR '' ''"

definition is_break :: "char \<Rightarrow> bool" where
  "is_break c \<longleftrightarrow> c = CHR 0x09 \<or> c = CHR '' '' \<or> c = CHR ''('' \<or> c = CHR '')'' \<or> c = CHR ''<'' \<or> c = CHR ''>''
     \<or> c = CHR ''['' \<or> c = CHR '']''"

definition lex :: "string \<Rightarrow> token \<times> string \<times> string" where
  "lex s =
     (let s = dropWhile is_blank s
      in if s = [] then (EofToken, '''', '''')
         else let word = takeWhile (\<lambda>c. \<not> is_break c) s; remaining = drop (length word) s
         in if word \<noteq> [] then (if word = ''Not'' then (NotToken, '''', remaining) else (StrToken, word, remaining))
            else if hd s = CHR ''<'' then
              (case index_char (CHR ''>'') s of None \<Rightarrow> (ErrToken, '''', '''')
               | Some j \<Rightarrow> (AngleToken, drop 1 (take j s), drop (j + 1) s))
            else if hd s = CHR ''['' then
              (case index_char (CHR '']'') s of None \<Rightarrow> (ErrToken, '''', '''')
               | Some j \<Rightarrow> (SquareToken, drop 1 (take j s), drop (j + 1) s))
            else (CharToken (hd s), '''', drop 1 s))"

lemma index_char_less: "index_char c s = Some j \<Longrightarrow> j < length s"
  by (auto simp: index_char_def dest!: cut_char_Some)

lemma lex_shorter:
  assumes "lex s = (t, str, rest)" "t \<noteq> EofToken" "t \<noteq> ErrToken"
  shows "length rest < length s"
proof -
  define u where "u = dropWhile is_blank s"
  note a = assms(1)[unfolded lex_def Let_def, folded u_def]
  have "u \<noteq> []" using a assms(2) by auto
  then have "length rest < length u"
    using a assms(2,3) index_char_less[of _ u] by (auto split: if_splits option.splits)
  moreover have "length u \<le> length s" unfolding u_def by (rule length_dropWhile_le)
  ultimately show ?thesis by simp
qed

section \<open>Parser\<close>

record ifList =
  resourceTag :: string
  conditions :: "Condition list"

type_synonym ifHeader = "ifList list"

definition parseCondition :: "string \<Rightarrow> (Condition \<times> string) option" where
  "parseCondition s =
     (let (t1, str1, s1) = lex s;
          (neg, t, str, s2) = (if t1 = NotToken then let (t2, str2, s2) = lex s1 in (True, t2, str2, s2)
                               else (False, t1, str1, s1))
      in if t = StrToken \<or> t = AngleToken then Some (\<lparr>Not = neg, Token = str, ETag = ''''\<rparr>, s2)
         else if t = SquareToken then Some (\<lparr>Not = neg, Token = '''', ETag = str\<rparr>, s2)
         else None)"

lemma parseCondition_shorter: "parseCondition s = Some (c, rest) \<Longrightarrow> length rest < length s"
proof -
  assume p: "parseCondition s = Some (c, rest)"
  obtain t1 str1 s1 where l1: "lex s = (t1, str1, s1)" by (cases "lex s")
  show ?thesis
  proof (cases "t1 = NotToken")
    case True
    then have s1: "length s1 < length s" using lex_shorter[OF l1] by simp
    obtain t2 str2 s2 where l2: "lex s1 = (t2, str2, s2)" by (cases "lex s1")
    then have "rest = s2" "t2 = StrToken \<or> t2 = AngleToken \<or> t2 = SquareToken"
      using p l1 True by (auto simp: parseCondition_def split: if_splits)
    then show ?thesis using lex_shorter[OF l2] s1 by auto
  next
    case False
    then have "rest = s1" "t1 = StrToken \<or> t1 = AngleToken \<or> t1 = SquareToken"
      using p l1 by (auto simp: parseCondition_def split: if_splits)
    then show ?thesis using lex_shorter[OF l1] by auto
  qed
qed

text \<open>The loop of \<open>parseList\<close> after its opening parenthesis.\<close>

function parseList_loop :: "Condition list \<Rightarrow> string \<Rightarrow> (ifList \<times> string) option" where
  "parseList_loop conds s =
     (let (t, str, remaining) = lex s
      in if t = CharToken (CHR '')'') then
           (if conds = [] then None else Some (\<lparr>resourceTag = '''', conditions = conds\<rparr>, remaining))
         else (case parseCondition s of None \<Rightarrow> None
               | Some (c, remaining) \<Rightarrow> parseList_loop (conds @ [c]) remaining))"
  by pat_completeness auto
termination
  by (relation "measure (\<lambda>(conds, s). length s)") (auto dest: parseCondition_shorter)

declare parseList_loop.simps [simp del]

definition parseList :: "string \<Rightarrow> (ifList \<times> string) option" where
  "parseList s = (let (t, str, s) = lex s in if t \<noteq> CharToken (CHR ''('') then None else parseList_loop [] s)"

lemma parseList_loop_spec:
  "parseList_loop conds s = Some (l, rest) \<Longrightarrow> length rest < length s \<and> conditions l \<noteq> [] \<and> resourceTag l = ''''"
proof (induction conds s arbitrary: l rest rule: parseList_loop.induct)
  case (1 conds s)
  obtain t str r where l: "lex s = (t, str, r)" by (cases "lex s")
  show ?case
  proof (cases "t = CharToken (CHR '')'')")
    case True
    then show ?thesis using 1(2) l lex_shorter[OF l]
      by (subst (asm) parseList_loop.simps) (auto split: if_splits)
  next
    case False
    then obtain c r' where c: "parseCondition s = Some (c, r')" "parseList_loop (conds @ [c]) r' = Some (l, rest)"
      using 1(2) l by (subst (asm) (2) parseList_loop.simps) (auto split: option.splits)
    then show ?thesis using 1(1)[of "(t, str, r)" t "(str, r)" str r "(c, r')" c r'] l False parseCondition_shorter[OF c(1)]
      by fastforce
  qed
qed

lemma parseList_spec: "parseList s = Some (l, rest) \<Longrightarrow> length rest < length s \<and> conditions l \<noteq> [] \<and> resourceTag l = ''''"
proof -
  assume p: "parseList s = Some (l, rest)"
  obtain t str r where x: "lex s = (t, str, r)" by (cases "lex s")
  then have "parseList_loop [] r = Some (l, rest)" "t = CharToken (CHR ''('')"
    using p by (auto simp: parseList_def split: if_splits)
  then show ?thesis using parseList_loop_spec lex_shorter[OF x] by fastforce
qed

function parseNoTagLists :: "ifHeader \<Rightarrow> string \<Rightarrow> ifHeader option" where
  "parseNoTagLists h s =
     (case parseList s of None \<Rightarrow> None
      | Some (l, remaining) \<Rightarrow> if remaining = '''' then Some (h @ [l]) else parseNoTagLists (h @ [l]) remaining)"
  by pat_completeness auto
termination
  by (relation "measure (\<lambda>(h, s). length s)") (auto dest: parseList_spec)

declare parseNoTagLists.simps [simp del]

function parseTaggedLists :: "bool \<Rightarrow> string \<Rightarrow> nat \<Rightarrow> ifHeader \<Rightarrow> string \<Rightarrow> ifHeader option" where
  "parseTaggedLists first tag n h s =
     (let (t, str, remaining) = lex s
      in if t = AngleToken then
           (if \<not> first \<and> n = 0 then None else parseTaggedLists False str 0 h remaining)
         else if t = CharToken (CHR ''('') then
           (case parseList s of None \<Rightarrow> None
            | Some (l, remaining) \<Rightarrow>
                let h = h @ [l\<lparr>resourceTag := tag\<rparr>]
                in if remaining = '''' then Some h else parseTaggedLists False tag (n + 1) h remaining)
         else None)"
  by pat_completeness auto
termination
proof (relation "measure (\<lambda>(first, tag, n, h, s). length s)", goal_cases)
  case (2 first tag n h s x t y str remaining)
  then show ?case using lex_shorter[of s t str remaining] by simp
next
  case (3 first tag n h s x t y str remaining l lr rem)
  then show ?case using parseList_spec by auto
qed simp

declare parseTaggedLists.simps [simp del]

definition parseIfHeader :: "string \<Rightarrow> ifHeader option" where
  "parseIfHeader httpHeader =
     (let s = trim_space httpHeader; (t, str, remaining) = lex s
      in if t = CharToken (CHR ''('') then parseNoTagLists [] s
         else if t = AngleToken then parseTaggedLists True '''' 0 [] s
         else None)"

section \<open>Properties\<close>

definition wf_header :: "ifHeader \<Rightarrow> bool" where
  "wf_header h \<longleftrightarrow> (\<forall>l \<in> set h. conditions l \<noteq> [])"

lemma parseNoTagLists_wf:
  "parseNoTagLists h s = Some h' \<Longrightarrow> wf_header h \<Longrightarrow> \<forall>l \<in> set h. resourceTag l = '''' \<Longrightarrow>
     h' \<noteq> [] \<and> wf_header h' \<and> (\<forall>l \<in> set h'. resourceTag l = '''')"
proof (induction h s rule: parseNoTagLists.induct)
  case (1 h s)
  note run = 1(2)[unfolded parseNoTagLists.simps[of h s]]
  obtain l r where l: "parseList s = Some (l, r)" using run by (auto split: option.splits)
  note sp = parseList_spec[OF l]
  have w: "wf_header (h @ [l])" "\<forall>k \<in> set (h @ [l]). resourceTag k = ''''"
    using 1(3,4) sp by (auto simp: wf_header_def)
  show ?case
  proof (cases "r = ''''")
    case True
    then have "h' = h @ [l]" using run l by simp
    then show ?thesis using w by simp
  next
    case False
    then have "parseNoTagLists (h @ [l]) r = Some h'" using run l by simp
    from 1(1)[OF l refl False this w] show ?thesis .
  qed
qed

lemma parseTaggedLists_wf:
  "parseTaggedLists first tag n h s = Some h' \<Longrightarrow> wf_header h \<Longrightarrow> h' \<noteq> [] \<and> wf_header h'"
proof (induction first tag n h s rule: parseTaggedLists.induct)
  case (1 first tag n h s)
  obtain t str r where x: "lex s = (t, str, r)" by (cases "lex s")
  show ?case
  proof (cases "t = AngleToken")
    case True
    then have "parseTaggedLists False str 0 h r = Some h'" "\<not> (\<not> first \<and> n = 0)"
      using 1(3) x by (subst (asm) parseTaggedLists.simps, auto split: if_splits)+
    then show ?thesis using 1(1)[OF x[symmetric] refl refl True] 1(4) by blast
  next
    case False
    then have p: "t = CharToken (CHR ''('')"
      using 1(3) x by (subst (asm) parseTaggedLists.simps) (auto split: if_splits)
    then obtain l q where l: "parseList s = Some (l, q)"
      using 1(3) x False by (subst (asm) parseTaggedLists.simps) (auto split: option.splits)
    have w: "wf_header (h @ [l\<lparr>resourceTag := tag\<rparr>])" using 1(4) parseList_spec[OF l] by (auto simp: wf_header_def)
    show ?thesis
    proof (cases "q = ''''")
      case True
      then have "h' = h @ [l\<lparr>resourceTag := tag\<rparr>]"
        using 1(3) x False p l by (subst (asm) parseTaggedLists.simps) simp
      then show ?thesis using w by simp
    next
      case q: False
      then have "parseTaggedLists False tag (n + 1) (h @ [l\<lparr>resourceTag := tag\<rparr>]) q = Some h'"
        using 1(3) x False p l by (subst (asm) parseTaggedLists.simps) simp
      then show ?thesis using 1(2)[OF x[symmetric] refl refl False p l refl refl q] w by blast
    qed
  qed
qed

text \<open>A header that \<open>parseIfHeader\<close> accepts is a non-empty disjunction of non-empty conjunctions,
  so a handler never confirms an empty list of conditions.\<close>

theorem parseIfHeader_nonempty:
  assumes "parseIfHeader hdr = Some h"
  shows "h \<noteq> [] \<and> (\<forall>l \<in> set h. conditions l \<noteq> [])"
proof -
  let ?s = "trim_space hdr"
  have "parseNoTagLists [] ?s = Some h \<or> parseTaggedLists True '''' 0 [] ?s = Some h"
    using assms by (auto simp: parseIfHeader_def Let_def split: prod.splits if_splits)
  then show ?thesis
    using parseNoTagLists_wf[of "[]" ?s h] parseTaggedLists_wf[of True "''''" 0 "[]" ?s h]
    by (auto simp: wf_header_def)
qed

theorem parseIfHeader_nonempty_witness:
  "\<exists>h. parseIfHeader ''<http://h/a> (<urn:x> [W1]) (Not <urn:y>)'' = Some h \<and> length h = 2 \<and> (\<forall>l \<in> set h. conditions l \<noteq> [])"
proof -
  let ?h = "the (parseIfHeader ''<http://h/a> (<urn:x> [W1]) (Not <urn:y>)'')"
  have h: "parseIfHeader ''<http://h/a> (<urn:x> [W1]) (Not <urn:y>)'' = Some ?h" by code_simp
  have "length ?h = 2" by code_simp
  then show ?thesis using h parseIfHeader_nonempty[OF h] by blast
qed

end
