(* ===== verification/Access.thy ===== *)
theory Access imports Paths begin

text \<open>
  Who may do what: \<open>internal/model/user.go\<close> (roles and the permission bits of an \<open>int32\<close>),
  \<open>internal/model/meta.go\<close>, and the checks of \<open>server/common/check.go\<close>.  A meta guards a path and,
  for each of its settings, the paths below it.  The regular expressions of a meta's hide list belong
  to a third-party package: \<open>re_match\<close> is \<open>None\<close> where \<open>MustCompile\<close> panics.
\<close>

unbundle bit_operations_syntax

section \<open>Users\<close>

definition GENERAL :: int where "GENERAL = 0"
definition GUEST :: int where "GUEST = 1"
definition ADMIN :: int where "ADMIN = 2"

record User =
  ID :: nat
  Username :: string
  PwdHash :: string
  PwdTS :: int
  Salt :: string
  Password :: string
  BasePath :: string
  Role :: int
  Disabled :: bool
  Permission :: "32 word"
  OtpSecret :: string
  SsoID :: string
  Authn :: string
  AllowLdap :: bool

definition IsGuest :: "User \<Rightarrow> bool" where
  "IsGuest u \<longleftrightarrow> Role u = GUEST"

definition IsAdmin :: "User \<Rightarrow> bool" where
  "IsAdmin u \<longleftrightarrow> Role u = ADMIN"

definition CanSeeHides :: "32 word \<Rightarrow> bool" where
  "CanSeeHides p \<longleftrightarrow> p AND 1 = 1"

definition CanAccessWithoutPassword :: "32 word \<Rightarrow> bool" where
  "CanAccessWithoutPassword p \<longleftrightarrow> signed_drop_bit 1 p AND 1 = 1"

definition CanAddOfflineDownloadTasks :: "32 word \<Rightarrow> bool" where
  "CanAddOfflineDownloadTasks p \<longleftrightarrow> signed_drop_bit 2 p AND 1 = 1"

definition CanWriteContent :: "32 word \<Rightarrow> bool" where
  "CanWriteContent p \<longleftrightarrow> signed_drop_bit 3 p AND 1 = 1"

definition CanRename :: "32 word \<Rightarrow> bool" where
  "CanRename p \<longleftrightarrow> signed_drop_bit 4 p AND 1 = 1"

definition CanMove :: "32 word \<Rightarrow> bool" where
  "CanMove p \<longleftrightarrow> signed_drop_bit 5 p AND 1 = 1"

definition CanCopy :: "32 word \<Rightarrow> bool" where
  "CanCopy p \<longleftrightarrow> signed_drop_bit 6 p AND 1 = 1"

definition CanRemove :: "32 word \<Rightarrow> bool" where
  "CanRemove p \<longleftrightarrow> signed_drop_bit 7 p AND 1 = 1"

definition CanWebdavRead :: "32 word \<Rightarrow> bool" where
  "CanWebdavRead p \<longleftrightarrow> signed_drop_bit 8 p AND 1 = 1"

definition CanWebdavManage :: "32 word \<Rightarrow> bool" where
  "CanWebdavManage p \<longleftrightarrow> signed_drop_bit 9 p AND 1 = 1"

definition CanFTPAccess :: "32 word \<Rightarrow> bool" where
  "CanFTPAccess p \<longleftrightarrow> signed_drop_bit 10 p AND 1 = 1"

definition CanFTPManage :: "32 word \<Rightarrow> bool" where
  "CanFTPManage p \<longleftrightarrow> signed_drop_bit 11 p AND 1 = 1"

definition CanReadArchives :: "32 word \<Rightarrow> bool" where
  "CanReadArchives p \<longleftrightarrow> signed_drop_bit 12 p AND 1 = 1"

definition CanDecompress :: "32 word \<Rightarrow> bool" where
  "CanDecompress p \<longleftrightarrow> signed_drop_bit 13 p AND 1 = 1"

definition CanShare :: "32 word \<Rightarrow> bool" where
  "CanShare p \<longleftrightarrow> signed_drop_bit 14 p AND 1 = 1"

definition CanCustomizeShareID :: "32 word \<Rightarrow> bool" where
  "CanCustomizeShareID p \<longleftrightarrow> signed_drop_bit 15 p AND 1 = 1"

definition JoinPath :: "User \<Rightarrow> string \<Rightarrow> path_error + string" where
  "JoinPath u reqPath = JoinBasePath (BasePath u) reqPath"

section \<open>Metas\<close>

record Meta =
  mId :: nat
  mPath :: string
  ReadUsers :: "nat list"
  ReadUsersSub :: bool
  WriteUsers :: "nat list"
  WriteUsersSub :: bool
  mPassword :: string
  PSub :: bool
  mWrite :: bool
  WSub :: bool
  Hide :: string
  HSub :: bool
  Readme :: string
  RSub :: bool
  Header :: string
  HeaderSub :: bool

definition MetaCoversPath :: "string \<Rightarrow> string \<Rightarrow> bool \<Rightarrow> bool" where
  "MetaCoversPath metaPath reqPath applyToSubFolder \<longleftrightarrow>
     (if PathEqual metaPath reqPath then True else IsSubPath metaPath reqPath \<and> applyToSubFolder)"

definition CanRead :: "User option \<Rightarrow> Meta option \<Rightarrow> string \<Rightarrow> bool" where
  "CanRead user meta p =
     (case user of None \<Rightarrow> True
      | Some u \<Rightarrow> (case meta of None \<Rightarrow> True
          | Some m \<Rightarrow> \<not> (length (ReadUsers m) > 0 \<and> \<not> List.member (ReadUsers m) (ID u)
                         \<and> MetaCoversPath (mPath m) p (ReadUsersSub m))))"

definition CanWrite :: "User option \<Rightarrow> Meta option \<Rightarrow> string \<Rightarrow> bool" where
  "CanWrite user meta p =
     (case user of None \<Rightarrow> True
      | Some u \<Rightarrow> (case meta of None \<Rightarrow> True
          | Some m \<Rightarrow> \<not> (length (WriteUsers m) > 0 \<and> \<not> List.member (WriteUsers m) (ID u)
                         \<and> MetaCoversPath (mPath m) p (WriteUsersSub m))))"

definition CanWriteContentBypassUserPerms :: "Meta option \<Rightarrow> string \<Rightarrow> bool" where
  "CanWriteContentBypassUserPerms meta p =
     (case meta of None \<Rightarrow> False
      | Some m \<Rightarrow> if \<not> mWrite m then False else MetaCoversPath (mPath m) p (WSub m))"

text \<open>The loop over the lines of \<open>meta.Hide\<close>: \<open>Some True\<close> when one matches.\<close>

fun hide_loop :: "(string \<Rightarrow> string \<Rightarrow> bool option) \<Rightarrow> string \<Rightarrow> string list \<Rightarrow> bool option" where
  "hide_loop re_match name [] = Some False"
| "hide_loop re_match name (hide # hides) =
     (case re_match hide name of
        None \<Rightarrow> None
      | Some True \<Rightarrow> Some True
      | Some False \<Rightarrow> hide_loop re_match name hides)"

definition CanAccess :: "(string \<Rightarrow> string \<Rightarrow> bool option) \<Rightarrow> User \<Rightarrow> Meta option \<Rightarrow> string \<Rightarrow> string \<Rightarrow> bool option" where
  "CanAccess re_match user meta reqPath password =
     (case (case meta of
              None \<Rightarrow> Some False
            | Some m \<Rightarrow>
                if \<not> CanSeeHides (Permission user) \<and> Hide m \<noteq> '''' \<and> MetaCoversPath (mPath m) (path_dir reqPath) (HSub m)
                then hide_loop re_match (path_base reqPath) (split_char (CHR 0x0A) (Hide m))
                else Some False) of
        None \<Rightarrow> None
      | Some True \<Rightarrow> Some False
      | Some False \<Rightarrow> Some (
          if \<not> CanRead (Some user) meta reqPath then False
          else if CanAccessWithoutPassword (Permission user) then True
          else (case meta of
              None \<Rightarrow> True
            | Some m \<Rightarrow>
                if mPassword m = '''' then True
                else if \<not> MetaCoversPath (mPath m) reqPath (PSub m) then True
                else mPassword m = password)))"

section \<open>Lemmas\<close>

lemma signed_drop_bit_and_1: "k < 32 \<Longrightarrow> signed_drop_bit k p AND 1 = (1 :: 32 word) \<longleftrightarrow> bit p k"
proof -
  assume k: "k < 32"
  have "signed_drop_bit k p AND 1 = (if bit (signed_drop_bit k p) 0 then 1 else (0 :: 32 word))"
    by (simp add: and_one_eq mod_2_eq_odd flip: bit_0)
  then show ?thesis using k by (simp add: bit_signed_drop_bit_iff)
qed

text \<open>The sixteen permission tests read sixteen different bits of the user's \<open>int32\<close>, so granting
  or withdrawing one permission never changes another, also for a negative permission value.\<close>

theorem permissions_are_bits:
  "map (\<lambda>can. can p) [CanSeeHides, CanAccessWithoutPassword, CanAddOfflineDownloadTasks, CanWriteContent,
     CanRename, CanMove, CanCopy, CanRemove, CanWebdavRead, CanWebdavManage, CanFTPAccess, CanFTPManage,
     CanReadArchives, CanDecompress, CanShare, CanCustomizeShareID] = map (bit p) [0..<16]"
proof -
  have e: "[0..<16] = [0, 1, 2, 3, 4, 5, 6, 7, 8, 9, 10, 11, 12, 13, 14, 15 :: nat]" by (simp add: upt_rec)
  have z: "CanSeeHides p \<longleftrightarrow> bit p 0"
    using signed_drop_bit_and_1[of 0 p] by (simp add: CanSeeHides_def)
  show ?thesis
    unfolding e list.map z
    by (simp add: signed_drop_bit_and_1 CanAccessWithoutPassword_def CanAddOfflineDownloadTasks_def
      CanWriteContent_def CanRename_def CanMove_def CanCopy_def CanRemove_def CanWebdavRead_def CanWebdavManage_def
      CanFTPAccess_def CanFTPManage_def CanReadArchives_def CanDecompress_def CanShare_def CanCustomizeShareID_def)
qed

lemma MetaCoversPath_comps:
  "MetaCoversPath mp p sub \<longleftrightarrow> fix_comps mp = fix_comps p \<or> sub \<and> prefix (fix_comps mp) (fix_comps p)"
  by (auto simp: MetaCoversPath_def PathEqual_comps IsSubPath_comps)

lemma MetaCoversPath_mono: "MetaCoversPath mp p False \<Longrightarrow> MetaCoversPath mp p sub"
  by (simp add: MetaCoversPath_comps)

lemma hide_loop_True: "hide_loop re name hs = Some True \<Longrightarrow> \<exists>h \<in> set hs. re h name = Some True"
  by (induction hs) (auto split: option.splits bool.splits)

lemma hide_loop_False: "hide_loop re name hs = Some False \<Longrightarrow> \<forall>h \<in> set hs. re h name = Some False"
  by (induction hs) (auto split: option.splits bool.splits)

definition demo_user :: User where
  "demo_user = \<lparr>ID = 3, Username = ''bob'', PwdHash = '''', PwdTS = 0, Salt = '''', Password = '''', BasePath = ''/home'',
     Role = GENERAL, Disabled = False, Permission = 0xF8, OtpSecret = '''', SsoID = '''',
     Authn = '''', AllowLdap = True\<rparr>"

definition demo_meta :: Meta where
  "demo_meta = \<lparr>mId = 1, mPath = ''/home/a'', ReadUsers = [3], ReadUsersSub = True, WriteUsers = [4],
     WriteUsersSub = True, mPassword = ''pw'', PSub = True, mWrite = False, WSub = False, Hide = ''x'', HSub = True,
     Readme = '''', RSub = False, Header = '''', HeaderSub = False\<rparr>"

end
