(* ===== verification/Metas.thy ===== *)
theory Metas imports Access begin

text \<open>
  \<open>internal/op/meta.go\<close>: the metas of the database behind a cache, and the nearest meta of a path.
  The database (gorm) is a record of operations on a state \<open>'d\<close>; the locale \<open>meta_store\<close> names
  what \<open>meta.go\<close> relies on, and a table of rows provides it.  A cache entry \<open>Some None\<close> is the
  cached absence of a meta.
\<close>

datatype meta_error = MetaNotFound | DbError string

record 'd meta_db =
  dbByPath :: "string \<Rightarrow> 'd \<Rightarrow> meta_error + Meta"
  dbById :: "nat \<Rightarrow> 'd \<Rightarrow> meta_error + Meta"
  dbCreate :: "Meta \<Rightarrow> 'd \<Rightarrow> 'd \<times> meta_error option"
  dbUpdate :: "Meta \<Rightarrow> 'd \<Rightarrow> 'd \<times> meta_error option"
  dbDelete :: "nat \<Rightarrow> 'd \<Rightarrow> 'd \<times> meta_error option"

record 'd metas =
  metaCache :: "string \<Rightarrow> Meta option option"
  metaDb :: 'd

section \<open>Operations\<close>

definition cache_del :: "string \<Rightarrow> 'd metas \<Rightarrow> 'd metas" where
  "cache_del p s = s\<lparr>metaCache := (metaCache s)(p := None)\<rparr>"

definition getMetaByPath :: "'d meta_db \<Rightarrow> string \<Rightarrow> 'd metas \<Rightarrow> 'd metas \<times> (meta_error + Meta)" where
  "getMetaByPath db p s =
     (case metaCache s p of
        Some None \<Rightarrow> (s, Inl MetaNotFound)
      | Some (Some m) \<Rightarrow> (s, Inr m)
      | None \<Rightarrow>
          (case dbByPath db p (metaDb s) of
             Inl MetaNotFound \<Rightarrow> (s\<lparr>metaCache := (metaCache s)(p := Some None)\<rparr>, Inl MetaNotFound)
           | Inl e \<Rightarrow> (s, Inl e)
           | Inr m \<Rightarrow> (s\<lparr>metaCache := (metaCache s)(p := Some (Some m))\<rparr>, Inr m)))"

definition GetMetaByPath :: "'d meta_db \<Rightarrow> string \<Rightarrow> 'd metas \<Rightarrow> 'd metas \<times> (meta_error + Meta)" where
  "GetMetaByPath db p s = getMetaByPath db (FixAndCleanPath p) s"

partial_function (option) getNearestMeta :: "'d meta_db \<Rightarrow> string \<Rightarrow> 'd metas \<Rightarrow> ('d metas \<times> (meta_error + Meta)) option" where
  "getNearestMeta db p s =
     (case GetMetaByPath db p s of
        (s', Inr m) \<Rightarrow> Some (s', Inr m)
      | (s', Inl e) \<Rightarrow>
          if e \<noteq> MetaNotFound then Some (s', Inl e)
          else if p = ''/'' then Some (s', Inl MetaNotFound)
          else getNearestMeta db (path_dir p) s')"

declare getNearestMeta.simps [code]

definition GetNearestMeta :: "'d meta_db \<Rightarrow> string \<Rightarrow> 'd metas \<Rightarrow> ('d metas \<times> (meta_error + Meta)) option" where
  "GetNearestMeta db p s = getNearestMeta db (FixAndCleanPath p) s"

text \<open>The writers, each as its cache invalidation followed by its database write; other requests may
  run in between.\<close>

definition UpdateMeta_del :: "'d meta_db \<Rightarrow> Meta \<Rightarrow> 'd metas \<Rightarrow> 'd metas \<times> meta_error option" where
  "UpdateMeta_del db u s =
     (case dbById db (mId u) (metaDb s) of
        Inl e \<Rightarrow> (s, Some e)
      | Inr old \<Rightarrow> (cache_del (FixAndCleanPath (mPath u)) (cache_del (mPath old) s), None))"

definition UpdateMeta_write :: "'d meta_db \<Rightarrow> Meta \<Rightarrow> 'd metas \<Rightarrow> 'd metas \<times> meta_error option" where
  "UpdateMeta_write db u s =
     (let (d, e) = dbUpdate db (u\<lparr>mPath := FixAndCleanPath (mPath u)\<rparr>) (metaDb s) in (s\<lparr>metaDb := d\<rparr>, e))"

definition UpdateMeta :: "'d meta_db \<Rightarrow> Meta \<Rightarrow> 'd metas \<Rightarrow> 'd metas \<times> meta_error option" where
  "UpdateMeta db u s =
     (case UpdateMeta_del db u s of (s1, Some e) \<Rightarrow> (s1, Some e) | (s1, None) \<Rightarrow> UpdateMeta_write db u s1)"

definition CreateMeta :: "'d meta_db \<Rightarrow> Meta \<Rightarrow> 'd metas \<Rightarrow> 'd metas \<times> meta_error option" where
  "CreateMeta db u s =
     (let u = u\<lparr>mPath := FixAndCleanPath (mPath u)\<rparr>; s1 = cache_del (mPath u) s;
          (d, e) = dbCreate db u (metaDb s1)
      in (s1\<lparr>metaDb := d\<rparr>, e))"

definition DeleteMetaById :: "'d meta_db \<Rightarrow> nat \<Rightarrow> 'd metas \<Rightarrow> 'd metas \<times> meta_error option" where
  "DeleteMetaById db i s =
     (case dbById db i (metaDb s) of
        Inl e \<Rightarrow> (s, Some e)
      | Inr old \<Rightarrow> (let s1 = cache_del (mPath old) s; (d, e) = dbDelete db i (metaDb s1) in (s1\<lparr>metaDb := d\<rparr>, e)))"

definition cache_expire :: "string \<Rightarrow> 'd metas \<Rightarrow> 'd metas" where
  "cache_expire p s = cache_del p s"

section \<open>The database contract\<close>

text \<open>A write touches only the rows it names.\<close>

locale meta_store =
  fixes db :: "'d meta_db"
  assumes create_frame: "p \<noteq> mPath u \<Longrightarrow> dbByPath db p (fst (dbCreate db u d)) = dbByPath db p d"
    and update_frame: "dbById db (mId u) d = Inr old \<Longrightarrow> p \<noteq> mPath old \<Longrightarrow> p \<noteq> mPath u \<Longrightarrow>
      dbByPath db p (fst (dbUpdate db u d)) = dbByPath db p d"
    and delete_frame: "dbById db i d = Inr old \<Longrightarrow> p \<noteq> mPath old \<Longrightarrow>
      dbByPath db p (fst (dbDelete db i d)) = dbByPath db p d"

definition coherent :: "'d meta_db \<Rightarrow> 'd metas \<Rightarrow> bool" where
  "coherent db s \<longleftrightarrow> (\<forall>p x. metaCache s p = Some x \<longrightarrow>
     dbByPath db p (metaDb s) = (case x of None \<Rightarrow> Inl MetaNotFound | Some m \<Rightarrow> Inr m))"

lemma coherent_del: "coherent db s \<Longrightarrow> coherent db (cache_del p s)"
  by (simp add: coherent_def cache_del_def)

lemma getMetaByPath_coherent:
  assumes "coherent db s" "getMetaByPath db p s = (s', r)"
  shows "coherent db s'" "r = dbByPath db p (metaDb s)" "metaDb s' = metaDb s"
proof -
  have "coherent db s' \<and> r = dbByPath db p (metaDb s) \<and> metaDb s' = metaDb s"
  proof (cases "metaCache s p")
    case None
    then show ?thesis
      using assms by (auto simp: getMetaByPath_def coherent_def split: sum.splits meta_error.splits if_splits)
  next
    case (Some x)
    then have "dbByPath db p (metaDb s) = (case x of None \<Rightarrow> Inl MetaNotFound | Some m \<Rightarrow> Inr m)"
      using assms(1) unfolding coherent_def by blast
    then show ?thesis using assms Some by (auto simp: getMetaByPath_def split: option.splits)
  qed
  then show "coherent db s'" "r = dbByPath db p (metaDb s)" "metaDb s' = metaDb s" by blast+
qed

context meta_store begin

lemma coherent_write:
  assumes "coherent db s" "\<And>p. metaCache s' p \<noteq> None \<Longrightarrow>
    metaCache s' p = metaCache s p \<and> dbByPath db p (metaDb s') = dbByPath db p (metaDb s)"
  shows "coherent db s'"
  unfolding coherent_def
proof (intro allI impI)
  fix p x assume x: "metaCache s' p = Some x"
  then have "metaCache s p = Some x" "dbByPath db p (metaDb s') = dbByPath db p (metaDb s)" using assms(2)[of p] by simp_all
  then show "dbByPath db p (metaDb s') = (case x of None \<Rightarrow> Inl MetaNotFound | Some m \<Rightarrow> Inr m)"
    using assms(1) unfolding coherent_def by metis
qed

lemma Create_coherent: "coherent db s \<Longrightarrow> coherent db (fst (CreateMeta db u s))"
proof (rule coherent_write)
  let ?u = "u\<lparr>mPath := FixAndCleanPath (mPath u)\<rparr>"
  have s': "fst (CreateMeta db u s) = s\<lparr>metaCache := (metaCache s)(mPath ?u := None), metaDb := fst (dbCreate db ?u (metaDb s))\<rparr>"
    by (simp add: CreateMeta_def Let_def cache_del_def split: prod.split)
  fix p assume "metaCache (fst (CreateMeta db u s)) p \<noteq> None"
  then have "p \<noteq> mPath ?u" unfolding s' by (auto split: if_splits)
  then show "metaCache (fst (CreateMeta db u s)) p = metaCache s p \<and>
    dbByPath db p (metaDb (fst (CreateMeta db u s))) = dbByPath db p (metaDb s)"
    unfolding s' using create_frame[of p ?u "metaDb s"] by simp
qed

lemma Update_coherent:
  assumes "coherent db s"
  shows "coherent db (fst (UpdateMeta db u s))"
proof (cases "dbById db (mId u) (metaDb s)")
  case (Inl e)
  then show ?thesis using assms by (simp add: UpdateMeta_def UpdateMeta_del_def)
next
  case (Inr old)
  let ?u = "u\<lparr>mPath := FixAndCleanPath (mPath u)\<rparr>"
  have s': "fst (UpdateMeta db u s) = s\<lparr>metaCache := (metaCache s)(mPath old := None, mPath ?u := None),
      metaDb := fst (dbUpdate db ?u (metaDb s))\<rparr>"
    using Inr by (simp add: UpdateMeta_def UpdateMeta_del_def UpdateMeta_write_def cache_del_def split: prod.split)
  show ?thesis
  proof (rule coherent_write[OF assms])
    fix p assume "metaCache (fst (UpdateMeta db u s)) p \<noteq> None"
    then have p: "p \<noteq> mPath ?u" "p \<noteq> mPath old" unfolding s' by (auto split: if_splits)
    moreover have "dbById db (mId ?u) (metaDb s) = Inr old" using Inr by simp
    ultimately show "metaCache (fst (UpdateMeta db u s)) p = metaCache s p \<and>
      dbByPath db p (metaDb (fst (UpdateMeta db u s))) = dbByPath db p (metaDb s)"
      unfolding s' using update_frame[of ?u "metaDb s" old p] by simp
  qed
qed

lemma Delete_coherent:
  assumes "coherent db s"
  shows "coherent db (fst (DeleteMetaById db i s))"
proof (cases "dbById db i (metaDb s)")
  case (Inl e)
  then show ?thesis using assms by (simp add: DeleteMetaById_def)
next
  case (Inr old)
  have s': "fst (DeleteMetaById db i s) = s\<lparr>metaCache := (metaCache s)(mPath old := None),
      metaDb := fst (dbDelete db i (metaDb s))\<rparr>"
    using Inr by (simp add: DeleteMetaById_def Let_def cache_del_def split: prod.split)
  show ?thesis
  proof (rule coherent_write[OF assms])
    fix p assume "metaCache (fst (DeleteMetaById db i s)) p \<noteq> None"
    then have "p \<noteq> mPath old" unfolding s' by (auto split: if_splits)
    then show "metaCache (fst (DeleteMetaById db i s)) p = metaCache s p \<and>
      dbByPath db p (metaDb (fst (DeleteMetaById db i s))) = dbByPath db p (metaDb s)"
      unfolding s' using delete_frame[OF Inr] by simp
  qed
qed

end

section \<open>A table of rows\<close>

definition tbl_byPath :: "string \<Rightarrow> Meta list \<Rightarrow> meta_error + Meta" where
  "tbl_byPath p rows = (case List.find (\<lambda>m. mPath m = p) rows of None \<Rightarrow> Inl MetaNotFound | Some m \<Rightarrow> Inr m)"

definition tbl_byId :: "nat \<Rightarrow> Meta list \<Rightarrow> meta_error + Meta" where
  "tbl_byId i rows = (case List.find (\<lambda>m. mId m = i) rows of None \<Rightarrow> Inl (DbError ''record not found'') | Some m \<Rightarrow> Inr m)"

fun tbl_put :: "Meta \<Rightarrow> Meta list \<Rightarrow> Meta list" where
  "tbl_put u [] = [u]"
| "tbl_put u (m # rows) = (if mId m = mId u then u # rows else m # tbl_put u rows)"

fun tbl_drop :: "nat \<Rightarrow> Meta list \<Rightarrow> Meta list" where
  "tbl_drop i [] = []"
| "tbl_drop i (m # rows) = (if mId m = i then rows else m # tbl_drop i rows)"

definition tbl_insert :: "Meta \<Rightarrow> Meta list \<Rightarrow> Meta list \<times> meta_error option" where
  "tbl_insert u rows =
     (if List.find (\<lambda>m. mPath m = mPath u) rows \<noteq> None then (rows, Some (DbError ''UNIQUE''))
      else (rows @ [u\<lparr>mId := Suc (fold (\<lambda>m k. max (mId m) k) rows 0)\<rparr>], None))"

definition tbl_update :: "Meta \<Rightarrow> Meta list \<Rightarrow> Meta list \<times> meta_error option" where
  "tbl_update u rows =
     (if List.find (\<lambda>m. mPath m = mPath u \<and> mId m \<noteq> mId u) rows \<noteq> None then (rows, Some (DbError ''UNIQUE''))
      else (tbl_put u rows, None))"

definition table :: "Meta list meta_db" where
  "table = \<lparr>dbByPath = tbl_byPath, dbById = tbl_byId, dbCreate = tbl_insert, dbUpdate = tbl_update,
     dbDelete = (\<lambda>i rows. (tbl_drop i rows, None))\<rparr>"

lemma find_put: "List.find (\<lambda>m. mId m = mId u) rows = Some old \<Longrightarrow> p \<noteq> mPath old \<Longrightarrow> p \<noteq> mPath u \<Longrightarrow>
    List.find (\<lambda>m. mPath m = p) (tbl_put u rows) = List.find (\<lambda>m. mPath m = p) rows"
  by (induction rows) (auto split: if_splits)

lemma find_drop: "List.find (\<lambda>m. mId m = i) rows = Some old \<Longrightarrow> p \<noteq> mPath old \<Longrightarrow>
    List.find (\<lambda>m. mPath m = p) (tbl_drop i rows) = List.find (\<lambda>m. mPath m = p) rows"
  by (induction rows) (auto split: if_splits)

lemma find_append: "List.find P (xs @ ys) = (case List.find P xs of None \<Rightarrow> List.find P ys | Some x \<Rightarrow> Some x)"
  by (induction xs) auto

lemma table_byPath: "dbByPath table = tbl_byPath"
  by (simp add: table_def)

interpretation tbl: meta_store table
proof
  show "p \<noteq> mPath u \<Longrightarrow> dbByPath table p (fst (dbCreate table u d)) = dbByPath table p d" for p u d
    by (auto simp: table_def tbl_byPath_def tbl_insert_def find_append split: option.split)
  show "dbById table (mId u) d = Inr old \<Longrightarrow> p \<noteq> mPath old \<Longrightarrow> p \<noteq> mPath u \<Longrightarrow>
      dbByPath table p (fst (dbUpdate table u d)) = dbByPath table p d" for u d old p
    using find_put[of u d old p]
    by (auto simp: table_def tbl_byPath_def tbl_byId_def tbl_update_def split: option.splits)
  show "dbById table i d = Inr old \<Longrightarrow> p \<noteq> mPath old \<Longrightarrow>
      dbByPath table p (fst (dbDelete table i d)) = dbByPath table p d" for i d old p
    using find_drop[of i d old p]
    by (auto simp: table_def tbl_byPath_def tbl_byId_def split: option.splits)
qed

section \<open>The nearest meta\<close>

definition nearest :: "'d meta_db \<Rightarrow> 'd \<Rightarrow> string list \<Rightarrow> meta_error + Meta \<Rightarrow> bool" where
  "nearest db d cs r \<longleftrightarrow>
     (if r = Inl MetaNotFound then \<forall>qs. prefix qs cs \<longrightarrow> dbByPath db (mk_abs qs) d = Inl MetaNotFound
      else \<exists>qs. prefix qs cs \<and> dbByPath db (mk_abs qs) d = r
        \<and> (\<forall>rs. strict_prefix qs rs \<and> prefix rs cs \<longrightarrow> dbByPath db (mk_abs rs) d = Inl MetaNotFound))"

lemma nearest_here: "dbByPath db (mk_abs cs) d = r \<Longrightarrow> r \<noteq> Inl MetaNotFound \<Longrightarrow> nearest db d cs r"
  unfolding nearest_def by (auto simp: strict_prefix_def intro!: exI[of _ cs])

lemma nearest_root: "dbByPath db (mk_abs []) d = Inl MetaNotFound \<Longrightarrow> nearest db d [] (Inl MetaNotFound)"
  by (simp add: nearest_def)

lemma nearest_up:
  assumes "dbByPath db (mk_abs (cs @ [c])) d = Inl MetaNotFound" "nearest db d cs r"
  shows "nearest db d (cs @ [c]) r"
proof (cases "r = Inl MetaNotFound")
  case True
  then show ?thesis using assms by (simp add: nearest_def)
next
  case False
  then obtain qs where q: "prefix qs cs" "dbByPath db (mk_abs qs) d = r"
    "\<forall>rs. strict_prefix qs rs \<and> prefix rs cs \<longrightarrow> dbByPath db (mk_abs rs) d = Inl MetaNotFound"
    using assms(2) by (auto simp: nearest_def)
  have "prefix qs (cs @ [c])" using q(1) by simp
  moreover have "dbByPath db (mk_abs rs) d = Inl MetaNotFound" if "strict_prefix qs rs" "prefix rs (cs @ [c])" for rs
    using q(3) assms(1) that by (cases "rs = cs @ [c]") auto
  ultimately show ?thesis using False q(2) by (auto simp: nearest_def)
qed

lemma mk_abs_chars_snoc: "x \<notin> set (mk_abs (cs @ [c])) \<Longrightarrow> x \<notin> set (mk_abs cs)"
  by (cases "cs = []") (auto simp: mk_abs_def join_char_append)

lemma getNearestMeta_nearest:
  assumes "normal_comps cs" "CHR 0x5C \<notin> set (mk_abs cs)" "coherent db s"
  shows "\<exists>s' r. getNearestMeta db (mk_abs cs) s = Some (s', r) \<and> coherent db s' \<and> metaDb s' = metaDb s
    \<and> nearest db (metaDb s) cs r"
  using assms
proof (induction cs arbitrary: s rule: rev_induct)
  case Nil
  obtain s1 r where g: "GetMetaByPath db (mk_abs []) s = (s1, r)" by fastforce
  have "getMetaByPath db (mk_abs []) s = (s1, r)"
    using g FixAndCleanPath_mk_abs[OF Nil(1,2)] by (simp add: GetMetaByPath_def)
  note G = getMetaByPath_coherent[OF Nil(3) this]
  have root: "mk_abs [] = ''/''" by (simp add: mk_abs_def)
  show ?case
  proof (cases "r = Inl MetaNotFound")
    case True
    then show ?thesis
      using G g nearest_root[of db "metaDb s"] by (subst getNearestMeta.simps) (simp add: root)
  next
    case False
    then show ?thesis using G g nearest_here[of db "[]" "metaDb s" r]
      by (subst getNearestMeta.simps) (auto split: sum.split)
  qed
next
  case (snoc c cs)
  obtain s1 r where g: "GetMetaByPath db (mk_abs (cs @ [c])) s = (s1, r)" by fastforce
  have "getMetaByPath db (mk_abs (cs @ [c])) s = (s1, r)"
    using g FixAndCleanPath_mk_abs[OF snoc.prems(1,2)] by (simp add: GetMetaByPath_def)
  note G = getMetaByPath_coherent[OF snoc.prems(3) this]
  have nroot: "mk_abs (cs @ [c]) \<noteq> ''/''" using mk_abs_single[OF snoc.prems(1)] by simp
  show ?case
  proof (cases "r = Inl MetaNotFound")
    case True
    have n: "normal_comps cs" using snoc.prems(1) by simp
    obtain s' q where q: "getNearestMeta db (mk_abs cs) s1 = Some (s', q)" "coherent db s'" "metaDb s' = metaDb s1"
      "nearest db (metaDb s1) cs q"
      using snoc.IH[OF n mk_abs_chars_snoc[OF snoc.prems(2)] G(1)] by blast
    have "getNearestMeta db (mk_abs (cs @ [c])) s = Some (s', q)"
      using g True q(1) nroot path_dir_mk_abs[OF snoc.prems(1)] by (subst getNearestMeta.simps) simp
    moreover have "nearest db (metaDb s) (cs @ [c]) q"
      using nearest_up[of db cs c "metaDb s" q] q(4) G True by simp
    ultimately show ?thesis using q G(3) by simp
  next
    case False
    then show ?thesis using G g nearest_here[of db "cs @ [c]" "metaDb s" r]
      by (subst getNearestMeta.simps) (auto split: sum.split)
  qed
qed

text \<open>The lookup of the nearest meta always ends, and its answer is the meta of the closest ancestor
  of the cleaned path (the path itself first) that has one, or \<open>MetaNotFound\<close> when none has, or the
  database error met before one was found; the answer does not depend on what the cache holds.\<close>

theorem GetNearestMeta_nearest:
  assumes "coherent db s"
  shows "\<exists>s' r. GetNearestMeta db p s = Some (s', r) \<and> coherent db s' \<and> nearest db (metaDb s) (fix_comps p) r"
proof -
  note F = fix_comps[of p]
  have "CHR 0x5C \<notin> set (mk_abs (fix_comps p))" using FixAndCleanPath_no_backslash F(2) by metis
  then show ?thesis
    using getNearestMeta_nearest[OF F(1) _ assms] F(2) by (auto simp: GetNearestMeta_def)
qed

definition demo_metas :: "Meta list metas" where
  "demo_metas = \<lparr>metaCache = (\<lambda>_. None), metaDb = [demo_meta]\<rparr>"

theorem GetNearestMeta_nearest_witness:
  "map_option snd (GetNearestMeta table ''/home/a/b/c'' demo_metas) = Some (Inr demo_meta)
   \<and> (\<exists>r. nearest table [demo_meta] (fix_comps ''/home/a/b/c'') r)"
proof
  show "map_option snd (GetNearestMeta table ''/home/a/b/c'' demo_metas) = Some (Inr demo_meta)" by code_simp
  have "coherent table demo_metas" by (simp add: coherent_def demo_metas_def)
  from GetNearestMeta_nearest[OF this, of "''/home/a/b/c''"]
  show "\<exists>r. nearest table [demo_meta] (fix_comps ''/home/a/b/c'') r" by (auto simp: demo_metas_def)
qed

section \<open>What the rows say of an access\<close>

text \<open>The row that governs a path: of all rows whose path is the path or above it, the one with the longest path.\<close>

definition governs :: "Meta list \<Rightarrow> string \<Rightarrow> Meta \<Rightarrow> bool" where
  "governs rows p m \<longleftrightarrow> m \<in> set rows \<and> prefix (fix_comps (mPath m)) (fix_comps p)
     \<and> (\<forall>m' \<in> set rows. prefix (fix_comps (mPath m')) (fix_comps p) \<longrightarrow> length (fix_comps (mPath m')) \<le> length (fix_comps (mPath m)))"

text \<open>What its settings ask, in bits and components.\<close>

definition setting_applies :: "Meta \<Rightarrow> bool \<Rightarrow> string \<Rightarrow> bool" where
  "setting_applies m sub p \<longleftrightarrow> sub \<or> fix_comps (mPath m) = fix_comps p"

definition hide_applies :: "Meta \<Rightarrow> string \<Rightarrow> bool" where
  "hide_applies m p \<longleftrightarrow>
     (if fix_comps p = [] then True
      else if fix_comps (mPath m) = fix_comps p then False else HSub m \<or> fix_comps (mPath m) = butlast (fix_comps p))"

definition admits :: "(string \<Rightarrow> string \<Rightarrow> bool option) \<Rightarrow> User \<Rightarrow> Meta \<Rightarrow> string \<Rightarrow> string \<Rightarrow> bool" where
  "admits re user m p pw \<longleftrightarrow>
     (bit (Permission user) 0 \<or> Hide m = '''' \<or> \<not> hide_applies m p
        \<or> (\<forall>line \<in> set (split_char (CHR 0x0A) (Hide m)). re line (path_base p) = Some False))
     \<and> (ReadUsers m = [] \<or> ID user \<in> set (ReadUsers m) \<or> \<not> setting_applies m (ReadUsersSub m) p)
     \<and> (bit (Permission user) 1 \<or> mPassword m = '''' \<or> \<not> setting_applies m (PSub m) p \<or> pw = mPassword m)"

lemma hide_loop_iff: "hide_loop re name hs = Some False \<longleftrightarrow> (\<forall>h \<in> set hs. re h name = Some False)"
  by (induction hs) (auto split: option.splits bool.splits)

lemma path_dir_comps:
  assumes "FixAndCleanPath p = p"
  shows "fix_comps (path_dir p) = butlast (fix_comps p)"
proof (cases "fix_comps p" rule: rev_cases)
  case Nil
  then have "p = mk_abs []" using fix_comps(2)[of p] assms by simp
  then have "p = ''/''" by (simp add: mk_abs_def)
  moreover have "path_dir ''/'' = ''/''" by code_simp
  ultimately show ?thesis using Nil by simp
next
  case (snoc cs c)
  have n: "normal_comps (cs @ [c])" using fix_comps(1)[of p] snoc by simp
  have p: "p = mk_abs (cs @ [c])" using fix_comps(2)[of p] assms snoc by simp
  have "CHR 0x5C \<notin> set (mk_abs (cs @ [c]))" using FixAndCleanPath_no_backslash[of p] assms p by simp
  then have b: "CHR 0x5C \<notin> set (mk_abs cs)" by (rule mk_abs_chars_snoc)
  have nc: "normal_comps cs" using n by simp
  have "path_dir p = mk_abs cs" using path_dir_mk_abs[OF n] p by simp
  moreover have "fix_comps (mk_abs cs) = cs"
    using FixAndCleanPath_mk_abs[OF nc b] fix_comps[of "mk_abs cs"] mk_abs_inject[OF _ nc] by metis
  ultimately show ?thesis using snoc by simp
qed

text \<open>The decision on a governing row: a setting of an ancestor covers the path just when it is inherited.\<close>

lemma CanAccess_governed:
  assumes "prefix (fix_comps (mPath m)) (fix_comps p)" "FixAndCleanPath p = p"
  shows "CanAccess re user (Some m) p pw = Some True \<longleftrightarrow> admits re user m p pw"
proof -
  have c: "MetaCoversPath (mPath m) p sub \<longleftrightarrow> setting_applies m sub p" for sub
    using assms(1) by (auto simp: MetaCoversPath_comps setting_applies_def)
  have h: "MetaCoversPath (mPath m) (path_dir p) (HSub m) \<longleftrightarrow> hide_applies m p"
  proof (cases "fix_comps p" rule: rev_cases)
    case Nil
    then show ?thesis using assms(1) by (simp add: MetaCoversPath_comps path_dir_comps[OF assms(2)] hide_applies_def)
  next
    case (snoc cs x)
    then show ?thesis using assms(1) by (auto simp: MetaCoversPath_comps path_dir_comps[OF assms(2)] hide_applies_def)
  qed
  have bits: "CanSeeHides (Permission user) \<longleftrightarrow> bit (Permission user) 0" "CanAccessWithoutPassword (Permission user) \<longleftrightarrow> bit (Permission user) 1"
    using signed_drop_bit_and_1[of 0 "Permission user"] signed_drop_bit_and_1[of 1 "Permission user"]
    by (simp_all add: CanSeeHides_def CanAccessWithoutPassword_def)
  have rd: "CanRead (Some user) (Some m) p \<longleftrightarrow> ReadUsers m = [] \<or> ID user \<in> set (ReadUsers m) \<or> \<not> setting_applies m (ReadUsersSub m) p"
    by (auto simp: CanRead_def c)
  let ?hide = "hide_loop re (path_base p) (split_char (CHR 0x0A) (Hide m))"
  have "CanAccess re user (Some m) p pw = Some True \<longleftrightarrow>
      (bit (Permission user) 0 \<or> Hide m = '''' \<or> \<not> hide_applies m p \<or> ?hide = Some False)
      \<and> CanRead (Some user) (Some m) p
      \<and> (bit (Permission user) 1 \<or> mPassword m = '''' \<or> \<not> setting_applies m (PSub m) p \<or> pw = mPassword m)"
    unfolding CanAccess_def by (auto simp: c h bits split: option.splits bool.splits)
  then show ?thesis unfolding admits_def rd hide_loop_iff by blast
qed

lemma tbl_byPath_Inr: "tbl_byPath p rows = Inr m \<Longrightarrow> m \<in> set rows \<and> mPath m = p"
  by (auto simp: tbl_byPath_def find_Some_iff split: option.splits)

lemma tbl_byPath_Inl: "tbl_byPath p rows = Inl e \<Longrightarrow> e = MetaNotFound \<and> (\<forall>m \<in> set rows. mPath m \<noteq> p)"
  by (auto simp: tbl_byPath_def find_None_iff split: option.splits)

lemma nearest_governs:
  assumes "nearest table rows (fix_comps p) r" "\<forall>m \<in> set rows. FixAndCleanPath (mPath m) = mPath m"
  shows "case r of Inr m \<Rightarrow> governs rows p m | Inl _ \<Rightarrow> \<not> (\<exists>m. governs rows p m)"
proof -
  have row: "mPath m = mk_abs (fix_comps (mPath m))" if "m \<in> set rows" for m using assms(2) that fix_comps(2)[of "mPath m"] by simp
  have none: "\<not> (\<exists>m \<in> set rows. fix_comps (mPath m) = rs)" if "tbl_byPath (mk_abs rs) rows = Inl MetaNotFound" for rs
    using tbl_byPath_Inl[OF that] row by metis
  show ?thesis
  proof (cases "r = Inl MetaNotFound")
    case True
    then have "\<forall>qs. prefix qs (fix_comps p) \<longrightarrow> tbl_byPath (mk_abs qs) rows = Inl MetaNotFound"
      using assms(1) by (simp add: nearest_def table_byPath)
    then show ?thesis using True none by (auto simp: governs_def)
  next
    case False
    then obtain qs where q: "prefix qs (fix_comps p)" "tbl_byPath (mk_abs qs) rows = r"
      "\<forall>rs. strict_prefix qs rs \<and> prefix rs (fix_comps p) \<longrightarrow> tbl_byPath (mk_abs rs) rows = Inl MetaNotFound"
      using assms(1) by (auto simp: nearest_def table_byPath)
    obtain m where r: "r = Inr m" using q(2) False tbl_byPath_Inl by (cases r) blast+
    have m: "m \<in> set rows" "mPath m = mk_abs qs" using tbl_byPath_Inr q(2) r by blast+
    have qs: "fix_comps (mPath m) = qs"
    proof -
      have "mk_abs (fix_comps (mPath m)) = mk_abs qs" using row[OF m(1)] m(2) by simp
      moreover have "normal_comps qs" using q(1) fix_comps(1)[of p] by (auto simp: prefix_def normal_comps_def)
      ultimately show ?thesis using mk_abs_inject fix_comps(1) by metis
    qed
    have "length (fix_comps (mPath m')) \<le> length qs" if m': "m' \<in> set rows" "prefix (fix_comps (mPath m')) (fix_comps p)" for m'
    proof (rule ccontr)
      assume l: "\<not> length (fix_comps (mPath m')) \<le> length qs"
      then have "strict_prefix qs (fix_comps (mPath m'))"
        using q(1) m'(2) by (metis linorder_linear prefix_length_le prefix_length_prefix strict_prefixI)
      then show False using q(3) none m' by blast
    qed
    then show ?thesis using r m q(1) qs by (simp add: governs_def)
  qed
qed



section \<open>The cache\<close>

text \<open>Requests one after the other, with cache entries expiring at any time.\<close>

inductive meta_run :: "Meta list metas \<Rightarrow> bool" where
  mr_start: "meta_run \<lparr>metaCache = (\<lambda>_. None), metaDb = rows\<rparr>"
| mr_get: "meta_run s \<Longrightarrow> meta_run (fst (GetMetaByPath table p s))"
| mr_create: "meta_run s \<Longrightarrow> meta_run (fst (CreateMeta table u s))"
| mr_update: "meta_run s \<Longrightarrow> meta_run (fst (UpdateMeta table u s))"
| mr_delete: "meta_run s \<Longrightarrow> meta_run (fst (DeleteMetaById table i s))"
| mr_expire: "meta_run s \<Longrightarrow> meta_run (cache_expire p s)"

lemma meta_run_coherent: "meta_run s \<Longrightarrow> coherent table s"
proof (induction rule: meta_run.induct)
  case (mr_start rows)
  show ?case by (simp add: coherent_def)
next
  case (mr_get s p)
  then show ?case
    unfolding GetMetaByPath_def using getMetaByPath_coherent(1)[OF _ surjective_pairing] by blast
next
  case (mr_create s u)
  then show ?case by (intro tbl.Create_coherent)
next
  case (mr_update s u)
  then show ?case by (intro tbl.Update_coherent)
next
  case (mr_delete s i)
  then show ?case by (intro tbl.Delete_coherent)
next
  case (mr_expire s p)
  then show ?case by (simp add: cache_expire_def coherent_del)
qed

text \<open>C15: The cache is transparent while requests run one after the other: whatever was created, updated,
  deleted, looked up or expired before, a cached lookup answers what the database holds.\<close>

theorem meta_cache_transparent:
  assumes "meta_run s"
  shows "snd (GetMetaByPath table p s) = tbl_byPath (FixAndCleanPath p) (metaDb s)"
  unfolding GetMetaByPath_def
  using getMetaByPath_coherent(2)[OF meta_run_coherent[OF assms] surjective_pairing] by (metis table_byPath)

theorem meta_cache_transparent_witness:
  "snd (GetMetaByPath table ''/home/a/'' (fst (UpdateMeta table (demo_meta\<lparr>mPassword := ''new''\<rparr>)
      (fst (GetMetaByPath table ''/home/a'' demo_metas))))) = Inr (demo_meta\<lparr>mPassword := ''new''\<rparr>)"
proof -
  have "meta_run demo_metas" unfolding demo_metas_def by (rule mr_start)
  then have "meta_run (fst (UpdateMeta table (demo_meta\<lparr>mPassword := ''new''\<rparr>)
      (fst (GetMetaByPath table ''/home/a'' demo_metas))))" by (intro mr_update mr_get)
  from meta_cache_transparent[OF this, of "''/home/a/''"] show ?thesis by code_simp
qed

text \<open>Requests that overlap break this: a lookup that runs between the cache invalidation and the
  database write of \<open>UpdateMeta\<close> puts the old meta back into the cache, and the finished update
  (a changed password, say) is not seen by later lookups.\<close>

theorem UpdateMeta_race_keeps_the_old_meta:
  assumes "dbById table (mId u) (metaDb s) = Inr old" "dbByPath table (mPath old) (metaDb s) = Inr old"
    and "FixAndCleanPath p = mPath old"
  shows "let s1 = fst (UpdateMeta_del table u s); s2 = fst (GetMetaByPath table p s1);
             s3 = fst (UpdateMeta_write table u s2)
         in snd (GetMetaByPath table p s3) = Inr old"
proof -
  have "metaCache (fst (UpdateMeta_del table u s)) (mPath old) = None"
    "metaDb (fst (UpdateMeta_del table u s)) = metaDb s"
    using assms(1) by (simp_all add: UpdateMeta_del_def cache_del_def)
  then show ?thesis
    using assms(2) by (simp add: Let_def GetMetaByPath_def assms(3) getMetaByPath_def UpdateMeta_write_def split: prod.split)
qed

theorem UpdateMeta_race_keeps_the_old_meta_witness:
  "let u = demo_meta\<lparr>mPassword := ''new''\<rparr>; s1 = fst (UpdateMeta_del table u demo_metas);
       s2 = fst (GetMetaByPath table ''/home/a'' s1); s3 = fst (UpdateMeta_write table u s2)
   in snd (GetMetaByPath table ''/home/a'' s3) = Inr demo_meta \<and> metaDb s3 = [u]"
proof -
  let ?u = "demo_meta\<lparr>mPassword := ''new''\<rparr>"
  have "dbById table (mId ?u) (metaDb demo_metas) = Inr demo_meta"
    "dbByPath table (mPath demo_meta) (metaDb demo_metas) = Inr demo_meta"
    "FixAndCleanPath ''/home/a'' = mPath demo_meta" by code_simp+
  from UpdateMeta_race_keeps_the_old_meta[OF this]
  have 1: "let s1 = fst (UpdateMeta_del table ?u demo_metas); s2 = fst (GetMetaByPath table ''/home/a'' s1);
      s3 = fst (UpdateMeta_write table ?u s2) in snd (GetMetaByPath table ''/home/a'' s3) = Inr demo_meta" .
  have "let s1 = fst (UpdateMeta_del table ?u demo_metas); s2 = fst (GetMetaByPath table ''/home/a'' s1);
      s3 = fst (UpdateMeta_write table ?u s2) in metaDb s3 = [?u]" by code_simp
  then show ?thesis using 1 by (simp add: Let_def)
qed

end
