(* ===== verification/Fs_World.thy ===== *)
theory Fs_World imports Metas "HOL-Library.State_Monad" begin

text \<open>
  What a request handler does to the mounted storages.  Package \<open>fs\<close> reaches drivers and remote
  services, so it is a record of operations on an unknown state \<open>'w\<close>; a handler is a state action
  that also records every call of \<open>fs\<close> that changes something.  \<open>emits A m\<close> says that all calls
  \<open>m\<close> makes satisfy \<open>A\<close>, in every state; its rules follow the shape of a handler's body, so a
  guard that a handler drops shows as an unprovable goal.
\<close>

section \<open>Calls, objects, replies\<close>

datatype fs_call =
    MakeDir string
  | MoveTo string string bool
  | CopyTo string string bool
  | MergeTo string string bool
  | RenameTo string string
  | RemoveAt string
  | PutTo string string

datatype fs_error = ObjectNotFound | StorageNotFound | NotExist | PermissionDenied | OtherError string

record fobj =
  oName :: string
  oSize :: int
  oIsDir :: bool

record 'w fs_api =
  apiGet :: "string \<Rightarrow> 'w \<Rightarrow> fs_error + fobj"
  apiList :: "string \<Rightarrow> 'w \<Rightarrow> fs_error + fobj list"
  apiDo :: "fs_call \<Rightarrow> 'w \<Rightarrow> 'w \<times> fs_error option"

record 'w world =
  wFs :: 'w
  wCalls :: "fs_call list"

definition fsGet :: "'w fs_api \<Rightarrow> string \<Rightarrow> (('w, 'z) world_scheme, fs_error + fobj) state" where
  "fsGet api p = State (\<lambda>w. (apiGet api p (wFs w), w))"

definition fsList :: "'w fs_api \<Rightarrow> string \<Rightarrow> (('w, 'z) world_scheme, fs_error + fobj list) state" where
  "fsList api p = State (\<lambda>w. (apiList api p (wFs w), w))"

definition fsDo :: "'w fs_api \<Rightarrow> fs_call \<Rightarrow> (('w, 'z) world_scheme, fs_error option) state" where
  "fsDo api c = State (\<lambda>w. let (f, e) = apiDo api c (wFs w) in (e, w\<lparr>wFs := f, wCalls := wCalls w @ [c]\<rparr>))"

text \<open>The reply of an API handler: an error code or success.\<close>

datatype reply = ErrorResp int | SuccessResp

text \<open>The lookup \<open>GetNearestMeta\<close> as handlers use it: a missing meta is no error, any other
  failure is answered with 500.\<close>

definition nearest_or :: "(string \<Rightarrow> meta_error + Meta) \<Rightarrow> string \<Rightarrow> reply + Meta option" where
  "nearest_or near p =
     (case near p of Inr m \<Rightarrow> Inr (Some m) | Inl MetaNotFound \<Rightarrow> Inr None | Inl e \<Rightarrow> Inl (ErrorResp 500))"

section \<open>Paths a call touches\<close>

text \<open>\<open>op.GetStorageAndActualPath\<close> cleans every path it gets (\<open>FixAndCleanPath\<close>) before it
  looks for the storage, so paths are compared in their cleaned form.\<close>

fun touched :: "fs_call \<Rightarrow> string list" where
  "touched (MakeDir p) = [p]"
| "touched (MoveTo s d skip) = [s, d]"
| "touched (CopyTo s d skip) = [s, d]"
| "touched (MergeTo s d skip) = [s, d]"
| "touched (RenameTo p n) = [p, path_join (path_dir (FixAndCleanPath p)) n]"
| "touched (RemoveAt p) = [p]"
| "touched (PutTo d n) = [path_join d n]"

definition confined :: "string \<Rightarrow> fs_call \<Rightarrow> bool" where
  "confined base c \<longleftrightarrow> (\<forall>p \<in> set (touched c). IsSubPath base p)"

section \<open>Calls made by an action\<close>

definition emits :: "(fs_call \<Rightarrow> bool) \<Rightarrow> (('w, 'z) world_scheme, 'a) state \<Rightarrow> bool" where
  "emits A m \<longleftrightarrow> (\<forall>w. \<exists>cs. wCalls (snd (run_state m w)) = wCalls w @ cs \<and> (\<forall>c \<in> set cs. A c))"

named_theorems emits_rules

lemma emits_return [emits_rules]: "emits A (State_Monad.return x)"
  by (simp add: emits_def)

lemma emits_bind [emits_rules]:
  assumes "emits A m" "\<And>x. emits A (f x)"
  shows "emits A (State_Monad.bind m f)"
  unfolding emits_def
proof
  fix w
  obtain x w1 where m: "run_state m w = (x, w1)" by fastforce
  obtain cs where cs: "wCalls w1 = wCalls w @ cs" "\<forall>c \<in> set cs. A c"
    using assms(1) m unfolding emits_def by (metis snd_conv)
  obtain ds where ds: "wCalls (snd (run_state (f x) w1)) = wCalls w1 @ ds" "\<forall>c \<in> set ds. A c"
    using assms(2)[of x] unfolding emits_def by blast
  have "snd (run_state (State_Monad.bind m f) w) = snd (run_state (f x) w1)" using m by simp
  then show "\<exists>cs. wCalls (snd (run_state (State_Monad.bind m f) w)) = wCalls w @ cs \<and> (\<forall>c \<in> set cs. A c)"
    using cs ds by (intro exI[of _ "cs @ ds"]) auto
qed

lemma emits_get [emits_rules]: "emits A (fsGet api p)"
  by (simp add: emits_def fsGet_def)

lemma emits_list [emits_rules]: "emits A (fsList api p)"
  by (simp add: emits_def fsList_def)

lemma emits_do [emits_rules]: "A c \<Longrightarrow> emits A (fsDo api c)"
  by (auto simp: emits_def fsDo_def split: prod.split)

lemma emits_if [emits_rules]:
  "(b \<Longrightarrow> emits A m) \<Longrightarrow> (\<not> b \<Longrightarrow> emits A n) \<Longrightarrow> emits A (if b then m else n)"
  by simp

lemma emits_option [emits_rules]:
  "(x = None \<Longrightarrow> emits A m) \<Longrightarrow> (\<And>y. x = Some y \<Longrightarrow> emits A (f y)) \<Longrightarrow>
     emits A (case x of None \<Rightarrow> m | Some y \<Rightarrow> f y)"
  by (cases x) simp_all

lemma emits_sum [emits_rules]:
  "(\<And>e. x = Inl e \<Longrightarrow> emits A (f e)) \<Longrightarrow> (\<And>y. x = Inr y \<Longrightarrow> emits A (g y)) \<Longrightarrow>
     emits A (case x of Inl e \<Rightarrow> f e | Inr y \<Rightarrow> g y)"
  by (cases x) simp_all

lemma emits_Let [emits_rules]: "(\<And>y. y = x \<Longrightarrow> emits A (f y)) \<Longrightarrow> emits A (Let x f)"
  by simp

lemma emits_prod [emits_rules]: "(\<And>a b. x = (a, b) \<Longrightarrow> emits A (f a b)) \<Longrightarrow> emits A (case x of (a, b) \<Rightarrow> f a b)"
  by (cases x) simp

lemma emits_mono: "emits A m \<Longrightarrow> (\<And>c. A c \<Longrightarrow> B c) \<Longrightarrow> emits B m"
  unfolding emits_def by meson

lemma emits_conj: "emits A m \<Longrightarrow> emits B m \<Longrightarrow> emits (\<lambda>c. A c \<and> B c) m"
  unfolding emits_def
proof
  fix w
  assume a: "\<forall>w. \<exists>cs. wCalls (snd (run_state m w)) = wCalls w @ cs \<and> (\<forall>c \<in> set cs. A c)"
    and b: "\<forall>w. \<exists>cs. wCalls (snd (run_state m w)) = wCalls w @ cs \<and> (\<forall>c \<in> set cs. B c)"
  obtain cs ds where "wCalls (snd (run_state m w)) = wCalls w @ cs" "\<forall>c \<in> set cs. A c"
    "wCalls (snd (run_state m w)) = wCalls w @ ds" "\<forall>c \<in> set ds. B c" using a b by meson
  then show "\<exists>cs. wCalls (snd (run_state m w)) = wCalls w @ cs \<and> (\<forall>c \<in> set cs. A c \<and> B c)" by auto
qed

lemma emits_calls:
  "emits A m \<Longrightarrow> c \<in> set (wCalls (snd (run_state m w))) \<Longrightarrow> c \<in> set (wCalls w) \<or> A c"
  unfolding emits_def by (metis Un_iff set_append)

section \<open>Names below a directory\<close>

lemma FixAndCleanPath_no_backslash_id:
  "CHR 0x5C \<notin> set p \<Longrightarrow> p \<noteq> [] \<Longrightarrow> hd p = slash \<Longrightarrow> FixAndCleanPath p = path_clean p"
  by (cases p) (simp_all add: FixAndCleanPath_def replace_char_id Let_def)

lemma JoinPath_normal:
  assumes "JoinPath u r = Inr p"
  shows "p = mk_abs (fix_comps p)" "normal_comps (fix_comps p)" "IsSubPath (BasePath u) p" "FixAndCleanPath p = p"
proof -
  note J = JoinBasePath_joined[OF assms[unfolded JoinPath_def]]
  show "FixAndCleanPath p = p" "IsSubPath (BasePath u) p" using J by simp_all
  then show "p = mk_abs (fix_comps p)" "normal_comps (fix_comps p)" using fix_comps[of p] by simp_all
qed

lemma path_clean_chars: "x \<noteq> slash \<Longrightarrow> x \<notin> set q \<Longrightarrow> x \<notin> set (path_clean (slash # q))"
proof -
  assume x: "x \<noteq> slash" "x \<notin> set q"
  have "\<forall>p \<in> set (split_char slash q). x \<notin> set p" using set_split_char[of _ slash q] x(2) by blast
  then have "\<forall>p \<in> set (clean_comps True [] (split_char slash q)). x \<notin> set p"
    by (intro clean_comps_chars) simp_all
  then show ?thesis
    unfolding path_clean_rooted mk_abs_def
    using set_join_char[of slash "clean_comps True [] (split_char slash q)"] x(1) by auto
qed

lemma fix_comps_mk_abs: "normal_comps cs \<Longrightarrow> CHR 0x5C \<notin> set (mk_abs cs) \<Longrightarrow> fix_comps (mk_abs cs) = cs"
  using FixAndCleanPath_mk_abs by (simp add: fix_comps_def)

lemma IsSubPath_trans: "IsSubPath a b \<Longrightarrow> IsSubPath b c \<Longrightarrow> IsSubPath a c"
  unfolding IsSubPath_comps by (rule prefix_order.trans)

lemma IsSubPath_refl: "IsSubPath a a"
  unfolding IsSubPath_comps by simp

lemma slash_prefix_comps:
  assumes "normal_comps ds" "normal_comps xs" "has_prefix (mk_abs xs @ ''/'') (mk_abs ds @ ''/'')" "ds \<noteq> []"
  shows "prefix ds xs"
proof -
  obtain t where t: "mk_abs xs @ ''/'' = mk_abs ds @ slash # t" using assms(3) by (auto simp: has_prefix_iff)
  show ?thesis
  proof (cases t rule: rev_cases)
    case Nil
    then have "mk_abs xs = mk_abs ds" using t by simp
    then show ?thesis using mk_abs_inject assms(1,2) by blast
  next
    case (snoc t' c)
    then have "mk_abs xs = mk_abs ds @ slash # t'" using t by simp
    then have "has_prefix (mk_abs xs) (mk_abs ds @ ''/'')" by (auto simp: has_prefix_iff)
    then show ?thesis using mk_abs_slash_prefix[OF assms(1,2,4)] by (simp add: strict_prefix_def)
  qed
qed

text \<open>A name joined to a directory and checked to stay in it, when it has no back slash.\<close>

lemma joined_name:
  assumes "FixAndCleanPath d = d" "CHR 0x5C \<notin> set name"
    and "s = path_join (if has_suffix d ''/'' then d else d @ ''/'') name"
    and "has_prefix (s @ ''/'') (if has_suffix d ''/'' then d else d @ ''/'')"
  shows "IsSubPath d s" "s \<noteq> []"
proof -
  define ds where "ds = fix_comps d"
  have d: "d = mk_abs ds" "normal_comps ds" "CHR 0x5C \<notin> set d"
    using fix_comps[of d] assms(1) FixAndCleanPath_no_backslash[of d] by (simp_all add: ds_def)
  define e where "e = (if has_suffix d ''/'' then d else d @ ''/'')"
  have e: "e = (if ds = [] then ''/'' else mk_abs ds @ ''/'')"
    using mk_abs_suffix_slash[OF d(2)] unfolding e_def d(1) by (simp add: mk_abs_def)
  obtain q where q: "e @ slash # name = slash # q" "CHR 0x5C \<notin> set q"
  proof -
    have "e @ slash # name = slash # (tl e @ slash # name)" unfolding e by (simp add: mk_abs_def)
    moreover have "CHR 0x5C \<notin> set (tl e @ slash # name)"
      using d(3) assms(2) unfolding e d(1) by (cases "ds = []") (auto simp: mk_abs_def)
    ultimately show thesis using that by blast
  qed
  have "e \<noteq> []" unfolding e by simp
  then have s: "s = path_clean (slash # q)"
    using assms(3) q(1) unfolding e_def[symmetric] by (simp add: path_join_def)
  obtain xs where xs: "normal_comps xs" "s = mk_abs xs" using path_clean_abs_normal s by blast
  have b: "CHR 0x5C \<notin> set s" unfolding s by (rule path_clean_chars) (simp_all add: q(2))
  have "prefix ds xs"
    using assms(4) slash_prefix_comps[OF d(2) xs(1)] unfolding e_def[symmetric] e xs(2) by (cases "ds = []") auto
  moreover have "fix_comps s = xs" using fix_comps_mk_abs[OF xs(1)] b xs(2) by simp
  ultimately show "IsSubPath d s" by (simp add: IsSubPath_comps ds_def)
  show "s \<noteq> []" using xs(2) by simp
qed

lemma clean_names:
  assumes "normal_comps ds" "normal_comps ns" "CHR 0x5C \<notin> set (mk_abs ds)" "\<forall>n \<in> set ns. CHR 0x5C \<notin> set n"
  shows "fix_comps (mk_abs ds @ concat (map (Cons slash) ns)) = ds @ ns"
proof -
  let ?p = "mk_abs ds @ concat (map (Cons slash) ns)"
  have "path_clean ?p = mk_abs (ds @ ns)"
  proof (cases "ns = []")
    case False
    then have c: "concat (map (Cons slash) ns) = slash # join_char slash ns"
      using mk_abs_concat[of ns] by (simp add: mk_abs_def)
    have sp: "split_char slash (join_char slash ns) = ns"
      using split_mk_abs[OF False assms(2)] by (simp add: mk_abs_def)
    have "split_char slash (join_char slash ds @ slash # join_char slash ns) = (if ds = [] then [[]] else ds) @ ns"
      using split_join_append[OF _ assms(1), of "join_char slash ns"] sp by simp
    moreover have "clean_comps True [] ((if ds = [] then [[]] else ds) @ ns) = ds @ ns"
      using assms(1,2) by (cases "ds = []") (simp_all add: clean_comps_append_normal clean_comps_normal_id)
    ultimately show ?thesis using path_clean_rooted[of "join_char slash ds @ slash # join_char slash ns"]
      by (simp add: c mk_abs_def)
  qed (simp add: assms(1))
  moreover have nb: "CHR 0x5C \<notin> set ?p" using assms(3,4) by auto
  moreover have "hd ?p = slash" "?p \<noteq> []" by (simp_all add: hd_append)
  ultimately have "FixAndCleanPath ?p = mk_abs (ds @ ns)" by (simp add: FixAndCleanPath_no_backslash_id del: append_is_Nil_conv)
  moreover have "normal_comps (ds @ ns)" using assms(1,2) by simp
  ultimately show ?thesis by (simp add: fix_comps_def)
qed

section \<open>Results of an action\<close>

definition yields :: "('a \<Rightarrow> bool) \<Rightarrow> ('s, 'a) state \<Rightarrow> bool" where
  "yields P m \<longleftrightarrow> (\<forall>w. P (fst (run_state m w)))"

lemma yields_return: "P x \<Longrightarrow> yields P (State_Monad.return x)"
  by (simp add: yields_def)

lemma yields_bind: "yields Q m \<Longrightarrow> (\<And>x. Q x \<Longrightarrow> yields P (f x)) \<Longrightarrow> yields P (State_Monad.bind m f)"
  by (auto simp: yields_def split: prod.split) (metis fst_conv)

lemma yields_any: "yields (\<lambda>_. True) m"
  by (simp add: yields_def)

lemma yields_if: "(b \<Longrightarrow> yields P m) \<Longrightarrow> (\<not> b \<Longrightarrow> yields P n) \<Longrightarrow> yields P (if b then m else n)"
  by simp

lemma yields_sum:
  "(\<And>e. x = Inl e \<Longrightarrow> yields P (f e)) \<Longrightarrow> (\<And>y. x = Inr y \<Longrightarrow> yields P (g y)) \<Longrightarrow>
     yields P (case x of Inl e \<Rightarrow> f e | Inr y \<Rightarrow> g y)"
  by (cases x) simp_all

lemma emits_bind_yields:
  assumes "emits A m" "yields P m" "\<And>x. P x \<Longrightarrow> emits A (f x)"
  shows "emits A (State_Monad.bind m f)"
proof -
  have "emits A (State_Monad.bind m (\<lambda>x. if P x then f x else State_Monad.return undefined))"
    using assms by (intro emits_bind emits_if emits_return)
  moreover have "run_state (State_Monad.bind m (\<lambda>x. if P x then f x else State_Monad.return undefined)) w
      = run_state (State_Monad.bind m f) w" for w
    using assms(2) by (auto simp: yields_def split: prod.split) (metis fst_conv)
  ultimately show ?thesis by (simp add: emits_def)
qed

end
