(* ===== verification/Webdav_Handler.thy ===== *)
theory Webdav_Handler imports Webdav_If Fs_World begin

text \<open>
  \<open>server/webdav/webdav.go\<close> and \<open>file.go\<close>: the handlers that lock and change files, over the
  lock-system interface of \<open>lock.go\<close> (a record of total operations on a state \<open>'l\<close>) and package
  \<open>fs\<close>.  A handler answers its HTTP status and whether its error is non-nil; status 0 means the
  response is already written.  \<open>url.Parse\<close> and the XML body reader are arguments, as are the
  clock and the lookup of the nearest meta.
\<close>

section \<open>The lock-system interface\<close>

record ('l, 'r) lock_api =
  lsConfirm :: "int \<Rightarrow> string \<Rightarrow> string \<Rightarrow> Condition list \<Rightarrow> 'l \<Rightarrow> 'l \<times> (lock_error + 'r)"
  lsRelease :: "'r \<Rightarrow> 'l \<Rightarrow> 'l"
  lsCreate :: "int \<Rightarrow> LockDetails \<Rightarrow> 'l \<Rightarrow> 'l \<times> (lock_error + string)"
  lsRefresh :: "int \<Rightarrow> string \<Rightarrow> int \<Rightarrow> 'l \<Rightarrow> 'l \<times> (lock_error + LockDetails)"
  lsUnlock :: "int \<Rightarrow> string \<Rightarrow> 'l \<Rightarrow> 'l \<times> lock_error option"

record ('w, 'l) dav = "'w world" +
  dLocks :: 'l

definition on_locks :: "('l \<Rightarrow> 'l \<times> 'a) \<Rightarrow> (('w, 'l) dav, 'a) state" where
  "on_locks f = State (\<lambda>w. let (l, a) = f (dLocks w) in (a, w\<lparr>dLocks := l\<rparr>))"

section \<open>Requests\<close>

record dav_req =
  rMethod :: string
  rPath :: string
  rHost :: string
  rHeader :: "string \<Rightarrow> string"
  rContentLength :: int
  rLockInfo :: "int + string option"

text \<open>\<open>etagFails\<close>: the object brings its own entity tag and fails to give it (no type of the repository does).\<close>

record ('l, 'r) dav_env =
  Prefix :: string
  LockSystem :: "('l, 'r) lock_api"
  urlParse :: "string \<Rightarrow> (string \<times> string) option"
  nearMeta :: "string \<Rightarrow> meta_error + Meta"
  clock :: int
  IgnoreSystemFiles :: bool
  etagFails :: "fobj \<Rightarrow> bool"

type_synonym status = "int \<times> bool"

definition stripPrefix :: "('l, 'r) dav_env \<Rightarrow> string \<Rightarrow> int + string" where
  "stripPrefix h p =
     (if Prefix h = '''' then Inr p
      else if has_prefix p (Prefix h) \<and> length (drop (length (Prefix h)) p) < length p
           then Inr (drop (length (Prefix h)) p)
      else Inl 404)"

definition infiniteDepth :: int where "infiniteDepth = -1"
definition invalidDepth :: int where "invalidDepth = -2"

definition parseDepth :: "string \<Rightarrow> int" where
  "parseDepth s = (if s = ''0'' then 0 else if s = ''1'' then 1 else if s = ''infinity'' then infiniteDepth else invalidDepth)"

section \<open>Confirming locks\<close>

text \<open>The release function: unlock the temporary locks, or release the confirmation.\<close>

datatype 'r release_fn = TempLocks string string | Confirmed 'r

definition dav_lock :: "('l, 'r) dav_env \<Rightarrow> string \<Rightarrow> (('w, 'l) dav, int + string) state" where
  "dav_lock h root = do {
     r \<leftarrow> on_locks (lsCreate (LockSystem h) (clock h)
            \<lparr>Root = root, Duration = infiniteTimeout, OwnerXML = '''', ZeroDepth = True\<rparr>);
     State_Monad.return (case r of Inr tok \<Rightarrow> Inr tok | Inl e \<Rightarrow> Inl (if e = ErrLocked then 423 else 500))
   }"

definition dav_unlock :: "('l, 'r) dav_env \<Rightarrow> string \<Rightarrow> (('w, 'l) dav, unit) state" where
  "dav_unlock h tok =
     (if tok \<noteq> '''' then do { e \<leftarrow> on_locks (lsUnlock (LockSystem h) (clock h) tok); State_Monad.return () }
      else State_Monad.return ())"

definition run_release :: "('l, 'r) dav_env \<Rightarrow> 'r release_fn \<Rightarrow> (('w, 'l) dav, unit) state" where
  "run_release h rel =
     (case rel of
        TempLocks srcToken dstToken \<Rightarrow> do { u \<leftarrow> dav_unlock h dstToken; dav_unlock h srcToken }
      | Confirmed r \<Rightarrow> on_locks (\<lambda>l. (lsRelease (LockSystem h) r l, ())))"

fun confirm_lists :: "('l, 'r) dav_env \<Rightarrow> dav_req \<Rightarrow> string \<Rightarrow> string \<Rightarrow> ifList list \<Rightarrow>
    (('w, 'l) dav, int + 'r release_fn) state" where
  "confirm_lists h r src dst [] = State_Monad.return (Inl 412)"
| "confirm_lists h r src dst (l # ls) =
     (let attempt = (\<lambda>lsrc. do {
            c \<leftarrow> on_locks (lsConfirm (LockSystem h) (clock h) lsrc dst (conditions l));
            case c of
              Inr rel \<Rightarrow> State_Monad.return (Inr (Confirmed rel))
            | Inl e \<Rightarrow> if e = ErrConfirmationFailed then confirm_lists h r src dst ls else State_Monad.return (Inl 500)
          })
      in if resourceTag l = '''' then attempt src
         else case urlParse h (resourceTag l) of
           None \<Rightarrow> confirm_lists h r src dst ls
         | Some (host, p) \<Rightarrow>
             if host \<noteq> rHost r then confirm_lists h r src dst ls
             else (case stripPrefix h p of Inl st \<Rightarrow> State_Monad.return (Inl st) | Inr lsrc \<Rightarrow> attempt lsrc))"

definition confirmLocks :: "('l, 'r) dav_env \<Rightarrow> dav_req \<Rightarrow> string \<Rightarrow> string \<Rightarrow> (('w, 'l) dav, int + 'r release_fn) state" where
  "confirmLocks h r src dst =
     (let hdr = rHeader r ''If'' in
      if hdr = '''' then do {
        s \<leftarrow> (if src \<noteq> '''' then dav_lock h src else State_Monad.return (Inr ''''));
        case s of
          Inl st \<Rightarrow> State_Monad.return (Inl st)
        | Inr srcToken \<Rightarrow> do {
            d \<leftarrow> (if dst \<noteq> '''' then dav_lock h dst else State_Monad.return (Inr ''''));
            case d of
              Inl st \<Rightarrow> do { u \<leftarrow> dav_unlock h srcToken; State_Monad.return (Inl st) }
            | Inr dstToken \<Rightarrow> State_Monad.return (Inr (TempLocks srcToken dstToken))
          }
      }
      else case parseIfHeader hdr of
        None \<Rightarrow> State_Monad.return (Inl 400)
      | Some ih \<Rightarrow> confirm_lists h r src dst ih)"

text \<open>\<open>release, status, err := confirmLocks; if err != nil return; defer release()\<close>.\<close>

definition with_locks :: "('l, 'r) dav_env \<Rightarrow> dav_req \<Rightarrow> string \<Rightarrow> string \<Rightarrow> (('w, 'l) dav, status) state \<Rightarrow> (('w, 'l) dav, status) state" where
  "with_locks h r src dst body = do {
     c \<leftarrow> confirmLocks h r src dst;
     case c of
       Inl st \<Rightarrow> State_Monad.return (st, True)
     | Inr rel \<Rightarrow> do { st \<leftarrow> body; u \<leftarrow> run_release h rel; State_Monad.return st }
   }"

definition near_or :: "('l, 'r) dav_env \<Rightarrow> string \<Rightarrow> status + Meta option" where
  "near_or h p = (case nearMeta h p of Inr m \<Rightarrow> Inr (Some m) | Inl MetaNotFound \<Rightarrow> Inr None | Inl e \<Rightarrow> Inl (500, True))"

section \<open>DELETE, PUT, MKCOL\<close>

definition handleDelete :: "('l, 'r) dav_env \<Rightarrow> 'w fs_api \<Rightarrow> User \<Rightarrow> dav_req \<Rightarrow> (('w, 'l) dav, status) state" where
  "handleDelete h api user r =
     (case stripPrefix h (rPath r) of Inl st \<Rightarrow> State_Monad.return (st, True) | Inr reqPath \<Rightarrow>
      with_locks h r reqPath '''' (
        if \<not> CanRemove (Permission user) then State_Monad.return (403, False)
        else case JoinPath user reqPath of Inl e \<Rightarrow> State_Monad.return (403, True) | Inr reqPath \<Rightarrow> do {
          g \<leftarrow> fsGet api reqPath;
          case g of
            Inl e \<Rightarrow> State_Monad.return (if e = ObjectNotFound then 404 else 405, True)
          | Inr o1 \<Rightarrow>
              (let parentPath = path_dir reqPath in
               case near_or h parentPath of Inl st \<Rightarrow> State_Monad.return st | Inr parentMeta \<Rightarrow>
               if \<not> CanWrite (Some user) parentMeta parentPath then State_Monad.return (403, True)
               else do {
                 e \<leftarrow> fsDo api (RemoveAt reqPath);
                 State_Monad.return (if e \<noteq> None then (405, True) else (204, False))
               })
        }))"

definition IsSystemFile :: "string \<Rightarrow> bool" where
  "IsSystemFile n \<longleftrightarrow> n = ''.DS_Store'' \<or> n = ''desktop.ini'' \<or> n = ''Thumbs.db'' \<or> n = ''@eaDir'' \<or> has_prefix n ''._''"

text \<open>The declared size: the content length, or the \<open>X-File-Size\<close> header when it is unknown.\<close>

definition put_size :: "dav_req \<Rightarrow> int option" where
  "put_size r =
     (if rContentLength r < 0 \<and> rHeader r ''X-File-Size'' \<noteq> '''' then parse_int (rHeader r ''X-File-Size'')
      else Some (rContentLength r))"

definition handlePut :: "('l, 'r) dav_env \<Rightarrow> 'w fs_api \<Rightarrow> User \<Rightarrow> dav_req \<Rightarrow> (('w, 'l) dav, status) state" where
  "handlePut h api user r =
     (case stripPrefix h (rPath r) of Inl st \<Rightarrow> State_Monad.return (st, True) | Inr reqPath \<Rightarrow>
      if reqPath = '''' then State_Monad.return (405, False)
      else with_locks h r reqPath '''' (
        case JoinPath user reqPath of Inl e \<Rightarrow> State_Monad.return (403, True) | Inr reqPath \<Rightarrow>
        case put_size r of None \<Rightarrow> State_Monad.return (400, True) | Some sz \<Rightarrow>
        if IgnoreSystemFiles h \<and> IsSystemFile (path_base reqPath) then State_Monad.return (403, True)
        else let parentPath = path_dir reqPath in
        case near_or h parentPath of Inl st \<Rightarrow> State_Monad.return st | Inr parentMeta \<Rightarrow>
        if \<not> CanWriteContent (Permission user) \<and> \<not> CanWriteContentBypassUserPerms parentMeta parentPath
        then State_Monad.return (403, True)
        else if \<not> CanWrite (Some user) parentMeta parentPath then State_Monad.return (403, True)
        else do {
          e \<leftarrow> fsDo api (PutTo (path_dir reqPath) (path_base reqPath));
          case e of
            Some e \<Rightarrow> State_Monad.return (if e = ObjectNotFound \<or> e = StorageNotFound then 404 else 405, True)
          | None \<Rightarrow> do {
                fi \<leftarrow> fsGet api reqPath;
                case fi of Inl e \<Rightarrow> State_Monad.return (201, False)
                | Inr fi \<Rightarrow> if etagFails h fi then State_Monad.return (500, True) else State_Monad.return (201, False)
              }
        }))"

definition handleMkcol :: "('l, 'r) dav_env \<Rightarrow> 'w fs_api \<Rightarrow> User \<Rightarrow> dav_req \<Rightarrow> (('w, 'l) dav, status) state" where
  "handleMkcol h api user r =
     (case stripPrefix h (rPath r) of Inl st \<Rightarrow> State_Monad.return (st, True) | Inr reqPath \<Rightarrow>
      with_locks h r reqPath '''' (
        case JoinPath user reqPath of Inl e \<Rightarrow> State_Monad.return (403, True) | Inr reqPath \<Rightarrow>
        if rContentLength r > 0 then State_Monad.return (415, False)
        else do {
          g \<leftarrow> fsGet api reqPath;
          case g of Inr o1 \<Rightarrow> State_Monad.return (405, False) | Inl e \<Rightarrow>
          (let parentPath = path_dir reqPath in do {
             p \<leftarrow> fsGet api parentPath;
             case p of Inl e \<Rightarrow> State_Monad.return (if e = ObjectNotFound then 409 else 405, True) | Inr o2 \<Rightarrow>
             case near_or h parentPath of Inl st \<Rightarrow> State_Monad.return st | Inr parentMeta \<Rightarrow>
             if \<not> CanWriteContent (Permission user) \<and> \<not> CanWriteContentBypassUserPerms parentMeta parentPath
             then State_Monad.return (403, True)
             else if \<not> CanWrite (Some user) parentMeta parentPath then State_Monad.return (403, True)
             else do {
               e \<leftarrow> fsDo api (MakeDir reqPath);
               State_Monad.return (case e of Some e \<Rightarrow> (if e = NotExist then 409 else 405, True) | None \<Rightarrow> (201, False))
             }
           })
        }))"

section \<open>COPY and MOVE\<close>

definition copyFiles :: "('l, 'r) dav_env \<Rightarrow> 'w fs_api \<Rightarrow> User \<Rightarrow> string \<Rightarrow> string \<Rightarrow> (('w, 'l) dav, status) state" where
  "copyFiles h api user src dst =
     (let srcDir = path_dir src; dstDir = path_dir dst in
      if \<not> CanCopy (Permission user) then State_Monad.return (403, False)
      else case near_or h srcDir of Inl st \<Rightarrow> State_Monad.return st | Inr srcMeta \<Rightarrow>
      if \<not> CanRead (Some user) srcMeta srcDir then State_Monad.return (403, False)
      else case near_or h dstDir of Inl st \<Rightarrow> State_Monad.return st | Inr dstMeta \<Rightarrow>
      if \<not> CanWrite (Some user) dstMeta dstDir then State_Monad.return (403, False)
      else do {
        e \<leftarrow> fsDo api (CopyTo src dstDir False);
        State_Monad.return (if e \<noteq> None then (500, True) else (201, False))
      })"

definition moveFiles :: "('l, 'r) dav_env \<Rightarrow> 'w fs_api \<Rightarrow> User \<Rightarrow> string \<Rightarrow> string \<Rightarrow> (('w, 'l) dav, status) state" where
  "moveFiles h api user src dst =
     (let srcDir = path_dir src; dstDir = path_dir dst; srcName = path_base src; dstName = path_base dst in
      if srcDir \<noteq> dstDir \<and> \<not> CanMove (Permission user) then State_Monad.return (403, False)
      else if srcName \<noteq> dstName \<and> \<not> CanRename (Permission user) then State_Monad.return (403, False)
      else case near_or h srcDir of Inl st \<Rightarrow> State_Monad.return st | Inr srcMeta \<Rightarrow>
      case near_or h dstDir of Inl st \<Rightarrow> State_Monad.return st | Inr dstMeta \<Rightarrow>
      if \<not> CanWrite (Some user) srcMeta srcDir \<or> \<not> CanWrite (Some user) dstMeta dstDir then State_Monad.return (403, False)
      else if srcDir = dstDir then do {
        e \<leftarrow> fsDo api (RenameTo src dstName);
        State_Monad.return (if e \<noteq> None then (500, True) else (201, False))
      }
      else do {
        e \<leftarrow> fsDo api (MoveTo src dstDir False);
        if e \<noteq> None then State_Monad.return (500, True)
        else if srcName \<noteq> dstName then do {
          e \<leftarrow> fsDo api (RenameTo (path_join dstDir srcName) dstName);
          State_Monad.return (if e \<noteq> None then (500, True) else (201, False))
        }
        else State_Monad.return (201, False)
      })"

definition handleCopyMove :: "('l, 'r) dav_env \<Rightarrow> 'w fs_api \<Rightarrow> User \<Rightarrow> dav_req \<Rightarrow> (('w, 'l) dav, status) state" where
  "handleCopyMove h api user r =
     (let hdr = rHeader r ''Destination'' in
      if hdr = '''' then State_Monad.return (400, True)
      else case urlParse h hdr of None \<Rightarrow> State_Monad.return (400, True) | Some (host, uPath) \<Rightarrow>
      if host \<noteq> '''' \<and> host \<noteq> rHost r then State_Monad.return (502, True)
      else case stripPrefix h (rPath r) of Inl st \<Rightarrow> State_Monad.return (st, True) | Inr src \<Rightarrow>
      case stripPrefix h uPath of Inl st \<Rightarrow> State_Monad.return (st, True) | Inr dst \<Rightarrow>
      if dst = '''' then State_Monad.return (502, True)
      else if dst = src then State_Monad.return (403, True)
      else case JoinPath user src of Inl e \<Rightarrow> State_Monad.return (403, True) | Inr src \<Rightarrow>
      case JoinPath user dst of Inl e \<Rightarrow> State_Monad.return (403, True) | Inr dst \<Rightarrow>
      let hdr = rHeader r ''Depth'' in
      if rMethod r = ''COPY'' then
        with_locks h r '''' dst (
          let depth = (if hdr \<noteq> '''' then parseDepth hdr else infiniteDepth) in
          if hdr \<noteq> '''' \<and> depth \<noteq> 0 \<and> depth \<noteq> infiniteDepth then State_Monad.return (400, True)
          else copyFiles h api user src dst)
      else
        with_locks h r src dst (
          if hdr \<noteq> '''' \<and> parseDepth hdr \<noteq> infiniteDepth then State_Monad.return (400, True)
          else moveFiles h api user src dst))"

section \<open>LOCK and UNLOCK\<close>

definition handleLock :: "('l, 'r) dav_env \<Rightarrow> User \<Rightarrow> dav_req \<Rightarrow> (('w, 'l) dav, status) state" where
  "handleLock h user r =
     (case parseTimeout (rHeader r ''Timeout'') of Inl e \<Rightarrow> State_Monad.return (400, True) | Inr duration \<Rightarrow>
      case rLockInfo r of
        Inl st \<Rightarrow> State_Monad.return (st, True)
      | Inr None \<Rightarrow>
          (case parseIfHeader (rHeader r ''If'') of None \<Rightarrow> State_Monad.return (400, True) | Some ih \<Rightarrow>
           let tok = (if length ih = 1 \<and> length (conditions (hd ih)) = 1 then Token (hd (conditions (hd ih))) else '''') in
           if tok = '''' then State_Monad.return (400, True)
           else do {
             res \<leftarrow> on_locks (lsRefresh (LockSystem h) (clock h) tok duration);
             State_Monad.return (case res of Inl e \<Rightarrow> (if e = ErrNoSuchLock then 412 else 500, True) | Inr ld \<Rightarrow> (0, False))
           })
      | Inr (Some ownerXML) \<Rightarrow>
          (let hdr = rHeader r ''Depth''; depth = (if hdr \<noteq> '''' then parseDepth hdr else infiniteDepth) in
           if hdr \<noteq> '''' \<and> depth \<noteq> 0 \<and> depth \<noteq> infiniteDepth then State_Monad.return (400, True)
           else case stripPrefix h (rPath r) of Inl st \<Rightarrow> State_Monad.return (st, True) | Inr reqPath \<Rightarrow>
           case JoinPath user reqPath of Inl e \<Rightarrow> State_Monad.return (403, True) | Inr reqPath \<Rightarrow>
           case near_or h reqPath of Inl st \<Rightarrow> State_Monad.return st | Inr meta \<Rightarrow>
           if \<not> CanWrite (Some user) meta reqPath then State_Monad.return (403, True)
           else do {
             res \<leftarrow> on_locks (lsCreate (LockSystem h) (clock h)
                     \<lparr>Root = reqPath, Duration = duration, OwnerXML = ownerXML, ZeroDepth = (depth = 0)\<rparr>);
             State_Monad.return (case res of Inl e \<Rightarrow> (if e = ErrLocked then 423 else 500, True) | Inr tok \<Rightarrow> (0, False))
           }))"

definition handleUnlock :: "('l, 'r) dav_env \<Rightarrow> User \<Rightarrow> dav_req \<Rightarrow> (('w, 'l) dav, status) state" where
  "handleUnlock h user r =
     (let t = rHeader r ''Lock-Token'' in
      if length t < 2 \<or> hd t \<noteq> CHR ''<'' \<or> last t \<noteq> CHR ''>'' then State_Monad.return (400, True)
      else let t = butlast (tl t) in
      case stripPrefix h (rPath r) of Inl st \<Rightarrow> State_Monad.return (st, True) | Inr reqPath \<Rightarrow>
      case JoinPath user reqPath of Inl e \<Rightarrow> State_Monad.return (403, True) | Inr reqPath \<Rightarrow>
      case near_or h reqPath of Inl st \<Rightarrow> State_Monad.return st | Inr meta \<Rightarrow>
      if \<not> CanWrite (Some user) meta reqPath then State_Monad.return (403, True)
      else do {
        e \<leftarrow> on_locks (lsUnlock (LockSystem h) (clock h) t);
        State_Monad.return (case e of
            None \<Rightarrow> (204, False)
          | Some e \<Rightarrow> (if e = ErrForbidden then 403 else if e = ErrLocked then 423
                      else if e = ErrNoSuchLock then 409 else 500, True))
      })"

end
