(* ===== verification/Webdav_Heap.thy ===== *)
theory Webdav_Heap imports Webdav_Lock "HOL-Library.Sublist" begin

text \<open>
  The two mechanisms under the lock system: the expiry heap, an implementation of the interface of
  \<open>container/heap\<close> that keeps every node's index, and the walk from a name to the root, which visits the
  prefixes of the name's components.
\<close>

section \<open>The heap interface on nodes\<close>

text \<open>The heap operations change nothing but the indices of the nodes in the heap.\<close>

definition same_but_index :: "memLS \<Rightarrow> memLS \<Rightarrow> bool" where
  "same_but_index m0 m \<longleftrightarrow> byName m = byName m0 \<and> byToken m = byToken m0 \<and> gen m = gen m0
     \<and> nextNode m = nextNode m0
     \<and> (\<forall>a. node m a = (node m0 a)\<lparr>byExpiryIndex := byExpiryIndex (node m a)\<rparr>)"

definition idx_ok :: "memLS \<Rightarrow> bool" where
  "idx_ok m \<longleftrightarrow> distinct (byExpiry m)
     \<and> (\<forall>i < length (byExpiry m). byExpiryIndex (node m (byExpiry m ! i)) = int i)"

definition bx_view :: "memLS \<Rightarrow> (nat \<times> int) list" where
  "bx_view m = map (\<lambda>a. (a, expiry (node m a))) (byExpiry m)"

definition bx_ok :: "memLS \<Rightarrow> bool" where
  "bx_ok m \<longleftrightarrow> idx_ok m \<and> heap_on snd (length (bx_view m)) (bx_view m)"

definition bx_good :: "memLS \<Rightarrow> memLS \<Rightarrow> bool" where
  "bx_good m0 m \<longleftrightarrow> idx_ok m \<and> same_but_index m0 m \<and> mset (byExpiry m) = mset (byExpiry m0)
     \<and> (\<forall>a. a \<notin> set (byExpiry m0) \<longrightarrow> node m a = node m0 a)"

lemma same_but_index_refl [simp]: "same_but_index m m"
  by (simp add: same_but_index_def)

lemma same_but_index_trans: "same_but_index a b \<Longrightarrow> same_but_index b c \<Longrightarrow> same_but_index a c"
  unfolding same_but_index_def by (metis memLSNode.unfold_congs(5) memLSNode.surjective memLSNode.update_convs(5))

lemma same_but_indexD:
  assumes "same_but_index m0 m"
  shows "byName m = byName m0" "byToken m = byToken m0" "gen m = gen m0" "nextNode m = nextNode m0"
    "details (node m a) = details (node m0 a)" "token (node m a) = token (node m0 a)"
    "refCount (node m a) = refCount (node m0 a)" "expiry (node m a) = expiry (node m0 a)"
    "held (node m a) = held (node m0 a)"
proof -
  have n: "node m a = (node m0 a)\<lparr>byExpiryIndex := byExpiryIndex (node m a)\<rparr>"
    using assms by (simp add: same_but_index_def)
  show "details (node m a) = details (node m0 a)" "token (node m a) = token (node m0 a)"
    "refCount (node m a) = refCount (node m0 a)" "expiry (node m a) = expiry (node m0 a)"
    "held (node m a) = held (node m0 a)"
    by (subst n, simp)+
qed (use assms in \<open>simp_all add: same_but_index_def\<close>)

lemma same_index_upd: "same_but_index m (upd_node a (\<lambda>n. n\<lparr>byExpiryIndex := k\<rparr>) (m\<lparr>byExpiry := b\<rparr>))"
  by (simp add: same_but_index_def upd_node_def)

lemma bx_Swap_simps:
  "byExpiry (bx_Swap i j m) = swap_at i j (byExpiry m)"
  "node (bx_Swap i j m) = (node m)(swap_at i j (byExpiry m) ! i :=
       (node m (swap_at i j (byExpiry m) ! i))\<lparr>byExpiryIndex := int i\<rparr>,
     swap_at i j (byExpiry m) ! j :=
       (if swap_at i j (byExpiry m) ! j = swap_at i j (byExpiry m) ! i
        then (node m (swap_at i j (byExpiry m) ! i))\<lparr>byExpiryIndex := int j\<rparr>
        else (node m (swap_at i j (byExpiry m) ! j))\<lparr>byExpiryIndex := int j\<rparr>))"
  "byName (bx_Swap i j m) = byName m" "byToken (bx_Swap i j m) = byToken m"
  "gen (bx_Swap i j m) = gen m" "nextNode (bx_Swap i j m) = nextNode m"
  by (simp_all add: bx_Swap_def upd_node_def Let_def)

lemma bx_Swap_same: "same_but_index m (bx_Swap i j m)"
  by (simp add: same_but_index_def bx_Swap_simps)

lemma bx_Swap_idx:
  assumes "idx_ok m" "i < length (byExpiry m)" "j < length (byExpiry m)"
  shows "idx_ok (bx_Swap i j m)"
proof -
  let ?b = "swap_at i j (byExpiry m)"
  have ms: "mset ?b = mset (byExpiry m)" using assms(2,3) by (rule mset_swap_at)
  then have d: "distinct ?b" using assms(1) by (metis idx_ok_def mset_eq_imp_distinct_iff)
  have "byExpiryIndex (node (bx_Swap i j m) (?b ! k)) = int k" if k: "k < length (byExpiry m)" for k
  proof -
    have eq: "?b ! k = ?b ! i \<longleftrightarrow> k = i" "?b ! k = ?b ! j \<longleftrightarrow> k = j" "?b ! j = ?b ! i \<longleftrightarrow> i = j"
      using d k assms(2,3) by (auto simp: nth_eq_iff_index_eq)
    show ?thesis
    proof (cases "k = i \<or> k = j")
      case True
      then show ?thesis using eq by (auto simp: bx_Swap_simps)
    next
      case False
      then have "?b ! k = byExpiry m ! k" using nth_swap_at assms(2,3) k by metis
      then show ?thesis using False eq assms(1) k by (simp add: bx_Swap_simps idx_ok_def)
    qed
  qed
  then show ?thesis using d by (simp add: idx_ok_def bx_Swap_simps)
qed

lemma bx_Swap_view:
  assumes "i < length (byExpiry m)" "j < length (byExpiry m)"
  shows "bx_view (bx_Swap i j m) = swap_at i j (bx_view m)"
proof -
  have "map (\<lambda>a. (a, expiry (node m a))) (swap_at i j (byExpiry m)) = swap_at i j (bx_view m)"
    using assms by (simp add: bx_view_def swap_at_def map_update)
  then show ?thesis using same_but_indexD(8)[OF bx_Swap_same] by (simp add: bx_view_def bx_Swap_simps(1))
qed

interpretation bx: heap_interface bx_Less bx_Swap bx_view "bx_good m0" for m0
proof (unfold_locales, goal_cases)
  case (1 s i j)
  then show ?case by (simp add: bx_Less_def bx_view_def)
next
  case (2 s i j)
  then show ?case using bx_Swap_view[of i s j] by (simp add: bx_view_def)
next
  case (3 s i j)
  then have ij: "i < length (byExpiry s)" "j < length (byExpiry s)" by (simp_all add: bx_view_def)
  have "node (bx_Swap i j s) a = node m0 a" if "a \<notin> set (byExpiry m0)" for a
  proof -
    have "set (swap_at i j (byExpiry s)) = set (byExpiry m0)"
      using 3(1) mset_swap_at[OF ij] by (metis bx_good_def mset_eq_setD)
    then have "a \<noteq> swap_at i j (byExpiry s) ! i" "a \<noteq> swap_at i j (byExpiry s) ! j"
      using that ij by (metis length_swap_at nth_mem)+
    then show ?thesis using 3(1) that by (simp add: bx_Swap_simps bx_good_def)
  qed
  then show ?case
    using 3(1) bx_Swap_idx[OF _ ij] same_but_index_trans[OF _ bx_Swap_same] mset_swap_at[OF ij]
    by (auto simp: bx_good_def bx_Swap_simps(1))
qed

lemma bx_good_self: "idx_ok m \<Longrightarrow> bx_good m m"
  by (simp add: bx_good_def)

section \<open>Push and Remove\<close>

lemma bx_Push_good:
  assumes "idx_ok m" "a \<notin> set (byExpiry m)"
  shows "idx_ok (bx_Push a m)" "byExpiry (bx_Push a m) = byExpiry m @ [a]"
    "bx_view (bx_Push a m) = bx_view m @ [(a, expiry (node m a))]" "same_but_index m (bx_Push a m)"
    "b \<noteq> a \<Longrightarrow> node (bx_Push a m) b = node m b"
proof -
  show b: "byExpiry (bx_Push a m) = byExpiry m @ [a]" by (simp add: bx_Push_def upd_node_def)
  show "idx_ok (bx_Push a m)"
    using assms by (auto simp: idx_ok_def b nth_append bx_Push_def upd_node_def less_Suc_eq)
  show "same_but_index m (bx_Push a m)" by (simp add: bx_Push_def same_index_upd)
  then show "bx_view (bx_Push a m) = bx_view m @ [(a, expiry (node m a))]"
    using same_but_indexD(8) by (simp add: bx_view_def b)
  show "b \<noteq> a \<Longrightarrow> node (bx_Push a m) b = node m b" by (simp add: bx_Push_def upd_node_def)
qed

lemma bx_heap_Push:
  assumes "bx_ok m" "a \<notin> set (byExpiry m)"
  shows "bx_ok (bx_heap_Push a m)" "set (byExpiry (bx_heap_Push a m)) = insert a (set (byExpiry m))"
    "same_but_index m (bx_heap_Push a m)"
    "b \<notin> insert a (set (byExpiry m)) \<Longrightarrow> node (bx_heap_Push a m) b = node m b"
proof -
  have i: "idx_ok m" using assms(1) by (simp add: bx_ok_def)
  let ?p = "bx_Push a m" and ?m = "bx_heap_Push a m"
  note P = bx_Push_good[OF i assms(2)]
  have lv: "length (bx_view m) = length (byExpiry m)" by (simp add: bx_view_def)
  have m: "?m = hi_up bx_Less bx_Swap (length (bx_view m)) ?p" by (simp add: bx_heap_Push_def Let_def P(2) lv)
  have "length (bx_view m) < length (bx_view ?p)" by (simp add: P(3))
  then have u: "bx_view ?m = heap_up snd (length (bx_view m)) (bx_view ?p)" "bx_good ?p ?m"
    using bx.up_view[OF bx_good_self[OF P(1)]] m by simp_all
  have v: "bx_view ?m = heap_push snd (a, expiry (node m a)) (bx_view m)"
    using u(1) by (simp add: heap_push_def P(3))
  show "bx_ok ?m"
    using heap_push_heap[of snd "bx_view m"] assms(1) u(2) by (simp add: bx_ok_def bx_good_def v)
  show "set (byExpiry ?m) = insert a (set (byExpiry m))"
    using u(2) P(2) mset_eq_setD[of "byExpiry ?m" "byExpiry ?p"] by (simp add: bx_good_def)
  show "same_but_index m ?m" using u(2) P(4) same_but_index_trans by (auto simp: bx_good_def)
  show "b \<notin> insert a (set (byExpiry m)) \<Longrightarrow> node ?m b = node m b"
    using u(2) P(2,5) by (simp add: bx_good_def)
qed

lemma bx_heap_Remove:
  assumes "bx_ok m" "i < length (byExpiry m)"
  defines "a \<equiv> byExpiry m ! i"
  shows "bx_ok (bx_heap_Remove i m)" "set (byExpiry (bx_heap_Remove i m)) = set (byExpiry m) - {a}"
    "same_but_index m (bx_heap_Remove i m)"
    "b \<notin> set (byExpiry m) \<Longrightarrow> node (bx_heap_Remove i m) b = node m b"
    "byExpiryIndex (node (bx_heap_Remove i m) a) = -1"
    "length (byExpiry (bx_heap_Remove i m)) = length (byExpiry m) - 1"
proof -
  have ix: "idx_ok m" using assms(1) by (simp add: bx_ok_def)
  have lv: "length (bx_view m) = length (byExpiry m)" by (simp add: bx_view_def)
  let ?s = "hi_sift bx_Less bx_Swap (length (byExpiry m)) i m" and ?m = "bx_heap_Remove i m"
  have iv: "i < length (bx_view m)" using assms(2) lv by simp
  note S = bx.sift_view[OF bx_good_self[OF ix] iv, unfolded lv]
  have fst_view: "map fst (bx_view s) = byExpiry s" for s by (simp add: bx_view_def comp_def)
  have ne: "byExpiry ?s \<noteq> []" using S(3) assms(2) fst_view[of ?s] by auto
  have la: "last (byExpiry ?s) = a"
  proof -
    have "bx_view ?s \<noteq> []" using ne by (simp add: bx_view_def)
    then have "last (byExpiry ?s) = fst (last (bx_view ?s))" by (metis fst_view last_map)
    then show ?thesis using S(4) assms(2) by (simp add: bx_view_def a_def)
  qed
  have G: "idx_ok ?s" "same_but_index m ?s" "mset (byExpiry ?s) = mset (byExpiry m)"
    "b \<notin> set (byExpiry m) \<Longrightarrow> node ?s b = node m b" for b
    using S(1) by (simp_all add: bx_good_def)
  have m: "?m = upd_node a (\<lambda>n. n\<lparr>byExpiryIndex := -1\<rparr>) (?s\<lparr>byExpiry := butlast (byExpiry ?s)\<rparr>)"
    by (simp add: bx_heap_Remove_def bx_Pop_def la)
  have b: "byExpiry ?m = butlast (byExpiry ?s)" by (simp add: m upd_node_def)
  have d: "distinct (byExpiry ?s)" using G(1) by (simp add: idx_ok_def)
  have split: "byExpiry ?s = butlast (byExpiry ?s) @ [a]" using ne la by (metis append_butlast_last_id)
  have na: "a \<notin> set (butlast (byExpiry ?s))" using d split by (metis distinct_append disjoint_iff list.set_intros(1))
  show sm: "same_but_index m ?m" unfolding m by (rule same_but_index_trans[OF G(2) same_index_upd])
  have idx: "idx_ok ?m"
    unfolding idx_ok_def b
  proof (intro conjI allI impI)
    show "distinct (butlast (byExpiry ?s))" using d by (simp add: distinct_butlast)
    fix k assume k: "k < length (butlast (byExpiry ?s))"
    then have "butlast (byExpiry ?s) ! k \<noteq> a" using na nth_mem by metis
    then show "byExpiryIndex (node ?m (butlast (byExpiry ?s) ! k)) = int k"
      using G(1) k by (simp add: m upd_node_def idx_ok_def nth_butlast)
  qed
  have v: "bx_view ?m = heap_remove snd i (bx_view m)"
  proof -
    have "expiry (node ?m c) = expiry (node ?s c)" for c by (simp add: m upd_node_def)
    then have "bx_view ?m = butlast (bx_view ?s)" by (simp add: bx_view_def b map_butlast)
    then show ?thesis using S(2) by simp
  qed
  show "bx_ok ?m"
    using idx heap_remove_heap[OF iv, of snd] assms(1) by (simp add: bx_ok_def v)
  have "set (byExpiry ?s) = set (byExpiry m)" using G(3) by (rule mset_eq_setD)
  then show "set (byExpiry ?m) = set (byExpiry m) - {a}"
    using na split b by (metis Diff_insert_absorb Un_insert_right list.set(1) list.simps(15) set_append sup_bot_right)
  show "b \<notin> set (byExpiry m) \<Longrightarrow> node ?m b = node m b"
    using G(4) assms(2) by (auto simp: m upd_node_def a_def)
  show "byExpiryIndex (node ?m a) = -1" by (simp add: m upd_node_def)
  show "length (byExpiry ?m) = length (byExpiry m) - 1"
    using b arg_cong[OF G(3), of size] by simp
qed

text \<open>The head of the heap expires first.\<close>

lemma bx_head_first:
  assumes "bx_ok m" "a \<in> set (byExpiry m)"
  shows "expiry (node m (byExpiry m ! 0)) \<le> expiry (node m a)"
proof -
  obtain k where k: "k < length (byExpiry m)" "byExpiry m ! k = a" using assms(2) by (auto simp: in_set_conv_nth)
  then have "0 < length (byExpiry m)" by linarith
  then show ?thesis
    using k heap_min[of snd "length (bx_view m)" "bx_view m" k] assms(1) by (auto simp: bx_ok_def bx_view_def)
qed

section \<open>The walk\<close>

definition ups :: "string list \<Rightarrow> string list" where
  "ups cs = map mk_abs (rev (prefixes cs))"

fun walk_names :: "(string \<Rightarrow> bool \<Rightarrow> 's \<Rightarrow> bool \<times> 's) \<Rightarrow> bool \<Rightarrow> string list \<Rightarrow> 's \<Rightarrow> bool \<times> 's" where
  "walk_names f first [] s = (True, s)"
| "walk_names f first (nm # nms) s =
     (case f nm first s of (False, s') \<Rightarrow> (False, s') | (True, s') \<Rightarrow> walk_names f False nms s')"

lemma last_index_char_split: "c \<notin> set b \<Longrightarrow> last_index_char c (a @ c # b) = Some (length a)"
proof -
  assume c: "c \<notin> set b"
  have "takeWhile (\<lambda>x. x \<noteq> c) (rev b @ c # rev a) = rev b"
    using c by (subst takeWhile_append2) auto
  then show ?thesis by (simp add: last_index_char_def)
qed

lemma ups_snoc: "ups (cs @ [c]) = mk_abs (cs @ [c]) # ups cs"
  by (simp add: ups_def prefixes_snoc)

lemma walk_ups:
  "normal_comps cs \<Longrightarrow> walkToRoot_from first (mk_abs cs) f s = Some (walk_names f first (ups cs) s)"
proof (induction cs arbitrary: first s rule: rev_induct)
  case Nil
  show ?case
    by (subst walkToRoot_from.simps) (auto simp: ups_def mk_abs_def split: prod.split bool.split)
next
  case (snoc c cs)
  have n: "normal_comps cs" "slash \<notin> set c" using snoc.prems by (simp_all add: name_ok_def)
  define p where "p = (if cs = [] then [] else mk_abs cs)"
  have nr: "mk_abs (cs @ [c]) \<noteq> ''/''" using mk_abs_single[OF snoc.prems] by simp
  have sp: "mk_abs (cs @ [c]) = p @ slash # c" by (simp add: mk_abs_snoc p_def)
  have li: "last_index_char slash (mk_abs (cs @ [c])) = Some (length p)"
    unfolding sp by (rule last_index_char_split[OF n(2)])
  have tk: "take (length p) (mk_abs (cs @ [c])) = p" by (simp add: sp)
  have pr: "(if p = [] then ''/'' else p) = mk_abs cs" by (simp add: p_def mk_abs_def)
  have "walkToRoot_from first (mk_abs (cs @ [c])) f s =
      (case f (mk_abs (cs @ [c])) first s of (False, s') \<Rightarrow> Some (False, s')
       | (True, s') \<Rightarrow> walkToRoot_from False (mk_abs cs) f s')"
    by (subst walkToRoot_from.simps) (simp only: Let_def nr li tk pr option.case if_False)
  then show ?case using snoc.IH[OF n(1)] by (auto simp: ups_snoc split: prod.split bool.split)
qed

lemma walkToRoot_ups: "normal_comps cs \<Longrightarrow> walkToRoot (mk_abs cs) f s = Some (walk_names f True (ups cs) s)"
  by (simp add: walkToRoot_def walk_ups)

lemma ups_set: "normal_comps cs \<Longrightarrow> normal_comps ds \<Longrightarrow> mk_abs ds \<in> set (ups cs) \<longleftrightarrow> prefix ds cs"
proof -
  assume n: "normal_comps cs" "normal_comps ds"
  have sub: "normal_comps es" if "prefix es cs" for es
    using n(1) that by (auto simp: prefix_def)
  show ?thesis using mk_abs_inject[OF n(2) sub] by (auto simp: ups_def in_set_prefixes)
qed

lemma ups_distinct: "normal_comps cs \<Longrightarrow> distinct (ups cs)"
proof -
  assume n: "normal_comps cs"
  have "normal_comps es" if "prefix es cs" for es using n that by (auto simp: prefix_def)
  then have "inj_on mk_abs (set (prefixes cs))"
    by (auto simp: inj_on_def intro!: mk_abs_inject)
  then show ?thesis by (simp add: ups_def distinct_map distinct_prefixes)
qed

lemma ups_normal:
  assumes "normal_comps cs" "nm \<in> set (ups cs)"
  shows "\<exists>ds. normal_comps ds \<and> nm = mk_abs ds \<and> prefix ds cs"
proof -
  obtain ds where d: "nm = mk_abs ds" "prefix ds cs" using assms(2) by (auto simp: ups_def)
  then have "normal_comps ds" using assms(1) by (auto simp: prefix_def)
  then show ?thesis using d by blast
qed

end
