(* ===== verification/Webdav_Lock_Spec.thy ===== *)
theory Webdav_Lock_Spec imports Webdav_Heap begin

text \<open>
  What the lock system means: an abstract state that maps a token to a lock (root, depth, expiry, held),
  abstract operations on it, the invariant that ties the node structure (two maps, reference counts,
  expiry heap) to it, and the proof that every operation of \<open>lock.go\<close> keeps the invariant, never
  panics, and implements the abstract operation.
\<close>

section \<open>The abstract state\<close>

record alock =
  aRoot :: "string list"
  aDetails :: LockDetails
  aExpiry :: "int option"
  aHeld :: bool

type_synonym alocks = "string \<Rightarrow> alock option"

definition abs_node :: "memLSNode \<Rightarrow> alock" where
  "abs_node n = \<lparr>aRoot = comps_of (Root (details n)), aDetails = details n,
     aExpiry = (if Duration (details n) \<ge> 0 then Some (expiry n) else None), aHeld = held n\<rparr>"

lemma abs_node_cong:
  "details n = details n' \<Longrightarrow> expiry n = expiry n' \<Longrightarrow> held n = held n' \<Longrightarrow> abs_node n = abs_node n'"
  by (simp add: abs_node_def)

definition abs_locks :: "memLS \<Rightarrow> alocks" where
  "abs_locks m t = map_option (\<lambda>a. abs_node (node m a)) (byToken m t)"

definition a_due :: "int \<Rightarrow> alock \<Rightarrow> bool" where
  "a_due now l \<longleftrightarrow> \<not> aHeld l \<and> (case aExpiry l of None \<Rightarrow> False | Some e \<Rightarrow> e \<le> now)"

lemma a_due_iff: "a_due now l \<longleftrightarrow> \<not> aHeld l \<and> (\<exists>e. aExpiry l = Some e \<and> e \<le> now)"
  by (auto simp: a_due_def split: option.splits)

definition a_expire :: "int \<Rightarrow> alocks \<Rightarrow> alocks" where
  "a_expire now S t = (case S t of None \<Rightarrow> None | Some l \<Rightarrow> if a_due now l then None else Some l)"

text \<open>Two locks conflict when one covers the other's root.\<close>

definition a_covers :: "string list \<Rightarrow> bool \<Rightarrow> string list \<Rightarrow> bool" where
  "a_covers r zero r' \<longleftrightarrow> r = r' \<or> \<not> zero \<and> prefix r r'"

definition a_conflict :: "alocks \<Rightarrow> string list \<Rightarrow> bool \<Rightarrow> bool" where
  "a_conflict S r zero \<longleftrightarrow>
     (\<exists>t l. S t = Some l \<and> (a_covers (aRoot l) (ZeroDepth (aDetails l)) r \<or> a_covers r zero (aRoot l)))"

section \<open>The invariant\<close>

definition locked_nodes :: "memLS \<Rightarrow> nat set" where
  "locked_nodes m = {a. \<exists>t. byToken m t = Some a}"

definition croot :: "memLS \<Rightarrow> nat \<Rightarrow> string list" where
  "croot m a = comps_of (Root (details (node m a)))"

definition refset :: "memLS \<Rightarrow> string list \<Rightarrow> nat set" where
  "refset m ds = {a \<in> locked_nodes m. prefix ds (croot m a)}"

definition inv_names :: "memLS \<Rightarrow> bool" where
  "inv_names m \<longleftrightarrow> (\<forall>nm a. byName m nm = Some a \<longrightarrow> a < nextNode m
     \<and> Root (details (node m a)) = nm \<and> (\<exists>cs. normal_comps cs \<and> nm = mk_abs cs))"

definition inv_tokens :: "memLS \<Rightarrow> bool" where
  "inv_tokens m \<longleftrightarrow> finite (dom (byToken m))
     \<and> (\<forall>t a. byToken m t = Some a \<longrightarrow> t \<noteq> '''' \<and> token (node m a) = t
          \<and> byName m (Root (details (node m a))) = Some a \<and> (\<exists>k \<le> unat (gen m). t = nat_dec k))
     \<and> (\<forall>nm a. byName m nm = Some a \<longrightarrow> a \<notin> locked_nodes m \<longrightarrow>
          token (node m a) = '''' \<and> \<not> held (node m a))"

definition inv_refs :: "memLS \<Rightarrow> bool" where
  "inv_refs m \<longleftrightarrow> (\<forall>ds. normal_comps ds \<longrightarrow>
     (case byName m (mk_abs ds) of
        None \<Rightarrow> refset m ds = {}
      | Some a \<Rightarrow> refset m ds \<noteq> {} \<and> refCount (node m a) = int (card (refset m ds))))"

definition inv_heap :: "memLS \<Rightarrow> bool" where
  "inv_heap m \<longleftrightarrow> bx_ok m
     \<and> set (byExpiry m) = {a \<in> locked_nodes m. 0 \<le> Duration (details (node m a)) \<and> \<not> held (node m a)}
     \<and> (\<forall>nm a. byName m nm = Some a \<longrightarrow> a \<notin> set (byExpiry m) \<longrightarrow> byExpiryIndex (node m a) = -1)"

definition inv_free :: "memLS \<Rightarrow> bool" where
  "inv_free m \<longleftrightarrow> (\<forall>a \<in> locked_nodes m. \<forall>b \<in> locked_nodes m.
     a \<noteq> b \<longrightarrow> prefix (croot m a) (croot m b) \<longrightarrow> ZeroDepth (details (node m a)))"

definition linv :: "memLS \<Rightarrow> bool" where
  "linv m \<longleftrightarrow> inv_names m \<and> inv_tokens m \<and> inv_refs m \<and> inv_heap m \<and> inv_free m"

lemma inv_tokensD:
  assumes "inv_tokens m" "byToken m t = Some a"
  shows "t \<noteq> ''''" "token (node m a) = t" "byName m (Root (details (node m a))) = Some a"
    "\<exists>k \<le> unat (gen m). t = nat_dec k"
  using assms unfolding inv_tokens_def by blast+

lemma linvI: "inv_names m \<Longrightarrow> inv_tokens m \<Longrightarrow> inv_refs m \<Longrightarrow> inv_heap m \<Longrightarrow> inv_free m \<Longrightarrow> linv m"
  by (simp add: linv_def)

lemma linvD:
  assumes "linv m"
  shows "inv_names m" "inv_tokens m" "inv_refs m" "inv_heap m" "inv_free m"
  using assms by (simp_all add: linv_def)

lemma inv_namesD:
  assumes "inv_names m" "byName m nm = Some a"
  shows "a < nextNode m" "Root (details (node m a)) = nm" "normal_comps (croot m a)" "nm = mk_abs (croot m a)"
proof -
  show a: "a < nextNode m" "Root (details (node m a)) = nm" using assms by (auto simp: inv_names_def)
  obtain cs where "normal_comps cs" "nm = mk_abs cs" using assms by (auto simp: inv_names_def)
  then show "normal_comps (croot m a)" "nm = mk_abs (croot m a)" by (simp_all add: croot_def a)
qed

lemma inv_names_inj: "inv_names m \<Longrightarrow> byName m nm = Some a \<Longrightarrow> byName m nm' = Some a \<Longrightarrow> nm = nm'"
  using inv_namesD(2) by metis

lemma lockedD:
  assumes "linv m" "a \<in> locked_nodes m"
  shows "byToken m (token (node m a)) = Some a" "token (node m a) \<noteq> ''''"
    "byName m (mk_abs (croot m a)) = Some a" "normal_comps (croot m a)" "a < nextNode m"
    "Root (details (node m a)) = mk_abs (croot m a)"
proof -
  obtain t where t: "byToken m t = Some a" using assms(2) by (auto simp: locked_nodes_def)
  then have n: "t \<noteq> ''''" "token (node m a) = t" "byName m (Root (details (node m a))) = Some a"
    using linvD(2)[OF assms(1)] by (auto simp: inv_tokens_def)
  note N = inv_namesD[OF linvD(1)[OF assms(1)] n(3)]
  show "byToken m (token (node m a)) = Some a" "token (node m a) \<noteq> ''''" using t n by simp_all
  show "Root (details (node m a)) = mk_abs (croot m a)" by (rule N(4))
  then show "byName m (mk_abs (croot m a)) = Some a" "normal_comps (croot m a)" "a < nextNode m"
    using n(3) N by simp_all
qed

lemma locked_finite: "inv_tokens m \<Longrightarrow> finite (locked_nodes m)"
proof -
  assume "inv_tokens m"
  then have "finite ((\<lambda>t. the (byToken m t)) ` dom (byToken m))" by (simp add: inv_tokens_def)
  moreover have "locked_nodes m \<subseteq> (\<lambda>t. the (byToken m t)) ` dom (byToken m)"
    by (force simp: locked_nodes_def)
  ultimately show ?thesis by (rule rev_finite_subset)
qed

lemma locked_root_inj:
  assumes "linv m" "a \<in> locked_nodes m" "b \<in> locked_nodes m" "croot m a = croot m b"
  shows "a = b"
proof -
  have "Some a = byName m (mk_abs (croot m a))" by (rule lockedD(3)[OF assms(1,2), symmetric])
  also have "\<dots> = byName m (mk_abs (croot m b))" unfolding assms(4) ..
  also have "\<dots> = Some b" by (rule lockedD(3)[OF assms(1,3)])
  finally show ?thesis by (rule option.inject[THEN iffD1])
qed

lemma linv_new: "linv (NewMemLS g)"
proof (rule linvI)
  have l: "locked_nodes (NewMemLS g) = {}" by (simp add: locked_nodes_def NewMemLS_def)
  show "inv_names (NewMemLS g)" by (simp add: inv_names_def NewMemLS_def)
  show "inv_tokens (NewMemLS g)" by (simp add: inv_tokens_def NewMemLS_def)
  show "inv_refs (NewMemLS g)" unfolding inv_refs_def refset_def l by (simp add: NewMemLS_def)
  have "byExpiry (NewMemLS g) = []" "byName (NewMemLS g) nm = None" for nm by (simp_all add: NewMemLS_def)
  then show "inv_heap (NewMemLS g)" by (simp add: inv_heap_def l bx_ok_def idx_ok_def bx_view_def heap_on_def)
  show "inv_free (NewMemLS g)" by (simp add: inv_free_def l)
qed

text \<open>Updates that only touch indices in the heap.\<close>

lemma same_index_views:
  assumes "same_but_index m0 m"
  shows "locked_nodes m = locked_nodes m0" "croot m = croot m0" "refset m = refset m0"
    "inv_names m = inv_names m0" "inv_tokens m = inv_tokens m0" "inv_refs m = inv_refs m0"
    "inv_free m = inv_free m0" "abs_locks m = abs_locks m0"
proof -
  note D = same_but_indexD[OF assms]
  show l: "locked_nodes m = locked_nodes m0" by (simp add: locked_nodes_def D)
  show c: "croot m = croot m0" by (simp add: croot_def D fun_eq_iff)
  show r: "refset m = refset m0" by (simp add: refset_def l c fun_eq_iff)
  show "inv_names m = inv_names m0" by (simp add: inv_names_def D)
  show "inv_tokens m = inv_tokens m0" by (simp add: inv_tokens_def D l)
  show "inv_refs m = inv_refs m0" unfolding inv_refs_def D r ..
  show "inv_free m = inv_free m0" by (simp add: inv_free_def D l c)
  show "abs_locks m = abs_locks m0" unfolding abs_locks_def abs_node_def D ..
qed

section \<open>canCreate\<close>

lemma walk_pred:
  "walk_names (\<lambda>nm first s. (P nm first, s)) first nms s
     = ((case nms of [] \<Rightarrow> True | nm # rest \<Rightarrow> P nm first \<and> (\<forall>x \<in> set rest. P x False)), s)"
proof (induction nms arbitrary: first)
  case (Cons nm nms)
  show ?case by (cases "P nm first") (auto simp: Cons split: list.split)
qed simp

lemma ups_hd: "ups cs = mk_abs cs # (if cs = [] then [] else ups (butlast cs))"
  by (cases cs rule: rev_cases) (simp_all add: ups_snoc, simp add: ups_def)

lemma canCreate_iff:
  assumes inv: "linv m" and n: "normal_comps cs"
  shows "canCreate m (mk_abs cs) z = Some (\<not> a_conflict (abs_locks m) cs z)"
proof -
  note I = linvD[OF inv]
  let ?P = "canCreate_step m z"
  have loc: "byName m nm = Some a \<Longrightarrow> token (node m a) \<noteq> '''' \<longleftrightarrow> a \<in> locked_nodes m" for nm a
    using I(2) lockedD(2)[OF inv, of a] by (auto simp: inv_tokens_def)
  have step: "?P (mk_abs ds) first \<longleftrightarrow>
      \<not> (\<exists>b \<in> locked_nodes m. croot m b = ds \<and> (first \<or> \<not> ZeroDepth (details (node m b)))) \<and>
      (first \<and> \<not> z \<longrightarrow> refset m ds = {})" if nd: "normal_comps ds" for ds first
  proof (cases "byName m (mk_abs ds)")
    case None
    then have "refset m ds = {}" using I(3) nd by (auto simp: inv_refs_def)
    moreover then have "\<not> (\<exists>b \<in> locked_nodes m. croot m b = ds)" by (auto simp: refset_def)
    ultimately show ?thesis using None by (auto simp: canCreate_step_def)
  next
    case (Some a)
    then have rs: "refset m ds \<noteq> {}" using I(3) nd by (auto simp: inv_refs_def)
    have ca: "croot m a = ds" using inv_namesD(3,4)[OF I(1) Some] mk_abs_inject nd by metis
    have "b \<in> locked_nodes m \<and> croot m b = ds \<longleftrightarrow> a \<in> locked_nodes m \<and> b = a" for b
      using lockedD(3)[OF inv] Some ca option.inject by metis
    then have "(\<exists>b \<in> locked_nodes m. croot m b = ds \<and> Q b) \<longleftrightarrow> a \<in> locked_nodes m \<and> Q a" for Q by metis
    then show ?thesis using Some rs loc[OF Some] by (auto simp: canCreate_step_def Let_def)
  qed
  have bl: "normal_comps (butlast cs)" using n by (auto simp: normal_comps_def dest: in_set_butlastD)
  have rest: "(\<forall>x \<in> set (if cs = [] then [] else ups (butlast cs)). ?P x False)
      \<longleftrightarrow> (\<forall>ds. strict_prefix ds cs \<longrightarrow> ?P (mk_abs ds) False)"
  proof -
    have "strict_prefix ds cs \<longleftrightarrow> cs \<noteq> [] \<and> prefix ds (butlast cs)" for ds
      by (cases cs rule: rev_cases) (auto simp: strict_prefix_def)
    then show ?thesis by (auto simp: ups_def)
  qed
  have sp: "normal_comps ds" if "strict_prefix ds cs" for ds
    using that n by (auto simp: strict_prefix_def prefix_def)
  have abs: "(\<exists>t l. abs_locks m t = Some l \<and> Q (aRoot l) (ZeroDepth (aDetails l)))
      \<longleftrightarrow> (\<exists>b \<in> locked_nodes m. Q (croot m b) (ZeroDepth (details (node m b))))" for Q
  proof
    assume "\<exists>t l. abs_locks m t = Some l \<and> Q (aRoot l) (ZeroDepth (aDetails l))"
    then obtain t b where "byToken m t = Some b" "Q (croot m b) (ZeroDepth (details (node m b)))"
      by (auto simp: abs_locks_def abs_node_def croot_def)
    then show "\<exists>b \<in> locked_nodes m. Q (croot m b) (ZeroDepth (details (node m b)))"
      by (auto simp: locked_nodes_def)
  next
    assume "\<exists>b \<in> locked_nodes m. Q (croot m b) (ZeroDepth (details (node m b)))"
    then obtain t b where b: "byToken m t = Some b" "Q (croot m b) (ZeroDepth (details (node m b)))"
      by (auto simp: locked_nodes_def)
    then have "abs_locks m t = Some (abs_node (node m b))" by (simp add: abs_locks_def)
    then show "\<exists>t l. abs_locks m t = Some l \<and> Q (aRoot l) (ZeroDepth (aDetails l))"
      using b(2) by (intro exI[of _ t] exI[of _ "abs_node (node m b)"]) (simp add: abs_node_def croot_def)
  qed
  have "canCreate m (mk_abs cs) z = Some (?P (mk_abs cs) True \<and> (\<forall>ds. strict_prefix ds cs \<longrightarrow> ?P (mk_abs ds) False))"
    unfolding canCreate_def walkToRoot_ups[OF n] walk_pred
    by (simp add: ups_hd[of cs] rest del: ups_hd)
  moreover have "a_conflict (abs_locks m) cs z \<longleftrightarrow> (\<exists>b \<in> locked_nodes m.
      a_covers (croot m b) (ZeroDepth (details (node m b))) cs \<or> a_covers cs z (croot m b))"
    unfolding a_conflict_def by (rule abs)
  moreover have "?P (mk_abs cs) True \<longleftrightarrow>
      \<not> (\<exists>b \<in> locked_nodes m. croot m b = cs \<or> a_covers cs z (croot m b))"
    using step[OF n, of True] by (auto simp: a_covers_def refset_def)
  moreover have "(\<forall>ds. strict_prefix ds cs \<longrightarrow> ?P (mk_abs ds) False) \<longleftrightarrow>
      \<not> (\<exists>b \<in> locked_nodes m. strict_prefix (croot m b) cs \<and> \<not> ZeroDepth (details (node m b)))"
    using step[OF sp, of _ False] by auto
  moreover have "a_covers (croot m b) zb cs \<longleftrightarrow> croot m b = cs \<or> strict_prefix (croot m b) cs \<and> \<not> zb" for b zb
    by (auto simp: a_covers_def strict_prefix_def)
  ultimately show ?thesis by auto
qed

section \<open>Removing a lock\<close>

lemma bx_ok_cong:
  assumes "byExpiry m' = byExpiry m"
    and "\<And>b. b \<in> set (byExpiry m) \<Longrightarrow> expiry (node m' b) = expiry (node m b)
       \<and> byExpiryIndex (node m' b) = byExpiryIndex (node m b)"
  shows "bx_ok m' = bx_ok m"
proof -
  have "bx_view m' = bx_view m" using assms by (simp add: bx_view_def)
  moreover have "idx_ok m' = idx_ok m" using assms by (simp add: idx_ok_def)
  ultimately show ?thesis by (simp add: bx_ok_def)
qed

definition rem_names :: "string list \<Rightarrow> memLS \<Rightarrow> memLS" where
  "rem_names nms m = m\<lparr>
     byName := (\<lambda>nm. if nm \<in> set nms \<and> (\<exists>a. byName m nm = Some a \<and> refCount (node m a) = 1)
       then None else byName m nm),
     node := (\<lambda>a. if \<exists>nm \<in> set nms. byName m nm = Some a
       then (node m a)\<lparr>refCount := refCount (node m a) - 1\<rparr> else node m a)\<rparr>"

lemma rem_names_simps:
  "byToken (rem_names nms m) = byToken m" "gen (rem_names nms m) = gen m"
  "byExpiry (rem_names nms m) = byExpiry m" "nextNode (rem_names nms m) = nextNode m"
  "details (node (rem_names nms m) a) = details (node m a)" "token (node (rem_names nms m) a) = token (node m a)"
  "expiry (node (rem_names nms m) a) = expiry (node m a)" "held (node (rem_names nms m) a) = held (node m a)"
  "byExpiryIndex (node (rem_names nms m) a) = byExpiryIndex (node m a)"
  by (simp_all add: rem_names_def)

lemma walk_remove:
  assumes "distinct nms" and "\<forall>nm \<in> set nms. byName m nm \<noteq> None"
    and "\<And>nm nm' a. byName m nm = Some a \<Longrightarrow> byName m nm' = Some a \<Longrightarrow> nm = nm'"
  shows "walk_names (\<lambda>name0 first s. (True, case s of None \<Rightarrow> None | Some m \<Rightarrow> remove_at name0 m)) b nms (Some m)
    = (True, Some (rem_names nms m))"
  using assms
proof (induction nms arbitrary: m b)
  case Nil
  then show ?case by (simp add: rem_names_def)
next
  case (Cons nm nms)
  obtain a where a: "byName m nm = Some a" using Cons.prems(2) by auto
  define m1 where "m1 = (let m1 = upd_node a (\<lambda>n. n\<lparr>refCount := refCount n - 1\<rparr>) m
     in if refCount (node m1 a) = 0 then m1\<lparr>byName := (byName m1)(nm := None)\<rparr> else m1)"
  have r: "remove_at nm m = Some m1" by (simp add: remove_at_def a m1_def Let_def)
  have bn: "byName m1 x = (if x = nm \<and> refCount (node m a) = 1 then None else byName m x)" for x
    by (simp add: m1_def Let_def upd_node_def)
  have nd: "node m1 x = (if x = a then (node m a)\<lparr>refCount := refCount (node m a) - 1\<rparr> else node m x)" for x
    by (simp add: m1_def Let_def upd_node_def)
  have rest: "byToken m1 = byToken m" "gen m1 = gen m" "byExpiry m1 = byExpiry m" "nextNode m1 = nextNode m"
    by (simp_all add: m1_def Let_def upd_node_def)
  have nin: "nm \<notin> set nms" using Cons.prems(1) by simp
  have other: "byName m x = Some a \<longleftrightarrow> x = nm" for x using Cons.prems(3)[of x a nm] a by auto
  have "walk_names (\<lambda>name0 first s. (True, case s of None \<Rightarrow> None | Some m \<Rightarrow> remove_at name0 m)) False nms (Some m1)
      = (True, Some (rem_names nms m1))"
  proof (rule Cons.IH)
    show "distinct nms" using Cons.prems(1) by simp
    show "\<forall>x \<in> set nms. byName m1 x \<noteq> None" using Cons.prems(2) nin by (auto simp: bn)
    show "x = x'" if "byName m1 x = Some c" "byName m1 x' = Some c" for x x' c
      using that Cons.prems(3) by (auto simp: bn split: if_splits)
  qed
  moreover have "rem_names nms m1 = rem_names (nm # nms) m"
  proof -
    have 1: "byName (rem_names nms m1) x = byName (rem_names (nm # nms) m) x" for x
    proof (cases "x = nm")
      case True
      then show ?thesis using nin a by (simp add: rem_names_def bn)
    next
      case False
      have "refCount (node m1 c) = refCount (node m c)" if "byName m x = Some c" for c
        using that other[of x] False by (auto simp: nd)
      then show ?thesis using False by (auto simp: rem_names_def bn)
    qed
    have 2: "node (rem_names nms m1) c = node (rem_names (nm # nms) m) c" for c
    proof -
      have "(\<exists>x \<in> set nms. byName m1 x = Some c) \<longleftrightarrow> (\<exists>x \<in> set nms. byName m x = Some c)"
        using nin by (auto simp: bn)
      moreover have "(\<exists>x \<in> set nms. byName m x = Some a) = False" by (simp add: other nin)
      moreover have "byName m nm = Some c \<longleftrightarrow> c = a" using a by auto
      ultimately show ?thesis by (cases "c = a") (simp_all add: rem_names_def nd)
    qed
    show ?thesis
      by (rule memLS.equality) (simp_all add: fun_eq_iff 1 2 rem_names_simps rest)
  qed
  ultimately show ?case using r by simp
qed

text \<open>A held lock keeps its token, its node and the mark while other operations run.\<close>

definition keeps :: "memLS \<Rightarrow> memLS \<Rightarrow> bool" where
  "keeps m m' \<longleftrightarrow> (\<forall>t a. byToken m t = Some a \<longrightarrow> held (node m a) \<longrightarrow>
     byToken m' t = Some a \<and> held (node m' a))"

lemma keeps_refl: "keeps m m"
  by (simp add: keeps_def)

lemma keeps_trans: "keeps m m1 \<Longrightarrow> keeps m1 m2 \<Longrightarrow> keeps m m2"
  unfolding keeps_def by blast

lemma remove_lock:
  assumes inv: "linv m" and a: "a \<in> locked_nodes m" and h: "\<not> held (node m a)"
  obtains m' where "memLS_remove a m = Some m'" "linv m'"
    "abs_locks m' = (abs_locks m)(token (node m a) := None)"
    "set (byExpiry m') = set (byExpiry m) - {a}" "gen m' = gen m" "keeps m m'"
proof -
  note I = linvD[OF inv] and A = lockedD[OF inv a]
  let ?cs = "croot m a" and ?t = "token (node m a)"
  define m2 where "m2 = upd_node a (\<lambda>n. n\<lparr>token := ''''\<rparr>) (m\<lparr>byToken := (byToken m)(?t := None)\<rparr>)"
  have m2: "byName m2 = byName m" "byToken m2 = (byToken m)(?t := None)" "gen m2 = gen m"
    "byExpiry m2 = byExpiry m" "nextNode m2 = nextNode m"
    "node m2 = (node m)(a := (node m a)\<lparr>token := ''''\<rparr>)" by (simp_all add: m2_def upd_node_def)
  have fields: "details (node m2 b) = details (node m b)" "refCount (node m2 b) = refCount (node m b)"
    "expiry (node m2 b) = expiry (node m b)" "held (node m2 b) = held (node m b)"
    "byExpiryIndex (node m2 b) = byExpiryIndex (node m b)" for b by (simp_all add: m2)
  define m3 where "m3 = rem_names (ups ?cs) m2"
  have present: "\<forall>nm \<in> set (ups ?cs). byName m2 nm \<noteq> None"
  proof
    fix nm assume "nm \<in> set (ups ?cs)"
    then obtain ds where ds: "normal_comps ds" "nm = mk_abs ds" "prefix ds ?cs" using ups_normal[OF A(4)] by blast
    then have "a \<in> refset m ds" using a by (simp add: refset_def)
    then show "byName m2 nm \<noteq> None"
      using I(3)[unfolded inv_refs_def, rule_format, OF ds(1)] ds by (auto simp: m2 split: option.splits)
  qed
  have "walk_names (\<lambda>name0 first s. (True, case s of None \<Rightarrow> None | Some m \<Rightarrow> remove_at name0 m)) True
      (ups ?cs) (Some m2) = (True, Some m3)"
    unfolding m3_def using ups_distinct[OF A(4)] present inv_names_inj[OF I(1)]
    by (intro walk_remove) (auto simp: m2)
  then have rm: "memLS_remove a m = Some (let i = byExpiryIndex (node m3 a)
      in if i \<ge> 0 then bx_heap_Remove (nat i) m3 else m3)"
    unfolding memLS_remove_def Let_def m2_def[symmetric]
    by (simp add: fields A(6) walkToRoot_ups[OF A(4)])
  note R = rem_names_simps[of "ups ?cs" m2, folded m3_def]
  have tok: "byToken m t = Some b \<Longrightarrow> token (node m b) = t" for t b using I(2) by (simp add: inv_tokens_def)
  have loc3: "locked_nodes m3 = locked_nodes m - {a}"
  proof (rule set_eqI)
    fix b
    have "b \<in> locked_nodes m3 \<longleftrightarrow> (\<exists>t. t \<noteq> ?t \<and> byToken m t = Some b)"
      by (auto simp: locked_nodes_def R m2)
    also have "\<dots> \<longleftrightarrow> b \<in> locked_nodes m \<and> b \<noteq> a"
    proof
      assume "\<exists>t. t \<noteq> ?t \<and> byToken m t = Some b"
      then obtain t where t: "t \<noteq> ?t" "byToken m t = Some b" by blast
      then have "b \<noteq> a" using tok[OF t(2)] by blast
      then show "b \<in> locked_nodes m \<and> b \<noteq> a" using t(2) by (auto simp: locked_nodes_def)
    next
      assume b: "b \<in> locked_nodes m \<and> b \<noteq> a"
      then obtain t where t: "byToken m t = Some b" by (auto simp: locked_nodes_def)
      then have "t \<noteq> ?t" using A(1) b by (metis option.inject)
      then show "\<exists>t. t \<noteq> ?t \<and> byToken m t = Some b" using t by blast
    qed
    finally show "b \<in> locked_nodes m3 \<longleftrightarrow> b \<in> locked_nodes m - {a}" by simp
  qed
  have cr3: "croot m3 = croot m" by (simp add: croot_def R fields fun_eq_iff)
  have rs3: "refset m3 ds = refset m ds - {a}" for ds by (auto simp: refset_def loc3 cr3)
  have fin: "finite (refset m ds)" for ds
    using locked_finite[OF I(2)] by (rule rev_finite_subset) (auto simp: refset_def)
  have bn3: "byName m3 nm = (if nm \<in> set (ups ?cs) \<and> (\<exists>b. byName m nm = Some b \<and> refCount (node m b) = 1)
      then None else byName m nm)" for nm
    by (auto simp: m3_def rem_names_def m2(1) fields)
  have rc3: "refCount (node m3 b) = (if \<exists>nm \<in> set (ups ?cs). byName m nm = Some b
      then refCount (node m b) - 1 else refCount (node m b))" for b
    by (simp add: m3_def rem_names_def m2(1) fields)
  have refs: "byName m (mk_abs ds) = Some b \<Longrightarrow> normal_comps ds \<Longrightarrow>
      refset m ds \<noteq> {} \<and> refCount (node m b) = int (card (refset m ds))" for ds b
    using I(3) by (auto simp: inv_refs_def)
  have n3: "inv_names m3"
    using I(1) by (auto simp: inv_names_def bn3 R fields m2(5) split: if_splits)
  have t3: "inv_tokens m3"
    unfolding inv_tokens_def
  proof (intro conjI allI impI)
    show "finite (dom (byToken m3))" using I(2) by (simp add: inv_tokens_def R m2)
  next
    fix t b assume "byToken m3 t = Some b"
    then have tb: "byToken m t = Some b" "t \<noteq> ?t" by (auto simp: R m2 split: if_splits)
    then have ba: "b \<noteq> a" using tok by blast
    have B: "t \<noteq> ''''" "token (node m b) = t" "byName m (Root (details (node m b))) = Some b"
      "\<exists>k \<le> unat (gen m). t = nat_dec k" using I(2) tb(1) by (auto simp: inv_tokens_def)
    have bl: "b \<in> locked_nodes m" using tb(1) by (auto simp: locked_nodes_def)
    note BL = lockedD[OF inv bl]
    show "t \<noteq> ''''" by (rule B(1))
    show "token (node m3 b) = t" using B(2) ba by (simp add: R m2)
    show "\<exists>k \<le> unat (gen m3). t = nat_dec k" using B(4) by (simp add: R m2)
    have "\<not> (mk_abs (croot m b) \<in> set (ups ?cs) \<and> refCount (node m b) = 1)"
    proof
      assume c: "mk_abs (croot m b) \<in> set (ups ?cs) \<and> refCount (node m b) = 1"
      then have "prefix (croot m b) ?cs" using ups_set[OF A(4) BL(4)] by simp
      then have "{a, b} \<subseteq> refset m (croot m b)" using a bl by (simp add: refset_def)
      then have "card {a, b} \<le> card (refset m (croot m b))" by (rule card_mono[OF fin])
      moreover have "card (refset m (croot m b)) = 1" using refs[OF BL(3,4)] c by simp
      ultimately show False using ba by simp
    qed
    then show "byName m3 (Root (details (node m3 b))) = Some b"
      using BL(3,6) by (auto simp: bn3 R fields)
  next
    fix nm b assume b: "byName m3 nm = Some b" "b \<notin> locked_nodes m3"
    then have "byName m nm = Some b" by (simp add: bn3 split: if_splits)
    then have "b \<notin> locked_nodes m \<Longrightarrow> token (node m b) = '''' \<and> \<not> held (node m b)"
      using I(2) by (auto simp: inv_tokens_def)
    then show "token (node m3 b) = ''''" "\<not> held (node m3 b)"
      using b(2) h by (auto simp: loc3 R m2)
  qed
  have r3: "inv_refs m3"
    unfolding inv_refs_def
  proof (intro allI impI)
    fix ds assume nd: "normal_comps ds"
    have iff: "a \<in> refset m ds \<longleftrightarrow> mk_abs ds \<in> set (ups ?cs)" using a ups_set[OF A(4) nd] by (simp add: refset_def)
    show "case byName m3 (mk_abs ds) of None \<Rightarrow> refset m3 ds = {}
      | Some b \<Rightarrow> refset m3 ds \<noteq> {} \<and> refCount (node m3 b) = int (card (refset m3 ds))"
    proof (cases "byName m (mk_abs ds)")
      case None
      then have "refset m ds = {}" using I(3) nd by (auto simp: inv_refs_def)
      then show ?thesis using None by (simp add: bn3 rs3)
    next
      case (Some b)
      note rb = refs[OF Some nd]
      have only: "(\<exists>nm \<in> set (ups ?cs). byName m nm = Some b) \<longleftrightarrow> a \<in> refset m ds"
      proof -
        have "byName m nm = Some b \<longleftrightarrow> nm = mk_abs ds" for nm
          using Some inv_names_inj[OF I(1) Some, of nm] by (metis (no_types))
        then show ?thesis using iff by simp
      qed
      show ?thesis
      proof (cases "a \<in> refset m ds")
        case True
        have c: "card (refset m ds - {a}) = card (refset m ds) - 1" "0 < card (refset m ds)"
          using True fin by (auto simp: card_gt_0_iff)
        show ?thesis
        proof (cases "refCount (node m b) = 1")
          case one: True
          then have "card (refset m ds - {a}) = 0" using c rb by simp
          then have "refset m ds - {a} = {}" using fin by (simp add: card_eq_0_iff)
          then show ?thesis using one True iff Some by (simp add: bn3 rs3)
        next
          case False
          then have "card (refset m ds - {a}) \<noteq> 0" using c rb by auto
          then have "refset m ds - {a} \<noteq> {}" by (metis card.empty)
          moreover have "refCount (node m3 b) = int (card (refset m3 ds))"
            using rb True only c by (simp add: rc3 rs3)
          ultimately show ?thesis using False Some by (simp add: bn3 rs3)
        qed
      next
        case False
        then have "refCount (node m3 b) = refCount (node m b)" using only by (simp add: rc3)
        then show ?thesis using rb False iff Some by (simp add: bn3 rs3)
      qed
    qed
  qed
  have f3: "inv_free m3" using I(5) by (auto simp: inv_free_def loc3 cr3 R fields)
  have hp: "bx_ok m" "set (byExpiry m) = {b \<in> locked_nodes m. 0 \<le> Duration (details (node m b)) \<and> \<not> held (node m b)}"
    "\<And>nm b. byName m nm = Some b \<Longrightarrow> b \<notin> set (byExpiry m) \<Longrightarrow> byExpiryIndex (node m b) = -1"
    using I(4) by (auto simp: inv_heap_def)
  have b3: "bx_ok m3" using hp(1) bx_ok_cong[of m3 m] by (simp add: R fields m2(4))
  have ab3: "abs_locks m3 = (abs_locks m)(?t := None)"
  proof -
    have "abs_node (node m3 b) = abs_node (node m b)" for b by (rule abs_node_cong) (simp_all add: R fields)
    then show ?thesis by (simp add: abs_locks_def R m2(2) fun_eq_iff)
  qed
  let ?i = "byExpiryIndex (node m a)"
  define m4 where "m4 = (if ?i \<ge> 0 then bx_heap_Remove (nat ?i) m3 else m3)"
  have m4: "bx_ok m4 \<and> set (byExpiry m4) = set (byExpiry m) - {a} \<and> same_but_index m3 m4
      \<and> (\<forall>b. b \<notin> set (byExpiry m) \<or> b = a \<longrightarrow> byExpiryIndex (node m4 b) = (if b = a then -1 else byExpiryIndex (node m b)))"
  proof (cases "a \<in> set (byExpiry m)")
    case True
    then obtain k where k: "k < length (byExpiry m)" "byExpiry m ! k = a" by (auto simp: in_set_conv_nth)
    then have i: "?i = int k" using hp(1) by (auto simp: bx_ok_def idx_ok_def)
    have k3: "k < length (byExpiry m3)" using k(1) by (simp add: R m2(4))
    note H = bx_heap_Remove[OF b3 k3]
    show ?thesis using H k(2) i by (simp add: m4_def R m2(4) fields)
  next
    case False
    then have "?i = -1" using hp(3) A(3) by blast
    then show ?thesis using b3 False by (simp add: m4_def R m2(4) fields)
  qed
  note V = same_index_views[of m3 m4] and D = same_but_indexD[of m3 m4]
  have inv4: "inv_heap m4"
    unfolding inv_heap_def
  proof (intro conjI allI impI)
    show "bx_ok m4" using m4 by blast
    show "set (byExpiry m4) = {b \<in> locked_nodes m4. 0 \<le> Duration (details (node m4 b)) \<and> \<not> held (node m4 b)}"
      using m4 V(1) D(5,9) hp(2) loc3 by (auto simp: R fields)
    fix nm b assume b: "byName m4 nm = Some b" "b \<notin> set (byExpiry m4)"
    then have "byName m3 nm = Some b" using m4 D(1) by simp
    then have "byName m nm = Some b" by (simp add: bn3 split: if_splits)
    moreover have "b \<notin> set (byExpiry m) \<or> b = a" using m4 b(2) by auto
    ultimately show "byExpiryIndex (node m4 b) = -1" using m4 hp(3) by auto
  qed
  have "linv m4" using V(4,5,6,7) m4 n3 t3 r3 f3 inv4 by (intro linvI) simp_all
  moreover have "memLS_remove a m = Some m4" using rm by (simp add: m4_def Let_def R fields)
  moreover have "abs_locks m4 = (abs_locks m)(?t := None)" using V(8) m4 ab3 by simp
  moreover have "gen m4 = gen m" using D(3) m4 by (simp add: R m2)
  moreover have "keeps m m4"
    unfolding keeps_def
  proof (intro allI impI)
    fix t b assume b: "byToken m t = Some b" "held (node m b)"
    then have "t \<noteq> ?t" "b \<noteq> a" using A(1) h by auto
    then show "byToken m4 t = Some b \<and> held (node m4 b)"
      using b same_but_indexD(2,9)[of m3 m4] m4 by (simp add: R m2 fields)
  qed
  ultimately show thesis using that m4 by blast
qed


section \<open>Creating a lock\<close>

text \<open>What the walk of \<open>create\<close> leaves behind, for every name of the walk and every other one.\<close>

definition new_node :: "string \<Rightarrow> memLSNode" where
  "new_node nm = \<lparr>details = \<lparr>Root = nm, Duration = 0, OwnerXML = '''', ZeroDepth = False\<rparr>,
     token = '''', refCount = 0, expiry = 0, byExpiryIndex = -1, held = False\<rparr>"

definition created :: "string list \<Rightarrow> memLS \<Rightarrow> memLS \<Rightarrow> bool" where
  "created nms m m' \<longleftrightarrow> byToken m' = byToken m \<and> gen m' = gen m \<and> byExpiry m' = byExpiry m
     \<and> nextNode m \<le> nextNode m'
     \<and> (\<forall>nm. nm \<notin> set nms \<longrightarrow> byName m' nm = byName m nm)
     \<and> (\<forall>nm \<in> set nms. case byName m nm of
            Some a \<Rightarrow> byName m' nm = Some a \<and> node m' a = (node m a)\<lparr>refCount := refCount (node m a) + 1\<rparr>
          | None \<Rightarrow> \<exists>a. byName m' nm = Some a \<and> nextNode m \<le> a \<and> a < nextNode m'
              \<and> node m' a = (new_node nm)\<lparr>refCount := 1\<rparr>)
     \<and> (\<forall>a < nextNode m. (\<forall>nm \<in> set nms. byName m nm \<noteq> Some a) \<longrightarrow> node m' a = node m a)"

lemma createdI:
  assumes "byToken m' = byToken m" "gen m' = gen m" "byExpiry m' = byExpiry m" "nextNode m \<le> nextNode m'"
    and "\<And>nm. nm \<notin> set nms \<Longrightarrow> byName m' nm = byName m nm"
    and "\<And>nm a. nm \<in> set nms \<Longrightarrow> byName m nm = Some a \<Longrightarrow>
       byName m' nm = Some a \<and> node m' a = (node m a)\<lparr>refCount := refCount (node m a) + 1\<rparr>"
    and "\<And>nm. nm \<in> set nms \<Longrightarrow> byName m nm = None \<Longrightarrow>
       \<exists>a. byName m' nm = Some a \<and> nextNode m \<le> a \<and> a < nextNode m' \<and> node m' a = (new_node nm)\<lparr>refCount := 1\<rparr>"
    and "\<And>a. a < nextNode m \<Longrightarrow> \<forall>nm \<in> set nms. byName m nm \<noteq> Some a \<Longrightarrow> node m' a = node m a"
  shows "created nms m m'"
  using assms unfolding created_def by (simp split: option.split)

lemma createdD:
  assumes "created nms m m'"
  shows "byToken m' = byToken m" "gen m' = gen m" "byExpiry m' = byExpiry m" "nextNode m \<le> nextNode m'"
    "nm \<notin> set nms \<Longrightarrow> byName m' nm = byName m nm"
    "nm \<in> set nms \<Longrightarrow> byName m nm = Some a \<Longrightarrow> byName m' nm = Some a"
    "nm \<in> set nms \<Longrightarrow> byName m nm = Some a \<Longrightarrow> node m' a = (node m a)\<lparr>refCount := refCount (node m a) + 1\<rparr>"
    "nm \<in> set nms \<Longrightarrow> byName m nm = None \<Longrightarrow>
       \<exists>a. byName m' nm = Some a \<and> nextNode m \<le> a \<and> a < nextNode m' \<and> node m' a = (new_node nm)\<lparr>refCount := 1\<rparr>"
    "a < nextNode m \<Longrightarrow> \<forall>nm \<in> set nms. byName m nm \<noteq> Some a \<Longrightarrow> node m' a = node m a"
  using assms unfolding created_def by (auto dest!: bspec)

definition fresh_ok :: "memLS \<Rightarrow> bool" where
  "fresh_ok m \<longleftrightarrow> (\<forall>nm a. byName m nm = Some a \<longrightarrow> a < nextNode m)
     \<and> (\<forall>nm nm' a. byName m nm = Some a \<longrightarrow> byName m nm' = Some a \<longrightarrow> nm = nm')"

lemma create_at_step:
  assumes "fresh_ok m"
  shows "fresh_ok (create_at nm m)" "created [nm] m (create_at nm m)"
proof -
  have lt: "byName m x = Some a \<Longrightarrow> a < nextNode m" for x a using assms by (simp add: fresh_ok_def)
  have inj: "byName m x = Some a \<Longrightarrow> byName m y = Some a \<Longrightarrow> x = y" for x y a
    using assms unfolding fresh_ok_def by blast
  show "fresh_ok (create_at nm m)"
  proof (cases "byName m nm")
    case None
    have ne: "byName m x \<noteq> Some (nextNode m)" for x using lt by blast
    show ?thesis unfolding fresh_ok_def create_at_def None
      using lt inj ne by (auto simp: Let_def upd_node_def less_Suc_eq)
  next
    case (Some a)
    then show ?thesis using assms by (simp add: create_at_def upd_node_def fresh_ok_def)
  qed
  show "created [nm] m (create_at nm m)"
  proof (cases "byName m nm")
    case None
    then show ?thesis
      by (intro createdI) (auto simp: create_at_def Let_def upd_node_def new_node_def)
  next
    case (Some a)
    then show ?thesis by (intro createdI) (auto simp: create_at_def upd_node_def)
  qed
qed

lemma created_Cons:
  assumes f: "fresh_ok m" "fresh_ok m1" and n: "nm \<notin> set nms" and c: "created [nm] m m1" "created nms m1 m2"
  shows "created (nm # nms) m m2"
proof (rule createdI)
  note C = createdD[OF c(1)] and E = createdD[OF c(2)]
  have inj: "byName m x = Some a \<Longrightarrow> byName m y = Some a \<Longrightarrow> x = y" for x y a
    using f(1) unfolding fresh_ok_def by blast
  have inj1: "byName m1 x = Some a \<Longrightarrow> byName m1 y = Some a \<Longrightarrow> x = y" for x y a
    using f(2) unfolding fresh_ok_def by blast
  have lt: "byName m x = Some a \<Longrightarrow> a < nextNode m" for x a using f(1) by (simp add: fresh_ok_def)
  have lt1: "byName m1 x = Some a \<Longrightarrow> a < nextNode m1" for x a using f(2) by (simp add: fresh_ok_def)
  show "byToken m2 = byToken m" "gen m2 = gen m" "byExpiry m2 = byExpiry m" "nextNode m \<le> nextNode m2"
    using C(1-4) E(1-4) by simp_all
  have keep: "node m2 a = node m1 a" if "byName m1 nm = Some a" for a
    using E(9)[OF lt1[OF that]] inj1[OF that] n by (metis)
  show "byName m2 x = byName m x" if "x \<notin> set (nm # nms)" for x
    using that C(5)[of x] E(5)[of x] by simp
  show "byName m2 x = Some a \<and> node m2 a = (node m a)\<lparr>refCount := refCount (node m a) + 1\<rparr>"
    if x: "x \<in> set (nm # nms)" "byName m x = Some a" for x a
  proof (cases "x = nm")
    case True
    then have "byName m1 nm = Some a" "node m1 a = (node m a)\<lparr>refCount := refCount (node m a) + 1\<rparr>"
      using C(6,7)[of nm a] x(2) by simp_all
    then show ?thesis using keep E(5)[OF n] True by simp
  next
    case False
    then have xs: "x \<in> set nms" using x(1) by simp
    have b: "byName m1 x = Some a" using C(5)[of x] False x(2) by simp
    have "byName m nm \<noteq> Some a" using inj[OF x(2), of nm] False by blast
    then have "node m1 a = node m a" using C(9)[OF lt[OF x(2)]] by simp
    then show ?thesis using E(6,7)[OF xs b] by simp
  qed
  show "\<exists>a. byName m2 x = Some a \<and> nextNode m \<le> a \<and> a < nextNode m2 \<and> node m2 a = (new_node x)\<lparr>refCount := 1\<rparr>"
    if x: "x \<in> set (nm # nms)" "byName m x = None" for x
  proof (cases "x = nm")
    case True
    then obtain a where a: "byName m1 nm = Some a" "nextNode m \<le> a" "a < nextNode m1"
      "node m1 a = (new_node nm)\<lparr>refCount := 1\<rparr>" using C(8)[of nm] x(2) by auto
    then show ?thesis using keep[OF a(1)] E(4) E(5)[OF n] True by (intro exI[of _ a]) simp
  next
    case False
    then have "x \<in> set nms" "byName m1 x = None" using x C(5)[of x] by simp_all
    then show ?thesis using E(8) C(4) by (meson le_trans)
  qed
  show "node m2 a = node m a" if a: "a < nextNode m" "\<forall>x \<in> set (nm # nms). byName m x \<noteq> Some a" for a
  proof -
    have 1: "node m1 a = node m a" using C(9)[OF a(1)] a(2) by simp
    have "byName m1 x \<noteq> Some a" if "x \<in> set nms" for x
      using C(5)[of x] that n a(2) by (cases "x = nm") auto
    then have "node m2 a = node m1 a" using E(9)[of a] a(1) C(4) by simp
    then show ?thesis using 1 by simp
  qed
qed

lemma walk_create:
  assumes "distinct nms" "fresh_ok m"
  shows "\<exists>m'. walk_names (\<lambda>name0 first (m, ret).
      let m' = create_at name0 m in (True, m', if first then byName m' name0 else ret)) b nms (m, r)
      = (True, m', if b \<and> nms \<noteq> [] then byName (create_at (hd nms) m) (hd nms) else r)
    \<and> created nms m m' \<and> fresh_ok m'"
  using assms
proof (induction nms arbitrary: m b r)
  case Nil
  then show ?case by (auto intro!: createdI)
next
  case (Cons nm nms)
  let ?m1 = "create_at nm m"
  note S = create_at_step[OF Cons.prems(2), of nm]
  have d: "distinct nms" "nm \<notin> set nms" using Cons.prems(1) by simp_all
  from Cons.IH[OF d(1) S(1), of False "if b then byName ?m1 nm else r"]
  obtain m' where m': "walk_names (\<lambda>name0 first (m, ret).
      let m' = create_at name0 m in (True, m', if first then byName m' name0 else ret)) False nms
      (?m1, if b then byName ?m1 nm else r) = (True, m', if b then byName ?m1 nm else r)"
    "created nms ?m1 m'" "fresh_ok m'" by auto
  have "created (nm # nms) m m'" by (rule created_Cons[OF Cons.prems(2) S(1) d(2) S(2) m'(2)])
  then show ?case using m' by (intro exI[of _ m']) (simp add: Let_def)
qed

lemma fresh_ok_names: "inv_names m \<Longrightarrow> fresh_ok m"
  using inv_namesD(1) inv_names_inj unfolding fresh_ok_def by blast

lemma memLS_create_created:
  assumes "inv_names m" "normal_comps cs"
  obtains m' a where "memLS_create (mk_abs cs) m = Some (m', a)" "created (ups cs) m m'" "fresh_ok m'"
    "byName m' (mk_abs cs) = Some a"
proof -
  have hd: "hd (ups cs) = mk_abs cs" "ups cs \<noteq> []" "mk_abs cs \<in> set (ups cs)" by (subst ups_hd, simp)+
  obtain m' where m': "walk_names (\<lambda>name0 first (m, ret).
      let m' = create_at name0 m in (True, m', if first then byName m' name0 else ret)) True (ups cs) (m, None)
      = (True, m', byName (create_at (mk_abs cs) m) (mk_abs cs))" "created (ups cs) m m'" "fresh_ok m'"
    using walk_create[OF ups_distinct[OF assms(2)] fresh_ok_names[OF assms(1)], of True None] hd by auto
  have c1: "created [mk_abs cs] m (create_at (mk_abs cs) m)"
    by (rule create_at_step(2)[OF fresh_ok_names[OF assms(1)]])
  show thesis
  proof (cases "byName m (mk_abs cs)")
    case (Some a)
    then have "byName (create_at (mk_abs cs) m) (mk_abs cs) = Some a" using createdD(6)[OF c1] by simp
    moreover have "byName m' (mk_abs cs) = Some a" using createdD(6)[OF m'(2) hd(3) Some] .
    ultimately show ?thesis using that m' by (simp add: memLS_create_def walkToRoot_ups[OF assms(2)])
  next
    case None
    have a: "byName (create_at (mk_abs cs) m) (mk_abs cs) = Some (nextNode m)"
      using None by (simp add: create_at_def Let_def upd_node_def)
    have "walk_names (\<lambda>name0 first (m, ret).
      let m' = create_at name0 m in (True, m', if first then byName m' name0 else ret)) True (ups cs) (m, None)
      = walk_names (\<lambda>name0 first (m, ret).
      let m' = create_at name0 m in (True, m', if first then byName m' name0 else ret)) False (tl (ups cs))
       (create_at (mk_abs cs) m, Some (nextNode m))"
      using hd a by (cases "ups cs") (simp_all add: Let_def)
    moreover have dt: "distinct (tl (ups cs))" "mk_abs cs \<notin> set (tl (ups cs))"
      using ups_distinct[OF assms(2)] hd by (cases "ups cs"; simp)+
    note walk_create[OF dt(1) create_at_step(1)[OF fresh_ok_names[OF assms(1)], of "mk_abs cs"], of False "Some (nextNode m)"]
    ultimately have "created (tl (ups cs)) (create_at (mk_abs cs) m) m'" using m'(1) by auto
    then have "byName m' (mk_abs cs) = Some (nextNode m)" using createdD(5)[OF _ dt(2)] a by simp
    then show ?thesis using that m' a by (simp add: memLS_create_def walkToRoot_ups[OF assms(2)])
  qed
qed


lemma created_fields:
  assumes "fresh_ok m" "created nms m m1" "b < nextNode m"
  shows "details (node m1 b) = details (node m b)" "token (node m1 b) = token (node m b)"
    "expiry (node m1 b) = expiry (node m b)" "held (node m1 b) = held (node m b)"
    "byExpiryIndex (node m1 b) = byExpiryIndex (node m b)"
    "refCount (node m1 b) = (if \<exists>nm \<in> set nms. byName m nm = Some b then refCount (node m b) + 1
       else refCount (node m b))"
proof -
  have "node m1 b = (if \<exists>nm \<in> set nms. byName m nm = Some b
      then (node m b)\<lparr>refCount := refCount (node m b) + 1\<rparr> else node m b)"
    using createdD(7,9)[OF assms(2)] assms(3) by auto
  then show "details (node m1 b) = details (node m b)" "token (node m1 b) = token (node m b)"
    "expiry (node m1 b) = expiry (node m b)" "held (node m1 b) = held (node m b)"
    "byExpiryIndex (node m1 b) = byExpiryIndex (node m b)"
    "refCount (node m1 b) = (if \<exists>nm \<in> set nms. byName m nm = Some b then refCount (node m b) + 1
       else refCount (node m b))" by simp_all
qed

lemma refset_names:
  assumes "linv m" "normal_comps ds" "byName m (mk_abs ds) = Some b"
  shows "refset m ds \<noteq> {}" "refCount (node m b) = int (card (refset m ds))"
  using linvD(3)[OF assms(1)] assms(2,3) by (auto simp: inv_refs_def)

lemma refset_none: "linv m \<Longrightarrow> normal_comps ds \<Longrightarrow> byName m (mk_abs ds) = None \<Longrightarrow> refset m ds = {}"
  using linvD(3)[of m] unfolding inv_refs_def by (metis (mono_tags, lifting) option.simps(4))

lemma refset_finite: "linv m \<Longrightarrow> finite (refset m ds)"
  using locked_finite[OF linvD(2)] by (rule rev_finite_subset) (auto simp: refset_def)

end
