(* ===== verification/Webdav_Lock_Refine.thy ===== *)
theory Webdav_Lock_Refine imports Webdav_Lock_Spec begin

text \<open>
  The operations of the lock system implement the abstract ones: \<open>Create\<close>, \<open>Refresh\<close>, \<open>Unlock\<close>,
  \<open>Confirm\<close> and its release function, the sweep of expired locks included.
\<close>

section \<open>Adding a lock to the nodes\<close>

definition add_lock :: "nat \<Rightarrow> string \<Rightarrow> LockDetails \<Rightarrow> int \<Rightarrow> memLS \<Rightarrow> memLS" where
  "add_lock a t d e m =
     upd_node a (\<lambda>n. n\<lparr>token := t, details := d, expiry := e\<rparr>) (m\<lparr>byToken := (byToken m)(t := Some a)\<rparr>)"

lemma add_lock_simps:
  "byName (add_lock a t d e m) = byName m" "byToken (add_lock a t d e m) = (byToken m)(t := Some a)"
  "gen (add_lock a t d e m) = gen m" "byExpiry (add_lock a t d e m) = byExpiry m"
  "nextNode (add_lock a t d e m) = nextNode m"
  "node (add_lock a t d e m) = (node m)(a := (node m a)\<lparr>token := t, details := d, expiry := e\<rparr>)"
  by (simp_all add: add_lock_def upd_node_def)

text \<open>The state between the walk of \<open>create\<close> and the push.\<close>

lemma add_lock_inv:
  assumes inv: "linv m" and n: "normal_comps cs" and free: "\<not> a_conflict (abs_locks m) cs (ZeroDepth d)"
    and d: "Root d = mk_abs cs" and g: "g = gen m + 1" "unat (gen m) < 2 ^ 64 - 1"
    and cr: "created (ups cs) m m1" "fresh_ok m1" "byName m1 (mk_abs cs) = Some a"
    and m2_def: "m2 = add_lock a (nat_dec (unat g)) d e (m1\<lparr>gen := g\<rparr>)"
  shows "inv_names m2" "inv_tokens m2" "inv_refs m2" "inv_free m2" "a \<notin> locked_nodes m"
    "locked_nodes m2 = insert a (locked_nodes m)" "bx_ok m2" "a \<notin> set (byExpiry m)" "byExpiry m2 = byExpiry m"
    "abs_locks m2 = (abs_locks m)(nat_dec (unat g) := Some (abs_node (node m2 a)))"
    "\<And>b. b \<in> locked_nodes m \<Longrightarrow> details (node m2 b) = details (node m b) \<and> held (node m2 b) = held (node m b)"
    "\<not> held (node m2 a)" "nat_dec (unat g) \<notin> dom (byToken m)"
    "\<And>nm b. byName m2 nm = Some b \<Longrightarrow> b \<notin> set (byExpiry m) \<Longrightarrow> byExpiryIndex (node m2 b) = -1"
proof -
  note I = linvD[OF inv] and C = createdD[OF cr(1)]
  let ?t = "nat_dec (unat g)" and ?U = "set (ups cs)"
  have fo: "fresh_ok m" by (rule fresh_ok_names[OF I(1)])
  note F = created_fields[OF fo cr(1)]
  have csU: "mk_abs cs \<in> ?U" using ups_set[OF n n] by simp
  have inj1: "byName m1 x = Some b \<Longrightarrow> byName m1 y = Some b \<Longrightarrow> x = y" for x y b
    using cr(2) unfolding fresh_ok_def by blast
  have lt: "byName m x = Some b \<Longrightarrow> b < nextNode m" for x b using inv_namesD(1)[OF I(1)] .
  have gu: "unat g = Suc (unat (gen m))"
    using g by (simp add: unat_word_ariths(1))
  have tn: "?t \<noteq> ''''" by simp
  have tf: "byToken m ?t = None"
  proof (rule ccontr)
    assume "byToken m ?t \<noteq> None"
    then obtain b where "byToken m ?t = Some b" by blast
    then obtain k where "k \<le> unat (gen m)" "?t = nat_dec k" using inv_tokensD(4)[OF I(2)] by blast
    then show False using nat_dec_inj gu by fastforce
  qed
  then show "nat_dec (unat g) \<notin> dom (byToken m)" by auto
  have conf: False if "b \<in> locked_nodes m" "a_covers (croot m b) (ZeroDepth (details (node m b))) cs
      \<or> a_covers cs (ZeroDepth d) (croot m b)" for b
  proof -
    have "abs_locks m (token (node m b)) = Some (abs_node (node m b))"
      using lockedD(1)[OF inv that(1)] by (simp add: abs_locks_def)
    moreover have "aRoot (abs_node (node m b)) = croot m b" "aDetails (abs_node (node m b)) = details (node m b)"
      by (simp_all add: abs_node_def croot_def)
    ultimately show False using free that(2) unfolding a_conflict_def by metis
  qed
  have a_old: "a < nextNode m \<Longrightarrow> byName m (mk_abs cs) = Some a"
    using C(6,8)[OF csU] cr(3) by (cases "byName m (mk_abs cs)") fastforce+
  show aL: "a \<notin> locked_nodes m"
  proof
    assume aL: "a \<in> locked_nodes m"
    have "byName m (mk_abs cs) = Some a" using a_old lockedD(5)[OF inv aL] by simp
    then have "mk_abs cs = mk_abs (croot m a)" using inv_namesD(4)[OF I(1)] by blast
    then have "croot m a = cs" using mk_abs_inject n lockedD(4)[OF inv aL] by metis
    then show False using conf[OF aL] by (simp add: a_covers_def)
  qed
  have anew: "token (node m1 a) = '''' \<and> \<not> held (node m1 a) \<and> (a \<notin> set (byExpiry m) \<longrightarrow> byExpiryIndex (node m1 a) = -1)"
  proof (cases "byName m (mk_abs cs)")
    case None
    then obtain b where "byName m1 (mk_abs cs) = Some b" "node m1 b = (new_node (mk_abs cs))\<lparr>refCount := 1\<rparr>"
      using C(8)[OF csU] by blast
    then show ?thesis using cr(3) by (simp add: new_node_def)
  next
    case (Some b)
    then have b: "b = a" using C(6)[OF csU] cr(3) by simp
    then have "token (node m a) = '''' \<and> \<not> held (node m a)" using I(2) Some aL by (auto simp: inv_tokens_def)
    moreover have "a \<notin> set (byExpiry m) \<longrightarrow> byExpiryIndex (node m a) = -1"
      using I(4) Some b by (auto simp: inv_heap_def)
    ultimately show ?thesis using F[OF lt[OF Some]] b by simp
  qed
  have hp: "bx_ok m" "set (byExpiry m) = {b \<in> locked_nodes m. 0 \<le> Duration (details (node m b)) \<and> \<not> held (node m b)}"
    using I(4) by (auto simp: inv_heap_def)
  show aE: "a \<notin> set (byExpiry m)" using hp(2) aL by simp
  note S = add_lock_simps[of a ?t d e "m1\<lparr>gen := g\<rparr>", folded m2_def]
  have Lb: "b < nextNode m \<and> b \<noteq> a" if "b \<in> locked_nodes m" for b
    using lockedD(5)[OF inv that] aL that by auto
  show be: "byExpiry m2 = byExpiry m" by (simp add: S C(3))
  have bn: "byName m2 = byName m1" by (simp add: S)
  have nd: "b \<noteq> a \<Longrightarrow> node m2 b = node m1 b" for b by (simp add: S)
  have na: "node m2 a = (node m1 a)\<lparr>token := ?t, details := d, expiry := e\<rparr>" by (simp add: S)
  show loc: "locked_nodes m2 = insert a (locked_nodes m)"
  proof (rule set_eqI)
    fix b
    have "(\<exists>t. ((byToken m)(?t := Some a)) t = Some b) \<longleftrightarrow> b = a \<or> (\<exists>t. byToken m t = Some b)"
      using tf by (metis fun_upd_apply option.inject option.distinct(1))
    then show "b \<in> locked_nodes m2 \<longleftrightarrow> b \<in> insert a (locked_nodes m)"
      by (simp add: locked_nodes_def S(2) C(1))
  qed
  have old: "details (node m2 b) = details (node m b)" "held (node m2 b) = held (node m b)"
    "expiry (node m2 b) = expiry (node m b)" "byExpiryIndex (node m2 b) = byExpiryIndex (node m b)"
    "token (node m2 b) = token (node m b)" if "b < nextNode m" "b \<noteq> a" for b
    using F[OF that(1)] nd[OF that(2)] by simp_all
  show "\<And>b. b \<in> locked_nodes m \<Longrightarrow> details (node m2 b) = details (node m b) \<and> held (node m2 b) = held (node m b)"
    using old Lb by blast
  show "\<not> held (node m2 a)" using anew by (simp add: na)
  have cra: "croot m2 a = cs" using d n by (simp add: croot_def na)
  have crb: "croot m2 b = croot m b" if "b \<in> locked_nodes m" for b
    using old(1) Lb[OF that] by (simp add: croot_def)
  have rs: "refset m2 ds = (if prefix ds cs then insert a (refset m ds) else refset m ds)" for ds
    using cra crb aL by (auto simp: refset_def loc)
  have ra: "a \<notin> refset m ds" for ds using aL by (simp add: refset_def)
  have name_cases: "(nm \<notin> ?U \<and> byName m nm = Some b) \<or> (nm \<in> ?U \<and> byName m nm = Some b)
      \<or> (nm \<in> ?U \<and> byName m nm = None \<and> node m1 b = (new_node nm)\<lparr>refCount := 1\<rparr> \<and> b < nextNode m1)"
    if h: "byName m1 nm = Some b" for nm b
  proof (cases "nm \<in> ?U")
    case True
    then show ?thesis using C(6,8)[OF True] h by (cases "byName m nm") auto
  next
    case False
    then show ?thesis using C(5) h by simp
  qed
  show "inv_names m2"
    unfolding inv_names_def
  proof (intro allI impI)
    fix nm b assume "byName m2 nm = Some b"
    then have h: "byName m1 nm = Some b" by (simp add: bn)
    have an: "b = a \<Longrightarrow> nm = mk_abs cs" using inj1 h cr(3) by blast
    have b_lt: "b < nextNode m2" using cr(2) h by (simp add: fresh_ok_def S)
    have old': "Root (details (node m1 b)) = nm \<and> (\<exists>cs. normal_comps cs \<and> nm = mk_abs cs)" if "byName m nm = Some b"
      using inv_namesD[OF I(1) that] F(1)[OF lt[OF that]] by auto
    have "Root (details (node m1 b)) = nm \<and> (\<exists>cs. normal_comps cs \<and> nm = mk_abs cs)"
      using name_cases[OF h] old' ups_normal[OF n, of nm] by (auto simp: new_node_def)
    then have "Root (details (node m2 b)) = nm \<and> (\<exists>cs. normal_comps cs \<and> nm = mk_abs cs)"
      using an d by (cases "b = a") (simp_all add: na nd)
    then show "b < nextNode m2 \<and> Root (details (node m2 b)) = nm \<and> (\<exists>cs. normal_comps cs \<and> nm = mk_abs cs)"
      using b_lt by blast
  qed
  have keepn: "byName m1 nm = Some b" if "byName m nm = Some b" for nm b
    using C(5)[of nm] C(6)[of nm b] that by (cases "nm \<in> ?U") auto
  show "inv_tokens m2"
    unfolding inv_tokens_def
  proof (intro conjI allI impI)
    show "finite (dom (byToken m2))" using I(2) by (simp add: inv_tokens_def S C(1))
  next
    fix t b assume tb: "byToken m2 t = Some b"
    have gm: "gen m2 = g" by (simp add: S)
    have "t \<noteq> '''' \<and> token (node m2 b) = t \<and> byName m2 (Root (details (node m2 b))) = Some b
        \<and> (\<exists>k \<le> unat (gen m2). t = nat_dec k)"
    proof (cases "t = ?t")
      case True
      then have "b = a" using tb by (simp add: S)
      then show ?thesis using True tn cr(3) by (auto simp: na d bn gm)
    next
      case False
      then have tm: "byToken m t = Some b" using tb by (simp add: S C(1))
      then have bL: "b \<in> locked_nodes m" by (auto simp: locked_nodes_def)
      note B = inv_tokensD[OF I(2) tm]
      have "\<exists>k \<le> unat g. t = nat_dec k" using B(4) gu le_SucI by metis
      then show ?thesis using B(1-3) Lb[OF bL] old keepn by (simp add: bn gm)
    qed
    then show "t \<noteq> ''''" "token (node m2 b) = t" "byName m2 (Root (details (node m2 b))) = Some b"
      "\<exists>k \<le> unat (gen m2). t = nat_dec k" by simp_all
  next
    fix nm b assume h: "byName m2 nm = Some b" "b \<notin> locked_nodes m2"
    have ba: "b \<noteq> a" "b \<notin> locked_nodes m" using h(2) loc by auto
    have oldb: "token (node m2 b) = '''' \<and> \<not> held (node m2 b)" if "byName m nm = Some b"
      using I(2) that ba old[OF lt[OF that]] by (auto simp: inv_tokens_def)
    have "token (node m2 b) = '''' \<and> \<not> held (node m2 b)"
      using name_cases[of nm b] h(1) oldb nd[OF ba(1)] by (auto simp: bn new_node_def)
    then show "token (node m2 b) = ''''" "\<not> held (node m2 b)" by simp_all
  qed
  have rc2: "refCount (node m2 b) = refCount (node m1 b)" for b by (cases "b = a") (simp_all add: na nd)
  show "inv_refs m2"
    unfolding inv_refs_def
  proof (intro allI impI)
    fix ds assume nds: "normal_comps ds"
    have U: "mk_abs ds \<in> ?U \<longleftrightarrow> prefix ds cs" by (rule ups_set[OF n nds])
    show "case byName m2 (mk_abs ds) of None \<Rightarrow> refset m2 ds = {}
      | Some b \<Rightarrow> refset m2 ds \<noteq> {} \<and> refCount (node m2 b) = int (card (refset m2 ds))"
    proof (cases "byName m (mk_abs ds)")
      case None
      have e: "refset m ds = {}" by (rule refset_none[OF inv nds None])
      show ?thesis
      proof (cases "prefix ds cs")
        case True
        then obtain b where "byName m1 (mk_abs ds) = Some b" "refCount (node m1 b) = 1"
          using C(8)[of "mk_abs ds"] U None by auto
        then show ?thesis using True e by (simp add: bn rs rc2)
      next
        case False
        then show ?thesis using C(5)[of "mk_abs ds"] U None e by (simp add: bn rs)
      qed
    next
      case (Some b)
      note R = refset_names[OF inv nds Some]
      have only: "(\<exists>nm \<in> ?U. byName m nm = Some b) \<longleftrightarrow> prefix ds cs"
      proof -
        have "byName m nm = Some b \<longleftrightarrow> nm = mk_abs ds" for nm
          using Some inv_names_inj[OF I(1) Some, of nm] by (metis (no_types))
        then show ?thesis using U by simp
      qed
      have rb: "refCount (node m2 b) = (if prefix ds cs then refCount (node m b) + 1 else refCount (node m b))"
        using F(6)[OF lt[OF Some]] only rc2 by simp
      show ?thesis using keepn[OF Some] R ra[of ds] refset_finite[OF inv, of ds] rb by (simp add: bn rs)
    qed
  qed
  show "inv_free m2"
    unfolding inv_free_def loc
  proof (intro ballI impI)
    fix x y assume xy: "x \<in> insert a (locked_nodes m)" "y \<in> insert a (locked_nodes m)" "x \<noteq> y"
      "prefix (croot m2 x) (croot m2 y)"
    show "ZeroDepth (details (node m2 x))"
    proof (cases "x = a")
      case True
      then have "y \<in> locked_nodes m" using xy by simp
      then show ?thesis using conf[of y] xy(4) True cra crb by (auto simp: a_covers_def na)
    next
      case False
      then have x: "x \<in> locked_nodes m" using xy(1) by simp
      have zx: "details (node m2 x) = details (node m x)" using old(1) Lb[OF x] by blast
      show ?thesis
      proof (cases "y = a")
        case True
        then show ?thesis using conf[OF x] xy(4) cra crb[OF x] zx by (auto simp: a_covers_def)
      next
        case ya: False
        then have y: "y \<in> locked_nodes m" using xy(2) by simp
        then show ?thesis using I(5) x xy(3,4) crb[OF x] crb[OF y] zx by (auto simp: inv_free_def)
      qed
    qed
  qed
  have eb: "b < nextNode m \<and> b \<noteq> a" if "b \<in> set (byExpiry m)" for b using that hp(2) Lb by auto
  show "bx_ok m2" using hp(1) bx_ok_cong[of m2 m] be old eb by auto
  show "abs_locks m2 = (abs_locks m)(?t := Some (abs_node (node m2 a)))"
  proof
    fix t show "abs_locks m2 t = ((abs_locks m)(?t := Some (abs_node (node m2 a)))) t"
    proof (cases "t = ?t \<or> byToken m t = None")
      case True
      then show ?thesis by (auto simp: abs_locks_def S C(1))
    next
      case False
      then obtain b where b: "byToken m t = Some b" by auto
      then have "b \<in> locked_nodes m" by (auto simp: locked_nodes_def)
      then have "abs_node (node m2 b) = abs_node (node m b)" using old Lb by (intro abs_node_cong) auto
      then show ?thesis using False b by (simp add: abs_locks_def S C(1))
    qed
  qed
  show "\<And>nm b. byName m2 nm = Some b \<Longrightarrow> b \<notin> set (byExpiry m) \<Longrightarrow> byExpiryIndex (node m2 b) = -1"
  proof -
    fix nm b assume h: "byName m2 nm = Some b" "b \<notin> set (byExpiry m)"
    show "byExpiryIndex (node m2 b) = -1"
    proof (cases "b = a")
      case True
      then show ?thesis using anew aE by (simp add: na)
    next
      case False
      have "byExpiryIndex (node m2 b) = -1" if "byName m nm = Some b"
        using I(4) that h(2) old[OF lt[OF that] False] by (auto simp: inv_heap_def)
      then show ?thesis using name_cases[of nm b] h(1) nd[OF False] by (auto simp: bn new_node_def)
    qed
  qed
qed


section \<open>Changing a lock in place\<close>

definition relocked :: "nat \<Rightarrow> memLS \<Rightarrow> memLS \<Rightarrow> bool" where
  "relocked a m m2 \<longleftrightarrow> byName m2 = byName m \<and> byToken m2 = byToken m \<and> gen m2 = gen m \<and> nextNode m2 = nextNode m
     \<and> (\<forall>b. token (node m2 b) = token (node m b) \<and> refCount (node m2 b) = refCount (node m b)
          \<and> Root (details (node m2 b)) = Root (details (node m b))
          \<and> ZeroDepth (details (node m2 b)) = ZeroDepth (details (node m b)))
     \<and> (\<forall>b. b \<noteq> a \<longrightarrow> details (node m2 b) = details (node m b) \<and> held (node m2 b) = held (node m b)
          \<and> expiry (node m2 b) = expiry (node m b))"

lemma relocked_index: "relocked a m m1 \<Longrightarrow> same_but_index m1 m2 \<Longrightarrow> relocked a m m2"
  by (simp add: relocked_def same_but_indexD[of m1 m2])

lemma relocked_inv:
  assumes inv: "linv m" and a: "a \<in> locked_nodes m" and r: "relocked a m m2"
    and hp: "bx_ok m2" "set (byExpiry m2) =
        (if 0 \<le> Duration (details (node m2 a)) \<and> \<not> held (node m2 a) then insert a (set (byExpiry m))
         else set (byExpiry m) - {a})"
      "\<And>nm b. byName m nm = Some b \<Longrightarrow> b \<notin> set (byExpiry m2) \<Longrightarrow> byExpiryIndex (node m2 b) = -1"
  shows "linv m2" "abs_locks m2 = (abs_locks m)(token (node m a) := Some (abs_node (node m2 a)))"
    "locked_nodes m2 = locked_nodes m"
proof -
  note I = linvD[OF inv] and A = lockedD[OF inv a]
  have R: "byName m2 = byName m" "byToken m2 = byToken m" "gen m2 = gen m" "nextNode m2 = nextNode m"
    "token (node m2 b) = token (node m b)" "refCount (node m2 b) = refCount (node m b)"
    "Root (details (node m2 b)) = Root (details (node m b))"
    "ZeroDepth (details (node m2 b)) = ZeroDepth (details (node m b))" for b
    using r by (simp_all add: relocked_def)
  have O: "details (node m2 b) = details (node m b)" "held (node m2 b) = held (node m b)"
    "expiry (node m2 b) = expiry (node m b)" if "b \<noteq> a" for b using r that by (simp_all add: relocked_def)
  show loc: "locked_nodes m2 = locked_nodes m" by (simp add: locked_nodes_def R)
  have cr: "croot m2 = croot m" by (simp add: croot_def R fun_eq_iff)
  have rs: "refset m2 = refset m" by (simp add: refset_def loc cr fun_eq_iff)
  have h1: "inv_names m2" using I(1) by (simp add: inv_names_def R)
  have "held (node m2 b) = held (node m b)" if "b \<notin> locked_nodes m" for b using O that a by metis
  then have h2: "inv_tokens m2" using I(2) by (simp add: inv_tokens_def R loc)
  have h3: "inv_refs m2" using I(3) unfolding inv_refs_def R rs .
  have h4: "inv_free m2" using I(5) by (simp add: inv_free_def loc cr R)
  have old: "set (byExpiry m) = {b \<in> locked_nodes m. 0 \<le> Duration (details (node m b)) \<and> \<not> held (node m b)}"
    using I(4) by (simp add: inv_heap_def)
  have "b \<in> set (byExpiry m2) \<longleftrightarrow> b \<in> locked_nodes m \<and> 0 \<le> Duration (details (node m2 b)) \<and> \<not> held (node m2 b)" for b
    using hp(2) old O[of b] a by (cases "b = a") auto
  then have "set (byExpiry m2) = {b \<in> locked_nodes m2. 0 \<le> Duration (details (node m2 b)) \<and> \<not> held (node m2 b)}"
    by (auto simp: loc)
  then have "inv_heap m2" using hp(1,3) by (simp add: inv_heap_def R)
  then show "linv m2" using h1 h2 h3 h4 by (intro linvI)
  show "abs_locks m2 = (abs_locks m)(token (node m a) := Some (abs_node (node m2 a)))"
  proof
    fix t show "abs_locks m2 t = ((abs_locks m)(token (node m a) := Some (abs_node (node m2 a)))) t"
    proof (cases "t = token (node m a)")
      case True
      then show ?thesis using A(1) by (simp add: abs_locks_def R)
    next
      case False
      have "abs_node (node m2 b) = abs_node (node m b)" if "byToken m t = Some b" for b
      proof -
        have "b \<noteq> a" using inv_tokensD(2)[OF I(2) that] False by blast
        then show ?thesis using O by (intro abs_node_cong) auto
      qed
      then show ?thesis using False by (cases "byToken m t") (simp_all add: abs_locks_def R)
    qed
  qed
qed

lemma in_heap_iff:
  assumes "linv m" "a \<in> locked_nodes m"
  shows "a \<in> set (byExpiry m) \<longleftrightarrow> 0 \<le> Duration (details (node m a)) \<and> \<not> held (node m a)"
    "0 \<le> byExpiryIndex (node m a) \<longleftrightarrow> a \<in> set (byExpiry m)"
proof -
  have hp: "bx_ok m" "set (byExpiry m) = {b \<in> locked_nodes m. 0 \<le> Duration (details (node m b)) \<and> \<not> held (node m b)}"
    "\<And>nm b. byName m nm = Some b \<Longrightarrow> b \<notin> set (byExpiry m) \<Longrightarrow> byExpiryIndex (node m b) = -1"
    using linvD(4)[OF assms(1)] by (auto simp: inv_heap_def)
  show "a \<in> set (byExpiry m) \<longleftrightarrow> 0 \<le> Duration (details (node m a)) \<and> \<not> held (node m a)"
    using hp(2) assms(2) by simp
  have "0 \<le> byExpiryIndex (node m a)" if "a \<in> set (byExpiry m)"
    using that hp(1) by (auto simp: in_set_conv_nth bx_ok_def idx_ok_def)
  then show "0 \<le> byExpiryIndex (node m a) \<longleftrightarrow> a \<in> set (byExpiry m)"
    using hp(3)[OF lockedD(3)[OF assms]] by (cases "a \<in> set (byExpiry m)") simp_all
qed

text \<open>Taking a node out of the heap by its index.\<close>

lemma heap_out:
  assumes "bx_ok m1" "a \<in> set (byExpiry m1) \<or> byExpiryIndex (node m1 a) = -1"
  defines "m' \<equiv> (if byExpiryIndex (node m1 a) \<ge> 0 then bx_heap_Remove (nat (byExpiryIndex (node m1 a))) m1 else m1)"
  shows "bx_ok m'" "set (byExpiry m') = set (byExpiry m1) - {a}" "same_but_index m1 m'"
    "byExpiryIndex (node m' a) = -1" "b \<notin> set (byExpiry m1) \<Longrightarrow> node m' b = node m1 b"
proof -
  have "bx_ok m' \<and> set (byExpiry m') = set (byExpiry m1) - {a} \<and> same_but_index m1 m'
    \<and> byExpiryIndex (node m' a) = -1 \<and> (\<forall>b. b \<notin> set (byExpiry m1) \<longrightarrow> node m' b = node m1 b)"
  proof (cases "a \<in> set (byExpiry m1)")
    case True
    then obtain k where k: "k < length (byExpiry m1)" "byExpiry m1 ! k = a" by (auto simp: in_set_conv_nth)
    then have i: "byExpiryIndex (node m1 a) = int k" using assms(1) by (auto simp: bx_ok_def idx_ok_def)
    show ?thesis using bx_heap_Remove[OF assms(1) k(1)] k(2) i by (simp add: m'_def)
  next
    case False
    then show ?thesis using assms(1,2) by (simp add: m'_def)
  qed
  then show "bx_ok m'" "set (byExpiry m') = set (byExpiry m1) - {a}" "same_but_index m1 m'"
    "byExpiryIndex (node m' a) = -1" "b \<notin> set (byExpiry m1) \<Longrightarrow> node m' b = node m1 b" by blast+
qed

lemma heap_bx_ok: "linv m \<Longrightarrow> bx_ok m"
  using linvD(4) by (simp add: inv_heap_def)

lemma heap_index_out: "linv m \<Longrightarrow> byName m nm = Some b \<Longrightarrow> b \<notin> set (byExpiry m) \<Longrightarrow> byExpiryIndex (node m b) = -1"
  using linvD(4) by (auto simp: inv_heap_def)

section \<open>Hold and release\<close>

lemma hold_lock:
  assumes inv: "linv m" and a: "a \<in> locked_nodes m" and h: "\<not> held (node m a)"
  obtains m' where "hold a m = Some m'" "linv m'" "locked_nodes m' = locked_nodes m" "gen m' = gen m"
    "abs_locks m' = (abs_locks m)(token (node m a) := Some ((abs_node (node m a))\<lparr>aHeld := True\<rparr>))"
    "byToken m' = byToken m" "\<And>b. token (node m' b) = token (node m b)" "\<And>b. b \<noteq> a \<Longrightarrow> held (node m' b) = held (node m b)"
    "held (node m' a)" "\<And>b. details (node m' b) = details (node m b)" "\<And>b. expiry (node m' b) = expiry (node m b)"
proof -
  define m1 where "m1 = upd_node a (\<lambda>n. n\<lparr>held := True\<rparr>) m"
  have m1: "byName m1 = byName m" "byToken m1 = byToken m" "gen m1 = gen m" "nextNode m1 = nextNode m"
    "byExpiry m1 = byExpiry m" "node m1 = (node m)(a := (node m a)\<lparr>held := True\<rparr>)"
    by (simp_all add: m1_def upd_node_def)
  note H = in_heap_iff[OF inv a] and N = lockedD(3)[OF inv a]
  have f: "details (node m1 b) = details (node m b)" "byExpiryIndex (node m1 b) = byExpiryIndex (node m b)"
    "expiry (node m1 b) = expiry (node m b)" "token (node m1 b) = token (node m b)" for b by (simp_all add: m1)
  have ok1: "bx_ok m1" using heap_bx_ok[OF inv] bx_ok_cong[of m1 m] by (simp add: m1(5) f)
  have out: "a \<in> set (byExpiry m1) \<or> byExpiryIndex (node m1 a) = -1"
    using heap_index_out[OF inv N] by (auto simp: m1(5) f)
  define m' where "m' = (if byExpiryIndex (node m1 a) \<ge> 0 then bx_heap_Remove (nat (byExpiryIndex (node m1 a))) m1 else m1)"
  note O = heap_out[OF ok1 out, folded m'_def] and D = same_but_indexD[of m1 m']
  have "hold a m = Some m'"
    using h H by (auto simp: hold_def m1_def[symmetric] Let_def m'_def f)
  moreover have r: "relocked a m m'"
    by (rule relocked_index[OF _ O(3)]) (simp add: relocked_def m1)
  have idx: "byExpiryIndex (node m' b) = -1" if "byName m nm = Some b" "b \<notin> set (byExpiry m')" for nm b
    using O(2,4) O(5)[of b] that heap_index_out[OF inv that(1)] by (cases "b = a") (auto simp: m1(5) f)
  have hd: "held (node m' a)" "\<And>b. b \<noteq> a \<Longrightarrow> held (node m' b) = held (node m b)" "\<And>b. details (node m' b) = details (node m b)"
    "\<And>b. expiry (node m' b) = expiry (node m b)" "\<And>b. token (node m' b) = token (node m b)"
    "gen m' = gen m" "byToken m' = byToken m"
    using D[OF O(3)] by (simp_all add: m1)
  have st: "set (byExpiry m') = (if 0 \<le> Duration (details (node m' a)) \<and> \<not> held (node m' a)
      then insert a (set (byExpiry m)) else set (byExpiry m) - {a})"
    using hd(1) O(2) m1(5) by simp
  note V = relocked_inv[OF inv a r O(1) st idx]
  have "abs_node (node m' a) = (abs_node (node m a))\<lparr>aHeld := True\<rparr>" using hd by (simp add: abs_node_def)
  then show thesis using that[OF \<open>hold a m = Some m'\<close> V(1,3) hd(6)] V(2) hd by simp
qed

lemma unhold_lock:
  assumes inv: "linv m" and a: "a \<in> locked_nodes m" and h: "held (node m a)"
  obtains m' where "unhold a m = Some m'" "linv m'" "locked_nodes m' = locked_nodes m" "gen m' = gen m"
    "abs_locks m' = (abs_locks m)(token (node m a) := Some ((abs_node (node m a))\<lparr>aHeld := False\<rparr>))"
    "\<And>b. b \<noteq> a \<Longrightarrow> held (node m' b) = held (node m b)" "\<And>b. token (node m' b) = token (node m b)"
proof -
  define m1 where "m1 = upd_node a (\<lambda>n. n\<lparr>held := False\<rparr>) m"
  have m1: "byName m1 = byName m" "byToken m1 = byToken m" "gen m1 = gen m" "nextNode m1 = nextNode m"
    "byExpiry m1 = byExpiry m" "node m1 = (node m)(a := (node m a)\<lparr>held := False\<rparr>)"
    by (simp_all add: m1_def upd_node_def)
  have f: "details (node m1 b) = details (node m b)" "byExpiryIndex (node m1 b) = byExpiryIndex (node m b)"
    "expiry (node m1 b) = expiry (node m b)" "token (node m1 b) = token (node m b)" for b by (simp_all add: m1)
  have ok1: "bx_ok m1" using heap_bx_ok[OF inv] bx_ok_cong[of m1 m] by (simp add: m1(5) f)
  have na: "a \<notin> set (byExpiry m)" using in_heap_iff(1)[OF inv a] h by simp
  then have na1: "a \<notin> set (byExpiry m1)" by (simp add: m1(5))
  define m' where "m' = (if Duration (details (node m a)) \<ge> 0 then bx_heap_Push a m1 else m1)"
  note P = bx_heap_Push[OF ok1 na1]
  have s: "same_but_index m1 m'" "bx_ok m'" using P ok1 by (simp_all add: m'_def)
  note D = same_but_indexD[OF s(1)]
  have u: "unhold a m = Some m'" using h by (simp add: unhold_def m1_def[symmetric] Let_def m'_def f)
  have r: "relocked a m m'" by (rule relocked_index[OF _ s(1)]) (simp add: relocked_def m1)
  have hd: "\<not> held (node m' a)" "\<And>b. b \<noteq> a \<Longrightarrow> held (node m' b) = held (node m b)"
    "\<And>b. details (node m' b) = details (node m b)" "\<And>b. expiry (node m' b) = expiry (node m b)"
    "\<And>b. token (node m' b) = token (node m b)" "gen m' = gen m"
    by (simp_all add: D m1)
  have st: "set (byExpiry m') = (if 0 \<le> Duration (details (node m' a)) \<and> \<not> held (node m' a)
      then insert a (set (byExpiry m)) else set (byExpiry m) - {a})"
    using hd(1,3) P(2) na m1(5) by (simp add: m'_def)
  have idx: "byExpiryIndex (node m' b) = -1" if "byName m nm = Some b" "b \<notin> set (byExpiry m')" for nm b
    using that heap_index_out[OF inv that(1)] P(2) P(4)[of b] na m1(5) f(2)[of b]
    by (cases "0 \<le> Duration (details (node m a))") (auto simp: m'_def)
  note V = relocked_inv[OF inv a r s(2) st idx]
  have "abs_node (node m' a) = (abs_node (node m a))\<lparr>aHeld := False\<rparr>" using hd by (simp add: abs_node_def)
  then show thesis using that[OF u V(1,3) hd(6)] V(2) hd by simp
qed

section \<open>The sweep of expired locks\<close>

lemma due_iff:
  assumes "linv m" "byToken m t = Some a"
  shows "a_due now (abs_node (node m a)) \<longleftrightarrow> a \<in> set (byExpiry m) \<and> expiry (node m a) \<le> now"
proof -
  have "a \<in> locked_nodes m" using assms(2) by (auto simp: locked_nodes_def)
  then show ?thesis using in_heap_iff(1)[OF assms(1)] by (auto simp: a_due_iff abs_node_def)
qed

lemma expire_id:
  assumes "linv m" "\<forall>a \<in> set (byExpiry m). now < expiry (node m a)"
  shows "a_expire now (abs_locks m) = abs_locks m"
proof
  fix t show "a_expire now (abs_locks m) t = abs_locks m t"
    using due_iff[OF assms(1), of t] assms(2)
    by (cases "byToken m t") (auto simp: a_expire_def abs_locks_def)
qed

lemma collect_spec:
  "linv m \<Longrightarrow> \<exists>m'. collectExpiredNodes now m = Some m' \<and> linv m' \<and> abs_locks m' = a_expire now (abs_locks m)
     \<and> gen m' = gen m \<and> keeps m m'"
proof (induction "card (set (byExpiry m))" arbitrary: m rule: less_induct)
  case less
  show ?case
  proof (cases "byExpiry m = [] \<or> now < expiry (node m (byExpiry m ! 0))")
    case True
    have "\<forall>a \<in> set (byExpiry m). now < expiry (node m a)"
      using True bx_head_first[OF heap_bx_ok[OF less.prems]] by fastforce
    then have "a_expire now (abs_locks m) = abs_locks m" by (rule expire_id[OF less.prems])
    moreover have "collectExpiredNodes now m = Some m" using True by (subst collectExpiredNodes.simps) auto
    ultimately show ?thesis using less.prems keeps_refl by simp
  next
    case False
    let ?a = "byExpiry m ! 0"
    have aE: "?a \<in> set (byExpiry m)" using False by simp
    have aL: "?a \<in> locked_nodes m" "\<not> held (node m ?a)"
      using aE linvD(4)[OF less.prems] by (auto simp: inv_heap_def)
    note A = lockedD[OF less.prems aL(1)]
    obtain m1 where m1: "memLS_remove ?a m = Some m1" "linv m1"
      "abs_locks m1 = (abs_locks m)(token (node m ?a) := None)" "set (byExpiry m1) = set (byExpiry m) - {?a}"
      "gen m1 = gen m" "keeps m m1" by (rule remove_lock[OF less.prems aL])
    have "card (set (byExpiry m1)) < card (set (byExpiry m))"
      unfolding m1(4) using aE by (intro psubset_card_mono) auto
    then obtain m' where m': "collectExpiredNodes now m1 = Some m'" "linv m'"
      "abs_locks m' = a_expire now (abs_locks m1)" "gen m' = gen m1" "keeps m1 m'" using less.hyps m1(2) by blast
    have "a_due now (abs_node (node m ?a))" using due_iff[OF less.prems A(1)] aE False by simp
    then have "a_expire now (abs_locks m1) = a_expire now (abs_locks m)"
      using A(1) by (auto simp: m1(3) a_expire_def fun_eq_iff abs_locks_def)
    moreover have "collectExpiredNodes now m = Some m'"
      using False m1(1) m'(1) by (subst collectExpiredNodes.simps) auto
    ultimately show ?thesis using m' m1(5) keeps_trans[OF m1(6) m'(5)] by simp
  qed
qed


section \<open>The abstract operations\<close>

type_synonym areleases = "string set"

definition a_create :: "int \<Rightarrow> LockDetails \<Rightarrow> string \<Rightarrow> alocks \<Rightarrow> alocks \<times> (lock_error + string)" where
  "a_create now d t S =
     (let S = a_expire now S; r = comps_of (slashClean (Root d))
      in if a_conflict S r (ZeroDepth d) then (S, Inl ErrLocked)
         else (S(t := Some \<lparr>aRoot = r, aDetails = d\<lparr>Root := slashClean (Root d)\<rparr>,
                 aExpiry = (if Duration d \<ge> 0 then Some (now + Duration d) else None), aHeld = False\<rparr>), Inr t))"

definition a_unlock :: "int \<Rightarrow> string \<Rightarrow> alocks \<Rightarrow> alocks \<times> lock_error option" where
  "a_unlock now t S =
     (let S = a_expire now S
      in case S t of None \<Rightarrow> (S, Some ErrNoSuchLock)
         | Some l \<Rightarrow> if aHeld l then (S, Some ErrLocked) else (S(t := None), None))"

definition a_refresh :: "int \<Rightarrow> string \<Rightarrow> int \<Rightarrow> alocks \<Rightarrow> alocks \<times> (lock_error + LockDetails)" where
  "a_refresh now t dur S =
     (let S = a_expire now S
      in case S t of None \<Rightarrow> (S, Inl ErrNoSuchLock)
         | Some l \<Rightarrow> if aHeld l then (S, Inl ErrLocked)
             else (let d = (aDetails l)\<lparr>Duration := dur\<rparr>
                   in (S(t := Some (l\<lparr>aDetails := d, aExpiry := (if dur \<ge> 0 then Some (now + dur) else None)\<rparr>)), Inr d)))"

section \<open>Refinement\<close>

lemma slashClean_comps: "normal_comps (comps_of (slashClean p))" "slashClean p = mk_abs (comps_of (slashClean p))"
  using slashClean_normal[of p] by auto

lemma Create_refines:
  assumes inv: "linv m" and g: "unat (gen m) < 2 ^ 64 - 1"
  shows "\<exists>m' res. Create now d m = Some (m', res) \<and> linv m' \<and> keeps m m' \<and> unat (gen m') \<le> Suc (unat (gen m))
    \<and> a_create now d (nat_dec (Suc (unat (gen m)))) (abs_locks m) = (abs_locks m', res)"
proof -
  obtain m0 where c: "collectExpiredNodes now m = Some m0" "linv m0" "abs_locks m0 = a_expire now (abs_locks m)"
    "gen m0 = gen m" "keeps m m0" using collect_spec[OF inv] by blast
  let ?r = "comps_of (slashClean (Root d))" and ?d = "d\<lparr>Root := slashClean (Root d)\<rparr>"
  let ?t = "nat_dec (Suc (unat (gen m)))"
  note S = slashClean_comps[of "Root d"]
  have cc: "canCreate m0 (Root ?d) (ZeroDepth ?d) = Some (\<not> a_conflict (abs_locks m0) ?r (ZeroDepth d))"
    using canCreate_iff[OF c(2) S(1)] S(2) by simp
  show ?thesis
  proof (cases "a_conflict (abs_locks m0) ?r (ZeroDepth d)")
    case True
    then have "Create now d m = Some (m0, Inl ErrLocked)" using c(1) cc by (simp add: Create_def Let_def)
    then show ?thesis using c True by (simp add: a_create_def Let_def)
  next
    case False
    obtain m1 a where m1: "memLS_create (mk_abs ?r) m0 = Some (m1, a)" "created (ups ?r) m0 m1" "fresh_ok m1"
      "byName m1 (mk_abs ?r) = Some a" by (rule memLS_create_created[OF linvD(1)[OF c(2)] S(1)])
    have m1': "memLS_create (Root ?d) m0 = Some (m1, a)" using m1(1) S(2) by simp
    define e where "e = (if Duration d \<ge> 0 then now + Duration d else expiry (node m1 a))"
    define m2 where "m2 = add_lock a (nat_dec (unat (gen m0 + 1))) ?d e (m1\<lparr>gen := gen m0 + 1\<rparr>)"
    have gm: "gen m1 = gen m0" using createdD(2)[OF m1(2)] .
    have gu: "unat (gen m0 + 1) = Suc (unat (gen m))" using g c(4) by (simp add: unat_word_ariths(1))
    have free: "\<not> a_conflict (abs_locks m0) ?r (ZeroDepth ?d)" using False by simp
    have dr: "Root ?d = mk_abs ?r" using S(2) by simp
    have g0: "unat (gen m0) < 2 ^ 64 - 1" using g c(4) by simp
    note V = add_lock_inv[OF c(2) S(1) free dr refl g0 m1(2-4) m2_def]
    define m3 where "m3 = (if Duration d \<ge> 0 then bx_heap_Push a m2 else m2)"
    have "Create now d m = Some (m3, Inr ?t)"
    proof -
      let ?x = "upd_node a (\<lambda>n. n\<lparr>details := ?d\<rparr>)
        ((upd_node a (\<lambda>n. n\<lparr>token := ?t\<rparr>) (m1\<lparr>gen := gen m0 + 1\<rparr>))\<lparr>byToken := (byToken m1)(?t := Some a)\<rparr>)"
      have 1: "upd_node a (\<lambda>n. n\<lparr>expiry := now + Duration d\<rparr>) ?x = m2" if "Duration d \<ge> 0"
        using that by (simp add: m2_def add_lock_def upd_node_def e_def gu)
      have 2: "?x = m2" if "\<not> Duration d \<ge> 0"
        using that by (simp add: m2_def add_lock_def upd_node_def e_def gu)
      have "byToken (upd_node a (\<lambda>n. n\<lparr>token := ?t\<rparr>) (m1\<lparr>gen := gen m0 + 1\<rparr>)) = byToken m1"
        by (simp add: upd_node_def)
      then show ?thesis
        using c(1) cc False m1' 1 2
        by (simp add: Create_def nextToken_def gm gu m3_def Let_def)
    qed
    moreover have na: "details (node m2 a) = ?d" "expiry (node m2 a) = e"
      by (simp_all add: m2_def add_lock_simps)
    have aE2: "a \<notin> set (byExpiry m2)" using V(8,9) by simp
    note P = bx_heap_Push[OF V(7) aE2]
    have s: "same_but_index m2 m3" "bx_ok m3" using P V(7) by (simp_all add: m3_def)
    note D = same_but_indexD[OF s(1)] and W = same_index_views[OF s(1)]
    have old: "set (byExpiry m0) = {b \<in> locked_nodes m0. 0 \<le> Duration (details (node m0 b)) \<and> \<not> held (node m0 b)}"
      using linvD(4)[OF c(2)] by (simp add: inv_heap_def)
    have "inv_heap m3"
      unfolding inv_heap_def
    proof (intro conjI allI impI)
      show "bx_ok m3" by (rule s(2))
      have "b \<in> set (byExpiry m3) \<longleftrightarrow> b \<in> locked_nodes m3 \<and> 0 \<le> Duration (details (node m3 b)) \<and> \<not> held (node m3 b)" for b
      proof (cases "b = a")
        case True
        have "a \<in> set (byExpiry m3) \<longleftrightarrow> 0 \<le> Duration d" using P(2) aE2 by (simp add: m3_def)
        moreover have "details (node m3 a) = ?d" "\<not> held (node m3 a)" using na V(12) by (simp_all add: D)
        ultimately show ?thesis using True V(6) W(1) by simp
      next
        case ba: False
        then have "b \<in> set (byExpiry m3) \<longleftrightarrow> b \<in> set (byExpiry m0)" using P(2) V(9) by (simp add: m3_def)
        also have "\<dots> \<longleftrightarrow> b \<in> locked_nodes m0 \<and> 0 \<le> Duration (details (node m0 b)) \<and> \<not> held (node m0 b)"
          using old by simp
        also have "\<dots> \<longleftrightarrow> b \<in> locked_nodes m0 \<and> 0 \<le> Duration (details (node m3 b)) \<and> \<not> held (node m3 b)"
          using V(11) by (auto simp: D)
        also have "\<dots> \<longleftrightarrow> b \<in> locked_nodes m3 \<and> 0 \<le> Duration (details (node m3 b)) \<and> \<not> held (node m3 b)"
          using V(6) W(1) ba by simp
        finally show ?thesis .
      qed
      then show "set (byExpiry m3) = {b \<in> locked_nodes m3. 0 \<le> Duration (details (node m3 b)) \<and> \<not> held (node m3 b)}"
        by blast
      fix nm b assume b: "byName m3 nm = Some b" "b \<notin> set (byExpiry m3)"
      have "b \<notin> set (byExpiry m0)" using b(2) P(2) V(9) by (auto simp: m3_def split: if_splits)
      then have "byExpiryIndex (node m2 b) = -1" using V(14) b(1) by (auto simp: D)
      moreover have "node m3 b = node m2 b"
        using P(2) P(4)[of b] b(2) by (auto simp: m3_def split: if_splits)
      ultimately show "byExpiryIndex (node m3 b) = -1" by simp
    qed
    then have "linv m3" using V(1-4) W(4-7) by (intro linvI) simp_all
    moreover have "abs_locks m3 = (abs_locks m0)(?t := Some \<lparr>aRoot = ?r, aDetails = ?d,
        aExpiry = (if Duration d \<ge> 0 then Some (now + Duration d) else None), aHeld = False\<rparr>)"
    proof -
      have "abs_node (node m2 a) = \<lparr>aRoot = ?r, aDetails = ?d,
        aExpiry = (if Duration d \<ge> 0 then Some (now + Duration d) else None), aHeld = False\<rparr>"
        using V(12) by (simp add: abs_node_def na e_def)
      then show ?thesis using V(10) W(8) by (simp add: gu)
    qed
    moreover have "gen m3 = gen m0 + 1" by (simp add: D(3) m2_def add_lock_def upd_node_def)
    then have "unat (gen m3) \<le> Suc (unat (gen m))" using gu by simp
    moreover have "keeps m0 m3"
      unfolding keeps_def
    proof (intro allI impI)
      fix t b assume b: "byToken m0 t = Some b" "held (node m0 b)"
      then have "t \<noteq> nat_dec (unat (gen m0 + 1))" using V(13) by auto
      moreover have "held (node m2 b)" using V(11)[of b] b by (auto simp: locked_nodes_def)
      ultimately show "byToken m3 t = Some b \<and> held (node m3 b)"
        using b(1) createdD(1)[OF m1(2)] by (simp add: D m2_def add_lock_def upd_node_def)
    qed
    ultimately show ?thesis using False c(3) keeps_trans[OF c(5)] by (simp add: a_create_def Let_def)
  qed
qed

lemma next_token_unused: "linv m \<Longrightarrow> abs_locks m (nat_dec (Suc (unat (gen m)))) = None"
proof -
  assume i: "linv m"
  have "byToken m (nat_dec (Suc (unat (gen m)))) = None"
  proof (rule ccontr)
    assume "byToken m (nat_dec (Suc (unat (gen m)))) \<noteq> None"
    then obtain k where "k \<le> unat (gen m)" "nat_dec (Suc (unat (gen m))) = nat_dec k"
      using inv_tokensD(4)[OF linvD(2)[OF i]] by blast
    then show False using nat_dec_inj by fastforce
  qed
  then show ?thesis by (simp add: abs_locks_def)
qed

lemma abs_locks_Some: "abs_locks m t = Some l \<longleftrightarrow> (\<exists>a. byToken m t = Some a \<and> l = abs_node (node m a))"
  by (auto simp: abs_locks_def)

lemma Unlock_refines:
  assumes "linv m"
  shows "\<exists>m' res. Unlock now t m = Some (m', res) \<and> linv m' \<and> gen m' = gen m \<and> keeps m m'
    \<and> a_unlock now t (abs_locks m) = (abs_locks m', res)"
proof -
  obtain m0 where c: "collectExpiredNodes now m = Some m0" "linv m0" "abs_locks m0 = a_expire now (abs_locks m)"
    "gen m0 = gen m" "keeps m m0" using collect_spec[OF assms] by blast
  show ?thesis
  proof (cases "byToken m0 t")
    case None
    then show ?thesis using c(1,2,4,5) by (simp add: Unlock_def a_unlock_def c(3)[symmetric] abs_locks_def)
  next
    case (Some a)
    then have aL: "a \<in> locked_nodes m0" by (auto simp: locked_nodes_def)
    have t: "token (node m0 a) = t" using inv_tokensD(2)[OF linvD(2)[OF c(2)] Some] .
    have al: "abs_locks m0 t = Some (abs_node (node m0 a))" using Some by (simp add: abs_locks_def)
    have ah: "aHeld (abs_node (node m0 a)) = held (node m0 a)" by (simp add: abs_node_def)
    show ?thesis
    proof (cases "held (node m0 a)")
      case True
      then show ?thesis using c(1,2,4,5) Some al ah by (simp add: Unlock_def a_unlock_def c(3)[symmetric])
    next
      case False
      obtain m' where "memLS_remove a m0 = Some m'" "linv m'" "abs_locks m' = (abs_locks m0)(token (node m0 a) := None)"
        "gen m' = gen m0" "keeps m0 m'" by (rule remove_lock[OF c(2) aL False])
      then show ?thesis using keeps_trans[OF c(5)] c(1,2,4) Some al ah False t by (simp add: Unlock_def a_unlock_def c(3)[symmetric])
    qed
  qed
qed


lemma Refresh_refines:
  assumes "linv m"
  shows "\<exists>m' res. Refresh now t dur m = Some (m', res) \<and> linv m' \<and> gen m' = gen m \<and> keeps m m'
    \<and> a_refresh now t dur (abs_locks m) = (abs_locks m', res)"
proof -
  obtain m0 where c: "collectExpiredNodes now m = Some m0" "linv m0" "abs_locks m0 = a_expire now (abs_locks m)"
    "gen m0 = gen m" "keeps m m0" using collect_spec[OF assms] by blast
  show ?thesis
  proof (cases "byToken m0 t")
    case None
    then show ?thesis using c(1,2,4,5) by (simp add: Refresh_def a_refresh_def c(3)[symmetric] abs_locks_def)
  next
    case (Some a)
    then have aL: "a \<in> locked_nodes m0" by (auto simp: locked_nodes_def)
    have t: "token (node m0 a) = t" using inv_tokensD(2)[OF linvD(2)[OF c(2)] Some] .
    have al: "abs_locks m0 t = Some (abs_node (node m0 a))" using Some by (simp add: abs_locks_def)
    have ah: "aHeld (abs_node (node m0 a)) = held (node m0 a)" by (simp add: abs_node_def)
    show ?thesis
    proof (cases "held (node m0 a)")
      case True
      then show ?thesis using c(1,2,4,5) Some al ah by (simp add: Refresh_def a_refresh_def c(3)[symmetric])
    next
      case False
      have out: "a \<in> set (byExpiry m0) \<or> byExpiryIndex (node m0 a) = -1"
        using heap_index_out[OF c(2) lockedD(3)[OF c(2) aL]] by blast
      define m1 where "m1 = (if byExpiryIndex (node m0 a) \<ge> 0
        then bx_heap_Remove (nat (byExpiryIndex (node m0 a))) m0 else m0)"
      note O = heap_out[OF heap_bx_ok[OF c(2)] out, folded m1_def]
      note D1 = same_but_indexD[OF O(3)]
      define m2 where "m2 = upd_node a (\<lambda>n. n\<lparr>details := (details n)\<lparr>Duration := dur\<rparr>,
        expiry := (if dur \<ge> 0 then now + dur else expiry n)\<rparr>) m1"
      have m2: "byName m2 = byName m0" "byToken m2 = byToken m0" "gen m2 = gen m0" "nextNode m2 = nextNode m0"
        "byExpiry m2 = byExpiry m1" "\<And>b. b \<noteq> a \<Longrightarrow> node m2 b = node m1 b"
        "node m2 a = (node m1 a)\<lparr>details := (details (node m1 a))\<lparr>Duration := dur\<rparr>,
          expiry := (if dur \<ge> 0 then now + dur else expiry (node m1 a))\<rparr>"
        by (simp_all add: m2_def upd_node_def D1)
      have naE: "a \<notin> set (byExpiry m2)" using O(2) m2(5) by simp
      have e2: "expiry (node m2 b) = expiry (node m1 b) \<and> byExpiryIndex (node m2 b) = byExpiryIndex (node m1 b)"
        if "b \<noteq> a" for b using m2(6)[OF that] by simp
      have ok2: "bx_ok m2" using O(1) bx_ok_cong[OF m2(5)] e2 naE m2(5) by metis
      define m3 where "m3 = (if dur \<ge> 0 then bx_heap_Push a m2 else m2)"
      note P = bx_heap_Push[OF ok2 naE]
      have s: "same_but_index m2 m3" "bx_ok m3" using P ok2 by (simp_all add: m3_def)
      note D = same_but_indexD[OF s(1)]
      have run: "Refresh now t dur m = Some (m3, Inr (details (node m3 a)))"
      proof -
        have "m2 = (if dur \<ge> 0 then upd_node a (\<lambda>n. n\<lparr>expiry := now + dur\<rparr>)
            (upd_node a (\<lambda>n. n\<lparr>details := (details n)\<lparr>Duration := dur\<rparr>\<rparr>) m1)
          else upd_node a (\<lambda>n. n\<lparr>details := (details n)\<lparr>Duration := dur\<rparr>\<rparr>) m1)"
          by (simp add: m2_def upd_node_def)
        then show ?thesis
          using c(1) Some False by (cases "dur \<ge> 0") (simp_all add: Refresh_def Let_def m1_def[symmetric] m3_def)
      qed
      have f: "details (node m2 b) = (if b = a then (details (node m0 a))\<lparr>Duration := dur\<rparr> else details (node m0 b))"
        "token (node m2 b) = token (node m0 b)" "refCount (node m2 b) = refCount (node m0 b)"
        "held (node m2 b) = held (node m0 b)" for b
        using m2(6)[of b] m2(7) by (cases "b = a"; simp add: D1)+
      have "relocked a m0 m2" using m2(6) by (simp add: relocked_def m2(1-4) f D1)
      then have r: "relocked a m0 m3" using relocked_index s(1) by blast
      have hd: "details (node m3 a) = (details (node m0 a))\<lparr>Duration := dur\<rparr>" "\<not> held (node m3 a)"
        using False by (simp_all add: D f)
      have st: "set (byExpiry m3) = (if 0 \<le> Duration (details (node m3 a)) \<and> \<not> held (node m3 a)
          then insert a (set (byExpiry m0)) else set (byExpiry m0) - {a})"
        using hd P(2) O(2) m2(5) by (auto simp: m3_def)
      have idx: "byExpiryIndex (node m3 b) = -1" if b: "byName m0 nm = Some b" "b \<notin> set (byExpiry m3)" for nm b
      proof -
        have b3: "node m3 b = node m2 b" using b(2) P(2) P(4)[of b] by (auto simp: m3_def split: if_splits)
        show ?thesis
        proof (cases "b = a")
          case True
          then show ?thesis using b3 m2(7) O(4) by simp
        next
          case ba: False
          then have "b \<notin> set (byExpiry m0)" using st b(2) by (auto split: if_splits)
          then show ?thesis using b3 m2(6)[OF ba] O(5)[of b] heap_index_out[OF c(2) b(1)] by simp
        qed
      qed
      note V = relocked_inv[OF c(2) aL r s(2) st idx]
      have "abs_node (node m3 a) = (abs_node (node m0 a))\<lparr>aDetails := (details (node m0 a))\<lparr>Duration := dur\<rparr>,
          aExpiry := (if dur \<ge> 0 then Some (now + dur) else None)\<rparr>"
        using hd False m2(7) by (simp add: abs_node_def D f)
      moreover have "aDetails (abs_node (node m0 a)) = details (node m0 a)" by (simp add: abs_node_def)
      ultimately have ab: "a_refresh now t dur (abs_locks m) = (abs_locks m3, Inr (details (node m3 a)))"
        using al ah False V(2) t hd(1) by (simp add: a_refresh_def c(3)[symmetric] Let_def)
      have "keeps m0 m3" using False by (auto simp: keeps_def D f m2(2))
      then show ?thesis using ab run V(1) D(3) m2(3) c(4) keeps_trans[OF c(5)] by simp
    qed
  qed
qed

end
