(* ===== verification/Webdav_Locks.thy ===== *)
theory Webdav_Locks imports Webdav_Lock_Refine begin

text \<open>
  \<open>Confirm\<close> and the release function against the abstract locks, the reachable states of the lock
  system under any interleaving of requests and sweeps, and what the WebDAV handlers may rely on.
\<close>

section \<open>Confirm\<close>

fun a_lookup :: "alocks \<Rightarrow> string list \<Rightarrow> Condition list \<Rightarrow> string option" where
  "a_lookup S cs [] = None"
| "a_lookup S cs (c # conds) =
     (case S (Token c) of
        None \<Rightarrow> a_lookup S cs conds
      | Some l \<Rightarrow> if \<not> aHeld l \<and> a_covers (aRoot l) (ZeroDepth (aDetails l)) cs then Some (Token c)
                 else a_lookup S cs conds)"

definition a_hold :: "bool \<Rightarrow> string option \<Rightarrow> alocks \<Rightarrow> alocks" where
  "a_hold h t S = (case t of None \<Rightarrow> S | Some t \<Rightarrow> S(t := map_option (\<lambda>l. l\<lparr>aHeld := h\<rparr>) (S t)))"

definition a_find :: "string \<Rightarrow> Condition list \<Rightarrow> alocks \<Rightarrow> string option" where
  "a_find name conds S = (if name = '''' then None else a_lookup S (comps_of (slashClean name)) conds)"

definition a_confirm :: "int \<Rightarrow> string \<Rightarrow> string \<Rightarrow> Condition list \<Rightarrow> alocks \<Rightarrow>
    alocks \<times> (lock_error + string option \<times> string option)" where
  "a_confirm now name0 name1 conds S =
     (let S = a_expire now S; t0 = a_find name0 conds S; t1 = a_find name1 conds S
      in if name0 \<noteq> '''' \<and> t0 = None \<or> name1 \<noteq> '''' \<and> t1 = None then (S, Inl ErrConfirmationFailed)
         else (let t1 = (if t1 = t0 then None else t1)
               in (a_hold True t1 (a_hold True t0 S), Inr (t0, t1))))"

lemma a_lookup_Some:
  "a_lookup S cs conds = Some t \<Longrightarrow>
     \<exists>l. S t = Some l \<and> \<not> aHeld l \<and> a_covers (aRoot l) (ZeroDepth (aDetails l)) cs \<and> t \<in> Token ` set conds"
  by (induction conds) (auto split: option.splits if_splits)

lemma lookup_covers:
  assumes "linv m" "byToken m t = Some a" "normal_comps cs"
  shows "mk_abs cs = Root (details (node m a)) \<or>
      \<not> ZeroDepth (details (node m a)) \<and>
      (Root (details (node m a)) = ''/'' \<or> has_prefix (mk_abs cs) (Root (details (node m a)) @ ''/'')) \<longleftrightarrow>
      a_covers (aRoot (abs_node (node m a))) (ZeroDepth (aDetails (abs_node (node m a)))) cs"
proof -
  have aL: "a \<in> locked_nodes m" using assms(2) by (auto simp: locked_nodes_def)
  note A = lockedD[OF assms(1) aL]
  have r: "aRoot (abs_node (node m a)) = croot m a" by (simp add: abs_node_def croot_def)
  have d: "aDetails (abs_node (node m a)) = details (node m a)" by (simp add: abs_node_def)
  have e: "mk_abs cs = mk_abs (croot m a) \<longleftrightarrow> croot m a = cs" using mk_abs_inject[OF assms(3) A(4)] by auto
  show ?thesis
  proof (cases "croot m a = []")
    case True
    then show ?thesis unfolding r d A(6) e using mk_abs_single[OF A(4)] by (simp add: a_covers_def)
  next
    case False
    then show ?thesis unfolding r d A(6) e
      using mk_abs_single[OF A(4)] mk_abs_slash_prefix[OF A(4) assms(3)] by (auto simp: a_covers_def strict_prefix_def)
  qed
qed

lemma lookup_refines:
  assumes "linv m" "normal_comps cs"
  shows "memLS_lookup m (mk_abs cs) conds = Option.bind (a_lookup (abs_locks m) cs conds) (byToken m)"
proof (induction conds)
  case (Cons c conds)
  show ?case
  proof (cases "byToken m (Token c)")
    case None
    then have "abs_locks m (Token c) = None" by (simp add: abs_locks_def)
    then show ?thesis using None Cons.IH by simp
  next
    case (Some a)
    then have l: "abs_locks m (Token c) = Some (abs_node (node m a))" by (simp add: abs_locks_def)
    have h: "aHeld (abs_node (node m a)) = held (node m a)" by (simp add: abs_node_def)
    have merge: "(if hd then X else if p then Some a else if z then X else if q then Some a else X)
      = (if \<not> hd \<and> (p \<or> \<not> z \<and> q) then Some a else X)" for hd p z q and X :: "nat option" by simp
    show ?thesis
      unfolding memLS_lookup.simps a_lookup.simps l option.simps Some Let_def h Cons.IH merge
        lookup_covers[OF assms(1) Some assms(2)]
      using Some by simp
  qed
qed simp

lemma find_refines:
  assumes "linv m"
  shows "(if name \<noteq> '''' then memLS_lookup m (slashClean name) conds else None)
    = Option.bind (a_find name conds (abs_locks m)) (byToken m)"
proof -
  note S = slashClean_comps[of name]
  have "memLS_lookup m (slashClean name) conds
      = Option.bind (a_lookup (abs_locks m) (comps_of (slashClean name)) conds) (byToken m)"
    using lookup_refines[OF assms S(1)] S(2) by metis
  then show ?thesis by (simp add: a_find_def)
qed

lemma find_live:
  assumes "linv m" "a_find name conds (abs_locks m) = Some t"
  obtains a where "byToken m t = Some a" "\<not> held (node m a)" "a \<in> locked_nodes m" "token (node m a) = t"
proof -
  obtain l where l: "abs_locks m t = Some l" "\<not> aHeld l"
    using assms(2) a_lookup_Some unfolding a_find_def by (metis option.distinct(1))
  then obtain a where a: "byToken m t = Some a" "l = abs_node (node m a)" using abs_locks_Some by blast
  have "\<not> held (node m a)" using l(2) a(2) by (simp add: abs_node_def)
  moreover have "a \<in> locked_nodes m" using a(1) by (auto simp: locked_nodes_def)
  ultimately show thesis using that a(1) inv_tokensD(2)[OF linvD(2)[OF assms(1)] a(1)] by blast
qed

lemma find_node:
  assumes "linv m"
  shows "Option.bind (a_find name conds (abs_locks m)) (byToken m) = None \<longleftrightarrow> a_find name conds (abs_locks m) = None"
    "Option.bind (a_find name conds (abs_locks m)) (byToken m) = Some a \<Longrightarrow> \<not> held (node m a)"
proof -
  have *: "(Option.bind (a_find name conds (abs_locks m)) (byToken m) = None \<longleftrightarrow> a_find name conds (abs_locks m) = None)
    \<and> (Option.bind (a_find name conds (abs_locks m)) (byToken m) = Some a \<longrightarrow> \<not> held (node m a))"
  proof (cases "a_find name conds (abs_locks m)")
    case (Some t)
    then show ?thesis using find_live[OF assms Some] by fastforce
  qed simp
  show "Option.bind (a_find name conds (abs_locks m)) (byToken m) = None \<longleftrightarrow> a_find name conds (abs_locks m) = None"
    using * by simp
  show "Option.bind (a_find name conds (abs_locks m)) (byToken m) = Some a \<Longrightarrow> \<not> held (node m a)" using * by simp
qed

definition pending :: "nat option \<times> nat option \<Rightarrow> nat set" where
  "pending ns = set_option (fst ns) \<union> set_option (snd ns)"

definition holds :: "memLS \<Rightarrow> nat set \<Rightarrow> bool" where
  "holds m A \<longleftrightarrow> (\<forall>a \<in> A. a \<in> locked_nodes m \<and> held (node m a))"

lemma holds_keeps: "keeps m m' \<Longrightarrow> holds m A \<Longrightarrow> holds m' A"
  unfolding keeps_def holds_def locked_nodes_def by blast

lemma holds_subset: "holds m A \<Longrightarrow> B \<subseteq> A \<Longrightarrow> holds m B"
  unfolding holds_def by blast

lemma hold_opt_lock:
  assumes "linv m" "n = Option.bind t (byToken m)" "\<And>u. t = Some u \<Longrightarrow> n \<noteq> None"
    and "\<And>a. n = Some a \<Longrightarrow> \<not> held (node m a)"
  shows "\<exists>m'. hold_opt n m = Some m' \<and> linv m' \<and> abs_locks m' = a_hold True t (abs_locks m) \<and> gen m' = gen m
    \<and> keeps m m' \<and> byToken m' = byToken m \<and> holds m' (set_option n) \<and> (\<forall>b. b \<notin> set_option n \<longrightarrow> held (node m' b) = held (node m b))"
proof (cases n)
  case None
  then have "t = None" using assms(3) by (cases t) auto
  then show ?thesis using None assms(1) by (simp add: hold_opt_def a_hold_def keeps_refl holds_def)
next
  case (Some a)
  then obtain u where u: "t = Some u" "byToken m u = Some a" using assms(2) by (cases t) auto
  have aL: "a \<in> locked_nodes m" using u(2) by (auto simp: locked_nodes_def)
  have tu: "token (node m a) = u" using inv_tokensD(2)[OF linvD(2)[OF assms(1)] u(2)] .
  have h: "\<not> held (node m a)" using assms(4) Some by blast
  obtain m' where m': "hold a m = Some m'" "linv m'" "locked_nodes m' = locked_nodes m" "gen m' = gen m"
    "abs_locks m' = (abs_locks m)(token (node m a) := Some ((abs_node (node m a))\<lparr>aHeld := True\<rparr>))"
    "byToken m' = byToken m" "\<And>b. token (node m' b) = token (node m b)"
    "\<And>b. b \<noteq> a \<Longrightarrow> held (node m' b) = held (node m b)" "held (node m' a)"
    "\<And>b. details (node m' b) = details (node m b)" "\<And>b. expiry (node m' b) = expiry (node m b)"
    by (rule hold_lock[OF assms(1) aL h]) (rule that; assumption)
  have "keeps m m'" using m'(6,8,9) unfolding keeps_def by metis
  moreover have "abs_locks m u = Some (abs_node (node m a))" using u(2) by (simp add: abs_locks_def)
  ultimately show ?thesis
    using m' aL by (simp add: Some u(1) hold_opt_def a_hold_def holds_def tu)
qed

lemma Confirm_refines:
  assumes "linv m"
  shows "\<exists>m' res. Confirm now name0 name1 conds m = Some (m', res) \<and> linv m' \<and> gen m' = gen m \<and> keeps m m'
    \<and> (case res of
         Inl e \<Rightarrow> a_confirm now name0 name1 conds (abs_locks m) = (abs_locks m', Inl e)
       | Inr ns \<Rightarrow> holds m' (pending ns) \<and> (\<forall>A. holds m A \<longrightarrow> A \<inter> pending ns = {})
           \<and> (\<forall>a. fst ns = Some a \<longrightarrow> snd ns \<noteq> Some a)
           \<and> (\<exists>t0 t1. a_confirm now name0 name1 conds (abs_locks m) = (abs_locks m', Inr (t0, t1))
                \<and> fst ns = Option.bind t0 (byToken m') \<and> snd ns = Option.bind t1 (byToken m')))"
proof -
  obtain m0 where c: "collectExpiredNodes now m = Some m0" "linv m0" "abs_locks m0 = a_expire now (abs_locks m)"
    "gen m0 = gen m" "keeps m m0" using collect_spec[OF assms] by blast
  define t0 t1 where "t0 = a_find name0 conds (abs_locks m0)" and "t1 = a_find name1 conds (abs_locks m0)"
  define n0 n1 where "n0 = Option.bind t0 (byToken m0)" and "n1 = Option.bind t1 (byToken m0)"
  note F0 = find_refines[OF c(2), of name0 conds, folded t0_def, folded n0_def]
  note F1 = find_refines[OF c(2), of name1 conds, folded t1_def, folded n1_def]
  have N0: "n0 = None \<longleftrightarrow> t0 = None" "\<And>a. n0 = Some a \<Longrightarrow> \<not> held (node m0 a)"
    using find_node[OF c(2), of name0 conds] by (simp_all add: n0_def t0_def)
  have N1: "n1 = None \<longleftrightarrow> t1 = None" "\<And>a. n1 = Some a \<Longrightarrow> \<not> held (node m0 a)"
    using find_node[OF c(2), of name1 conds] by (simp_all add: n1_def t1_def)
  have fail: "name0 \<noteq> '''' \<and> n0 = None \<or> name1 \<noteq> '''' \<and> n1 = None \<longleftrightarrow>
      name0 \<noteq> '''' \<and> t0 = None \<or> name1 \<noteq> '''' \<and> t1 = None" using N0(1) N1(1) by simp
  have run: "Confirm now name0 name1 conds m =
    (if name0 \<noteq> '''' \<and> n0 = None \<or> name1 \<noteq> '''' \<and> n1 = None then Some (m0, Inl ErrConfirmationFailed)
     else Option.bind (hold_opt n0 m0) (\<lambda>m1. Option.bind (hold_opt (if n1 = n0 then None else n1) m1)
       (\<lambda>m2. Some (m2, Inr (n0, (if n1 = n0 then None else n1))))))"
    unfolding Confirm_def c(1) Option.bind.bind_lunit F0 F1 Let_def by simp
  have same: "n1 = n0 \<longleftrightarrow> t1 = t0"
  proof
    assume e: "n1 = n0"
    show "t1 = t0"
    proof (cases t0)
      case None then show ?thesis using e N0(1) N1(1) by simp
    next
      case (Some u)
      then obtain v where v: "t1 = Some v" using e N0(1) N1(1) by (cases t1) auto
      obtain a where a: "byToken m0 u = Some a" "token (node m0 a) = u" using find_live[OF c(2)] Some t0_def by metis
      obtain b where b: "byToken m0 v = Some b" "token (node m0 b) = v" using find_live[OF c(2)] v t1_def by metis
      have "a = b" using e Some v a(1) b(1) by (simp add: n0_def n1_def)
      then show ?thesis using Some v a(2) b(2) by simp
    qed
  qed (simp add: n0_def n1_def)
  define t1' n1' where "t1' = (if t1 = t0 then None else t1)" and "n1' = (if n1 = n0 then None else n1)"
  show ?thesis
  proof (cases "name0 \<noteq> '''' \<and> t0 = None \<or> name1 \<noteq> '''' \<and> t1 = None")
    case True
    then have "a_confirm now name0 name1 conds (abs_locks m) = (abs_locks m0, Inl ErrConfirmationFailed)"
      by (simp add: a_confirm_def Let_def c(3)[symmetric] t0_def[symmetric] t1_def[symmetric])
    then show ?thesis using run True fail c by simp
  next
    case False
    obtain m1 where m1: "hold_opt n0 m0 = Some m1" "linv m1" "abs_locks m1 = a_hold True t0 (abs_locks m0)"
      "gen m1 = gen m0" "keeps m0 m1" "byToken m1 = byToken m0" "holds m1 (set_option n0)"
      "\<forall>b. b \<notin> set_option n0 \<longrightarrow> held (node m1 b) = held (node m0 b)"
      using hold_opt_lock[OF c(2) n0_def] N0 by blast
    have n1': "n1' = Option.bind t1' (byToken m1)" using same by (simp add: n1'_def t1'_def n1_def m1(6))
    have "t1' = Some u \<Longrightarrow> n1' \<noteq> None" for u using same N1(1) by (auto simp: n1'_def t1'_def split: if_splits)
    moreover have "n1' = Some a \<Longrightarrow> \<not> held (node m1 a)" for a
      using N1(2)[of a] m1(8) by (auto simp: n1'_def split: if_splits)
    ultimately obtain m2 where m2: "hold_opt n1' m1 = Some m2" "linv m2" "abs_locks m2 = a_hold True t1' (abs_locks m1)"
      "gen m2 = gen m1" "keeps m1 m2" "byToken m2 = byToken m1" "holds m2 (set_option n1')"
      using hold_opt_lock[OF m1(2) n1'] by blast
    have "Confirm now name0 name1 conds m = Some (m2, Inr (n0, n1'))"
      using run False fail m1(1) m2(1) by (simp add: n1'_def)
    moreover have "a_confirm now name0 name1 conds (abs_locks m) = (abs_locks m2, Inr (t0, t1'))"
      using False m1(3) m2(3)
      by (simp add: a_confirm_def Let_def c(3)[symmetric] t0_def[symmetric] t1_def[symmetric] t1'_def)
    moreover have "holds m2 (pending (n0, n1'))"
      using holds_keeps[OF m2(5) m1(7)] m2(7) by (auto simp: holds_def pending_def)
    moreover have "A \<inter> pending (n0, n1') = {}" if "holds m A" for A
    proof -
      have "holds m0 A" by (rule holds_keeps[OF c(5) that])
      then show ?thesis using N0(2) N1(2) by (auto simp: holds_def pending_def n1'_def split: if_splits)
    qed
    moreover have "n0 = Some a \<Longrightarrow> n1' \<noteq> Some a" for a by (simp add: n1'_def)
    ultimately show ?thesis
      using m2(2,4) m1(4) c(4) keeps_trans[OF c(5) keeps_trans[OF m1(5) m2(5)]] n1' m2(6) m1(6)
      by (simp add: n0_def)
  qed
qed

section \<open>Release\<close>

lemma unhold_opt_lock:
  assumes "linv m" "holds m (set_option n)"
  shows "\<exists>m'. unhold_opt n m = Some m' \<and> linv m' \<and> gen m' = gen m \<and> locked_nodes m' = locked_nodes m
    \<and> (\<forall>b. b \<notin> set_option n \<longrightarrow> held (node m' b) = held (node m b))"
proof (cases n)
  case (Some a)
  then have a: "a \<in> locked_nodes m" "held (node m a)" using assms(2) by (simp_all add: holds_def)
  show ?thesis by (rule unhold_lock[OF assms(1) a]) (auto simp: Some unhold_opt_def)
qed (simp add: unhold_opt_def assms(1))

lemma release_spec:
  assumes "linv m" "holds m (pending ns)" "\<And>a. fst ns = Some a \<Longrightarrow> snd ns \<noteq> Some a"
  shows "\<exists>m'. release ns m = Some m' \<and> linv m' \<and> gen m' = gen m
    \<and> (\<forall>A. holds m A \<longrightarrow> A \<inter> pending ns = {} \<longrightarrow> holds m' A)"
proof -
  have p: "holds m (set_option (fst ns))" "holds m (set_option (snd ns))"
    using assms(2) by (auto simp: pending_def holds_def)
  obtain m1 where m1: "unhold_opt (snd ns) m = Some m1" "linv m1" "gen m1 = gen m" "locked_nodes m1 = locked_nodes m"
    "\<forall>b. b \<notin> set_option (snd ns) \<longrightarrow> held (node m1 b) = held (node m b)"
    using unhold_opt_lock[OF assms(1) p(2)] by blast
  have "holds m1 (set_option (fst ns))" using p(1) m1(4,5) assms(3) by (fastforce simp: holds_def)
  then obtain m2 where m2: "unhold_opt (fst ns) m1 = Some m2" "linv m2" "gen m2 = gen m1" "locked_nodes m2 = locked_nodes m1"
    "\<forall>b. b \<notin> set_option (fst ns) \<longrightarrow> held (node m2 b) = held (node m1 b)"
    using unhold_opt_lock[OF m1(2)] by blast
  have "holds m2 A" if A: "holds m A" "A \<inter> pending ns = {}" for A
    unfolding holds_def
  proof
    fix b assume b: "b \<in> A"
    then have "b \<notin> set_option (fst ns)" "b \<notin> set_option (snd ns)" using A(2) by (auto simp: pending_def)
    then show "b \<in> locked_nodes m2 \<and> held (node m2 b)" using A(1) b m1(4,5) m2(4,5) by (simp add: holds_def)
  qed
  then show ?thesis using m1 m2 by (simp add: release_def)
qed

section \<open>Every interleaving of requests\<close>

text \<open>The lock system as the server drives it: requests in any order, at any times, with release
  functions of earlier confirmations called at any later point.\<close>

inductive lock_run :: "64 word \<Rightarrow> memLS \<Rightarrow> (nat option \<times> nat option) list \<Rightarrow> bool" for g where
  run_new: "lock_run g (NewMemLS g) []"
| run_create: "lock_run g m ps \<Longrightarrow> unat (gen m) < 2 ^ 64 - 1 \<Longrightarrow> Create now d m = Some (m', r) \<Longrightarrow> lock_run g m' ps"
| run_refresh: "lock_run g m ps \<Longrightarrow> Refresh now t dur m = Some (m', rf) \<Longrightarrow> lock_run g m' ps"
| run_unlock: "lock_run g m ps \<Longrightarrow> Unlock now t m = Some (m', ru) \<Longrightarrow> lock_run g m' ps"
| run_refused: "lock_run g m ps \<Longrightarrow> Confirm now name0 name1 conds m = Some (m', Inl e) \<Longrightarrow> lock_run g m' ps"
| run_confirm: "lock_run g m ps \<Longrightarrow> Confirm now name0 name1 conds m = Some (m', Inr ns) \<Longrightarrow> lock_run g m' (ns # ps)"
| run_release: "lock_run g m (xs @ ns # ys) \<Longrightarrow> release ns m = Some m' \<Longrightarrow> lock_run g m' (xs @ ys)"

fun pends_ok :: "(nat option \<times> nat option) list \<Rightarrow> bool" where
  "pends_ok [] = True"
| "pends_ok (ns # ps) \<longleftrightarrow> (\<forall>a. fst ns = Some a \<longrightarrow> snd ns \<noteq> Some a)
     \<and> (\<forall>q \<in> set ps. pending q \<inter> pending ns = {}) \<and> pends_ok ps"

lemma pends_ok_append:
  "pends_ok (xs @ ns # ys) \<Longrightarrow> pends_ok (xs @ ys) \<and> (\<forall>q \<in> set (xs @ ys). pending q \<inter> pending ns = {})
     \<and> (\<forall>a. fst ns = Some a \<longrightarrow> snd ns \<noteq> Some a)"
proof (induction xs)
  case Nil
  then show ?case by simp
next
  case (Cons x xs)
  then show ?case by auto
qed

lemma lock_run_inv:
  assumes "lock_run g m ps"
  shows "linv m \<and> pends_ok ps \<and> (\<forall>ns \<in> set ps. holds m (pending ns))"
  using assms
proof induction
  case run_new
  show ?case by (simp add: linv_new)
next
  case (run_create m ps now d m' r)
  then obtain "linv m'" "keeps m m'" using Create_refines[of m now d] by auto
  then show ?case using run_create.IH holds_keeps by blast
next
  case (run_refresh m ps now t dur m' rf)
  then obtain "linv m'" "keeps m m'" using Refresh_refines[of m now t dur] by auto
  then show ?case using run_refresh.IH holds_keeps by blast
next
  case (run_unlock m ps now t m' ru)
  then obtain "linv m'" "keeps m m'" using Unlock_refines[of m now t] by auto
  then show ?case using run_unlock.IH holds_keeps by blast
next
  case (run_refused m ps now name0 name1 conds m' e)
  then obtain "linv m'" "keeps m m'" using Confirm_refines[of m now name0 name1 conds] by auto
  then show ?case using run_refused.IH holds_keeps by blast
next
  case (run_confirm m ps now name0 name1 conds m' ns)
  then have c: "linv m'" "keeps m m'" "holds m' (pending ns)" "\<And>A. holds m A \<Longrightarrow> A \<inter> pending ns = {}"
    "\<And>a. fst ns = Some a \<Longrightarrow> snd ns \<noteq> Some a" using Confirm_refines[of m now name0 name1 conds] by auto
  then show ?case using run_confirm.IH holds_keeps[OF c(2)] by auto
next
  case (run_release m xs ns ys m')
  note P = pends_ok_append[of xs ns ys]
  have h: "linv m" "holds m (pending ns)" "\<And>a. fst ns = Some a \<Longrightarrow> snd ns \<noteq> Some a"
    using run_release.IH P by auto
  then have r: "linv m'" "\<And>A. holds m A \<Longrightarrow> A \<inter> pending ns = {} \<Longrightarrow> holds m' A"
    using release_spec[OF h] run_release.hyps(2) by auto
  then show ?case using run_release.IH P by auto
qed

section \<open>Properties\<close>

lemmas lock_run_facts = lock_run_inv [THEN conjunct1] lock_run_inv [THEN conjunct2, THEN conjunct1]
  lock_run_inv [THEN conjunct2, THEN conjunct2]

definition demo_lock :: "string \<Rightarrow> LockDetails" where
  "demo_lock r = \<lparr>Root = r, Duration = 100, OwnerXML = '''', ZeroDepth = False\<rparr>"

definition demo_cond :: "string \<Rightarrow> Condition" where
  "demo_cond t = \<lparr>Not = False, Token = t, ETag = ''''\<rparr>"

definition demo_locked :: memLS where
  "demo_locked = fst (the (Create 0 (demo_lock ''/a'') (NewMemLS 5)))"

definition demo_two :: memLS where
  "demo_two = fst (the (Create 0 (demo_lock ''/b'') demo_locked))"

definition demo_held :: memLS where
  "demo_held = fst (the (Confirm 1 ''/a/x'' ''/b/y'' [demo_cond ''6'', demo_cond ''7''] demo_two))"

lemma some_pair: "map_option snd x = Some r \<Longrightarrow> x = Some (fst (the x), r)"
  by (cases x) auto

lemma demo_locked: "Create 0 (demo_lock ''/a'') (NewMemLS 5) = Some (demo_locked, Inr ''6'')"
  unfolding demo_locked_def by (rule some_pair) code_simp

lemma demo_two: "Create 0 (demo_lock ''/b'') demo_locked = Some (demo_two, Inr ''7'')"
  unfolding demo_two_def by (rule some_pair) code_simp

lemma demo_held: "Confirm 1 ''/a/x'' ''/b/y'' [demo_cond ''6'', demo_cond ''7''] demo_two = Some (demo_held, Inr (Some 0, Some 2))"
  unfolding demo_held_def by (rule some_pair) code_simp

lemma demo_gen: "gen demo_locked = 6" "gen demo_two = 7"
  by code_simp+

lemma demo_run: "lock_run 5 demo_locked []" "lock_run 5 demo_two []" "lock_run 5 demo_held [(Some 0, Some 2)]"
proof -
  show 1: "lock_run 5 demo_locked []"
    by (rule run_create[OF run_new _ demo_locked]) (simp add: NewMemLS_def)
  show 2: "lock_run 5 demo_two []" by (rule run_create[OF 1 _ demo_two]) (simp add: demo_gen)
  show "lock_run 5 demo_held [(Some 0, Some 2)]" by (rule run_confirm[OF 2 demo_held])
qed

text \<open>C8: The lock system never panics and always answers: whatever requests, sweeps and releases came
  before, in whatever order, \<open>Create\<close>, \<open>Refresh\<close>, \<open>Unlock\<close>, \<open>Confirm\<close> and every
  pending release function return (no nil node on the way to the root, no ``inconsistent held state''
  panic, no endless sweep).\<close>

theorem lock_system_never_panics:
  assumes "lock_run g m ps"
  shows "Confirm now name0 name1 conds m \<noteq> None \<and> Refresh now t dur m \<noteq> None \<and> Unlock now t m \<noteq> None
    \<and> (unat (gen m) < 2 ^ 64 - 1 \<longrightarrow> Create now d m \<noteq> None) \<and> (\<forall>ns \<in> set ps. release ns m \<noteq> None)"
proof (intro conjI impI ballI)
  note I = lock_run_facts[OF assms]
  show "Confirm now name0 name1 conds m \<noteq> None" using Confirm_refines[OF I(1)] by (metis option.distinct(1))
  show "Refresh now t dur m \<noteq> None" using Refresh_refines[OF I(1)] by (metis option.distinct(1))
  show "Unlock now t m \<noteq> None" using Unlock_refines[OF I(1)] by (metis option.distinct(1))
  show "unat (gen m) < 2 ^ 64 - 1 \<Longrightarrow> Create now d m \<noteq> None"
    using Create_refines[OF I(1)] by (metis option.distinct(1))
  fix ns assume ns: "ns \<in> set ps"
  then obtain xs ys where "ps = xs @ ns # ys" by (metis split_list)
  then have "\<And>a. fst ns = Some a \<Longrightarrow> snd ns \<noteq> Some a" using pends_ok_append I(2) by blast
  then show "release ns m \<noteq> None" using release_spec[OF I(1)] I(3) ns by fastforce
qed

theorem lock_system_never_panics_witness:
  "release (Some 0, Some 2) demo_held \<noteq> None \<and> Create 7 (demo_lock ''/c'') demo_two \<noteq> None"
  using lock_system_never_panics[OF demo_run(3)]
    lock_system_never_panics[OF demo_run(2), where now = 7 and d = "demo_lock ''/c''"] by (simp add: demo_gen)

text \<open>C9: No two locks conflict: in every reachable state, of two different tokens neither lock covers
  the other's root, be it the same resource or a resource below a lock of infinite depth.\<close>

theorem locks_never_conflict:
  assumes "lock_run g m ps" "abs_locks m t = Some l" "abs_locks m u = Some k" "t \<noteq> u"
  shows "\<not> a_covers (aRoot l) (ZeroDepth (aDetails l)) (aRoot k)"
proof -
  note I = lock_run_facts(1)[OF assms(1)]
  obtain a b where a: "byToken m t = Some a" "l = abs_node (node m a)" and b: "byToken m u = Some b" "k = abs_node (node m b)"
    using assms(2,3) abs_locks_Some by metis
  have L: "a \<in> locked_nodes m" "b \<in> locked_nodes m" using a(1) b(1) by (auto simp: locked_nodes_def)
  have "token (node m a) = t" "token (node m b) = u" using inv_tokensD(2)[OF linvD(2)[OF I]] a(1) b(1) by simp_all
  then have ab: "a \<noteq> b" using assms(4) by blast
  then have "croot m a \<noteq> croot m b" using locked_root_inj[OF I L] by blast
  moreover have "\<not> ZeroDepth (details (node m a)) \<Longrightarrow> \<not> prefix (croot m a) (croot m b)"
    using linvD(5)[OF I] L ab unfolding inv_free_def by blast
  ultimately show ?thesis by (auto simp: a_covers_def a(2) b(2) abs_node_def croot_def)
qed

theorem locks_never_conflict_witness:
  "\<exists>l k. abs_locks demo_two ''6'' = Some l \<and> abs_locks demo_two ''7'' = Some k
     \<and> \<not> a_covers (aRoot l) (ZeroDepth (aDetails l)) (aRoot k)"
proof -
  let ?l = "the (abs_locks demo_two ''6'')" and ?k = "the (abs_locks demo_two ''7'')"
  have l: "abs_locks demo_two ''6'' = Some ?l" by code_simp
  have k: "abs_locks demo_two ''7'' = Some ?k" by code_simp
  show ?thesis using l k locks_never_conflict[OF demo_run(2) l k] by auto
qed

text \<open>C10: \<open>Create\<close> implements its specification: after dropping the expired locks it answers
  \<open>ErrLocked\<close> exactly when a live lock conflicts with the requested one, and otherwise adds that
  lock, with a token that no live lock has, the cleaned root, and its expiry time.\<close>

theorem Create_implements_spec:
  assumes "lock_run g m ps" "unat (gen m) < 2 ^ 64 - 1" "Create now d m = Some (m', res)"
  shows "a_create now d (nat_dec (Suc (unat (gen m)))) (abs_locks m) = (abs_locks m', res)
    \<and> abs_locks m (nat_dec (Suc (unat (gen m)))) = None"
proof
  note I = lock_run_facts(1)[OF assms(1)]
  show "a_create now d (nat_dec (Suc (unat (gen m)))) (abs_locks m) = (abs_locks m', res)"
    using Create_refines[OF I assms(2), of now d] assms(3) by auto
  show "abs_locks m (nat_dec (Suc (unat (gen m)))) = None" by (rule next_token_unused[OF I])
qed

theorem Create_implements_spec_witness:
  "a_create 0 (demo_lock ''/b'') ''7'' (abs_locks demo_locked) = (abs_locks demo_two, Inr ''7'')"
proof -
  have "nat_dec (Suc (unat (gen demo_locked))) = ''7''" unfolding demo_gen by code_simp
  then show ?thesis using Create_implements_spec[OF demo_run(1) _ demo_two] by (simp add: demo_gen)
qed

text \<open>C11: \<open>Unlock\<close> and \<open>Refresh\<close> implement their specifications: an expired or unknown
  token is \<open>ErrNoSuchLock\<close>, a held one \<open>ErrLocked\<close>, and otherwise exactly that lock is
  removed, or gets its new duration and expiry; no other lock changes.\<close>

theorem Unlock_Refresh_implement_spec:
  assumes "lock_run g m ps"
  shows "map_option (\<lambda>(m', r). (abs_locks m', r)) (Unlock now t m) = Some (a_unlock now t (abs_locks m))
    \<and> map_option (\<lambda>(m', r). (abs_locks m', r)) (Refresh now t dur m) = Some (a_refresh now t dur (abs_locks m))"
  using Unlock_refines[OF lock_run_facts(1)[OF assms], of now t]
    Refresh_refines[OF lock_run_facts(1)[OF assms], of now t dur] by auto

theorem Unlock_Refresh_implement_spec_witness:
  "map_option snd (Unlock 1 ''6'' demo_two) = Some None \<and> map_option snd (Unlock 1 ''6'' demo_held) = Some (Some ErrLocked)
   \<and> map_option (\<lambda>(m', r). (abs_locks m', r)) (Unlock 1 ''6'' demo_two) = Some (a_unlock 1 ''6'' (abs_locks demo_two))"
proof (intro conjI)
  show "map_option snd (Unlock 1 ''6'' demo_two) = Some None" by code_simp
  show "map_option snd (Unlock 1 ''6'' demo_held) = Some (Some ErrLocked)" by code_simp
  show "map_option (\<lambda>(m', r). (abs_locks m', r)) (Unlock 1 ''6'' demo_two) = Some (a_unlock 1 ''6'' (abs_locks demo_two))"
    using Unlock_Refresh_implement_spec[OF demo_run(2), of 1 "''6''"] by simp
qed

text \<open>C12: \<open>Confirm\<close> implements its specification, and confirmed locks are exclusive: a success
  hands out the live locks that its conditions name for both resources, marks exactly these as held,
  and none of them belongs to another confirmation that is not yet released.\<close>

theorem Confirm_implements_spec:
  assumes "lock_run g m ps" "Confirm now name0 name1 conds m = Some (m', Inr ns)"
  shows "(\<exists>t0 t1. a_confirm now name0 name1 conds (abs_locks m) = (abs_locks m', Inr (t0, t1))
      \<and> fst ns = Option.bind t0 (byToken m') \<and> snd ns = Option.bind t1 (byToken m'))
    \<and> (\<forall>q \<in> set ps. pending q \<inter> pending ns = {})"
  using Confirm_refines[OF lock_run_facts(1)[OF assms(1)], of now name0 name1 conds] assms(2)
    lock_run_facts(3)[OF assms(1)] by auto

theorem Confirm_implements_spec_witness:
  "\<exists>t0 t1. a_confirm 1 ''/a/x'' ''/b/y'' [demo_cond ''6'', demo_cond ''7''] (abs_locks demo_two)
     = (abs_locks demo_held, Inr (t0, t1))"
  using Confirm_implements_spec[OF demo_run(2) demo_held] by blast

text \<open>C13: A confirmed lock is safe until it is released: whatever other requests do meanwhile, at
  whatever time, no sweep expires it and nobody can unlock, refresh or confirm it again.\<close>

theorem confirmed_lock_is_safe:
  assumes "lock_run g m ps" "ns \<in> set ps" "a \<in> pending ns"
  shows "\<exists>t. byToken m t = Some a
    \<and> (\<exists>m'. Unlock now t m = Some (m', Some ErrLocked) \<and> byToken m' t = Some a)
    \<and> (\<exists>m'. Refresh now t dur m = Some (m', Inl ErrLocked) \<and> byToken m' t = Some a)
    \<and> (\<exists>m' res. Confirm now name0 name1 [\<lparr>Not = False, Token = t, ETag = e\<rparr>] m = Some (m', res)
         \<and> (name0 \<noteq> '''' \<or> name1 \<noteq> '''' \<longrightarrow> res = Inl ErrConfirmationFailed))"
proof -
  note I = lock_run_facts[OF assms(1)]
  have h: "a \<in> locked_nodes m" "held (node m a)" using I(3) assms(2,3) by (auto simp: holds_def)
  then obtain t where t: "byToken m t = Some a" by (auto simp: locked_nodes_def)
  obtain m0 where m0: "collectExpiredNodes now m = Some m0" "linv m0" "keeps m m0"
    using collect_spec[OF I(1)] by blast
  have b: "byToken m0 t = Some a" "held (node m0 a)" using m0(3) t h(2) by (auto simp: keeps_def)
  have "memLS_lookup m0 nm [\<lparr>Not = False, Token = t, ETag = e\<rparr>] = None" for nm
    using b by simp
  then have "Confirm now name0 name1 [\<lparr>Not = False, Token = t, ETag = e\<rparr>] m =
      Some (m0, if name0 \<noteq> '''' \<or> name1 \<noteq> '''' then Inl ErrConfirmationFailed else Inr (None, None))"
    by (auto simp: Confirm_def m0(1) Let_def hold_opt_def)
  moreover have "Unlock now t m = Some (m0, Some ErrLocked)" using b m0(1) by (simp add: Unlock_def)
  moreover have "Refresh now t dur m = Some (m0, Inl ErrLocked)" using b m0(1) by (simp add: Refresh_def)
  ultimately show ?thesis using t b(1) by auto
qed

theorem confirmed_lock_is_safe_witness:
  "\<exists>t m'. byToken demo_held t = Some 0 \<and> Unlock 1000 t demo_held = Some (m', Some ErrLocked) \<and> byToken m' t = Some 0"
  using confirmed_lock_is_safe[OF demo_run(3), of "(Some 0, Some 2)" 0 1000 0 "''''" "''''" "''''"] by (auto simp: pending_def)

section \<open>parseTimeout\<close>

lemma parse_int_digit_nonneg:
  assumes "is_digit (hd s)" "s \<noteq> []" "parse_int s = Some n"
  shows "0 \<le> n"
proof -
  have d: "0 \<le> acc \<Longrightarrow> digits_val acc t = Some v \<Longrightarrow> 0 \<le> v" for acc t v
    by (induction acc t rule: digits_val.induct) (auto simp: digit_val_nonneg split: if_splits)
  show ?thesis using assms d[OF digit_val_nonneg]
    by (cases s) (auto simp: parse_int_def Let_def split: if_splits option.splits)
qed

text \<open>\<open>parseTimeout\<close> accepts only the infinite timeout or 0 to 2^32-1 seconds, as a
  duration that fits \<open>int64\<close> nanoseconds, and it accepts \<open>Second-k\<close> for every such \<open>k\<close>.\<close>

theorem parseTimeout_bounds:
  "(parseTimeout s = Inr d \<longrightarrow> d = infiniteTimeout \<or> (\<exists>n. 0 \<le> n \<and> n < 2 ^ 32 \<and> d = n * 10 ^ 9 \<and> int64_range d))
   \<and> (0 \<le> k \<and> k < 2 ^ 32 \<longrightarrow> parseTimeout (''Second-'' @ format_int k) = Inr (k * 10 ^ 9))"
proof (intro conjI impI)
  assume d: "parseTimeout s = Inr d"
  show "d = infiniteTimeout \<or> (\<exists>n. 0 \<le> n \<and> n < 2 ^ 32 \<and> d = n * 10 ^ 9 \<and> int64_range d)"
  proof (cases "d = infiniteTimeout")
    case False
    let ?u = "drop 7 (trim_space (case index_char (CHR '','') s of Some i \<Rightarrow> take i s | None \<Rightarrow> s))"
    have "\<exists>n. ?u \<noteq> [] \<and> is_digit (hd ?u) \<and> parse_int ?u = Some n \<and> \<not> 2 ^ 32 - 1 < n \<and> d = n * 10 ^ 9"
      using d False by (auto simp: parseTimeout_def Let_def split: if_splits option.splits)
    then obtain n where n: "?u \<noteq> []" "is_digit (hd ?u)" "parse_int ?u = Some n" "\<not> 2 ^ 32 - 1 < n" "d = n * 10 ^ 9"
      by blast
    have "0 \<le> n" using parse_int_digit_nonneg n(1-3) by blast
    then show ?thesis using n(4,5) by (auto simp: int64_range_def)
  qed simp
next
  assume k: "0 \<le> k \<and> k < 2 ^ 32"
  let ?n = "format_int k" and ?s = "''Second-'' @ format_int k"
  have dg: "c \<in> set ?n \<Longrightarrow> is_digit c" for c using k format_int_nonneg_chars by blast
  have "index_char (CHR '','') ?s = None"
    using dg[of "CHR '',''"] by (intro index_char_None) (auto simp: is_digit_def)
  moreover have "trim_space ?s = ?s"
    using dg[OF last_in_set] is_digit_visible by (intro trim_space_id) (simp add: visible_def)
  moreover have "has_prefix ?s ''Second-''" "?s \<noteq> ''Infinite''" "drop 7 ?s = ?n" by simp_all
  moreover have "?n \<noteq> []" "is_digit (hd ?n)" using dg by simp_all
  moreover have "parse_int ?n = Some k" using k by (intro parse_format_int) (simp add: int64_range_def)
  ultimately show "parseTimeout ?s = Inr (k * 10 ^ 9)" using k by (simp add: parseTimeout_def)
qed

theorem parseTimeout_bounds_witness:
  "parseTimeout ''Second-4100000000, Infinite'' = Inr 4100000000000000000 \<and> (\<exists>n < 2 ^ 32. (4100000000000000000 :: int) = n * 10 ^ 9)"
proof
  show p: "parseTimeout ''Second-4100000000, Infinite'' = Inr 4100000000000000000" by code_simp
  show "\<exists>n < 2 ^ 32. (4100000000000000000 :: int) = n * 10 ^ 9"
    using parseTimeout_bounds[of "''Second-4100000000, Infinite''" 4100000000000000000 0] p by (auto simp: infiniteTimeout_def)
qed

end
