(* ===== verification/Webdav_Contract.thy ===== *)
theory Webdav_Contract imports Webdav_Handler Webdav_Locks begin

text \<open>
  The WebDAV handlers over their lock system: the contract of the \<open>LockSystem\<close> interface as a locale,
  provided by the in-memory lock system, and the temporary locks of a request, which come and go
  without a trace.
\<close>

section \<open>The contract of LockSystem\<close>

text \<open>\<open>locks\<close> is the abstract state, \<open>room\<close> the number of tokens left before the 64-bit counter wraps.\<close>

locale lock_system =
  fixes api :: "('l, 'r) lock_api" and inv :: "'l \<Rightarrow> bool" and locks :: "'l \<Rightarrow> alocks" and room :: "'l \<Rightarrow> nat"
  assumes create: "inv l \<Longrightarrow> 0 < room l \<Longrightarrow> lsCreate api t0 d l = (l', res) \<Longrightarrow>
      inv l' \<and> room l \<le> Suc (room l')
      \<and> (\<exists>t. t \<noteq> '''' \<and> locks l t = None \<and> a_create t0 d t (locks l) = (locks l', res))"
    and unlock: "inv l \<Longrightarrow> lsUnlock api t0 t l = (l', e) \<Longrightarrow>
      inv l' \<and> room l' = room l \<and> a_unlock t0 t (locks l) = (locks l', e)"

lemma a_expire_expired: "a_expire t0 (a_expire t0 S) = a_expire t0 S"
  by (auto simp: a_expire_def fun_eq_iff split: option.splits)

lemma a_expire_None: "S t = None \<Longrightarrow> a_expire t0 S t = None"
  by (simp add: a_expire_def)

text \<open>A lock without expiry added to swept locks survives the next sweep, and unlocking it gives the
  old state back.\<close>

lemma a_unlock_added:
  assumes "S = a_expire t0 S" "S t = None" "aExpiry l = None" "\<not> aHeld l"
  shows "a_unlock t0 t (S(t := Some l)) = (S, None)" "a_expire t0 (S(t := Some l)) = S(t := Some l)"
proof -
  show e: "a_expire t0 (S(t := Some l)) = S(t := Some l)"
  proof
    fix u show "a_expire t0 (S(t := Some l)) u = (S(t := Some l)) u"
      using fun_cong[OF assms(1), of u] assms(3) by (auto simp: a_expire_def a_due_iff)
  qed
  have "S(t := None) = S" using assms(2) by auto
  then show "a_unlock t0 t (S(t := Some l)) = (S, None)" using assms(4) by (simp add: a_unlock_def Let_def e)
qed

definition temp_lock :: "string \<Rightarrow> alock" where
  "temp_lock root = \<lparr>aRoot = comps_of (slashClean root), aDetails = \<lparr>Root = slashClean root, Duration = infiniteTimeout,
     OwnerXML = '''', ZeroDepth = True\<rparr>, aExpiry = None, aHeld = False\<rparr>"

context lock_system begin

text \<open>A temporary lock: added to the swept locks, or refused.\<close>

lemma dav_lock_run:
  assumes "LockSystem h = api" "inv (dLocks w)" "0 < room (dLocks w)"
  shows "\<exists>l' res. run_state (dav_lock h root) w = (res, w\<lparr>dLocks := l'\<rparr>) \<and> inv l' \<and> room (dLocks w) \<le> Suc (room l')
    \<and> (case res of Inl st \<Rightarrow> locks l' = a_expire (clock h) (locks (dLocks w))
       | Inr t \<Rightarrow> t \<noteq> '''' \<and> locks (dLocks w) t = None
           \<and> locks l' = (a_expire (clock h) (locks (dLocks w)))(t := Some (temp_lock root)))"
proof -
  let ?d = "\<lparr>Root = root, Duration = infiniteTimeout, OwnerXML = '''', ZeroDepth = True\<rparr>"
  obtain l' res where c: "lsCreate api (clock h) ?d (dLocks w) = (l', res)" by fastforce
  obtain t where t: "inv l'" "room (dLocks w) \<le> Suc (room l')" "t \<noteq> ''''" "locks (dLocks w) t = None"
    "a_create (clock h) ?d t (locks (dLocks w)) = (locks l', res)" using create[OF assms(2,3) c] by blast
  have "locks l' = a_expire (clock h) (locks (dLocks w)) \<and> (\<exists>e. res = Inl e)
      \<or> res = Inr t \<and> locks l' = (a_expire (clock h) (locks (dLocks w)))(t := Some (temp_lock root))"
    using t(5) by (auto simp: a_create_def Let_def temp_lock_def infiniteTimeout_def split: if_splits)
  then show ?thesis
    using c t(1-4) by (auto simp: dav_lock_def on_locks_def assms(1) split: sum.split)
qed

text \<open>A live lock that covers the path, or that the temporary lock would cover, refuses it.\<close>

lemma confirmLocks_refused:
  assumes "LockSystem h = api" "inv (dLocks w)" "0 < room (dLocks w)" "rHeader r ''If'' = ''''" "src \<noteq> ''''"
    and "a_conflict (a_expire (clock h) (locks (dLocks w))) (comps_of (slashClean src)) True"
  shows "\<exists>w1. run_state (confirmLocks h r src dst) w = (Inl 423, w1) \<and> wCalls w1 = wCalls w \<and> wFs w1 = wFs w"
proof -
  let ?d = "\<lparr>Root = src, Duration = infiniteTimeout, OwnerXML = '''', ZeroDepth = True\<rparr>"
  obtain l' res where c: "lsCreate api (clock h) ?d (dLocks w) = (l', res)" by fastforce
  obtain t where "a_create (clock h) ?d t (locks (dLocks w)) = (locks l', res)" using create[OF assms(2,3) c] by blast
  then have "res = Inl ErrLocked" using assms(6) by (simp add: a_create_def Let_def)
  then have "run_state (dav_lock h src) w = (Inl 423, w\<lparr>dLocks := l'\<rparr>)"
    using c by (simp add: dav_lock_def on_locks_def assms(1))
  then show ?thesis using assms(4,5) by (simp add: confirmLocks_def)
qed

lemma dav_unlock_temp:
  assumes "LockSystem h = api" "inv (dLocks w)" "t \<noteq> ''''"
    and "locks (dLocks w) = S(t := Some (temp_lock root))" "S = a_expire (clock h) S" "S t = None"
  shows "\<exists>l'. snd (run_state (dav_unlock h t) w) = w\<lparr>dLocks := l'\<rparr> \<and> inv l' \<and> room l' = room (dLocks w) \<and> locks l' = S"
proof -
  obtain l' e where u: "lsUnlock api (clock h) t (dLocks w) = (l', e)" by fastforce
  note U = unlock[OF assms(2) u]
  have "a_unlock (clock h) t (locks (dLocks w)) = (S, None)"
    unfolding assms(4) by (rule a_unlock_added(1)[OF assms(5,6)]) (simp_all add: temp_lock_def)
  then have "snd (run_state (dav_unlock h t) w) = w\<lparr>dLocks := l'\<rparr>" "inv l'" "room l' = room (dLocks w)" "locks l' = S"
    using U u assms(1,3) by (simp_all add: dav_unlock_def on_locks_def)
  then show ?thesis by blast
qed

lemma confirmLocks_restores:
  assumes h: "LockSystem h = api" and i: "inv (dLocks w)" "1 < room (dLocks w)" and hdr: "rHeader r ''If'' = ''''"
    and run: "run_state (confirmLocks h r src dst) w = (c, w1)" and ne: "src \<noteq> '''' \<or> dst \<noteq> ''''"
  shows "case c of Inl st \<Rightarrow> locks (dLocks w1) = a_expire (clock h) (locks (dLocks w))
    | Inr rel \<Rightarrow> locks (dLocks (snd (run_state (run_release h rel) w1))) = a_expire (clock h) (locks (dLocks w))
        \<and> (src \<noteq> '''' \<longrightarrow> (\<exists>t. locks (dLocks w1) t = Some (temp_lock src)))
        \<and> (dst \<noteq> '''' \<longrightarrow> (\<exists>t. locks (dLocks w1) t = Some (temp_lock dst)))"
proof -
  let ?S = "a_expire (clock h) (locks (dLocks w))"
  have none: "dav_unlock h '''' = State_Monad.return ()" by (simp add: dav_unlock_def)
  show ?thesis
  proof (cases "src = ''''")
    case True
    then have d: "dst \<noteq> ''''" using ne by simp
    obtain l' res where D: "run_state (dav_lock h dst) w = (res, w\<lparr>dLocks := l'\<rparr>)" "inv l'"
      "case res of Inl st \<Rightarrow> locks l' = ?S
       | Inr t \<Rightarrow> t \<noteq> '''' \<and> locks (dLocks w) t = None \<and> locks l' = ?S(t := Some (temp_lock dst))"
      using dav_lock_run[OF h i(1), of dst] i(2) by auto
    show ?thesis
    proof (cases res)
      case (Inl st)
      then show ?thesis using run D hdr True d by (auto simp: confirmLocks_def none)
    next
      case (Inr t)
      have c: "c = Inr (TempLocks '''' t)" "w1 = w\<lparr>dLocks := l'\<rparr>"
        using run D(1) hdr True d Inr by (auto simp: confirmLocks_def)
      have T: "t \<noteq> ''''" "locks l' = ?S(t := Some (temp_lock dst))" "?S t = None"
        using D(3) Inr a_expire_None by auto
      obtain l2 where "snd (run_state (dav_unlock h t) w1) = w1\<lparr>dLocks := l2\<rparr>" "locks l2 = ?S"
        using dav_unlock_temp[OF h, of w1 t ?S dst] D(2) T by (auto simp: c a_expire_expired)
      then show ?thesis using T(2) True by (auto simp: c run_release_def none split: prod.split)
    qed
  next
    case False
    obtain l' res where D: "run_state (dav_lock h src) w = (res, w\<lparr>dLocks := l'\<rparr>)" "inv l'"
      "room (dLocks w) \<le> Suc (room l')"
      "case res of Inl st \<Rightarrow> locks l' = ?S
       | Inr t \<Rightarrow> t \<noteq> '''' \<and> locks (dLocks w) t = None \<and> locks l' = ?S(t := Some (temp_lock src))"
      using dav_lock_run[OF h i(1), of src] i(2) by auto
    show ?thesis
    proof (cases res)
      case (Inl st)
      then show ?thesis using run D hdr False by (auto simp: confirmLocks_def)
    next
      case (Inr t)
      let ?w1 = "w\<lparr>dLocks := l'\<rparr>"
      have T: "t \<noteq> ''''" "locks l' = ?S(t := Some (temp_lock src))" "?S t = None"
        using D(4) Inr a_expire_None by auto
      have sw: "a_expire (clock h) (locks l') = locks l'"
        unfolding T(2) using a_unlock_added(2)[of ?S "clock h" t "temp_lock src"] T(3)
        by (simp add: a_expire_expired temp_lock_def)
      show ?thesis
      proof (cases "dst = ''''")
        case True
        have c: "c = Inr (TempLocks t '''')" "w1 = ?w1"
          using run D(1) hdr True False Inr by (auto simp: confirmLocks_def)
        obtain l2 where "snd (run_state (dav_unlock h t) ?w1) = w1\<lparr>dLocks := l2\<rparr>" "locks l2 = ?S"
          using dav_unlock_temp[OF h, of ?w1 t ?S src] D(2) T by (auto simp: c a_expire_expired)
        then show ?thesis using T(2) True by (auto simp: c run_release_def none split: prod.split)
      next
        case d: False
        have room: "0 < room (dLocks ?w1)" using D(3) i(2) by simp
        have i1: "inv (dLocks ?w1)" using D(2) by simp
        obtain l2 res2 where E0: "run_state (dav_lock h dst) ?w1 = (res2, ?w1\<lparr>dLocks := l2\<rparr>)" "inv l2"
          "case res2 of Inl st \<Rightarrow> locks l2 = a_expire (clock h) (locks (dLocks ?w1))
           | Inr u \<Rightarrow> u \<noteq> '''' \<and> locks (dLocks ?w1) u = None
               \<and> locks l2 = (a_expire (clock h) (locks (dLocks ?w1)))(u := Some (temp_lock dst))"
          using dav_lock_run[OF h i1 room, of dst] by blast
        have E: "run_state (dav_lock h dst) ?w1 = (res2, w\<lparr>dLocks := l2\<rparr>)" "inv l2"
          "case res2 of Inl st \<Rightarrow> locks l2 = locks l'
           | Inr u \<Rightarrow> u \<noteq> '''' \<and> locks l' u = None \<and> locks l2 = (locks l')(u := Some (temp_lock dst))"
          using E0 sw by (simp_all cong: sum.case_cong)
        show ?thesis
        proof (cases res2)
          case (Inl st)
          obtain l3 where u: "snd (run_state (dav_unlock h t) (w\<lparr>dLocks := l2\<rparr>)) = w\<lparr>dLocks := l3\<rparr>" "locks l3 = ?S"
            using dav_unlock_temp[OF h, of "w\<lparr>dLocks := l2\<rparr>" t ?S src] E(2,3) T Inl by (auto simp: a_expire_expired)
          have "c = Inl st" "w1 = snd (run_state (dav_unlock h t) (w\<lparr>dLocks := l2\<rparr>))"
            using run D(1) E(1) hdr False d Inr Inl by (auto simp: confirmLocks_def split: prod.splits)
          then show ?thesis using u by simp
        next
          case (Inr u)
          have c: "c = Inr (TempLocks t u)" "w1 = w\<lparr>dLocks := l2\<rparr>"
            using run D(1) E(1) hdr False d Inr \<open>res = Inr t\<close> by (auto simp: confirmLocks_def)
          have U: "u \<noteq> ''''" "locks l2 = (locks l')(u := Some (temp_lock dst))" "locks l' u = None" using E(3) Inr by auto
          then have ut: "u \<noteq> t" using T(2) by auto
          obtain l3 where u3: "snd (run_state (dav_unlock h u) w1) = w1\<lparr>dLocks := l3\<rparr>" "inv l3" "locks l3 = locks l'"
            using dav_unlock_temp[OF h, of w1 u "locks l'" dst] E(2) U sw by (auto simp: c)
          obtain l4 where u4: "snd (run_state (dav_unlock h t) (w1\<lparr>dLocks := l3\<rparr>)) = w1\<lparr>dLocks := l4\<rparr>" "locks l4 = ?S"
            using dav_unlock_temp[OF h, of "w1\<lparr>dLocks := l3\<rparr>" t ?S src] u3(2,3) T by (auto simp: a_expire_expired)
          have "snd (run_state (run_release h (TempLocks t u)) w1) = w1\<lparr>dLocks := l4\<rparr>"
            using u3(1) u4(1) by (auto simp: run_release_def split: prod.split)
          moreover have "locks l2 t = Some (temp_lock src)" "locks l2 u = Some (temp_lock dst)" using U(2) T(2) ut by simp_all
          ultimately show ?thesis using u4(2) by (auto simp: c)
        qed
      qed
    qed
  qed
qed

end

section \<open>The in-memory lock system provides it\<close>

text \<open>Operations that panic (\<open>None\<close>) keep the state and fail; \<open>lock_system_never_panics\<close>
  excludes this for reachable states.\<close>

definition or_fail :: "'s \<Rightarrow> 'e \<Rightarrow> ('s \<times> 'e) option \<Rightarrow> 's \<times> 'e" where
  "or_fail s e x = (case x of None \<Rightarrow> (s, e) | Some y \<Rightarrow> y)"

definition mem_api :: "(memLS, nat option \<times> nat option) lock_api" where
  "mem_api = \<lparr>lsConfirm = (\<lambda>t0 name0 name1 conds m. or_fail m (Inl ErrConfirmationFailed) (Confirm t0 name0 name1 conds m)),
     lsRelease = (\<lambda>ns m. case release ns m of None \<Rightarrow> m | Some m' \<Rightarrow> m'),
     lsCreate = (\<lambda>t0 d m. or_fail m (Inl ErrLocked) (Create t0 d m)),
     lsRefresh = (\<lambda>t0 t dur m. or_fail m (Inl ErrNoSuchLock) (Refresh t0 t dur m)),
     lsUnlock = (\<lambda>t0 t m. or_fail m (Some ErrNoSuchLock) (Unlock t0 t m))\<rparr>"

definition tokens_left :: "memLS \<Rightarrow> nat" where
  "tokens_left m = 2 ^ 64 - 1 - unat (gen m)"

interpretation mem: lock_system mem_api linv abs_locks tokens_left
proof
  fix l t0 d l' res
  assume i: "linv l" and r: "0 < tokens_left l" and c: "lsCreate mem_api t0 d l = (l', res)"
  have g: "unat (gen l) < 2 ^ 64 - 1" using r by (simp add: tokens_left_def)
  obtain m' s where "Create t0 d l = Some (m', s)" "linv m'" "unat (gen m') \<le> Suc (unat (gen l))"
    "a_create t0 d (nat_dec (Suc (unat (gen l)))) (abs_locks l) = (abs_locks m', s)"
    using Create_refines[OF i g, of t0 d] by blast
  then show "linv l' \<and> tokens_left l \<le> Suc (tokens_left l')
      \<and> (\<exists>t. t \<noteq> [] \<and> abs_locks l t = None \<and> a_create t0 d t (abs_locks l) = (abs_locks l', res))"
    using c next_token_unused[OF i] nat_dec_nonempty[of "Suc (unat (gen l))"]
    by (auto simp: mem_api_def or_fail_def tokens_left_def intro!: exI[of _ "nat_dec (Suc (unat (gen l)))"])
next
  fix l t0 t l' e
  assume i: "linv l" and u: "lsUnlock mem_api t0 t l = (l', e)"
  show "linv l' \<and> tokens_left l' = tokens_left l \<and> a_unlock t0 t (abs_locks l) = (abs_locks l', e)"
    using Unlock_refines[OF i, of t0 t] u by (auto simp: mem_api_def or_fail_def tokens_left_def)
qed

section \<open>Properties\<close>

text \<open>C20: Temporary locks leave no trace: confirming a request without an \<open>If\<close> header either fails
  and leaves the locks as they were (but for expired ones), or locks both paths until the release
  function runs, which gives back exactly the locks there were.\<close>

theorem confirmLocks_leaves_no_trace:
  assumes "lock_run g (dLocks w) ps" "1 < tokens_left (dLocks w)" "LockSystem h = mem_api"
    and "rHeader r ''If'' = ''''" "src \<noteq> '''' \<or> dst \<noteq> ''''" "run_state (confirmLocks h r src dst) w = (c, w1)"
  shows "case c of Inl st \<Rightarrow> abs_locks (dLocks w1) = a_expire (clock h) (abs_locks (dLocks w))
    | Inr rel \<Rightarrow> abs_locks (dLocks (snd (run_state (run_release h rel) w1))) = a_expire (clock h) (abs_locks (dLocks w))
        \<and> (src \<noteq> '''' \<longrightarrow> (\<exists>t. abs_locks (dLocks w1) t = Some (temp_lock src)))
        \<and> (dst \<noteq> '''' \<longrightarrow> (\<exists>t. abs_locks (dLocks w1) t = Some (temp_lock dst)))"
  using assms by (intro mem.confirmLocks_restores lock_run_facts(1)) auto

definition demo_dav :: "(memLS, nat option \<times> nat option) dav_env" where
  "demo_dav = \<lparr>Prefix = ''/dav'', LockSystem = mem_api, urlParse = (\<lambda>u. Some ('''', u)), nearMeta = (\<lambda>p. Inl MetaNotFound),
     clock = 1, IgnoreSystemFiles = False, etagFails = (\<lambda>_. False)\<rparr>"

definition demo_dreq :: "string \<Rightarrow> dav_req" where
  "demo_dreq p = \<lparr>rMethod = ''MOVE'', rPath = p, rHost = ''h'', rHeader = (\<lambda>_. ''''), rContentLength = 0, rLockInfo = Inr (Some '''')\<rparr>"

definition demo_dworld :: "(unit, memLS) dav" where
  "demo_dworld = \<lparr>wFs = (), wCalls = [], dLocks = demo_two\<rparr>"

lemma demo_room: "1 < tokens_left (dLocks demo_dworld)"
  by (simp add: tokens_left_def demo_dworld_def demo_gen)

lemma demo_dworld_run: "lock_run 5 (dLocks demo_dworld) []"
  by (simp add: demo_dworld_def demo_run(2))

theorem confirmLocks_leaves_no_trace_witness:
  "\<exists>rel w1. run_state (confirmLocks demo_dav (demo_dreq ''/dav/c'') ''/c'' ''/d'') demo_dworld = (Inr rel, w1)
     \<and> (\<exists>t. abs_locks (dLocks w1) t = Some (temp_lock ''/c''))"
proof -
  let ?m = "confirmLocks demo_dav (demo_dreq ''/dav/c'') ''/c'' ''/d''"
  obtain c w1 where run: "run_state ?m demo_dworld = (c, w1)" by fastforce
  have "fst (run_state ?m demo_dworld) = Inr (TempLocks ''8'' ''9'')" by code_simp
  then have c: "c = Inr (TempLocks ''8'' ''9'')" using run by simp
  have "LockSystem demo_dav = mem_api" "rHeader (demo_dreq ''/dav/c'') ''If'' = ''''" by (simp_all add: demo_dav_def demo_dreq_def)
  from confirmLocks_leaves_no_trace[OF demo_dworld_run demo_room this _ run] run show ?thesis by (auto simp: c)
qed

text \<open>C19: A locked path stops the request.  Take the path of the request as it was sent, with the prefix of the
  handler stripped and before the user's base path is joined; while a live lock conflicts with it, a
  \<open>DELETE\<close>, \<open>PUT\<close> or \<open>MKCOL\<close> without an \<open>If\<close> header is answered 423 and calls nothing that changes a storage.
  For a user whose base path is the root this is the path of the resource; for another it is not, and \<open>LOCK\<close>
  locks the joined path (\<open>LOCK_does_not_guard_PUT\<close>).\<close>

theorem locked_path_stops_the_request:
  assumes "lock_run g (dLocks w) ps" "0 < tokens_left (dLocks w)" "LockSystem h = mem_api"
    and "rHeader r ''If'' = ''''" "stripPrefix h (rPath r) = Inr p" "p \<noteq> ''''"
    and "a_conflict (a_expire (clock h) (abs_locks (dLocks w))) (comps_of (slashClean p)) True"
    and "f \<in> {handleDelete, handlePut, handleMkcol}"
  shows "\<exists>w'. run_state (f h api user r) w = ((423, True), w') \<and> wCalls w' = wCalls w \<and> wFs w' = wFs w"
proof -
  obtain w1 where "run_state (confirmLocks h r p '''') w = (Inl 423, w1)" "wCalls w1 = wCalls w" "wFs w1 = wFs w"
    using mem.confirmLocks_refused[OF assms(3) lock_run_facts(1)[OF assms(1)] assms(2,4,6,7)] by blast
  then show ?thesis
    using assms(5,6,8) by (auto simp: handleDelete_def handlePut_def handleMkcol_def with_locks_def)
qed

definition demo_dfs :: "unit fs_api" where
  "demo_dfs = \<lparr>apiGet = (\<lambda>p w. Inr \<lparr>oName = path_base p, oSize = 1, oIsDir = True\<rparr>), apiList = (\<lambda>p w. Inr []),
     apiDo = (\<lambda>c w. (w, None))\<rparr>"

theorem locked_path_stops_the_request_witness:
  "\<exists>w'. run_state (handlePut demo_dav demo_dfs demo_user (demo_dreq ''/dav/a/x'')) demo_dworld = ((423, True), w')
     \<and> wCalls w' = []"
proof -
  have s: "stripPrefix demo_dav (rPath (demo_dreq ''/dav/a/x'')) = Inr ''/a/x''" by code_simp
  have h: "LockSystem demo_dav = mem_api" "rHeader (demo_dreq ''/dav/a/x'') ''If'' = ''''"
    by (simp_all add: demo_dav_def demo_dreq_def)
  have "a_covers (aRoot (the (abs_locks demo_two ''6''))) (ZeroDepth (aDetails (the (abs_locks demo_two ''6''))))
      (comps_of (slashClean ''/a/x''))" "a_expire 1 (abs_locks demo_two) ''6'' = Some (the (abs_locks demo_two ''6''))"
    by code_simp+
  then have "a_conflict (a_expire (clock demo_dav) (abs_locks (dLocks demo_dworld))) (comps_of (slashClean ''/a/x'')) True"
    unfolding a_conflict_def by (auto simp: demo_dav_def demo_dworld_def)
  moreover have "0 < tokens_left (dLocks demo_dworld)" using demo_room by simp
  ultimately show ?thesis
    using locked_path_stops_the_request[OF demo_dworld_run _ h s, of handlePut demo_dfs demo_user]
    by (auto simp: demo_dworld_def)
qed

text \<open>A lock does not guard a resource of a user with a base path: \<open>LOCK\<close> locks the path under
  the base path, \<open>PUT\<close> asks for the path without it, so another client's \<open>PUT\<close> of the locked
  file succeeds; for a user whose base path is the root it is refused.\<close>

definition lock_then_put :: "User \<Rightarrow> status \<times> status \<times> fs_call list" where
  "lock_then_put u =
     (let r = demo_dreq ''/dav/a''; w0 = \<lparr>wFs = (), wCalls = [], dLocks = NewMemLS 5\<rparr>;
          (s1, w1) = run_state (handleLock demo_dav u r) w0; (s2, w2) = run_state (handlePut demo_dav demo_dfs u r) w1
      in (s1, s2, wCalls w2))"

theorem LOCK_does_not_guard_PUT:
  "lock_then_put demo_user = ((0, False), (201, False), [PutTo ''/home'' ''a''])
   \<and> lock_then_put (demo_user\<lparr>BasePath := ''/''\<rparr>) = ((0, False), (423, True), [])"
  by code_simp

text \<open>UNLOCK does not compare the token with the request's path: a user confined to \<open>/guest\<close> removes
  the lock on \<open>/a\<close> when the token is known, naming any path of its own.\<close>

lemma UNLOCK_ignores_the_path:
  "let (st, w) = run_state (handleUnlock demo_dav (demo_user\<lparr>BasePath := ''/guest''\<rparr>)
       ((demo_dreq ''/dav/x'')\<lparr>rHeader := (\<lambda>k. if k = ''Lock-Token'' then ''<6>'' else '''')\<rparr>)) demo_dworld
   in st = (204, False) \<and> abs_locks demo_two ''6'' \<noteq> None \<and> abs_locks (dLocks w) ''6'' = None"
  by code_simp

end
