(* ===== verification/Webdav_Props.thy ===== *)
theory Webdav_Props imports Webdav_Handler begin

text \<open>
  Properties of resources: \<open>server/webdav/prop.go\<close>, what \<open>xml.go\<close> checks of a decoded body and of
  the responses it writes, the walk of \<open>file.go\<close>, and the handlers for PROPFIND, PROPPATCH, OPTIONS
  and GET.  The XML decoder and encoder, \<open>url.EscapedPath\<close>, the MIME table, the hashes and the
  date formats are fields of an environment.
\<close>

section \<open>Properties\<close>

type_synonym xml_name = "string \<times> string"

record Property =
  XMLName :: xml_name
  Lang :: string
  InnerXML :: string

record Proppatch =
  Remove :: bool
  Props :: "Property list"

record Propstat =
  psProps :: "Property list"
  psStatus :: int
  XMLError :: string
  ResponseDescription :: string

text \<open>An element \<open>response\<close> and its \<open>propstat\<close> children as they are written.\<close>

record propstat =
  rpProp :: "Property list"
  rpStatus :: string
  rpError :: "string option"
  rpDescription :: string

record response =
  Href :: "string list"
  rPropstat :: "propstat list"
  rStatus :: string

definition makePropstats :: "Propstat \<Rightarrow> Propstat \<Rightarrow> Propstat list" where
  "makePropstats x y =
     (let pstats = (if length (psProps x) \<noteq> 0 then [x] else []) @ (if length (psProps y) \<noteq> 0 then [y] else [])
      in if pstats = [] then [\<lparr>psProps = [], psStatus = 200, XMLError = '''', ResponseDescription = ''''\<rparr>] else pstats)"

datatype find_fn = findResourceType | findDisplayName | findContentLength | findLastModified | findCreationDate
  | findContentType | findETag | findSupportedLock | findChecksums

text \<open>A live property: its find function, \<open>None\<close> if hidden, and whether it applies to directories.\<close>

definition liveProps :: "(xml_name \<times> find_fn option \<times> bool) list" where
  "liveProps =
    [((''DAV:'', ''resourcetype''), Some findResourceType, True),
     ((''DAV:'', ''displayname''), Some findDisplayName, True),
     ((''DAV:'', ''getcontentlength''), Some findContentLength, False),
     ((''DAV:'', ''getlastmodified''), Some findLastModified, True),
     ((''DAV:'', ''creationdate''), Some findCreationDate, True),
     ((''DAV:'', ''getcontentlanguage''), None, False),
     ((''DAV:'', ''getcontenttype''), Some findContentType, False),
     ((''DAV:'', ''getetag''), Some findETag, False),
     ((''DAV:'', ''lockdiscovery''), None, False),
     ((''DAV:'', ''supportedlock''), Some findSupportedLock, True),
     ((''http://owncloud.org/ns'', ''checksums''), Some findChecksums, False)]"

record prop_env =
  escapeText :: "string \<Rightarrow> string"
  escapedPath :: "string \<Rightarrow> string"
  modTime :: "fobj \<Rightarrow> string"
  createTime :: "bool \<Rightarrow> fobj \<Rightarrow> string"
  userAgent :: string
  lowerCase :: "string \<Rightarrow> string"
  mimeType :: "string \<Rightarrow> string"
  getEtag :: "fobj \<Rightarrow> unit + string"
  getHashes :: "fobj \<Rightarrow> (string \<times> string) list"
  mapOrder :: "xml_name list"
  encodes :: "response \<Rightarrow> bool"
  httpStatusText :: "int \<Rightarrow> string"
  reMatch :: "string \<Rightarrow> string \<Rightarrow> bool option"

definition xml_plain :: "char \<Rightarrow> bool" where
  "xml_plain c \<longleftrightarrow> c = CHR '' '' \<or> c = CHR ''_''
     \<or> (of_char (CHR ''+'') :: nat) \<le> of_char c \<and> (of_char c :: nat) \<le> of_char (CHR ''9'')
     \<or> (of_char (CHR ''A'') :: nat) \<le> of_char c \<and> (of_char c :: nat) \<le> of_char (CHR ''Z'')
     \<or> (of_char (CHR ''a'') :: nat) \<le> of_char c \<and> (of_char c :: nat) \<le> of_char (CHR ''z'')"

definition escapeXML :: "prop_env \<Rightarrow> string \<Rightarrow> string" where
  "escapeXML e s = (if list_all xml_plain s then s else escapeText e s)"

fun find_prop :: "prop_env \<Rightarrow> find_fn \<Rightarrow> fobj \<Rightarrow> unit + string" where
  "find_prop e findResourceType fi = Inr (if oIsDir fi then ''<D:collection xmlns:D=\"DAV:\"/>'' else '''')"
| "find_prop e findDisplayName fi = Inr (if slashClean (oName fi) = ''/'' then '''' else escapeXML e (oName fi))"
| "find_prop e findContentLength fi = Inr (format_int (oSize fi))"
| "find_prop e findLastModified fi = Inr (modTime e fi)"
| "find_prop e findCreationDate fi = Inr (createTime e (contains_str (lowerCase e (userAgent e)) ''microsoft-webdav'') fi)"
| "find_prop e findContentType fi = Inr (mimeType e (oName fi))"
| "find_prop e findETag fi = getEtag e fi"
| "find_prop e findSupportedLock fi = Inr (''<D:lockentry xmlns:D=\"DAV:\">'' @ ''<D:lockscope><D:exclusive/></D:lockscope>''
     @ ''<D:locktype><D:write/></D:locktype>'' @ ''</D:lockentry>'')"
| "find_prop e findChecksums fi =
     Inr (concat (map (\<lambda>(t, v). ''<checksum>'' @ t @ '':'' @ v @ ''</checksum>'') (getHashes e fi)))"

definition live_fn :: "bool \<Rightarrow> xml_name \<Rightarrow> find_fn option" where
  "live_fn isDir pn = (case map_of liveProps pn of Some (Some f, dir) \<Rightarrow> if dir \<or> \<not> isDir then Some f else None | _ \<Rightarrow> None)"

definition named :: "xml_name \<Rightarrow> Property" where
  "named pn = \<lparr>XMLName = pn, Lang = '''', InnerXML = ''''\<rparr>"

fun props_loop :: "prop_env \<Rightarrow> fobj \<Rightarrow> xml_name list \<Rightarrow> Property list \<Rightarrow> Property list \<Rightarrow> unit + Property list \<times> Property list" where
  "props_loop e fi [] ok nf = Inr (ok, nf)"
| "props_loop e fi (pn # pnames) ok nf =
     (case live_fn (oIsDir fi) pn of
        Some f \<Rightarrow> (case find_prop e f fi of
            Inl x \<Rightarrow> Inl x
          | Inr xml \<Rightarrow> props_loop e fi pnames (ok @ [(named pn)\<lparr>InnerXML := xml\<rparr>]) nf)
      | None \<Rightarrow> props_loop e fi pnames ok (nf @ [named pn]))"

definition pstat :: "int \<Rightarrow> string \<Rightarrow> Property list \<Rightarrow> Propstat" where
  "pstat st err ps = \<lparr>psProps = ps, psStatus = st, XMLError = err, ResponseDescription = ''''\<rparr>"

definition props :: "prop_env \<Rightarrow> fobj \<Rightarrow> xml_name list \<Rightarrow> unit + Propstat list" where
  "props e fi pnames =
     (case props_loop e fi pnames [] [] of
        Inl x \<Rightarrow> Inl x
      | Inr (ok, nf) \<Rightarrow> Inr (makePropstats (pstat 200 '''' ok) (pstat 404 '''' nf)))"

text \<open>Go ranges over the map in an unspecified order: \<open>mapOrder\<close>.\<close>

definition propnames :: "prop_env \<Rightarrow> fobj \<Rightarrow> xml_name list" where
  "propnames e fi = filter (\<lambda>pn. live_fn (oIsDir fi) pn \<noteq> None) (mapOrder e)"

definition allprop :: "prop_env \<Rightarrow> fobj \<Rightarrow> xml_name list \<Rightarrow> unit + Propstat list" where
  "allprop e fi include =
     (let pnames = propnames e fi
      in props e fi (pnames @ filter (\<lambda>pn. \<not> List.member pnames pn) include))"

definition is_live :: "Property \<Rightarrow> bool" where
  "is_live p \<longleftrightarrow> map_of liveProps (XMLName p) \<noteq> None"

definition patch :: "Proppatch list \<Rightarrow> Propstat list" where
  "patch patches =
     (let ps = concat (map Props patches); name_of = (\<lambda>p. named (XMLName p))
      in if list_ex is_live ps
         then makePropstats
           (pstat 403 ''<D:cannot-modify-protected-property xmlns:D=\"DAV:\"/>'' (map name_of (filter is_live ps)))
           (pstat 424 '''' (map name_of (filter (\<lambda>p. \<not> is_live p) ps)))
         else [pstat 403 '''' (map name_of ps)])"

section \<open>Request bodies\<close>

text \<open>A decoded \<open>propfind\<close> element: which of its children are there.\<close>

record propfind =
  Allprop :: bool
  Propname :: bool
  Prop :: "xml_name list option"
  Include :: "xml_name list option"

text \<open>\<open>None\<close> is an empty body, \<open>Some None\<close> one that does not decode.\<close>

definition readPropfind :: "propfind option option \<Rightarrow> int + propfind" where
  "readPropfind body =
     (case body of
        None \<Rightarrow> Inr \<lparr>Allprop = True, Propname = False, Prop = None, Include = None\<rparr>
      | Some None \<Rightarrow> Inl 400
      | Some (Some pf) \<Rightarrow>
          if \<not> Allprop pf \<and> Include pf \<noteq> None then Inl 400
          else if Allprop pf \<and> (Prop pf \<noteq> None \<or> Propname pf) then Inl 400
          else if Prop pf \<noteq> None \<and> Propname pf then Inl 400
          else if \<not> Propname pf \<and> \<not> Allprop pf \<and> Prop pf = None then Inl 400
          else Inr pf)"

text \<open>The children of a decoded \<open>propertyupdate\<close> element.\<close>

fun readProppatch_loop :: "(xml_name \<times> Property list) list \<Rightarrow> Proppatch list \<Rightarrow> int + Proppatch list" where
  "readProppatch_loop [] patches = Inr patches"
| "readProppatch_loop ((name, ps) # ops) patches =
     (if name = (''DAV:'', ''set'') then readProppatch_loop ops (patches @ [\<lparr>Remove = False, Props = ps\<rparr>])
      else if name = (''DAV:'', ''remove'') then
        (if list_ex (\<lambda>p. length (InnerXML p) > 0) ps then Inl 400
         else readProppatch_loop ops (patches @ [\<lparr>Remove = True, Props = ps\<rparr>]))
      else Inl 400)"

definition readProppatch :: "(xml_name \<times> Property list) list option \<Rightarrow> int + Proppatch list" where
  "readProppatch body = (case body of None \<Rightarrow> Inl 400 | Some ops \<Rightarrow> readProppatch_loop ops [])"

definition xml_special :: "char \<Rightarrow> bool" where
  "xml_special c \<longleftrightarrow> c = CHR 0x22 \<or> c = CHR ''&'' \<or> c = CHR 0x27 \<or> c = CHR ''<'' \<or> c = CHR ''>''"

definition escape :: "prop_env \<Rightarrow> string \<Rightarrow> string" where
  "escape e s = (if list_ex xml_special s then escapeText e s else s)"

section \<open>Responses\<close>

definition StatusText :: "prop_env \<Rightarrow> int \<Rightarrow> string" where
  "StatusText e code =
     (if code = 207 then ''Multi-Status'' else if code = 422 then ''Unprocessable Entity''
      else if code = 423 then ''Locked'' else if code = 424 then ''Failed Dependency''
      else if code = 507 then ''Insufficient Storage'' else httpStatusText e code)"

definition makePropstatResponse :: "prop_env \<Rightarrow> string \<Rightarrow> Propstat list \<Rightarrow> response" where
  "makePropstatResponse e href pstats =
     \<lparr>Href = [escapedPath e href],
      rPropstat = map (\<lambda>p. \<lparr>rpProp = psProps p,
          rpStatus = ''HTTP/1.1 '' @ format_int (psStatus p) @ '' '' @ StatusText e (psStatus p),
          rpError = (if XMLError p \<noteq> '''' then Some (XMLError p) else None),
          rpDescription = ResponseDescription p\<rparr>) pstats,
      rStatus = ''''\<rparr>"

datatype walk_err = SkipDir | ListError fs_error | PropError | InvalidResponse | EncodeError

text \<open>\<open>mwHeader\<close>: the header and the start element are written (\<open>enc != nil\<close>).\<close>

record multistatusWriter =
  mwHeader :: bool
  mwOut :: "response list"

definition mw_write :: "prop_env \<Rightarrow> response \<Rightarrow> multistatusWriter \<Rightarrow> walk_err option \<times> multistatusWriter" where
  "mw_write e r mw =
     (let valid = (case Href r of
            [] \<Rightarrow> False
          | [x] \<Rightarrow> \<not> ((length (rPropstat r) > 0) \<noteq> (rStatus r = ''''))
          | _ \<Rightarrow> \<not> (length (rPropstat r) > 0 \<or> rStatus r = ''''))
      in if \<not> valid then (Some InvalidResponse, mw)
         else if \<not> encodes e r then (Some EncodeError, mw\<lparr>mwHeader := True\<rparr>)
         else (None, mw\<lparr>mwHeader := True, mwOut := mwOut mw @ [r]\<rparr>))"

section \<open>Walking a tree\<close>

type_synonym 's walk_fn = "string \<Rightarrow> fobj \<Rightarrow> walk_err option \<Rightarrow> 's \<Rightarrow> walk_err option \<times> 's"

text \<open>The loop over a directory's objects; the error of an earlier iteration stays in \<open>err\<close>.\<close>

fun walk_objs :: "(string \<Rightarrow> fobj \<Rightarrow> 's \<Rightarrow> (walk_err option \<times> 's) option) \<Rightarrow> 's walk_fn \<Rightarrow> string \<Rightarrow>
    fobj list \<Rightarrow> walk_err option \<Rightarrow> 's \<Rightarrow> (walk_err option \<times> 's) option" where
  "walk_objs walk walkFn name [] err s = Some (None, s)"
| "walk_objs walk walkFn name (f # objs) err s =
     (let filename = path_join name (oName f)
      in case err of
           Some e \<Rightarrow> (case walkFn filename f (Some e) s of (r, s') \<Rightarrow>
             if r \<noteq> None \<and> r \<noteq> Some SkipDir then Some (r, s') else walk_objs walk walkFn name objs err s')
         | None \<Rightarrow> Option.bind (walk filename f s) (\<lambda>(r, s').
             if r \<noteq> None \<and> (\<not> oIsDir f \<or> r \<noteq> Some SkipDir) then Some (r, s')
             else walk_objs walk walkFn name objs r s'))"

lemma walk_objs_mono [partial_function_mono]:
  assumes "\<And>fn f s. mono_option (\<lambda>F. B F fn f s)"
  shows "mono_option (\<lambda>F. walk_objs (B F) walkFn name objs err s)"
proof (induction objs arbitrary: err s)
  case (Cons f objs)
  have "mono_option (\<lambda>F. Option.bind (B F (path_join name (oName f)) f s) (\<lambda>(r, s').
      if r \<noteq> None \<and> (\<not> oIsDir f \<or> r \<noteq> Some SkipDir) then Some (r, s') else walk_objs (B F) walkFn name objs r s'))"
  proof (intro bind_mono assms)
    fix y :: "walk_err option \<times> 'a"
    show "mono_option (\<lambda>F. case y of (r, s') \<Rightarrow>
      if r \<noteq> None \<and> (\<not> oIsDir f \<or> r \<noteq> Some SkipDir) then Some (r, s') else walk_objs (B F) walkFn name objs r s')"
      using Cons option.const_mono by (cases "fst y \<noteq> None \<and> (\<not> oIsDir f \<or> fst y \<noteq> Some SkipDir)") (auto simp: split_beta)
  qed
  moreover have "mono_option (\<lambda>F. case walkFn (path_join name (oName f)) f (Some e) s of (r, s') \<Rightarrow>
      if r \<noteq> None \<and> r \<noteq> Some SkipDir then Some (r, s') else walk_objs (B F) walkFn name objs (Some e) s')" for e
    using Cons option.const_mono
    by (cases "walkFn (path_join name (oName f)) f (Some e) s"; cases "fst (walkFn (path_join name (oName f)) f (Some e) s) \<in> {None, Some SkipDir}") auto
  ultimately show ?case by (cases err) (simp_all add: Let_def)
qed (simp add: option.const_mono)

partial_function (option) walkFS :: "(string \<Rightarrow> fs_error + fobj list) \<Rightarrow> 's walk_fn \<Rightarrow> int \<Rightarrow> string \<Rightarrow> fobj \<Rightarrow> 's \<Rightarrow>
    (walk_err option \<times> 's) option" where
  "walkFS lst walkFn depth name info s =
     (case walkFn name info None s of (r, s1) \<Rightarrow>
      case r of
        Some e \<Rightarrow> if oIsDir info \<and> e = SkipDir then Some (None, s1) else Some (r, s1)
      | None \<Rightarrow>
          if \<not> oIsDir info \<or> depth = 0 then Some (None, s1)
          else (case lst name of
              Inl e \<Rightarrow> Some (walkFn name info (Some (ListError e)) s1)
            | Inr objs \<Rightarrow> walk_objs (\<lambda>fn f s. walkFS lst walkFn (if depth = 1 then 0 else depth) fn f s)
                walkFn name objs None s1))"

declare walkFS.simps [code]

section \<open>PROPFIND\<close>

definition propfind_href :: "('l, 'r) dav_env \<Rightarrow> User \<Rightarrow> string \<Rightarrow> fobj \<Rightarrow> string" where
  "propfind_href h user reqPath info =
     (let href = path_join (Prefix h) (trim_prefix reqPath (BasePath user))
      in if href \<noteq> ''/'' \<and> oIsDir info then href @ ''/'' else href)"

definition propfind_props :: "prop_env \<Rightarrow> propfind \<Rightarrow> fobj \<Rightarrow> unit + Propstat list" where
  "propfind_props e pf info =
     (let named_props = (case Prop pf of None \<Rightarrow> [] | Some ns \<Rightarrow> ns)
      in if Propname pf then Inr [pstat 200 '''' (map named (propnames e info))]
         else if Allprop pf then allprop e info named_props
         else props e info named_props)"

definition propfind_walkFn :: "('l, 'r) dav_env \<Rightarrow> prop_env \<Rightarrow> User \<Rightarrow> propfind \<Rightarrow> multistatusWriter walk_fn" where
  "propfind_walkFn h e user pf reqPath info err mw =
     (case err of
        Some x \<Rightarrow> (Some x, mw)
      | None \<Rightarrow> (case propfind_props e pf info of
            Inl x \<Rightarrow> (Some PropError, mw)
          | Inr pstats \<Rightarrow> mw_write e (makePropstatResponse e (propfind_href h user reqPath info) pstats) mw))"

text \<open>\<open>None\<close>: a hide line does not compile, or the walk does not end.\<close>

definition handlePropfind :: "('l, 'r) dav_env \<Rightarrow> 'w fs_api \<Rightarrow> prop_env \<Rightarrow> User \<Rightarrow> string \<Rightarrow> dav_req \<Rightarrow>
    propfind option option \<Rightarrow> 'w \<Rightarrow> (status \<times> response list) option" where
  "handlePropfind h api e user password r body w =
     (let fail = (\<lambda>st. Some ((st, True), [])) in
      case stripPrefix h (rPath r) of Inl st \<Rightarrow> fail st | Inr reqPath \<Rightarrow>
      case JoinPath user reqPath of Inl x \<Rightarrow> fail 403 | Inr reqPath \<Rightarrow>
      case near_or h reqPath of Inl st \<Rightarrow> Some (st, []) | Inr meta \<Rightarrow>
      case CanAccess (reMatch e) user meta reqPath password of None \<Rightarrow> None | Some ok \<Rightarrow>
      if \<not> ok then fail 403
      else case apiGet api reqPath w of
        Inl x \<Rightarrow> fail (if x = ObjectNotFound \<or> x = StorageNotFound then 404 else 405)
      | Inr fi \<Rightarrow>
          let hdr = rHeader r ''Depth''; depth = (if hdr \<noteq> '''' then parseDepth hdr else infiniteDepth) in
          if hdr \<noteq> '''' \<and> depth = invalidDepth then fail 400
          else case readPropfind body of Inl st \<Rightarrow> fail st | Inr pf \<Rightarrow>
            map_option (\<lambda>(err, mw). (if err \<noteq> None then (500, True) else (0, False), mwOut mw))
              (walkFS (\<lambda>p. apiList api p w) (propfind_walkFn h e user pf) depth reqPath fi \<lparr>mwHeader = False, mwOut = []\<rparr>))"

section \<open>PROPPATCH, OPTIONS, GET\<close>

definition handleProppatch :: "('l, 'r) dav_env \<Rightarrow> 'w fs_api \<Rightarrow> prop_env \<Rightarrow> User \<Rightarrow> dav_req \<Rightarrow>
    (xml_name \<times> Property list) list option \<Rightarrow> (('w, 'l) dav, status \<times> response list) state" where
  "handleProppatch h api e user r body =
     (case stripPrefix h (rPath r) of Inl st \<Rightarrow> State_Monad.return ((st, True), []) | Inr reqPath \<Rightarrow> do {
        c \<leftarrow> confirmLocks h r reqPath '''';
        case c of
          Inl st \<Rightarrow> State_Monad.return ((st, True), [])
        | Inr rel \<Rightarrow> do {
            res \<leftarrow> (case JoinPath user reqPath of Inl x \<Rightarrow> State_Monad.return ((403, True), []) | Inr reqPath \<Rightarrow>
              case near_or h reqPath of Inl st \<Rightarrow> State_Monad.return (st, []) | Inr meta \<Rightarrow>
              if \<not> CanWrite (Some user) meta reqPath then State_Monad.return ((403, True), [])
              else do {
                g \<leftarrow> fsGet api reqPath;
                State_Monad.return (case g of
                    Inl x \<Rightarrow> ((if x = ObjectNotFound then 404 else 405, True), [])
                  | Inr fi \<Rightarrow> (case readProppatch body of
                      Inl st \<Rightarrow> ((st, True), [])
                    | Inr patches \<Rightarrow>
                        (case mw_write e (makePropstatResponse e (rPath r) (patch patches)) \<lparr>mwHeader = False, mwOut = []\<rparr> of
                          (Some x, mw) \<Rightarrow> ((500, True), mwOut mw)
                        | (None, mw) \<Rightarrow> ((0, False), mwOut mw))))
              });
            u \<leftarrow> run_release h rel;
            State_Monad.return res
          }
      })"

text \<open>The status and the \<open>Allow\<close> header, when it is set.\<close>

definition handleOptions :: "('l, 'r) dav_env \<Rightarrow> 'w fs_api \<Rightarrow> User \<Rightarrow> dav_req \<Rightarrow> 'w \<Rightarrow> status \<times> string option" where
  "handleOptions h api user r w =
     (case stripPrefix h (rPath r) of Inl st \<Rightarrow> ((st, True), None) | Inr reqPath \<Rightarrow>
      case JoinPath user reqPath of Inl x \<Rightarrow> ((403, True), None) | Inr reqPath \<Rightarrow>
      ((0, False), Some (case apiGet api reqPath w of
          Inl x \<Rightarrow> ''OPTIONS, LOCK, PUT, MKCOL''
        | Inr fi \<Rightarrow>
            if oIsDir fi then ''OPTIONS, LOCK, DELETE, PROPPATCH, COPY, MOVE, UNLOCK, PROPFIND''
            else ''OPTIONS, LOCK, GET, HEAD, POST, DELETE, PROPPATCH, COPY, MOVE, UNLOCK, PROPFIND, PUT'')))"

text \<open>How a file is served: the storage's settings (\<open>None\<close> if there is no storage), its link, and
  what the proxy answers (nothing, an error with a status code, or another error) and
  whether it wrote something before.\<close>

record serve_env =
  Webdav302 :: "string \<Rightarrow> bool option"
  downProxyURL :: "string \<Rightarrow> string"
  fsLink :: "string \<Rightarrow> bool \<Rightarrow> unit + string"
  proxyStatus :: "string \<Rightarrow> int option option"
  proxyWrote :: "string \<Rightarrow> bool"

datatype served = NoBody | RedirectTo string | Proxied string

definition handleGetHeadPost :: "('l, 'r) dav_env \<Rightarrow> 'w fs_api \<Rightarrow> prop_env \<Rightarrow> serve_env \<Rightarrow> User \<Rightarrow> string \<Rightarrow>
    bool \<Rightarrow> dav_req \<Rightarrow> 'w \<Rightarrow> (status \<times> served) option" where
  "handleGetHeadPost h api e sv user password isHead r w =
     (let fail = (\<lambda>st. Some ((st, True), NoBody)) in
      case stripPrefix h (rPath r) of Inl st \<Rightarrow> fail st | Inr reqPath \<Rightarrow>
      case JoinPath user reqPath of Inl x \<Rightarrow> fail 403 | Inr reqPath \<Rightarrow>
      case near_or h reqPath of Inl st \<Rightarrow> Some (st, NoBody) | Inr meta \<Rightarrow>
      case CanAccess (reMatch e) user meta reqPath password of None \<Rightarrow> None | Some ok \<Rightarrow>
      if \<not> ok then fail 403
      else case apiGet api reqPath w of Inl x \<Rightarrow> fail 404 | Inr fi \<Rightarrow>
      if oIsDir fi then Some ((if isHead then 200 else 405, False), NoBody)
      else case Webdav302 sv reqPath of None \<Rightarrow> None | Some redirect \<Rightarrow>
      if redirect then (case fsLink sv reqPath True of
          Inl x \<Rightarrow> fail 500 | Inr url \<Rightarrow> Some ((0, False), RedirectTo url))
      else if downProxyURL sv reqPath \<noteq> '''' then Some ((0, False), RedirectTo (downProxyURL sv reqPath))
      else (case fsLink sv reqPath False of
          Inl x \<Rightarrow> fail 500
        | Inr url \<Rightarrow> (case proxyStatus sv url of
            None \<Rightarrow> Some ((0, False), Proxied url)
          | Some (Some code) \<Rightarrow> Some ((code, True), Proxied url)
          | Some None \<Rightarrow> Some ((500, True), Proxied url))))"

section \<open>Hrefs lead back to their resources\<close>

lemma mk_abs_append: "as \<noteq> [] \<Longrightarrow> mk_abs (as @ bs) = mk_abs as @ concat (map (Cons slash) bs)"
  using mk_abs_concat[of as] mk_abs_concat[of "as @ bs"] by simp

lemma path_join_trimmed:
  assumes "normal_comps ps" "ps \<noteq> []" "normal_comps (bs @ cs)"
  shows "path_join (mk_abs ps) (trim_prefix (mk_abs (bs @ cs)) (mk_abs bs)) = mk_abs (ps @ cs)"
proof -
  have n: "normal_comps cs" "normal_comps (ps @ cs)" using assms by simp_all
  show ?thesis
  proof (cases "bs = []")
    case True
    then have t: "trim_prefix (mk_abs (bs @ cs)) (mk_abs bs) = join_char slash cs"
      using trim_prefix_append[of "[slash]" "join_char slash cs"] by (simp add: mk_abs_def)
    show ?thesis
    proof (cases "cs = []")
      case True
      then show ?thesis using t path_clean_trailing_slash[OF assms(1,2)] by (simp add: path_join_def)
    next
      case False
      then have "mk_abs ps @ slash # join_char slash cs = mk_abs (ps @ cs)"
        using assms(2) by (simp add: mk_abs_def join_char_append)
      then show ?thesis using t n by (simp add: path_join_def)
    qed
  next
    case False
    then have t: "trim_prefix (mk_abs (bs @ cs)) (mk_abs bs) = concat (map (Cons slash) cs)"
      by (simp add: mk_abs_append)
    show ?thesis
    proof (cases "cs = []")
      case True
      then show ?thesis using t path_clean_trailing_slash[OF assms(1,2)] by (simp add: path_join_def)
    next
      case False
      then show ?thesis using t mk_abs_concat[OF False] path_join_mk_abs[OF assms(1) n(1)] by simp
    qed
  qed
qed

lemma contains_dots_slash: "contains_str (s @ [slash]) ''..'' \<longleftrightarrow> contains_str s ''..''"
proof
  assume "contains_str (s @ [slash]) ''..''"
  then obtain a b where s: "s @ [slash] = a @ ''..'' @ b" by (auto simp: contains_str_iff)
  then obtain b' where "b = b' @ [slash]" by (cases b rule: rev_cases) auto
  then have "s = a @ ''..'' @ b'" using s by simp
  then show "contains_str s ''..''" by (auto simp: contains_str_iff)
next
  assume "contains_str s ''..''"
  then obtain a b where "s = a @ ''..'' @ b" by (auto simp: contains_str_iff)
  then have "s @ [slash] = a @ ''..'' @ (b @ [slash])" by simp
  then show "contains_str (s @ [slash]) ''..''" unfolding contains_str_iff by blast
qed

lemma JoinPath_comps:
  assumes "normal_comps cs" "CHR 0x5C \<notin> set (mk_abs cs)" "q \<in> {mk_abs cs, mk_abs cs @ [slash]} \<or> cs = [] \<and> q = ''''"
  shows "JoinPath user q = Inr (mk_abs (fix_comps (BasePath user) @ cs))"
proof -
  have f: "FixAndCleanPath q = mk_abs cs"
  proof (cases "q = mk_abs cs @ [slash] \<and> cs \<noteq> []")
    case True
    then have "CHR 0x5C \<notin> set q" "q \<noteq> []" "hd q = slash" using assms(2) by auto
    then show ?thesis using True FixAndCleanPath_no_backslash_id path_clean_trailing_slash[OF assms(1)] by simp
  next
    case False
    then have "q = mk_abs cs \<or> cs = [] \<and> (q = '''' \<or> q = ''//'')" using assms(3) by (auto simp: mk_abs_def)
    moreover have "FixAndCleanPath '''' = ''/''" "FixAndCleanPath ''//'' = ''/''" by code_simp+
    ultimately show ?thesis using FixAndCleanPath_mk_abs[OF assms(1,2)] by (auto simp: mk_abs_def)
  qed
  have "contains_str q ''..'' \<longrightarrow> contains_str (mk_abs cs) ''..''"
    using assms(3) contains_dots_slash[of "mk_abs cs"] by auto
  moreover have "fix_comps q = cs" using f assms(1) by (simp add: fix_comps_def)
  ultimately show ?thesis by (auto simp: JoinPath_def JoinBasePath_def Let_def f path_join_fix[symmetric] simp flip: f)
qed

text \<open>PROPFIND's hrefs round-trip: for every resource under the user's base path, a request for the
  href that PROPFIND reports (after unescaping) resolves to that very resource.\<close>

theorem propfind_href_roundtrip:
  assumes "Prefix h = mk_abs ps" "normal_comps ps" "ps \<noteq> []" "FixAndCleanPath (BasePath user) = BasePath user"
    and "IsSubPath (BasePath user) p" "FixAndCleanPath p = p"
  shows "\<exists>q. stripPrefix h (propfind_href h user p info) = Inr q \<and> JoinPath user q = Inr p"
proof -
  define bs where "bs = fix_comps (BasePath user)"
  obtain cs where cs: "fix_comps p = bs @ cs" using assms(5) by (auto simp: IsSubPath_comps bs_def prefix_def)
  have b: "BasePath user = mk_abs bs" "p = mk_abs (bs @ cs)"
    using fix_comps(2)[of "BasePath user"] fix_comps(2)[of p] assms(4,6) cs by (simp_all add: bs_def)
  have n: "normal_comps (bs @ cs)" "normal_comps cs" using fix_comps(1)[of p] cs by simp_all
  have nb: "CHR 0x5C \<notin> set (mk_abs cs)"
  proof -
    have "CHR 0x5C \<notin> set p" using assms(6) FixAndCleanPath_no_backslash by metis
    moreover have "set (mk_abs cs) \<subseteq> insert slash (set (mk_abs (bs @ cs)))"
      by (cases "bs = []"; cases "cs = []") (auto simp: mk_abs_append mk_abs_concat, auto simp: mk_abs_def)
    ultimately show ?thesis using b(2) by auto
  qed
  let ?tail = "if oIsDir info then [slash] else []"
  define rest where "rest = concat (map (Cons slash) cs) @ ?tail"
  have "mk_abs (ps @ cs) \<noteq> ''/''" using assms(2,3) n by (simp add: mk_abs_single)
  then have "propfind_href h user p info = mk_abs (ps @ cs) @ ?tail"
    using path_join_trimmed[OF assms(2,3) n(1)] by (simp add: propfind_href_def assms(1) b Let_def)
  then have "propfind_href h user p info = mk_abs ps @ rest" using assms(3) by (simp add: mk_abs_append rest_def)
  then have "stripPrefix h (propfind_href h user p info) = Inr rest"
    by (simp add: stripPrefix_def assms(1) mk_abs_def)
  moreover have "rest \<in> {mk_abs cs, mk_abs cs @ [slash]} \<or> cs = [] \<and> rest = ''''"
    by (cases "cs = []") (auto simp: rest_def mk_abs_concat, simp add: mk_abs_def)
  then have "JoinPath user rest = Inr p" using JoinPath_comps[OF n(2) nb, of rest user] b(2) by (simp add: bs_def[symmetric])
  ultimately show ?thesis by blast
qed

section \<open>PROPFIND answers with the tree\<close>

text \<open>A tree of objects, the paths a walk of some depth visits in it, and when a listing represents it.\<close>

datatype rtree = Node (robj: fobj) (kids: "rtree list")

definition less_deep :: "int \<Rightarrow> int" where
  "less_deep d = (if d = 1 then 0 else d)"

primrec flat :: "rtree \<Rightarrow> int \<Rightarrow> string \<Rightarrow> (string \<times> fobj) list" where
  "flat (Node i ts) d p = (p, i) # (if oIsDir i \<and> d \<noteq> 0
     then concat (map (\<lambda>(o1, f). f (less_deep d) (path_join p (oName o1))) (map (\<lambda>t. (robj t, flat t)) ts)) else [])"

primrec represents :: "rtree \<Rightarrow> (string \<Rightarrow> fs_error + fobj list) \<Rightarrow> int \<Rightarrow> string \<Rightarrow> bool" where
  "represents (Node i ts) lst d p \<longleftrightarrow> (oIsDir i \<and> d \<noteq> 0 \<longrightarrow> lst p = Inr (map robj ts)
     \<and> list_all (\<lambda>(o1, f). f lst (less_deep d) (path_join p (oName o1))) (map (\<lambda>t. (robj t, represents t)) ts))"

lemma flat_Node: "flat (Node i ts) d p = (p, i) # (if oIsDir i \<and> d \<noteq> 0
     then concat (map (\<lambda>t. flat t (less_deep d) (path_join p (oName (robj t)))) ts) else [])"
  by (simp add: comp_def)

lemma represents_Node: "represents (Node i ts) lst d p \<longleftrightarrow> (oIsDir i \<and> d \<noteq> 0 \<longrightarrow> lst p = Inr (map robj ts)
     \<and> (\<forall>t \<in> set ts. represents t lst (less_deep d) (path_join p (oName (robj t)))))"
  by (auto simp: list_all_iff)

declare flat.simps [simp del] represents.simps [simp del]

fun visits :: "'s walk_fn \<Rightarrow> (string \<times> fobj) list \<Rightarrow> 's \<Rightarrow> walk_err option \<times> 's" where
  "visits F [] s = (None, s)"
| "visits F ((p, i) # ps) s = (case F p i None s of (None, s') \<Rightarrow> visits F ps s' | (Some e, s') \<Rightarrow> (Some e, s'))"

lemma visits_append:
  "visits F (xs @ ys) s = (case visits F xs s of (None, s') \<Rightarrow> visits F ys s' | (Some e, s') \<Rightarrow> (Some e, s'))"
  by (induction F xs s rule: visits.induct) (auto split: prod.splits option.splits)

text \<open>Over a listing that represents a tree, the walk ends and is a visit of its objects in order.\<close>

lemma walkFS_visits:
  assumes skip: "\<And>p i s. fst (F p i None s) \<noteq> Some SkipDir"
  shows "represents t lst d p \<Longrightarrow> walkFS lst F d p (robj t) s = Some (visits F (flat t d p) s)"
proof (induction t arbitrary: d p s)
  case (Node i ts)
  let ?sub = "\<lambda>ts. concat (map (\<lambda>t. flat t (less_deep d) (path_join p (oName (robj t)))) ts)"
  have no: "fst (visits F ps s) \<noteq> Some SkipDir" for ps s
    using skip by (induction F ps s rule: visits.induct) (auto split: prod.splits option.splits, metis fst_conv)
  have loop: "walk_objs (\<lambda>fn f s. walkFS lst F (less_deep d) fn f s) F p (map robj us) None s = Some (visits F (?sub us) s)"
    if "set us \<subseteq> set ts" "\<And>u. u \<in> set us \<Longrightarrow> represents u lst (less_deep d) (path_join p (oName (robj u)))" for us s
    using that
  proof (induction us arbitrary: s)
    case (Cons u us)
    obtain r s' where v: "visits F (flat u (less_deep d) (path_join p (oName (robj u)))) s = (r, s')" by fastforce
    have "walkFS lst F (less_deep d) (path_join p (oName (robj u))) (robj u) s = Some (r, s')"
      using Node.IH[of u "less_deep d" _ s] Cons.prems v by simp
    moreover have "r \<noteq> Some SkipDir" using no v by (metis fst_conv)
    ultimately show ?case using Cons v by (cases r) (simp_all add: visits_append)
  qed simp
  obtain r s1 where F: "F p i None s = (r, s1)" by fastforce
  have r: "r \<noteq> Some SkipDir" using skip[of p i s] F by simp
  show ?case
  proof (cases "oIsDir i \<and> d \<noteq> 0")
    case True
    then have R: "lst p = Inr (map robj ts)" "\<And>u. u \<in> set ts \<Longrightarrow> represents u lst (less_deep d) (path_join p (oName (robj u)))"
      using Node.prems by (auto simp: represents_Node)
    show ?thesis
      using loop[of ts s1] R r True F
      by (cases r) (simp_all add: walkFS.simps[of lst F d p i s] flat_Node less_deep_def)
  next
    case False
    then show ?thesis using r F by (cases r) (auto simp: walkFS.simps[of lst F d p i s] flat_Node)
  qed
qed

lemma makePropstats_nonempty: "makePropstats x y \<noteq> []"
  by (simp add: makePropstats_def Let_def)

lemma propfind_props_nonempty: "propfind_props e pf i = Inr ps \<Longrightarrow> ps \<noteq> []"
  using makePropstats_nonempty
  by (auto simp: propfind_props_def allprop_def props_def Let_def split: if_splits sum.splits prod.splits)

definition propfind_response :: "('l, 'r) dav_env \<Rightarrow> prop_env \<Rightarrow> User \<Rightarrow> propfind \<Rightarrow> string \<times> fobj \<Rightarrow> response" where
  "propfind_response h e user pf x = (case propfind_props e pf (snd x) of
     Inl u \<Rightarrow> makePropstatResponse e '''' [] | Inr ps \<Rightarrow> makePropstatResponse e (propfind_href h user (fst x) (snd x)) ps)"

lemma visits_responses:
  assumes "\<And>x. x \<in> set ps \<Longrightarrow> (\<exists>pst. propfind_props e pf (snd x) = Inr pst) \<and> encodes e (propfind_response h e user pf x)"
  shows "\<exists>b. visits (propfind_walkFn h e user pf) ps mw
    = (None, \<lparr>mwHeader = b, mwOut = mwOut mw @ map (propfind_response h e user pf) ps\<rparr>)"
  using assms
proof (induction ps arbitrary: mw)
  case Nil
  show ?case by (cases mw) simp
next
  case (Cons x ps)
  obtain pst where p: "propfind_props e pf (snd x) = Inr pst" "pst \<noteq> []"
    using Cons.prems[of x] propfind_props_nonempty by fastforce
  let ?r = "propfind_response h e user pf x"
  have r: "?r = makePropstatResponse e (propfind_href h user (fst x) (snd x)) pst" using p by (simp add: propfind_response_def)
  have "encodes e ?r" using Cons.prems[of x] by simp
  then have "propfind_walkFn h e user pf (fst x) (snd x) None mw = (None, mw\<lparr>mwHeader := True, mwOut := mwOut mw @ [?r]\<rparr>)"
    using p by (simp add: propfind_walkFn_def mw_write_def r makePropstatResponse_def)
  moreover obtain p i where "x = (p, i)" by fastforce
  ultimately show ?case using Cons.IH[of "mw\<lparr>mwHeader := True, mwOut := mwOut mw @ [?r]\<rparr>"] Cons.prems by simp
qed

text \<open>C21: PROPFIND answers with the whole tree: over any finite tree of objects, at any depth, it ends, and
  when properties are found and responses encoded its answer is one response for each object down to
  that depth, in the order of the listing, parents first.\<close>

theorem PROPFIND_lists_the_tree:
  assumes "stripPrefix h (rPath r) = Inr q" "JoinPath user q = Inr p" "near_or h p = Inr meta"
    and "CanAccess (reMatch e) user meta p password = Some True" "apiGet api p w = Inr (robj t)"
    and "d = (if rHeader r ''Depth'' \<noteq> '''' then parseDepth (rHeader r ''Depth'') else infiniteDepth)" "d \<noteq> invalidDepth"
    and "readPropfind body = Inr pf" "represents t (\<lambda>p. apiList api p w) d p"
    and "\<And>x. x \<in> set (flat t d p) \<Longrightarrow>
      (\<exists>pst. propfind_props e pf (snd x) = Inr pst) \<and> encodes e (propfind_response h e user pf x)"
  shows "handlePropfind h api e user password r body w
    = Some ((0, False), map (propfind_response h e user pf) (flat t d p))"
proof -
  let ?F = "propfind_walkFn h e user pf"
  have "fst (?F p i None s) \<noteq> Some SkipDir" for p i s
    by (auto simp: propfind_walkFn_def mw_write_def Let_def split: sum.split list.split)
  note W = walkFS_visits[where F = ?F and s = "\<lparr>mwHeader = False, mwOut = []\<rparr>", OF this assms(9)]
  obtain b where "visits ?F (flat t d p) \<lparr>mwHeader = False, mwOut = []\<rparr>
      = (None, \<lparr>mwHeader = b, mwOut = map (propfind_response h e user pf) (flat t d p)\<rparr>)"
    using visits_responses[where ps = "flat t d p", OF assms(10), of "\<lparr>mwHeader = False, mwOut = []\<rparr>"] by auto
  then show ?thesis using W assms(1-8) by (simp add: handlePropfind_def Let_def split: if_splits)
qed

section \<open>Examples and PROPPATCH\<close>

definition demo_penv :: prop_env where
  "demo_penv = \<lparr>escapeText = id, escapedPath = id, modTime = (\<lambda>_. ''m''), createTime = (\<lambda>_ _. ''c''), userAgent = '''',
     lowerCase = id, mimeType = (\<lambda>_. ''t''), getEtag = (\<lambda>_. Inr ''e''), getHashes = (\<lambda>_. []), mapOrder = map fst liveProps,
     encodes = (\<lambda>_. True), httpStatusText = (\<lambda>_. ''''), reMatch = (\<lambda>re s. Some (re = s))\<rparr>"

text \<open>A directory with a protected directory and a file; the nearest metas of \<open>op\<close> over one meta.\<close>

definition demo_rtree :: rtree where
  "demo_rtree = Node \<lparr>oName = ''home'', oSize = 0, oIsDir = True\<rparr>
     [Node \<lparr>oName = ''secret'', oSize = 0, oIsDir = True\<rparr> [Node \<lparr>oName = ''plan'', oSize = 9, oIsDir = False\<rparr> []],
      Node \<lparr>oName = ''f'', oSize = 3, oIsDir = False\<rparr> []]"

definition demo_rfs :: "unit fs_api" where
  "demo_rfs = \<lparr>apiGet = (\<lambda>p w. if p = ''/home'' then Inr (robj demo_rtree)
       else if p = ''/home/secret'' then Inr (robj (hd (kids demo_rtree)))
       else if p = ''/home/f'' then Inr (robj (kids demo_rtree ! 1)) else Inl ObjectNotFound),
     apiList = (\<lambda>p w. if p = ''/home'' then Inr (map robj (kids demo_rtree))
       else if p = ''/home/secret'' then Inr (map robj (kids (hd (kids demo_rtree)))) else Inl ObjectNotFound),
     apiDo = (\<lambda>c w. (w, None))\<rparr>"

definition secret_meta :: Meta where
  "secret_meta = demo_meta\<lparr>mPath := ''/home/secret'', ReadUsers := [], WriteUsers := [], Hide := ''''\<rparr>"

definition demo_renv :: "(unit, unit) dav_env" where
  "demo_renv = \<lparr>Prefix = ''/dav'', LockSystem = \<lparr>lsConfirm = (\<lambda>_ _ _ _ l. (l, Inl ErrConfirmationFailed)),
       lsRelease = (\<lambda>_ l. l), lsCreate = (\<lambda>_ _ l. (l, Inr ''1'')), lsRefresh = (\<lambda>_ _ _ l. (l, Inl ErrNoSuchLock)),
       lsUnlock = (\<lambda>_ _ l. (l, None))\<rparr>,
     urlParse = (\<lambda>u. Some ('''', u)), nearMeta = (\<lambda>p. if has_prefix p ''/home/secret'' then Inr secret_meta else Inl MetaNotFound),
     clock = 1, IgnoreSystemFiles = False, etagFails = (\<lambda>_. False)\<rparr>"

definition demo_preq :: "string \<Rightarrow> dav_req" where
  "demo_preq p = \<lparr>rMethod = ''COPY'', rPath = p, rHost = ''h'', rHeader = (\<lambda>_. ''''), rContentLength = 0, rLockInfo = Inr None\<rparr>"

definition name_find :: propfind where
  "name_find = \<lparr>Allprop = False, Propname = True, Prop = None, Include = None\<rparr>"

theorem propfind_href_roundtrip_witness:
  "\<exists>q. stripPrefix demo_renv (propfind_href demo_renv demo_user ''/home/a'' (robj demo_rtree)) = Inr q
     \<and> JoinPath demo_user q = Inr ''/home/a''"
proof (rule propfind_href_roundtrip)
  show "Prefix demo_renv = mk_abs [''dav'']" "normal_comps [''dav'']" "[''dav''] \<noteq> []"
    by (simp_all add: demo_renv_def mk_abs_def name_ok_def)
  show "FixAndCleanPath (BasePath demo_user) = BasePath demo_user" by code_simp
  show "IsSubPath (BasePath demo_user) ''/home/a''" by code_simp
  show "FixAndCleanPath ''/home/a'' = ''/home/a''" by code_simp
qed

theorem PROPFIND_lists_the_tree_witness:
  "\<exists>out. handlePropfind demo_renv demo_rfs demo_penv demo_user '''' (demo_preq ''/dav/'') (Some (Some name_find)) ()
     = Some ((0, False), out) \<and> map Href out = [[''/dav/''], [''/dav/secret/''], [''/dav/secret/plan''], [''/dav/f'']]"
proof -
  have p: "stripPrefix demo_renv (rPath (demo_preq ''/dav/'')) = Inr ''/''" "JoinPath demo_user ''/'' = Inr ''/home''"
    "near_or demo_renv ''/home'' = Inr None" "CanAccess (reMatch demo_penv) demo_user None ''/home'' '''' = Some True"
    "apiGet demo_rfs ''/home'' () = Inr (robj demo_rtree)"
    "infiniteDepth = (if rHeader (demo_preq ''/dav/'') ''Depth'' \<noteq> '''' then parseDepth (rHeader (demo_preq ''/dav/'') ''Depth'') else infiniteDepth)"
    "infiniteDepth \<noteq> invalidDepth" "readPropfind (Some (Some name_find)) = Inr name_find"
    by code_simp+
  have r: "represents demo_rtree (\<lambda>p. apiList demo_rfs p ()) infiniteDepth ''/home''"
    "map Href (map (propfind_response demo_renv demo_penv demo_user name_find) (flat demo_rtree infiniteDepth ''/home''))
      = [[''/dav/''], [''/dav/secret/''], [''/dav/secret/plan''], [''/dav/f'']]"
    by code_simp+
  have a: "(\<exists>pst. propfind_props demo_penv name_find (snd x) = Inr pst)
      \<and> encodes demo_penv (propfind_response demo_renv demo_penv demo_user name_find x)" for x
    by (simp add: propfind_props_def name_find_def demo_penv_def)
  show ?thesis using PROPFIND_lists_the_tree[OF p r(1) a] r(2) by simp
qed

text \<open>PROPFIND shows what it should not: the content of a directory whose meta asks for a password, to a
  user without it, when the walk starts above; asked for directly, the directory is refused.\<close>

lemma PROPFIND_shows_protected_directories:
  "map_option (map Href \<circ> snd) (handlePropfind demo_renv demo_rfs demo_penv (demo_user\<lparr>Permission := 0\<rparr>) ''''
      (demo_preq ''/dav/'') (Some (Some name_find)) ()) = Some [[''/dav/''], [''/dav/secret/''], [''/dav/secret/plan''], [''/dav/f'']]
   \<and> handlePropfind demo_renv demo_rfs demo_penv (demo_user\<lparr>Permission := 0\<rparr>) ''''
      (demo_preq ''/dav/secret'') (Some (Some name_find)) () = Some ((403, True), [])"
  by code_simp

text \<open>OPTIONS tells whether a protected file exists and whether it is a directory.\<close>

lemma OPTIONS_checks_no_access:
  "handleOptions demo_renv demo_rfs (demo_user\<lparr>Permission := 0\<rparr>) (demo_preq ''/dav/secret'') ()
     = ((0, False), Some ''OPTIONS, LOCK, DELETE, PROPPATCH, COPY, MOVE, UNLOCK, PROPFIND'')
   \<and> handleOptions demo_renv demo_rfs (demo_user\<lparr>Permission := 0\<rparr>) (demo_preq ''/dav/nothing'') ()
     = ((0, False), Some ''OPTIONS, LOCK, PUT, MKCOL'')"
  by code_simp

text \<open>The names in an \<open>include\<close> element have no effect.\<close>

lemma PROPFIND_ignores_include:
  "Allprop pf \<Longrightarrow> propfind_props e (pf\<lparr>Include := x\<rparr>) i = propfind_props e pf i"
  by (simp add: propfind_props_def Let_def)

text \<open>PROPPATCH is atomic and changes nothing: every property of the request appears in the answer
  exactly once, in order, and none with success: if one is a live property, the live ones are
  answered 403 and the rest 424, and otherwise all 403.\<close>

theorem patch_is_atomic:
  assumes "ps = concat (map Props patches)"
  shows "if \<exists>p \<in> set ps. is_live p
    then concat (map (\<lambda>x. map (Pair (psStatus x) \<circ> XMLName) (psProps x)) (patch patches))
      = map (Pair 403 \<circ> XMLName) (filter is_live ps) @ map (Pair 424 \<circ> XMLName) (filter (\<lambda>p. \<not> is_live p) ps)
    else map (\<lambda>x. map (Pair (psStatus x) \<circ> XMLName) (psProps x)) (patch patches) = [map (Pair 403 \<circ> XMLName) ps]"
  by (auto simp: patch_def assms Let_def list_ex_iff pstat_def named_def makePropstats_def filter_empty_conv comp_def)

theorem patch_is_atomic_witness:
  "concat (map (\<lambda>x. map (Pair (psStatus x) \<circ> XMLName) (psProps x))
      (patch [\<lparr>Remove = False, Props = [named (''DAV:'', ''getetag''), named (''x'', ''y'')]\<rparr>]))
    = [(403, (''DAV:'', ''getetag'')), (424, (''x'', ''y''))]"
proof -
  let ?ps = "concat (map Props [\<lparr>Remove = False, Props = [named (''DAV:'', ''getetag''), named (''x'', ''y'')]\<rparr>])"
  have l: "is_live (named (''DAV:'', ''getetag''))" "\<not> is_live (named (''x'', ''y''))" by code_simp+
  then have "\<exists>p \<in> set ?ps. is_live p" by simp
  then show ?thesis using patch_is_atomic[OF refl, of "[\<lparr>Remove = False, Props = [named (''DAV:'', ''getetag''), named (''x'', ''y'')]\<rparr>]"] l
    by (simp add: named_def)
qed

end
