(* ===== verification/Fs_Manage.thy ===== *)
theory Fs_Manage imports Fs_World begin

text \<open>
  \<open>server/handles/fsmanage.go\<close> and \<open>fsbatch.go\<close>: the API handlers that change files.  A request
  is \<open>None\<close> when its body does not bind.  \<open>near\<close> is \<open>op.GetNearestMeta\<close> at the time of the
  request, \<open>api\<close> is package \<open>fs\<close>; the tasks and messages of a reply are not modelled.
\<close>

section \<open>Requests\<close>

record MkdirOrLinkReq =
  reqPathOf :: string

record MoveCopyReq =
  SrcDir :: string
  DstDir :: string
  Names :: "string list"
  Overwrite :: bool
  SkipExisting :: bool
  Merge :: bool

record RenameReq =
  renPath :: string
  renName :: string
  renOverwrite :: bool

record RemoveReq =
  remDir :: string
  remNames :: "string list"

record BatchRenameReq =
  brSrcDir :: string
  RenameObjects :: "(string \<times> string) list"

record RegexRenameReq =
  rrSrcDir :: string
  SrcNameRegex :: string
  NewNameRegex :: string

section \<open>FsMkdir\<close>

definition FsMkdir :: "'w fs_api \<Rightarrow> (string \<Rightarrow> meta_error + Meta) \<Rightarrow> User \<Rightarrow> MkdirOrLinkReq option \<Rightarrow> ('w world, reply) state" where
  "FsMkdir api near user req =
     (case req of None \<Rightarrow> State_Monad.return (ErrorResp 400) | Some req \<Rightarrow>
      case JoinPath user (reqPathOf req) of Inl e \<Rightarrow> State_Monad.return (ErrorResp 403) | Inr reqPath \<Rightarrow>
      let parentPath = path_dir reqPath in
      case nearest_or near parentPath of Inl r \<Rightarrow> State_Monad.return r | Inr parentMeta \<Rightarrow>
      if \<not> CanWriteContent (Permission user) \<and> \<not> CanWriteContentBypassUserPerms parentMeta parentPath
      then State_Monad.return (ErrorResp 403)
      else if \<not> CanWrite (Some user) parentMeta parentPath then State_Monad.return (ErrorResp 403)
      else do {
        e \<leftarrow> fsDo api (MakeDir reqPath);
        State_Monad.return (if e \<noteq> None then ErrorResp 500 else SuccessResp)
      })"

section \<open>FsMove and FsCopy\<close>

definition with_slash :: "string \<Rightarrow> string" where
  "with_slash d = (if has_suffix d ''/'' then d else d @ ''/'')"

text \<open>The first loop over \<open>req.Names\<close>: each name becomes its source path, or empty to skip it.
  \<open>keep\<close> says whether an existing destination is skipped, refused or merged into.\<close>

fun resolve_names :: "'w fs_api \<Rightarrow> string \<Rightarrow> string \<Rightarrow> bool \<Rightarrow> (fobj \<Rightarrow> (reply + bool)) \<Rightarrow> string list \<Rightarrow>
    ('w world, reply + string list) state" where
  "resolve_names api srcDir dstDir overwrite exist [] = State_Monad.return (Inr [])"
| "resolve_names api srcDir dstDir overwrite exist (name # names) =
     (let srcPath = path_join srcDir name;
          rest = (\<lambda>x. do { r \<leftarrow> resolve_names api srcDir dstDir overwrite exist names;
                          State_Monad.return (map_sum id (Cons x) r) })
      in if \<not> has_prefix (srcPath @ ''/'') srcDir then rest ''''
         else if overwrite then rest srcPath
         else let base = path_base srcPath in
           if base = ''.'' \<or> base = ''/'' then State_Monad.return (Inl (ErrorResp 400))
           else do {
             res \<leftarrow> fsGet api (path_join dstDir base);
             case res of Inl e \<Rightarrow> rest srcPath
             | Inr o1 \<Rightarrow> (case exist o1 of Inl r \<Rightarrow> State_Monad.return (Inl r) | Inr skip \<Rightarrow> rest (if skip then '''' else srcPath))
           })"

text \<open>The second loop; the third argument of a call is \<open>len(req.Names) > i+1\<close>.\<close>

fun run_names :: "'w fs_api \<Rightarrow> (string \<Rightarrow> bool \<Rightarrow> fs_call) \<Rightarrow> string list \<Rightarrow> ('w world, reply) state" where
  "run_names api call [] = State_Monad.return SuccessResp"
| "run_names api call (p # ps) =
     (if p = '''' then run_names api call ps
      else do {
        e \<leftarrow> fsDo api (call p (ps \<noteq> []));
        if e \<noteq> None then State_Monad.return (ErrorResp 500) else run_names api call ps
      })"

definition FsMove :: "'w fs_api \<Rightarrow> (string \<Rightarrow> meta_error + Meta) \<Rightarrow> User \<Rightarrow> MoveCopyReq option \<Rightarrow> ('w world, reply) state" where
  "FsMove api near user req =
     (case req of None \<Rightarrow> State_Monad.return (ErrorResp 400) | Some req \<Rightarrow>
      if Names req = [] then State_Monad.return (ErrorResp 400)
      else if \<not> CanMove (Permission user) then State_Monad.return (ErrorResp 403)
      else case JoinPath user (SrcDir req) of Inl e \<Rightarrow> State_Monad.return (ErrorResp 403) | Inr srcDir \<Rightarrow>
      case nearest_or near srcDir of Inl r \<Rightarrow> State_Monad.return r | Inr srcMeta \<Rightarrow>
      if \<not> CanWrite (Some user) srcMeta srcDir then State_Monad.return (ErrorResp 403)
      else case JoinPath user (DstDir req) of Inl e \<Rightarrow> State_Monad.return (ErrorResp 403) | Inr dstDir \<Rightarrow>
      case nearest_or near dstDir of Inl r \<Rightarrow> State_Monad.return r | Inr dstMeta \<Rightarrow>
      if \<not> CanWrite (Some user) dstMeta dstDir then State_Monad.return (ErrorResp 403)
      else do {
        r \<leftarrow> resolve_names api (with_slash srcDir) dstDir (Overwrite req)
              (\<lambda>o1. if \<not> SkipExisting req then Inl (ErrorResp 403) else Inr True) (Names req);
        case r of Inl e \<Rightarrow> State_Monad.return e
        | Inr names \<Rightarrow> run_names api (\<lambda>p skipHook. MoveTo p dstDir skipHook) names
      })"

definition FsCopy :: "'w fs_api \<Rightarrow> (string \<Rightarrow> meta_error + Meta) \<Rightarrow> User \<Rightarrow> MoveCopyReq option \<Rightarrow> ('w world, reply) state" where
  "FsCopy api near user req =
     (case req of None \<Rightarrow> State_Monad.return (ErrorResp 400) | Some req \<Rightarrow>
      if Names req = [] then State_Monad.return (ErrorResp 400)
      else if \<not> CanCopy (Permission user) then State_Monad.return (ErrorResp 403)
      else case JoinPath user (SrcDir req) of Inl e \<Rightarrow> State_Monad.return (ErrorResp 403) | Inr srcDir \<Rightarrow>
      case nearest_or near srcDir of Inl r \<Rightarrow> State_Monad.return r | Inr srcMeta \<Rightarrow>
      if \<not> CanRead (Some user) srcMeta srcDir then State_Monad.return (ErrorResp 403)
      else case JoinPath user (DstDir req) of Inl e \<Rightarrow> State_Monad.return (ErrorResp 403) | Inr dstDir \<Rightarrow>
      case nearest_or near dstDir of Inl r \<Rightarrow> State_Monad.return r | Inr dstMeta \<Rightarrow>
      if \<not> CanWrite (Some user) dstMeta dstDir then State_Monad.return (ErrorResp 403)
      else do {
        r \<leftarrow> resolve_names api (with_slash srcDir) dstDir (Overwrite req)
              (\<lambda>o1. if \<not> SkipExisting req \<and> \<not> Merge req then Inl (ErrorResp 403)
                   else Inr (\<not> Merge req \<or> \<not> oIsDir o1)) (Names req);
        case r of Inl e \<Rightarrow> State_Monad.return e
        | Inr names \<Rightarrow> run_names api (\<lambda>p skipHook. if Merge req then MergeTo p dstDir skipHook else CopyTo p dstDir skipHook) names
      })"

section \<open>FsRename and FsRemove\<close>

definition checkRelativePath :: "string \<Rightarrow> bool" where
  "checkRelativePath p \<longleftrightarrow> \<not> (slash \<in> set p \<or> CHR 0x5C \<in> set p \<or> p = '''' \<or> p = ''.'' \<or> p = ''..'')"

definition FsRename :: "'w fs_api \<Rightarrow> (string \<Rightarrow> meta_error + Meta) \<Rightarrow> User \<Rightarrow> RenameReq option \<Rightarrow> ('w world, reply) state" where
  "FsRename api near user req =
     (case req of None \<Rightarrow> State_Monad.return (ErrorResp 400) | Some req \<Rightarrow>
      if \<not> CanRename (Permission user) then State_Monad.return (ErrorResp 403)
      else case JoinPath user (renPath req) of Inl e \<Rightarrow> State_Monad.return (ErrorResp 403) | Inr reqPath \<Rightarrow>
      if \<not> checkRelativePath (renName req) then State_Monad.return (ErrorResp 403)
      else let parentPath = path_dir reqPath in
      case nearest_or near parentPath of Inl r \<Rightarrow> State_Monad.return r | Inr parentMeta \<Rightarrow>
      if \<not> CanWrite (Some user) parentMeta parentPath then State_Monad.return (ErrorResp 403)
      else do {
        exists \<leftarrow> (if renOverwrite req then State_Monad.return False
          else let dstPath = path_join (path_dir reqPath) (renName req) in
            if dstPath \<noteq> reqPath then do { res \<leftarrow> fsGet api dstPath; State_Monad.return (case res of Inr o1 \<Rightarrow> True | Inl e \<Rightarrow> False) }
            else State_Monad.return False);
        if exists then State_Monad.return (ErrorResp 403)
        else do {
          e \<leftarrow> fsDo api (RenameTo reqPath (renName req));
          State_Monad.return (if e \<noteq> None then ErrorResp 500 else SuccessResp)
        }
      })"

fun remove_all_names :: "'w fs_api \<Rightarrow> string list \<Rightarrow> ('w world, reply) state" where
  "remove_all_names api [] = State_Monad.return SuccessResp"
| "remove_all_names api (p # ps) =
     (if p = '''' then remove_all_names api ps
      else do {
        e \<leftarrow> fsDo api (RemoveAt p);
        if e \<noteq> None then State_Monad.return (ErrorResp 500) else remove_all_names api ps
      })"

definition remove_path :: "string \<Rightarrow> string \<Rightarrow> string" where
  "remove_path reqPath name =
     (let fullPath = path_join reqPath name in if \<not> has_prefix (fullPath @ ''/'') reqPath then '''' else fullPath)"

definition FsRemove :: "'w fs_api \<Rightarrow> (string \<Rightarrow> meta_error + Meta) \<Rightarrow> User \<Rightarrow> RemoveReq option \<Rightarrow> ('w world, reply) state" where
  "FsRemove api near user req =
     (case req of None \<Rightarrow> State_Monad.return (ErrorResp 400) | Some req \<Rightarrow>
      if remNames req = [] then State_Monad.return (ErrorResp 400)
      else if \<not> CanRemove (Permission user) then State_Monad.return (ErrorResp 403)
      else case JoinPath user (remDir req) of Inl e \<Rightarrow> State_Monad.return (ErrorResp 403) | Inr reqPath \<Rightarrow>
      case nearest_or near reqPath of Inl r \<Rightarrow> State_Monad.return r | Inr meta \<Rightarrow>
      if \<not> CanWrite (Some user) meta reqPath then State_Monad.return (ErrorResp 403)
      else remove_all_names api (map (remove_path (with_slash reqPath)) (remNames req)))"

section \<open>FsRemoveEmptyDirectory\<close>

text \<open>A queued directory is its list of names below \<open>srcDir\<close>: \<open>filePathMap\<close> gives the path of all but
  the last, and \<open>fileParentMap\<close> has an entry when there is more than one.\<close>

definition dir_path :: "string \<Rightarrow> string list \<Rightarrow> string" where
  "dir_path srcDir names = fold (\<lambda>n p. p @ ''/'' @ n) names srcDir"

definition dirs_of :: "string list \<Rightarrow> fobj list \<Rightarrow> string list list" where
  "dirs_of names files = map (\<lambda>f. names @ [oName f]) (filter oIsDir files)"

partial_function (option) rm_empty_loop :: "'w fs_api \<Rightarrow> string \<Rightarrow> string list list \<Rightarrow> string set \<Rightarrow> 'w world \<Rightarrow>
    (reply \<times> 'w world) option" where
  "rm_empty_loop api srcDir removing removed w =
     (case removing of
        [] \<Rightarrow> Some (SuccessResp, w)
      | d # removing \<Rightarrow>
          let p = dir_path srcDir d
          in if p \<in> removed then rm_empty_loop api srcDir removing removed w
             else (case apiList api p (wFs w) of
                 Inl e \<Rightarrow> Some (ErrorResp 500, w)
               | Inr [] \<Rightarrow>
                   (case run_state (fsDo api (RemoveAt p)) w of
                      (Some e, w) \<Rightarrow> Some (ErrorResp 500, w)
                    | (None, w) \<Rightarrow> rm_empty_loop api srcDir
                        (if length d > 1 then removing @ [butlast d] else removing) (insert p removed) w)
               | Inr files \<Rightarrow> rm_empty_loop api srcDir (removing @ dirs_of d files) removed w))"

definition FsRemoveEmptyDirectory :: "'w fs_api \<Rightarrow> (string \<Rightarrow> meta_error + Meta) \<Rightarrow> User \<Rightarrow> string option \<Rightarrow>
    'w world \<Rightarrow> (reply \<times> 'w world) option" where
  "FsRemoveEmptyDirectory api near user req w =
     (case req of None \<Rightarrow> Some (ErrorResp 400, w) | Some src \<Rightarrow>
      if \<not> CanRemove (Permission user) then Some (ErrorResp 403, w)
      else case JoinPath user src of Inl e \<Rightarrow> Some (ErrorResp 403, w) | Inr srcDir \<Rightarrow>
      case nearest_or near srcDir of Inl r \<Rightarrow> Some (r, w) | Inr meta \<Rightarrow>
      if \<not> CanWrite (Some user) meta srcDir then Some (ErrorResp 403, w)
      else case apiList api srcDir (wFs w) of
        Inl e \<Rightarrow> Some (ErrorResp 500, w)
      | Inr files \<Rightarrow> rm_empty_loop api srcDir (dirs_of [] files) {} w)"

section \<open>FsRecursiveMove\<close>

definition CANCEL :: string where "CANCEL = ''cancel''"
definition OVERWRITE :: string where "OVERWRITE = ''overwrite''"
definition SKIP :: string where "SKIP = ''skip''"

record RecursiveMoveReq =
  rmSrcDir :: string
  rmDstDir :: string
  ConflictPolicy :: string

text \<open>The breadth-first walk that collects the files to move: a queue of objects with the directory
  each was listed in, the names taken in the destination, and the paths collected so far.\<close>

partial_function (option) recmove_loop :: "'w fs_api \<Rightarrow> 'w \<Rightarrow> string \<Rightarrow> string \<Rightarrow> (fobj \<times> string) list \<Rightarrow>
    string list \<Rightarrow> string list \<Rightarrow> (reply + string list) option" where
  "recmove_loop api fs policy dstDir moving existing acc =
     (case moving of
        [] \<Rightarrow> Some (Inr acc)
      | (f, dir) # moving \<Rightarrow>
          let p = dir @ ''/'' @ oName f
          in if oIsDir f then
               (case apiList api p fs of
                  Inl e \<Rightarrow> Some (Inl (ErrorResp 500))
                | Inr files \<Rightarrow> recmove_loop api fs policy dstDir (moving @ map (\<lambda>g. (g, p)) files) existing acc)
             else if dir = dstDir then recmove_loop api fs policy dstDir moving existing acc
             else if List.member existing (oName f) then
               (if policy = CANCEL then Some (Inl (ErrorResp 403))
                else if policy = SKIP then recmove_loop api fs policy dstDir moving existing acc
                else recmove_loop api fs policy dstDir moving existing (acc @ [p]))
             else recmove_loop api fs policy dstDir moving
                    (if policy \<noteq> OVERWRITE then existing @ [oName f] else existing) (acc @ [p]))"

fun move_files :: "'w fs_api \<Rightarrow> string \<Rightarrow> string list \<Rightarrow> ('w world, reply) state" where
  "move_files api dstDir [] = State_Monad.return SuccessResp"
| "move_files api dstDir (p # ps) = do {
     e \<leftarrow> fsDo api (MoveTo p dstDir (ps \<noteq> []));
     if e \<noteq> None then State_Monad.return (ErrorResp 500) else move_files api dstDir ps
   }"

definition FsRecursiveMove :: "'w fs_api \<Rightarrow> (string \<Rightarrow> meta_error + Meta) \<Rightarrow> User \<Rightarrow> RecursiveMoveReq option \<Rightarrow>
    'w world \<Rightarrow> (reply \<times> 'w world) option" where
  "FsRecursiveMove api near user req w =
     (case req of None \<Rightarrow> Some (ErrorResp 400, w) | Some req \<Rightarrow>
      if \<not> CanMove (Permission user) then Some (ErrorResp 403, w)
      else case JoinPath user (rmSrcDir req) of Inl e \<Rightarrow> Some (ErrorResp 403, w) | Inr srcDir \<Rightarrow>
      case nearest_or near srcDir of Inl r \<Rightarrow> Some (r, w) | Inr srcMeta \<Rightarrow>
      if \<not> CanWrite (Some user) srcMeta srcDir then Some (ErrorResp 403, w)
      else case JoinPath user (rmDstDir req) of Inl e \<Rightarrow> Some (ErrorResp 403, w) | Inr dstDir \<Rightarrow>
      case nearest_or near dstDir of Inl r \<Rightarrow> Some (r, w) | Inr dstMeta \<Rightarrow>
      if \<not> CanWrite (Some user) dstMeta dstDir then Some (ErrorResp 403, w)
      else case apiList api srcDir (wFs w) of Inl e \<Rightarrow> Some (ErrorResp 500, w) | Inr rootFiles \<Rightarrow>
      case (if ConflictPolicy req \<noteq> OVERWRITE then map_sum id (map oName) (apiList api dstDir (wFs w)) else Inr []) of
        Inl e \<Rightarrow> Some (ErrorResp 500, w)
      | Inr existing \<Rightarrow>
          (case recmove_loop api (wFs w) (ConflictPolicy req) dstDir (map (\<lambda>f. (f, srcDir)) rootFiles) existing [] of
             None \<Rightarrow> None
           | Some (Inl r) \<Rightarrow> Some (r, w)
           | Some (Inr names) \<Rightarrow> Some (run_state (move_files api dstDir names) w)))"

section \<open>FsBatchRename and FsRegexRename\<close>

fun batch_rename :: "'w fs_api \<Rightarrow> string \<Rightarrow> (string \<times> string) list \<Rightarrow> ('w world, reply) state" where
  "batch_rename api dir [] = State_Monad.return SuccessResp"
| "batch_rename api dir ((src, new) # rest) =
     (if src = '''' \<or> new = '''' then batch_rename api dir rest
      else if \<not> checkRelativePath src then State_Monad.return (ErrorResp 403)
      else if \<not> checkRelativePath new then State_Monad.return (ErrorResp 403)
      else do {
        e \<leftarrow> fsDo api (RenameTo (dir @ ''/'' @ src) new);
        if e \<noteq> None then State_Monad.return (ErrorResp 500) else batch_rename api dir rest
      })"

definition FsBatchRename :: "'w fs_api \<Rightarrow> (string \<Rightarrow> meta_error + Meta) \<Rightarrow> User \<Rightarrow> BatchRenameReq option \<Rightarrow> ('w world, reply) state" where
  "FsBatchRename api near user req =
     (case req of None \<Rightarrow> State_Monad.return (ErrorResp 400) | Some req \<Rightarrow>
      if \<not> CanRename (Permission user) then State_Monad.return (ErrorResp 403)
      else case JoinPath user (brSrcDir req) of Inl e \<Rightarrow> State_Monad.return (ErrorResp 403) | Inr reqPath \<Rightarrow>
      case nearest_or near reqPath of Inl r \<Rightarrow> State_Monad.return r | Inr meta \<Rightarrow>
      if \<not> CanWrite (Some user) meta reqPath then State_Monad.return (ErrorResp 403)
      else batch_rename api reqPath (RenameObjects req))"

text \<open>Package \<open>regexp\<close> is an argument: \<open>compile\<close> answers the matcher and the replacer.\<close>

fun regex_rename :: "'w fs_api \<Rightarrow> (string \<Rightarrow> bool) \<Rightarrow> (string \<Rightarrow> string) \<Rightarrow> string \<Rightarrow> fobj list \<Rightarrow> ('w world, reply) state" where
  "regex_rename api is_match replace dir [] = State_Monad.return SuccessResp"
| "regex_rename api is_match replace dir (f # rest) =
     (if is_match (oName f) then
        let new = replace (oName f) in
        if \<not> checkRelativePath new then State_Monad.return (ErrorResp 403)
        else do {
          e \<leftarrow> fsDo api (RenameTo (dir @ ''/'' @ oName f) new);
          if e \<noteq> None then State_Monad.return (ErrorResp 500) else regex_rename api is_match replace dir rest
        }
      else regex_rename api is_match replace dir rest)"

definition FsRegexRename :: "'w fs_api \<Rightarrow> (string \<Rightarrow> meta_error + Meta) \<Rightarrow>
    (string \<Rightarrow> ((string \<Rightarrow> bool) \<times> (string \<Rightarrow> string \<Rightarrow> string)) option) \<Rightarrow> User \<Rightarrow> RegexRenameReq option \<Rightarrow> ('w world, reply) state" where
  "FsRegexRename api near compile user req =
     (case req of None \<Rightarrow> State_Monad.return (ErrorResp 400) | Some req \<Rightarrow>
      if \<not> CanRename (Permission user) then State_Monad.return (ErrorResp 403)
      else case JoinPath user (rrSrcDir req) of Inl e \<Rightarrow> State_Monad.return (ErrorResp 403) | Inr reqPath \<Rightarrow>
      case nearest_or near reqPath of Inl r \<Rightarrow> State_Monad.return r | Inr meta \<Rightarrow>
      if \<not> CanWrite (Some user) meta reqPath then State_Monad.return (ErrorResp 403)
      else case compile (SrcNameRegex req) of None \<Rightarrow> State_Monad.return (ErrorResp 500) | Some (is_match, replace) \<Rightarrow> do {
        r \<leftarrow> fsList api reqPath;
        case r of Inl e \<Rightarrow> State_Monad.return (ErrorResp 500)
        | Inr files \<Rightarrow> regex_rename api is_match (\<lambda>n. replace n (NewNameRegex req)) reqPath files
      })"

declare rm_empty_loop.simps [code] recmove_loop.simps [code]

section \<open>What a request may do\<close>

definition writable :: "(string \<Rightarrow> meta_error + Meta) \<Rightarrow> User \<Rightarrow> string \<Rightarrow> bool" where
  "writable near user d \<longleftrightarrow> (\<exists>m. nearest_or near d = Inr m \<and> CanWrite (Some user) m d)"

definition readable :: "(string \<Rightarrow> meta_error + Meta) \<Rightarrow> User \<Rightarrow> string \<Rightarrow> bool" where
  "readable near user d \<longleftrightarrow> (\<exists>m. nearest_or near d = Inr m \<and> CanRead (Some user) m d)"

definition content_allowed :: "(string \<Rightarrow> meta_error + Meta) \<Rightarrow> User \<Rightarrow> string \<Rightarrow> bool" where
  "content_allowed near user d \<longleftrightarrow> CanWriteContent (Permission user)
     \<or> (\<exists>m. nearest_or near d = Inr m \<and> CanWriteContentBypassUserPerms m d)"

text \<open>A call is permitted when the user has the permission bit for it and may write the directory it
  changes; a path named in a batch is below a directory that was checked.\<close>

fun permitted :: "(string \<Rightarrow> meta_error + Meta) \<Rightarrow> User \<Rightarrow> fs_call \<Rightarrow> bool" where
  "permitted near user (MakeDir p) \<longleftrightarrow> writable near user (path_dir p) \<and> content_allowed near user (path_dir p)"
| "permitted near user (MoveTo s d skip) \<longleftrightarrow> CanMove (Permission user) \<and> writable near user d
     \<and> (\<exists>e. IsSubPath e s \<and> IsSubPath (BasePath user) e \<and> writable near user e)"
| "permitted near user (CopyTo s d skip) \<longleftrightarrow> CanCopy (Permission user) \<and> writable near user d
     \<and> (\<exists>e. IsSubPath e s \<and> IsSubPath (BasePath user) e \<and> readable near user e)"
| "permitted near user (MergeTo s d skip) \<longleftrightarrow> CanCopy (Permission user) \<and> writable near user d
     \<and> (\<exists>e. IsSubPath e s \<and> IsSubPath (BasePath user) e \<and> readable near user e)"
| "permitted near user (RenameTo p n) \<longleftrightarrow> CanRename (Permission user) \<and> checkRelativePath n
     \<and> (writable near user (path_dir p) \<or> (\<exists>e. IsSubPath e p \<and> IsSubPath (BasePath user) e \<and> writable near user e))"
| "permitted near user (RemoveAt p) \<longleftrightarrow> CanRemove (Permission user)
     \<and> (\<exists>e. IsSubPath e p \<and> IsSubPath (BasePath user) e \<and> writable near user e)"
| "permitted near user (PutTo d n) \<longleftrightarrow> writable near user d \<and> content_allowed near user d"

text \<open>Where a call may reach: under the user's base path, except for the new name in a rename of the
  base directory itself.\<close>

definition reaches :: "User \<Rightarrow> fs_call \<Rightarrow> bool" where
  "reaches user c \<longleftrightarrow> confined (BasePath user) c \<or> (\<exists>p n. c = RenameTo p n \<and> PathEqual p (BasePath user))"

definition plain_name :: "string \<Rightarrow> bool" where
  "plain_name n \<longleftrightarrow> CHR 0x5C \<notin> set n"

text \<open>Names of listed objects are proper names.\<close>

definition api_names_ok :: "'w fs_api \<Rightarrow> bool" where
  "api_names_ok api \<longleftrightarrow> (\<forall>p w fs f. apiList api p w = Inr fs \<longrightarrow> f \<in> set fs \<longrightarrow> name_ok (oName f) \<and> plain_name (oName f))"

abbreviation ok_call :: "(string \<Rightarrow> meta_error + Meta) \<Rightarrow> User \<Rightarrow> fs_call \<Rightarrow> bool" where
  "ok_call near user c \<equiv> permitted near user c \<and> reaches user c"

lemma FsMkdir_emits: "emits (ok_call near user) (FsMkdir api near user req)"
  unfolding FsMkdir_def
  apply (intro emits_rules)
  apply (auto simp: writable_def content_allowed_def reaches_def confined_def dest: JoinPath_normal(3))
  done

lemma run_names_emits: "(\<And>p b. p \<in> set ps \<Longrightarrow> p \<noteq> '''' \<Longrightarrow> A (call p b)) \<Longrightarrow> emits A (run_names api call ps)"
  by (induction ps) (auto intro!: emits_rules)

definition below :: "string \<Rightarrow> (reply + string list) \<Rightarrow> bool" where
  "below d r \<longleftrightarrow> (\<forall>xs x. r = Inr xs \<longrightarrow> x \<in> set xs \<longrightarrow> x \<noteq> '''' \<longrightarrow> IsSubPath d x)"

lemma below_Inl: "below d (Inl e)"
  by (simp add: below_def)

lemma below_Cons: "below d r \<Longrightarrow> (x \<noteq> '''' \<Longrightarrow> IsSubPath d x) \<Longrightarrow> below d (map_sum id (Cons x) r)"
  by (cases r) (auto simp: below_def)

lemma resolve_names_below:
  assumes "FixAndCleanPath d = d" "\<forall>n \<in> set names. plain_name n"
  shows "yields (below d) (resolve_names api (with_slash d) dst ow ex names)"
  using assms(2)
proof (induction names)
  case Nil
  show ?case by (simp add: yields_return below_def)
next
  case (Cons n names)
  let ?s = "path_join (with_slash d) n"
  have sub: "has_prefix (?s @ ''/'') (with_slash d) \<Longrightarrow> IsSubPath d ?s"
    using joined_name(1)[OF assms(1), of n ?s] Cons.prems by (simp add: with_slash_def plain_name_def)
  have rest: "(x \<noteq> '''' \<Longrightarrow> IsSubPath d x) \<Longrightarrow> yields (below d)
      (do { r \<leftarrow> resolve_names api (with_slash d) dst ow ex names; State_Monad.return (map_sum id (Cons x) r) })" for x
    using Cons by (intro yields_bind[of "below d"] yields_return below_Cons) auto
  show ?case
    unfolding resolve_names.simps Let_def
    by (intro yields_if yields_bind[OF yields_any] yields_sum rest yields_return below_Inl)
      (auto simp: sub split: if_splits)
qed

lemma resolve_names_emits: "emits A (resolve_names api s d ow ex names)"
  by (induction names) (auto simp: Let_def intro!: emits_rules split: sum.split)

lemma resolved_run_emits:
  assumes "FixAndCleanPath d = d" "\<forall>n \<in> set names. plain_name n"
    and "\<And>p b. IsSubPath d p \<Longrightarrow> A (call p b)"
  shows "emits A (do { r \<leftarrow> resolve_names api (with_slash d) dst ow ex names;
     case r of Inl e \<Rightarrow> State_Monad.return e | Inr xs \<Rightarrow> run_names api call xs })"
  using assms(3)
  by (intro emits_bind_yields[OF resolve_names_emits resolve_names_below[OF assms(1,2)]])
    (auto simp: below_def intro!: emits_rules run_names_emits)

lemma writable_joined:
  "JoinPath user r = Inr d \<Longrightarrow> nearest_or near d = Inr m \<Longrightarrow> CanWrite (Some user) m d \<Longrightarrow>
     writable near user d \<and> IsSubPath (BasePath user) d \<and> FixAndCleanPath d = d"
  using JoinPath_normal(3,4) by (auto simp: writable_def)

lemma readable_joined:
  "JoinPath user r = Inr d \<Longrightarrow> nearest_or near d = Inr m \<Longrightarrow> CanRead (Some user) m d \<Longrightarrow>
     readable near user d \<and> IsSubPath (BasePath user) d \<and> FixAndCleanPath d = d"
  using JoinPath_normal(3,4) by (auto simp: readable_def)

lemma FsMove_emits:
  assumes "\<And>q n. req = Some q \<Longrightarrow> n \<in> set (Names q) \<Longrightarrow> plain_name n"
  shows "emits (ok_call near user) (FsMove api near user req)"
  unfolding FsMove_def
  apply (intro emits_option emits_if emits_sum emits_return resolved_run_emits)
  apply (auto dest!: writable_joined assms simp: reaches_def confined_def intro: IsSubPath_trans)
  done

lemma FsCopy_emits:
  assumes "\<And>q n. req = Some q \<Longrightarrow> n \<in> set (Names q) \<Longrightarrow> plain_name n"
  shows "emits (ok_call near user) (FsCopy api near user req)"
  unfolding FsCopy_def
  apply (intro emits_option emits_if emits_sum emits_return resolved_run_emits)
  apply (auto simp: writable_def readable_def reaches_def confined_def dest: JoinPath_normal(3) assms
    intro: IsSubPath_trans JoinPath_normal(4))
  done

lemma checkRelativePath_name: "checkRelativePath n \<Longrightarrow> name_ok n \<and> plain_name n"
  by (simp add: checkRelativePath_def name_ok_def plain_name_def)

lemma cleaned: "FixAndCleanPath d = d \<Longrightarrow> d = mk_abs (fix_comps d) \<and> CHR 0x5C \<notin> set d"
  using fix_comps[of d] FixAndCleanPath_no_backslash[of d] by simp

lemma join_child:
  assumes "normal_comps ds" "CHR 0x5C \<notin> set (mk_abs ds)" "name_ok n" "plain_name n"
  shows "fix_comps (path_join (mk_abs ds) n) = ds @ [n]"
proof -
  have "path_join (mk_abs ds) n = path_clean (mk_abs ds @ concat (map (Cons slash) [n]))"
    by (simp add: path_join_def)
  moreover have nb: "CHR 0x5C \<notin> set (mk_abs ds @ concat (map (Cons slash) [n]))" using assms by (simp add: plain_name_def)
  moreover have "hd (mk_abs ds @ concat (map (Cons slash) [n])) = slash" by (simp add: hd_append)
  ultimately have "path_join (mk_abs ds) n = FixAndCleanPath (mk_abs ds @ concat (map (Cons slash) [n]))"
    by (simp add: FixAndCleanPath_no_backslash_id)
  then show ?thesis
    using clean_names[of ds "[n]"] assms by (simp add: fix_comps_def plain_name_def)
qed

lemma child_paths:
  assumes "FixAndCleanPath d = d" "\<forall>n \<in> set ns. name_ok n \<and> plain_name n"
  shows "fix_comps (dir_path d ns) = fix_comps d @ ns"
proof -
  have "dir_path d ns = d @ concat (map (Cons slash) ns)"
    unfolding dir_path_def by (induction ns arbitrary: d) simp_all
  then show ?thesis
    using clean_names[OF fix_comps(1)[of d], of ns] cleaned[OF assms(1)] assms(2)
    by (simp add: plain_name_def normal_comps_def)
qed

lemma child_path: "FixAndCleanPath d = d \<Longrightarrow> name_ok n \<Longrightarrow> plain_name n \<Longrightarrow> fix_comps (d @ ''/'' @ n) = fix_comps d @ [n]"
  using child_paths[of d "[n]"] by (simp add: dir_path_def)

lemma FixAndCleanPath_comps: "FixAndCleanPath p = mk_abs (fix_comps p)"
  by (rule fix_comps(2))

lemma rename_target:
  assumes "fix_comps p = ds @ [x]" "name_ok n" "plain_name n"
  shows "fix_comps (path_join (path_dir (FixAndCleanPath p)) n) = ds @ [n]"
proof -
  have n: "normal_comps (ds @ [x])" using fix_comps(1)[of p] assms(1) by simp
  have "CHR 0x5C \<notin> set (mk_abs (ds @ [x]))"
    using FixAndCleanPath_no_backslash[of p] FixAndCleanPath_comps[of p] assms(1) by simp
  then have "CHR 0x5C \<notin> set (mk_abs ds)" by (rule mk_abs_chars_snoc)
  then show ?thesis
    using join_child[of ds n] n assms path_dir_mk_abs[OF n] by (simp add: FixAndCleanPath_comps)
qed

lemma rename_reaches:
  assumes "IsSubPath (BasePath user) p" "checkRelativePath n"
  shows "reaches user (RenameTo p n)"
proof -
  obtain r where r: "fix_comps p = fix_comps (BasePath user) @ r" using assms(1) by (auto simp: IsSubPath_comps prefix_def)
  show ?thesis
  proof (cases r rule: rev_cases)
    case Nil
    then show ?thesis using r by (simp add: reaches_def PathEqual_comps)
  next
    case (snoc s x)
    then have "fix_comps p = (fix_comps (BasePath user) @ s) @ [x]" using r by simp
    from rename_target[OF this] checkRelativePath_name[OF assms(2)]
    have "IsSubPath (BasePath user) (path_join (path_dir (FixAndCleanPath p)) n)" by (simp add: IsSubPath_comps)
    then show ?thesis using assms(1) by (simp add: reaches_def confined_def)
  qed
qed

lemma FsRename_emits: "emits (ok_call near user) (FsRename api near user req)"
  unfolding FsRename_def
  apply (intro emits_rules)
  apply (auto simp: writable_def dest: JoinPath_normal(3) intro: rename_reaches)
  done

lemma remove_all_emits: "(\<And>p. p \<in> set ps \<Longrightarrow> p \<noteq> '''' \<Longrightarrow> A (RemoveAt p)) \<Longrightarrow> emits A (remove_all_names api ps)"
  by (induction ps) (auto intro!: emits_rules)

lemma remove_path_sub:
  assumes "FixAndCleanPath d = d" "plain_name n" "remove_path (with_slash d) n \<noteq> ''''"
  shows "IsSubPath d (remove_path (with_slash d) n)"
  using joined_name(1)[OF assms(1), of n "path_join (with_slash d) n"] assms(2,3)
  by (auto simp: remove_path_def with_slash_def plain_name_def Let_def split: if_splits)

lemma FsRemove_emits:
  assumes "\<And>q n. req = Some q \<Longrightarrow> n \<in> set (remNames q) \<Longrightarrow> plain_name n"
  shows "emits (ok_call near user) (FsRemove api near user req)"
  unfolding FsRemove_def
  apply (intro emits_option emits_if emits_sum emits_return remove_all_emits)
  apply (auto dest!: writable_joined assms remove_path_sub simp: reaches_def confined_def intro: IsSubPath_trans)
  done

lemma batch_rename_emits:
  assumes "FixAndCleanPath d = d" "IsSubPath (BasePath user) d" "writable near user d" "CanRename (Permission user)"
  shows "emits (ok_call near user) (batch_rename api d objs)"
proof (induction objs)
  case (Cons o1 objs)
  obtain s n where o: "o1 = (s, n)" by fastforce
  have "ok_call near user (RenameTo (d @ ''/'' @ s) n)" if "checkRelativePath s" "checkRelativePath n"
  proof -
    have "IsSubPath d (d @ ''/'' @ s)"
      using child_path[OF assms(1)] checkRelativePath_name[OF that(1)] by (simp add: IsSubPath_comps)
    then show ?thesis
      using assms that rename_reaches[OF IsSubPath_trans[OF assms(2)]] by auto
  qed
  then show ?case using Cons by (auto simp: o intro!: emits_rules)
qed (simp add: emits_rules)

lemma FsBatchRename_emits: "emits (ok_call near user) (FsBatchRename api near user req)"
  unfolding FsBatchRename_def
  apply (intro emits_option emits_if emits_sum emits_return batch_rename_emits)
  apply (auto dest!: writable_joined)
  done

definition listed_ok :: "fobj list \<Rightarrow> bool" where
  "listed_ok files \<longleftrightarrow> (\<forall>f \<in> set files. name_ok (oName f) \<and> plain_name (oName f))"

lemma api_listed: "api_names_ok api \<Longrightarrow> apiList api p w = Inr files \<Longrightarrow> listed_ok files"
  by (auto simp: api_names_ok_def listed_ok_def)

lemma regex_rename_emits:
  assumes "FixAndCleanPath d = d" "IsSubPath (BasePath user) d" "writable near user d" "CanRename (Permission user)"
    and "listed_ok files"
  shows "emits (ok_call near user) (regex_rename api is_match replace d files)"
  using assms(5)
proof (induction files)
  case (Cons f files)
  then have f: "name_ok (oName f)" "plain_name (oName f)" by (simp_all add: listed_ok_def)
  have "ok_call near user (RenameTo (d @ ''/'' @ oName f) n)" if "checkRelativePath n" for n
  proof -
    have "IsSubPath d (d @ ''/'' @ oName f)" using child_path[OF assms(1) f] by (simp add: IsSubPath_comps)
    then show ?thesis using assms that rename_reaches[OF IsSubPath_trans[OF assms(2)]] by auto
  qed
  then show ?case using Cons by (auto simp: listed_ok_def Let_def intro!: emits_rules)
qed (simp add: emits_rules)

lemma FsRegexRename_emits:
  assumes "api_names_ok api"
  shows "emits (ok_call near user) (FsRegexRename api near compile user req)"
proof -
  have y: "yields (\<lambda>r. \<forall>files. r = Inr files \<longrightarrow> listed_ok files) (fsList api p)" for p :: string
    using api_listed[OF assms] by (simp add: yields_def fsList_def)
  show ?thesis
    unfolding FsRegexRename_def
    apply (intro emits_option emits_if emits_sum emits_return emits_prod emits_bind_yields[OF emits_list y] regex_rename_emits)
    apply (auto dest!: writable_joined)
    done
qed

section \<open>The walks\<close>

definition grows :: "(fs_call \<Rightarrow> bool) \<Rightarrow> 'w world \<Rightarrow> 'w world \<Rightarrow> bool" where
  "grows A w w' \<longleftrightarrow> (\<exists>cs. wCalls w' = wCalls w @ cs \<and> (\<forall>c \<in> set cs. A c))"

lemma grows_refl: "grows A w w"
  by (simp add: grows_def)

lemma grows_trans:
  assumes "grows A w w1" "grows A w1 w2"
  shows "grows A w w2"
proof -
  obtain cs ds where "wCalls w1 = wCalls w @ cs" "wCalls w2 = wCalls w1 @ ds" "\<forall>c \<in> set cs. A c" "\<forall>c \<in> set ds. A c"
    using assms by (auto simp: grows_def)
  then show ?thesis by (auto simp: grows_def)
qed

lemma emits_grows: "emits A m \<Longrightarrow> grows A w (snd (run_state m w))"
  by (simp add: emits_def grows_def)

definition ok_names :: "string list \<Rightarrow> bool" where
  "ok_names d \<longleftrightarrow> (\<forall>n \<in> set d. name_ok n \<and> plain_name n)"

lemma dirs_of_ok: "listed_ok files \<Longrightarrow> ok_names d \<Longrightarrow> \<forall>e \<in> set (dirs_of d files). ok_names e"
  by (auto simp: dirs_of_def ok_names_def listed_ok_def)

lemma ok_names_butlast: "ok_names d \<Longrightarrow> ok_names (butlast d)"
  by (auto simp: ok_names_def dest: in_set_butlastD)

lemma rm_empty_grows_aux:
  assumes "rm_empty_loop api src queue removed w = Some y"
  shows "api_names_ok api \<longrightarrow> (\<forall>d. ok_names d \<longrightarrow> A (RemoveAt (dir_path src d))) \<longrightarrow>
    (\<forall>d \<in> set queue. ok_names d) \<longrightarrow> grows A w (snd y)"
proof (rule rm_empty_loop.raw_induct [OF _ assms, where P = "\<lambda>api src queue removed w y. api_names_ok api \<longrightarrow>
    (\<forall>d. ok_names d \<longrightarrow> A (RemoveAt (dir_path src d))) \<longrightarrow> (\<forall>d \<in> set queue. ok_names d) \<longrightarrow> grows A w (snd y)"],
    intro impI, goal_cases)
  case (1 loop api src queue removed w y)
  have A: "ok_names d \<Longrightarrow> A (RemoveAt (dir_path src d))" for d using 1(4) by blast
  have IH: "loop api src q rem w = Some y \<Longrightarrow> \<forall>d \<in> set q. ok_names d \<Longrightarrow> grows A w (snd y)" for q rem w y
    using 1(1) 1(3,4) by blast
  note body = 1(2)
  show ?case
  proof (cases queue)
    case Nil
    then have "y = (SuccessResp, w)" using body by simp
    then show ?thesis by (simp add: grows_refl)
  next
    case (Cons d rest)
    let ?p = "dir_path src d"
    have ok: "ok_names d" "\<forall>e \<in> set rest. ok_names e" using 1(5) Cons by simp_all
    show ?thesis
    proof (cases "?p \<in> removed \<or> (\<exists>e. apiList api ?p (wFs w) = Inl e)")
      case True
      then consider "?p \<in> removed" | e where "?p \<notin> removed" "apiList api ?p (wFs w) = Inl e" by blast
      then show ?thesis
      proof cases
        case 1
        then have "loop api src rest removed w = Some y" using body Cons by (simp add: Let_def)
        then show ?thesis by (rule IH[OF _ ok(2)])
      next
        case 2
        then have "y = (ErrorResp 500, w)" using body Cons by (simp add: Let_def)
        then show ?thesis by (simp add: grows_refl)
      qed
    next
      case False
      then obtain files where files: "apiList api ?p (wFs w) = Inr files" by (meson sum.exhaust)
      show ?thesis
      proof (cases files)
        case (Cons f fs)
        have "\<forall>e \<in> set (rest @ dirs_of d files). ok_names e"
          using ok dirs_of_ok[OF api_listed[OF 1(3) files] ok(1)] by auto
        then show ?thesis using body IH False files Cons \<open>queue = d # rest\<close> by (auto split: if_splits)
      next
        case Nil
        obtain e w1 where d: "run_state (fsDo api (RemoveAt ?p)) w = (e, w1)" by fastforce
        have g: "grows A w w1" 
          using emits_grows[OF emits_do[where A = A and c = "RemoveAt ?p" and api = api], of w] A[OF ok(1)] d by simp
        have "grows A w1 (snd y)"
        proof (cases e)
          case None
          have "\<forall>e \<in> set (if length d > 1 then rest @ [butlast d] else rest). ok_names e"
            using ok ok_names_butlast by auto
          from IH[OF _ this] show ?thesis using body False files Nil None d \<open>queue = d # rest\<close> by (auto simp: Let_def split: if_splits)
        next
          case (Some x)
          then show ?thesis using body False files Nil d \<open>queue = d # rest\<close> by (auto simp: grows_refl Let_def split: if_splits)
        qed
        then show ?thesis using g grows_trans by blast
      qed
    qed
  qed
qed

lemma rm_empty_grows:
  assumes "rm_empty_loop api src queue removed w = Some y"
    and "api_names_ok api" "\<And>d. ok_names d \<Longrightarrow> A (RemoveAt (dir_path src d))" "\<forall>d \<in> set queue. ok_names d"
  shows "grows A w (snd y)"
  using rm_empty_grows_aux[OF assms(1), of A] assms(2-4) by blast

definition queued_ok :: "string \<Rightarrow> (fobj \<times> string) list \<Rightarrow> bool" where
  "queued_ok src queue \<longleftrightarrow> (\<forall>(f, dir) \<in> set queue. name_ok (oName f) \<and> plain_name (oName f)
     \<and> (\<exists>ns. ok_names ns \<and> dir = dir_path src ns))"

lemma dir_path_snoc: "dir_path src ns @ ''/'' @ n = dir_path src (ns @ [n])"
  by (simp add: dir_path_def)

lemma path_base_child:
  assumes "name_ok n"
  shows "path_base (d @ ''/'' @ n) = n"
proof -
  obtain m x where x: "n = m @ [x]" "x \<noteq> slash" using assms by (cases n rule: rev_cases) (auto simp: name_ok_def)
  have "rev (dropWhile (\<lambda>c. c = slash) (rev (d @ slash # n))) = d @ slash # n" by (simp add: x)
  moreover have "last_index_char slash (d @ slash # n) = Some (length d)"
    using assms by (intro last_index_char_append) (simp add: name_ok_def)
  ultimately show ?thesis using assms by (simp add: path_base_def path_split_def name_ok_def)
qed

definition collected :: "string \<Rightarrow> string \<Rightarrow> string list \<Rightarrow> string list \<Rightarrow> string list \<Rightarrow> bool" where
  "collected src policy existing0 existing acc \<longleftrightarrow> (\<forall>p \<in> set acc. \<exists>ns. ok_names ns \<and> ns \<noteq> [] \<and> p = dir_path src ns)
     \<and> (policy = CANCEL \<or> policy = SKIP \<longrightarrow> existing = existing0 @ map path_base acc
          \<and> distinct (map path_base acc) \<and> set (map path_base acc) \<inter> set existing0 = {})"

lemma policies: "CANCEL \<noteq> OVERWRITE" "SKIP \<noteq> OVERWRITE" "CANCEL \<noteq> SKIP"
  by (simp_all add: CANCEL_def OVERWRITE_def SKIP_def)

lemma recmove_collects:
  assumes "recmove_loop api fs policy dst queue existing acc = Some y"
  shows "api_names_ok api \<longrightarrow> queued_ok src queue \<longrightarrow> collected src policy existing0 existing acc \<longrightarrow>
    (\<forall>names. y = Inr names \<longrightarrow> (\<exists>ex. collected src policy existing0 ex names))"
proof (rule recmove_loop.raw_induct [OF _ assms, where P = "\<lambda>api fs policy dst queue existing acc y. api_names_ok api \<longrightarrow>
    queued_ok src queue \<longrightarrow> collected src policy existing0 existing acc \<longrightarrow>
    (\<forall>names. y = Inr names \<longrightarrow> (\<exists>ex. collected src policy existing0 ex names))"], intro impI, goal_cases)
  case (1 loop api fs policy dst queue existing acc y)
  have IH: "loop api fs policy dst q ex a = Some y \<Longrightarrow> queued_ok src q \<Longrightarrow> collected src policy existing0 ex a \<Longrightarrow>
      \<forall>names. y = Inr names \<longrightarrow> (\<exists>ex. collected src policy existing0 ex names)" for q ex a y
    using 1(1) 1(3) by blast
  note body = 1(2) and C = 1(5)
  show ?case
  proof (cases queue)
    case Nil
    then have "y = Inr acc" using body by simp
    then show ?thesis using C by blast
  next
    case (Cons e rest)
    obtain f dir where e: "e = (f, dir)" by fastforce
    obtain ns where f: "name_ok (oName f)" "plain_name (oName f)" "ok_names ns" "dir = dir_path src ns"
      and R: "queued_ok src rest" using 1(4) Cons e by (auto simp: queued_ok_def)
    let ?p = "dir @ ''/'' @ oName f"
    have p: "?p = dir_path src (ns @ [oName f])" "ok_names (ns @ [oName f])"
      using f by (simp_all add: dir_path_snoc[symmetric] ok_names_def)
    have here: "loop api fs policy dst rest existing acc = Some y \<Longrightarrow> ?thesis" using IH R C by blast
    have add: "collected src policy existing0 (if policy \<noteq> OVERWRITE then existing @ [oName f] else existing) (acc @ [?p])"
      if "\<not> List.member existing (oName f)"
      using C that p policies path_base_child[OF f(1), of dir] by (auto simp: collected_def)
    have over: "collected src policy existing0 existing (acc @ [?p])" if "policy \<noteq> CANCEL" "policy \<noteq> SKIP"
      using C p that by (auto simp: collected_def)
    show ?thesis
    proof (cases "oIsDir f")
      case True
      show ?thesis
      proof (cases "apiList api ?p fs")
        case (Inl x)
        then show ?thesis using body Cons e True by (auto simp: Let_def)
      next
        case (Inr files)
        have "queued_ok src (rest @ map (\<lambda>g. (g, ?p)) files)"
          using R api_listed[OF 1(3) Inr] p by (auto simp: queued_ok_def listed_ok_def)
        moreover have "loop api fs policy dst (rest @ map (\<lambda>g. (g, ?p)) files) existing acc = Some y"
          using body Cons e True Inr by (simp add: Let_def)
        ultimately show ?thesis using IH C by blast
      qed
    next
      case False
      consider "dir = dst \<or> List.member existing (oName f) \<and> policy = SKIP"
        | "dir \<noteq> dst" "List.member existing (oName f)" "policy = CANCEL"
        | "dir \<noteq> dst" "List.member existing (oName f)" "policy \<noteq> CANCEL" "policy \<noteq> SKIP"
        | "dir \<noteq> dst" "\<not> List.member existing (oName f)" by blast
      then show ?thesis
      proof cases
        case 1
        then show ?thesis using here body Cons e False policies by (auto simp: Let_def split: if_splits)
      next
        case 2
        then show ?thesis using body Cons e False by (auto simp: Let_def)
      next
        case 3
        then have "loop api fs policy dst rest existing (acc @ [?p]) = Some y"
          using body Cons e False by (simp add: Let_def)
        then show ?thesis using IH R over 3 by blast
      next
        case 4
        then have "loop api fs policy dst rest (if policy \<noteq> OVERWRITE then existing @ [oName f] else existing) (acc @ [?p]) = Some y"
          using body Cons e False by (simp add: Let_def)
        then show ?thesis using IH R add 4 by blast
      qed
    qed
  qed
qed

end
