(* ===== verification/Webdav_Requests.thy ===== *)
theory Webdav_Requests imports Webdav_Contract Webdav_Props Fs_Manage begin

text \<open>
  \<open>ServeHTTP\<close> of \<open>server/webdav/webdav.go\<close>, and what any WebDAV request may do to the storages: every
  call is covered by the user's permissions and write access, and stays under the base path unless the
  destination of a COPY or MOVE is the base path itself.
\<close>

section \<open>The dispatcher\<close>

text \<open>The lock system is never nil (\<open>server/webdav.go\<close> creates it).  The answer is the status, 0
  when the handler wrote the response, and whether an error is logged; \<open>None\<close> as in the readers.\<close>

definition ServeHTTP :: "('l, 'r) dav_env \<Rightarrow> 'w fs_api \<Rightarrow> prop_env \<Rightarrow> serve_env \<Rightarrow> User \<Rightarrow> string \<Rightarrow>
    propfind option option \<Rightarrow> (xml_name \<times> Property list) list option \<Rightarrow> dav_req \<Rightarrow> (('w, 'l) dav, status option) state" where
  "ServeHTTP h api e sv user password pf pp r =
     (let m = rMethod r; total = (\<lambda>act. do { st \<leftarrow> act; State_Monad.return (Some st) }) in
      if m = ''OPTIONS'' then State (\<lambda>w. (Some (fst (handleOptions h api user r (wFs w))), w))
      else if m = ''GET'' \<or> m = ''HEAD'' \<or> m = ''POST'' then
        State (\<lambda>w. (map_option (\<lambda>(st, body).
            if fst st \<noteq> 0 \<and> (case body of Proxied u \<Rightarrow> proxyWrote sv u | _ \<Rightarrow> False) then (0, snd st) else st)
          (handleGetHeadPost h api e sv user password (m = ''HEAD'') r (wFs w)), w))
      else if m = ''DELETE'' then total (handleDelete h api user r)
      else if m = ''PUT'' then total (handlePut h api user r)
      else if m = ''MKCOL'' then total (handleMkcol h api user r)
      else if m = ''COPY'' \<or> m = ''MOVE'' then total (handleCopyMove h api user r)
      else if m = ''LOCK'' then total (handleLock h user r)
      else if m = ''UNLOCK'' then total (handleUnlock h user r)
      else if m = ''PROPFIND'' then
        State (\<lambda>w. (map_option (\<lambda>(st, out). if snd st then (404, True) else st)
          (handlePropfind h api e user password r pf (wFs w)), w))
      else if m = ''PROPPATCH'' then total (do { res \<leftarrow> handleProppatch h api e user r pp; State_Monad.return (fst res) })
      else State_Monad.return (Some (400, True)))"

section \<open>Permitted calls\<close>

fun dav_permitted :: "('l, 'r) dav_env \<Rightarrow> User \<Rightarrow> fs_call \<Rightarrow> bool" where
  "dav_permitted h user (RemoveAt p) \<longleftrightarrow> CanRemove (Permission user) \<and> writable (nearMeta h) user (path_dir p)"
| "dav_permitted h user (PutTo d n) \<longleftrightarrow> content_allowed (nearMeta h) user d \<and> writable (nearMeta h) user d"
| "dav_permitted h user (MakeDir p) \<longleftrightarrow>
     content_allowed (nearMeta h) user (path_dir p) \<and> writable (nearMeta h) user (path_dir p)"
| "dav_permitted h user (CopyTo s d skip) \<longleftrightarrow>
     CanCopy (Permission user) \<and> readable (nearMeta h) user (path_dir s) \<and> writable (nearMeta h) user d"
| "dav_permitted h user (MoveTo s d skip) \<longleftrightarrow>
     CanMove (Permission user) \<and> writable (nearMeta h) user (path_dir s) \<and> writable (nearMeta h) user d"
| "dav_permitted h user (RenameTo p n) \<longleftrightarrow>
     (CanRename (Permission user) \<or> n = path_base p) \<and> writable (nearMeta h) user (path_dir p)"
| "dav_permitted h user (MergeTo s d skip) \<longleftrightarrow> False"

lemma near_or_nearest: "near_or h p = Inr m \<longleftrightarrow> nearest_or (nearMeta h) p = Inr m"
  by (auto simp: near_or_def nearest_or_def split: sum.splits meta_error.splits)

lemma emits_locks [emits_rules]: "emits A (on_locks f)"
  by (simp add: emits_def on_locks_def split: prod.split)

lemma emits_dav_lock [emits_rules]: "emits A (dav_lock h root)"
  unfolding dav_lock_def by (intro emits_rules)

lemma emits_dav_unlock [emits_rules]: "emits A (dav_unlock h t)"
  unfolding dav_unlock_def by (intro emits_rules)

lemma emits_release [emits_rules]: "emits A (run_release h rel)"
  unfolding run_release_def by (cases rel) (auto intro!: emits_rules)

lemma emits_confirm_lists [emits_rules]: "emits A (confirm_lists h r src dst ls)"
  by (induction ls) (auto simp: Let_def intro!: emits_rules split: option.split)

lemma emits_confirmLocks [emits_rules]: "emits A (confirmLocks h r src dst)"
  unfolding confirmLocks_def Let_def by (intro emits_rules)

lemma emits_with_locks [emits_rules]: "emits A m \<Longrightarrow> emits A (with_locks h r src dst m)"
  unfolding with_locks_def by (intro emits_rules)

text \<open>A path that is not the base path itself: its parent is under the base path, too.\<close>

definition below_base :: "User \<Rightarrow> string \<Rightarrow> bool" where
  "below_base user p \<longleftrightarrow> (\<exists>q. JoinPath user q = Inr p \<and> fix_comps q \<noteq> [])"

lemma dir_parts:
  assumes "JoinPath user q = Inr p"
  shows "fix_comps p = fix_comps (BasePath user) @ fix_comps q" "p = mk_abs (fix_comps p)"
    "fix_comps (path_dir p) = butlast (fix_comps p)" "path_dir p = mk_abs (butlast (fix_comps p))"
    "fix_comps p \<noteq> [] \<Longrightarrow> path_base p = last (fix_comps p)"
    "fix_comps p \<noteq> [] \<Longrightarrow> path_join (path_dir p) (path_base p) = p"
proof -
  note J = JoinBasePath_joined[OF assms[unfolded JoinPath_def]]
  note N = JoinPath_normal[OF assms]
  define ps where "ps = fix_comps p"
  have p: "p = mk_abs ps" "normal_comps ps" using N by (simp_all add: ps_def)
  have nb: "CHR 0x5C \<notin> set (mk_abs ps)" using N(4) FixAndCleanPath_no_backslash[of p] p(1) by metis
  show "fix_comps p = fix_comps (BasePath user) @ fix_comps q" using J by simp
  show "p = mk_abs (fix_comps p)" by (rule N(1))
  have b: "normal_comps (butlast ps)" using p(2) by (auto simp: normal_comps_def dest: in_set_butlastD)
  have "set (mk_abs (butlast ps)) \<subseteq> set (mk_abs ps)"
    by (cases ps rule: rev_cases) (auto simp: mk_abs_snoc, auto simp: mk_abs_def)
  then have nb: "CHR 0x5C \<notin> set (mk_abs (butlast ps))" using nb by blast
  have d: "path_dir p = mk_abs (butlast ps)" using p(2) unfolding p(1) by simp
  show "fix_comps (path_dir p) = butlast (fix_comps p)"
    unfolding ps_def[symmetric] d by (rule fix_comps_mk_abs[OF b nb])
  show "path_dir p = mk_abs (butlast (fix_comps p))" using d by (simp add: ps_def)
  assume ne: "fix_comps p \<noteq> []"
  then have ps: "ps = butlast ps @ [last ps]" by (simp add: ps_def)
  then have n: "normal_comps (butlast ps @ [last ps])" using p(2) by simp
  have l: "path_base p = last ps" using path_base_mk_abs[OF n] ps p(1) by simp
  then show "path_base p = last (fix_comps p)" by (simp add: ps_def)
  have "name_ok (last ps)" using n by simp
  then show "path_join (path_dir p) (path_base p) = p" using path_join_name[OF b] l d ps p(1) by simp
qed

abbreviation dav_ok :: "('l, 'r) dav_env \<Rightarrow> User \<Rightarrow> fs_call \<Rightarrow> bool" where
  "dav_ok h user c \<equiv> dav_permitted h user c \<and> confined (BasePath user) c"

lemma dir_base: "JoinPath user q = Inr p \<Longrightarrow> path_join (path_dir p) (path_base p) = p"
proof (cases "fix_comps p = []")
  case True
  assume "JoinPath user q = Inr p"
  then have "p = ''/''" using dir_parts(2) True by (metis mk_abs_def join_char.simps(1))
  then show ?thesis by (simp add: path_dir_def path_split_def last_index_char_def path_clean_def path_join_def)
qed (rule dir_parts(6))

lemma handleDelete_emits: "emits (dav_ok h user) (handleDelete h api user r)"
  unfolding handleDelete_def Let_def
  by (intro emits_rules)
    (auto simp: writable_def near_or_nearest confined_def dest: JoinPath_normal(3))

lemma handlePut_emits: "emits (dav_ok h user) (handlePut h api user r)"
  unfolding handlePut_def Let_def
  by (intro emits_rules)
    (auto simp: writable_def content_allowed_def near_or_nearest confined_def dir_base dest: JoinPath_normal(3))

lemma handleMkcol_emits: "emits (dav_ok h user) (handleMkcol h api user r)"
  unfolding handleMkcol_def Let_def
  by (intro emits_rules)
    (auto simp: writable_def content_allowed_def near_or_nearest confined_def dest: JoinPath_normal(3))

lemma handleLock_emits: "emits A (handleLock h user r)"
  unfolding handleLock_def Let_def by (intro emits_rules)

lemma handleUnlock_emits: "emits A (handleUnlock h user r)"
  unfolding handleUnlock_def Let_def by (intro emits_rules)

lemma handleProppatch_emits: "emits A (handleProppatch h api e user r body)"
  unfolding handleProppatch_def by (intro emits_rules)

lemma parent_in_base:
  assumes "JoinPath user q = Inr p" "fix_comps q \<noteq> []"
  shows "IsSubPath (BasePath user) (path_dir p)" "fix_comps p \<noteq> []"
  using dir_parts(1,3)[OF assms(1)] assms(2) by (simp_all add: IsSubPath_comps butlast_append)

text \<open>The name of one path in the directory of another.\<close>

lemma renamed_paths:
  assumes "JoinPath user q1 = Inr s" "fix_comps q1 \<noteq> []" "JoinPath user q2 = Inr d" "fix_comps q2 \<noteq> []"
  defines "p \<equiv> path_join (path_dir d) (path_base s)"
  shows "IsSubPath (BasePath user) p" "path_dir p = path_dir d" "path_dir (FixAndCleanPath p) = path_dir d"
proof -
  note S = dir_parts[OF assms(1)] and D = dir_parts[OF assms(3)]
  define b where "b = butlast (fix_comps d)"
  define c where "c = last (fix_comps s)"
  have ne: "fix_comps s \<noteq> []" "fix_comps d \<noteq> []" using parent_in_base(2) assms(1-4) by blast+
  have c: "path_base s = c" "c \<in> set (fix_comps s)" using S(5) ne(1) by (simp_all add: c_def)
  then have cn: "name_ok c" using JoinPath_normal(2)[OF assms(1)] by (simp add: normal_comps_def)
  have bn: "normal_comps b"
    using JoinPath_normal(2)[OF assms(3)] by (auto simp: normal_comps_def b_def dest: in_set_butlastD)
  have p: "p = mk_abs (b @ [c])" using path_join_name[OF bn cn] D(4) c(1) by (simp add: p_def b_def)
  have "CHR 0x5C \<notin> set (path_dir d)" using fix_comps(2)[of "path_dir d"] D(3,4) FixAndCleanPath_no_backslash by metis
  moreover have "CHR 0x5C \<notin> set c"
  proof -
    have "CHR 0x5C \<notin> set s" using JoinPath_normal(4)[OF assms(1)] FixAndCleanPath_no_backslash by metis
    moreover have "s = mk_abs (butlast (fix_comps s) @ [c])" using S(2) ne(1) by (simp add: c_def)
    ultimately show ?thesis by (metis UnCI list.set_intros(2) mk_abs_snoc set_append)
  qed
  ultimately have nb: "CHR 0x5C \<notin> set (mk_abs (b @ [c]))" using D(4) by (auto simp: mk_abs_snoc b_def)
  have n: "normal_comps (b @ [c])" using bn cn by simp
  have f: "fix_comps p = b @ [c]" "FixAndCleanPath p = p"
    using fix_comps_mk_abs[OF n nb] FixAndCleanPath_mk_abs[OF n nb] by (simp_all add: p)
  show "path_dir p = path_dir d" using n D(4) by (simp add: p b_def)
  then show "path_dir (FixAndCleanPath p) = path_dir d" using f(2) by simp
  have "prefix (fix_comps (BasePath user)) b"
    using D(1) assms(4) by (simp add: b_def butlast_append)
  then show "IsSubPath (BasePath user) p" using f(1) by (simp add: IsSubPath_comps)
qed

lemma copyFiles_emits:
  assumes "JoinPath user q1 = Inr s" "JoinPath user q2 = Inr d" "fix_comps q2 \<noteq> []"
  shows "emits (dav_ok h user) (copyFiles h api user s d)"
  unfolding copyFiles_def Let_def using parent_in_base[OF assms(2,3)]
  by (intro emits_rules)
    (auto simp: writable_def readable_def near_or_nearest confined_def intro: JoinPath_normal(3)[OF assms(1)])

lemma moveFiles_emits:
  assumes "JoinPath user q1 = Inr s" "fix_comps q1 \<noteq> []" "JoinPath user q2 = Inr d" "fix_comps q2 \<noteq> []"
  shows "emits (dav_ok h user) (moveFiles h api user s d)"
proof -
  note R = renamed_paths[OF assms]
  note J = JoinPath_normal(3)[OF assms(1)] JoinPath_normal(3)[OF assms(3)] parent_in_base(1)[OF assms(3,4)]
  have d: "path_join (path_dir d) (path_base d) = d" by (rule dir_base[OF assms(3)])
  have s: "FixAndCleanPath s = s" "path_dir s = path_dir d \<Longrightarrow> path_join (path_dir s) (path_base d) = d"
    using JoinPath_normal(4)[OF assms(1)] d by simp_all
  show ?thesis
    unfolding moveFiles_def Let_def using R J d s
    by (intro emits_rules) (auto simp: writable_def near_or_nearest confined_def)
qed

text \<open>The paths of a COPY or MOVE request are not the base path itself.\<close>

definition not_base :: "('l, 'r) dav_env \<Rightarrow> dav_req \<Rightarrow> bool" where
  "not_base h r \<longleftrightarrow> (\<forall>q. stripPrefix h (rPath r) = Inr q \<longrightarrow> fix_comps q \<noteq> [])
     \<and> (\<forall>host u q. urlParse h (rHeader r ''Destination'') = Some (host, u) \<longrightarrow> stripPrefix h u = Inr q \<longrightarrow> fix_comps q \<noteq> [])"

lemma handleCopyMove_emits:
  assumes "not_base h r"
  shows "emits (dav_ok h user) (handleCopyMove h api user r)"
  unfolding handleCopyMove_def Let_def
  by (intro emits_rules copyFiles_emits moveFiles_emits) (use assms in \<open>auto simp: not_base_def\<close>)

lemma emits_read: "emits A (State (\<lambda>w. (f w, w)))"
  by (simp add: emits_def)

text \<open>C18: Whatever WebDAV request a user sends, every call that reaches the storages is covered by the
  user's permission bits and by read or write access to the directories concerned, and all paths it
  touches lie under the base path, provided a COPY or MOVE does not name the base path itself.\<close>

theorem dav_requests_permitted_and_confined:
  assumes "rMethod r \<in> {''COPY'', ''MOVE''} \<longrightarrow> not_base h r"
    and "run_state (ServeHTTP h api e sv user password pf pp r) w = (st, w')"
  shows "\<exists>cs. wCalls w' = wCalls w @ cs \<and> (\<forall>c \<in> set cs. dav_permitted h user c \<and> confined (BasePath user) c)"
proof -
  have "emits (dav_ok h user) (ServeHTTP h api e sv user password pf pp r)"
    unfolding ServeHTTP_def Let_def
    by (intro emits_if emits_read emits_bind emits_return handleDelete_emits handlePut_emits handleMkcol_emits
        handleCopyMove_emits handleLock_emits handleUnlock_emits handleProppatch_emits) (use assms(1) in auto)
  then show ?thesis using assms(2) unfolding emits_def by (metis snd_conv)
qed

definition demo_move :: "string \<Rightarrow> dav_req" where
  "demo_move dst = (demo_dreq ''/dav/a'')\<lparr>rMethod := ''MOVE'', rPath := ''/dav/c/x'',
     rHeader := (\<lambda>k. if k = ''Destination'' then dst else '''')\<rparr>"

definition demo_serve :: serve_env where
  "demo_serve = \<lparr>Webdav302 = (\<lambda>_. Some False), downProxyURL = (\<lambda>_. ''''), fsLink = (\<lambda>p _. Inr p), proxyStatus = (\<lambda>_. None),
     proxyWrote = (\<lambda>_. False)\<rparr>"

theorem dav_requests_permitted_and_confined_witness:
  "\<exists>w'. run_state (ServeHTTP demo_dav demo_dfs demo_penv demo_serve demo_user '''' None None (demo_move ''/dav/d/y'')) demo_dworld
      = (Some (201, False), w') \<and> wCalls w' = [MoveTo ''/home/c/x'' ''/home/d'' False, RenameTo ''/home/d/x'' ''y'']
    \<and> (\<forall>c \<in> set (wCalls w'). dav_permitted demo_dav demo_user c)"
proof -
  let ?m = "ServeHTTP demo_dav demo_dfs demo_penv demo_serve demo_user '''' None None (demo_move ''/dav/d/y'')"
  obtain st w' where run: "run_state ?m demo_dworld = (st, w')" by fastforce
  have v: "map_prod id wCalls (run_state ?m demo_dworld)
      = (Some (201, False), [MoveTo ''/home/c/x'' ''/home/d'' False, RenameTo ''/home/d/x'' ''y''])" by code_simp
  have "stripPrefix demo_dav ''/dav/c/x'' = Inr ''/c/x''" "stripPrefix demo_dav ''/dav/d/y'' = Inr ''/d/y''"
    "fix_comps ''/c/x'' \<noteq> []" "fix_comps ''/d/y'' \<noteq> []" by code_simp+
  moreover have "rPath (demo_move ''/dav/d/y'') = ''/dav/c/x''" "urlParse demo_dav = (\<lambda>u. Some ('''', u))"
    "rHeader (demo_move ''/dav/d/y'') ''Destination'' = ''/dav/d/y''" by (simp_all add: demo_move_def demo_dav_def)
  ultimately have "not_base demo_dav (demo_move ''/dav/d/y'')" by (auto simp: not_base_def)
  then obtain cs where "wCalls w' = wCalls demo_dworld @ cs" "\<forall>c \<in> set cs. dav_permitted demo_dav demo_user c"
    using dav_requests_permitted_and_confined[OF _ run] by blast
  then show ?thesis using run v by (auto simp: demo_dworld_def)
qed

text \<open>The exception happens: a MOVE onto the base path moves the file out of it, over the base's name.\<close>

lemma MOVE_onto_base_leaves_it:
  "map_prod id wCalls (run_state (handleCopyMove demo_dav demo_dfs demo_user (demo_move ''/dav/'')) demo_dworld)
    = ((201, False), [MoveTo ''/home/c/x'' ''/'' False, RenameTo ''/x'' ''home''])
   \<and> \<not> confined (BasePath demo_user) (MoveTo ''/home/c/x'' ''/'' False)"
  by code_simp

text \<open>A COPY forgets the name of its destination: the copy keeps the source's name.\<close>

lemma COPY_ignores_the_new_name:
  "map_prod id wCalls (run_state (handleCopyMove demo_dav demo_dfs demo_user ((demo_move ''/dav/d/y'')\<lparr>rMethod := ''COPY''\<rparr>)) demo_dworld)
    = ((201, False), [CopyTo ''/home/c/x'' ''/home/d'' False])"
  by code_simp

end
