(* ===== verification/Fs_Requests.thy ===== *)
theory Fs_Requests imports Fs_Manage begin

text \<open>
  The file-changing API as one dispatcher, and what holds for every request: the calls it makes are
  permitted and stay under the user's base path.  The exceptions are stated and shown to happen: a name
  with a back slash, and a rename of the base directory itself.
\<close>

datatype fs_request =
    ReqMkdir "MkdirOrLinkReq option"
  | ReqMove "MoveCopyReq option"
  | ReqCopy "MoveCopyReq option"
  | ReqRename "RenameReq option"
  | ReqRemove "RemoveReq option"
  | ReqRemoveEmpty "string option"
  | ReqRecursiveMove "RecursiveMoveReq option"
  | ReqBatchRename "BatchRenameReq option"
  | ReqRegexRename "RegexRenameReq option"

fun fs_handle :: "'w fs_api \<Rightarrow> (string \<Rightarrow> meta_error + Meta) \<Rightarrow>
    (string \<Rightarrow> ((string \<Rightarrow> bool) \<times> (string \<Rightarrow> string \<Rightarrow> string)) option) \<Rightarrow> User \<Rightarrow> fs_request \<Rightarrow>
    'w world \<Rightarrow> (reply \<times> 'w world) option" where
  "fs_handle api near re user (ReqMkdir q) w = Some (run_state (FsMkdir api near user q) w)"
| "fs_handle api near re user (ReqMove q) w = Some (run_state (FsMove api near user q) w)"
| "fs_handle api near re user (ReqCopy q) w = Some (run_state (FsCopy api near user q) w)"
| "fs_handle api near re user (ReqRename q) w = Some (run_state (FsRename api near user q) w)"
| "fs_handle api near re user (ReqRemove q) w = Some (run_state (FsRemove api near user q) w)"
| "fs_handle api near re user (ReqRemoveEmpty q) w = FsRemoveEmptyDirectory api near user q w"
| "fs_handle api near re user (ReqRecursiveMove q) w = FsRecursiveMove api near user q w"
| "fs_handle api near re user (ReqBatchRename q) w = Some (run_state (FsBatchRename api near user q) w)"
| "fs_handle api near re user (ReqRegexRename q) w = Some (run_state (FsRegexRename api near re user q) w)"

text \<open>The names a batch request lists.\<close>

fun request_names :: "fs_request \<Rightarrow> string list" where
  "request_names (ReqMove (Some q)) = Names q"
| "request_names (ReqCopy (Some q)) = Names q"
| "request_names (ReqRemove (Some q)) = remNames q"
| "request_names _ = []"

lemma dir_path_sub:
  assumes "FixAndCleanPath d = d" "ok_names ns"
  shows "IsSubPath d (dir_path d ns)"
  using child_paths[OF assms(1), of ns] assms(2) by (simp add: ok_names_def IsSubPath_comps)

lemma FsRemoveEmptyDirectory_grows:
  assumes "FsRemoveEmptyDirectory api near user q w = Some (r, w')" "api_names_ok api"
  shows "grows (ok_call near user) w w'"
proof -
  have loop: "grows (ok_call near user) w w'"
    if "JoinPath user s = Inr d" "nearest_or near d = Inr m" "CanWrite (Some user) m d" "CanRemove (Permission user)"
      "apiList api d (wFs w) = Inr files" "rm_empty_loop api d (dirs_of [] files) {} w = Some (r, w')" for s d m files
  proof -
    have d: "writable near user d" "IsSubPath (BasePath user) d" "FixAndCleanPath d = d"
      using writable_joined[OF that(1-3)] by simp_all
    have "ok_call near user (RemoveAt (dir_path d ns))" if "ok_names ns" for ns
      using d dir_path_sub[OF d(3) that] \<open>CanRemove (Permission user)\<close>
      by (auto simp: reaches_def confined_def intro: IsSubPath_trans)
    moreover have "\<forall>e \<in> set (dirs_of [] files). ok_names e"
      using dirs_of_ok[OF api_listed[OF assms(2) that(5)], of "[]"] by (simp add: ok_names_def)
    ultimately show ?thesis using rm_empty_grows[OF that(6) assms(2), of "ok_call near user"] by simp
  qed
  show ?thesis
    using assms(1) unfolding FsRemoveEmptyDirectory_def
    by (auto simp: grows_refl split: option.splits sum.splits if_splits intro: loop)
qed

lemma move_files_emits: "(\<And>p b. p \<in> set ps \<Longrightarrow> A (MoveTo p d b)) \<Longrightarrow> emits A (move_files api d ps)"
  by (induction ps) (auto intro!: emits_rules)

lemma FsRecursiveMove_grows:
  assumes "FsRecursiveMove api near user q w = Some (r, w')" "api_names_ok api"
  shows "grows (ok_call near user) w w'"
proof -
  have loop: "grows (ok_call near user) w (snd (run_state (move_files api d names) w))"
    if "JoinPath user s = Inr e" "nearest_or near e = Inr m" "CanWrite (Some user) m e" "CanMove (Permission user)"
      "JoinPath user t = Inr d" "nearest_or near d = Inr k" "CanWrite (Some user) k d"
      "apiList api e (wFs w) = Inr files"
      "recmove_loop api (wFs w) policy d (map (\<lambda>f. (f, e)) files) existing [] = Some (Inr names)"
    for s e m t d k files policy existing names
  proof -
    have e: "writable near user e" "IsSubPath (BasePath user) e" "FixAndCleanPath e = e"
      using writable_joined[OF that(1-3)] by simp_all
    have d: "writable near user d" "IsSubPath (BasePath user) d" using writable_joined[OF that(5-7)] by simp_all
    have "queued_ok e (map (\<lambda>f. (f, e)) files)"
      using api_listed[OF assms(2) that(8)]
      by (auto simp: queued_ok_def listed_ok_def ok_names_def intro!: exI[of _ "[]"] simp: dir_path_def)
    then have "\<exists>ex. collected e policy existing ex names"
      using recmove_collects[OF that(9), of e existing] assms(2) by (simp add: collected_def)
    then have "p \<in> set names \<Longrightarrow> IsSubPath e p" for p
      using dir_path_sub[OF e(3)] by (auto simp: collected_def)
    then have "p \<in> set names \<Longrightarrow> ok_call near user (MoveTo p d b)" for p b
      using e d that(4) by (auto simp: reaches_def confined_def intro: IsSubPath_trans)
    then show ?thesis by (intro emits_grows move_files_emits) blast
  qed
  show ?thesis
    using assms(1) unfolding FsRecursiveMove_def
    by (auto simp: grows_refl split: option.splits sum.splits if_splits dest!: arg_cong[of "run_state _ _" _ snd] intro: loop)
qed

section \<open>Every request\<close>

text \<open>C16: Whatever file-changing request a user sends and is answered, every call that reaches the storages is covered by
  the user's permission bits and by write access to the directory concerned, and all paths it touches
  lie under the user's base path, provided the names in a batch contain no back slash and the listed
  names are proper; the one exception is the new name in a rename of the base directory itself.\<close>

theorem fs_requests_permitted_and_confined:
  assumes "fs_handle api near re user q w = Some (r, w')" "api_names_ok api" "\<forall>n \<in> set (request_names q). plain_name n"
  shows "\<exists>cs. wCalls w' = wCalls w @ cs \<and> (\<forall>c \<in> set cs. permitted near user c
    \<and> (confined (BasePath user) c \<or> (\<exists>p n. c = RenameTo p n \<and> PathEqual p (BasePath user))))"
proof -
  have run: "emits (ok_call near user) m \<Longrightarrow> run_state m w = (r, w') \<Longrightarrow> grows (ok_call near user) w w'"
    for m :: "('a world, reply) state" by (metis emits_grows snd_conv)
  have "grows (ok_call near user) w w'"
  proof (cases q)
    case (ReqMkdir x)
    then show ?thesis using run[OF FsMkdir_emits] assms(1) by simp
  next
    case (ReqMove x)
    then show ?thesis using run[OF FsMove_emits, of x] assms(1,3) by (cases x) auto
  next
    case (ReqCopy x)
    then show ?thesis using run[OF FsCopy_emits, of x] assms(1,3) by (cases x) auto
  next
    case (ReqRename x)
    then show ?thesis using run[OF FsRename_emits] assms(1) by simp
  next
    case (ReqRemove x)
    then show ?thesis using run[OF FsRemove_emits, of x] assms(1,3) by (cases x) auto
  next
    case (ReqRemoveEmpty x)
    then show ?thesis using FsRemoveEmptyDirectory_grows assms(1,2) by simp
  next
    case (ReqRecursiveMove x)
    then show ?thesis using FsRecursiveMove_grows assms(1,2) by simp
  next
    case (ReqBatchRename x)
    then show ?thesis using run[OF FsBatchRename_emits] assms(1) by simp
  next
    case (ReqRegexRename x)
    then show ?thesis using run[OF FsRegexRename_emits[OF assms(2)]] assms(1) by simp
  qed
  then show ?thesis unfolding grows_def reaches_def .
qed

text \<open>A storage for the witnesses: everything succeeds, one file in every directory.\<close>

definition demo_api :: "unit fs_api" where
  "demo_api = \<lparr>apiGet = (\<lambda>p w. Inl ObjectNotFound), apiList = (\<lambda>p w. Inr [\<lparr>oName = ''f'', oSize = 1, oIsDir = False\<rparr>]),
     apiDo = (\<lambda>c w. (w, None))\<rparr>"

definition demo_world :: "unit world" where
  "demo_world = \<lparr>wFs = (), wCalls = []\<rparr>"

definition no_meta :: "string \<Rightarrow> meta_error + Meta" where
  "no_meta p = Inl MetaNotFound"

definition demo_move :: MoveCopyReq where
  "demo_move = \<lparr>SrcDir = ''a'', DstDir = ''b'', Names = [''x'', ''../../up''], Overwrite = False, SkipExisting = False, Merge = False\<rparr>"

definition demo_moved :: "unit world" where
  "demo_moved = \<lparr>wFs = (), wCalls = [MoveTo ''/home/a/x'' ''/home/b'' True]\<rparr>"

theorem fs_requests_permitted_and_confined_witness:
  "fs_handle demo_api no_meta (\<lambda>_. None) demo_user (ReqMove (Some demo_move)) demo_world = Some (SuccessResp, demo_moved)
   \<and> confined (BasePath demo_user) (MoveTo ''/home/a/x'' ''/home/b'' True)"
proof
  show r: "fs_handle demo_api no_meta (\<lambda>_. None) demo_user (ReqMove (Some demo_move)) demo_world = Some (SuccessResp, demo_moved)"
    by code_simp
  have "\<forall>n \<in> set (request_names (ReqMove (Some demo_move))). plain_name n" by code_simp
  moreover have "api_names_ok demo_api" by (simp add: api_names_ok_def demo_api_def name_ok_def plain_name_def)
  ultimately show "confined (BasePath demo_user) (MoveTo ''/home/a/x'' ''/home/b'' True)"
    using fs_requests_permitted_and_confined[OF r] by (auto simp: demo_moved_def demo_world_def)
qed

text \<open>A name with back slashes leaves the base path.  \<open>FsRemove\<close> joins and compares the name as it
  is, but package \<open>fs\<close> turns back slashes into slashes afterwards: a user confined to
  \<open>/home\<close> removes \<open>/victim\<close>.\<close>

theorem FsRemove_backslash_escapes:
  "\<exists>w' p. fs_handle demo_api no_meta (\<lambda>_. None) demo_user
       (ReqRemove (Some \<lparr>remDir = ''/'', remNames = [''..'' @ [CHR 0x5C] @ ''victim'']\<rparr>)) demo_world = Some (SuccessResp, w')
     \<and> wCalls w' = [RemoveAt p] \<and> FixAndCleanPath p = ''/victim'' \<and> \<not> confined (BasePath demo_user) (RemoveAt p)"
proof -
  let ?p = "''/home/..'' @ [CHR 0x5C] @ ''victim''"
  have "fs_handle demo_api no_meta (\<lambda>_. None) demo_user
      (ReqRemove (Some \<lparr>remDir = ''/'', remNames = [''..'' @ [CHR 0x5C] @ ''victim'']\<rparr>)) demo_world
    = Some (SuccessResp, \<lparr>wFs = (), wCalls = [RemoveAt ?p]\<rparr>)" by code_simp
  moreover have "FixAndCleanPath ?p = ''/victim''" by code_simp
  moreover have "\<not> confined (BasePath demo_user) (RemoveAt ?p)" by code_simp
  ultimately show ?thesis by (intro exI[of _ "\<lparr>wFs = (), wCalls = [RemoveAt ?p]\<rparr>"] exI[of _ ?p]) simp
qed

text \<open>Renaming the base directory leaves the base path: a user confined to \<open>/home\<close> asks to rename
  \<open>/\<close> to \<open>root2\<close>, and \<open>/home\<close> becomes \<open>/root2\<close>.\<close>

theorem FsRename_moves_the_base:
  "\<exists>w'. fs_handle demo_api no_meta (\<lambda>_. None) demo_user
       (ReqRename (Some \<lparr>renPath = ''/'', renName = ''root2'', renOverwrite = False\<rparr>)) demo_world = Some (SuccessResp, w')
     \<and> wCalls w' = [RenameTo ''/home'' ''root2''] \<and> \<not> confined (BasePath demo_user) (RenameTo ''/home'' ''root2'')"
proof -
  let ?w = "\<lparr>wFs = (), wCalls = [RenameTo ''/home'' ''root2'']\<rparr>"
  have "fs_handle demo_api no_meta (\<lambda>_. None) demo_user
      (ReqRename (Some \<lparr>renPath = ''/'', renName = ''root2'', renOverwrite = False\<rparr>)) demo_world = Some (SuccessResp, ?w)"
    by code_simp
  moreover have "\<not> confined (BasePath demo_user) (RenameTo ''/home'' ''root2'')" by code_simp
  ultimately show ?thesis by (intro exI[of _ ?w]) simp
qed

section \<open>Recursive moves\<close>

lemma move_files_calls:
  "\<exists>ms. wCalls (snd (run_state (move_files api d ps) w)) = wCalls w @ map (\<lambda>(p, b). MoveTo p d b) ms \<and> prefix (map fst ms) ps"
proof (induction ps arbitrary: w)
  case Nil
  show ?case by (auto intro: exI[of _ "[]"])
next
  case (Cons p ps)
  obtain e w1 where d: "run_state (fsDo api (MoveTo p d (ps \<noteq> []))) w = (e, w1)" by fastforce
  then have w1: "wCalls w1 = wCalls w @ [MoveTo p d (ps \<noteq> [])]" by (auto simp: fsDo_def split: prod.splits)
  show ?case
  proof (cases e)
    case (Some x)
    then show ?thesis using d w1 by (auto intro!: exI[of _ "[(p, ps \<noteq> [])]"])
  next
    case None
    obtain ms where "wCalls (snd (run_state (move_files api d ps) w1)) = wCalls w1 @ map (\<lambda>(p, b). MoveTo p d b) ms"
      "prefix (map fst ms) ps" using Cons.IH by blast
    then show ?thesis using d None w1 by (auto intro!: exI[of _ "(p, ps \<noteq> []) # ms"])
  qed
qed

lemma FsRecursiveMove_elim:
  assumes "FsRecursiveMove api near user (Some q) w = Some (r, w')" "ConflictPolicy q \<noteq> OVERWRITE"
    and "JoinPath user (rmDstDir q) = Inr d" "apiList api d (wFs w) = Inr there"
    and "w' = w \<Longrightarrow> T"
    and "\<And>e files names. JoinPath user (rmSrcDir q) = Inr e \<Longrightarrow> apiList api e (wFs w) = Inr files \<Longrightarrow>
      recmove_loop api (wFs w) (ConflictPolicy q) d (map (\<lambda>f. (f, e)) files) (map oName there) [] = Some (Inr names) \<Longrightarrow>
      run_state (move_files api d names) w = (r, w') \<Longrightarrow> T"
  shows T
proof -
  have d: "map_sum id (map oName) (apiList api d (wFs w)) = Inr (map oName there)" by (simp add: assms(4))
  show ?thesis
    using assms(1)
    by (auto simp: FsRecursiveMove_def assms(2,3) d split: option.split_asm sum.split_asm if_split_asm intro: assms(5,6))
qed

text \<open>C17: A recursive move with the policy \<open>cancel\<close> or \<open>skip\<close> that is answered takes only names that the listing of the destination
  does not show: when the listed names are proper, the moved files have pairwise different names, and none of
  them is among the names that \<open>fs.List\<close> answered for the destination.  (This is what the code checks, and not
  that nothing is overwritten: the listing is made with the meta of the source in its context, whose hide list
  and readers filter it, so a file that they hide is not seen.)\<close>

theorem FsRecursiveMove_takes_unlisted_names:
  assumes "FsRecursiveMove api near user (Some q) w = Some (r, w')" "api_names_ok api"
    and "ConflictPolicy q = CANCEL \<or> ConflictPolicy q = SKIP"
    and "JoinPath user (rmDstDir q) = Inr d" "apiList api d (wFs w) = Inr there"
  shows "\<exists>ms. wCalls w' = wCalls w @ map (\<lambda>(p, b). MoveTo p d b) ms \<and> distinct (map (path_base \<circ> fst) ms)
    \<and> set (map (path_base \<circ> fst) ms) \<inter> set (map oName there) = {}"
proof -
  have pol: "ConflictPolicy q \<noteq> OVERWRITE" using assms(3) policies by auto
  show ?thesis
  proof (rule FsRecursiveMove_elim[OF assms(1) pol assms(4,5)], goal_cases)
    case 1
    then show ?thesis by (auto intro: exI[of _ "[]"])
  next
    case (2 e files names)
    have "queued_ok e (map (\<lambda>f. (f, e)) files)"
      using api_listed[OF assms(2) 2(2)]
      by (auto simp: queued_ok_def listed_ok_def ok_names_def intro!: exI[of _ "[]"] simp: dir_path_def)
    then obtain ex where "collected e (ConflictPolicy q) (map oName there) ex names"
      using recmove_collects[OF 2(3), of e "map oName there"] assms(2) by (auto simp: collected_def)
    then have c: "distinct (map path_base names)" "set (map path_base names) \<inter> set (map oName there) = {}"
      using assms(3) by (auto simp: collected_def)
    obtain ms where ms: "wCalls w' = wCalls w @ map (\<lambda>(p, b). MoveTo p d b) ms" "prefix (map fst ms) names"
      using move_files_calls[of api d names w] 2(4) by auto
    then obtain zs where z: "names = map fst ms @ zs" by (auto simp: prefix_def)
    have "map path_base names = map (path_base \<circ> fst) ms @ map path_base zs" by (simp add: z)
    then have "distinct (map (path_base \<circ> fst) ms)" "set (map (path_base \<circ> fst) ms) \<subseteq> set (map path_base names)"
      using c(1) by auto
    then show ?thesis using ms(1) c(2) by blast
  qed
qed

definition demo_tree :: "unit fs_api" where
  "demo_tree = \<lparr>apiGet = (\<lambda>p w. Inl ObjectNotFound),
     apiList = (\<lambda>p w. if p = ''/home/a'' then Inr [\<lparr>oName = ''s'', oSize = 0, oIsDir = True\<rparr>, \<lparr>oName = ''f'', oSize = 1, oIsDir = False\<rparr>]
       else if p = ''/home/a/s'' then Inr [\<lparr>oName = ''f'', oSize = 1, oIsDir = False\<rparr>, \<lparr>oName = ''g'', oSize = 1, oIsDir = False\<rparr>]
       else Inr []), apiDo = (\<lambda>c w. (w, None))\<rparr>"

definition demo_recmove :: RecursiveMoveReq where
  "demo_recmove = \<lparr>rmSrcDir = ''a'', rmDstDir = ''b'', ConflictPolicy = ''skip''\<rparr>"

theorem FsRecursiveMove_takes_unlisted_names_witness:
  "\<exists>r w' ms. FsRecursiveMove demo_tree no_meta demo_user (Some demo_recmove) demo_world = Some (r, w')
     \<and> wCalls w' = [MoveTo ''/home/a/f'' ''/home/b'' True, MoveTo ''/home/a/s/g'' ''/home/b'' False]
     \<and> wCalls w' = map (\<lambda>(p, b). MoveTo p ''/home/b'' b) ms \<and> distinct (map (path_base \<circ> fst) ms)"
proof -
  let ?w = "\<lparr>wFs = (), wCalls = [MoveTo ''/home/a/f'' ''/home/b'' True, MoveTo ''/home/a/s/g'' ''/home/b'' False]\<rparr>"
  have r: "FsRecursiveMove demo_tree no_meta demo_user (Some demo_recmove) demo_world = Some (SuccessResp, ?w)"
    by code_simp
  have n: "api_names_ok demo_tree" by (auto simp: api_names_ok_def demo_tree_def name_ok_def plain_name_def split: if_splits)
  have d: "JoinPath demo_user (rmDstDir demo_recmove) = Inr ''/home/b''" by code_simp
  have l: "apiList demo_tree ''/home/b'' (wFs demo_world) = Inr []" by code_simp
  have "ConflictPolicy demo_recmove = CANCEL \<or> ConflictPolicy demo_recmove = SKIP" by code_simp
  from FsRecursiveMove_takes_unlisted_names[OF r n this d l] r show ?thesis by (auto simp: demo_world_def)
qed

end
