(* ===== verification/Login_Guard.thy ===== *)
theory Login_Guard imports Access begin

text \<open>
  \<open>internal/model/login_guard.go\<close> and its clients: the sign-in of \<open>server/handles/auth.go\<close>, the
  WebDAV authentication of \<open>server/webdav.go\<close>, and the password sign-ins of \<open>server/ftp.go\<close> and
  \<open>server/sftp.go\<close>.  The cache is a third-party package: a record of operations whose documented
  behaviour is \<open>cache_laws\<close>; times are nanoseconds.
\<close>

section \<open>The cache\<close>

record 'c cache_api =
  cGet :: "int \<Rightarrow> string \<Rightarrow> 'c \<Rightarrow> int option"
  cTtl :: "int \<Rightarrow> string \<Rightarrow> 'c \<Rightarrow> int option"
  cSet :: "int \<Rightarrow> string \<Rightarrow> int \<Rightarrow> int \<Rightarrow> 'c \<Rightarrow> 'c"
  cDel :: "string list \<Rightarrow> 'c \<Rightarrow> 'c"

text \<open>An entry set with a time to live is there until its deadline: \<open>view\<close> gives value and deadline.\<close>

definition cache_laws :: "'c cache_api \<Rightarrow> ('c \<Rightarrow> string \<Rightarrow> (int \<times> int) option) \<Rightarrow> bool" where
  "cache_laws api view \<longleftrightarrow>
     (\<forall>t k c. cGet api t k c = (case view c k of Some (v, d) \<Rightarrow> if t < d then Some v else None | None \<Rightarrow> None))
     \<and> (\<forall>t k c. cTtl api t k c = (case view c k of Some (v, d) \<Rightarrow> if t < d then Some (d - t) else None | None \<Rightarrow> None))
     \<and> (\<forall>t k v ex c. view (cSet api t k v ex c) = (view c)(k \<mapsto> (v, t + ex)))
     \<and> (\<forall>ks c. view (cDel api ks c) = (\<lambda>k. if k \<in> set ks then None else view c k))"

section \<open>The guard\<close>

definition minute :: int where "minute = 60 * 10 ^ 9"
definition DefaultAttemptWindow :: int where "DefaultAttemptWindow = minute * 10"
definition DefaultLockDuration :: int where "DefaultLockDuration = minute * 5"
definition DefaultMaxAuthRetries :: int where "DefaultMaxAuthRetries = 5"

definition loginLockPrefix :: string where "loginLockPrefix = ''login-lock:''"

definition loginLockKey :: "string \<Rightarrow> string" where
  "loginLockKey ip = loginLockPrefix @ ip"

definition LoginFailures :: "'c cache_api \<Rightarrow> int \<Rightarrow> string \<Rightarrow> 'c \<Rightarrow> int" where
  "LoginFailures api t ip c = (case cGet api t ip c of None \<Rightarrow> 0 | Some count \<Rightarrow> count)"

definition LoginLocked :: "'c cache_api \<Rightarrow> int \<Rightarrow> string \<Rightarrow> 'c \<Rightarrow> int option" where
  "LoginLocked api t ip c =
     (case cTtl api t (loginLockKey ip) c of
        None \<Rightarrow> None
      | Some remaining \<Rightarrow> if remaining \<le> 0 then None else Some remaining)"

definition RecordLoginFailure :: "'c cache_api \<Rightarrow> int \<Rightarrow> string \<Rightarrow> 'c \<Rightarrow> 'c" where
  "RecordLoginFailure api t ip c =
     (if LoginLocked api t ip c \<noteq> None then c
      else (let count = LoginFailures api t ip c + 1
            in if count \<ge> DefaultMaxAuthRetries
               then cSet api t (loginLockKey ip) count DefaultLockDuration (cDel api [ip] c)
               else cSet api t ip count DefaultAttemptWindow c))"

definition ClearLoginAttempts :: "'c cache_api \<Rightarrow> string \<Rightarrow> 'c \<Rightarrow> 'c" where
  "ClearLoginAttempts api ip c = cDel api [ip, loginLockKey ip] c"

section \<open>Passwords and sign-in\<close>

text \<open>The hash function is SHA-256, an argument.\<close>

definition StaticHash :: "(string \<Rightarrow> string) \<Rightarrow> string \<Rightarrow> string" where
  "StaticHash sha pwd = sha (pwd @ ''-'' @ ''https://github.com/alist-org/alist'')"

definition HashPwd :: "(string \<Rightarrow> string) \<Rightarrow> string \<Rightarrow> string \<Rightarrow> string" where
  "HashPwd sha static salt = sha (static @ ''-'' @ salt)"

definition TwoHashPwd :: "(string \<Rightarrow> string) \<Rightarrow> string \<Rightarrow> string \<Rightarrow> string" where
  "TwoHashPwd sha pwd salt = HashPwd sha (StaticHash sha pwd) salt"

datatype pwd_error = EmptyPassword | WrongPassword

definition ValidatePwdStaticHash :: "(string \<Rightarrow> string) \<Rightarrow> User \<Rightarrow> string \<Rightarrow> pwd_error option" where
  "ValidatePwdStaticHash sha u h =
     (if h = '''' then Some EmptyPassword else if PwdHash u \<noteq> HashPwd sha h (Salt u) then Some WrongPassword else None)"

definition ValidateRawPassword :: "(string \<Rightarrow> string) \<Rightarrow> User \<Rightarrow> string \<Rightarrow> pwd_error option" where
  "ValidateRawPassword sha u pwd = ValidatePwdStaticHash sha u (StaticHash sha pwd)"

definition SetPassword :: "(string \<Rightarrow> string) \<Rightarrow> string \<Rightarrow> int \<Rightarrow> string \<Rightarrow> User \<Rightarrow> User" where
  "SetPassword sha salt unix pwd u = u\<lparr>Salt := salt, PwdHash := TwoHashPwd sha pwd salt, PwdTS := unix\<rparr>"

record LoginReq =
  lUsername :: string
  lPassword :: string
  OtpCode :: string

text \<open>What a sign-in uses: user lookup, the second factor, the token, the directory.\<close>

record login_env =
  sha256 :: "string \<Rightarrow> string"
  userByName :: "string \<Rightarrow> User option"
  totpValid :: "string \<Rightarrow> string \<Rightarrow> bool"
  makeToken :: "User \<Rightarrow> string option"
  guestUser :: "User option"
  ldapAvailable :: bool
  ldapLogin :: "string \<Rightarrow> string \<Rightarrow> bool"
  ldapRegister :: "string \<Rightarrow> User option"
  ldapDefaultPermission :: "32 word"

datatype login_reply = Refused int | LoggedIn string

definition loginHash :: "'c cache_api \<Rightarrow> login_env \<Rightarrow> int \<Rightarrow> string \<Rightarrow> LoginReq \<Rightarrow> 'c \<Rightarrow> 'c \<times> login_reply" where
  "loginHash api e t ip req c =
     (if LoginLocked api t ip c \<noteq> None then (c, Refused 429)
      else case userByName e (lUsername req) of
        None \<Rightarrow> (RecordLoginFailure api t ip c, Refused 401)
      | Some user \<Rightarrow>
          if ValidatePwdStaticHash (sha256 e) user (lPassword req) \<noteq> None then (RecordLoginFailure api t ip c, Refused 401)
          else if OtpSecret user \<noteq> '''' \<and> \<not> totpValid e (OtpCode req) (OtpSecret user)
          then (RecordLoginFailure api t ip c, Refused 402)
          else case makeToken e user of
            None \<Rightarrow> (c, Refused 500)
          | Some token \<Rightarrow> (ClearLoginAttempts api ip c, LoggedIn token))"

definition Login :: "'c cache_api \<Rightarrow> login_env \<Rightarrow> int \<Rightarrow> string \<Rightarrow> LoginReq \<Rightarrow> 'c \<Rightarrow> 'c \<times> login_reply" where
  "Login api e t ip req c = loginHash api e t ip (req\<lparr>lPassword := StaticHash (sha256 e) (lPassword req)\<rparr>) c"

text \<open>\<open>tryLogin\<close>: the password, or the directory where it is set up and the user may use it; \<open>perm\<close>
  is the default permission an unknown user must have to be registered.\<close>

definition tryLogin :: "login_env \<Rightarrow> (32 word \<Rightarrow> bool) \<Rightarrow> string \<Rightarrow> string \<Rightarrow> User option" where
  "tryLogin e perm name pwd =
     (case userByName e name of
        Some user \<Rightarrow>
          if ValidateRawPassword (sha256 e) user pwd = None then Some user
          else if ldapAvailable e \<and> AllowLdap user then (if ldapLogin e name pwd then Some user else None)
          else None
      | None \<Rightarrow>
          if ldapAvailable e \<and> perm (ldapDefaultPermission e)
          then (if ldapLogin e name pwd then ldapRegister e name else None)
          else None)"

section \<open>WebDAV, FTP and SFTP\<close>

datatype dav_auth = Aborted int | As User string

record dav_login =
  dlMethod :: string
  basicAuth :: "(string \<times> string) option"
  isSiteToken :: bool

text \<open>\<open>isSiteToken\<close>: the header is a bearer token equal to a non-empty site token; \<open>admin\<close> is the
  result of \<open>op.GetAdmin\<close>; \<open>guest\<close> may be nil when it cannot be loaded.\<close>

definition WebDAVAuth :: "'c cache_api \<Rightarrow> login_env \<Rightarrow> User option \<Rightarrow> User \<Rightarrow> int \<Rightarrow> string \<Rightarrow> dav_login \<Rightarrow> 'c \<Rightarrow> 'c \<times> dav_auth" where
  "WebDAVAuth api e admin guest t ip r c =
     (let options = dlMethod r = ''OPTIONS'' in
      if LoginLocked api t ip c \<noteq> None then (c, if options then As guest '''' else Aborted 429)
      else case basicAuth r of
        None \<Rightarrow>
          (if isSiteToken r then (case admin of None \<Rightarrow> (c, Aborted 500) | Some u \<Rightarrow> (c, As u ''''))
           else (c, if options then As guest '''' else Aborted 401))
      | Some (username, password) \<Rightarrow>
          (case tryLogin e CanWebdavRead username password of
             None \<Rightarrow> if options then (c, As guest '''') else (RecordLoginFailure api t ip c, Aborted 401)
           | Some user \<Rightarrow>
               let c = ClearLoginAttempts api ip c in
               if Disabled user \<or> \<not> CanWebdavRead (Permission user)
               then (c, if options then As guest '''' else Aborted 403)
               else if dlMethod r \<in> {''PUT'', ''MKCOL'', ''MOVE'', ''COPY'', ''DELETE'', ''PROPPATCH''}
                 \<and> \<not> CanWebdavManage (Permission user) then (c, Aborted 403)
               else (c, As user (if IsGuest user then password else ''''))))"

definition FtpAuthUser :: "'c cache_api \<Rightarrow> login_env \<Rightarrow> int \<Rightarrow> string \<Rightarrow> string \<Rightarrow> string \<Rightarrow> 'c \<Rightarrow> 'c \<times> User option" where
  "FtpAuthUser api e t ip name pwd c =
     (if LoginLocked api t ip c \<noteq> None then (c, None)
      else let anonymous = name = ''anonymous'' \<or> name = ''guest'';
               user = (if anonymous then guestUser e else tryLogin e CanFTPAccess name pwd)
      in case user of
           None \<Rightarrow> (if anonymous then c else RecordLoginFailure api t ip c, None)
         | Some u \<Rightarrow>
             if Disabled u \<or> \<not> CanFTPAccess (Permission u) then (RecordLoginFailure api t ip c, None)
             else (ClearLoginAttempts api ip c, Some u))"

definition SftpPasswordAuth :: "'c cache_api \<Rightarrow> login_env \<Rightarrow> int \<Rightarrow> string \<Rightarrow> string \<Rightarrow> string \<Rightarrow> 'c \<Rightarrow> 'c \<times> bool" where
  "SftpPasswordAuth api e t ip name pwd c =
     (if LoginLocked api t ip c \<noteq> None then (c, False)
      else case tryLogin e CanFTPAccess name pwd of
        None \<Rightarrow> (RecordLoginFailure api t ip c, False)
      | Some u \<Rightarrow>
          if Disabled u \<or> \<not> CanFTPAccess (Permission u) then (RecordLoginFailure api t ip c, False)
          else (ClearLoginAttempts api ip c, True))"

section \<open>How the guard behaves\<close>

lemma cache_lawsD:
  assumes "cache_laws api view"
  shows "cGet api t k c = (case view c k of Some (v, d) \<Rightarrow> if t < d then Some v else None | None \<Rightarrow> None)"
    "cTtl api t k c = (case view c k of Some (v, d) \<Rightarrow> if t < d then Some (d - t) else None | None \<Rightarrow> None)"
    "view (cSet api t k v ex c) = (view c)(k \<mapsto> (v, t + ex))"
    "view (cDel api ks c) = (\<lambda>k. if k \<in> set ks then None else view c k)"
  using assms unfolding cache_laws_def by blast+

lemma lock_key_fresh [simp]: "loginLockKey ip \<noteq> ip" "ip \<noteq> loginLockKey ip"
  by (simp_all add: loginLockKey_def loginLockPrefix_def)

lemma LoginLocked_view:
  "cache_laws api view \<Longrightarrow> LoginLocked api t ip c
    = (case view c (loginLockKey ip) of Some (v, d) \<Rightarrow> if t < d then Some (d - t) else None | None \<Rightarrow> None)"
  by (simp add: LoginLocked_def cache_lawsD(2) split: option.splits prod.splits)

text \<open>The requests of one client, in any order of times.\<close>

fun login_run :: "'c cache_api \<Rightarrow> login_env \<Rightarrow> string \<Rightarrow> (int \<times> LoginReq) list \<Rightarrow> 'c \<Rightarrow> 'c \<times> login_reply list" where
  "login_run api e ip [] c = (c, [])"
| "login_run api e ip ((t, req) # reqs) c =
     (let (c1, r) = Login api e t ip req c; (c2, rs) = login_run api e ip reqs c1 in (c2, r # rs))"

definition is_guess :: "login_reply \<Rightarrow> bool" where
  "is_guess r \<longleftrightarrow> r = Refused 401 \<or> r = Refused 402"

definition is_login :: "login_reply \<Rightarrow> bool" where
  "is_login r \<longleftrightarrow> (case r of LoggedIn t \<Rightarrow> True | _ \<Rightarrow> False)"

lemma Login_cases:
  "LoginLocked api t ip c \<noteq> None \<and> Login api e t ip req c = (c, Refused 429)
   \<or> LoginLocked api t ip c = None \<and> (\<exists>r. is_guess r \<and> Login api e t ip req c = (RecordLoginFailure api t ip c, r))
   \<or> Login api e t ip req c = (c, Refused 500)
   \<or> (\<exists>tok. Login api e t ip req c = (ClearLoginAttempts api ip c, LoggedIn tok))"
  by (auto simp: Login_def loginHash_def is_guess_def split: option.splits)

lemma Login_locked:
  "LoginLocked api t ip c \<noteq> None \<Longrightarrow> Login api e t ip req c = (c, Refused 429)"
  by (simp add: Login_def loginHash_def)

lemma login_run_locked:
  assumes "cache_laws api view" "view c (loginLockKey ip) = Some (v, d)"
  shows "\<forall>(t, req) \<in> set reqs. t < d \<Longrightarrow> login_run api e ip reqs c = (c, map (\<lambda>_. Refused 429) reqs)"
proof (induction reqs)
  case (Cons x reqs)
  obtain t req where x: "x = (t, req)" by fastforce
  then have "LoginLocked api t ip c \<noteq> None" using Cons.prems assms(2) by (auto simp: LoginLocked_view[OF assms(1)])
  then show ?case using Cons x by (simp add: Login_locked)
qed simp

lemma record_view:
  assumes "cache_laws api view" "LoginLocked api t ip c = None" "LoginFailures api t ip c = k"
  shows "view (RecordLoginFailure api t ip c) = (if k + 1 \<ge> 5
    then (view c)(ip := None, loginLockKey ip \<mapsto> (k + 1, t + DefaultLockDuration))
    else (view c)(ip \<mapsto> (k + 1, t + DefaultAttemptWindow)))"
  using assms(2,3) by (auto simp: RecordLoginFailure_def Let_def DefaultMaxAuthRetries_def cache_lawsD(3,4)[OF assms(1)])

lemma durations: "DefaultAttemptWindow = 2 * DefaultLockDuration" "0 < DefaultLockDuration"
  by (simp_all add: DefaultAttemptWindow_def DefaultLockDuration_def minute_def)

text \<open>With \<open>k\<close> failures counted past the end of a lock period, at most \<open>5 - k\<close> guesses follow in it.\<close>

lemma guesses_left:
  assumes laws: "cache_laws api view"
  shows "\<forall>(t, req) \<in> set reqs. t0 \<le> t \<and> t < t0 + DefaultLockDuration \<Longrightarrow>
    login_run api e ip reqs c = (c', rs) \<Longrightarrow> \<not> list_ex is_login rs \<Longrightarrow>
    (\<exists>v d. view c ip = Some (v, d) \<and> v = int k \<and> t0 + DefaultLockDuration \<le> d) \<and> k \<le> 4 \<Longrightarrow>
    length (filter is_guess rs) \<le> 5 - k"
proof (induction reqs arbitrary: c rs k)
  case (Cons x reqs)
  obtain t req where x: "x = (t, req)" by fastforce
  have t: "t0 \<le> t" "t < t0 + DefaultLockDuration" using Cons.prems(1) x by auto
  obtain c1 r rs' where r: "Login api e t ip req c = (c1, r)" "login_run api e ip reqs c1 = (c', rs')" "rs = r # rs'"
    using Cons.prems(2) x by (auto simp: Let_def split: prod.splits)
  obtain d where v: "view c ip = Some (int k, d)" "t0 + DefaultLockDuration \<le> d" "k \<le> 4" using Cons.prems(4) by auto
  have nl: "\<not> list_ex is_login rs'" "\<not> is_login r" using Cons.prems(3) r(3) by simp_all
  have same: "length (filter is_guess rs') \<le> 5 - k" if "c1 = c"
    using Cons.IH[OF _ r(2) nl(1), of k] Cons.prems(1,4) that by auto
  consider "c1 = c" "\<not> is_guess r" | "LoginLocked api t ip c = None" "c1 = RecordLoginFailure api t ip c"
    using Login_cases[of api t ip c e req] r(1) nl(2) by (auto simp: is_guess_def is_login_def)
  then show ?case
  proof cases
    case 1
    then show ?thesis using same r(3) by simp
  next
    case 2
    have f: "LoginFailures api t ip c = int k" using v t by (simp add: LoginFailures_def cache_lawsD(1)[OF laws])
    note V = record_view[OF laws 2(1) f, folded 2(2)]
    show ?thesis
    proof (cases "k = 4")
      case True
      then have "view c1 (loginLockKey ip) = Some (5, t + DefaultLockDuration)" using V by simp
      moreover have "\<forall>(t', req) \<in> set reqs. t' < t + DefaultLockDuration" using Cons.prems(1) t by auto
      ultimately have "rs' = map (\<lambda>_. Refused 429) reqs" using login_run_locked[OF laws] r(2) by fastforce
      then have "filter is_guess rs' = []" by (simp add: filter_empty_conv is_guess_def)
      then show ?thesis using r(3) True by simp
    next
      case False
      have "view c1 ip = Some (int (Suc k), t + DefaultAttemptWindow)" using V False v(3) by simp
      moreover have "t0 + DefaultLockDuration \<le> t + DefaultAttemptWindow" using t durations by simp
      ultimately have "length (filter is_guess rs') \<le> 5 - Suc k"
        using Cons.IH[OF _ r(2) nl(1), of "Suc k"] Cons.prems(1) v(3) False by auto
      moreover have "length (filter is_guess rs) \<le> Suc (length (filter is_guess rs'))" by (simp add: r(3))
      ultimately show ?thesis using v(3) False by linarith
    qed
  qed
qed simp


text \<open>A lock ends on time: once a client is locked out, every request until the deadline is answered
  429 without checking anything, and whatever it sends, the time left is counted from the attempt that
  started the lock; at the deadline it is free with no failure counted.\<close>

theorem lock_ends_on_time:
  assumes laws: "cache_laws api view"
    and "LoginLocked api t ip c = None" "LoginFailures api t ip c + 1 \<ge> DefaultMaxAuthRetries"
    and "\<forall>(s, req) \<in> set reqs. s < t + DefaultLockDuration"
    and "login_run api e ip reqs (RecordLoginFailure api t ip c) = (c', rs)"
  shows "set rs \<subseteq> {Refused 429} \<and> LoginFailures api s ip c' = 0
    \<and> LoginLocked api s ip c' = (if s < t + DefaultLockDuration then Some (t + DefaultLockDuration - s) else None)"
proof -
  define k where "k = LoginFailures api t ip c"
  note V = record_view[OF laws assms(2) k_def[symmetric]]
  have v: "view (RecordLoginFailure api t ip c) (loginLockKey ip) = Some (k + 1, t + DefaultLockDuration)"
    "view (RecordLoginFailure api t ip c) ip = None"
    using V assms(3) by (simp_all add: k_def DefaultMaxAuthRetries_def)
  have "c' = RecordLoginFailure api t ip c" "rs = map (\<lambda>_. Refused 429) reqs"
    using login_run_locked[OF laws v(1) assms(4)] assms(5) by simp_all
  then show ?thesis using v by (auto simp: LoginLocked_view[OF laws] LoginFailures_def cache_lawsD(1)[OF laws])
qed

section \<open>Examples\<close>

type_synonym demo_cache = "string \<Rightarrow> (int \<times> int) option"

definition demo_cache :: "demo_cache cache_api" where
  "demo_cache = \<lparr>cGet = (\<lambda>t k c. case c k of Some (v, d) \<Rightarrow> if t < d then Some v else None | None \<Rightarrow> None),
     cTtl = (\<lambda>t k c. case c k of Some (v, d) \<Rightarrow> if t < d then Some (d - t) else None | None \<Rightarrow> None),
     cSet = (\<lambda>t k v ex c. c(k \<mapsto> (v, t + ex))), cDel = (\<lambda>ks c k. if List.member ks k then None else c k)\<rparr>"

lemma demo_cache_laws: "cache_laws demo_cache (\<lambda>c. c)"
  by (auto simp: cache_laws_def demo_cache_def)

definition demo_guest :: User where
  "demo_guest = demo_user\<lparr>ID := 2, Username := ''guest'', Role := GUEST, Permission := 0x400\<rparr>"

definition demo_login_env :: login_env where
  "demo_login_env = \<lparr>sha256 = id, userByName = (\<lambda>n. if n = ''bob'' then Some (SetPassword id ''s'' 1 ''pw'' demo_user) else None),
     totpValid = (\<lambda>_ _. False), makeToken = (\<lambda>u. Some ''tok''), guestUser = Some demo_guest, ldapAvailable = False,
     ldapLogin = (\<lambda>_ _. False), ldapRegister = (\<lambda>_. None), ldapDefaultPermission = 0\<rparr>"

definition guess :: "string \<Rightarrow> LoginReq" where
  "guess pwd = \<lparr>lUsername = ''bob'', lPassword = pwd, OtpCode = ''''\<rparr>"


theorem lock_ends_on_time_witness:
  "LoginLocked demo_cache 9 ''ip'' (RecordLoginFailure demo_cache 7 ''ip'' [''ip'' \<mapsto> (4, 8)]) = Some (7 + DefaultLockDuration - 9)"
proof -
  let ?c = "[''ip'' \<mapsto> (4, 8)] :: demo_cache"
  have "LoginLocked demo_cache 7 ''ip'' ?c = None" "LoginFailures demo_cache 7 ''ip'' ?c + 1 \<ge> DefaultMaxAuthRetries"
    by code_simp+
  from lock_ends_on_time[OF demo_cache_laws this, of "[]" demo_login_env _ _ 9] show ?thesis using durations
    by (auto simp: DefaultLockDuration_def minute_def)
qed

text \<open>The guard can be reset by whoever may use the guest account over FTP: its sign-in, which checks no
  password, forgets the failures, so guessing goes on for ever.\<close>

lemma anonymous_ftp_resets_the_guard:
  "let guesses = replicate 4 (7, guess ''x'');
       (c1, r1) = login_run demo_cache demo_login_env ''ip'' guesses (\<lambda>_. None);
       (c2, u) = FtpAuthUser demo_cache demo_login_env 7 ''ip'' ''anonymous'' '''' c1;
       (c3, r3) = login_run demo_cache demo_login_env ''ip'' guesses c2
   in u \<noteq> None \<and> filter is_guess (r1 @ r3) = replicate 8 (Refused 401) \<and> LoginFailures demo_cache 7 ''ip'' c2 = 0"
  by code_simp

text \<open>A wrong password in a WebDAV OPTIONS request is not counted, and the answer differs from that for
  the right one.\<close>

lemma WebDAVAuth_options_not_counted:
  assumes "dlMethod r = ''OPTIONS''" "basicAuth r = Some (name, pwd)" "tryLogin e CanWebdavRead name pwd = None"
  shows "WebDAVAuth api e admin guest t ip r c = (c, As guest '''')"
  using assms by (simp add: WebDAVAuth_def Let_def)

text \<open>The second factor guards the API sign-in only.\<close>

lemma second_factor_only_for_the_api:
  "let e = demo_login_env\<lparr>userByName := (\<lambda>n. Some ((SetPassword id ''s'' 1 ''pw'' demo_user)\<lparr>OtpSecret := ''o'', Permission := 0x700\<rparr>))\<rparr>
   in snd (Login demo_cache e 7 ''ip'' (guess ''pw'') (\<lambda>_. None)) = Refused 402
     \<and> snd (SftpPasswordAuth demo_cache e 7 ''ip'' ''bob'' ''pw'' (\<lambda>_. None))"
  by code_simp

end
