(* ===== verification/Auth.thy ===== *)
theory Auth imports Access begin

text \<open>
  Who a request is: the credential of \<open>server/common/auth.go\<close>, personal access tokens
  (\<open>server/common/pat.go\<close>, \<open>internal/model/access_token.go\<close>, \<open>server/handles/token.go\<close>), sessions
  and their revocation, and the middlewares of \<open>server/middlewares/auth.go\<close>.  JWT verification,
  SHA-256 and the database tables of users and tokens are fields of an environment.
\<close>

section \<open>Credentials\<close>

text \<open>\<open>strings.EqualFold\<close> with a word whose letters fold in ASCII only.\<close>

definition ascii_lower :: "char \<Rightarrow> char" where
  "ascii_lower c = (if 65 \<le> (of_char c :: nat) \<and> (of_char c :: nat) \<le> 90 then char_of ((of_char c :: nat) + 32) else c)"

definition is_bearer :: "string \<Rightarrow> bool" where
  "is_bearer s \<longleftrightarrow> map ascii_lower s = ''bearer''"

definition Credential :: "string \<Rightarrow> string" where
  "Credential header =
     (let trimmed = trim_space header
      in case cut_char (CHR '' '') trimmed of
           Some (scheme, rest) \<Rightarrow> if is_bearer scheme then trim_space rest else trimmed
         | None \<Rightarrow> trimmed)"

section \<open>Personal access tokens\<close>

definition ValidScopes :: "string list" where
  "ValidScopes = [''fs:read'', ''fs:write'', ''share:read'', ''task:read'', ''task:write'']"

record AccessToken =
  atUserId :: nat
  atName :: string
  atPrefix :: string
  TokenHash :: string
  Scopes :: string
  atExpiresAt :: "int option"
  RevokedAt :: "int option"

definition ScopeList :: "AccessToken \<Rightarrow> string list" where
  "ScopeList t =
     (if Scopes t = '''' then [] else filter (\<lambda>p. p \<noteq> '''') (map trim_space (split_char (CHR '','') (Scopes t))))"

definition HasScope :: "AccessToken \<Rightarrow> string \<Rightarrow> bool" where
  "HasScope t scope \<longleftrightarrow> List.member (ScopeList t) scope"

definition IsActive :: "int \<Rightarrow> AccessToken \<Rightarrow> bool" where
  "IsActive t0 t \<longleftrightarrow> RevokedAt t = None \<and> (case atExpiresAt t of None \<Rightarrow> True | Some x \<Rightarrow> \<not> t0 > x)"

definition ValidateScopes :: "string list \<Rightarrow> string list" where
  "ValidateScopes scopes = filter (\<lambda>s. \<not> List.member ValidScopes s) scopes"

definition PATPrefix :: string where "PATPrefix = ''obk_''"

definition IsPAT :: "string \<Rightarrow> bool" where
  "IsPAT token \<longleftrightarrow> has_prefix (Credential token) PATPrefix"

record UserClaims =
  ucUsername :: string
  ucPwdTS :: int
  ucExpiresAt :: "int option"

record auth_env =
  sha :: "string \<Rightarrow> string"
  verifyToken :: "int \<Rightarrow> string \<Rightarrow> UserClaims option"
  siteToken :: string
  adminUser :: "User option"
  guestUsr :: "User option"
  nameUser :: "string \<Rightarrow> User option"
  idUser :: "nat \<Rightarrow> User option"
  tokenByHash :: "string \<Rightarrow> AccessToken option"
  tokenExpiresIn :: int

definition HashPAT :: "auth_env \<Rightarrow> string \<Rightarrow> string" where
  "HashPAT e raw = sha e raw"

definition GetAccessTokenByHash :: "auth_env \<Rightarrow> int \<Rightarrow> string \<Rightarrow> AccessToken option" where
  "GetAccessTokenByHash e t0 h =
     (case tokenByHash e h of None \<Rightarrow> None | Some t \<Rightarrow> if \<not> IsActive t0 t then None else Some t)"

definition ResolvePAT :: "auth_env \<Rightarrow> int \<Rightarrow> string \<Rightarrow> (User \<times> AccessToken) option" where
  "ResolvePAT e t0 raw =
     (case GetAccessTokenByHash e t0 (HashPAT e (Credential raw)) of
        None \<Rightarrow> None
      | Some t \<Rightarrow> (case idUser e (atUserId t) of
            None \<Rightarrow> None
          | Some u \<Rightarrow> if Disabled u then None else Some (u, t)))"

record TokenCreateReq =
  tcName :: string
  tcScopes :: "string list"
  ExpiresIn :: int

definition hour :: int where "hour = 3600 * 10 ^ 9"

text \<open>\<open>CreateMyToken\<close>: \<open>None\<close> is a request that does not bind; \<open>raw\<close> is the generated token.  The
  reply code, or the stored token.\<close>

definition CreateMyToken :: "auth_env \<Rightarrow> int \<Rightarrow> string \<Rightarrow> User \<Rightarrow> TokenCreateReq option \<Rightarrow> int + AccessToken" where
  "CreateMyToken e t0 raw user req =
     (if IsGuest user then Inl 401
      else case req of None \<Rightarrow> Inl 400 | Some req \<Rightarrow>
      let name = trim_space (tcName req) in
      if name = '''' then Inl 400
      else if length name > 64 then Inl 400
      else if ValidateScopes (tcScopes req) \<noteq> [] then Inl 400
      else if tokenByHash e (HashPAT e raw) \<noteq> None then Inl 500
      else Inr \<lparr>atUserId = ID user, atName = name, atPrefix = take (length PATPrefix + 8) raw, TokenHash = HashPAT e raw,
        Scopes = join_char (CHR '','') (tcScopes req),
        atExpiresAt = (if ExpiresIn req > 0 then Some (t0 + wrap64 (wrap64 (ExpiresIn req) * hour)) else None),
        RevokedAt = None\<rparr>)"

definition RevokeAccessToken :: "int \<Rightarrow> AccessToken \<Rightarrow> AccessToken" where
  "RevokeAccessToken t0 t = t\<lparr>RevokedAt := Some t0\<rparr>"

section \<open>Sessions and their revocation\<close>

text \<open>The table of revoked sessions and its mirror in memory; \<open>loadedAt = None\<close> is the zero time of a
  new store.  Each database call is told whether it succeeds.\<close>

record revocationStore =
  hashes :: "string \<Rightarrow> int option"
  loadedAt :: "int option"
  lastPrune :: "int option"

record sessions =
  rows :: "string \<Rightarrow> int option"
  store :: revocationStore

definition sessionRevocationReload :: int where "sessionRevocationReload = 10 * 10 ^ 9"
definition sessionRevocationPrune :: int where "sessionRevocationPrune = hour"

definition newRevocationStore :: revocationStore where
  "newRevocationStore = \<lparr>hashes = (\<lambda>_. None), loadedAt = None, lastPrune = None\<rparr>"

definition due :: "int \<Rightarrow> int option \<Rightarrow> int \<Rightarrow> bool" where
  "due t0 since every \<longleftrightarrow> (case since of None \<Rightarrow> True | Some t \<Rightarrow> t0 - t \<ge> every)"

definition unexpired :: "int \<Rightarrow> (string \<Rightarrow> int option) \<Rightarrow> string \<Rightarrow> int option" where
  "unexpired t0 m h = (case m h of None \<Rightarrow> None | Some x \<Rightarrow> if x > t0 then Some x else None)"

definition reloadLocked :: "bool \<Rightarrow> bool \<Rightarrow> int \<Rightarrow> sessions \<Rightarrow> sessions" where
  "reloadLocked listOk pruneOk t0 s =
     (let r = store s;
          r = (if listOk then r\<lparr>hashes := unexpired t0 (rows s)\<rparr> else r);
          r = r\<lparr>loadedAt := Some t0\<rparr>
      in if due t0 (lastPrune r) sessionRevocationPrune
         then \<lparr>rows = (if pruneOk then unexpired t0 (rows s) else rows s), store = r\<lparr>lastPrune := Some t0\<rparr>\<rparr>
         else s\<lparr>store := r\<rparr>)"

definition contains :: "bool \<Rightarrow> bool \<Rightarrow> int \<Rightarrow> string \<Rightarrow> sessions \<Rightarrow> sessions \<times> bool" where
  "contains listOk pruneOk t0 h s =
     (let s = (if due t0 (loadedAt (store s)) sessionRevocationReload then reloadLocked listOk pruneOk t0 s else s)
      in (s, case hashes (store s) h of None \<Rightarrow> False | Some x \<Rightarrow> x > t0))"

definition rev_add :: "int \<Rightarrow> string \<Rightarrow> int \<Rightarrow> sessions \<Rightarrow> sessions" where
  "rev_add t0 h x s = s\<lparr>store := (store s)\<lparr>hashes := (hashes (store s))(h \<mapsto> x), loadedAt := Some t0\<rparr>\<rparr>"

text \<open>Revoking a revoked session keeps its row.\<close>

definition RevokeSession :: "bool \<Rightarrow> string \<Rightarrow> int \<Rightarrow> sessions \<Rightarrow> sessions option" where
  "RevokeSession dbOk h x s =
     (if \<not> dbOk then None
      else Some (case rows s h of None \<Rightarrow> s\<lparr>rows := (rows s)(h \<mapsto> x)\<rparr> | Some y \<Rightarrow> s))"

definition hashSessionToken :: "auth_env \<Rightarrow> string \<Rightarrow> string" where
  "hashSessionToken e tok = sha e (Credential tok)"

definition sessionExpiry :: "auth_env \<Rightarrow> int \<Rightarrow> string \<Rightarrow> int" where
  "sessionExpiry e t0 tok =
     (case Option.bind (verifyToken e t0 (Credential tok)) ucExpiresAt of
        Some x \<Rightarrow> x
      | None \<Rightarrow> if tokenExpiresIn e > 0 then t0 + wrap64 (tokenExpiresIn e * hour) else t0 + 48 * hour)"

definition InvalidateToken :: "auth_env \<Rightarrow> bool \<Rightarrow> int \<Rightarrow> string \<Rightarrow> sessions \<Rightarrow> sessions \<times> bool" where
  "InvalidateToken e dbOk t0 tok s =
     (if tok = '''' then (s, True)
      else let h = hashSessionToken e tok; x = sessionExpiry e t0 tok
      in case RevokeSession dbOk h x s of None \<Rightarrow> (s, False) | Some s \<Rightarrow> (rev_add t0 h x s, True))"

definition IsTokenInvalidated :: "auth_env \<Rightarrow> bool \<Rightarrow> bool \<Rightarrow> int \<Rightarrow> string \<Rightarrow> sessions \<Rightarrow> sessions \<times> bool" where
  "IsTokenInvalidated e listOk pruneOk t0 tok s =
     (if tok = '''' then (s, False) else contains listOk pruneOk t0 (hashSessionToken e tok) s)"

definition ParseToken :: "auth_env \<Rightarrow> bool \<Rightarrow> bool \<Rightarrow> int \<Rightarrow> string \<Rightarrow> sessions \<Rightarrow> sessions \<times> UserClaims option" where
  "ParseToken e listOk pruneOk t0 tok s =
     (let credential = Credential tok
      in case verifyToken e t0 credential of
           None \<Rightarrow> (s, None)
         | Some claims \<Rightarrow> (case IsTokenInvalidated e listOk pruneOk t0 credential s of
               (s, invalid) \<Rightarrow> (s, if invalid then None else Some claims)))"

section \<open>Middlewares\<close>

text \<open>A granted request carries its user and, for a personal access token, the scopes.\<close>

datatype auth_result = Rejected int | Granted User "string list option"

definition auth_common :: "auth_env \<Rightarrow> (User \<Rightarrow> bool) \<Rightarrow> bool \<Rightarrow> bool \<Rightarrow> int \<Rightarrow> string \<Rightarrow> sessions \<Rightarrow> sessions \<times> auth_result" where
  "auth_common e guestOk listOk pruneOk t0 header s =
     (let token = Credential header in
      if token = siteToken e then
        (s, case adminUser e of None \<Rightarrow> Rejected 500 | Some u \<Rightarrow> Granted u None)
      else if token = '''' then
        (s, case guestUsr e of None \<Rightarrow> Rejected 500 | Some g \<Rightarrow> if \<not> guestOk g then Rejected 401 else Granted g None)
      else if IsPAT token then
        (s, case ResolvePAT e t0 token of None \<Rightarrow> Rejected 401 | Some (u, pat) \<Rightarrow> Granted u (Some (ScopeList pat)))
      else case ParseToken e listOk pruneOk t0 token s of
        (s, None) \<Rightarrow> (s, Rejected 401)
      | (s, Some claims) \<Rightarrow>
          (s, case nameUser e (ucUsername claims) of
                None \<Rightarrow> Rejected 401
              | Some u \<Rightarrow>
                  if ucPwdTS claims \<noteq> PwdTS u then Rejected 401
                  else if Disabled u then Rejected 401
                  else Granted u None))"

definition Auth :: "bool \<Rightarrow> auth_env \<Rightarrow> bool \<Rightarrow> bool \<Rightarrow> int \<Rightarrow> string \<Rightarrow> sessions \<Rightarrow> sessions \<times> auth_result" where
  "Auth allowDisabledGuest e = auth_common e (\<lambda>g. allowDisabledGuest \<or> \<not> Disabled g)"

definition Authn :: "auth_env \<Rightarrow> bool \<Rightarrow> bool \<Rightarrow> int \<Rightarrow> string \<Rightarrow> sessions \<Rightarrow> sessions \<times> auth_result" where
  "Authn e = auth_common e (\<lambda>g. True)"

text \<open>The later middlewares answer \<open>None\<close> to go on, or a code.\<close>

definition AuthNotGuest :: "User \<Rightarrow> int option" where
  "AuthNotGuest u = (if IsGuest u then Some 403 else None)"

definition AuthAdmin :: "User \<Rightarrow> int option" where
  "AuthAdmin u = (if \<not> IsAdmin u then Some 403 else None)"

definition AuthScope :: "string \<Rightarrow> string list option \<Rightarrow> int option" where
  "AuthScope scope v =
     (case v of None \<Rightarrow> None | Some scopes \<Rightarrow> if List.member scopes scope then None else Some 403)"

definition RequireSession :: "string list option \<Rightarrow> int option" where
  "RequireSession v = (if v \<noteq> None then Some 403 else None)"

definition LogOut :: "auth_env \<Rightarrow> bool \<Rightarrow> int \<Rightarrow> string \<Rightarrow> sessions \<Rightarrow> sessions \<times> int" where
  "LogOut e dbOk t0 header s = (case InvalidateToken e dbOk t0 header s of (s, ok) \<Rightarrow> (s, if ok then 200 else 500))"

section \<open>Tokens\<close>

lemma valid_scope: "s \<in> set ValidScopes \<Longrightarrow> s \<noteq> '''' \<and> CHR '','' \<notin> set s \<and> trim_space s = s"
  by (auto simp: ValidScopes_def visible_def intro!: trim_space_id)

text \<open>A personal access token has exactly the scopes it was created with: the stored string gives
  back the list of the request, all of it valid, and a request with the token passes a scope check
  only for these, and never a route that requires a session.\<close>

theorem token_scopes_roundtrip:
  assumes "CreateMyToken e t0 raw user (Some req) = Inr t"
  shows "ScopeList t = tcScopes req \<and> set (tcScopes req) \<subseteq> set ValidScopes
    \<and> (AuthScope scope (Some (ScopeList t)) = None \<longleftrightarrow> scope \<in> set (tcScopes req))
    \<and> RequireSession (Some (ScopeList t)) = Some 403"
proof -
  have v: "set (tcScopes req) \<subseteq> set ValidScopes" and s: "Scopes t = join_char (CHR '','') (tcScopes req)"
    using assms by (auto simp: CreateMyToken_def Let_def ValidateScopes_def filter_empty_conv List.member_iff split: if_splits)
  have c: "\<forall>p \<in> set (tcScopes req). CHR '','' \<notin> set p" "\<forall>p \<in> set (tcScopes req). p \<noteq> '''' \<and> trim_space p = p"
    using v valid_scope by blast+
  have "ScopeList t = tcScopes req"
  proof (cases "tcScopes req")
    case Nil
    then show ?thesis by (simp add: ScopeList_def s)
  next
    case (Cons p ps)
    then have "join_char (CHR '','') (tcScopes req) \<noteq> ''''" using c(2) by (cases ps) auto
    moreover have "split_char (CHR '','') (join_char (CHR '','') (tcScopes req)) = tcScopes req"
      using split_join_char[of "tcScopes req" "CHR '',''"] c(1) Cons by simp
    moreover have "map trim_space (tcScopes req) = tcScopes req" using c(2) by (simp add: map_idI)
    moreover have "filter (\<lambda>p. p \<noteq> '''') (tcScopes req) = tcScopes req" using c(2) by (simp add: filter_id_conv)
    ultimately show ?thesis by (simp add: ScopeList_def s)
  qed
  then show ?thesis using v by (auto simp: AuthScope_def RequireSession_def List.member_iff)
qed

section \<open>Signing out\<close>

text \<open>What is relied on of JWT verification: accepted claims have not expired, and stay accepted until
  they do, the claims being part of the token; the empty string is not a token.\<close>

definition alive :: "int \<Rightarrow> UserClaims \<Rightarrow> bool" where
  "alive t0 cl \<longleftrightarrow> (case ucExpiresAt cl of None \<Rightarrow> True | Some x \<Rightarrow> t0 < x)"

definition jwt_laws :: "auth_env \<Rightarrow> bool" where
  "jwt_laws e \<longleftrightarrow> (\<forall>t0 tok cl. verifyToken e t0 tok = Some cl \<longrightarrow>
     tok \<noteq> '''' \<and> alive t0 cl
     \<and> (\<forall>t1. verifyToken e t1 tok \<in> {None, Some cl} \<and> (t0 \<le> t1 \<and> alive t1 cl \<longrightarrow> verifyToken e t1 tok = Some cl)))"

lemma jwt_some: "jwt_laws e \<Longrightarrow> verifyToken e t0 tok = Some cl \<Longrightarrow> tok \<noteq> '''' \<and> alive t0 cl"
  unfolding jwt_laws_def by blast

lemma jwt_same: "jwt_laws e \<Longrightarrow> verifyToken e t0 tok = Some cl \<Longrightarrow> verifyToken e t1 tok = Some cl' \<Longrightarrow> cl' = cl"
  unfolding jwt_laws_def by (metis insertE option.distinct(1) option.inject singletonD)

lemma jwt_stays: "jwt_laws e \<Longrightarrow> verifyToken e t0 tok = Some cl \<Longrightarrow> t0 \<le> t1 \<Longrightarrow> alive t1 cl \<Longrightarrow> verifyToken e t1 tok = Some cl"
  unfolding jwt_laws_def by blast

text \<open>Requests and sign-outs at their times, and restarts of the server.\<close>

datatype session_event = EvRequest string bool bool | EvLogOut string bool bool bool | EvRestart

text \<open>The sign-out route: \<open>Auth(false)\<close>, \<open>RequireSession\<close>, \<open>LogOut\<close> (\<open>server/router.go\<close>).\<close>

definition logout_route :: "auth_env \<Rightarrow> bool \<Rightarrow> bool \<Rightarrow> bool \<Rightarrow> int \<Rightarrow> string \<Rightarrow> sessions \<Rightarrow> sessions \<times> int" where
  "logout_route e listOk pruneOk dbOk t0 header s =
     (case Auth False e listOk pruneOk t0 header s of
        (s, Rejected code) \<Rightarrow> (s, code)
      | (s, Granted u v) \<Rightarrow> (case RequireSession v of Some code \<Rightarrow> (s, code) | None \<Rightarrow> LogOut e dbOk t0 header s))"

fun session_step :: "auth_env \<Rightarrow> int \<Rightarrow> session_event \<Rightarrow> sessions \<Rightarrow> sessions" where
  "session_step e t0 (EvRequest header listOk pruneOk) s = fst (Auth True e listOk pruneOk t0 header s)"
| "session_step e t0 (EvLogOut header listOk pruneOk dbOk) s = fst (logout_route e listOk pruneOk dbOk t0 header s)"
| "session_step e t0 EvRestart s = s\<lparr>store := newRevocationStore\<rparr>"

fun session_run :: "auth_env \<Rightarrow> (int \<times> session_event) list \<Rightarrow> sessions \<Rightarrow> sessions" where
  "session_run e [] s = s"
| "session_run e ((t0, ev) # evs) s = session_run e evs (session_step e t0 ev s)"

text \<open>With \<open>reliable\<close> every load of the table succeeds; otherwise there is no restart.  Sign-outs carry
  a session, not the site token.\<close>

fun event_ok :: "auth_env \<Rightarrow> bool \<Rightarrow> session_event \<Rightarrow> bool" where
  "event_ok e reliable (EvRequest header listOk pruneOk) \<longleftrightarrow> (reliable \<longrightarrow> listOk)"
| "event_ok e reliable (EvLogOut header listOk pruneOk dbOk) \<longleftrightarrow> (reliable \<longrightarrow> listOk)
     \<and> Credential header \<noteq> siteToken e \<and> Credential header \<noteq> ''''"
| "event_ok e reliable EvRestart \<longleftrightarrow> reliable"

definition revoked :: "bool \<Rightarrow> string \<Rightarrow> int \<Rightarrow> int \<Rightarrow> sessions \<Rightarrow> bool" where
  "revoked reliable h x t0 s \<longleftrightarrow> (t0 < x \<longrightarrow> (\<exists>y \<ge> x. rows s h = Some y)
     \<and> ((\<exists>y \<ge> x. hashes (store s) h = Some y) \<or> reliable \<and> loadedAt (store s) = None))"

lemma revoked_later: "revoked b h x t0 s \<Longrightarrow> t0 \<le> t1 \<Longrightarrow> revoked b h x t1 s"
  by (simp add: revoked_def)

lemma revoked_reload:
  assumes "revoked b h x t0 s" "b \<longrightarrow> listOk"
  shows "revoked b h x t0 (reloadLocked listOk pruneOk t0 s)"
    "t0 < x \<Longrightarrow> \<exists>y \<ge> x. hashes (store (reloadLocked listOk pruneOk t0 s)) h = Some y"
  using assms by (auto simp: revoked_def reloadLocked_def Let_def unexpired_def)

lemma revoked_contains:
  assumes "revoked b h x t0 s" "b \<longrightarrow> listOk"
  shows "revoked b h x t0 (fst (contains listOk pruneOk t0 k s))"
    "t0 < x \<Longrightarrow> snd (contains listOk pruneOk t0 h s)"
proof -
  show "revoked b h x t0 (fst (contains listOk pruneOk t0 k s))"
    using assms revoked_reload(1) by (simp add: contains_def Let_def)
  assume t: "t0 < x"
  show "snd (contains listOk pruneOk t0 h s)"
  proof (cases "due t0 (loadedAt (store s)) sessionRevocationReload")
    case True
    then show ?thesis using revoked_reload(2)[OF assms, of pruneOk] t by (auto simp: contains_def)
  next
    case False
    then have "loadedAt (store s) \<noteq> None" by (cases "loadedAt (store s)") (auto simp: due_def)
    then show ?thesis using False assms(1) t by (auto simp: contains_def revoked_def)
  qed
qed

lemma ParseToken_eq:
  "ParseToken e listOk pruneOk t0 tok s =
     (case verifyToken e t0 (Credential tok) of
        None \<Rightarrow> (s, None)
      | Some cl \<Rightarrow> if Credential tok = '''' then (s, Some cl)
          else (fst (contains listOk pruneOk t0 (hashSessionToken e (Credential tok)) s),
            if snd (contains listOk pruneOk t0 (hashSessionToken e (Credential tok)) s) then None else Some cl))"
  by (simp add: ParseToken_def IsTokenInvalidated_def Let_def split_beta split: option.split)

lemma Auth_eq:
  "Auth a e listOk pruneOk t0 header s =
     (let token = Credential header; P = ParseToken e listOk pruneOk t0 token s in
      if token = siteToken e \<or> token = '''' \<or> IsPAT token then (s, snd (Auth a e listOk pruneOk t0 header s))
      else (fst P, snd (Auth a e listOk pruneOk t0 header s)))"
  by (simp add: Auth_def auth_common_def Let_def split_beta split: option.split)

lemma Auth_state:
  "\<exists>k. fst (Auth a e listOk pruneOk t0 header s) \<in> {s, fst (contains listOk pruneOk t0 k s)}"
  by (subst Auth_eq) (auto simp: Let_def ParseToken_eq split: option.split)

lemma Auth_granted_loads:
  assumes "Auth a e listOk pruneOk t0 header s = (s', Granted u None)" "jwt_laws e"
    and "Credential header \<noteq> siteToken e" "Credential header \<noteq> ''''"
  shows "\<exists>k. s' = fst (contains listOk pruneOk t0 k s)"
proof -
  let ?tok = "Credential header"
  note A = assms(1)[unfolded Auth_def auth_common_def Let_def]
  have pat: "\<not> IsPAT ?tok"
  proof
    assume "IsPAT ?tok"
    then show False using A assms(3,4) by (cases "ResolvePAT e t0 ?tok") (simp_all add: split_beta)
  qed
  obtain s1 c where p: "ParseToken e listOk pruneOk t0 ?tok s = (s1, c)" by fastforce
  have c: "c \<noteq> None" "s1 = s'" using A assms(3,4) pat p by (cases c, simp_all)+
  then obtain cl where v: "verifyToken e t0 (Credential ?tok) = Some cl"
    using p by (cases "verifyToken e t0 (Credential ?tok)") (simp_all add: ParseToken_eq)
  then have "Credential ?tok \<noteq> ''''" using jwt_some[OF assms(2)] by blast
  then have "s1 = fst (contains listOk pruneOk t0 (hashSessionToken e (Credential ?tok)) s)"
    using p v by (simp add: ParseToken_eq)
  then show ?thesis using c(2) by blast
qed

lemma contains_loads:
  "revoked b h x t0 s \<Longrightarrow> b \<longrightarrow> listOk \<Longrightarrow> revoked False h x t0 (fst (contains listOk pruneOk t0 k s))"
  using revoked_reload[of b h x t0 s listOk pruneOk]
  by (auto simp: contains_def revoked_def due_def Let_def)

text \<open>A session that is revoked, with its hash and expiry.\<close>

definition session_of :: "auth_env \<Rightarrow> string \<Rightarrow> int \<Rightarrow> int \<Rightarrow> bool" where
  "session_of e tok x t0 \<longleftrightarrow> (\<exists>cl. verifyToken e t0 tok = Some cl \<and> ucExpiresAt cl = Some x)"

lemma sessionExpiry_same:
  assumes "jwt_laws e" "session_of e tok x t0" "t0 \<le> t1" "t1 < x" "Credential header = tok"
  shows "sessionExpiry e t1 header = x"
proof -
  obtain cl where "verifyToken e t0 tok = Some cl" "ucExpiresAt cl = Some x" using assms(2) by (auto simp: session_of_def)
  moreover from this have "alive t1 cl" using assms(4) by (simp add: alive_def)
  ultimately have "verifyToken e t1 tok = Some cl" "ucExpiresAt cl = Some x" using jwt_stays[OF assms(1) _ assms(3)] by blast+
  then
  show ?thesis by (simp add: sessionExpiry_def assms(5))
qed

lemma LogOut_keeps_revoked:
  assumes "revoked False (sha e tok) x t1 s" "jwt_laws e" "inj (sha e)" "session_of e tok x t0" "t0 \<le> t1"
  shows "revoked False (sha e tok) x t1 (fst (LogOut e dbOk t1 header s))"
proof (cases "header = '''' \<or> \<not> dbOk")
  case True
  then show ?thesis using assms(1) by (auto simp: LogOut_def InvalidateToken_def RevokeSession_def Let_def)
next
  case False
  show ?thesis
  proof (cases "sha e (Credential header) = sha e tok")
    case True
    then have "Credential header = tok" using assms(3) by (simp add: inj_eq)
    then show ?thesis
      using False assms(1) True sessionExpiry_same[OF assms(2,4,5), of header]
      by (auto simp: LogOut_def InvalidateToken_def RevokeSession_def hashSessionToken_def Let_def rev_add_def revoked_def
        split: option.split)
  next
    case ne: False
    then show ?thesis
      using False assms(1)
      by (auto simp: LogOut_def InvalidateToken_def RevokeSession_def hashSessionToken_def Let_def rev_add_def revoked_def
        split: option.split)
  qed
qed

lemma revoked_weaken: "revoked False h x t0 s \<Longrightarrow> revoked b h x t0 s"
  by (auto simp: revoked_def)

lemma session_step_keeps_revoked:
  assumes "revoked b (sha e tok) x t1 s" "event_ok e b ev" "jwt_laws e" "inj (sha e)" "session_of e tok x t0" "t0 \<le> t1"
  shows "revoked b (sha e tok) x t1 (session_step e t1 ev s)"
proof (cases ev)
  case (EvRequest header listOk pruneOk)
  then show ?thesis
    using Auth_state[of True e listOk pruneOk t1 header s] revoked_contains(1)[OF assms(1)] assms(1,2) by auto
next
  case (EvLogOut header listOk pruneOk dbOk)
  obtain s1 r where A: "Auth False e listOk pruneOk t1 header s = (s1, r)" by fastforce
  have ok: "b \<longrightarrow> listOk" "Credential header \<noteq> siteToken e" "Credential header \<noteq> ''''" using assms(2) EvLogOut by auto
  have s1: "revoked b (sha e tok) x t1 s1"
    using Auth_state[of False e listOk pruneOk t1 header s] A revoked_contains(1)[OF assms(1) ok(1)] assms(1) by auto
  show ?thesis
  proof (cases "\<exists>u. r = Granted u None")
    case True
    then have "\<exists>k. s1 = fst (contains listOk pruneOk t1 k s)" using Auth_granted_loads[OF _ assms(3) ok(2,3)] A by blast
    then have "revoked False (sha e tok) x t1 s1" using contains_loads[OF assms(1) ok(1)] by auto
    then show ?thesis
      using LogOut_keeps_revoked[OF _ assms(3-6)] True A EvLogOut revoked_weaken
      by (auto simp: logout_route_def RequireSession_def)
  next
    case False
    then show ?thesis using s1 A EvLogOut by (auto simp: logout_route_def RequireSession_def split: auth_result.split option.split)
  qed
next
  case EvRestart
  then show ?thesis using assms(1,2) by (auto simp: revoked_def newRevocationStore_def)
qed

lemma session_run_keeps_revoked:
  assumes "revoked b (sha e tok) x t1 s" "jwt_laws e" "inj (sha e)" "session_of e tok x t0" "t0 \<le> t1"
    and "\<forall>(t, ev) \<in> set evs. event_ok e b ev" "sorted (t1 # map fst evs @ [t2])"
  shows "revoked b (sha e tok) x t2 (session_run e evs s)"
  using assms(1,5-)
proof (induction evs arbitrary: t1 s)
  case Nil
  then show ?case using revoked_later by simp
next
  case (Cons y evs)
  obtain t ev where y: "y = (t, ev)" by fastforce
  have t: "t1 \<le> t" "t0 \<le> t" "sorted (t # map fst evs @ [t2])" using Cons.prems y by auto
  have "revoked b (sha e tok) x t (session_step e t ev s)"
    using session_step_keeps_revoked[OF revoked_later[OF Cons.prems(1) t(1)] _ assms(2-4) t(2)] Cons.prems y by auto
  then show ?case using Cons.IH[OF _ t(2) _ t(3)] Cons.prems y by simp
qed

lemma Auth_session:
  assumes "Auth a e listOk pruneOk t0 header s = (s', Granted u None)"
    and "Credential header \<noteq> siteToken e" "Credential header \<noteq> ''''"
  shows "\<not> IsPAT (Credential header)" "snd (ParseToken e listOk pruneOk t0 (Credential header) s) \<noteq> None"
proof -
  note A = assms(1)[unfolded Auth_def auth_common_def Let_def]
  show pat: "\<not> IsPAT (Credential header)"
  proof
    assume "IsPAT (Credential header)"
    then show False using A assms(2,3) by (cases "ResolvePAT e t0 (Credential header)") (simp_all add: split_beta)
  qed
  show "snd (ParseToken e listOk pruneOk t0 (Credential header) s) \<noteq> None"
    using A assms(2,3) pat by (cases "ParseToken e listOk pruneOk t0 (Credential header) s") (auto split: option.splits)
qed

lemma Auth_no_session:
  assumes "snd (ParseToken e listOk pruneOk t0 (Credential header) s) = None" "\<not> IsPAT (Credential header)"
    and "Credential header \<noteq> siteToken e" "Credential header \<noteq> ''''"
  shows "snd (Auth a e listOk pruneOk t0 header s) = Rejected 401"
  using assms by (cases "ParseToken e listOk pruneOk t0 (Credential header) s") (simp add: Auth_def auth_common_def Let_def)

lemma contains_rows:
  "\<forall>y. rows s h = Some y \<longrightarrow> x \<le> y \<Longrightarrow> \<forall>y. rows (fst (contains listOk pruneOk t0 k s)) h = Some y \<longrightarrow> x \<le> y"
  by (simp add: contains_def reloadLocked_def unexpired_def Let_def split: option.split)

lemma LogOut_revokes:
  assumes "LogOut e True t0 header s = (s', 200)" "jwt_laws e" "session_of e tok x t0"
    and "Credential header = tok" "header \<noteq> ''''" "\<forall>y. rows s (sha e tok) = Some y \<longrightarrow> x \<le> y"
  shows "revoked False (sha e tok) x t0 s'"
proof -
  have x: "sessionExpiry e t0 header = x" if "t0 < x" using sessionExpiry_same[OF assms(2,3) order_refl that assms(4)] .
  have s': "s' = rev_add t0 (sha e tok) (sessionExpiry e t0 header) (the (RevokeSession True (sha e tok) (sessionExpiry e t0 header) s))"
    using assms(1,4,5) by (auto simp: LogOut_def InvalidateToken_def Let_def hashSessionToken_def RevokeSession_def split: option.splits)
  show ?thesis
    unfolding revoked_def s' using x assms(6) by (auto simp: rev_add_def RevokeSession_def split: option.split)
qed

lemma ParseToken_revoked:
  assumes "revoked b (sha e tok) x t0 s" "b \<longrightarrow> listOk" "jwt_laws e" "session_of e tok x t1" "Credential tok = tok"
  shows "snd (ParseToken e listOk pruneOk t0 tok s) = None"
proof (cases "verifyToken e t0 tok")
  case None
  then show ?thesis by (simp add: ParseToken_eq assms(5))
next
  case (Some cl)
  obtain c1 where c1: "verifyToken e t1 tok = Some c1" "ucExpiresAt c1 = Some x" using assms(4) by (auto simp: session_of_def)
  have "cl = c1" using jwt_same[OF assms(3) c1(1) Some] .
  then have "t0 < x" "tok \<noteq> ''''" using jwt_some[OF assms(3) Some] c1(2) by (simp_all add: alive_def)
  then show ?thesis
    using revoked_contains(2)[OF assms(1,2)] Some by (simp add: ParseToken_eq assms(5) hashSessionToken_def)
qed


definition jane :: User where
  "jane = \<lparr>ID = 2, Username = ''jane'', PwdHash = '''', PwdTS = 7, Salt = '''', Password = '''', BasePath = ''/'', Role = GENERAL,
     Disabled = False, Permission = 0, OtpSecret = '''', SsoID = '''', Authn = '''', AllowLdap = False\<rparr>"

text \<open>An environment whose only session is \<open>jwt\<close>, of that user, until 5000.\<close>

definition one_session :: "string \<Rightarrow> auth_env" where
  "one_session site = \<lparr>sha = id,
     verifyToken = (\<lambda>t0 tok. if tok = ''jwt'' \<and> t0 < 5000 then Some \<lparr>ucUsername = ''jane'', ucPwdTS = 7, ucExpiresAt = Some 5000\<rparr> else None),
     siteToken = site, adminUser = Some (jane\<lparr>Role := ADMIN\<rparr>), guestUsr = Some (jane\<lparr>Role := GUEST, Disabled := True\<rparr>),
     nameUser = (\<lambda>n. if n = ''jane'' then Some jane else None), idUser = (\<lambda>i. if i = 2 then Some jane else None),
     tokenByHash = Map.empty, tokenExpiresIn = 48\<rparr>"

definition no_sessions :: sessions where
  "no_sessions = \<lparr>rows = Map.empty, store = newRevocationStore\<rparr>"

lemma one_session_laws: "jwt_laws (one_session site)" "inj (sha (one_session site))" "session_of (one_session site) ''jwt'' 5000 10"
  by (auto simp: jwt_laws_def one_session_def alive_def session_of_def)

definition signed_out :: sessions where
  "signed_out = fst (logout_route (one_session ''site'') True True True 10 ''Bearer jwt'' no_sessions)"

lemma signed_out_ok: "logout_route (one_session ''site'') True True True 10 ''Bearer jwt'' no_sessions = (signed_out, 200)"
proof -
  have "snd (logout_route (one_session ''site'') True True True 10 ''Bearer jwt'' no_sessions) = 200" by code_simp
  then show ?thesis by (simp add: signed_out_def prod_eq_iff)
qed


theorem token_scopes_roundtrip_witness:
  "ScopeList \<lparr>atUserId = 2, atName = ''ci'', atPrefix = ''obk_abc'', TokenHash = ''obk_abc'', Scopes = ''fs:read,task:read'',
     atExpiresAt = Some (5 + 3 * hour), RevokedAt = None\<rparr> = [''fs:read'', ''task:read'']"
proof -
  have "CreateMyToken (one_session ''site'') 5 ''obk_abc'' jane
      (Some \<lparr>tcName = '' ci '', tcScopes = [''fs:read'', ''task:read''], ExpiresIn = 3\<rparr>)
    = Inr \<lparr>atUserId = 2, atName = ''ci'', atPrefix = ''obk_abc'', TokenHash = ''obk_abc'', Scopes = ''fs:read,task:read'',
        atExpiresAt = Some (5 + 3 * hour), RevokedAt = None\<rparr>"
    by code_simp
  from token_scopes_roundtrip[OF this] show ?thesis by simp
qed

section \<open>Behaviours worth knowing\<close>

text \<open>\<open>Credential\<close> is not idempotent.  A sign-out whose header repeats the scheme is answered 200, and the
  revocation is stored under the hash of \<open>Bearer jwt\<close>: the session goes on.\<close>

lemma double_bearer_logout_leaves_the_session:
  "case logout_route (one_session ''site'') True True True 10 ''Bearer Bearer jwt'' no_sessions of
     (s, code) \<Rightarrow> code = 200 \<and> snd (Auth False (one_session ''site'') True True 20 ''jwt'' s) = Granted jane None"
  by code_simp

text \<open>With an empty site token an anonymous request is the administrator.\<close>

lemma empty_site_token_makes_everyone_admin:
  "snd (Auth False (one_session '''') True True 10 '''' no_sessions) = Granted (jane\<lparr>Role := ADMIN\<rparr>) None"
  by code_simp

text \<open>A lifetime in hours beyond the range of \<open>time.Duration\<close> wraps: 5124096 hours are under 26 minutes, and
  2562048 hours are over before they start.\<close>

lemma token_lifetime_wraps:
  "case CreateMyToken (one_session ''site'') 0 ''obk_abc'' jane (Some \<lparr>tcName = ''ci'', tcScopes = [], ExpiresIn = 5124096\<rparr>) of
     Inr t \<Rightarrow> (case atExpiresAt t of Some x \<Rightarrow> 0 < x \<and> x < 26 * 60 * 10 ^ 9 | None \<Rightarrow> False) | Inl c \<Rightarrow> False"
  "case CreateMyToken (one_session ''site'') 0 ''obk_abc'' jane (Some \<lparr>tcName = ''ci'', tcScopes = [], ExpiresIn = 2562048\<rparr>) of
     Inr t \<Rightarrow> \<not> IsActive 1 t | Inl c \<Rightarrow> False"
  by code_simp+

text \<open>A sign-out of this process postpones the load of the table, however old the last one is: until ten
  seconds after it, the sign-outs of other instances are not seen.\<close>

lemma local_logout_postpones_the_reload:
  assumes "t1 \<le> t0" "t0 - t1 < sessionRevocationReload" "rows s h = Some y" "hashes (store s) h = None" "h \<noteq> h1"
  shows "\<not> snd (contains True pruneOk t0 h (rev_add t1 h1 x s))"
  using assms by (simp add: contains_def rev_add_def due_def)

end
