(* ===== verification/Objects.thy ===== *)
theory Objects imports Access "HOL-Library.Multiset" begin

text \<open>
  Objects of a listing: \<open>internal/model/obj.go\<close> and \<open>object.go\<close>, their wrappers and masks, the order
  of a listing, and the merge that hides and removes duplicates.
\<close>

section \<open>Objects and wrappers\<close>

type_synonym ObjMask = "8 word"

definition Virtual :: ObjMask where "Virtual = 1"
definition NoRename :: ObjMask where "NoRename = 2"
definition NoRemove :: ObjMask where "NoRemove = 4"
definition NoMove :: ObjMask where "NoMove = 8"
definition NoCopy :: ObjMask where "NoCopy = 16"
definition NoWrite :: ObjMask where "NoWrite = 32"
definition Temp :: ObjMask where "Temp = 64"
definition Locked :: ObjMask where "Locked = NoRename OR NoRemove OR NoMove"
definition ReadOnly :: ObjMask where "ReadOnly = Locked OR NoWrite"

lemmas mask_defs = Virtual_def NoRename_def NoRemove_def NoMove_def NoCopy_def NoWrite_def Temp_def Locked_def ReadOnly_def

record Object =
  obID :: string
  obPath :: string
  obName :: string
  obSize :: int
  obModified :: int
  IsFolder :: bool
  Mask :: ObjMask

record StorageDetails =
  TotalSpace :: int
  UsedSpace :: int

text \<open>An object of a driver is a plain one (one without a mask has mask 0); the wrappers refer to another.\<close>

datatype Obj =
    Plain Object
  | ObjWrapName string Obj
  | ObjWrapMask Obj ObjMask
  | ObjStorageDetails Obj "StorageDetails option"

fun GetName :: "Obj \<Rightarrow> string" where
  "GetName (Plain o1) = obName o1"
| "GetName (ObjWrapName n o1) = n"
| "GetName (ObjWrapMask o1 m) = GetName o1"
| "GetName (ObjStorageDetails o1 d) = GetName o1"

fun plain_of :: "Obj \<Rightarrow> Object" where
  "plain_of (Plain o1) = o1"
| "plain_of (ObjWrapName n o1) = plain_of o1"
| "plain_of (ObjWrapMask o1 m) = plain_of o1"
| "plain_of (ObjStorageDetails o1 d) = plain_of o1"

definition IsDir :: "Obj \<Rightarrow> bool" where "IsDir o1 = IsFolder (plain_of o1)"
definition GetSize :: "Obj \<Rightarrow> int" where "GetSize o1 = obSize (plain_of o1)"
definition ModTime :: "Obj \<Rightarrow> int" where "ModTime o1 = obModified (plain_of o1)"

fun GetObjMask :: "Obj \<Rightarrow> ObjMask" where
  "GetObjMask (Plain o1) = Mask o1"
| "GetObjMask (ObjWrapMask o1 m) = m"
| "GetObjMask (ObjWrapName n o1) = GetObjMask o1"
| "GetObjMask (ObjStorageDetails o1 d) = GetObjMask o1"

definition ObjHasMask :: "Obj \<Rightarrow> ObjMask \<Rightarrow> bool" where
  "ObjHasMask o1 m \<longleftrightarrow> GetObjMask o1 AND m \<noteq> 0"

fun UnwrapObjName :: "Obj \<Rightarrow> Obj" where
  "UnwrapObjName (ObjWrapName n o1) = o1"
| "UnwrapObjName o1 = o1"

fun GetStorageDetailsOf :: "Obj \<Rightarrow> StorageDetails option option" where
  "GetStorageDetailsOf (ObjStorageDetails o1 d) = Some d"
| "GetStorageDetailsOf (ObjWrapName n o1) = GetStorageDetailsOf o1"
| "GetStorageDetailsOf (ObjWrapMask o1 m) = GetStorageDetailsOf o1"
| "GetStorageDetailsOf (Plain o1) = None"

text \<open>\<open>mapping\<close> is \<open>utils.MappingName\<close> with the configured character map.\<close>

definition WrapObjName :: "(string \<Rightarrow> string) \<Rightarrow> Obj \<Rightarrow> Obj" where
  "WrapObjName mapping o1 = ObjWrapName (mapping (GetName o1)) o1"

definition WrapObjsName :: "(string \<Rightarrow> string) \<Rightarrow> Obj list \<Rightarrow> Obj list" where
  "WrapObjsName mapping objs = map (WrapObjName mapping) objs"

lemma GetName_Wrap [simp]: "GetName (WrapObjName f o1) = f (GetName o1)"
  by (simp add: WrapObjName_def)

lemma IsDir_simps [simp]:
  "IsDir (Plain p) = IsFolder p" "IsDir (ObjWrapName n o1) = IsDir o1" "IsDir (ObjWrapMask o1 m) = IsDir o1"
  "IsDir (ObjStorageDetails o1 d) = IsDir o1" "IsDir (WrapObjName f o1) = IsDir o1" "IsDir (UnwrapObjName o1) = IsDir o1"
  by (simp_all add: IsDir_def WrapObjName_def) (cases o1, simp_all)

lemma Unwrap_Wrap [simp]: "UnwrapObjName (WrapObjName f o1) = o1" "GetObjMask (WrapObjName f o1) = GetObjMask o1"
  by (simp_all add: WrapObjName_def)

section \<open>The order of a listing\<close>

text \<open>A stable sort by a comparison, as \<open>sort.SliceStable\<close>.  \<open>sort.Slice\<close> is not stable, and promises an
  ordered slice only for a consistent comparison: it is a parameter.\<close>

fun insert_stable :: "('a \<Rightarrow> 'a \<Rightarrow> bool) \<Rightarrow> 'a \<Rightarrow> 'a list \<Rightarrow> 'a list" where
  "insert_stable lt x [] = [x]"
| "insert_stable lt x (y # ys) = (if lt y x then y # insert_stable lt x ys else x # y # ys)"

definition slice_stable :: "('a \<Rightarrow> 'a \<Rightarrow> bool) \<Rightarrow> 'a list \<Rightarrow> 'a list" where
  "slice_stable lt xs = foldr (insert_stable lt) xs []"

definition SortFiles_less :: "(string \<Rightarrow> string \<Rightarrow> bool) \<Rightarrow> string \<Rightarrow> string \<Rightarrow> Obj \<Rightarrow> Obj \<Rightarrow> bool" where
  "SortFiles_less natural_Less orderBy orderDirection a b =
     (if orderBy = ''name'' then
        (let c = natural_Less (GetName a) (GetName b) in if orderDirection = ''desc'' then \<not> c else c)
      else if orderBy = ''size'' then
        (if orderDirection = ''desc'' then GetSize a \<ge> GetSize b else GetSize a \<le> GetSize b)
      else if orderBy = ''modified'' then
        (if orderDirection = ''desc'' then ModTime a > ModTime b else ModTime a < ModTime b)
      else False)"

record sorter =
  sort_Slice :: "(Obj \<Rightarrow> Obj \<Rightarrow> bool) \<Rightarrow> Obj list \<Rightarrow> Obj list"
  natural_less :: "string \<Rightarrow> string \<Rightarrow> bool"

definition SortFiles :: "sorter \<Rightarrow> Obj list \<Rightarrow> string \<Rightarrow> string \<Rightarrow> Obj list" where
  "SortFiles srt objs orderBy orderDirection =
     (if orderBy = '''' then objs else sort_Slice srt (SortFiles_less (natural_less srt) orderBy orderDirection) objs)"

definition ExtractFolder_less :: "bool \<Rightarrow> Obj \<Rightarrow> Obj \<Rightarrow> bool" where
  "ExtractFolder_less front a b =
     (if IsDir a \<or> IsDir b then
        (if \<not> IsDir a then \<not> front else if \<not> IsDir b then front else False)
      else False)"

definition ExtractFolder :: "Obj list \<Rightarrow> string \<Rightarrow> Obj list" where
  "ExtractFolder objs extractFolder =
     (if extractFolder = '''' then objs else slice_stable (ExtractFolder_less (extractFolder = ''front'')) objs)"

text \<open>\<open>sort.Slice\<close> rearranges.\<close>

definition sorter_law :: "sorter \<Rightarrow> bool" where
  "sorter_law srt \<longleftrightarrow> (\<forall>lt xs. mset (sort_Slice srt lt xs) = mset xs)"

lemma mset_insert_stable [simp]: "mset (insert_stable lt x ys) = add_mset x (mset ys)"
  by (induction ys) auto

lemma mset_slice_stable [simp]: "mset (slice_stable lt xs) = mset xs"
  by (induction xs) (simp_all add: slice_stable_def)

lemma mset_SortFiles: "sorter_law srt \<Longrightarrow> mset (SortFiles srt objs b d) = mset objs"
  by (simp add: SortFiles_def sorter_law_def)

lemma mset_ExtractFolder [simp]: "mset (ExtractFolder objs e) = mset objs"
  by (simp add: ExtractFolder_def)

lemma insert_extract:
  "insert_stable (ExtractFolder_less front) x (filter (\<lambda>y. IsDir y = front) ys @ filter (\<lambda>y. IsDir y \<noteq> front) ys) =
     filter (\<lambda>y. IsDir y = front) (x # ys) @ filter (\<lambda>y. IsDir y \<noteq> front) (x # ys)"
proof (cases "IsDir x = front")
  case True
  then have "insert_stable (ExtractFolder_less front) x zs = x # zs" for zs
    by (cases zs) (auto simp: ExtractFolder_less_def)
  then show ?thesis using True by simp
next
  case False
  have skip: "insert_stable (ExtractFolder_less front) x (as @ bs) = as @ insert_stable (ExtractFolder_less front) x bs"
    if "\<forall>a \<in> set as. IsDir a = front" for as bs
    using that False by (induction as) (auto simp: ExtractFolder_less_def)
  have "insert_stable (ExtractFolder_less front) x bs = x # bs" if "\<forall>b \<in> set bs. IsDir b \<noteq> front" for bs
    using that False by (cases bs) (auto simp: ExtractFolder_less_def)
  then show ?thesis using False skip by simp
qed

lemma ExtractFolder_partition:
  "ExtractFolder objs e = (if e = '''' then objs
     else filter (\<lambda>y. IsDir y = (e = ''front'')) objs @ filter (\<lambda>y. IsDir y \<noteq> (e = ''front'')) objs)"
proof -
  have "slice_stable (ExtractFolder_less f) objs = filter (\<lambda>y. IsDir y = f) objs @ filter (\<lambda>y. IsDir y \<noteq> f) objs" for f
  proof (induction objs)
    case (Cons x xs)
    then show ?case using insert_extract[of f x xs] by (simp add: slice_stable_def)
  qed (simp add: slice_stable_def)
  then show ?thesis by (simp add: ExtractFolder_def)
qed

section \<open>Merging\<close>

text \<open>The names seen so far and the patterns that hide; \<open>re_match r n = None\<close> is a pattern that does not
  compile (\<open>MustCompile\<close> panics).\<close>

definition clickObj :: "(string \<Rightarrow> string \<Rightarrow> bool) \<Rightarrow> string list \<Rightarrow> string list \<Rightarrow> Obj \<Rightarrow> string list \<times> bool" where
  "clickObj re_match regs set1 o1 =
     (if list_ex (\<lambda>r. re_match r (GetName o1)) regs then (set1, False)
      else if List.member set1 (GetName o1) then (set1, False)
      else (GetName o1 # set1, True))"

fun insertObjs :: "(string \<Rightarrow> string \<Rightarrow> bool) \<Rightarrow> string list \<Rightarrow> string list \<Rightarrow> Obj list \<Rightarrow> Obj list \<Rightarrow> string list \<times> Obj list" where
  "insertObjs re_match regs set1 objs [] = (set1, objs)"
| "insertObjs re_match regs set1 objs (o1 # os) =
     (case clickObj re_match regs set1 o1 of
        (set2, True) \<Rightarrow> insertObjs re_match regs set2 (objs @ [o1]) os
      | (set2, False) \<Rightarrow> insertObjs re_match regs set2 objs os)"

definition Merge :: "(string \<Rightarrow> string \<Rightarrow> bool) \<Rightarrow> string list \<Rightarrow> Obj list \<Rightarrow> Obj list \<Rightarrow> Obj list" where
  "Merge re_match regs objs objs2 =
     (case insertObjs re_match regs [] [] objs of (set1, newObjs) \<Rightarrow> snd (insertObjs re_match regs set1 newObjs objs2))"

text \<open>The first object of every name that no pattern hides.\<close>

fun firsts :: "string set \<Rightarrow> Obj list \<Rightarrow> Obj list" where
  "firsts seen [] = []"
| "firsts seen (o1 # os) =
     (if GetName o1 \<in> seen then firsts seen os else o1 # firsts (insert (GetName o1) seen) os)"

abbreviation shown :: "(string \<Rightarrow> string \<Rightarrow> bool) \<Rightarrow> string list \<Rightarrow> Obj list \<Rightarrow> Obj list" where
  "shown re_match regs \<equiv> filter (\<lambda>o1. \<not> list_ex (\<lambda>r. re_match r (GetName o1)) regs)"

lemma insertObjs_firsts:
  "insertObjs re_match regs set1 objs os = (set2, res) \<Longrightarrow>
     res = objs @ firsts (set set1) (shown re_match regs os) \<and> set set2 = set set1 \<union> GetName ` set (shown re_match regs os)"
proof (induction os arbitrary: set1 objs)
  case (Cons o1 os)
  consider (hidden) "list_ex (\<lambda>r. re_match r (GetName o1)) regs"
    | (old) "\<not> list_ex (\<lambda>r. re_match r (GetName o1)) regs" "GetName o1 \<in> set set1"
    | (new) "\<not> list_ex (\<lambda>r. re_match r (GetName o1)) regs" "GetName o1 \<notin> set set1" by blast
  then show ?case
  proof cases
    case new
    then have "insertObjs re_match regs (GetName o1 # set1) (objs @ [o1]) os = (set2, res)"
      using Cons.prems by (simp add: clickObj_def List.member_iff)
    from Cons.IH[OF this] new show ?thesis by simp
  qed (use Cons in \<open>auto simp: clickObj_def List.member_iff\<close>)
qed simp

lemma firsts_append: "firsts seen (as @ bs) = firsts seen as @ firsts (seen \<union> GetName ` set as) bs"
  by (induction as arbitrary: seen) (auto simp: insert_absorb)

lemma firsts_names: "GetName ` set (firsts seen os) = GetName ` set os - seen"
proof (induction os arbitrary: seen)
  case (Cons o1 os)
  then show ?case by (cases "GetName o1 \<in> seen") auto
qed simp

lemma firsts_props: "distinct (map GetName (firsts seen os))" "set (firsts seen os) \<subseteq> set os"
proof (induction os arbitrary: seen)
  case (Cons o1 os)
  { case 1 then show ?case using Cons firsts_names[of "insert (GetName o1) seen" os] by auto }
  { case 2 then show ?case using Cons(2) by (simp, blast) }
qed simp_all

lemma Merge_firsts: "Merge re_match regs objs objs2 = firsts {} (shown re_match regs (objs @ objs2))"
proof -
  obtain s1 n1 where a: "insertObjs re_match regs [] [] objs = (s1, n1)" by fastforce
  obtain s2 n2 where b: "insertObjs re_match regs s1 n1 objs2 = (s2, n2)" by fastforce
  have s1: "set s1 = GetName ` set (shown re_match regs objs)" "n1 = firsts {} (shown re_match regs objs)"
    using insertObjs_firsts[OF a] by simp_all
  have "n2 = n1 @ firsts (set s1) (shown re_match regs objs2)" using insertObjs_firsts[OF b] by simp
  then show ?thesis unfolding Merge_def a using b by (simp only: s1 firsts_append filter_append case_prod_conv snd_conv Un_empty_left)
qed

end
