(* ===== verification/Mounts.thy ===== *)
theory Mounts imports Objects "HOL-Library.AList" "HOL-Library.List_Lexorder" "HOL-Library.Char_ord"
  "HOL-Library.Product_Lexorder" begin

text \<open>
  Mounted storages: \<open>internal/op/storage.go\<close>, \<open>internal/op/path.go\<close>, the rows of
  \<open>internal/db/storage.go\<close>.  A driver is a value of an unknown type \<open>'v\<close> with its storage; what it
  does (\<open>Init\<close>, \<open>Drop\<close>, its configuration and its JSON addition) is an environment.
\<close>

section \<open>Storages and drivers\<close>

record Storage =
  sID :: nat
  MountPath :: string
  sOrder :: int
  DriverName :: string
  CacheExpiration :: int
  CustomCachePolicies :: string
  Status :: string
  Addition :: string
  Remark :: string
  sModified :: int
  sDisabled :: bool
  DisableIndex :: bool
  EnableSign :: bool
  OrderBy :: string
  OrderDirection :: string
  sExtractFolder :: string
  WebProxy :: bool
  WebdavPolicy :: string
  ProxyRange :: bool
  DownProxyURL :: string
  DisableProxySign :: bool

record 'v Driver =
  dStorage :: Storage
  dImpl :: 'v

abbreviation mount :: "'v Driver \<Rightarrow> string" where
  "mount d \<equiv> MountPath (dStorage d)"

abbreviation actual_mount :: "'v Driver \<Rightarrow> string" where
  "actual_mount d \<equiv> GetActualMountPath (mount d)"

section \<open>Which storage serves a path\<close>

text \<open>\<open>storagesMap\<close> is an association list in the order in which \<open>Range\<close> visits it.\<close>

type_synonym 'v storagesMap = "(string \<times> 'v Driver) list"

definition slash_count :: "string \<Rightarrow> nat" where
  "slash_count s = length (filter (\<lambda>c. c = slash) s)"

fun storages_loop :: "string \<Rightarrow> 'v storagesMap \<Rightarrow> 'v Driver list \<Rightarrow> nat \<Rightarrow> 'v Driver list" where
  "storages_loop path [] storages cur = storages"
| "storages_loop path ((mountPath, v) # ms) storages cur =
     (let mountPath = GetActualMountPath mountPath in
      if IsSubPath mountPath path then
        (let slashCount = slash_count (PathAddSeparatorSuffix mountPath);
             storages1 = (if slashCount > cur then [] else storages);
             cur1 = (if slashCount > cur then slashCount else cur)
         in storages_loop path ms (if slashCount = cur1 then storages1 @ [v] else storages1) cur1)
      else storages_loop path ms storages cur)"

definition getStoragesByPath :: "'v storagesMap \<Rightarrow> string \<Rightarrow> 'v Driver list" where
  "getStoragesByPath m path = sort_key mount (storages_loop path m [] 0)"

text \<open>\<open>balanceMap\<close> remembers the last index of each group of balanced storages.\<close>

definition GetBalancedStorage :: "'v storagesMap \<Rightarrow> string \<Rightarrow> (string \<Rightarrow> nat option) \<Rightarrow> (string \<Rightarrow> nat option) \<times> 'v Driver option" where
  "GetBalancedStorage m path bal =
     (let storages = getStoragesByPath m (FixAndCleanPath path); storageNum = length storages in
      case storages of
        [] \<Rightarrow> (bal, None)
      | [d] \<Rightarrow> (bal, Some d)
      | d # _ \<Rightarrow>
          let virtualPath = actual_mount d;
              i = (case bal virtualPath of None \<Rightarrow> 0 | Some i \<Rightarrow> i);
              i = (i + 1) mod storageNum
          in (bal(virtualPath \<mapsto> i), Some (storages ! i)))"

definition GetStorageAndActualPath ::
  "'v storagesMap \<Rightarrow> string \<Rightarrow> (string \<Rightarrow> nat option) \<Rightarrow> (string \<Rightarrow> nat option) \<times> ('v Driver \<times> string) option" where
  "GetStorageAndActualPath m rawPath bal =
     (let rawPath = FixAndCleanPath rawPath in
      case GetBalancedStorage m rawPath bal of
        (bal, None) \<Rightarrow> (bal, None)
      | (bal, Some d) \<Rightarrow> (bal, Some (d, FixAndCleanPath (trim_prefix rawPath (actual_mount d)))))"

section \<open>Virtual files\<close>

text \<open>The callback that attaches usage details runs concurrently: \<open>early v\<close> says that it ends before the
  loop goes on, otherwise at the end.  \<open>None\<close> is a panic (\<open>files[idx].(*model.Object)\<close>).\<close>

record 'v vf_state =
  vfFiles :: "Obj list"
  vfSet :: "(string \<times> nat) list"
  vfPending :: "(nat \<times> 'v Driver) list"

definition vf_callback :: "('v Driver \<Rightarrow> Obj \<Rightarrow> Obj) option \<Rightarrow> ('v Driver \<Rightarrow> bool) \<Rightarrow> nat \<Rightarrow> 'v Driver \<Rightarrow> 'v vf_state \<Rightarrow> 'v vf_state" where
  "vf_callback rootCallback early idx v st =
     (case rootCallback of
        None \<Rightarrow> st
      | Some cb \<Rightarrow>
          if early v then st\<lparr>vfFiles := (vfFiles st)[idx := cb v (vfFiles st ! idx)]\<rparr>
          else st\<lparr>vfPending := vfPending st @ [(idx, v)]\<rparr>)"

definition cut_prefix :: "string \<Rightarrow> string \<Rightarrow> string option" where
  "cut_prefix s p = (if has_prefix s p then Some (drop (length p) s) else None)"

definition vf_step ::
  "string \<Rightarrow> ('v Driver \<Rightarrow> Obj \<Rightarrow> Obj) option \<Rightarrow> ('v Driver \<Rightarrow> bool) \<Rightarrow> string \<Rightarrow> 'v Driver \<Rightarrow> 'v vf_state \<Rightarrow> 'v vf_state option" where
  "vf_step prefx rootCallback early filterByName v st =
     (case cut_prefix (actual_mount v) prefx of
        None \<Rightarrow> Some st
      | Some p \<Rightarrow>
          if p = '''' then Some st
          else
            let (name, found) = (case cut_char slash p of None \<Rightarrow> (p, False) | Some (a, b) \<Rightarrow> (a, True))
            in if filterByName \<noteq> '''' \<and> name \<noteq> filterByName then Some st
               else case map_of (vfSet st) name of
                 Some idx \<Rightarrow>
                   if found then Some st
                   else (case vfFiles st ! idx of
                           Plain ob \<Rightarrow> Some (vf_callback rootCallback early idx v
                             (st\<lparr>vfFiles := (vfFiles st)[idx := Plain (ob\<lparr>Mask := Locked OR Virtual\<rparr>)]\<rparr>))
                         | _ \<Rightarrow> None)
               | None \<Rightarrow>
                   let idx = length (vfFiles st);
                       ob = \<lparr>obID = '''', obPath = '''', obName = name, obSize = 0, obModified = sModified (dStorage v),
                         IsFolder = True, Mask = (if found then ReadOnly OR Virtual else Locked OR Virtual)\<rparr>;
                       st1 = st\<lparr>vfSet := (name, idx) # vfSet st, vfFiles := vfFiles st @ [Plain ob]\<rparr>
                   in Some (if found then st1 else vf_callback rootCallback early idx v st1))"

fun vf_loop ::
  "string \<Rightarrow> ('v Driver \<Rightarrow> Obj \<Rightarrow> Obj) option \<Rightarrow> ('v Driver \<Rightarrow> bool) \<Rightarrow> string \<Rightarrow> 'v Driver list \<Rightarrow> 'v vf_state \<Rightarrow> 'v vf_state option" where
  "vf_loop prefx rootCallback early filterByName [] st = Some st"
| "vf_loop prefx rootCallback early filterByName (v # vs) st =
     (case vf_step prefx rootCallback early filterByName v st of
        None \<Rightarrow> None
      | Some st \<Rightarrow> vf_loop prefx rootCallback early filterByName vs st)"

definition by_order :: "'v Driver \<Rightarrow> int \<times> string" where
  "by_order d = (sOrder (dStorage d), mount d)"

definition getStorageVirtualFilesByPath ::
  "'v storagesMap \<Rightarrow> string \<Rightarrow> ('v Driver \<Rightarrow> Obj \<Rightarrow> Obj) option \<Rightarrow> ('v Driver \<Rightarrow> bool) \<Rightarrow> string \<Rightarrow> Obj list option" where
  "getStorageVirtualFilesByPath m prefx rootCallback early filterByName =
     (let storages = sort_key by_order (map snd m);
          prefx = (if \<not> has_suffix prefx ''/'' then prefx @ ''/'' else prefx)
      in case vf_loop prefx rootCallback early filterByName storages \<lparr>vfFiles = [], vfSet = [], vfPending = []\<rparr> of
           None \<Rightarrow> None
         | Some st \<Rightarrow> Some (case rootCallback of
               None \<Rightarrow> vfFiles st
             | Some cb \<Rightarrow> fold (\<lambda>(idx, v) files. files[idx := cb v (files ! idx)]) (vfPending st) (vfFiles st)))"

text \<open>The callback of \<open>GetStorageVirtualFilesWithDetailsByPath\<close>; \<open>details d = None\<close> when they do not come
  within a second.\<close>

definition details_callback :: "('v Driver \<Rightarrow> StorageDetails option) \<Rightarrow> 'v Driver \<Rightarrow> Obj \<Rightarrow> Obj" where
  "details_callback details d o1 = (case o1 of ObjStorageDetails _ _ \<Rightarrow> o1 | _ \<Rightarrow> ObjStorageDetails o1 (details d))"

definition GetStorageVirtualFilesWithDetailsByPath ::
  "'v storagesMap \<Rightarrow> ('v Driver \<Rightarrow> StorageDetails option) \<Rightarrow> ('v Driver \<Rightarrow> bool) \<Rightarrow> string \<Rightarrow> bool \<Rightarrow> string \<Rightarrow> Obj list option" where
  "GetStorageVirtualFilesWithDetailsByPath m details early prefx hideDetails filterByName =
     (if hideDetails then getStorageVirtualFilesByPath m prefx None early filterByName
      else getStorageVirtualFilesByPath m prefx (Some (details_callback details)) early filterByName)"

section \<open>The storage that serves a path\<close>

text \<open>Storages are mounted under their own path, and the path without the balance suffix is clean.\<close>

definition mount_comps :: "'v Driver \<Rightarrow> string list" where
  "mount_comps d = fix_comps (actual_mount d)"

definition mounts_ok :: "'v storagesMap \<Rightarrow> bool" where
  "mounts_ok m \<longleftrightarrow> distinct (map fst m) \<and>
     (\<forall>(k, d) \<in> set m. mount d = k \<and> FixAndCleanPath (actual_mount d) = actual_mount d)"

lemma mounts_okD:
  assumes "mounts_ok m" "(k, d) \<in> set m"
  shows "k = mount d" "actual_mount d = mk_abs (mount_comps d)" "normal_comps (mount_comps d)"
  using assms fix_comps[of "actual_mount d"] by (auto simp: mounts_ok_def mount_comps_def)

lemma mounts_ok_drivers: "mounts_ok m \<Longrightarrow> d \<in> snd ` set m \<Longrightarrow> (mount d, d) \<in> set m"
  using mounts_okD(1) by fastforce

lemma mounts_ok_mono: "mounts_ok (x # m) \<Longrightarrow> mounts_ok m"
  by (auto simp: mounts_ok_def)

lemma slash_count_mk_abs: "normal_comps cs \<Longrightarrow> slash_count (PathAddSeparatorSuffix (mk_abs cs)) = Suc (length cs)"
proof -
  have c: "normal_comps cs \<Longrightarrow> slash_count (concat (map (Cons slash) cs)) = length cs" for cs
  proof (induction cs)
    case (Cons c cs)
    then have "filter (\<lambda>x. x = slash) c = []" by (auto simp: filter_empty_conv name_ok_def)
    then show ?case using Cons by (simp add: slash_count_def)
  qed (simp add: slash_count_def)
  assume "normal_comps cs"
  then show ?thesis
    using c[of cs] mk_abs_suffix_slash[of cs] mk_abs_concat[of cs]
    by (cases "cs = []") (auto simp: PathAddSeparatorSuffix_def slash_count_def mk_abs_def)
qed

definition covers :: "'v Driver \<Rightarrow> string \<Rightarrow> bool" where
  "covers d path \<longleftrightarrow> prefix (mount_comps d) (fix_comps path)"

text \<open>The greatest depth among \<open>cur\<close> and the storages of \<open>m\<close> that cover the path.\<close>

fun best :: "string \<Rightarrow> 'v storagesMap \<Rightarrow> nat \<Rightarrow> nat" where
  "best path [] cur = cur"
| "best path ((k, d) # m) cur = best path m (if covers d path then max cur (Suc (length (mount_comps d))) else cur)"

lemma best_ge: "cur \<le> best path m cur"
  by (induction path m cur rule: best.induct) (auto split: if_splits)

lemma best_cases: "best path m cur = cur \<or> (\<exists>(k, d) \<in> set m. covers d path \<and> best path m cur = Suc (length (mount_comps d)))"
  by (induction path m cur rule: best.induct) (auto simp: max_def split: if_splits)

lemma best_upper: "(k, d) \<in> set m \<Longrightarrow> covers d path \<Longrightarrow> Suc (length (mount_comps d)) \<le> best path m cur"
proof (induction path m cur rule: best.induct)
  case (2 path k' d' m cur)
  then show ?case using best_ge[of "max cur (Suc (length (mount_comps d)))" path m] by auto
qed simp

lemma storages_loop_best:
  assumes "mounts_ok m"
  shows "storages_loop path m sts cur = (if best path m cur = cur then sts else [])
     @ filter (\<lambda>d. covers d path \<and> Suc (length (mount_comps d)) = best path m cur) (map snd m)"
  using assms
proof (induction m arbitrary: sts cur)
  case (Cons x ms)
  obtain k v where x: "x = (k, v)" by fastforce
  have v: "k = mount v" "actual_mount v = mk_abs (mount_comps v)" "normal_comps (mount_comps v)"
    using mounts_okD[OF Cons.prems, of k v] x by simp_all
  have ms: "mounts_ok ms" using mounts_ok_mono Cons.prems by blast
  have sub: "IsSubPath (GetActualMountPath k) path \<longleftrightarrow> covers v path"
    by (simp add: IsSubPath_comps covers_def mount_comps_def v(1))
  have cnt: "slash_count (PathAddSeparatorSuffix (GetActualMountPath k)) = Suc (length (mount_comps v))"
    using v slash_count_mk_abs by metis
  show ?case
  proof (cases "covers v path")
    case False
    then show ?thesis using Cons.IH[OF ms] sub x by simp
  next
    case True
    let ?n = "Suc (length (mount_comps v))"
    have "best path ms (max cur ?n) \<ge> max cur ?n" by (rule best_ge)
    then show ?thesis
      using True by (auto simp: x sub cnt Let_def max_def Cons.IH[OF ms] split: if_splits)
  qed
qed simp

lemma set_getStoragesByPath:
  assumes "mounts_ok m"
  shows "d \<in> set (getStoragesByPath m path) \<longleftrightarrow> d \<in> snd ` set m \<and> covers d path
     \<and> (\<forall>e \<in> snd ` set m. covers e path \<longrightarrow> length (mount_comps e) \<le> length (mount_comps d))" (is "?L \<longleftrightarrow> ?R")
proof
  assume ?L
  then have d: "d \<in> snd ` set m" "covers d path" "Suc (length (mount_comps d)) = best path m 0"
    by (auto simp: getStoragesByPath_def storages_loop_best[OF assms] split: if_splits)
  then show ?R using best_upper[of _ _ m path 0] by fastforce
next
  assume R: ?R
  then obtain k where k: "(k, d) \<in> set m" by auto
  have "best path m 0 = Suc (length (mount_comps d))"
    using best_cases[of path m 0] best_upper[OF k, of path 0] R by fastforce
  then show ?L using R by (auto simp: getStoragesByPath_def storages_loop_best[OF assms])
qed

lemma same_group:
  assumes "mounts_ok m" "d \<in> set (getStoragesByPath m path)" "e \<in> set (getStoragesByPath m path)"
  shows "mount_comps d = mount_comps e" "actual_mount d = actual_mount e"
proof -
  note S = set_getStoragesByPath[OF assms(1)]
  have "prefix (mount_comps d) (fix_comps path)" "prefix (mount_comps e) (fix_comps path)"
    "length (mount_comps d) = length (mount_comps e)"
    using assms(2,3) S by (auto simp: covers_def intro: le_antisym)
  then show c: "mount_comps d = mount_comps e" by (metis prefix_length_prefix prefix_order.antisym le_refl)
  show "actual_mount d = actual_mount e"
    using c mounts_okD(2)[OF assms(1) mounts_ok_drivers[OF assms(1)]] assms(2,3) S by metis
qed

lemma mk_abs_joined: "as \<noteq> [] \<Longrightarrow> mk_abs (as @ bs) = mk_abs as @ (if bs = [] then [] else mk_abs bs)"
  using mk_abs_concat[of as] mk_abs_concat[of bs] mk_abs_concat[of "as @ bs"] by auto

lemma FixAndCleanPath_slash: "FixAndCleanPath (slash # s) = FixAndCleanPath s"
proof -
  obtain q where q: "(if \<not> has_prefix (replace_char (CHR 0x5C) ''/'' s) ''/'' then ''/'' @ replace_char (CHR 0x5C) ''/'' s
      else replace_char (CHR 0x5C) ''/'' s) = slash # q"
    using rooted_form[of "replace_char (CHR 0x5C) ''/'' s"] by blast
  have "replace_char (CHR 0x5C) ''/'' (slash # s) = slash # replace_char (CHR 0x5C) ''/'' s" by (simp add: replace_char_def)
  then have "FixAndCleanPath (slash # s) = path_clean (slash # replace_char (CHR 0x5C) ''/'' s)"
    by (simp add: FixAndCleanPath_def)
  moreover have "path_clean (slash # replace_char (CHR 0x5C) ''/'' s) = path_clean (slash # q)"
    using q by (cases "has_prefix (replace_char (CHR 0x5C) ''/'' s) ''/''") (auto simp: path_clean_rooted)
  moreover have "FixAndCleanPath s = path_clean (slash # q)" using q by (simp add: FixAndCleanPath_def Let_def)
  ultimately show ?thesis by simp
qed

lemma trim_mount:
  assumes "normal_comps (as @ bs)" "CHR 0x5C \<notin> set (mk_abs (as @ bs))"
  shows "FixAndCleanPath (trim_prefix (mk_abs (as @ bs)) (mk_abs as)) = mk_abs bs"
proof -
  have nb: "CHR 0x5C \<notin> set (mk_abs bs)" "normal_comps bs"
    using assms by (auto simp: mk_abs_def) (cases "as = [] \<or> bs = []", auto simp: join_char_append)
  show ?thesis
  proof (cases "as = []")
    case True
    have "FixAndCleanPath (join_char slash bs) = FixAndCleanPath (mk_abs bs)"
      unfolding mk_abs_def by (rule FixAndCleanPath_slash[symmetric])
    then show ?thesis using True FixAndCleanPath_mk_abs[OF nb(2,1)] by (simp add: mk_abs_def trim_prefix_def)
  next
    case False
    then have "trim_prefix (mk_abs (as @ bs)) (mk_abs as) = (if bs = [] then [] else mk_abs bs)"
      by (simp add: mk_abs_joined)
    moreover have "FixAndCleanPath [] = mk_abs []" by code_simp
    ultimately show ?thesis using FixAndCleanPath_mk_abs[OF nb(2,1)] by simp
  qed
qed

lemma GetBalancedStorage_member:
  assumes "snd (GetBalancedStorage m path bal) = Some d"
  shows "d \<in> set (getStoragesByPath m (FixAndCleanPath path))"
proof (cases "getStoragesByPath m (FixAndCleanPath path)" rule: remdups_adj.cases)
  case (3 x y zs)
  then show ?thesis using assms
    by (simp add: GetBalancedStorage_def Let_def split: option.splits) (metis length_Cons list.set_intros mod_less_divisor nth_mem zero_less_Suc list.simps(15) set_ConsD insert_iff)
qed (use assms in \<open>simp_all add: GetBalancedStorage_def\<close>)

lemma GetBalancedStorage_None:
  "snd (GetBalancedStorage m path bal) = None \<longleftrightarrow> getStoragesByPath m (FixAndCleanPath path) = []"
  by (cases "getStoragesByPath m (FixAndCleanPath path)" rule: remdups_adj.cases) (simp_all add: GetBalancedStorage_def Let_def)

lemma fix_comps_idem [simp]: "fix_comps (FixAndCleanPath p) = fix_comps p"
  using fix_comps FixAndCleanPath_idem mk_abs_inject by metis

lemma covers_fix [simp]: "covers d (FixAndCleanPath p) = covers d p"
  by (simp add: covers_def)

lemma getStoragesByPath_None:
  assumes "mounts_ok m"
  shows "getStoragesByPath m path = [] \<longleftrightarrow> (\<forall>d \<in> snd ` set m. \<not> covers d path)"
proof
  assume "getStoragesByPath m path = []"
  then have n: "\<not> (d \<in> snd ` set m \<and> covers d path
      \<and> (\<forall>e \<in> snd ` set m. covers e path \<longrightarrow> length (mount_comps e) \<le> length (mount_comps d)))" for d
    using set_getStoragesByPath[OF assms, of d path] by simp
  show "\<forall>d \<in> snd ` set m. \<not> covers d path"
  proof (rule ccontr)
    let ?C = "{d \<in> snd ` set m. covers d path}"
    assume "\<not> ?thesis"
    then have "?C \<noteq> {}" "finite ?C" by auto
    then have M: "Max ((\<lambda>d. length (mount_comps d)) ` ?C) \<in> (\<lambda>d. length (mount_comps d)) ` ?C"
      "\<forall>e \<in> ?C. length (mount_comps e) \<le> Max ((\<lambda>d. length (mount_comps d)) ` ?C)" by (simp, simp)
    from M(1) obtain d where "d \<in> ?C" "length (mount_comps d) = Max ((\<lambda>d. length (mount_comps d)) ` ?C)" by force
    then show False using n[of d] M(2) by simp
  qed
next
  assume "\<forall>d \<in> snd ` set m. \<not> covers d path"
  then have "d \<notin> set (getStoragesByPath m path)" for d using set_getStoragesByPath[OF assms] by blast
  then show "getStoragesByPath m path = []" by (metis list.set_intros(1) neq_Nil_conv)
qed

lemma GetStorageAndActualPath_full:
  assumes "mounts_ok m" "snd (GetStorageAndActualPath m rawPath bal) = Some (d, actualPath)"
  shows "snd (GetBalancedStorage m (FixAndCleanPath rawPath) bal) = Some d"
    "GetFullPath (mount d) actualPath = FixAndCleanPath rawPath" "FixAndCleanPath actualPath = actualPath"
proof -
  show s: "snd (GetBalancedStorage m (FixAndCleanPath rawPath) bal) = Some d"
    using assms(2) by (auto simp: GetStorageAndActualPath_def Let_def split: prod.splits option.splits)
  have d: "d \<in> snd ` set m" "covers d rawPath"
    using GetBalancedStorage_member[OF s] set_getStoragesByPath[OF assms(1), of d] by simp_all
  then obtain rest where rest: "fix_comps rawPath = mount_comps d @ rest" by (auto simp: covers_def prefix_def)
  have am: "actual_mount d = mk_abs (mount_comps d)"
    using mounts_okD(2)[OF assms(1) mounts_ok_drivers[OF assms(1) d(1)]] .
  have raw: "FixAndCleanPath rawPath = mk_abs (mount_comps d @ rest)" using fix_comps(2) rest by metis
  have n: "normal_comps (mount_comps d @ rest)" using fix_comps(1) rest by metis
  have nb: "CHR 0x5C \<notin> set (mk_abs (mount_comps d @ rest))" using FixAndCleanPath_no_backslash raw by metis
  have a: "FixAndCleanPath (trim_prefix (FixAndCleanPath rawPath) (actual_mount d)) = mk_abs rest"
    using trim_mount[OF n nb] raw am by simp
  then have ap: "actualPath = mk_abs rest"
    using s assms(2) by (auto simp: GetStorageAndActualPath_def Let_def split: prod.splits)
  then show "GetFullPath (mount d) actualPath = FixAndCleanPath rawPath"
    using n by (simp add: GetFullPath_def am raw path_join_mk_abs)
  show "FixAndCleanPath actualPath = actualPath" using a ap FixAndCleanPath_idem by metis
qed

text \<open>C24: A request path is resolved to a storage whose mount path is the longest one above it, and to the
  path below the mount: joined again they give the cleaned request path.  Resolution fails exactly
  when no mount is above the path.\<close>

theorem resolve_longest_mount:
  assumes "mounts_ok m"
  shows "case snd (GetStorageAndActualPath m rawPath bal) of
      None \<Rightarrow> \<forall>d \<in> snd ` set m. \<not> covers d rawPath
    | Some (d, actualPath) \<Rightarrow> d \<in> snd ` set m \<and> GetFullPath (mount d) actualPath = FixAndCleanPath rawPath
        \<and> FixAndCleanPath actualPath = actualPath
        \<and> (\<forall>e \<in> snd ` set m. covers e rawPath \<longrightarrow> length (mount_comps e) \<le> length (mount_comps d))"
proof (cases "snd (GetBalancedStorage m (FixAndCleanPath rawPath) bal)")
  case None
  then have "getStoragesByPath m (FixAndCleanPath rawPath) = []" by (simp add: GetBalancedStorage_None)
  then show ?thesis using None getStoragesByPath_None[OF assms, of "FixAndCleanPath rawPath"]
    by (auto simp: GetStorageAndActualPath_def Let_def split: prod.splits option.splits)
next
  case (Some d)
  have d: "d \<in> snd ` set m" "covers d rawPath"
    "\<forall>e \<in> snd ` set m. covers e rawPath \<longrightarrow> length (mount_comps e) \<le> length (mount_comps d)"
    using GetBalancedStorage_member[OF Some] set_getStoragesByPath[OF assms, of d] by simp_all
  obtain a where a: "snd (GetStorageAndActualPath m rawPath bal) = Some (d, a)"
    using Some by (cases "GetBalancedStorage m (FixAndCleanPath rawPath) bal") (auto simp: GetStorageAndActualPath_def Let_def)
  show ?thesis using GetStorageAndActualPath_full(2,3)[OF assms a] a d by simp
qed

section \<open>Balancing\<close>

fun serve :: "'v storagesMap \<Rightarrow> string list \<Rightarrow> (string \<Rightarrow> nat option) \<Rightarrow> 'v Driver option list" where
  "serve m [] bal = []"
| "serve m (p # ps) bal = (case GetBalancedStorage m p bal of (bal, d) \<Rightarrow> d # serve m ps bal)"

lemma serve_nth:
  assumes "\<forall>p \<in> set ps. getStoragesByPath m (FixAndCleanPath p) = g" "g \<noteq> []"
  shows "serve m ps bal = map (\<lambda>j. Some (g ! ((case_option 0 id (bal (actual_mount (hd g))) + 1 + j) mod length g))) [0..<length ps]"
    (is "_ = map (?f bal) _")
  using assms(1)
proof (induction ps arbitrary: bal)
  case (Cons p ps)
  have g: "getStoragesByPath m (FixAndCleanPath p) = g" using Cons.prems by simp
  define i where "i = case_option 0 id (bal (actual_mount (hd g)))"
  obtain b where b: "GetBalancedStorage m p bal = (b, Some (g ! ((i + 1) mod length g)))"
    "length g = 1 \<or> b (actual_mount (hd g)) = Some ((i + 1) mod length g)"
    using g assms(2) by (cases g rule: remdups_adj.cases) (auto simp: GetBalancedStorage_def Let_def i_def split: option.splits)
  have "?f b j = ?f bal (Suc j)" for j
  proof (cases "length g = 1")
    case False
    then have b': "case_option 0 id (b (actual_mount (hd g))) = (i + 1) mod length g" using b(2) by simp
    have "(Suc (Suc i mod length g) + j) mod length g = (Suc (Suc i) + j) mod length g"
      by (metis add_Suc mod_Suc_eq mod_add_left_eq)
    then show ?thesis using b' by (simp add: i_def)
  qed simp
  then have "map (?f b) [0..<length ps] = map (?f bal) [1..<Suc (length ps)]"
    by (simp add: map_Suc_upt[symmetric] del: upt_Suc)
  then show ?case using Cons b(1) by (simp add: upt_conv_Cons i_def del: upt_Suc)
qed simp

text \<open>Balanced storages share the load fairly: of as many successive requests as there are storages
  mounted on the path, each one serves exactly one, whichever served before.\<close>

theorem balance_is_fair:
  assumes "\<forall>p \<in> set ps. getStoragesByPath m (FixAndCleanPath p) = g" "length ps = length g"
  shows "mset (serve m ps bal) = image_mset Some (mset g)"
proof (cases "g = []")
  case False
  define i where "i = case_option 0 id (bal (actual_mount (hd g))) + 1"
  have "serve m ps bal = map (\<lambda>j. Some (g ! ((i + j) mod length g))) [0..<length g]"
    using serve_nth[OF assms(1) False, of bal] assms(2) by (simp add: i_def)
  also have "\<dots> = map Some (rotate i g)" by (rule nth_equalityI) (simp_all add: nth_rotate)
  finally have "serve m ps bal = map Some (rotate i g)" .
  moreover have "mset (rotate i g) = mset g"
    using mset_append[of "drop (i mod length g) g" "take (i mod length g) g"]
      mset_append[of "take (i mod length g) g" "drop (i mod length g) g"]
    by (simp add: rotate_drop_take del: mset_append)
  ultimately show ?thesis by simp
qed (use assms in simp)

section \<open>Virtual files\<close>

definition dir_prefix :: "string list \<Rightarrow> string" where
  "dir_prefix ps = (if ps = [] then ''/'' else mk_abs ps @ ''/'')"

lemma cut_below:
  assumes "normal_comps (ps @ c # rest)"
  shows "cut_prefix (mk_abs (ps @ c # rest)) (dir_prefix ps) = Some (join_char slash (c # rest))"
    "join_char slash (c # rest) \<noteq> ''''"
    "(case cut_char slash (join_char slash (c # rest)) of None \<Rightarrow> (join_char slash (c # rest), False) | Some (a, b) \<Rightarrow> (a, True)) = (c, rest \<noteq> [])"
proof -
  have c: "c \<noteq> ''''" "slash \<notin> set c" using assms by (auto simp: name_ok_def)
  have "mk_abs (ps @ c # rest) = dir_prefix ps @ join_char slash (c # rest)"
    by (cases "ps = []") (auto simp: dir_prefix_def mk_abs_joined, simp_all add: mk_abs_def)
  then show "cut_prefix (mk_abs (ps @ c # rest)) (dir_prefix ps) = Some (join_char slash (c # rest))"
    by (simp add: cut_prefix_def)
  show "join_char slash (c # rest) \<noteq> ''''" using c by (cases rest) auto
  show "(case cut_char slash (join_char slash (c # rest)) of None \<Rightarrow> (join_char slash (c # rest), False) | Some (a, b) \<Rightarrow> (a, True)) = (c, rest \<noteq> [])"
  proof (cases rest)
    case Nil
    then have "cut_char slash (join_char slash (c # rest)) = None" using c by (simp add: cut_char_None)
    then show ?thesis using Nil by simp
  next
    case (Cons r rs)
    then have "cut_char slash (join_char slash (c # rest)) = Some (c, join_char slash (r # rs))"
      using cut_char_append[OF c(2)] by simp
    then show ?thesis using Cons by simp
  qed
qed

lemma cut_not_below:
  assumes "normal_comps ps" "normal_comps cs" "\<nexists>c rest. cs = ps @ c # rest"
  shows "cut_prefix (mk_abs cs) (dir_prefix ps) \<in> {None, Some ''''}"
proof (cases "ps = []")
  case True
  then show ?thesis using assms(3) by (cases cs) (auto simp: cut_prefix_def dir_prefix_def mk_abs_def)
next
  case False
  then have "\<not> has_prefix (mk_abs cs) (mk_abs ps @ ''/'')"
    using mk_abs_slash_prefix[OF assms(1,2)] assms(3) by (metis strict_prefixE')
  then show ?thesis using False by (simp add: cut_prefix_def dir_prefix_def)
qed

text \<open>The names below a path, those at which a storage is mounted, and what the loop has built from them.\<close>

definition below :: "string list \<Rightarrow> string \<Rightarrow> 'v Driver set \<Rightarrow> string set" where
  "below ps f ds = {c. (f = '''' \<or> c = f) \<and> (\<exists>d \<in> ds. \<exists>rest. mount_comps d = ps @ c # rest)}"

definition mounted :: "string list \<Rightarrow> 'v Driver set \<Rightarrow> string \<Rightarrow> bool" where
  "mounted ps ds c \<longleftrightarrow> (\<exists>d \<in> ds. mount_comps d = ps @ [c])"

fun vf_obj :: "(string \<Rightarrow> bool) \<Rightarrow> Obj \<Rightarrow> bool" where
  "vf_obj M (Plain ob) \<longleftrightarrow> IsFolder ob \<and> Mask ob = (if M (obName ob) then Locked OR Virtual else ReadOnly OR Virtual)"
| "vf_obj M o1 \<longleftrightarrow> False"

definition vf_rep :: "string set \<Rightarrow> (string \<Rightarrow> bool) \<Rightarrow> 'v vf_state \<Rightarrow> bool" where
  "vf_rep N M st \<longleftrightarrow>
     distinct (map GetName (vfFiles st)) \<and> GetName ` set (vfFiles st) = N
     \<and> (\<forall>c i. map_of (vfSet st) c = Some i \<longleftrightarrow> i < length (vfFiles st) \<and> GetName (vfFiles st ! i) = c)
     \<and> (\<forall>o1 \<in> set (vfFiles st). vf_obj M o1)"

lemma vf_obj_cong: "vf_obj M o1 \<Longrightarrow> M (GetName o1) = M' (GetName o1) \<Longrightarrow> vf_obj M' o1"
  by (cases o1) simp_all

lemma vf_rep_cong: "vf_rep N M st \<Longrightarrow> (\<And>c. c \<in> N \<Longrightarrow> M c = M' c) \<Longrightarrow> vf_rep N M' st"
  unfolding vf_rep_def by (metis imageI vf_obj_cong)

lemma vf_rep_new:
  assumes "vf_rep N M st" "c \<notin> N" "vf_obj M (Plain ob)" "obName ob = c"
  shows "vf_rep (insert c N) M (st\<lparr>vfSet := (c, length (vfFiles st)) # vfSet st, vfFiles := vfFiles st @ [Plain ob]\<rparr>)"
proof -
  have "i < length (vfFiles st) \<Longrightarrow> GetName (vfFiles st ! i) \<noteq> c" for i using assms(1,2) by (auto simp: vf_rep_def)
  then show ?thesis using assms unfolding vf_rep_def by (auto simp: nth_append less_Suc_eq)
qed

lemma vf_rep_mark:
  assumes "vf_rep N M st" "map_of (vfSet st) c = Some i" "vfFiles st ! i = Plain ob"
  shows "vf_rep N (M(c := True)) (st\<lparr>vfFiles := (vfFiles st)[i := Plain (ob\<lparr>Mask := Locked OR Virtual\<rparr>)]\<rparr>)"
proof -
  have R: "distinct (map GetName (vfFiles st))" "GetName ` set (vfFiles st) = N"
    "\<And>c i. map_of (vfSet st) c = Some i \<longleftrightarrow> i < length (vfFiles st) \<and> GetName (vfFiles st ! i) = c"
    "\<And>j. j < length (vfFiles st) \<Longrightarrow> vf_obj M (vfFiles st ! j)"
    using assms(1) by (auto simp: vf_rep_def)
  have i: "i < length (vfFiles st)" "obName ob = c" using assms(2,3) R(3) by auto
  let ?f = "(vfFiles st)[i := Plain (ob\<lparr>Mask := Locked OR Virtual\<rparr>)]"
  have e: "GetName (?f ! j) = GetName (vfFiles st ! j)" if "j < length (vfFiles st)" for j
    using i assms(3) that by (cases "j = i") simp_all
  then have n: "map GetName ?f = map GetName (vfFiles st)" by (simp add: list_eq_iff_nth_eq)
  have "vf_obj (M(c := True)) (?f ! j)" if j: "j < length (vfFiles st)" for j
  proof (cases "j = i")
    case True
    then show ?thesis using R(4)[OF i(1)] assms(3) i by simp
  next
    case False
    have "map GetName (vfFiles st) ! j \<noteq> map GetName (vfFiles st) ! i"
      using R(1) False i(1) j nth_eq_iff_index_eq by fastforce
    then have "GetName (vfFiles st ! j) \<noteq> c" using assms(3) i j by simp
    then show ?thesis using False vf_obj_cong[OF R(4)[OF j]] by simp
  qed
  then have "\<forall>o1 \<in> set ?f. vf_obj (M(c := True)) o1" by (simp add: all_set_conv_all_nth)
  moreover have "GetName ` set ?f = N" using n R(2) by (metis list.set_map)
  ultimately show ?thesis using n R(1,3) e by (auto simp: vf_rep_def)
qed

lemma below_insert:
  "below ps f (insert d ds) = below ps f ds \<union> {c. (f = '''' \<or> c = f) \<and> (\<exists>rest. mount_comps d = ps @ c # rest)}"
  by (auto simp: below_def)

lemma vf_callback_none [simp]: "vf_callback None early idx v st = st"
  by (simp add: vf_callback_def)

lemma vf_step_rep:
  assumes "vf_rep (below ps f ds) (mounted ps ds) st" "normal_comps ps"
    and "actual_mount v = mk_abs (mount_comps v)" "normal_comps (mount_comps v)"
  shows "\<exists>st'. vf_step (dir_prefix ps) None early f v st = Some st' \<and> vf_rep (below ps f (insert v ds)) (mounted ps (insert v ds)) st'"
proof (cases "\<exists>c rest. mount_comps v = ps @ c # rest")
  case False
  then have "below ps f (insert v ds) = below ps f ds" "mounted ps (insert v ds) = mounted ps ds"
    by (auto simp: below_insert mounted_def fun_eq_iff)
  moreover have "cut_prefix (actual_mount v) (dir_prefix ps) \<in> {None, Some ''''}"
    using cut_not_below[OF assms(2,4)] False assms(3) by simp
  ultimately show ?thesis using assms(1) by (auto simp: vf_step_def)
next
  case True
  then obtain c rest where c: "mount_comps v = ps @ c # rest" by blast
  note cut = cut_below[of ps c rest] assms(3,4)
  have step: "vf_step (dir_prefix ps) None early f v st =
     (if f \<noteq> '''' \<and> c \<noteq> f then Some st
      else case map_of (vfSet st) c of
        Some idx \<Rightarrow> if rest \<noteq> [] then Some st
          else (case vfFiles st ! idx of
                  Plain ob \<Rightarrow> Some (st\<lparr>vfFiles := (vfFiles st)[idx := Plain (ob\<lparr>Mask := Locked OR Virtual\<rparr>)]\<rparr>) | _ \<Rightarrow> None)
      | None \<Rightarrow> Some (st\<lparr>vfSet := (c, length (vfFiles st)) # vfSet st, vfFiles := vfFiles st @ [Plain
          \<lparr>obID = '''', obPath = '''', obName = c, obSize = 0, obModified = sModified (dStorage v),
            IsFolder = True, Mask = (if rest \<noteq> [] then ReadOnly OR Virtual else Locked OR Virtual)\<rparr>]\<rparr>))"
    using cut c by (simp add: vf_step_def Let_def split: option.split cong: Obj.case_cong)
  have M: "mounted ps (insert v ds) = (if rest = [] then (mounted ps ds)(c := True) else mounted ps ds)"
    using c by (auto simp: mounted_def fun_eq_iff)
  consider (other) "f \<noteq> '''' \<and> c \<noteq> f" | (old) i where "f = '''' \<or> c = f" "map_of (vfSet st) c = Some i"
    | (new) "f = '''' \<or> c = f" "map_of (vfSet st) c = None" by fastforce
  then show ?thesis
  proof cases
    case other
    then have B: "below ps f (insert v ds) = below ps f ds" using c by (auto simp: below_insert)
    have "vf_rep (below ps f ds) (mounted ps (insert v ds)) st"
      by (rule vf_rep_cong[OF assms(1)]) (use other M in \<open>auto simp: below_def\<close>)
    then show ?thesis using other B step by auto
  next
    case old
    then have i: "i < length (vfFiles st)" "GetName (vfFiles st ! i) = c" using assms(1) by (simp_all add: vf_rep_def)
    then have "c \<in> GetName ` set (vfFiles st)" by (metis imageI nth_mem)
    then have "c \<in> below ps f ds" using assms(1) by (simp add: vf_rep_def)
    then have B: "below ps f (insert v ds) = below ps f ds" using c by (auto simp: below_insert)
    have "vf_obj (mounted ps ds) (vfFiles st ! i)" using assms(1) i(1) by (auto simp: vf_rep_def)
    then obtain ob where ob: "vfFiles st ! i = Plain ob" by (cases "vfFiles st ! i") simp_all
    show ?thesis using vf_rep_mark[OF assms(1) old(2) ob] old ob B M step assms(1) by auto
  next
    case new
    have "c \<notin> below ps f ds"
    proof
      assume "c \<in> below ps f ds"
      then obtain i where "i < length (vfFiles st)" "GetName (vfFiles st ! i) = c"
        using assms(1) unfolding vf_rep_def by (metis imageE in_set_conv_nth)
      then have "map_of (vfSet st) c = Some i" using assms(1) by (simp add: vf_rep_def)
      then show False using new(2) by simp
    qed
    moreover have "below ps f (insert v ds) = insert c (below ps f ds)" using c new(1) by (auto simp: below_insert)
    moreover from calculation(1) new(1) have "rest \<noteq> [] \<Longrightarrow> \<not> mounted ps ds c" by (auto simp: below_def mounted_def)
    moreover have "vf_rep (below ps f ds) (mounted ps (insert v ds)) st"
      by (rule vf_rep_cong[OF assms(1)]) (use calculation(1) M in auto)
    ultimately show ?thesis
      using vf_rep_new[of "below ps f ds" "mounted ps (insert v ds)" st c] new step M by auto
  qed
qed

lemma vf_loop_rep:
  assumes "vf_rep (below ps f ds) (mounted ps ds) st" "normal_comps ps"
    and "\<forall>v \<in> set vs. actual_mount v = mk_abs (mount_comps v) \<and> normal_comps (mount_comps v)"
  shows "\<exists>st'. vf_loop (dir_prefix ps) None early f vs st = Some st' \<and> vf_rep (below ps f (ds \<union> set vs)) (mounted ps (ds \<union> set vs)) st'"
  using assms(1,3)
proof (induction vs arbitrary: ds st)
  case (Cons v vs)
  obtain st1 where st1: "vf_step (dir_prefix ps) None early f v st = Some st1"
    "vf_rep (below ps f (insert v ds)) (mounted ps (insert v ds)) st1"
    using vf_step_rep[OF Cons.prems(1) assms(2), of v] Cons.prems(2) by auto
  then show ?case using Cons.IH[OF st1(2)] Cons.prems(2) by auto
qed auto

lemma dir_prefix_eq:
  assumes "normal_comps ps" "prefx = mk_abs ps \<or> prefx = dir_prefix ps"
  shows "(if \<not> has_suffix prefx ''/'' then prefx @ ''/'' else prefx) = dir_prefix ps"
proof -
  have s: "has_suffix (p @ ''/'') ''/''" for p by (simp add: has_suffix_def)
  have "mk_abs [] = ''/''" by (simp add: mk_abs_def)
  then show ?thesis
    using assms mk_abs_suffix_slash[OF assms(1)] s s[of "''''"] by (cases "ps = []") (auto simp: dir_prefix_def)
qed

text \<open>A directory shows each storage mounted below it as one folder, named after the next component of
  its mount path (a balanced group counts once): the names are distinct and exactly these, and the
  folder is a mount point, which may be written to, exactly when a storage is mounted right there.\<close>

theorem virtual_files_are_the_mounts:
  assumes "mounts_ok m" "normal_comps ps" "prefx = mk_abs ps \<or> prefx = dir_prefix ps"
  shows "\<exists>files. getStorageVirtualFilesByPath m prefx None early f = Some files
    \<and> distinct (map GetName files)
    \<and> GetName ` set files = {c. (f = '''' \<or> c = f) \<and> (\<exists>d \<in> snd ` set m. \<exists>rest. mount_comps d = ps @ c # rest)}
    \<and> (\<forall>o1 \<in> set files. IsDir o1 \<and> ObjHasMask o1 Virtual
        \<and> (\<not> ObjHasMask o1 NoWrite \<longleftrightarrow> (\<exists>d \<in> snd ` set m. mount_comps d = ps @ [GetName o1])))"
proof -
  let ?vs = "sort_key by_order (map snd m)"
  have vs: "set ?vs = snd ` set m" by simp
  have r: "vf_rep (below ps f {}) (mounted ps {}) \<lparr>vfFiles = [], vfSet = [], vfPending = []\<rparr>" by (simp add: vf_rep_def below_def)
  have v: "\<forall>v \<in> set ?vs. actual_mount v = mk_abs (mount_comps v) \<and> normal_comps (mount_comps v)"
  proof
    fix v assume "v \<in> set ?vs"
    then have "(mount v, v) \<in> set m" using mounts_ok_drivers[OF assms(1)] vs by simp
    from mounts_okD(2,3)[OF assms(1) this] show "actual_mount v = mk_abs (mount_comps v) \<and> normal_comps (mount_comps v)" ..
  qed
  obtain st where st: "vf_loop (dir_prefix ps) None early f ?vs \<lparr>vfFiles = [], vfSet = [], vfPending = []\<rparr> = Some st"
    "vf_rep (below ps f (snd ` set m)) (mounted ps (snd ` set m)) st"
    using vf_loop_rep[OF r assms(2) v, of early, unfolded vs Un_empty_left] by blast
  have o: "IsDir o1 \<and> ObjHasMask o1 Virtual \<and> (\<not> ObjHasMask o1 NoWrite \<longleftrightarrow> mounted ps (snd ` set m) (GetName o1))"
    if "vf_obj (mounted ps (snd ` set m)) o1" for o1
    using that by (cases o1) (auto simp: ObjHasMask_def mask_defs)
  have "getStorageVirtualFilesByPath m prefx None early f = Some (vfFiles st)"
    using st(1) dir_prefix_eq[OF assms(2,3)] by (simp add: getStorageVirtualFilesByPath_def Let_def)
  moreover have "distinct (map GetName (vfFiles st))" "GetName ` set (vfFiles st) = below ps f (snd ` set m)"
    "\<forall>o1 \<in> set (vfFiles st). vf_obj (mounted ps (snd ` set m)) o1"
    using st(2) by (simp_all add: vf_rep_def)
  ultimately show ?thesis using o by (auto simp: below_def mounted_def)
qed

section \<open>Witnesses and behaviours\<close>

definition demo_storage :: "string \<Rightarrow> Storage" where
  "demo_storage p = \<lparr>sID = 0, MountPath = p, sOrder = 0, DriverName = ''Local'', CacheExpiration = 30, CustomCachePolicies = '''',
     Status = ''work'', Addition = '''', Remark = '''', sModified = 0, sDisabled = False, DisableIndex = False, EnableSign = False,
     OrderBy = '''', OrderDirection = '''', sExtractFolder = '''', WebProxy = False, WebdavPolicy = '''', ProxyRange = False,
     DownProxyURL = '''', DisableProxySign = False\<rparr>"

definition demo_mounts :: "string list \<Rightarrow> unit storagesMap" where
  "demo_mounts ps = map (\<lambda>p. (p, \<lparr>dStorage = demo_storage p, dImpl = ()\<rparr>)) ps"

lemma demo_mounts_ok: "mounts_ok (demo_mounts [''/'', ''/a/b'', ''/a/b.balance2'', ''/a/c/d''])"
  unfolding mounts_ok_def by code_simp

theorem resolve_longest_mount_witness:
  "case snd (GetStorageAndActualPath (demo_mounts [''/'', ''/a/b'', ''/a/b.balance2'', ''/a/c/d'']) ''a/b/../b//x'' Map.empty) of
     None \<Rightarrow> False | Some (d, p) \<Rightarrow> mount d = ''/a/b.balance2'' \<and> p = ''/x'' \<and> GetFullPath (mount d) p = ''/a/b/x''"
proof -
  have e: "map_option (\<lambda>(d, p). (mount d, p)) (snd (GetStorageAndActualPath (demo_mounts [''/'', ''/a/b'', ''/a/b.balance2'', ''/a/c/d'']) ''a/b/../b//x'' Map.empty))
      = Some (''/a/b.balance2'', ''/x'')" and f: "FixAndCleanPath ''a/b/../b//x'' = ''/a/b/x''"
    by code_simp+
  show ?thesis
    using resolve_longest_mount[OF demo_mounts_ok, of "''a/b/../b//x''" Map.empty] e f by (auto split: option.splits)
qed

theorem balance_is_fair_witness:
  "mset (map (map_option mount) (serve (demo_mounts [''/a'', ''/a.balance'', ''/a.balance2'']) [''/a/x'', ''/a'', ''/a/y''] Map.empty))
    = {#Some ''/a'', Some ''/a.balance'', Some ''/a.balance2''#}"
proof -
  let ?m = "demo_mounts [''/a'', ''/a.balance'', ''/a.balance2'']"
  have g: "getStoragesByPath ?m (FixAndCleanPath ''/a/x'') = map snd ?m" "getStoragesByPath ?m (FixAndCleanPath ''/a'') = map snd ?m"
    "getStoragesByPath ?m (FixAndCleanPath ''/a/y'') = map snd ?m"
    by code_simp+
  then have "\<forall>p \<in> set [''/a/x'', ''/a'', ''/a/y'']. getStoragesByPath ?m (FixAndCleanPath p) = map snd ?m" by simp
  from balance_is_fair[OF this, of Map.empty] have "mset (serve ?m [''/a/x'', ''/a'', ''/a/y''] Map.empty) = image_mset Some (mset (map snd ?m))"
    by (simp add: demo_mounts_def)
  then show ?thesis by (simp add: demo_mounts_def demo_storage_def)
qed

theorem virtual_files_are_the_mounts_witness:
  "\<exists>files. getStorageVirtualFilesByPath (demo_mounts [''/'', ''/a/b'', ''/a/b.balance2'', ''/a/c/d'']) ''/a/'' None (\<lambda>_. False) '''' = Some files
     \<and> GetName ` set files = {''b'', ''c''}"
proof -
  let ?m = "demo_mounts [''/'', ''/a/b'', ''/a/b.balance2'', ''/a/c/d'']"
  have p: "normal_comps [''a'']" "''/a/'' = dir_prefix [''a'']" by code_simp+
  have c: "map (mount_comps \<circ> snd) ?m = [[], [''a'', ''b''], [''a'', ''b''], [''a'', ''c'', ''d'']]" by code_simp
  have "{c. (\<exists>d \<in> snd ` set ?m. \<exists>rest. mount_comps d = [''a''] @ c # rest)} =
      {c. (\<exists>cs \<in> set (map (mount_comps \<circ> snd) ?m). \<exists>rest. cs = [''a''] @ c # rest)}" by auto
  also have "\<dots> = {''b'', ''c''}" unfolding c by auto
  finally show ?thesis
    using virtual_files_are_the_mounts[OF demo_mounts_ok p(1), of "''/a/''" "\<lambda>_. False" "''''"] p(2) by auto
qed

text \<open>With usage details asked for, two balanced storages can end in a panic: the details of the first
  replace the object that the loop then treats as a plain one.\<close>

lemma balanced_details_panic:
  "GetStorageVirtualFilesWithDetailsByPath (demo_mounts [''/a'', ''/a.balance'']) (\<lambda>_. None) (\<lambda>d. mount d = ''/a'') ''/'' False '''' = None"
  "GetStorageVirtualFilesWithDetailsByPath (demo_mounts [''/a'', ''/a.balance'']) (\<lambda>_. None) (\<lambda>_. False) ''/'' False '''' \<noteq> None"
  by code_simp+

end
