(* ===== verification/Storage_Transfer.thy ===== *)
theory Storage_Transfer imports Mounts begin

text \<open>
  Copying and moving between storages: the tasks of \<open>internal/fs/copy_move.go\<close>, the group
  coordinator of \<open>internal/task_group/group.go\<close>, and the removal of the source that ends a move,
  \<open>internal/task_group/transfer.go\<close>.  The operations of package \<open>op\<close> on the two storages are a
  record over an unknown world; each may fail at any time.
\<close>

section \<open>The coordinator\<close>

datatype payload = SrcPathToRemove string | DstPathToHook string

record groupState =
  pending :: nat
  hasSuccess :: bool

record coordinator =
  groupPayloads :: "string \<Rightarrow> payload list"
  groupStates :: "string \<Rightarrow> groupState option"

definition NewTaskGroupCoordinator :: coordinator where
  "NewTaskGroupCoordinator = \<lparr>groupPayloads = (\<lambda>_. []), groupStates = (\<lambda>_. None)\<rparr>"

definition AppendPayload :: "string \<Rightarrow> payload option \<Rightarrow> coordinator \<Rightarrow> coordinator" where
  "AppendPayload groupID payload tgc =
     (case payload of None \<Rightarrow> tgc
      | Some p \<Rightarrow> tgc\<lparr>groupPayloads := (groupPayloads tgc)(groupID := groupPayloads tgc groupID @ [p])\<rparr>)"

definition AddTask :: "string \<Rightarrow> payload option \<Rightarrow> coordinator \<Rightarrow> coordinator" where
  "AddTask groupID payload tgc =
     (let st = (case groupStates tgc groupID of None \<Rightarrow> \<lparr>pending = 0, hasSuccess = False\<rparr> | Some st \<Rightarrow> st);
          tgc = tgc\<lparr>groupStates := (groupStates tgc)(groupID \<mapsto> st\<lparr>pending := pending st + 1\<rparr>)\<rparr>
      in case payload of None \<Rightarrow> tgc
         | Some p \<Rightarrow> tgc\<lparr>groupPayloads := (groupPayloads tgc)(groupID := groupPayloads tgc groupID @ [p])\<rparr>)"

text \<open>\<open>Done\<close> also gives the payloads of the completion it starts.\<close>

definition Done :: "string \<Rightarrow> bool \<Rightarrow> coordinator \<Rightarrow> coordinator \<times> payload list option" where
  "Done groupID success tgc =
     (case groupStates tgc groupID of
        None \<Rightarrow> (tgc, None)
      | Some st \<Rightarrow>
          if pending st = 0 then (tgc, None)
          else let st = (if success then st\<lparr>hasSuccess := True\<rparr> else st) in
            if pending st = 1 then
              (tgc\<lparr>groupStates := (groupStates tgc)(groupID := None), groupPayloads := (groupPayloads tgc)(groupID := [])\<rparr>,
               if hasSuccess st then Some (groupPayloads tgc groupID) else None)
            else (tgc\<lparr>groupStates := (groupStates tgc)(groupID \<mapsto> st\<lparr>pending := pending st - 1\<rparr>)\<rparr>, None))"

section \<open>The operations on a storage\<close>

datatype terr = TNotFound | TError string

record tobj =
  tName :: string
  tIsDir :: bool

text \<open>A storage is named by its mount path.  \<open>opUpload s src d dstDir\<close> links the source file, opens the
  stream and puts it into the directory.\<close>

record 'w op_api =
  opGet :: "string \<Rightarrow> string \<Rightarrow> 'w \<Rightarrow> 'w \<times> (terr + tobj)"
  opList :: "string \<Rightarrow> string \<Rightarrow> 'w \<Rightarrow> 'w \<times> (terr + tobj list)"
  opRemove :: "string \<Rightarrow> string \<Rightarrow> 'w \<Rightarrow> 'w \<times> terr option"
  opUpload :: "string \<Rightarrow> string \<Rightarrow> string \<Rightarrow> string \<Rightarrow> 'w \<Rightarrow> 'w \<times> terr option"

section \<open>Tasks\<close>

datatype taskType = CopyTask | MoveTask | MergeTask

record FileTransferTask =
  TaskType :: taskType
  SrcStorageMp :: string
  DstStorageMp :: string
  SrcActualPath :: string
  DstActualPath :: string
  taskGroup :: string

text \<open>The outcome of a run: its error, the tasks it hands on and the payload it adds to its group.\<close>

type_synonym 'w run = "'w \<times> terr option \<times> FileTransferTask list \<times> payload option"

definition existed_files :: "tobj list \<Rightarrow> string list" where
  "existed_files objs = map tName (filter (\<lambda>o1. \<not> tIsDir o1) objs)"

definition next_tasks :: "FileTransferTask \<Rightarrow> string \<Rightarrow> string list \<Rightarrow> tobj list \<Rightarrow> FileTransferTask list" where
  "next_tasks t dstActualPath existed objs =
     map (\<lambda>o1. t\<lparr>SrcActualPath := path_join (SrcActualPath t) (tName o1), DstActualPath := dstActualPath\<rparr>)
       (filter (\<lambda>o1. \<not> (TaskType t = MergeTask \<and> \<not> tIsDir o1 \<and> List.member existed (tName o1))) objs)"

text \<open>The loop over the objects of a directory: the task's context, looked at before each of them, may be
  cancelled before the one with the number \<open>k\<close>; the tasks handed on before it stay handed on.\<close>

definition hand_on :: "FileTransferTask \<Rightarrow> string \<Rightarrow> string list \<Rightarrow> tobj list \<Rightarrow> nat option \<Rightarrow> terr option \<times> FileTransferTask list" where
  "hand_on t dstActualPath existed objs cancel =
     (case cancel of
        None \<Rightarrow> (None, next_tasks t dstActualPath existed objs)
      | Some k \<Rightarrow> if k < length objs then (Some (TError ''context canceled''), next_tasks t dstActualPath existed (take k objs))
                 else (None, next_tasks t dstActualPath existed objs))"

text \<open>\<open>cancel\<close> counts the looks at the context over both loops, that over the objects of the destination first.\<close>

definition RunWithNextTaskCallback :: "'w op_api \<Rightarrow> nat option \<Rightarrow> FileTransferTask \<Rightarrow> 'w \<Rightarrow> 'w run" where
  "RunWithNextTaskCallback api cancel t w =
     (case opGet api (SrcStorageMp t) (SrcActualPath t) w of
        (w, Inl e) \<Rightarrow> (w, Some e, [], None)
      | (w, Inr srcObj) \<Rightarrow>
          if tIsDir srcObj then
            (case opList api (SrcStorageMp t) (SrcActualPath t) w of
               (w, Inl e) \<Rightarrow> (w, Some e, [], None)
             | (w, Inr objs) \<Rightarrow>
                 let dstActualPath = path_join (DstActualPath t) (tName srcObj); hook = Some (DstPathToHook dstActualPath) in
                 if TaskType t = MergeTask then
                   (case opList api (DstStorageMp t) dstActualPath w of
                      (w, Inl e) \<Rightarrow>
                        if e \<noteq> TNotFound then (w, Some e, [], hook)
                        else (case hand_on t dstActualPath [] objs cancel of (e, ts) \<Rightarrow> (w, e, ts, hook))
                    | (w, Inr dstObjs) \<Rightarrow>
                        if (case cancel of None \<Rightarrow> False | Some k \<Rightarrow> k < length dstObjs)
                        then (w, Some (TError ''context canceled''), [], hook)
                        else (case hand_on t dstActualPath (existed_files dstObjs) objs (map_option (\<lambda>k. k - length dstObjs) cancel) of
                                (e, ts) \<Rightarrow> (w, e, ts, hook)))
                 else (case hand_on t dstActualPath [] objs cancel of (e, ts) \<Rightarrow> (w, e, ts, hook)))
          else (case opUpload api (SrcStorageMp t) (SrcActualPath t) (DstStorageMp t) (DstActualPath t) w of (w, e) \<Rightarrow> (w, e, [], None)))"

section \<open>Removing the source\<close>

datatype vr_call = VerifyOne string string | VerifyLoop string string "tobj list" bool

partial_function (option) verify_call :: "'w op_api \<Rightarrow> string \<Rightarrow> string \<Rightarrow> vr_call \<Rightarrow> 'w \<Rightarrow> ('w \<times> terr option) option" where
  "verify_call api srcStorage dstStorage c w =
     (case c of
        VerifyOne srcPath dstPath \<Rightarrow>
          (case opGet api srcStorage srcPath w of
             (w, Inl e) \<Rightarrow> Some (w, Some e)
           | (w, Inr srcObj) \<Rightarrow>
               (case opGet api dstStorage (path_join dstPath (tName srcObj)) w of
                  (w, Inl e) \<Rightarrow> Some (w, Some e)
                | (w, Inr dstObj) \<Rightarrow>
                    if \<not> tIsDir dstObj then Some (opRemove api srcStorage srcPath w)
                    else (case opList api srcStorage srcPath w of
                       (w, Inl e) \<Rightarrow> Some (w, Some e)
                     | (w, Inr srcObjs) \<Rightarrow>
                         verify_call api srcStorage dstStorage (VerifyLoop srcPath (path_join dstPath (tName srcObj)) srcObjs False) w)))
      | VerifyLoop srcPath dstObjPath objs hasErr \<Rightarrow>
          (case objs of
             [] \<Rightarrow> if hasErr then Some (w, Some (TError ''subitems'')) else Some (opRemove api srcStorage srcPath w)
           | o1 # os \<Rightarrow>
               Option.bind (verify_call api srcStorage dstStorage (VerifyOne (path_join srcPath (tName o1)) dstObjPath) w)
                 (\<lambda>(w, e). verify_call api srcStorage dstStorage (VerifyLoop srcPath dstObjPath os (hasErr \<or> e \<noteq> None)) w)))"

declare verify_call.simps [code]

definition verifyAndRemove :: "'w op_api \<Rightarrow> string \<Rightarrow> string \<Rightarrow> string \<Rightarrow> string \<Rightarrow> 'w \<Rightarrow> ('w \<times> terr option) option" where
  "verifyAndRemove api srcStorage dstStorage srcPath dstPath = verify_call api srcStorage dstStorage (VerifyOne srcPath dstPath)"

text \<open>\<open>HookAndRemove\<close> without its update hooks, which only list: \<open>resolve\<close> is
  \<open>op.GetStorageAndActualPath\<close>, with the storage it finds.\<close>

fun remove_payloads :: "'w op_api \<Rightarrow> (string \<Rightarrow> (string \<times> string) option) \<Rightarrow> string \<Rightarrow> string \<Rightarrow> payload list \<Rightarrow> 'w \<Rightarrow> 'w option" where
  "remove_payloads api resolve dstStorage dstActualPath [] w = Some w"
| "remove_payloads api resolve dstStorage dstActualPath (DstPathToHook p # ps) w = remove_payloads api resolve dstStorage dstActualPath ps w"
| "remove_payloads api resolve dstStorage dstActualPath (SrcPathToRemove p # ps) w =
     (case resolve p of
        None \<Rightarrow> remove_payloads api resolve dstStorage dstActualPath ps w
      | Some (srcStorage, srcActualPath) \<Rightarrow>
          (case verifyAndRemove api srcStorage dstStorage srcActualPath dstActualPath w of
             None \<Rightarrow> None
           | Some (w, e) \<Rightarrow> remove_payloads api resolve dstStorage dstActualPath ps w))"

definition HookAndRemove :: "'w op_api \<Rightarrow> (string \<Rightarrow> (string \<times> string) option) \<Rightarrow> string \<Rightarrow> payload list \<Rightarrow> 'w \<Rightarrow> 'w option" where
  "HookAndRemove api resolve dstPath payloads w =
     (case resolve dstPath of
        None \<Rightarrow> Some w
      | Some (dstStorage, dstActualPath) \<Rightarrow> remove_payloads api resolve dstStorage dstActualPath payloads w)"

section \<open>Running a group of tasks\<close>

record 'w tsys =
  sysWorld :: 'w
  sysCoord :: coordinator
  sysQueue :: "FileTransferTask list"

text \<open>The start of a move between storages by \<open>transfer\<close>: \<open>groupID\<close> is the destination directory with
  its mount path.\<close>

definition start_transfer :: "FileTransferTask \<Rightarrow> string \<Rightarrow> 'w \<Rightarrow> 'w tsys" where
  "start_transfer t srcObjPath w =
     (let c = AddTask (taskGroup t) None NewTaskGroupCoordinator;
          c = (if TaskType t = MoveTask then AppendPayload (taskGroup t) (Some (SrcPathToRemove srcObjPath)) c else c)
      in \<lparr>sysWorld = w, sysCoord = c, sysQueue = [t]\<rparr>)"

text \<open>\<open>transfer\<close>: within one storage the operation of the driver (\<open>inStorage\<close>, \<open>None\<close> when the driver does
  not have it), else a task for the manager.\<close>

datatype 'w transfer_outcome = NoStorage | InStorage 'w "terr option" | Started "'w tsys"

definition transfer ::
  "(string \<Rightarrow> (string \<times> string) option) \<Rightarrow> (bool \<Rightarrow> string \<Rightarrow> string \<Rightarrow> string \<Rightarrow> 'w \<Rightarrow> 'w \<times> terr option option) \<Rightarrow>
    taskType \<Rightarrow> string \<Rightarrow> string \<Rightarrow> 'w \<Rightarrow> 'w transfer_outcome" where
  "transfer resolve inStorage ty srcObjPath dstDirPath w =
     (case resolve srcObjPath of
        None \<Rightarrow> NoStorage
      | Some (srcStorage, srcObjActualPath) \<Rightarrow>
          (case resolve dstDirPath of
             None \<Rightarrow> NoStorage
           | Some (dstStorage, dstDirActualPath) \<Rightarrow>
               let t = \<lparr>TaskType = ty, SrcStorageMp = srcStorage, DstStorageMp = dstStorage, SrcActualPath = srcObjActualPath,
                     DstActualPath = dstDirActualPath, taskGroup = path_join dstStorage dstDirActualPath\<rparr>
               in if srcStorage = dstStorage
                  then (case inStorage (ty \<noteq> MoveTask) srcStorage srcObjActualPath dstDirActualPath w of
                          (w, Some e) \<Rightarrow> InStorage w e
                        | (w, None) \<Rightarrow> Started (start_transfer t srcObjPath w))
                  else Started (start_transfer t srcObjPath w)))"

text \<open>The manager runs the tasks in any order, may cancel them, and may retry a failed one before it gives it up.\<close>

definition run_task ::
  "'w op_api \<Rightarrow> (string \<Rightarrow> (string \<times> string) option) \<Rightarrow> nat option \<Rightarrow> nat \<Rightarrow> bool \<Rightarrow> 'w tsys \<Rightarrow> 'w tsys option" where
  "run_task api resolve cancel i retry sys =
     (let t = sysQueue sys ! i; g = taskGroup t in
      case RunWithNextTaskCallback api cancel t (sysWorld sys) of
        (w, e, ts, hook) \<Rightarrow>
          let c = AppendPayload g hook (sysCoord sys);
              c = fold (\<lambda>t c. AddTask g None c) ts c
          in if e \<noteq> None \<and> retry then Some \<lparr>sysWorld = w, sysCoord = c, sysQueue = sysQueue sys @ ts\<rparr>
             else let q = take i (sysQueue sys) @ drop (Suc i) (sysQueue sys) @ ts in
               case Done g (e = None) c of
                 (c, None) \<Rightarrow> Some \<lparr>sysWorld = w, sysCoord = c, sysQueue = q\<rparr>
               | (c, Some payloads) \<Rightarrow>
                   map_option (\<lambda>w. \<lparr>sysWorld = w, sysCoord = c, sysQueue = q\<rparr>) (HookAndRemove api resolve g payloads w))"

inductive task_step :: "'w op_api \<Rightarrow> (string \<Rightarrow> (string \<times> string) option) \<Rightarrow> 'w tsys \<Rightarrow> 'w tsys \<Rightarrow> bool"
  for api resolve where
  "i < length (sysQueue sys) \<Longrightarrow> run_task api resolve cancel i retry sys = Some sys' \<Longrightarrow> task_step api resolve sys sys'"

inductive_cases task_stepE: "task_step api resolve sys sys'"

section \<open>Storages as trees\<close>

text \<open>What is relied on of the operations: \<open>file w s q\<close> is the content of the file at the components
  \<open>q\<close> of storage \<open>s\<close>, \<open>dir w s q\<close> says that a directory is there.  Reading changes nothing and, when
  it succeeds, is right; a removal touches what is at and below its path, all of it when it succeeds; an
  upload creates the file with the content of the source.  When it fails it leaves what was there, or no
  file, or a file that is a remainder of the source: \<open>left c c'\<close> says that a failed upload of content \<open>c\<close> may
  leave content \<open>c'\<close> (nothing for drivers that clean up, a truncated file for the local driver).\<close>

definition good_name :: "string \<Rightarrow> bool" where
  "good_name n \<longleftrightarrow> name_ok n \<and> CHR 0x5C \<notin> set n"

type_synonym ('w, 'c) files = "'w \<Rightarrow> string \<Rightarrow> string list \<Rightarrow> 'c option"
type_synonym 'w dirs = "'w \<Rightarrow> string \<Rightarrow> string list \<Rightarrow> bool"

definition tree_laws :: "('w, 'c) files \<Rightarrow> 'w dirs \<Rightarrow> bool" where
  "tree_laws file dir \<longleftrightarrow> (\<forall>w s p. (file w s p \<noteq> None \<longrightarrow> \<not> dir w s p)
     \<and> (\<forall>n. file w s (p @ [n]) \<noteq> None \<or> dir w s (p @ [n]) \<longrightarrow> dir w s p))"

definition read_laws :: "'w op_api \<Rightarrow> ('w, 'c) files \<Rightarrow> 'w dirs \<Rightarrow> bool" where
  "read_laws api file dir \<longleftrightarrow> (\<forall>s p w w'.
     (\<forall>r. opGet api s p w = (w', r) \<longrightarrow> file w' = file w \<and> dir w' = dir w
        \<and> (\<forall>o1. r = Inr o1 \<longrightarrow> (fix_comps p \<noteq> [] \<longrightarrow> tName o1 = last (fix_comps p))
             \<and> (if tIsDir o1 then dir w s (fix_comps p) else file w s (fix_comps p) \<noteq> None)))
     \<and> (\<forall>r. opList api s p w = (w', r) \<longrightarrow> file w' = file w \<and> dir w' = dir w
        \<and> (\<forall>os. r = Inr os \<longrightarrow> dir w s (fix_comps p) \<and> (\<forall>o1 \<in> set os. good_name (tName o1))
             \<and> (\<forall>n. file w s (fix_comps p @ [n]) \<noteq> None \<or> dir w s (fix_comps p @ [n]) \<longrightarrow> n \<in> tName ` set os))))"

definition remove_law :: "'w op_api \<Rightarrow> ('w, 'c) files \<Rightarrow> 'w dirs \<Rightarrow> bool" where
  "remove_law api file dir \<longleftrightarrow> (\<forall>s p w w' e. opRemove api s p w = (w', e) \<longrightarrow>
     (\<forall>s' q. s' \<noteq> s \<or> \<not> prefix (fix_comps p) q \<longrightarrow> file w' s' q = file w s' q \<and> dir w' s' q = dir w s' q)
     \<and> (\<forall>q. file w' s q \<in> {None, file w s q} \<and> (dir w' s q \<longrightarrow> dir w s q))
     \<and> (e = None \<longrightarrow> (\<forall>q. prefix (fix_comps p) q \<longrightarrow> file w' s q = None \<and> \<not> dir w' s q)))"

definition upload_law :: "'w op_api \<Rightarrow> ('w, 'c) files \<Rightarrow> 'w dirs \<Rightarrow> ('c \<Rightarrow> 'c \<Rightarrow> bool) \<Rightarrow> bool" where
  "upload_law api file dir left \<longleftrightarrow> (\<forall>s p d dp w w' e. opUpload api s p d dp w = (w', e) \<longrightarrow>
     (\<forall>s' q. s' \<noteq> d \<or> q \<noteq> fix_comps dp @ [last (fix_comps p)] \<longrightarrow> file w' s' q = file w s' q)
     \<and> (\<forall>s' q. s' \<noteq> d \<longrightarrow> dir w' s' q = dir w s' q)
     \<and> (let q = fix_comps dp @ [last (fix_comps p)]
        in if e = None then file w' d q = file w s (fix_comps p)
           else file w' d q \<in> {None, file w d q} \<or> (\<exists>c c'. file w s (fix_comps p) = Some c \<and> file w' d q = Some c' \<and> left c c')))"

definition storage_laws :: "'w op_api \<Rightarrow> ('w, 'c) files \<Rightarrow> 'w dirs \<Rightarrow> ('c \<Rightarrow> 'c \<Rightarrow> bool) \<Rightarrow> bool" where
  "storage_laws api file dir left \<longleftrightarrow>
     tree_laws file dir \<and> read_laws api file dir \<and> remove_law api file dir \<and> upload_law api file dir left"

lemma tree_parent: "tree_laws file dir \<Longrightarrow> file w s (p @ [n]) \<noteq> None \<or> dir w s (p @ [n]) \<Longrightarrow> dir w s p"
  unfolding tree_laws_def by blast

lemma tree_below:
  assumes "tree_laws file dir" "file w s (p @ n # r) \<noteq> None \<or> dir w s (p @ n # r)"
  shows "file w s (p @ [n]) \<noteq> None \<or> dir w s (p @ [n])"
  using assms(2)
proof (induction r rule: rev_induct)
  case (snoc x r)
  then have "dir w s (p @ n # r)" using tree_parent[OF assms(1), of w s "p @ n # r" x] by simp
  then show ?case using snoc.IH by blast
qed simp

lemma tree_disjoint: "tree_laws file dir \<Longrightarrow> file w s p \<noteq> None \<Longrightarrow> \<not> dir w s p"
  by (auto simp: tree_laws_def)

lemma get_laws:
  assumes "read_laws api file dir" "opGet api s p w = (w', r)"
  shows "file w' = file w" "dir w' = dir w"
    "r = Inr o1 \<Longrightarrow> fix_comps p \<noteq> [] \<Longrightarrow> tName o1 = last (fix_comps p)"
    "r = Inr o1 \<Longrightarrow> if tIsDir o1 then dir w s (fix_comps p) else file w s (fix_comps p) \<noteq> None"
  using assms unfolding read_laws_def by blast+

lemma list_laws:
  assumes "read_laws api file dir" "opList api s p w = (w', r)"
  shows "file w' = file w" "dir w' = dir w"
    "r = Inr os \<Longrightarrow> dir w s (fix_comps p)" "r = Inr os \<Longrightarrow> o1 \<in> set os \<Longrightarrow> good_name (tName o1)"
    "r = Inr os \<Longrightarrow> file w s (fix_comps p @ [n]) \<noteq> None \<or> dir w s (fix_comps p @ [n]) \<Longrightarrow> n \<in> tName ` set os"
  using assms unfolding read_laws_def by blast+

lemma remove_laws:
  assumes "remove_law api file dir" "opRemove api s p w = (w', e)"
  shows "s' \<noteq> s \<or> \<not> prefix (fix_comps p) q \<Longrightarrow> file w' s' q = file w s' q \<and> dir w' s' q = dir w s' q"
    "file w' s q = None \<or> file w' s q = file w s q" "dir w' s q \<Longrightarrow> dir w s q"
    "e = None \<Longrightarrow> prefix (fix_comps p) q \<Longrightarrow> file w' s q = None \<and> \<not> dir w' s q"
  using assms unfolding remove_law_def by blast+

lemma join_good:
  assumes "FixAndCleanPath p = p" "good_name n"
  shows "fix_comps (path_join p n) = fix_comps p @ [n]" "FixAndCleanPath (path_join p n) = path_join p n"
proof -
  have n: "name_ok n" "CHR 0x5C \<notin> set n" using assms(2) by (auto simp: good_name_def)
  have p: "p = mk_abs (fix_comps p)" "normal_comps (fix_comps p)" using assms(1) fix_comps by metis+
  have j: "path_join p n = mk_abs (fix_comps p @ [n])" using path_join_name[OF p(2) n(1)] p(1) by simp
  have nb: "CHR 0x5C \<notin> set (mk_abs (fix_comps p @ [n]))"
    using n(2) FixAndCleanPath_no_backslash[of p] assms(1) p(1) by (auto simp: mk_abs_snoc)
  have nn: "normal_comps (fix_comps p @ [n])" using p(2) n(1) by simp
  show f: "FixAndCleanPath (path_join p n) = path_join p n" using FixAndCleanPath_mk_abs[OF nn nb] j by simp
  show "fix_comps (path_join p n) = fix_comps p @ [n]"
    using f j fix_comps[of "path_join p n"] mk_abs_inject[OF _ nn] by metis
qed

lemma set_mk_abs: "c \<in> set cs \<Longrightarrow> set c \<subseteq> set (mk_abs cs)"
proof (induction cs)
  case (Cons x cs)
  then show ?case by (cases cs) (auto simp: mk_abs_def)
qed simp

lemma last_good: "fix_comps p \<noteq> [] \<Longrightarrow> good_name (last (fix_comps p))"
  using fix_comps[of p] set_mk_abs[of "last (fix_comps p)" "fix_comps p"] FixAndCleanPath_no_backslash[of p]
  by (auto simp: good_name_def normal_comps_def)

section \<open>What a removal may take away\<close>

text \<open>\<open>moved\<close>: between two states the destination is the same, and the source has only lost files below
  \<open>S @ rest\<close> that the destination has, or has a remainder of, at the corresponding place.\<close>

definition moved :: "('w, 'c) files \<Rightarrow> 'w dirs \<Rightarrow> ('c \<Rightarrow> 'c \<Rightarrow> bool) \<Rightarrow> string \<Rightarrow> string \<Rightarrow> string list \<Rightarrow> string list \<Rightarrow> string list \<Rightarrow> 'w \<Rightarrow> 'w \<Rightarrow> bool" where
  "moved file dir left src dst S D rest w w' \<longleftrightarrow>
     (\<forall>q. file w' dst q = file w dst q)
     \<and> (\<forall>q. file w' src q = file w src q
          \<or> file w' src q = None \<and> (\<exists>r c c'. q = S @ rest @ r \<and> file w src q = Some c \<and> file w dst (D @ rest @ r) = Some c' \<and> (c' = c \<or> left c c')))
     \<and> (\<forall>q. dir w' src q \<longrightarrow> dir w src q)"

definition gone :: "('w, 'c) files \<Rightarrow> 'w dirs \<Rightarrow> string \<Rightarrow> string list \<Rightarrow> 'w \<Rightarrow> bool" where
  "gone file dir src p w \<longleftrightarrow> (\<forall>q. prefix p q \<longrightarrow> file w src q = None \<and> \<not> dir w src q)"

lemma moved_refl: "moved file dir left src dst S D rest w w"
  by (simp add: moved_def)

lemma moved_eq: "file w' = file w \<Longrightarrow> dir w' = dir w \<Longrightarrow> moved file dir left src dst S D rest w w'"
  by (simp add: moved_def)

lemma moved_trans:
  assumes "moved file dir left src dst S D rest w w1" "moved file dir left src dst S D rest w1 w2"
  shows "moved file dir left src dst S D rest w w2"
  using assms unfolding moved_def by metis

lemma moved_up: "moved file dir left src dst S D (rest @ r) w w' \<Longrightarrow> moved file dir left src dst S D rest w w'"
  unfolding moved_def by (metis append_assoc)

lemma moved_gone: "moved file dir left src dst S D rest w w' \<Longrightarrow> gone file dir src p w \<Longrightarrow> gone file dir src p w'"
  unfolding moved_def gone_def by metis

text \<open>What holds before a verification: the destination's files below \<open>D\<close> are copies or remainders of files of the
  source as it was, \<open>f0\<close> and \<open>d0\<close>; what is left of the source is as it was.\<close>

definition copies :: "('w, 'c) files \<Rightarrow> 'w dirs \<Rightarrow> ('c \<Rightarrow> 'c \<Rightarrow> bool) \<Rightarrow> string \<Rightarrow> string \<Rightarrow> string list \<Rightarrow> string list \<Rightarrow>
    (string list \<Rightarrow> 'c option) \<Rightarrow> (string list \<Rightarrow> bool) \<Rightarrow> 'w \<Rightarrow> bool" where
  "copies file dir left src dst S D f0 d0 w \<longleftrightarrow>
     (\<forall>r c'. file w dst (D @ r) = Some c' \<longrightarrow> (\<exists>c. f0 (S @ r) = Some c \<and> (c' = c \<or> left c c')))
     \<and> (\<forall>q. file w src q \<in> {None, f0 q} \<and> (dir w src q \<longrightarrow> d0 q)) \<and> (\<forall>q. f0 q \<noteq> None \<longrightarrow> \<not> d0 q)"

lemma copies_moved:
  "copies file dir left src dst S D f0 d0 w \<Longrightarrow> moved file dir left src dst S D rest w w' \<Longrightarrow> copies file dir left src dst S D f0 d0 w'"
  unfolding copies_def moved_def by (metis insert_iff)

lemma remove_file_moved:
  assumes L: "storage_laws api file dir left" and "src \<noteq> dst" "copies file dir left src dst S D f0 d0 w"
    and "file w dst (D @ rest) \<noteq> None" "fix_comps p = S @ rest" "opRemove api src p w = (w', e)"
  shows "moved file dir left src dst S D rest w w'" "e = None \<Longrightarrow> gone file dir src (S @ rest) w'"
proof -
  have T: "tree_laws file dir" and R: "remove_law api file dir" using L by (simp_all add: storage_laws_def)
  note rm = remove_laws[OF R assms(6)]
  obtain c' where c': "file w dst (D @ rest) = Some c'" using assms(4) by blast
  then obtain c where f0: "f0 (S @ rest) = Some c" and cc: "c' = c \<or> left c c'" using assms(3) unfolding copies_def by blast
  then have nd: "\<not> dir w src (S @ rest)" using assms(3) by (auto simp: copies_def)
  have child: "file w src (S @ rest @ n # r) = None" for n r
  proof (rule ccontr)
    assume "file w src (S @ rest @ n # r) \<noteq> None"
    then have "file w src ((S @ rest) @ n # r) \<noteq> None" by simp
    then have "file w src ((S @ rest) @ [n]) \<noteq> None \<or> dir w src ((S @ rest) @ [n])"
      using tree_below[OF T] by blast
    then show False using tree_parent[OF T] nd by blast
  qed
  have "file w' src q = file w src q \<or> file w' src q = None \<and> (\<exists>r c c'. q = S @ rest @ r \<and> file w src q = Some c \<and> file w dst (D @ rest @ r) = Some c' \<and> (c' = c \<or> left c c'))" for q
  proof (cases "prefix (S @ rest) q \<and> file w' src q \<noteq> file w src q")
    case True
    then obtain r where r: "q = S @ rest @ r" by (auto simp: prefix_def)
    have n: "file w' src q = None" "file w src q \<noteq> None" using rm(2)[of q] True by metis+
    have "r = []" using child n r by (cases r) auto
    moreover have "file w src q \<in> {None, f0 q}" using assms(3) unfolding copies_def by blast
    then have "file w src q = f0 q" using n(2) by blast
    ultimately show ?thesis using n r c' f0 cc by simp
  qed (use rm(1)[of src q] assms(5) in auto)
  then show "moved file dir left src dst S D rest w w'"
    using rm(1)[of dst] rm(3) assms(2) by (auto simp: moved_def)
  show "e = None \<Longrightarrow> gone file dir src (S @ rest) w'" using rm(4) assms(5) by (simp add: gone_def)
qed

lemma remove_empty_moved:
  assumes L: "storage_laws api file dir left" and "src \<noteq> dst"
    and "file w src (S @ rest) = None" "\<And>n. gone file dir src (S @ rest @ [n]) w"
    and "fix_comps p = S @ rest" "opRemove api src p w = (w', e)"
  shows "moved file dir left src dst S D rest w w'" "e = None \<Longrightarrow> gone file dir src (S @ rest) w'"
proof -
  have R: "remove_law api file dir" using L by (simp_all add: storage_laws_def)
  note rm = remove_laws[OF R assms(6)]
  have "file w src (S @ rest @ r) = None" for r
    using assms(3) assms(4)[of "hd r"] by (cases r) (auto simp: gone_def prefix_def)
  note none = this
  have "file w' src q = file w src q" for q
  proof (cases "prefix (S @ rest) q")
    case True
    then have "file w src q = None" using none by (auto simp: prefix_def)
    then show ?thesis using rm(2)[of q] by simp
  qed (use rm(1)[of src q] assms(5) in auto)
  then show "moved file dir left src dst S D rest w w'"
    using rm(1)[of dst] rm(3) assms(2) by (auto simp: moved_def)
  show "e = None \<Longrightarrow> gone file dir src (S @ rest) w'" using rm(4) assms(5) by (simp add: gone_def)
qed

text \<open>The verification, by induction on its computation.\<close>

fun vr_pre :: "('w, 'c) files \<Rightarrow> 'w dirs \<Rightarrow> string \<Rightarrow> string list \<Rightarrow> string list \<Rightarrow> string list \<Rightarrow> vr_call \<Rightarrow> 'w \<Rightarrow> bool" where
  "vr_pre file dir src S D rest (VerifyOne sp dp) w \<longleftrightarrow>
     FixAndCleanPath sp = sp \<and> fix_comps sp = S @ rest \<and> FixAndCleanPath dp = dp \<and> D @ rest \<noteq> [] \<and> S @ rest \<noteq> []
     \<and> fix_comps dp = butlast (D @ rest) \<and> last (D @ rest) = last (S @ rest)"
| "vr_pre file dir src S D rest (VerifyLoop sp dobj objs hasErr) w \<longleftrightarrow>
     FixAndCleanPath sp = sp \<and> fix_comps sp = S @ rest \<and> FixAndCleanPath dobj = dobj \<and> fix_comps dobj = D @ rest
     \<and> (\<forall>o1 \<in> set objs. good_name (tName o1)) \<and> file w src (S @ rest) = None
     \<and> (hasErr \<or> (\<forall>n. n \<in> tName ` set objs \<or> gone file dir src (S @ rest @ [n]) w))"

lemma not_gone: 
  assumes "tree_laws file dir" "\<not> gone file dir src (p @ [n]) w"
  shows "file w src (p @ [n]) \<noteq> None \<or> dir w src (p @ [n])"
proof -
  obtain r where "file w src (p @ n # r) \<noteq> None \<or> dir w src (p @ n # r)"
    using assms(2) by (auto simp: gone_def prefix_def)
  then show ?thesis using tree_below[OF assms(1)] by blast
qed

lemma verify_call_moved:
  assumes "verify_call api src dst c w = Some r" "storage_laws api file dir left" "src \<noteq> dst"
    and "copies file dir left src dst S D f0 d0 w" "vr_pre file dir src S D rest c w"
  shows "moved file dir left src dst S D rest w (fst r) \<and> (snd r = None \<longrightarrow> gone file dir src (S @ rest) (fst r))"
  using assms
proof (induction api src dst c w r arbitrary: rest rule: verify_call.raw_induct[rotated, consumes 1, case_names 1])
  case (1 vc api src dst c w r rest)
  have T: "tree_laws file dir" and RL: "read_laws api file dir" using 1(3) by (simp_all add: storage_laws_def)
  note ne = 1(4) and cp = 1(5)
  show ?case
  proof (cases c)
    case (VerifyOne sp dp)
    note pre = 1(6)[unfolded VerifyOne vr_pre.simps]
    obtain w1 g1 where g1: "opGet api src sp w = (w1, g1)" by fastforce
    note G1 = get_laws[OF RL g1]
    have m1: "moved file dir left src dst S D rest w w1" using G1(1,2) by (rule moved_eq)
    show ?thesis
    proof (cases g1)
      case (Inl e)
      then have "r = (w1, Some e)" using 1(2) VerifyOne g1 by simp
      then show ?thesis using m1 by simp
    next
      case (Inr so)
      have so: "tName so = last (S @ rest)" using G1(3)[OF Inr] pre by simp
      have "good_name (tName so)" using last_good[of sp] pre so by simp
      then have dop: "fix_comps (path_join dp (tName so)) = D @ rest" "FixAndCleanPath (path_join dp (tName so)) = path_join dp (tName so)"
        using join_good[of dp "tName so"] pre so by (metis append_butlast_last_id, metis)
      obtain w2 g2 where g2: "opGet api dst (path_join dp (tName so)) w1 = (w2, g2)" by fastforce
      note G2 = get_laws[OF RL g2]
      have m2: "moved file dir left src dst S D rest w w2" using G1(1,2) G2(1,2) by (intro moved_eq) simp_all
      note cp2 = copies_moved[OF cp m2]
      show ?thesis
      proof (cases g2)
        case (Inl e)
        then have "r = (w2, Some e)" using 1(2) VerifyOne g1 Inr g2 by simp
        then show ?thesis using m2 by simp
      next
        case do: (Inr do)
        show ?thesis
        proof (cases "tIsDir do")
          case False
          then have r: "opRemove api src sp w2 = (fst r, snd r)" using 1(2) VerifyOne g1 Inr g2 do by simp
          have "file w2 dst (D @ rest) \<noteq> None" using G2(4)[OF do] False dop(1) G2(1) by simp
          from remove_file_moved[OF 1(3) ne cp2 this _ r] pre show ?thesis using moved_trans[OF m2] by blast
        next
          case True
          obtain w3 l where l: "opList api src sp w2 = (w3, l)" by fastforce
          note Ls = list_laws[OF RL l]
          have m3: "moved file dir left src dst S D rest w w3" using G1(1,2) G2(1,2) Ls(1,2) by (intro moved_eq) simp_all
          show ?thesis
          proof (cases l)
            case (Inl e)
            then have "r = (w3, Some e)" using 1(2) VerifyOne g1 Inr g2 do True l by simp
            then show ?thesis using m3 by simp
          next
            case objs: (Inr objs)
            have call: "vc api src dst (VerifyLoop sp (path_join dp (tName so)) objs False) w3 = Some r"
              using 1(2) VerifyOne g1 Inr g2 do True l objs by simp
            have "dir w3 src (S @ rest)" using Ls(3)[OF objs] Ls(2) pre by simp
            then have nf: "file w3 src (S @ rest) = None" using tree_disjoint[OF T] by blast
            have "n \<in> tName ` set objs \<or> gone file dir src (S @ rest @ [n]) w3" for n
              using Ls(5)[OF objs, of n] not_gone[OF T, of src "S @ rest" n w3] pre Ls(1,2) by auto
            then have "vr_pre file dir src S D rest (VerifyLoop sp (path_join dp (tName so)) objs False) w3"
              using pre dop nf Ls(4)[OF objs] by simp
            from 1(1)[OF call 1(3) ne copies_moved[OF cp m3] this] show ?thesis using moved_trans[OF m3] by blast
          qed
        qed
      qed
    qed
  next
    case (VerifyLoop sp dobj objs hasErr)
    note pre = 1(6)[unfolded VerifyLoop vr_pre.simps]
    show ?thesis
    proof (cases objs)
      case Nil
      show ?thesis
      proof (cases hasErr)
        case True
        then show ?thesis using 1(2) VerifyLoop Nil moved_refl by fastforce
      next
        case False
        then have "opRemove api src sp w = (fst r, snd r)" using 1(2) VerifyLoop Nil by simp
        from remove_empty_moved[OF 1(3) ne _ _ _ this] show ?thesis using pre Nil False by auto
      qed
    next
      case (Cons o1 os)
      obtain r1 where r1: "vc api src dst (VerifyOne (path_join sp (tName o1)) dobj) w = Some r1"
        "vc api src dst (VerifyLoop sp dobj os (hasErr \<or> snd r1 \<noteq> None)) (fst r1) = Some r"
        using 1(2) VerifyLoop Cons by (auto simp: bind_eq_Some_conv split: prod.splits)
      have good: "good_name (tName o1)" using pre Cons by simp
      have "vr_pre file dir src S D (rest @ [tName o1]) (VerifyOne (path_join sp (tName o1)) dobj) w"
        using pre join_good[OF _ good, of sp] by (simp flip: append_assoc)
      note I1 = 1(1)[OF r1(1) 1(3) ne cp this]
      have m1: "moved file dir left src dst S D rest w (fst r1)" using conjunct1[OF I1] by (rule moved_up)
      have "file (fst r1) src (S @ rest) = None" using m1 pre unfolding moved_def by metis
      moreover have "(hasErr \<or> snd r1 \<noteq> None) \<or> (\<forall>n. n \<in> tName ` set os \<or> gone file dir src (S @ rest @ [n]) (fst r1))"
        using pre Cons I1 moved_gone[OF m1] by auto
      ultimately have "vr_pre file dir src S D rest (VerifyLoop sp dobj os (hasErr \<or> snd r1 \<noteq> None)) (fst r1)"
        using pre Cons by simp
      from 1(1)[OF r1(2) 1(3) ne copies_moved[OF cp m1] this] show ?thesis using moved_trans[OF m1] by blast
    qed
  qed
qed

section \<open>The verification ends\<close>

definition bounded :: "('w, 'c) files \<Rightarrow> 'w dirs \<Rightarrow> string \<Rightarrow> nat \<Rightarrow> 'w \<Rightarrow> bool" where
  "bounded file dir s h w \<longleftrightarrow> (\<forall>q. file w s q \<noteq> None \<or> dir w s q \<longrightarrow> length q \<le> h)"

lemma bounded_eq: "file w' = file w \<Longrightarrow> dir w' = dir w \<Longrightarrow> bounded file dir s h w \<Longrightarrow> bounded file dir s h w'"
  by (simp add: bounded_def)

lemma bounded_remove:
  assumes "remove_law api file dir" "opRemove api s p w = (w', e)" "bounded file dir s h w"
  shows "bounded file dir s h w'"
  using remove_laws(2,3)[OF assms(1,2)] assms(3) unfolding bounded_def by metis

lemma verify_loop_returns:
  assumes "storage_laws api file dir left" "FixAndCleanPath sp = sp" "\<forall>o1 \<in> set objs. good_name (tName o1)" "bounded file dir src h w"
    and "\<And>p dp w. FixAndCleanPath p = p \<Longrightarrow> length (fix_comps p) = Suc (length (fix_comps sp)) \<Longrightarrow> bounded file dir src h w \<Longrightarrow>
      \<exists>r. verify_call api src dst (VerifyOne p dp) w = Some r \<and> bounded file dir src h (fst r)"
  shows "\<exists>r. verify_call api src dst (VerifyLoop sp dobj objs hasErr) w = Some r \<and> bounded file dir src h (fst r)"
  using assms(3,4)
proof (induction objs arbitrary: hasErr w)
  case Nil
  obtain w1 e where "opRemove api src sp w = (w1, e)" by fastforce
  then show ?case
    using Nil bounded_remove assms(1) by (subst verify_call.simps) (fastforce simp: storage_laws_def)
next
  case (Cons o1 os)
  have g: "good_name (tName o1)" using Cons.prems(1) by simp
  obtain r where r: "verify_call api src dst (VerifyOne (path_join sp (tName o1)) dobj) w = Some r" "bounded file dir src h (fst r)"
    using assms(5)[OF _ _ Cons.prems(2)] join_good[OF assms(2) g] by fastforce
  have "\<exists>r2. verify_call api src dst (VerifyLoop sp dobj os (hasErr \<or> snd r \<noteq> None)) (fst r) = Some r2 \<and> bounded file dir src h (fst r2)"
    by (rule Cons.IH) (use Cons.prems r in auto)
  then show ?case using r(1) by (subst verify_call.simps) (simp add: split_beta)
qed

lemma verify_one_returns:
  assumes "storage_laws api file dir left" "FixAndCleanPath sp = sp" "bounded file dir src h w"
  shows "\<exists>r. verify_call api src dst (VerifyOne sp dp) w = Some r \<and> bounded file dir src h (fst r)"
  using assms(2,3)
proof (induction "Suc h - length (fix_comps sp)" arbitrary: sp dp w rule: less_induct)
  case less
  have RL: "read_laws api file dir" and RM: "remove_law api file dir" using assms(1) by (simp_all add: storage_laws_def)
  obtain w1 g1 where g1: "opGet api src sp w = (w1, g1)" by fastforce
  note b1 = bounded_eq[OF get_laws(1,2)[OF RL g1] less(3)]
  show ?case
  proof (cases g1)
    case (Inl e)
    then show ?thesis using g1 b1 by (subst verify_call.simps) simp
  next
    case so: (Inr so)
    have short: "length (fix_comps sp) \<le> h"
      using get_laws(4)[OF RL g1 so] less(3) unfolding bounded_def by metis
    obtain w2 g2 where g2: "opGet api dst (path_join dp (tName so)) w1 = (w2, g2)" by fastforce
    note b2 = bounded_eq[OF get_laws(1,2)[OF RL g2] b1]
    obtain w3 l where l: "opList api src sp w2 = (w3, l)" by fastforce
    note b3 = bounded_eq[OF list_laws(1,2)[OF RL l] b2]
    obtain w4 e where rm: "opRemove api src sp w2 = (w4, e)" by fastforce
    note b4 = bounded_remove[OF RM rm b2]
    have "\<exists>r. verify_call api src dst (VerifyLoop sp dobj objs False) w3 = Some r \<and> bounded file dir src h (fst r)"
      if "l = Inr objs" for objs dobj
      by (rule verify_loop_returns[OF assms(1) less(2) _ b3])
        (use less(1) short list_laws(4)[OF RL l that] in \<open>simp_all add: diff_less_mono2\<close>)
    then show ?thesis
      using g1 so g2 l rm b2 b3 b4 by (subst verify_call.simps) (auto split: sum.split)
  qed
qed

text \<open>The removal that ends a move returns, whatever the operations answer, as long as the source is a
  tree of bounded depth.\<close>

theorem verifyAndRemove_returns:
  assumes "storage_laws api file dir left" "FixAndCleanPath srcPath = srcPath"
    and "\<forall>q. file w src q \<noteq> None \<or> dir w src q \<longrightarrow> length q \<le> h"
  shows "verifyAndRemove api src dst srcPath dstPath w \<noteq> None"
  using verify_one_returns[OF assms(1,2), of src h w dst dstPath] assms(3) by (auto simp: verifyAndRemove_def bounded_def)

section \<open>A move between storages\<close>

definition task_ok :: "string \<Rightarrow> string \<Rightarrow> string list \<Rightarrow> string list \<Rightarrow> string \<Rightarrow> FileTransferTask \<Rightarrow> bool" where
  "task_ok src dst S D g t \<longleftrightarrow> TaskType t = MoveTask \<and> SrcStorageMp t = src \<and> DstStorageMp t = dst \<and> taskGroup t = g
     \<and> FixAndCleanPath (SrcActualPath t) = SrcActualPath t \<and> FixAndCleanPath (DstActualPath t) = DstActualPath t
     \<and> (\<exists>rest. fix_comps (SrcActualPath t) = S @ rest \<and> fix_comps (DstActualPath t) = butlast (D @ rest))"

lemma last_same: "S \<noteq> [] \<Longrightarrow> D \<noteq> [] \<Longrightarrow> last S = last D \<Longrightarrow> butlast (D @ rest) @ [last (S @ rest)] = D @ rest"
  by (cases rest rule: rev_cases) (simp_all add: butlast_append)

lemma next_tasks_ok:
  assumes "task_ok src dst S D g t" "fix_comps (SrcActualPath t) = S @ rest" "\<forall>o1 \<in> set objs. good_name (tName o1)"
    and "FixAndCleanPath p = p" "fix_comps p = D @ rest"
  shows "\<forall>t' \<in> set (next_tasks t p ex objs). task_ok src dst S D g t'"
proof
  fix t' assume "t' \<in> set (next_tasks t p ex objs)"
  then obtain o1 where o1: "o1 \<in> set objs" "t' = t\<lparr>SrcActualPath := path_join (SrcActualPath t) (tName o1), DstActualPath := p\<rparr>"
    by (auto simp: next_tasks_def)
  have c: "FixAndCleanPath (SrcActualPath t) = SrcActualPath t" using assms(1) by (simp add: task_ok_def)
  have g: "good_name (tName o1)" using assms(3) o1(1) by blast
  have "fix_comps (path_join (SrcActualPath t) (tName o1)) = S @ (rest @ [tName o1])" "D @ rest = butlast (D @ (rest @ [tName o1]))"
    using join_good(1)[OF c g] assms(2) by (simp_all flip: append_assoc)
  then show "task_ok src dst S D g t'"
    using assms(1,4,5) join_good(2)[OF c g] o1(2) by (auto simp: task_ok_def)
qed

lemma hand_on_ok:
  assumes "task_ok src dst S D g t" "fix_comps (SrcActualPath t) = S @ rest" "\<forall>o1 \<in> set objs. good_name (tName o1)"
    and "FixAndCleanPath p = p" "fix_comps p = D @ rest"
  shows "\<forall>t' \<in> set (snd (hand_on t p ex objs cancel)). task_ok src dst S D g t'"
  using next_tasks_ok[OF assms(1,2) _ assms(4,5)] assms(3)
  by (auto simp: hand_on_def dest: in_set_takeD split: option.split)

lemma run_ok:
  assumes L: "storage_laws api file dir left" and ne: "src \<noteq> dst" and "S \<noteq> []" "D \<noteq> []" "last S = last D"
    and t: "task_ok src dst S D g t"
    and inv: "copies file dir left src dst S D f0 d0 w" "file w src = f0" "dir w src = d0"
    and run: "RunWithNextTaskCallback api cancel t w = (w', e, ts, hook)"
  shows "copies file dir left src dst S D f0 d0 w' \<and> file w' src = f0 \<and> dir w' src = d0
     \<and> (\<forall>t' \<in> set ts. task_ok src dst S D g t') \<and> (\<forall>p. hook = Some p \<longrightarrow> (\<exists>q. p = DstPathToHook q))"
proof -
  have RL: "read_laws api file dir" and U: "upload_law api file dir left" using L by (simp_all add: storage_laws_def)
  obtain rest where rest: "fix_comps (SrcActualPath t) = S @ rest" "fix_comps (DstActualPath t) = butlast (D @ rest)"
    and tt: "TaskType t = MoveTask" "SrcStorageMp t = src" "DstStorageMp t = dst" "FixAndCleanPath (DstActualPath t) = DstActualPath t"
    using t by (auto simp: task_ok_def)
  have same: "copies file dir left src dst S D f0 d0 w1 \<and> file w1 src = f0 \<and> dir w1 src = d0" if "file w1 = file w" "dir w1 = dir w" for w1
    using inv that by (simp add: copies_def)
  obtain w1 g1 where g1: "opGet api src (SrcActualPath t) w = (w1, g1)" by fastforce
  note G = get_laws[OF RL g1]
  note s1 = same[OF G(1,2)]
  show ?thesis
  proof (cases g1)
    case (Inl x)
    then show ?thesis using run g1 s1 tt by (auto simp: RunWithNextTaskCallback_def)
  next
    case so: (Inr so)
    have nm: "tName so = last (S @ rest)" using G(3)[OF so] rest(1) assms(3) by simp
    show ?thesis
    proof (cases "tIsDir so")
      case True
      obtain w2 l where l: "opList api src (SrcActualPath t) w1 = (w2, l)" by fastforce
      note Ls = list_laws[OF RL l]
      have "file w2 = file w" "dir w2 = dir w" using Ls(1,2) G(1,2) by simp_all
      note s2 = same[OF this]
      show ?thesis
      proof (cases l)
        case (Inl x)
        then show ?thesis using run g1 so True l s2 tt by (auto simp: RunWithNextTaskCallback_def)
      next
        case objs: (Inr objs)
        have "good_name (tName so)" using last_good[of "SrcActualPath t"] rest(1) nm assms(3) by simp
        note j = join_good[OF tt(4) this]
        have "fix_comps (path_join (DstActualPath t) (tName so)) = D @ rest"
          using j(1) rest(2) nm last_same[OF assms(3-5)] by simp
        then have "\<forall>t' \<in> set (snd (hand_on t (path_join (DstActualPath t) (tName so)) [] objs cancel)). task_ok src dst S D g t'"
          using hand_on_ok[OF t rest(1) _ j(2)] Ls(4)[OF objs] by blast
        then show ?thesis using run g1 so True l objs s2 tt by (auto simp: RunWithNextTaskCallback_def Let_def split: prod.splits)
      qed
    next
      case False
      obtain w2 e2 where u: "opUpload api src (SrcActualPath t) dst (DstActualPath t) w1 = (w2, e2)" by fastforce
      have q: "fix_comps (DstActualPath t) @ [last (fix_comps (SrcActualPath t))] = D @ rest"
        using rest last_same[OF assms(3-5)] by simp
      note ul = U[unfolded upload_law_def, rule_format, OF u, unfolded q Let_def]
      have f: "file w2 s' q' = file w s' q'" if "s' \<noteq> dst \<or> q' \<noteq> D @ rest" for s' q' using ul that G(1) by simp
      have d: "dir w2 src = dir w src" using ul ne G(2) by (auto simp: fun_eq_iff)
      have cp: "\<exists>c. f0 (S @ r) = Some c \<and> (c' = c \<or> left c c')" if "file w dst (D @ r) = Some c'" for r c'
        using inv(1) that unfolding copies_def by blast
      have "file w2 dst (D @ rest) \<in> {None, file w dst (D @ rest), file w src (S @ rest)}
          \<or> (\<exists>c c'. file w src (S @ rest) = Some c \<and> file w2 dst (D @ rest) = Some c' \<and> left c c')"
        using ul G(1) rest(1) by (auto split: if_splits)
      note upl = this
      have "\<exists>c. f0 (S @ r) = Some c \<and> (c' = c \<or> left c c')" if x: "file w2 dst (D @ r) = Some c'" for r c'
      proof (cases "r = rest")
        case True
        with x upl consider "file w dst (D @ rest) = Some c'" | "file w src (S @ rest) = Some c'"
          | c where "file w src (S @ rest) = Some c" "left c c'" by auto
        then show ?thesis using cp[of rest c'] inv(2) True by cases auto
      next
        case False
        then show ?thesis using cp[of r c'] x f[of dst "D @ r"] by simp
      qed
      moreover have "file w2 src = f0" using f[of src] ne inv(2) by auto
      ultimately have "copies file dir left src dst S D f0 d0 w2" using inv d by (simp add: copies_def)
      then show ?thesis
        using run g1 so False u tt d inv(3) \<open>file w2 src = f0\<close> by (auto simp: RunWithNextTaskCallback_def)
    qed
  qed
qed

text \<open>The coordinator counts the tasks of the group and keeps its payloads until the last is done.\<close>

definition counts :: "string \<Rightarrow> nat \<Rightarrow> payload list \<Rightarrow> coordinator \<Rightarrow> bool" where
  "counts g n ps c \<longleftrightarrow> (if n = 0 then groupStates c g = None else \<exists>st. groupStates c g = Some st \<and> pending st = n) \<and> groupPayloads c g = ps"

lemma counts_AppendPayload: "counts g n ps c \<Longrightarrow> counts g n (ps @ (case p of None \<Rightarrow> [] | Some x \<Rightarrow> [x])) (AppendPayload g p c)"
  by (auto simp: counts_def AppendPayload_def split: option.split)

lemma counts_AddTask: "counts g n ps c \<Longrightarrow> counts g (Suc n) ps (AddTask g None c)"
  by (auto simp: counts_def AddTask_def Let_def split: option.splits if_splits)

lemma counts_AddTasks: "counts g n ps c \<Longrightarrow> counts g (n + length ts) ps (fold (\<lambda>t. AddTask g None) ts c)"
proof (induction ts arbitrary: n c)
  case (Cons t ts)
  then show ?case using Cons.IH[OF counts_AddTask[OF Cons.prems]] by simp
qed simp

lemma counts_Done:
  assumes "counts g (Suc n) ps c" "Done g b c = (c', r)"
  shows "counts g n (if n = 0 then [] else ps) c'" "r = Some ps' \<Longrightarrow> n = 0 \<and> ps' = ps"
  using assms by (auto simp: counts_def Done_def Let_def split: if_splits)

section \<open>No file is lost\<close>

definition kept :: "('w, 'c) files \<Rightarrow> ('c \<Rightarrow> 'c \<Rightarrow> bool) \<Rightarrow> string \<Rightarrow> string \<Rightarrow> string list \<Rightarrow> string list \<Rightarrow> (string list \<Rightarrow> 'c option) \<Rightarrow> 'w \<Rightarrow> bool" where
  "kept file left src dst S D f0 w \<longleftrightarrow>
     (\<forall>q c. f0 q = Some c \<longrightarrow> file w src q = Some c \<or> (\<exists>r c'. q = S @ r \<and> file w dst (D @ r) = Some c' \<and> (c' = c \<or> left c c')))"

lemma kept_moved:
  assumes "kept file left src dst S D f0 w" "moved file dir left src dst S D rest w w'"
  shows "kept file left src dst S D f0 w'"
  unfolding kept_def
proof (intro allI impI)
  fix q c assume f: "f0 q = Some c"
  have dst: "file w' dst = file w dst" using assms(2) unfolding moved_def by (simp add: fun_eq_iff)
  have "file w src q = Some c \<or> (\<exists>r c'. q = S @ r \<and> file w dst (D @ r) = Some c' \<and> (c' = c \<or> left c c'))"
    using assms(1)[unfolded kept_def, rule_format, OF f] .
  then show "file w' src q = Some c \<or> (\<exists>r c'. q = S @ r \<and> file w' dst (D @ r) = Some c' \<and> (c' = c \<or> left c c'))"
  proof
    assume 1: "file w src q = Some c"
    have "file w' src q = file w src q \<or> (\<exists>r c c'. q = S @ rest @ r \<and> file w src q = Some c \<and> file w dst (D @ rest @ r) = Some c' \<and> (c' = c \<or> left c c'))"
      using conjunct1[OF conjunct2[OF assms(2)[unfolded moved_def]], THEN spec, of q] by blast
    then show ?thesis
    proof
      assume "file w' src q = file w src q"
      then show ?thesis using 1 by simp
    next
      assume "\<exists>r c c'. q = S @ rest @ r \<and> file w src q = Some c \<and> file w dst (D @ rest @ r) = Some c' \<and> (c' = c \<or> left c c')"
      then obtain r c' where "q = S @ (rest @ r)" "file w dst (D @ (rest @ r)) = Some c'" "c' = c \<or> left c c'" using 1 by auto
      then show ?thesis unfolding dst by blast
    qed
  qed (simp add: dst)
qed

lemma remove_payloads_hooks: "\<forall>p \<in> set ps. \<exists>q. p = DstPathToHook q \<Longrightarrow> remove_payloads api resolve d dp ps w = Some w"
  by (induction ps) auto

definition sys_inv :: "('w, 'c) files \<Rightarrow> 'w dirs \<Rightarrow> ('c \<Rightarrow> 'c \<Rightarrow> bool) \<Rightarrow> string \<Rightarrow> string \<Rightarrow> string list \<Rightarrow> string list \<Rightarrow> string \<Rightarrow> string \<Rightarrow>
    (string list \<Rightarrow> 'c option) \<Rightarrow> (string list \<Rightarrow> bool) \<Rightarrow> 'w tsys \<Rightarrow> bool" where
  "sys_inv file dir left src dst S D g srcObjPath f0 d0 sys \<longleftrightarrow>
     kept file left src dst S D f0 (sysWorld sys)
     \<and> (sysQueue sys \<noteq> [] \<longrightarrow>
          copies file dir left src dst S D f0 d0 (sysWorld sys) \<and> file (sysWorld sys) src = f0 \<and> dir (sysWorld sys) src = d0
          \<and> (\<forall>t \<in> set (sysQueue sys). task_ok src dst S D g t)
          \<and> (\<exists>hs. counts g (length (sysQueue sys)) (SrcPathToRemove srcObjPath # map DstPathToHook hs) (sysCoord sys)))"

lemma kept_start:
  assumes "file w src = f0"
  shows "kept file left src dst S D f0 w"
  using assms by (simp add: kept_def)

lemma HookAndRemove_kept:
  assumes L: "storage_laws api file dir left" and ne: "src \<noteq> dst" and "S \<noteq> []" "D \<noteq> []" "last S = last D"
    and "resolve g = Some (dst, dp)" "FixAndCleanPath dp = dp" "fix_comps dp = butlast D"
    and "resolve srcObjPath = Some (src, sp)" "FixAndCleanPath sp = sp" "fix_comps sp = S"
    and "copies file dir left src dst S D f0 d0 w" "kept file left src dst S D f0 w"
    and "HookAndRemove api resolve g (SrcPathToRemove srcObjPath # map DstPathToHook hs) w = Some w'"
  shows "kept file left src dst S D f0 w'"
proof -
  obtain r where r: "verifyAndRemove api src dst sp dp w = Some r" "w' = fst r"
    using assms(6,9,14) by (auto simp: HookAndRemove_def remove_payloads_hooks split: option.splits prod.splits)
  have "vr_pre file dir src S D [] (VerifyOne sp dp) w" using assms(3-5,7,8,10,11) by simp
  from verify_call_moved[OF _ L ne assms(12) this] r have "moved file dir left src dst S D [] w w'"
    by (simp add: verifyAndRemove_def)
  then show ?thesis using kept_moved[OF assms(13)] by blast
qed

lemma task_step_inv:
  assumes L: "storage_laws api file dir left" and ne: "src \<noteq> dst" and "S \<noteq> []" "D \<noteq> []" "last S = last D"
    and res: "resolve g = Some (dst, dp)" "FixAndCleanPath dp = dp" "fix_comps dp = butlast D"
      "resolve srcObjPath = Some (src, sp)" "FixAndCleanPath sp = sp" "fix_comps sp = S"
    and "task_step api resolve sys sys'" "sys_inv file dir left src dst S D g srcObjPath f0 d0 sys"
  shows "sys_inv file dir left src dst S D g srcObjPath f0 d0 sys'"
proof -
  obtain i retry cancel where i: "i < length (sysQueue sys)" and run: "run_task api resolve cancel i retry sys = Some sys'"
    using assms(12) by (rule task_stepE)
  define t where "t = sysQueue sys ! i"
  let ?q = "sysQueue sys" and ?w = "sysWorld sys"
  have t: "t \<in> set ?q" using i by (simp add: t_def)
  obtain hs where inv: "copies file dir left src dst S D f0 d0 ?w" "file ?w src = f0" "dir ?w src = d0"
      "\<forall>t \<in> set ?q. task_ok src dst S D g t" "counts g (length ?q) (SrcPathToRemove srcObjPath # map DstPathToHook hs) (sysCoord sys)"
    using assms(13) t by (auto simp: sys_inv_def)
  have tg: "taskGroup t = g" using inv(4) t by (auto simp: task_ok_def)
  obtain w e ts hook where R: "RunWithNextTaskCallback api cancel t ?w = (w, e, ts, hook)" using prod_cases4 by blast
  have ok: "copies file dir left src dst S D f0 d0 w" "file w src = f0" "dir w src = d0" "\<forall>t' \<in> set ts. task_ok src dst S D g t'"
      "\<forall>p. hook = Some p \<longrightarrow> (\<exists>q. p = DstPathToHook q)"
    using run_ok[OF L ne assms(3-5) _ inv(1-3) R] inv(4) t by blast+
  obtain hs' where hs': "SrcPathToRemove srcObjPath # map DstPathToHook hs @ (case hook of None \<Rightarrow> [] | Some x \<Rightarrow> [x])
      = SrcPathToRemove srcObjPath # map DstPathToHook hs'"
  proof (cases hook)
    case (Some p)
    then obtain q where "p = DstPathToHook q" using ok(5) by blast
    then show ?thesis using that[of "hs @ [q]"] Some by simp
  qed (use that in simp)
  define c where "c = fold (\<lambda>t. AddTask g None) ts (AppendPayload g hook (sysCoord sys))"
  have c: "counts g (length ?q + length ts) (SrcPathToRemove srcObjPath # map DstPathToHook hs') c"
    using counts_AddTasks[OF counts_AppendPayload[OF inv(5), of hook], of ts] hs' by (simp add: c_def)
  have k: "kept file left src dst S D f0 w" using ok(2) by (simp add: kept_def)
  show ?thesis
  proof (cases "e \<noteq> None \<and> retry")
    case True
    then have "sys' = \<lparr>sysWorld = w, sysCoord = c, sysQueue = ?q @ ts\<rparr>"
      using run R tg by (simp add: run_task_def t_def[symmetric] c_def Let_def)
    then show ?thesis using k ok inv(4) c by (auto simp: sys_inv_def)
  next
    case False
    define q where "q = take i ?q @ drop (Suc i) ?q @ ts"
    have len: "length ?q + length ts = Suc (length q)" using i by (simp add: q_def)
    obtain c' r where D: "Done g (e = None) c = (c', r)" by fastforce
    note cD = counts_Done[OF c[unfolded len] D]
    have tq: "\<forall>t \<in> set q. task_ok src dst S D g t" using inv(4) ok(4) by (auto simp: q_def dest: in_set_takeD in_set_dropD)
    have run': "sys' = \<lparr>sysWorld = w', sysCoord = c', sysQueue = q\<rparr>"
      if "r = None \<and> w' = w \<or> (\<exists>ps. r = Some ps \<and> HookAndRemove api resolve g ps w = Some w')" for w'
      using that run[unfolded run_task_def, folded t_def] R tg False D c_def q_def
      by (simp add: Let_def split: if_splits) auto
    show ?thesis
    proof (cases r)
      case None
      then have "sys' = \<lparr>sysWorld = w, sysCoord = c', sysQueue = q\<rparr>" using run' by blast
      then show ?thesis using k ok tq cD(1) by (auto simp: sys_inv_def)
    next
      case (Some ps)
      then have q: "q = []" "ps = SrcPathToRemove srcObjPath # map DstPathToHook hs'" using cD(2) by auto
      obtain w' where w': "HookAndRemove api resolve g ps w = Some w'"
        using run R tg False D Some
        by (auto simp: run_task_def t_def[symmetric] c_def[symmetric] Let_def split: if_splits)
      have "kept file left src dst S D f0 w'"
        using HookAndRemove_kept[OF L ne assms(3-5) res ok(1) k] w' q(2) by blast
      moreover have "sys' = \<lparr>sysWorld = w', sysCoord = c', sysQueue = q\<rparr>" using run'[of w'] Some w' by blast
      ultimately show ?thesis using q(1) by (simp add: sys_inv_def)
    qed
  qed
qed

lemma start_transfer_simps [simp]:
  "sysWorld (start_transfer t p w) = w" "sysQueue (start_transfer t p w) = [t]"
  by (simp_all add: start_transfer_def Let_def)

text \<open>C25: A move of a path between two storages, to a place where nothing was when it started, loses no
  file.  Whatever the order in which its tasks run, whichever operations fail and whichever tasks are
  cancelled, retried or given up, every file of the source is, with its content, still in the source or at the
  corresponding place of the destination; or else an upload of it failed and what that upload \<open>left\<close> is at
  this place, which a driver that removes what a failed upload leaves excludes.\<close>

theorem move_keeps_files_or_failed_uploads:
  assumes "storage_laws api file dir left" "src \<noteq> dst"
    and "TaskType t = MoveTask" "SrcStorageMp t = src" "DstStorageMp t = dst"
    and "FixAndCleanPath (SrcActualPath t) = SrcActualPath t" "FixAndCleanPath (DstActualPath t) = DstActualPath t"
    and "fix_comps (SrcActualPath t) = S" "S \<noteq> []"
    and "resolve (taskGroup t) = Some (dst, DstActualPath t)" "resolve srcObjPath = Some (src, SrcActualPath t)"
    and "\<forall>r. file w dst (fix_comps (DstActualPath t) @ last S # r) = None"
    and "(task_step api resolve)\<^sup>*\<^sup>* (start_transfer t srcObjPath w) sys"
    and "file w src q = Some c"
  shows "file (sysWorld sys) src q = Some c
    \<or> (\<exists>r c'. q = S @ r \<and> file (sysWorld sys) dst (fix_comps (DstActualPath t) @ last S # r) = Some c' \<and> (c' = c \<or> left c c'))"
proof -
  let ?D = "fix_comps (DstActualPath t) @ [last S]"
  have "counts (taskGroup t) 1 [SrcPathToRemove srcObjPath] (sysCoord (start_transfer t srcObjPath w))"
    using assms(3) by (simp add: counts_def start_transfer_def AppendPayload_def AddTask_def NewTaskGroupCoordinator_def)
  then have "\<exists>hs. counts (taskGroup t) (Suc 0) (SrcPathToRemove srcObjPath # map DstPathToHook hs) (sysCoord (start_transfer t srcObjPath w))"
    by (intro exI[of _ "[]"]) simp
  moreover have "task_ok src dst S ?D (taskGroup t) t" using assms(3-8) by (auto simp: task_ok_def intro!: exI[of _ "[]"])
  moreover have "copies file dir left src dst S ?D (file w src) (dir w src) w"
    using assms(1,12) by (auto simp: copies_def storage_laws_def tree_laws_def)
  ultimately have start: "sys_inv file dir left src dst S ?D (taskGroup t) srcObjPath (file w src) (dir w src) (start_transfer t srcObjPath w)"
    by (simp add: sys_inv_def kept_def)
  have "sys_inv file dir left src dst S ?D (taskGroup t) srcObjPath (file w src) (dir w src) sys"
    using assms(13) start
  proof (induction rule: rtranclp_induct)
    case (step s1 s2)
    then show ?case using task_step_inv[OF assms(1,2,9) _ _ assms(10,7) _ assms(11,6,8) step.hyps(2)] by simp
  qed
  then show ?thesis using assms(14) by (auto simp: sys_inv_def kept_def)
qed

end
