(* ===== verification/Storage_Trees.thy ===== *)
theory Storage_Trees imports Storage_Transfer begin

text \<open>
  Two storages held in memory, on which the laws of \<open>Storage_Transfer\<close> hold: a world is a list of entries
  (storage, components, content or directory), and only entries whose parents are directories are
  visible.  On them the properties of a move are run, and the cases in which a move loses data.
\<close>

section \<open>Entries\<close>

type_synonym entries = "(string \<times> string list \<times> string option) list"

definition ent :: "entries \<Rightarrow> string \<Rightarrow> string list \<Rightarrow> string option option" where
  "ent w s q = map_of (map (\<lambda>(s, q, c). ((s, q), c)) w) (s, q)"

definition tdir :: "entries \<Rightarrow> string \<Rightarrow> string list \<Rightarrow> bool" where
  "tdir w s q \<longleftrightarrow> list_all (\<lambda>p. ent w s p = Some None) (prefixes q) \<and> list_all good_name q"

definition tfile :: "entries \<Rightarrow> string \<Rightarrow> string list \<Rightarrow> string option" where
  "tfile w s q = (if (q = [] \<or> tdir w s (butlast q)) \<and> list_all good_name q
     then (case ent w s q of Some (Some c) \<Rightarrow> Some c | _ \<Rightarrow> None) else None)"

definition purge :: "string \<Rightarrow> string list \<Rightarrow> entries \<Rightarrow> entries" where
  "purge s q w = filter (\<lambda>(s', p, c). \<not> (s' = s \<and> prefix q p)) w"

definition put :: "string \<Rightarrow> string list \<Rightarrow> string option \<Rightarrow> entries \<Rightarrow> entries" where
  "put s q c w = (s, q, c) # purge s q w"

lemma ent_purge: "ent (purge s q w) s' p = (if s' = s \<and> prefix q p then None else ent w s' p)"
  unfolding ent_def purge_def by (induction w) auto

lemma ent_put: "ent (put s q c w) s' p = (if s' = s \<and> p = q then Some c else if s' = s \<and> prefix q p then None else ent w s' p)"
  using ent_purge[of s q w s' p] by (auto simp: ent_def put_def split: if_splits)

lemma tdir_snoc: "tdir w s (q @ [n]) \<longleftrightarrow> tdir w s q \<and> ent w s (q @ [n]) = Some None \<and> good_name n"
  by (auto simp: tdir_def)

lemma tdir_Nil: "tdir w s [] \<longleftrightarrow> ent w s [] = Some None"
  by (simp add: tdir_def)

lemma tfile_snoc: "tfile w s (q @ [n]) = (if tdir w s q \<and> good_name n then (case ent w s (q @ [n]) of Some (Some c) \<Rightarrow> Some c | _ \<Rightarrow> None) else None)"
  by (auto simp: tfile_def tdir_def)

lemma tdir_prefix: "tdir w s q \<Longrightarrow> prefix p q \<Longrightarrow> tdir w s p"
proof (induction q rule: rev_induct)
  case (snoc n q)
  then show ?case by (cases "p = q @ [n]") (auto simp: tdir_snoc)
qed (simp add: tdir_Nil)

lemma tdir_purge: "tdir (purge s q w) s' p \<longleftrightarrow> tdir w s' p \<and> \<not> (s' = s \<and> prefix q p)"
  by (induction p rule: rev_induct) (auto simp: tdir_snoc tdir_Nil ent_purge dest: tdir_prefix)

lemma tfile_purge: "tfile (purge s q w) s' p = (if s' = s \<and> prefix q p then None else tfile w s' p)"
  by (cases p rule: rev_cases) (auto simp: tfile_snoc tdir_purge ent_purge tfile_def split: option.splits)

lemma tree_laws_entries: "tree_laws tfile tdir"
  unfolding tree_laws_def
proof (intro allI conjI impI)
  fix w s p assume "tfile w s p \<noteq> None"
  then show "\<not> tdir w s p" by (cases p rule: rev_cases) (auto simp: tfile_snoc tdir_snoc tdir_Nil tfile_def split: option.splits if_splits)
next
  fix w s p n assume "tfile w s (p @ [n]) \<noteq> None \<or> tdir w s (p @ [n])"
  then show "tdir w s p" by (auto simp: tfile_snoc tdir_snoc split: if_splits)
qed

section \<open>The operations\<close>

definition entry_name :: "string list \<Rightarrow> string" where
  "entry_name q = (if q = [] then ''root'' else last q)"

definition t_get :: "string \<Rightarrow> string \<Rightarrow> entries \<Rightarrow> entries \<times> (terr + tobj)" where
  "t_get s p w = (w, let q = fix_comps p in
     if tdir w s q then Inr \<lparr>tName = entry_name q, tIsDir = True\<rparr>
     else if tfile w s q \<noteq> None then Inr \<lparr>tName = entry_name q, tIsDir = False\<rparr>
     else Inl TNotFound)"

definition t_list :: "string \<Rightarrow> string \<Rightarrow> entries \<Rightarrow> entries \<times> (terr + tobj list)" where
  "t_list s p w = (w, let q = fix_comps p in
     if \<not> tdir w s q then Inl TNotFound
     else Inr (map (\<lambda>(s', p, c). \<lparr>tName = last p, tIsDir = (c = None)\<rparr>)
       (filter (\<lambda>(s', p, c). s' = s \<and> p \<noteq> [] \<and> butlast p = q \<and> good_name (last p) \<and> ent w s p = Some c) w)))"

definition t_remove :: "string \<Rightarrow> string \<Rightarrow> entries \<Rightarrow> entries \<times> terr option" where
  "t_remove s p w = (purge s (fix_comps p) w, None)"

definition ensure :: "string \<Rightarrow> string list \<Rightarrow> entries \<Rightarrow> entries option" where
  "ensure s r w = (if tdir w s r then Some w else if tfile w s r \<noteq> None then None else Some (put s r None w))"

fun mkdirs :: "string \<Rightarrow> string list list \<Rightarrow> entries \<Rightarrow> entries \<times> bool" where
  "mkdirs s [] w = (w, True)"
| "mkdirs s (r # rs) w = (case ensure s r w of None \<Rightarrow> (w, False) | Some w \<Rightarrow> mkdirs s rs w)"

definition t_upload :: "string \<Rightarrow> string \<Rightarrow> string \<Rightarrow> string \<Rightarrow> entries \<Rightarrow> entries \<times> terr option" where
  "t_upload s p d dp w =
     (let q = fix_comps p; r = fix_comps dp in
      case tfile w s q of
        None \<Rightarrow> (w, Some TNotFound)
      | Some c \<Rightarrow> if q = [] then (w, Some TNotFound)
          else (case mkdirs d (prefixes r) w of
            (w, False) \<Rightarrow> (w, Some (TError ''file exists''))
          | (w, True) \<Rightarrow> if tdir w d (r @ [last q]) then (w, Some (TError ''is a directory'')) else (put d (r @ [last q]) (Some c) w, None)))"

definition tree_api :: "entries op_api" where
  "tree_api = \<lparr>opGet = t_get, opList = t_list, opRemove = t_remove, opUpload = t_upload\<rparr>"

section \<open>They are storages\<close>

lemma good_comps: "list_all good_name (fix_comps p)"
proof -
  have "good_name c" if "c \<in> set (fix_comps p)" for c
    using fix_comps[of p] set_mk_abs[OF that] FixAndCleanPath_no_backslash[of p] that
    by (auto simp: good_name_def normal_comps_def)
  then show ?thesis by (simp add: list_all_iff)
qed

lemma t_get_ok:
  assumes "t_get s p w = (w', r)"
  shows "tfile w' = tfile w" "tdir w' = tdir w" "r = Inr o1 \<Longrightarrow> fix_comps p \<noteq> [] \<Longrightarrow> tName o1 = last (fix_comps p)"
    "r = Inr o1 \<Longrightarrow> if tIsDir o1 then tdir w s (fix_comps p) else tfile w s (fix_comps p) \<noteq> None"
  using assms by (auto simp: t_get_def entry_name_def Let_def split: if_splits)

lemma t_list_ok:
  assumes "t_list s p w = (w', r)"
  shows "tfile w' = tfile w" "tdir w' = tdir w" "r = Inr os \<Longrightarrow> tdir w s (fix_comps p)" "r = Inr os \<Longrightarrow> o1 \<in> set os \<Longrightarrow> good_name (tName o1)"
    "r = Inr os \<Longrightarrow> tfile w s (fix_comps p @ [n]) \<noteq> None \<or> tdir w s (fix_comps p @ [n]) \<Longrightarrow> n \<in> tName ` set os"
proof -
  let ?F = "filter (\<lambda>(s', p', c). s' = s \<and> p' \<noteq> [] \<and> butlast p' = fix_comps p \<and> good_name (last p') \<and> ent w s p' = Some c) w"
  show "tfile w' = tfile w" "tdir w' = tdir w" "r = Inr os \<Longrightarrow> tdir w s (fix_comps p)" "r = Inr os \<Longrightarrow> o1 \<in> set os \<Longrightarrow> good_name (tName o1)"
    using assms by (auto simp: t_list_def Let_def split: if_splits)
  assume r: "r = Inr os" and n: "tfile w s (fix_comps p @ [n]) \<noteq> None \<or> tdir w s (fix_comps p @ [n])"
  obtain c where c: "ent w s (fix_comps p @ [n]) = Some c" "good_name n"
    using n by (auto simp: tfile_snoc tdir_snoc split: if_splits option.splits)
  then have "(s, fix_comps p @ [n], c) \<in> set w" by (auto simp: ent_def dest!: map_of_SomeD)
  then have "(s, fix_comps p @ [n], c) \<in> set ?F" using c by simp
  moreover have "os = map (\<lambda>(s', p, c). \<lparr>tName = last p, tIsDir = (c = None)\<rparr>) ?F"
    using assms r by (auto simp: t_list_def Let_def split: if_splits)
  ultimately show "n \<in> tName ` set os" by force
qed

lemma read_laws_entries: "read_laws tree_api tfile tdir"
  unfolding read_laws_def tree_api_def op_api.simps
  using t_get_ok t_list_ok by (intro allI conjI impI ballI) blast+

lemma remove_law_entries: "remove_law tree_api tfile tdir"
  unfolding remove_law_def tree_api_def by (auto simp: t_remove_def tfile_purge tdir_purge)

lemma put_dir:
  assumes "r = [] \<or> tdir w s (butlast r)" "list_all good_name r" "tfile w s r = None" "\<not> tdir w s r"
  shows "tfile (put s r None w) s' p = tfile w s' p" "tdir (put s r None w) s' p \<longleftrightarrow> tdir w s' p \<or> s' = s \<and> p = r"
proof -
  have b: "prefix r p \<and> p \<noteq> r \<Longrightarrow> \<not> tdir w s p \<and> tfile w s p = None" for p
    using assms(4) by (cases p rule: rev_cases) (auto simp: tfile_snoc tdir_snoc dest: tdir_prefix)
  show d: "tdir (put s r None w) s' p \<longleftrightarrow> tdir w s' p \<or> s' = s \<and> p = r" for p
  proof (induction p rule: rev_induct)
    case Nil
    then show ?case using assms(4) by (auto simp: tdir_Nil ent_put)
  next
    case (snoc n p)
    show ?case
    proof (cases "s' = s \<and> prefix r (p @ [n])")
      case True
      then show ?thesis using snoc b[of "p @ [n]"] assms(1,2,4) by (auto simp: tdir_snoc ent_put)
    qed (use snoc in \<open>auto simp: tdir_snoc ent_put\<close>)
  qed
  show "tfile (put s r None w) s' p = tfile w s' p"
  proof (cases "s' = s \<and> prefix r p")
    case True
    then have "tfile w s' p = None" using b[of p] assms(3) by auto
    moreover have "tfile (put s r None w) s' p = None"
      using True by (cases p rule: rev_cases) (auto simp: tfile_def tfile_snoc ent_put split: option.splits)
    ultimately show ?thesis by simp
  next
    case False
    then show ?thesis
    proof (cases p rule: rev_cases)
      case Nil
      then show ?thesis using False by (auto simp: tfile_def ent_put)
    next
      case (snoc q n)
      then have "\<not> (s' = s \<and> q = r)" using False by auto
      then show ?thesis using snoc False d[of q] by (auto simp: tfile_snoc ent_put)
    qed
  qed
qed

lemma ensure_laws:
  assumes "r = [] \<or> tdir w s (butlast r)" "list_all good_name r" "ensure s r w = Some w'"
  shows "tfile w' = tfile w" "tdir w' s' p \<longleftrightarrow> tdir w s' p \<or> s' = s \<and> p = r" "tdir w' s r"
  using put_dir[OF assms(1,2)] assms(3) by (auto simp: ensure_def fun_eq_iff split: if_splits)

lemma mkdirs_laws:
  assumes "list_all good_name (q @ r)" "q = [] \<or> tdir w s (butlast q)" "mkdirs s (map ((@) q) (prefixes r)) w = (w', b)"
  shows "tfile w' = tfile w \<and> (\<forall>s' p. s' \<noteq> s \<longrightarrow> tdir w' s' p = tdir w s' p) \<and> (b \<longrightarrow> tdir w' s (q @ r))"
  using assms
proof (induction r arbitrary: q w)
  case Nil
  then show ?case using ensure_laws[of q w s] by (auto split: option.splits)
next
  case (Cons c r)
  show ?case
  proof (cases "ensure s q w")
    case None
    then show ?thesis using Cons.prems(3) by simp
  next
    case (Some w1)
    note E = ensure_laws[OF Cons.prems(2) _ Some]
    have g: "list_all good_name q" using Cons.prems(1) by simp
    have "(@) q \<circ> (#) c = (@) (q @ [c])" by (simp add: fun_eq_iff)
    then have "mkdirs s (map ((@) (q @ [c])) (prefixes r)) w1 = (w', b)" using Cons.prems(3) Some by simp
    from Cons.IH[OF _ _ this] Cons.prems(1) E[OF g] show ?thesis by auto
  qed
qed

lemma upload_law_entries: "upload_law tree_api tfile tdir left"
proof -
  have "(\<forall>s' q. s' \<noteq> d \<or> q \<noteq> fix_comps dp @ [last (fix_comps p)] \<longrightarrow> tfile w' s' q = tfile w s' q)
     \<and> (\<forall>s' q. s' \<noteq> d \<longrightarrow> tdir w' s' q = tdir w s' q)
     \<and> (let q = fix_comps dp @ [last (fix_comps p)]
        in if e = None then tfile w' d q = tfile w s (fix_comps p) else tfile w' d q \<in> {None, tfile w d q}
           \<or> (\<exists>c c'. tfile w s (fix_comps p) = Some c \<and> tfile w' d q = Some c' \<and> left c c'))"
    if u: "t_upload s p d dp w = (w', e)" for s p d dp w w' e
  proof -
    let ?q = "fix_comps p" and ?r = "fix_comps dp"
    obtain w1 b where m: "mkdirs d (prefixes ?r) w = (w1, b)" by fastforce
    have M: "tfile w1 = tfile w" "\<And>s' p. s' \<noteq> d \<Longrightarrow> tdir w1 s' p = tdir w s' p" "b \<Longrightarrow> tdir w1 d ?r"
      using mkdirs_laws[of "[]" ?r w d w1 b] m good_comps by (simp_all add: map_idI)
    show ?thesis
    proof (cases "tfile w s ?q = None \<or> ?q = [] \<or> \<not> b \<or> tdir w1 d (?r @ [last ?q])")
      case True
      then have "e \<noteq> None" "w' \<in> {w, w1}" using u m by (auto simp: t_upload_def Let_def split: option.splits if_splits bool.splits)
      then show ?thesis using M by auto
    next
      case False
      then obtain c where c: "tfile w s ?q = Some c" by auto
      have w': "w' = put d (?r @ [last ?q]) (Some c) w1" "e = None" using u m c False by (simp_all add: t_upload_def Let_def)
      have g: "good_name (last ?q)" using last_good False by blast
      have r: "tdir w1 d ?r" using M(3) False by blast
      let ?t = "?r @ [last ?q]"
      have nt: "\<not> tdir w1 d ?t" using False by blast
      have pd: "tdir w' s' p' \<longleftrightarrow> tdir w1 s' p'" for s' p'
      proof (induction p' rule: rev_induct)
        case Nil
        then show ?case by (simp add: tdir_Nil w' ent_put)
      next
        case (snoc n p')
        show ?case
        proof (cases "s' = d \<and> prefix ?t (p' @ [n])")
          case True
          then have "\<not> tdir w1 s' (p' @ [n])" using tdir_prefix nt by blast
          moreover have "ent w' s' (p' @ [n]) \<noteq> Some None" using True by (simp add: w' ent_put)
          ultimately show ?thesis by (simp add: tdir_snoc)
        next
          case False
          then have "ent w' s' (p' @ [n]) = ent w1 s' (p' @ [n])" by (auto simp: w' ent_put)
          then show ?thesis using snoc by (simp add: tdir_snoc)
        qed
      qed
      have "tfile w' s' p' = tfile w1 s' p'" if ne: "s' \<noteq> d \<or> p' \<noteq> ?t" for s' p'
      proof (cases "s' = d \<and> prefix ?t p'")
        case True
        then obtain x n where x: "p' = x @ [n]" "prefix ?t x" using ne by (cases p' rule: rev_cases) auto
        then have "\<not> tdir w1 d x" using nt tdir_prefix by blast
        then show ?thesis using True x pd by (simp add: tfile_snoc)
      next
        case no: False
        then show ?thesis using pd by (cases p' rule: rev_cases) (auto simp: tfile_snoc tfile_def w' ent_put)
      qed
      moreover have "tfile w' d ?t = Some c" using pd r g by (simp add: tfile_snoc w' ent_put)
      ultimately show ?thesis using w' c M pd by simp
    qed
  qed
  then show ?thesis by (simp add: upload_law_def tree_api_def)
qed

lemma storage_laws_entries: "storage_laws tree_api tfile tdir left"
  by (simp add: storage_laws_def tree_laws_entries read_laws_entries remove_law_entries upload_law_entries)

section \<open>A move, run\<close>

definition demo_world :: entries where
  "demo_world = [(''/s'', [], None), (''/s'', [''d''], None), (''/s'', [''d'', ''x''], Some ''1''), (''/s'', [''d'', ''y''], Some ''2''),
     (''/t'', [], None)]"

definition demo_resolve :: "string \<Rightarrow> (string \<times> string) option" where
  "demo_resolve p = (if p = ''/t'' then Some (''/t'', ''/'') else if p = ''/s/d'' then Some (''/s'', ''/d'') else None)"

definition demo_task :: FileTransferTask where
  "demo_task = \<lparr>TaskType = MoveTask, SrcStorageMp = ''/s'', DstStorageMp = ''/t'', SrcActualPath = ''/d'', DstActualPath = ''/'',
     taskGroup = ''/t''\<rparr>"

text \<open>Runs the task at the head of the queue, some times.\<close>

fun run_head :: "nat \<Rightarrow> entries tsys \<Rightarrow> entries tsys option" where
  "run_head 0 sys = Some sys"
| "run_head (Suc n) sys = (if sysQueue sys = [] then None else Option.bind (run_task tree_api demo_resolve None 0 False sys) (run_head n))"

lemma run_head_steps: "run_head n sys = Some sys' \<Longrightarrow> (task_step tree_api demo_resolve)\<^sup>*\<^sup>* sys sys'"
proof (induction n arbitrary: sys)
  case (Suc n)
  then obtain sys1 where "sysQueue sys \<noteq> []" "run_task tree_api demo_resolve None 0 False sys = Some sys1" "run_head n sys1 = Some sys'"
    by (auto simp: bind_eq_Some_conv split: if_splits)
  then show ?case using Suc.IH task_step.intros[of 0 sys] by (metis converse_rtranclp_into_rtranclp length_greater_0_conv)
qed simp

theorem move_keeps_files_or_failed_uploads_witness:
  "\<exists>sys. (task_step tree_api demo_resolve)\<^sup>*\<^sup>* (start_transfer demo_task ''/s/d'' demo_world) sys
     \<and> (tfile (sysWorld sys) ''/s'' [''d'', ''x''] = Some ''1''
        \<or> (\<exists>r. [''d'', ''x''] = [''d''] @ r \<and> tfile (sysWorld sys) ''/t'' (fix_comps ''/'' @ ''d'' # r) = Some ''1''))
     \<and> tfile (sysWorld sys) ''/s'' [''d'', ''x''] = None"
proof -
  let ?s = "start_transfer demo_task ''/s/d'' demo_world"
  have "map_option (\<lambda>s. tfile (sysWorld s) ''/s'' [''d'', ''x'']) (run_head 3 ?s) = Some None" by code_simp
  then obtain sys where sys: "run_head 3 ?s = Some sys" "tfile (sysWorld sys) ''/s'' [''d'', ''x''] = None" by auto
  note steps = run_head_steps[OF sys(1)]
  have w: "tfile demo_world ''/s'' [''d'', ''x''] = Some ''1''" "fix_comps ''/d'' = [''d'']" "fix_comps ''/'' = []"
    "FixAndCleanPath ''/d'' = ''/d''" "FixAndCleanPath ''/'' = ''/''" by code_simp+
  have fresh: "tfile demo_world ''/t'' (''d'' # r) = None" for r
  proof (cases r rule: rev_cases)
    case Nil
    then show ?thesis by simp code_simp
  next
    case (snoc q n)
    have "\<not> tdir demo_world ''/t'' [''d'']" by code_simp
    then have "\<not> tdir demo_world ''/t'' (''d'' # q)" using tdir_prefix[of demo_world "''/t''" "''d'' # q" "[''d'']"] by auto
    then show ?thesis using snoc tfile_snoc[of demo_world "''/t''" "''d'' # q" n] by simp
  qed
  have t: "TaskType demo_task = MoveTask" "SrcStorageMp demo_task = ''/s''" "DstStorageMp demo_task = ''/t''"
    "FixAndCleanPath (SrcActualPath demo_task) = SrcActualPath demo_task"
    "FixAndCleanPath (DstActualPath demo_task) = DstActualPath demo_task" "fix_comps (SrcActualPath demo_task) = [''d'']"
    by (simp_all add: demo_task_def w)
  have ne: "''/s'' \<noteq> ''/t''" "[''d''] \<noteq> []" by simp_all
  have r: "demo_resolve (taskGroup demo_task) = Some (''/t'', DstActualPath demo_task)"
    "demo_resolve ''/s/d'' = Some (''/s'', SrcActualPath demo_task)"
    by (simp_all add: demo_task_def demo_resolve_def)
  have f: "\<forall>r. tfile demo_world ''/t'' (fix_comps (DstActualPath demo_task) @ last [''d''] # r) = None"
    using fresh by (simp add: demo_task_def w)
  note M = move_keeps_files_or_failed_uploads[where ?left = "\<lambda>_ _. False" and ?file = tfile and ?dir = tdir and ?api = tree_api and ?t = demo_task and ?w = demo_world
      and ?src = "''/s''" and ?dst = "''/t''" and ?S = "[''d'']", OF storage_laws_entries ne(1) t ne(2) r f steps w(1)]
  have "DstActualPath demo_task = ''/''" "last [''d''] = ''d''" by (simp_all add: demo_task_def)
  then show ?thesis using steps sys(2) M by metis
qed

theorem verifyAndRemove_returns_witness: "verifyAndRemove tree_api ''/s'' ''/t'' ''/d'' ''/'' demo_world \<noteq> None"
proof (rule verifyAndRemove_returns[OF storage_laws_entries])
  show "FixAndCleanPath ''/d'' = ''/d''" by code_simp
  have "length q \<le> 2" if "ent demo_world s q \<noteq> None" for s q
  proof -
    have "list_all (\<lambda>(s, q, c). length q \<le> 2) demo_world" by code_simp
    moreover have "\<exists>c. (s, q, c) \<in> set demo_world" using that by (auto simp: ent_def dest!: map_of_SomeD)
    ultimately show ?thesis by (auto simp: list_all_iff)
  qed
  moreover have "ent w s q \<noteq> None" if "tfile w s q \<noteq> None \<or> tdir w s q" for w s q
    using that by (cases q rule: rev_cases) (auto simp: tdir_snoc tdir_Nil tfile_def split: if_splits option.splits)
  ultimately show "\<forall>q. tfile demo_world ''/s'' q \<noteq> None \<or> tdir demo_world ''/s'' q \<longrightarrow> length q \<le> 2" by blast
qed

section \<open>Moves that lose data\<close>

text \<open>When the destination already has a file of the name of the moved directory (the request allows this
  with \<open>overwrite\<close>), the tasks below it fail, and the removal deletes the directory unverified.\<close>

lemma move_onto_file_loses_the_directory:
  "map_option (\<lambda>s. (sysQueue s, tdir (sysWorld s) ''/s'' [''d''], tfile (sysWorld s) ''/t'' [''d'']))
     (run_head 3 (start_transfer demo_task ''/s/d'' (demo_world @ [(''/t'', [''d''], Some ''old'')])))
   = Some ([], False, Some ''old'')"
  by code_simp

text \<open>The removal compares names only: a file whose upload failed is deleted from the source when an older
  file of that name is at the destination.  Here the upload of \<open>x\<close> fails and the one of \<open>y\<close> succeeds.\<close>

definition failing_api :: "entries op_api" where
  "failing_api = tree_api\<lparr>opUpload := \<lambda>s p d dp w. if p = ''/d/x'' then (w, Some (TError ''network'')) else t_upload s p d dp w\<rparr>"

lemma move_keeps_the_old_version:
  "map_option (\<lambda>s. (tfile (sysWorld s) ''/s'' [''d'', ''x''], tfile (sysWorld s) ''/t'' [''d'', ''x''], tfile (sysWorld s) ''/t'' [''d'', ''y'']))
     (Option.bind (run_task failing_api demo_resolve None 0 False (start_transfer demo_task ''/s/d''
          (demo_world @ [(''/t'', [''d''], None), (''/t'', [''d'', ''x''], Some ''old'')])))
       (\<lambda>s. Option.bind (run_task failing_api demo_resolve None 0 False s) (run_task failing_api demo_resolve None 0 False)))
   = Some (None, Some ''old'', Some ''2'')"
  by code_simp

text \<open>A driver that leaves a truncated file behind a failed upload, as the local driver does: the removal
  takes the truncated file for the moved one, and deletes the source.\<close>

definition truncating_api :: "entries op_api" where
  "truncating_api = tree_api\<lparr>opUpload := \<lambda>s p d dp w.
     if p = ''/d/x'' then (put d (fix_comps dp @ [''x'']) (Some []) (fst (t_upload s p d dp w)), Some (TError ''no space left''))
     else t_upload s p d dp w\<rparr>"

lemma move_loses_a_truncated_file:
  "map_option (\<lambda>s. (sysQueue s, tfile (sysWorld s) ''/s'' [''d'', ''x''], tfile (sysWorld s) ''/t'' [''d'', ''x''], tfile (sysWorld s) ''/t'' [''d'', ''y'']))
     (Option.bind (run_task truncating_api demo_resolve None 0 False (start_transfer demo_task ''/s/d'' demo_world))
       (\<lambda>s. Option.bind (run_task truncating_api demo_resolve None 0 False s) (run_task truncating_api demo_resolve None 0 False)))
   = Some ([], None, Some [], Some ''2'')"
  by code_simp

text \<open>The group of a move is the destination with its mount path, which for a balanced storage is no path
  of a request: it resolves to nothing, and the source is never removed.\<close>

lemma move_to_balanced_storage_copies:
  "snd (GetStorageAndActualPath (demo_mounts [''/s'', ''/t.balance'']) (path_join ''/t.balance'' ''/'') Map.empty) = None"
  "resolve (path_join ''/t.balance'' ''/'') = None \<Longrightarrow> HookAndRemove api resolve (path_join ''/t.balance'' ''/'') ps w = Some w"
  by (code_simp, simp add: HookAndRemove_def)

end
