(* ===== verification/Downloads.thy ===== *)
theory Downloads imports Mounts Fs_World begin

text \<open>
  Signed download links: the signatures of \<open>pkg/sign/hmac.go\<close> and \<open>internal/sign\<close>, the links of
  \<open>server/common/sign.go\<close>, and the middleware of \<open>server/middlewares/down.go\<close> that guards the
  download routes.  \<open>mac k m\<close> is HMAC-SHA256; base64 is written out.
\<close>

section \<open>Base64 with the URL alphabet\<close>

definition b64_char :: "nat \<Rightarrow> char" where
  "b64_char i =
     (if i < 26 then char_of (65 + i) else if i < 52 then char_of (71 + i) else if i < 62 then char_of (i - 4 :: nat)
      else if i = 62 then CHR ''-'' else CHR ''_'')"

fun b64 :: "nat list \<Rightarrow> string" where
  "b64 [] = []"
| "b64 [a] = [b64_char (a div 4), b64_char (a mod 4 * 16), CHR ''='', CHR ''='']"
| "b64 [a, b] = [b64_char (a div 4), b64_char (a mod 4 * 16 + b div 16), b64_char (b mod 16 * 4), CHR ''='']"
| "b64 (a # b # c # ds) =
     [b64_char (a div 4), b64_char (a mod 4 * 16 + b div 16), b64_char (b mod 16 * 4 + c div 64), b64_char (c mod 64)] @ b64 ds"

definition EncodeToString :: "string \<Rightarrow> string" where
  "EncodeToString s = b64 (map of_char s)"

section \<open>Signatures\<close>

datatype sign_error = ErrSignExpired | ErrSignInvalid | ErrExpireInvalid | ErrExpireMissing

definition HMACSign_Sign :: "(string \<Rightarrow> string \<Rightarrow> string) \<Rightarrow> string \<Rightarrow> string \<Rightarrow> int \<Rightarrow> string" where
  "HMACSign_Sign mac key data expire =
     (let expireTimeStamp = format_int expire
      in EncodeToString (mac key (data @ '':'' @ expireTimeStamp)) @ '':'' @ expireTimeStamp)"

text \<open>\<open>None\<close> is success; \<open>t0\<close> is \<open>time.Now().Unix()\<close>.\<close>

definition HMACSign_Verify :: "(string \<Rightarrow> string \<Rightarrow> string) \<Rightarrow> string \<Rightarrow> int \<Rightarrow> string \<Rightarrow> string \<Rightarrow> sign_error option" where
  "HMACSign_Verify mac key t0 data sign =
     (let exp = drop (case last_index_char (CHR '':'') sign of None \<Rightarrow> 0 | Some i \<Rightarrow> i + 1) sign in
      if exp = '''' then Some ErrExpireMissing
      else case parse_int exp of
        None \<Rightarrow> Some ErrExpireInvalid
      | Some expires \<Rightarrow>
          if expires < t0 \<and> expires \<noteq> 0 then Some ErrSignExpired
          else if HMACSign_Sign mac key data expires \<noteq> sign then Some ErrSignInvalid
          else None)"

text \<open>The two instances, each created once from the token setting (\<open>Instance\<close>, \<open>InstanceArchive\<close>);
  times are nanoseconds.\<close>

record signers =
  stToken :: string
  stLinkExpiration :: int
  stInstance :: "string option"
  stArchive :: "string option"

definition Instance :: "signers \<Rightarrow> signers" where
  "Instance s = s\<lparr>stInstance := Some (stToken s)\<rparr>"

definition InstanceArchive :: "signers \<Rightarrow> signers" where
  "InstanceArchive s = s\<lparr>stArchive := Some (stToken s @ ''-archive'')\<rparr>"

definition link_expire :: "signers \<Rightarrow> int \<Rightarrow> int" where
  "link_expire s t0 =
     (let expire = stLinkExpiration s
      in if expire = 0 then 0 else (t0 + wrap64 (expire * (3600 * 10 ^ 9))) div 10 ^ 9)"

definition with_instance :: "signers \<Rightarrow> signers" where
  "with_instance s = (if stInstance s = None then Instance s else s)"

definition with_archive :: "signers \<Rightarrow> signers" where
  "with_archive s = (if stArchive s = None then InstanceArchive s else s)"

definition Sign :: "(string \<Rightarrow> string \<Rightarrow> string) \<Rightarrow> int \<Rightarrow> string \<Rightarrow> signers \<Rightarrow> signers \<times> string" where
  "Sign mac t0 data s = (let s = with_instance s in (s, HMACSign_Sign mac (the (stInstance s)) data (link_expire s t0)))"

definition Verify :: "(string \<Rightarrow> string \<Rightarrow> string) \<Rightarrow> int \<Rightarrow> string \<Rightarrow> string \<Rightarrow> signers \<Rightarrow> signers \<times> sign_error option" where
  "Verify mac t0 data sign s = (let s = with_instance s in (s, HMACSign_Verify mac (the (stInstance s)) (t0 div 10 ^ 9) data sign))"

definition SignArchive :: "(string \<Rightarrow> string \<Rightarrow> string) \<Rightarrow> int \<Rightarrow> string \<Rightarrow> signers \<Rightarrow> signers \<times> string" where
  "SignArchive mac t0 data s = (let s = with_archive s in (s, HMACSign_Sign mac (the (stArchive s)) data (link_expire s t0)))"

definition VerifyArchive :: "(string \<Rightarrow> string \<Rightarrow> string) \<Rightarrow> int \<Rightarrow> string \<Rightarrow> string \<Rightarrow> signers \<Rightarrow> signers \<times> sign_error option" where
  "VerifyArchive mac t0 data sign s = (let s = with_archive s in (s, HMACSign_Verify mac (the (stArchive s)) (t0 div 10 ^ 9) data sign))"

text \<open>\<open>handles.ResetToken\<close> stores the new token and renews one of the two.\<close>

definition ResetToken :: "string \<Rightarrow> signers \<Rightarrow> signers" where
  "ResetToken token s = Instance (s\<lparr>stToken := token\<rparr>)"

section \<open>The download routes\<close>

definition trim_suffix :: "string \<Rightarrow> string \<Rightarrow> string" where
  "trim_suffix s p = (if has_suffix s p then take (length s - length p) s else s)"

definition IsStorageSignEnabled :: "'v storagesMap \<Rightarrow> string \<Rightarrow> (string \<Rightarrow> nat option) \<Rightarrow> (string \<Rightarrow> nat option) \<times> bool" where
  "IsStorageSignEnabled m rawPath bal =
     (case GetBalancedStorage m rawPath bal of
        (bal, None) \<Rightarrow> (bal, False)
      | (bal, Some d) \<Rightarrow> (bal, EnableSign (dStorage d)))"

definition needSign :: "'v storagesMap \<Rightarrow> bool \<Rightarrow> Meta option \<Rightarrow> string \<Rightarrow> (string \<Rightarrow> nat option) \<Rightarrow> (string \<Rightarrow> nat option) \<times> bool" where
  "needSign m signAll meta path bal =
     (if signAll then (bal, True)
      else case IsStorageSignEnabled m path bal of
        (bal, True) \<Rightarrow> (bal, True)
      | (bal, False) \<Rightarrow>
          (bal, (case meta of
                   None \<Rightarrow> False
                 | Some mt \<Rightarrow>
                     if mPassword mt = '''' then False
                     else if \<not> PSub mt \<and> path \<noteq> mPath mt then False
                     else True)))"

definition parsePath :: "string \<Rightarrow> string" where
  "parsePath path = FixAndCleanPath path"

datatype down_result = ErrorPage int | NextHandler string

text \<open>\<open>PathParse\<close> and \<open>Down(verifyFunc)\<close>: the page of an error, or the path for the download handler.\<close>

definition Down ::
  "'v storagesMap \<Rightarrow> bool \<Rightarrow> (string \<Rightarrow> meta_error + Meta) \<Rightarrow> (string \<Rightarrow> string \<Rightarrow> sign_error option) \<Rightarrow>
    string \<Rightarrow> string \<Rightarrow> (string \<Rightarrow> nat option) \<Rightarrow> (string \<Rightarrow> nat option) \<times> down_result" where
  "Down m signAll near verifyFunc param s bal =
     (let rawPath = parsePath param in
      case nearest_or near rawPath of
        Inl r \<Rightarrow> (bal, ErrorPage 500)
      | Inr meta \<Rightarrow>
          (case needSign m signAll meta rawPath bal of
             (bal, True) \<Rightarrow>
               if verifyFunc rawPath (trim_suffix s ''/'') \<noteq> None then (bal, ErrorPage 401) else (bal, NextHandler rawPath)
           | (bal, False) \<Rightarrow> (bal, NextHandler rawPath)))"

text \<open>\<open>common.Sign\<close>: the signature a listing hands out for an object.\<close>

definition common_Sign :: "(string \<Rightarrow> string) \<Rightarrow> bool \<Rightarrow> Obj \<Rightarrow> string \<Rightarrow> bool \<Rightarrow> string" where
  "common_Sign sign signAll obj parent encrypt =
     (if IsDir obj \<or> (\<not> encrypt \<and> \<not> signAll) then '''' else sign (path_join parent (GetName obj)))"

section \<open>What a signature is worth\<close>

lemma last_index_char_none: "c \<notin> set s \<Longrightarrow> last_index_char c s = None"
  by (simp add: last_index_char_def index_char_None)

lemma last_part_eq:
  "(c :: char) \<notin> set b \<Longrightarrow> c \<notin> set b' \<Longrightarrow> a @ c # b = a' @ c # b' \<longleftrightarrow> a = a' \<and> b = b'"
proof
  assume b: "c \<notin> set b" "c \<notin> set b'" and e: "a @ c # b = a' @ c # b'"
  have "rev b @ c # rev a = rev b' @ c # rev a'"
    using arg_cong[OF e, of rev] by simp
  then have "cut_char c (rev b @ c # rev a) = cut_char c (rev b' @ c # rev a')" by simp
  then show "a = a' \<and> b = b'" using b by (simp add: cut_char_append)
qed simp

lemma format_int_colon: "CHR '':'' \<notin> set (format_int e)"
  using format_int_chars[of "CHR '':''" e] by (auto simp: is_digit_def)

lemma sign_parts:
  "last_index_char (CHR '':'') (HMACSign_Sign mac key data e) = Some (length (EncodeToString (mac key (data @ '':'' @ format_int e))))"
  by (simp add: HMACSign_Sign_def Let_def last_index_char_append format_int_colon)

lemma b64_char_inj: "i < 64 \<Longrightarrow> j < 64 \<Longrightarrow> b64_char i = b64_char j \<longleftrightarrow> i = j"
proof -
  have "distinct (map b64_char [0..<64])" by code_simp
  then have "inj_on b64_char {0..<64}" by (simp add: distinct_map)
  then show "i < 64 \<Longrightarrow> j < 64 \<Longrightarrow> b64_char i = b64_char j \<longleftrightarrow> i = j" by (auto simp: inj_on_def)
qed

lemma b64_char_pad: "i < 64 \<Longrightarrow> b64_char i \<noteq> CHR ''=''"
proof -
  have "list_all (\<lambda>i. b64_char i \<noteq> CHR ''='') [0..<64]" by code_simp
  then show "i < 64 \<Longrightarrow> b64_char i \<noteq> CHR ''=''" by (simp add: list_all_iff)
qed

lemma split6: "a < 256 \<Longrightarrow> a div 4 < (64 :: nat)" "a < 256 \<Longrightarrow> b < 256 \<Longrightarrow> a mod 4 * 16 + b div 16 < (64 :: nat)"
  "b < 256 \<Longrightarrow> c < 256 \<Longrightarrow> b mod 16 * 4 + c div 64 < (64 :: nat)" "c mod 64 < (64 :: nat)"
  "a mod 4 * 16 < (64 :: nat)" "b mod 16 * 4 < (64 :: nat)"
  by linarith+

lemma digits_inj: "x * n + y = x' * n + y' \<Longrightarrow> y < n \<Longrightarrow> y' < n \<Longrightarrow> x = x' \<and> y = (y' :: nat)"
  by (metis div_mult_self3 div_less mod_mult_self3 mod_less add_0 add_cancel_right_right div_mult_self3 not_less0)

lemma b64_quad:
  assumes "a < 256" "b < 256" "c < 256" "a' < 256" "b' < 256" "c' < 256"
    and "b64_char (a div 4) = b64_char (a' div 4)"
    and "b64_char (a mod 4 * 16 + b div 16) = b64_char (a' mod 4 * 16 + b' div 16)"
    and "b64_char (b mod 16 * 4 + c div 64) = b64_char (b' mod 16 * 4 + c' div 64)"
    and "b64_char (c mod 64) = b64_char (c' mod 64)"
  shows "a = a' \<and> b = b' \<and> c = c'"
proof -
  have e: "a div 4 = a' div 4" "a mod 4 * 16 + b div 16 = a' mod 4 * 16 + b' div 16"
    "b mod 16 * 4 + c div 64 = b' mod 16 * 4 + c' div 64" "c mod 64 = c' mod 64"
    using assms by (simp_all add: b64_char_inj split6)
  have "b div 16 < 16" "b' div 16 < 16" "c div 64 < 4" "c' div 64 < 4" using assms by linarith+
  then have d: "a mod 4 = a' mod 4 \<and> b div 16 = b' div 16" "b mod 16 = b' mod 16 \<and> c div 64 = c' div 64"
    using digits_inj[OF e(2)] digits_inj[OF e(3)] by blast+
  have dm: "x div n = y div n \<Longrightarrow> x mod n = y mod n \<Longrightarrow> x = (y :: nat)" for x y n by (metis div_mult_mod_eq)
  show ?thesis using dm[OF e(1)] dm[of b 16 b'] dm[of c 64 c'] d e(4) by simp
qed

lemma b64_inj:
  "\<forall>x \<in> set xs. x < 256 \<Longrightarrow> \<forall>y \<in> set ys. y < 256 \<Longrightarrow> b64 xs = b64 ys \<Longrightarrow> xs = ys"
proof (induction xs arbitrary: ys rule: b64.induct)
  case 1
  then show ?case by (cases ys rule: b64.cases) auto
next
  case (2 a)
  show ?case
  proof (cases ys rule: b64.cases)
    case (2 a')
    then show ?thesis using "2.prems" b64_quad[of a 0 0 a' 0 0] by simp
  qed (use "2.prems" b64_char_pad[OF split6(6), symmetric] b64_char_pad[OF split6(4), symmetric] in auto)
next
  case (3 a b)
  show ?case
  proof (cases ys rule: b64.cases)
    case (3 a' b')
    then show ?thesis using "3.prems" b64_quad[of a b 0 a' b' 0] by simp
  qed (use "3.prems" b64_char_pad[OF split6(6)] b64_char_pad[OF split6(4)] in \<open>auto simp: split6\<close>)
next
  case (4 a b c ds)
  show ?case
  proof (cases ys rule: b64.cases)
    case (4 a' b' c' ds')
    then have "a = a' \<and> b = b' \<and> c = c'" using "4.prems" by (intro b64_quad) simp_all
    moreover have "ds = ds'" using 4 "4.prems" "4.IH"[of ds'] by simp
    ultimately show ?thesis using 4 by simp
  qed (use "4.prems" b64_char_pad in \<open>auto simp: split6\<close>)
qed

lemma EncodeToString_inj: "EncodeToString s = EncodeToString s' \<longleftrightarrow> s = s'"
proof
  assume e: "EncodeToString s = EncodeToString s'"
  have "\<forall>x \<in> set (map of_char s). x < (256 :: nat)" for s :: string by simp
  then have "map of_char s = (map of_char s' :: nat list)" using b64_inj e unfolding EncodeToString_def by blast
  then show "s = s'" by (simp add: inj_map_eq_map[OF inj_of_char])
qed simp

lemma HMACSign_Verify_iff:
  "HMACSign_Verify mac key t0 data s = None \<longleftrightarrow>
     (\<exists>e. int64_range e \<and> (e = 0 \<or> t0 \<le> e) \<and> s = HMACSign_Sign mac key data e)" (is "?L \<longleftrightarrow> ?R")
proof
  assume ?L
  then show ?R
    by (auto simp: HMACSign_Verify_def Let_def split: if_splits option.splits dest!: parse_int_range)
next
  have exp: "drop (case last_index_char (CHR '':'') (HMACSign_Sign mac key data e) of None \<Rightarrow> 0 | Some i \<Rightarrow> i + 1)
      (HMACSign_Sign mac key data e) = format_int e" for e
    unfolding sign_parts by (simp add: HMACSign_Sign_def Let_def)
  assume ?R
  then obtain e where e: "int64_range e" "e = 0 \<or> t0 \<le> e" "s = HMACSign_Sign mac key data e" by blast
  show ?L unfolding HMACSign_Verify_def Let_def e(3) exp using e(1,2) by (auto simp: parse_format_int)
qed

lemma HMACSign_Sign_eq:
  "HMACSign_Sign mac key data e = HMACSign_Sign mac key data' e' \<longleftrightarrow>
     mac key (data @ '':'' @ format_int e) = mac key (data' @ '':'' @ format_int e') \<and> e = e'"
  unfolding HMACSign_Sign_def Let_def
  by (simp add: last_part_eq format_int_colon EncodeToString_inj) (auto dest: format_int_inj)

text \<open>C26: A signature is accepted for a path exactly when it is the server's own signature of that path
  with an expiry that has not passed (0 never does), and two signatures are the same only when they
  carry the same expiry and are of the same path, or of two paths whose messages have the same HMAC.\<close>

theorem signature_binds_path_and_expiry:
  "(HMACSign_Verify mac key t0 data s = None \<longleftrightarrow>
      (\<exists>e. int64_range e \<and> (e = 0 \<or> t0 \<le> e) \<and> s = HMACSign_Sign mac key data e))
   \<and> (HMACSign_Sign mac key data e = HMACSign_Sign mac key data' e' \<longleftrightarrow>
      e = e' \<and> (data = data' \<or> (\<exists>x y. x \<noteq> y \<and> x = data @ '':'' @ format_int e \<and> y = data' @ '':'' @ format_int e' \<and> mac key x = mac key y)))"
  by (simp add: HMACSign_Verify_iff HMACSign_Sign_eq) auto

section \<open>What the download routes protect\<close>

text \<open>All storages that may serve a path, or none of them, ask for signatures.\<close>

definition sign_storage :: "'v storagesMap \<Rightarrow> string \<Rightarrow> bool \<Rightarrow> bool" where
  "sign_storage m p b \<longleftrightarrow> (\<forall>d \<in> set (getStoragesByPath m (FixAndCleanPath p)). EnableSign (dStorage d) = b)
     \<and> (b \<longrightarrow> getStoragesByPath m (FixAndCleanPath p) \<noteq> [])"

lemma IsStorageSignEnabled_uniform: "sign_storage m p b \<Longrightarrow> snd (IsStorageSignEnabled m p bal) = b"
proof -
  assume s: "sign_storage m p b"
  obtain bal' r where r: "GetBalancedStorage m p bal = (bal', r)" by fastforce
  show ?thesis
  proof (cases r)
    case None
    then show ?thesis using s r GetBalancedStorage_None[of m p bal] by (auto simp: IsStorageSignEnabled_def sign_storage_def)
  next
    case (Some d)
    then show ?thesis using s r GetBalancedStorage_member[of m p bal d] by (simp add: IsStorageSignEnabled_def sign_storage_def)
  qed
qed

definition guarded :: "'v storagesMap \<Rightarrow> bool \<Rightarrow> (string \<Rightarrow> meta_error + Meta) \<Rightarrow> string \<Rightarrow> bool" where
  "guarded m signAll near p \<longleftrightarrow> signAll \<or> sign_storage m p True
     \<or> (\<exists>mt. near p = Inr mt \<and> mPassword mt \<noteq> '''' \<and> (PSub mt \<or> p = mPath mt))"

lemma needSign_guarded:
  assumes "guarded m signAll near p" "nearest_or near p = Inr meta"
  shows "snd (needSign m signAll meta p bal)"
  using assms IsStorageSignEnabled_uniform[of m p True bal]
  by (auto simp: guarded_def needSign_def nearest_or_def split: prod.splits bool.splits option.splits)

text \<open>C27: A path that is guarded (by the setting, by its storages or by the password of its nearest meta)
  can be downloaded only with the server's own signature of exactly that path, before its expiry.\<close>

theorem guarded_download_needs_its_link:
  assumes "guarded m signAll near (FixAndCleanPath param)"
    and "Down m signAll near (HMACSign_Verify mac key t0) param s bal = (bal', NextHandler q)"
  shows "q = FixAndCleanPath param \<and> (\<exists>e. (e = 0 \<or> t0 \<le> e) \<and> trim_suffix s ''/'' = HMACSign_Sign mac key q e)"
proof -
  obtain meta where meta: "nearest_or near (FixAndCleanPath param) = Inr meta"
    using assms(2) by (auto simp: Down_def parsePath_def Let_def split: sum.splits)
  have n: "snd (needSign m signAll meta (FixAndCleanPath param) bal)"
    by (rule needSign_guarded[OF assms(1) meta])
  then have "q = FixAndCleanPath param \<and> HMACSign_Verify mac key t0 q (trim_suffix s ''/'') = None"
    using assms(2) meta by (auto simp: Down_def parsePath_def Let_def split: prod.splits bool.splits if_splits)
  then show ?thesis
    using HMACSign_Verify_iff[of mac key t0 q "trim_suffix s ''/''"] by auto
qed

theorem guarded_download_needs_its_link_witness:
  "snd (Down ([] :: unit storagesMap) True (\<lambda>_. Inl MetaNotFound) (HMACSign_Verify (\<lambda>k m. k @ m) ''k'' 7) ''a''
       (HMACSign_Sign (\<lambda>k m. k @ m) ''k'' ''/a'' 9) (\<lambda>_. None)) = NextHandler ''/a''
   \<and> (\<exists>e. (e = 0 \<or> 7 \<le> e) \<and> trim_suffix (HMACSign_Sign (\<lambda>k m. k @ m) ''k'' ''/a'' 9) ''/'' = HMACSign_Sign (\<lambda>k m. k @ m) ''k'' ''/a'' e)"
proof -
  let ?D = "Down ([] :: unit storagesMap) True (\<lambda>_. Inl MetaNotFound) (HMACSign_Verify (\<lambda>k m. k @ m) ''k'' 7) ''a''
       (HMACSign_Sign (\<lambda>k m. k @ m) ''k'' ''/a'' 9) (\<lambda>_. None)"
  have d: "snd ?D = NextHandler ''/a''" by code_simp
  have p: "FixAndCleanPath ''a'' = ''/a''" by code_simp
  have g: "guarded ([] :: unit storagesMap) True (\<lambda>_. Inl MetaNotFound) (FixAndCleanPath ''a'')" by (simp add: guarded_def)
  have "?D = (fst ?D, NextHandler ''/a'')" using d by (metis prod.collapse)
  from guarded_download_needs_its_link[OF g this] show ?thesis using d by blast
qed

section \<open>What they do not protect\<close>

text \<open>A file that only its readers may read is downloaded by anyone: \<open>needSign\<close> looks at the password
  of the meta and not at its readers.\<close>

lemma read_restricted_file_needs_no_sign:
  assumes "near (FixAndCleanPath param) = Inr mt" "ReadUsers mt = [1]" "ReadUsersSub mt" "mPassword mt = ''''"
    and "mPath mt = ''/secret''" "IsSubPath ''/secret'' (FixAndCleanPath param)"
    and "sign_storage m (FixAndCleanPath param) False" "ID u \<noteq> 1"
  shows "\<not> CanRead (Some u) (Some mt) (FixAndCleanPath param)"
    and "snd (Down m False near verifyFunc param s bal) = NextHandler (FixAndCleanPath param)"
proof -
  show "\<not> CanRead (Some u) (Some mt) (FixAndCleanPath param)"
    using assms by (simp add: CanRead_def MetaCoversPath_def)
  show "snd (Down m False near verifyFunc param s bal) = NextHandler (FixAndCleanPath param)"
    using assms(1,4) IsStorageSignEnabled_uniform[OF assms(7), of bal]
    by (auto simp: Down_def parsePath_def needSign_def nearest_or_def Let_def split: prod.splits bool.splits)
qed

text \<open>Resetting the token renews the instance of file links and not the one of archive links.\<close>

lemma archive_links_survive_a_reset:
  assumes "int64_range (link_expire s t0)" "link_expire s t0 = 0 \<or> t0 div 10 ^ 9 \<le> link_expire s t0"
  shows "(case SignArchive mac t0 p s of (s', l) \<Rightarrow> snd (VerifyArchive mac t0 p l (ResetToken token s')) = None)"
proof -
  obtain s' l where sl: "SignArchive mac t0 p s = (s', l)" by fastforce
  then have s': "s' = with_archive s" and l: "l = HMACSign_Sign mac (the (stArchive s')) p (link_expire s' t0)"
    by (auto simp: SignArchive_def Let_def)
  obtain k where "stArchive s' = Some k" "link_expire s' t0 = link_expire s t0"
    using s' by (cases "stArchive s") (auto simp: with_archive_def InstanceArchive_def link_expire_def)
  moreover have "HMACSign_Verify mac (the (stArchive s')) (t0 div 10 ^ 9) p l = None"
    using HMACSign_Verify_iff[of mac _ "t0 div 10 ^ 9" p l] l assms calculation by auto
  ultimately show ?thesis
    using sl by (simp add: VerifyArchive_def ResetToken_def Instance_def with_archive_def Let_def)
qed

end
