(* ===== verification/Fs_Read.thy ===== *)
theory Fs_Read imports Downloads begin

text \<open>
  Reading through the API: the listing and lookup of \<open>internal/fs/list.go\<close> and \<open>get.go\<close>, and the
  handlers of \<open>server/handles/fsread.go\<close> with the page of \<open>internal/model/req.go\<close>.  Drivers
  (\<open>op.List\<close>, \<open>op.Get\<close>, \<open>op.Link\<close>) are fields of an environment; the balance state of the mounted
  storages is threaded.  The result \<open>None\<close> is a panic.  Thumbnails, hashes, file types and creation
  times, which the drivers give, are left out of the replies.
\<close>

section \<open>Pages\<close>

record PageReq =
  Page :: int
  PerPage :: int

definition MaxInt :: int where "MaxInt = 2 ^ 63 - 1"

definition Validate :: "PageReq \<Rightarrow> PageReq" where
  "Validate p =
     (let p = (if Page p < 1 then p\<lparr>Page := 1\<rparr> else p)
      in if PerPage p < 1 then p\<lparr>PerPage := MaxInt\<rparr> else p)"

text \<open>\<open>objs[start:end]\<close> panics unless \<open>0 \<le> start \<le> end \<le> len\<close>.\<close>

definition go_slice :: "int \<Rightarrow> int \<Rightarrow> 'a list \<Rightarrow> 'a list option" where
  "go_slice i j xs =
     (if 0 \<le> i \<and> i \<le> j \<and> j \<le> int (length xs) then Some (take (nat (j - i)) (drop (nat i) xs)) else None)"

definition pagination :: "'a list \<Rightarrow> PageReq \<Rightarrow> (int \<times> 'a list) option" where
  "pagination objs req =
     (let pageIndex = Page req; pageSize = PerPage req; total = int (length objs);
          start = wrap64 ((pageIndex - 1) * pageSize)
      in if start > total then Some (total, [])
         else let end0 = wrap64 (start + pageSize); end1 = (if end0 > total then total else end0)
           in map_option (\<lambda>xs. (total, xs)) (go_slice start end1 objs))"

section \<open>Listing and lookup\<close>

record 'v read_env =
  reMounts :: "'v storagesMap"
  reDetails :: "'v Driver \<Rightarrow> StorageDetails option"
  reEarly :: "'v Driver \<Rightarrow> bool"
  reNear :: "string \<Rightarrow> meta_error + Meta"
  reMatch :: "string \<Rightarrow> string \<Rightarrow> bool option"
  reList :: "'v Driver \<Rightarrow> string \<Rightarrow> bool \<Rightarrow> string + Obj list"
  reGet :: "'v Driver \<Rightarrow> string \<Rightarrow> string + Obj"
  reLink :: "'v Driver \<Rightarrow> string \<Rightarrow> string + string"
  reOther :: "'v Driver \<Rightarrow> string \<Rightarrow> string \<Rightarrow> string + string"
  reUrl :: "Obj \<Rightarrow> string option"
  reProvider :: "Obj \<Rightarrow> string option"
  reMustProxy :: "'v Driver \<Rightarrow> bool"
  reTools :: "'v Driver \<Rightarrow> string list"
  reSign :: "string \<Rightarrow> string"
  reSignAll :: bool
  reHideDetails :: bool
  reApiUrl :: string

type_synonym balance_map = "string \<Rightarrow> nat option"

definition whetherHide :: "User option \<Rightarrow> Meta option \<Rightarrow> string \<Rightarrow> bool" where
  "whetherHide user meta path =
     (case user of
        None \<Rightarrow> False
      | Some u \<Rightarrow>
          if CanSeeHides (Permission u) then False
          else (case meta of
                  None \<Rightarrow> False
                | Some m \<Rightarrow>
                    if Hide m = '''' then False
                    else if \<not> MetaCoversPath (mPath m) path (HSub m) then False
                    else True))"

definition InitHideReg :: "(string \<Rightarrow> string \<Rightarrow> bool option) \<Rightarrow> string \<Rightarrow> string list option" where
  "InitHideReg re_match hides =
     (let rs = split_char (CHR 0x0A) hides in if list_all (\<lambda>r. re_match r '''' \<noteq> None) rs then Some rs else None)"

fun filterReadableObjs :: "(string \<Rightarrow> meta_error + Meta) \<Rightarrow> User option \<Rightarrow> string \<Rightarrow> Meta option \<Rightarrow> Obj list \<Rightarrow> meta_error + Obj list" where
  "filterReadableObjs near user reqPath parentMeta [] = Inr []"
| "filterReadableObjs near user reqPath parentMeta (obj # objs) =
     (let objPath = path_join reqPath (GetName obj) in
      case (if IsDir obj
            then (case near objPath of Inr m \<Rightarrow> Inr (Some m) | Inl MetaNotFound \<Rightarrow> Inr None | Inl e \<Rightarrow> Inl e)
            else Inr parentMeta) of
        Inl e \<Rightarrow> Inl e
      | Inr meta \<Rightarrow>
          map_sum id (\<lambda>rest. if CanRead user meta objPath then obj # rest else rest)
            (filterReadableObjs near user reqPath parentMeta objs))"

definition finish_list ::
  "'v read_env \<Rightarrow> User option \<Rightarrow> Meta option \<Rightarrow> string \<Rightarrow> Obj list \<Rightarrow> Obj list \<Rightarrow> (string + Obj list) option" where
  "finish_list env user meta path objs virtualFiles =
     (case (if whetherHide user meta path then InitHideReg (reMatch env) (Hide (the meta)) else Some []) of
        None \<Rightarrow> None
      | Some regs \<Rightarrow>
          Some (case filterReadableObjs (reNear env) user path meta
                  (Merge (\<lambda>r n. reMatch env r n = Some True) regs objs virtualFiles) of
                  Inl e \<Rightarrow> Inl ''failed get meta''
                | Inr objs \<Rightarrow> Inr objs))"

definition fs_list ::
  "'v read_env \<Rightarrow> User option \<Rightarrow> Meta option \<Rightarrow> string \<Rightarrow> bool \<Rightarrow> bool \<Rightarrow> balance_map \<Rightarrow> (balance_map \<times> (string + Obj list)) option" where
  "fs_list env user meta path refresh withDetails bal =
     (case GetStorageVirtualFilesWithDetailsByPath (reMounts env) (reDetails env) (reEarly env) path (\<not> withDetails) '''' of
        None \<Rightarrow> None
      | Some virtualFiles \<Rightarrow>
          (case GetStorageAndActualPath (reMounts env) path bal of
             (bal, st) \<Rightarrow>
               if st = None \<and> virtualFiles = [] then Some (bal, Inl ''failed get storage'')
               else (case (case st of None \<Rightarrow> Inr [] | Some (storage, actualPath) \<Rightarrow> reList env storage actualPath refresh) of
                   Inl e \<Rightarrow>
                     if virtualFiles = [] then Some (bal, Inl ''failed get objs'')
                     else map_option (Pair bal) (finish_list env user meta path [] virtualFiles)
                 | Inr objs \<Rightarrow> map_option (Pair bal) (finish_list env user meta path objs virtualFiles))))"

definition root_object :: Obj where
  "root_object = Plain \<lparr>obID = '''', obPath = '''', obName = ''root'', obSize = 0, obModified = 0, IsFolder = True,
     Mask = ReadOnly OR Virtual\<rparr>"

definition fs_get :: "'v read_env \<Rightarrow> string \<Rightarrow> bool \<Rightarrow> balance_map \<Rightarrow> (balance_map \<times> (string + Obj)) option" where
  "fs_get env path0 withDetails bal =
     (let path = FixAndCleanPath path0; (dir, name) = path_split path in
      case (if path \<noteq> ''/''
            then GetStorageVirtualFilesWithDetailsByPath (reMounts env) (reDetails env) (reEarly env) dir (\<not> withDetails) name
            else Some []) of
        None \<Rightarrow> None
      | Some virtualFiles \<Rightarrow>
          (case find (\<lambda>f. GetName f = name) virtualFiles of
             Some f \<Rightarrow> Some (bal, Inr f)
           | None \<Rightarrow>
               (case GetStorageAndActualPath (reMounts env) path bal of
                  (bal, None) \<Rightarrow> Some (bal, if path = ''/'' then Inr root_object else Inl ''failed get storage'')
                | (bal, Some (storage, actualPath)) \<Rightarrow> Some (bal, reGet env storage actualPath))))"

text \<open>\<open>fs.Link\<close>: a link without a scheme is made absolute.\<close>

definition fs_link :: "'v read_env \<Rightarrow> string \<Rightarrow> balance_map \<Rightarrow> balance_map \<times> (string + string)" where
  "fs_link env path bal =
     (case GetStorageAndActualPath (reMounts env) path bal of
        (bal, None) \<Rightarrow> (bal, Inl ''failed get storage'')
      | (bal, Some (storage, actualPath)) \<Rightarrow>
          (bal, (case reLink env storage actualPath of
                   Inl e \<Rightarrow> Inl ''failed link''
                 | Inr url \<Rightarrow>
                     Inr (if url \<noteq> '''' \<and> \<not> has_prefix url ''http://'' \<and> \<not> has_prefix url ''https://''
                          then reApiUrl env @ url else url))))"

section \<open>Replies\<close>

datatype 'a read_reply = RErr int | ROk 'a

record ObjResp =
  orName :: string
  orSize :: int
  orIsDir :: bool
  orModified :: int
  orSign :: string
  orMountDetails :: "StorageDetails option"

record FsListResp =
  lrContent :: "ObjResp list"
  lrTotal :: int
  lrReadme :: string
  lrHeader :: string
  lrWrite :: bool
  lrWriteContentBypass :: bool
  lrTools :: "string list"

definition getReadme :: "Meta option \<Rightarrow> string \<Rightarrow> string" where
  "getReadme meta path = (case meta of None \<Rightarrow> '''' | Some m \<Rightarrow> if MetaCoversPath (mPath m) path (RSub m) then Readme m else '''')"

definition getHeader :: "Meta option \<Rightarrow> string \<Rightarrow> string" where
  "getHeader meta path = (case meta of None \<Rightarrow> '''' | Some m \<Rightarrow> if MetaCoversPath (mPath m) path (HeaderSub m) then Header m else '''')"

definition isEncrypt :: "'v read_env \<Rightarrow> Meta option \<Rightarrow> string \<Rightarrow> balance_map \<Rightarrow> balance_map \<times> bool" where
  "isEncrypt env meta path bal =
     (case IsStorageSignEnabled (reMounts env) path bal of
        (bal, True) \<Rightarrow> (bal, True)
      | (bal, False) \<Rightarrow>
          (bal, (case meta of
                   None \<Rightarrow> False
                 | Some m \<Rightarrow>
                     if mPassword m = '''' then False
                     else if \<not> MetaCoversPath (mPath m) path (PSub m) then False
                     else True)))"

definition obj_resp :: "'v read_env \<Rightarrow> string \<Rightarrow> bool \<Rightarrow> Obj \<Rightarrow> ObjResp" where
  "obj_resp env parent encrypt obj =
     \<lparr>orName = GetName obj, orSize = GetSize obj, orIsDir = IsDir obj, orModified = ModTime obj,
      orSign = common_Sign (reSign env) (reSignAll env) obj parent encrypt,
      orMountDetails = (case GetStorageDetailsOf obj of None \<Rightarrow> None | Some d \<Rightarrow> d)\<rparr>"

definition toObjsResp :: "'v read_env \<Rightarrow> Obj list \<Rightarrow> string \<Rightarrow> bool \<Rightarrow> ObjResp list" where
  "toObjsResp env objs parent encrypt = map (obj_resp env parent encrypt) objs"

section \<open>FsList\<close>

record ListReq =
  lqPage :: PageReq
  lqPath :: string
  lqPassword :: string
  lqRefresh :: bool

definition FsList :: "'v read_env \<Rightarrow> ListReq \<Rightarrow> User \<Rightarrow> balance_map \<Rightarrow> (balance_map \<times> FsListResp read_reply) option" where
  "FsList env req user bal =
     (case JoinPath user (lqPath req) of Inl e \<Rightarrow> Some (bal, RErr 403) | Inr reqPath \<Rightarrow>
      case nearest_or (reNear env) reqPath of Inl r \<Rightarrow> Some (bal, RErr 500) | Inr meta \<Rightarrow>
      case CanAccess (reMatch env) user meta reqPath (lqPassword req) of
        None \<Rightarrow> None | Some False \<Rightarrow> Some (bal, RErr 403) | Some True \<Rightarrow>
      let canWriteContentAtPath = (CanWrite (Some user) meta reqPath
            \<and> (CanWriteContent (Permission user) \<or> CanWriteContentBypassUserPerms meta reqPath)) in
      if lqRefresh req \<and> \<not> canWriteContentAtPath then Some (bal, RErr 403)
      else case fs_list env (Some user) meta reqPath (lqRefresh req) (\<not> IsGuest user \<and> \<not> reHideDetails env) bal of
        None \<Rightarrow> None | Some (bal, Inl e) \<Rightarrow> Some (bal, RErr 500) | Some (bal, Inr objs) \<Rightarrow>
      case pagination objs (lqPage req) of None \<Rightarrow> None | Some (n, objs) \<Rightarrow>
      case (if canWriteContentAtPath
            then (case GetStorageAndActualPath (reMounts env) reqPath bal of
                    (bal, None) \<Rightarrow> (bal, []) | (bal, Some (storage, _)) \<Rightarrow> (bal, reTools env storage))
            else (bal, [])) of (bal, tools) \<Rightarrow>
      case isEncrypt env meta reqPath bal of (bal, encrypt) \<Rightarrow>
      Some (bal, ROk \<lparr>lrContent = toObjsResp env objs reqPath encrypt, lrTotal = n, lrReadme = getReadme meta reqPath,
        lrHeader = getHeader meta reqPath, lrWrite = CanWrite (Some user) meta reqPath,
        lrWriteContentBypass = CanWriteContentBypassUserPerms meta reqPath, lrTools = tools\<rparr>))"

section \<open>FsDirs\<close>

record DirReq =
  dqPath :: string
  dqPassword :: string
  dqForceRoot :: bool

definition filterDirs :: "Obj list \<Rightarrow> (string \<times> int) list" where
  "filterDirs objs = map (\<lambda>o1. (GetName o1, ModTime o1)) (filter IsDir objs)"

definition FsDirs :: "'v read_env \<Rightarrow> DirReq \<Rightarrow> User \<Rightarrow> balance_map \<Rightarrow> (balance_map \<times> (string \<times> int) list read_reply) option" where
  "FsDirs env req user bal =
     (case (if dqForceRoot req then (if \<not> IsAdmin user then None else Some (dqPath req))
            else (case JoinPath user (dqPath req) of Inl e \<Rightarrow> None | Inr p \<Rightarrow> Some p)) of
        None \<Rightarrow> Some (bal, RErr 403) | Some reqPath \<Rightarrow>
      case nearest_or (reNear env) reqPath of Inl r \<Rightarrow> Some (bal, RErr 500) | Inr meta \<Rightarrow>
      case CanAccess (reMatch env) user meta reqPath (dqPassword req) of
        None \<Rightarrow> None | Some False \<Rightarrow> Some (bal, RErr 403) | Some True \<Rightarrow>
      case fs_list env (Some user) meta reqPath False False bal of
        None \<Rightarrow> None | Some (bal, Inl e) \<Rightarrow> Some (bal, RErr 500)
      | Some (bal, Inr objs) \<Rightarrow> Some (bal, ROk (filterDirs objs)))"

section \<open>FsGet\<close>

record FsGetReq =
  gqPath :: string
  gqPassword :: string

record FsGetResp =
  grObj :: ObjResp
  grRawURL :: string
  grReadme :: string
  grHeader :: string
  grProvider :: string
  grRelated :: "ObjResp list"

text \<open>\<open>path.Ext\<close>: the suffix from the last dot of the last component.\<close>

definition path_ext :: "string \<Rightarrow> string" where
  "path_ext p = (let b = snd (path_split p) in case last_index_char (CHR ''.'') b of None \<Rightarrow> '''' | Some i \<Rightarrow> drop i b)"

definition filterRelated :: "Obj list \<Rightarrow> Obj \<Rightarrow> Obj list" where
  "filterRelated objs obj =
     (let nameWithoutExt = trim_suffix (GetName obj) (path_ext (GetName obj))
      in filter (\<lambda>o1. GetName o1 \<noteq> GetName obj \<and> has_prefix (GetName o1) nameWithoutExt) objs)"

definition GenerateDownProxyURL :: "(string \<Rightarrow> string) \<Rightarrow> Storage \<Rightarrow> string \<Rightarrow> string" where
  "GenerateDownProxyURL sign storage reqPath =
     (if DownProxyURL storage = '''' then ''''
      else hd (split_char (CHR 0x0A) (DownProxyURL storage)) @ EncodePath reqPath [True]
        @ (if \<not> DisableProxySign storage then ''?sign='' @ sign reqPath else ''''))"

text \<open>The raw URL of a file; \<open>Inl\<close> is the code of an error.\<close>

definition rawURL :: "'v read_env \<Rightarrow> 'v Driver option \<Rightarrow> Meta option \<Rightarrow> string \<Rightarrow> Obj \<Rightarrow> balance_map \<Rightarrow> balance_map \<times> (int + string)" where
  "rawURL env storage meta reqPath obj bal =
     (if IsDir obj then (bal, Inr '''')
      else case storage of None \<Rightarrow> (bal, Inl 500) | Some d \<Rightarrow>
        if reMustProxy env d \<or> WebProxy (dStorage d) then
          (let url = GenerateDownProxyURL (reSign env) (dStorage d) reqPath in
           if url \<noteq> '''' then (bal, Inr url)
           else case isEncrypt env meta reqPath bal of (bal, encrypt) \<Rightarrow>
             let query = (if encrypt \<or> reSignAll env then ''?sign='' @ reSign env reqPath else '''')
             in (bal, Inr (reApiUrl env @ ''/p'' @ EncodePath reqPath [True] @ query)))
        else (case reUrl env obj of
            Some url \<Rightarrow> (bal, Inr url)
          | None \<Rightarrow> (case fs_link env reqPath bal of
                (bal, Inl e) \<Rightarrow> (bal, Inl 500) | (bal, Inr url) \<Rightarrow> (bal, Inr url))))"

definition FsGet :: "'v read_env \<Rightarrow> FsGetReq \<Rightarrow> User \<Rightarrow> balance_map \<Rightarrow> (balance_map \<times> FsGetResp read_reply) option" where
  "FsGet env req user bal =
     (case JoinPath user (gqPath req) of Inl e \<Rightarrow> Some (bal, RErr 403) | Inr reqPath \<Rightarrow>
      case nearest_or (reNear env) reqPath of Inl r \<Rightarrow> Some (bal, RErr 500) | Inr meta \<Rightarrow>
      case CanAccess (reMatch env) user meta reqPath (gqPassword req) of
        None \<Rightarrow> None | Some False \<Rightarrow> Some (bal, RErr 403) | Some True \<Rightarrow>
      case fs_get env reqPath (\<not> IsGuest user \<and> \<not> reHideDetails env) bal of
        None \<Rightarrow> None | Some (bal, Inl e) \<Rightarrow> Some (bal, RErr 500) | Some (bal, Inr obj) \<Rightarrow>
      case GetStorageAndActualPath (reMounts env) reqPath bal of (bal, st) \<Rightarrow>
      let storage = map_option fst st;
          provider = (case reProvider env obj of Some p \<Rightarrow> p
            | None \<Rightarrow> (case storage of Some d \<Rightarrow> DriverName (dStorage d) | None \<Rightarrow> ''unknown'')) in
      case rawURL env storage meta reqPath obj bal of (bal, Inl code) \<Rightarrow> Some (bal, RErr code) | (bal, Inr url) \<Rightarrow>
      let parentPath = path_dir reqPath in
      case fs_list env (Some user) meta parentPath False False bal of None \<Rightarrow> None | Some (bal, sameLevelFiles) \<Rightarrow>
      let related = (case sameLevelFiles of Inl e \<Rightarrow> [] | Inr fs \<Rightarrow> filterRelated fs obj);
          parentMeta = (case reNear env parentPath of Inl e \<Rightarrow> None | Inr m \<Rightarrow> Some m) in
      case isEncrypt env meta reqPath bal of (bal, encrypt) \<Rightarrow>
      case isEncrypt env parentMeta parentPath bal of (bal, parentEncrypt) \<Rightarrow>
      Some (bal, ROk \<lparr>grObj = obj_resp env parentPath encrypt obj, grRawURL = url, grReadme = getReadme meta reqPath,
        grHeader = getHeader meta reqPath, grProvider = provider,
        grRelated = toObjsResp env related parentPath parentEncrypt\<rparr>))"

section \<open>FsOther\<close>

definition FsOther :: "'v read_env \<Rightarrow> FsGetReq \<Rightarrow> string \<Rightarrow> User \<Rightarrow> balance_map \<Rightarrow> (balance_map \<times> string read_reply) option" where
  "FsOther env req method user bal =
     (case JoinPath user (gqPath req) of Inl e \<Rightarrow> Some (bal, RErr 403) | Inr path \<Rightarrow>
      case nearest_or (reNear env) path of Inl r \<Rightarrow> Some (bal, RErr 500) | Inr meta \<Rightarrow>
      case CanAccess (reMatch env) user meta path (gqPassword req) of
        None \<Rightarrow> None | Some False \<Rightarrow> Some (bal, RErr 403) | Some True \<Rightarrow>
      case GetStorageAndActualPath (reMounts env) path bal of
        (bal, None) \<Rightarrow> Some (bal, RErr 500)
      | (bal, Some (storage, actualPath)) \<Rightarrow>
          Some (bal, (case reOther env storage actualPath method of Inl e \<Rightarrow> RErr 500 | Inr r \<Rightarrow> ROk r)))"

section \<open>Pages partition a listing\<close>

lemma go_slice_ok: "0 \<le> i \<Longrightarrow> i \<le> j \<Longrightarrow> j \<le> int (length xs) \<Longrightarrow> go_slice i j xs = Some (take (nat (j - i)) (drop (nat i) xs))"
  by (simp add: go_slice_def)

lemma pagination_page:
  assumes "1 \<le> s" "int (Suc i) * s < 2 ^ 63" "int (length objs) < 2 ^ 62"
  shows "pagination objs \<lparr>Page = int (Suc i), PerPage = s\<rparr> = Some (int (length objs), take (nat s) (drop (i * nat s) objs))"
proof -
  define n where "n = int (length objs)"
  have si: "int (Suc i) * s = int i * s + s" "0 \<le> int i * s" using assms(1) by (simp_all add: algebra_simps)
  then have r: "int64_range (int i * s)" "int64_range (int i * s + s)" using assms unfolding int64_range_def by linarith+
  have nat_is: "nat (int i * s) = i * nat s" using assms(1) by (simp add: nat_mult_distrib)
  show ?thesis
  proof (cases "int i * s > n")
    case True
    then have "length objs \<le> i * nat s" using nat_is n_def by linarith
    then show ?thesis using True r by (simp add: pagination_def n_def wrap64_id Let_def)
  next
    case False
    have t: "take (nat (min (int i * s + s) n - int i * s)) (drop (nat (int i * s)) objs) = take (nat s) (drop (i * nat s) objs)"
    proof (cases "int i * s + s \<le> n")
      case False
      then have "nat (min (int i * s + s) n - int i * s) = length (drop (i * nat s) objs)"
        using nat_is \<open>\<not> int i * s > n\<close> n_def by (simp add: nat_diff_distrib' si(2))
      moreover have "length (drop (i * nat s) objs) \<le> nat s" using False nat_is n_def si(2) assms(1) by simp
      ultimately show ?thesis using nat_is by simp
    qed (use nat_is in simp)
    have "go_slice (int i * s) (min (int i * s + s) n) objs = Some (take (nat s) (drop (i * nat s) objs))"
      using False assms(1) si(2) t by (subst go_slice_ok) (auto simp: n_def)
    moreover have "(if int i * s + s > n then n else int i * s + s) = min (int i * s + s) n" by simp
    ultimately show ?thesis using False r by (simp add: pagination_def wrap64_id Let_def n_def[symmetric])
  qed
qed

lemma take_pages: "concat (map (\<lambda>i. take s (drop (i * s) xs)) [0..<k]) = take (k * s) xs"
proof (induction k)
  case (Suc k)
  then show ?case using take_add[of "k * s" s xs] by (simp add: add.commute)
qed simp

text \<open>The pages of a listing partition it: as long as the last page ends below the greatest integer,
  no page fails, each reports the full length, and the first \<open>k\<close> pages of size \<open>s\<close> are in order the
  first \<open>k * s\<close> entries.\<close>

theorem pages_partition:
  assumes "1 \<le> s" "int k * s < 2 ^ 63" "int (length objs) < 2 ^ 62"
  shows "\<exists>pages. (\<forall>i < k. pagination objs (Validate \<lparr>Page = int (Suc i), PerPage = s\<rparr>) = Some (int (length objs), pages i))
     \<and> concat (map pages [0..<k]) = take (k * nat s) objs"
proof (intro exI conjI allI impI)
  fix i assume i: "i < k"
  have "int (Suc i) * s \<le> int k * s" using i assms(1) by (intro mult_right_mono) auto
  then have "int (Suc i) * s < 2 ^ 63" using assms(2) by (rule le_less_trans)
  moreover have "Validate \<lparr>Page = int (Suc i), PerPage = s\<rparr> = \<lparr>Page = int (Suc i), PerPage = s\<rparr>"
    using assms(1) by (simp add: Validate_def Let_def)
  ultimately show "pagination objs (Validate \<lparr>Page = int (Suc i), PerPage = s\<rparr>) = Some (int (length objs), take (nat s) (drop (i * nat s) objs))"
    using pagination_page[of s i objs] assms(1,3) by metis
qed (rule take_pages)

theorem pages_partition_witness:
  "\<exists>pages. (\<forall>i < 2. pagination ''abc'' (Validate \<lparr>Page = int (Suc i), PerPage = 2\<rparr>) = Some (int (length ''abc''), pages i))
     \<and> concat (map pages [0..<2]) = take (2 * nat 2) ''abc''"
  by (rule pages_partition) simp_all

text \<open>Beyond that the product wraps, and the slice of a negative start panics.\<close>

lemma third_page_without_size_panics: "pagination [1, 2, 3 :: nat] (Validate \<lparr>Page = 3, PerPage = 0\<rparr>) = None"
  by code_simp

section \<open>What a listing shows\<close>

definition obj_meta :: "(string \<Rightarrow> meta_error + Meta) \<Rightarrow> string \<Rightarrow> Meta option \<Rightarrow> Obj \<Rightarrow> Meta option" where
  "obj_meta near reqPath parentMeta o1 =
     (if IsDir o1 then (case near (path_join reqPath (GetName o1)) of Inr m \<Rightarrow> Some m | Inl _ \<Rightarrow> None) else parentMeta)"

definition readable_obj :: "(string \<Rightarrow> meta_error + Meta) \<Rightarrow> User option \<Rightarrow> string \<Rightarrow> Meta option \<Rightarrow> Obj \<Rightarrow> bool" where
  "readable_obj near user reqPath parentMeta o1 \<longleftrightarrow>
     CanRead user (obj_meta near reqPath parentMeta o1) (path_join reqPath (GetName o1))"

lemma filterReadableObjs_Inr:
  "filterReadableObjs near user reqPath parentMeta objs = Inr res \<Longrightarrow> res = filter (readable_obj near user reqPath parentMeta) objs"
proof (induction objs arbitrary: res)
  case (Cons o1 os)
  obtain rest where rest: "filterReadableObjs near user reqPath parentMeta os = Inr rest"
    using Cons.prems by (cases "filterReadableObjs near user reqPath parentMeta os") (auto simp: Let_def split: sum.splits)
  have "res = (if CanRead user (obj_meta near reqPath parentMeta o1) (path_join reqPath (GetName o1)) then o1 # rest else rest)"
    using Cons.prems rest by (auto simp: Let_def obj_meta_def split: if_splits sum.splits meta_error.splits)
  then show ?case using Cons.IH[OF rest] by (simp add: readable_obj_def)
qed simp

definition hidden_by :: "(string \<Rightarrow> string \<Rightarrow> bool option) \<Rightarrow> Meta \<Rightarrow> string \<Rightarrow> bool" where
  "hidden_by re_match m name \<longleftrightarrow> list_ex (\<lambda>r. re_match r name = Some True) (split_char (CHR 0x0A) (Hide m))"

lemma finish_list_shows:
  assumes "finish_list env (Some u) meta path objs vfs = Some (Inr res)"
  shows "res = filter (readable_obj (reNear env) (Some u) path meta) (firsts {} (filter (\<lambda>o1. \<not> (whetherHide (Some u) meta path \<and> hidden_by (reMatch env) (the meta) (GetName o1))) (objs @ vfs)))"
proof -
  obtain regs where regs: "(if whetherHide (Some u) meta path then InitHideReg (reMatch env) (Hide (the meta)) else Some []) = Some regs"
    and f: "filterReadableObjs (reNear env) (Some u) path meta (Merge (\<lambda>r n. reMatch env r n = Some True) regs objs vfs) = Inr res"
    using assms by (auto simp: finish_list_def split: option.splits sum.splits)
  have "regs = (if whetherHide (Some u) meta path then split_char (CHR 0x0A) (Hide (the meta)) else [])"
    using regs by (auto simp: InitHideReg_def Let_def split: if_splits)
  then have "list_ex (\<lambda>r. reMatch env r n = Some True) regs \<longleftrightarrow> whetherHide (Some u) meta path \<and> hidden_by (reMatch env) (the meta) n" for n
    by (simp add: hidden_by_def)
  then show ?thesis using filterReadableObjs_Inr[OF f] by (simp add: Merge_firsts)
qed

lemma fs_list_shows:
  assumes "fs_list env (Some u) meta path refresh wd bal = Some (bal', Inr res)"
  shows "\<exists>all. res = filter (readable_obj (reNear env) (Some u) path meta) (firsts {}
     (filter (\<lambda>o1. \<not> (whetherHide (Some u) meta path \<and> hidden_by (reMatch env) (the meta) (GetName o1))) all))"
proof -
  have "\<exists>objs vfs. finish_list env (Some u) meta path objs vfs = Some (Inr res)"
    using assms unfolding fs_list_def by (auto split: option.splits prod.splits sum.splits if_splits)
  then show ?thesis using finish_list_shows by blast
qed

lemma go_slice_set: "go_slice i j xs = Some ys \<Longrightarrow> set ys \<subseteq> set xs"
  by (auto simp: go_slice_def split: if_splits dest: in_set_takeD in_set_dropD)

lemma pagination_set: "pagination objs req = Some (n, xs) \<Longrightarrow> set xs \<subseteq> set objs"
  unfolding pagination_def Let_def by (auto split: if_splits dest: go_slice_set[THEN subsetD])

lemma FsList_ok:
  assumes "FsList env req user bal = Some (bal', ROk r)"
  obtains reqPath meta bal1 objs n page bal2 where
    "JoinPath user (lqPath req) = Inr reqPath" "nearest_or (reNear env) reqPath = Inr meta"
    "CanAccess (reMatch env) user meta reqPath (lqPassword req) = Some True"
    "fs_list env (Some user) meta reqPath (lqRefresh req) (\<not> IsGuest user \<and> \<not> reHideDetails env) bal = Some (bal1, Inr objs)"
    "pagination objs (lqPage req) = Some (n, page)"
    "lrContent r = toObjsResp env page reqPath (snd (isEncrypt env meta reqPath bal2))"
proof -
  obtain reqPath meta where a: "JoinPath user (lqPath req) = Inr reqPath" "nearest_or (reNear env) reqPath = Inr meta"
    "CanAccess (reMatch env) user meta reqPath (lqPassword req) = Some True"
    using assms by (auto simp: FsList_def split: sum.splits option.splits bool.splits)
  obtain bal1 objs where b: "fs_list env (Some user) meta reqPath (lqRefresh req) (\<not> IsGuest user \<and> \<not> reHideDetails env) bal = Some (bal1, Inr objs)"
    using assms a by (auto simp: FsList_def Let_def split: sum.splits option.splits prod.splits if_splits)
  obtain n page where c: "pagination objs (lqPage req) = Some (n, page)"
    using assms a b by (auto simp: FsList_def Let_def split: option.splits if_splits)
  let ?can = "CanWrite (Some user) meta reqPath \<and> (CanWriteContent (Permission user) \<or> CanWriteContentBypassUserPerms meta reqPath)"
  let ?T = "if ?can then (case GetStorageAndActualPath (reMounts env) reqPath bal1 of
      (bal, None) \<Rightarrow> (bal, []) | (bal, Some (storage, _)) \<Rightarrow> (bal, reTools env storage)) else (bal1, [])"
  obtain bal2 tools where d: "?T = (bal2, tools)" by (rule prod.exhaust[of ?T])
  obtain bal3 enc where e: "isEncrypt env meta reqPath bal2 = (bal3, enc)" by (rule prod.exhaust[of "isEncrypt env meta reqPath bal2"])
  have "lqRefresh req \<and> \<not> ?can \<Longrightarrow> FsList env req user bal = Some (bal, RErr 403)"
    using a by (simp add: FsList_def Let_def)
  then have f: "(lqRefresh req \<and> \<not> ?can) = False" using assms by force
  have "lrContent r = toObjsResp env page reqPath enc"
    using assms[unfolded FsList_def Let_def a b c d e f sum.case option.case prod.case bool.case if_False] by auto
  then show thesis using that[OF a b c, of bal2] e by simp
qed

lemma fs_list_compiles:
  assumes "fs_list env (Some u) meta path refresh wd bal = Some (bal', Inr res)" "whetherHide (Some u) meta path"
  shows "\<forall>line \<in> set (split_char (CHR 0x0A) (Hide (the meta))). reMatch env line '''' \<noteq> None"
proof -
  have "\<exists>objs vfs. finish_list env (Some u) meta path objs vfs = Some (Inr res)"
    using assms(1) unfolding fs_list_def by (auto split: option.splits prod.splits sum.splits if_splits)
  then show ?thesis using assms(2)
    by (auto simp: finish_list_def InitHideReg_def Let_def list_all_iff split: option.splits if_splits)
qed

section \<open>A listed object is accessible\<close>

text \<open>A name that is one component of a path.\<close>

definition entry_name :: "string \<Rightarrow> bool" where
  "entry_name n \<longleftrightarrow> name_ok n \<and> CHR 0x5C \<notin> set n"

lemma entry_path:
  assumes "FixAndCleanPath d = d" "entry_name n"
  shows "FixAndCleanPath (path_join d n) = path_join d n" "fix_comps (path_join d n) = fix_comps d @ [n]"
proof -
  have d: "d = mk_abs (fix_comps d)" using fix_comps(2)[of d] assms(1) by simp
  have nc: "normal_comps (fix_comps d @ [n])" using assms(2) fix_comps(1) by (simp add: entry_name_def)
  have j: "path_join d n = mk_abs (fix_comps d @ [n])"
    using path_join_name[OF fix_comps(1), of n d] assms(2) d by (simp add: entry_name_def)
  have "CHR 0x5C \<notin> set d" using FixAndCleanPath_no_backslash[of d] assms(1) by simp
  then have "CHR 0x5C \<notin> set (mk_abs (fix_comps d @ [n]))"
    using assms(2) d unfolding mk_abs_snoc by (auto simp: entry_name_def split: if_splits)
  then have f: "FixAndCleanPath (mk_abs (fix_comps d @ [n])) = mk_abs (fix_comps d @ [n])"
    using FixAndCleanPath_mk_abs[OF nc] by simp
  then show "FixAndCleanPath (path_join d n) = path_join d n" using j by simp
  show "fix_comps (path_join d n) = fix_comps d @ [n]"
    using f j nc by (simp add: fix_comps_def)
qed

lemma entry_dir_base:
  assumes "FixAndCleanPath d = d" "entry_name n"
  shows "fix_comps (path_dir (path_join d n)) = fix_comps d" "path_base (path_join d n) = n"
proof -
  note e = entry_path[OF assms]
  show "fix_comps (path_dir (path_join d n)) = fix_comps d" using path_dir_comps[OF e(1)] e(2) by simp
  have n: "normal_comps (fix_comps d @ [n])" using fix_comps(1)[of "path_join d n"] e(2) by simp
  have "path_join d n = mk_abs (fix_comps d @ [n])" using fix_comps(2)[of "path_join d n"] e by simp
  then show "path_base (path_join d n) = n" using path_base_mk_abs[OF n] by simp
qed

text \<open>The settings that let a user list a directory let the user access what is in it, when the same meta
  governs it, the name is not hidden and the user may read it.\<close>

lemma access_of_entry:
  assumes d: "FixAndCleanPath d = d" "entry_name n" "p = path_join d n"
    and near: "\<And>m. meta = Some m \<Longrightarrow> IsSubPath (mPath m) d"
    and dir: "CanAccess re user meta d pw = Some True" and read: "CanRead (Some user) meta p"
    and hide: "whetherHide (Some user) meta d \<Longrightarrow> \<forall>line \<in> set (split_char (CHR 0x0A) (Hide (the meta))). re line n = Some False"
  shows "CanAccess re user meta p pw = Some True"
proof (cases meta)
  case None
  then show ?thesis by (simp add: CanAccess_def CanRead_def)
next
  case (Some m)
  note P = entry_path[OF d(1,2), folded d(3)] and B = entry_dir_base[OF d(1,2), folded d(3)]
  have pre: "prefix (fix_comps (mPath m)) (fix_comps d)" using near[OF Some] by (simp add: IsSubPath_comps)
  have up: "MetaCoversPath (mPath m) (path_dir p) sub = MetaCoversPath (mPath m) d sub" for sub by (simp add: MetaCoversPath_comps B)
  have down: "MetaCoversPath (mPath m) p sub \<Longrightarrow> MetaCoversPath (mPath m) d sub" for sub
    using pre P(2) prefix_length_le[OF pre] by (auto simp: MetaCoversPath_comps)
  have "hide_loop re (path_base p) (split_char (CHR 0x0A) (Hide m)) = Some False"
    if "\<not> CanSeeHides (Permission user)" "Hide m \<noteq> ''''" "MetaCoversPath (mPath m) (path_dir p) (HSub m)"
    using hide that Some up[of "HSub m"] by (simp add: whetherHide_def hide_loop_iff B)
  moreover have "CanAccessWithoutPassword (Permission user) \<or> mPassword m = '''' \<or> \<not> MetaCoversPath (mPath m) p (PSub m) \<or> mPassword m = pw"
    using dir down[of "PSub m"] Some by (auto simp: CanAccess_def split: if_splits option.splits bool.splits)
  ultimately show ?thesis using read unfolding CanAccess_def Some by (auto split: option.splits bool.splits)
qed

text \<open>C29: What a listing shows can be accessed.  Each entry (with a proper name) lies under the user's base
  path.  If its nearest meta is that of the directory, a request for it with the same password is granted
  access, so it is neither hidden from the user, nor closed to their reading, nor behind another password.  An
  entry with a meta of its own is not hidden by the directory's list, and a directory is also one that its
  own meta lets the user read; a file with a meta of its own is judged by the meta of the directory only.  (The
  metas that are found lie at or above their paths, and a pattern that does not compile fails for every name.)\<close>

theorem listed_objects_are_accessible:
  assumes list: "FsList env req user bal = Some (bal', ROk r)" "JoinPath user (lqPath req) = Inr d"
    and entry: "c \<in> set (lrContent r)" "entry_name (orName c)" "p = path_join d (orName c)"
    and near: "\<forall>q m. reNear env q = Inr m \<longrightarrow> IsSubPath (mPath m) q"
    and re: "\<forall>line n. reMatch env line '''' \<noteq> None \<longrightarrow> reMatch env line n \<noteq> None"
  shows "IsSubPath (BasePath user) p
    \<and> (reNear env p = reNear env d \<longrightarrow> (\<exists>meta. nearest_or (reNear env) p = Inr meta
         \<and> CanAccess (reMatch env) user meta p (lqPassword req) = Some True))
    \<and> (orIsDir c \<longrightarrow> (\<forall>m. reNear env p = Inr m \<longrightarrow> CanRead (Some user) (Some m) p))
    \<and> (\<forall>m. reNear env d = Inr m \<and> \<not> CanSeeHides (Permission user) \<and> Hide m \<noteq> '''' \<and> MetaCoversPath (mPath m) d (HSub m) \<longrightarrow>
         (\<forall>line \<in> set (split_char (CHR 0x0A) (Hide m)). reMatch env line (orName c) = Some False))"
proof -
  from FsList_ok[OF list(1)] obtain reqPath meta bal1 objs n page bal2 where o:
    "JoinPath user (lqPath req) = Inr reqPath" "nearest_or (reNear env) reqPath = Inr meta"
    "CanAccess (reMatch env) user meta reqPath (lqPassword req) = Some True"
    "fs_list env (Some user) meta reqPath (lqRefresh req) (\<not> IsGuest user \<and> \<not> reHideDetails env) bal = Some (bal1, Inr objs)"
    "pagination objs (lqPage req) = Some (n, page)"
    "lrContent r = toObjsResp env page reqPath (snd (isEncrypt env meta reqPath bal2))" .
  have "reqPath = d" using o(1) list(2) by simp
  note o = o(2-)[unfolded this]
  have d: "FixAndCleanPath d = d" "IsSubPath (BasePath user) d"
    using JoinBasePath_joined[of "BasePath user" "lqPath req" d] list(2) by (simp_all add: JoinPath_def)
  obtain all where all: "objs = filter (readable_obj (reNear env) (Some user) d meta) (firsts {}
     (filter (\<lambda>o1. \<not> (whetherHide (Some user) meta d \<and> hidden_by (reMatch env) (the meta) (GetName o1))) all))"
    using fs_list_shows[OF o(3)] by blast
  obtain o1 where o1: "o1 \<in> set objs" "orName c = GetName o1" "orIsDir c = IsDir o1"
    using entry(1) pagination_set[OF o(4)] by (auto simp: o(5) toObjsResp_def obj_resp_def)
  then have shown: "readable_obj (reNear env) (Some user) d meta o1"
    "\<not> (whetherHide (Some user) meta d \<and> hidden_by (reMatch env) (the meta) (GetName o1))"
    unfolding all using firsts_props(2) by fastforce+
  have lines: "\<forall>line \<in> set (split_char (CHR 0x0A) (Hide (the meta))). reMatch env line (orName c) = Some False"
    if h: "whetherHide (Some user) meta d"
  proof
    fix line assume l: "line \<in> set (split_char (CHR 0x0A) (Hide (the meta)))"
    then have "reMatch env line (orName c) \<noteq> None" using re fs_list_compiles[OF o(3) h] by blast
    moreover have "reMatch env line (orName c) \<noteq> Some True" using shown(2) h l o1(2) by (auto simp: hidden_by_def list_ex_iff)
    ultimately show "reMatch env line (orName c) = Some False" by (cases "reMatch env line (orName c)") auto
  qed
  note P = entry_path[OF d(1) entry(2), folded entry(3)]
  have "IsSubPath (BasePath user) p" using d(2) P(2) by (auto simp: IsSubPath_comps prefix_def)
  moreover have "\<exists>meta. nearest_or (reNear env) p = Inr meta \<and> CanAccess (reMatch env) user meta p (lqPassword req) = Some True"
    if same: "reNear env p = reNear env d"
  proof (intro exI conjI)
    show np: "nearest_or (reNear env) p = Inr meta" using o(1) same by (simp add: nearest_or_def)
    have m: "\<And>m. meta = Some m \<Longrightarrow> IsSubPath (mPath m) d"
      using o(1) near by (auto simp: nearest_or_def split: sum.splits meta_error.splits)
    have "obj_meta (reNear env) d meta o1 = meta"
      using np o1(2) entry(3) by (auto simp: obj_meta_def nearest_or_def split: sum.splits meta_error.splits)
    then have "CanRead (Some user) meta p" using shown(1) o1(2) entry(3) by (simp add: readable_obj_def)
    then show "CanAccess (reMatch env) user meta p (lqPassword req) = Some True"
      using access_of_entry[OF d(1) entry(2,3) m o(2)] lines by blast
  qed
  moreover have "CanRead (Some user) (Some m) p" if "orIsDir c" "reNear env p = Inr m" for m
    using shown(1) that o1(2,3) entry(3) by (simp add: readable_obj_def obj_meta_def)
  moreover have "\<forall>line \<in> set (split_char (CHR 0x0A) (Hide m)). reMatch env line (orName c) = Some False"
    if "reNear env d = Inr m" "\<not> CanSeeHides (Permission user)" "Hide m \<noteq> ''''" "MetaCoversPath (mPath m) d (HSub m)" for m
  proof -
    have "meta = Some m" using o(1) that(1) by (simp add: nearest_or_def)
    then show ?thesis using lines that by (simp add: whetherHide_def)
  qed
  ultimately show ?thesis by blast
qed

section \<open>The links of a listing open\<close>

lemma sign_no_slash: "trim_suffix (HMACSign_Sign mac key data e) ''/'' = HMACSign_Sign mac key data e"
proof -
  have "last (HMACSign_Sign mac key data e) = last (format_int e)" by (simp add: HMACSign_Sign_def Let_def)
  moreover have "last (format_int e) \<noteq> slash"
    using format_int_chars[of "last (format_int e)" e] last_in_set[OF format_int_nonempty[of e]] by (auto simp: is_digit_def)
  ultimately have "last (HMACSign_Sign mac key data e) \<noteq> slash" by simp
  moreover have "HMACSign_Sign mac key data e \<noteq> []" by (simp add: HMACSign_Sign_def Let_def)
  ultimately have "\<not> has_suffix (HMACSign_Sign mac key data e) ''/''" by (auto simp: has_suffix_iff)
  then show ?thesis by (simp add: trim_suffix_def)
qed

lemma encrypt_covers_need:
  assumes "sign_storage (reMounts env) d b" "sign_storage (reMounts env) p b"
    and "fix_comps p = fix_comps d @ [n]"
    and "\<And>m. meta = Some m \<Longrightarrow> IsSubPath (mPath m) d"
    and "snd (needSign (reMounts env) (reSignAll env) meta p bal)"
  shows "snd (isEncrypt env meta d bal2) \<or> reSignAll env"
proof -
  have nopath: False if "meta = Some m" "mPath m = p" for m
    using assms(3) assms(4)[OF that(1)] that(2) by (simp add: IsSubPath_comps prefix_def)
  show ?thesis
    using assms(5) IsStorageSignEnabled_uniform[OF assms(1), of bal2] IsStorageSignEnabled_uniform[OF assms(2), of bal] assms(4) nopath
    by (auto simp: needSign_def isEncrypt_def MetaCoversPath_def split: prod.splits bool.splits option.splits if_splits)
qed

text \<open>C28: The links of a listing open: a file with a proper name that a listing shows, and whose nearest meta is
  that of the directory, is handed on by the download route for the signature that it was listed with, until
  this expires; a file for which the route asks for a signature was listed with the right one.  The storages
  that serve the directory and the file must agree about signing (the balanced ones among themselves and with
  each other), and the metas that are found lie at or above their paths.\<close>

theorem links_of_governed_entries_open:
  assumes list: "FsList env req user bal = Some (bal', ROk r)" "JoinPath user (lqPath req) = Inr d"
    and entry: "c \<in> set (lrContent r)" "\<not> orIsDir c" "entry_name (orName c)" "p = path_join d (orName c)"
    and near: "reNear env p = reNear env d" "\<forall>q m. reNear env q = Inr m \<longrightarrow> IsSubPath (mPath m) q"
    and storages: "sign_storage (reMounts env) d b" "sign_storage (reMounts env) p b"
    and sign: "reSign env = (\<lambda>x. HMACSign_Sign mac key x e)" "int64_range e" "e = 0 \<or> t0 \<le> e"
  shows "snd (Down (reMounts env) (reSignAll env) (reNear env) (HMACSign_Verify mac key t0) p (orSign c) bal'') = NextHandler p"
proof -
  from FsList_ok[OF list(1)] obtain reqPath meta bal1 objs n page bal2 where o:
    "JoinPath user (lqPath req) = Inr reqPath" "nearest_or (reNear env) reqPath = Inr meta"
    "CanAccess (reMatch env) user meta reqPath (lqPassword req) = Some True"
    "fs_list env (Some user) meta reqPath (lqRefresh req) (\<not> IsGuest user \<and> \<not> reHideDetails env) bal = Some (bal1, Inr objs)"
    "pagination objs (lqPage req) = Some (n, page)"
    "lrContent r = toObjsResp env page reqPath (snd (isEncrypt env meta reqPath bal2))" .
  have "reqPath = d" using o(1) list(2) by simp
  note o = o(2,6)[unfolded this]
  have d: "FixAndCleanPath d = d" using JoinBasePath_joined[of "BasePath user" "lqPath req" d] list(2) by (simp add: JoinPath_def)
  note P = entry_path[OF d entry(3), folded entry(4)]
  have m: "\<And>m. meta = Some m \<Longrightarrow> IsSubPath (mPath m) d"
    using o(1) near(2) by (auto simp: nearest_or_def split: sum.splits meta_error.splits)
  have meta: "nearest_or (reNear env) p = Inr meta" using o(1) near(1) by (simp add: nearest_or_def)
  obtain bal3 need where need: "needSign (reMounts env) (reSignAll env) meta p bal'' = (bal3, need)" by fastforce
  have "orSign c = (if snd (isEncrypt env meta d bal2) \<or> reSignAll env then HMACSign_Sign mac key p e else '''')"
    using entry o(2) sign(1) by (auto simp: toObjsResp_def obj_resp_def common_Sign_def)
  then have "need \<Longrightarrow> orSign c = HMACSign_Sign mac key p e"
    using encrypt_covers_need[OF storages P(2), of meta bal'' bal2] m need by simp
  moreover have "HMACSign_Verify mac key t0 p (HMACSign_Sign mac key p e) = None"
    using sign(2,3) by (intro HMACSign_Verify_iff[THEN iffD2] exI[of _ e]) simp
  ultimately show ?thesis
    using meta need P(1) by (cases need) (auto simp: Down_def parsePath_def sign_no_slash)
qed

section \<open>Witnesses and behaviours\<close>

definition demo_obj :: "string \<Rightarrow> bool \<Rightarrow> Obj" where
  "demo_obj n d = Plain \<lparr>obID = '''', obPath = '''', obName = n, obSize = 1, obModified = 0, IsFolder = d, Mask = 0\<rparr>"

definition demo_mac :: "string \<Rightarrow> string \<Rightarrow> string" where
  "demo_mac k m = k @ m"

definition demo_read :: "unit read_env" where
  "demo_read = \<lparr>reMounts = demo_mounts [''/''], reDetails = (\<lambda>_. None), reEarly = (\<lambda>_. False), reNear = (\<lambda>_. Inl MetaNotFound),
     reMatch = (\<lambda>r n. Some (r = n)),
     reList = (\<lambda>d p r. if p = ''/'' then Inr [demo_obj ''home'' True, demo_obj ''home2.txt'' False]
                     else if p = ''/home'' then Inr [demo_obj ''a'' False] else Inl ''not found''),
     reGet = (\<lambda>d p. if p = ''/home'' then Inr (demo_obj ''home'' True) else Inl ''not found''),
     reLink = (\<lambda>d p. Inl ''none''), reOther = (\<lambda>d p m. Inl ''none''), reUrl = (\<lambda>_. None), reProvider = (\<lambda>_. None),
     reMustProxy = (\<lambda>_. False), reTools = (\<lambda>_. []), reSign = (\<lambda>x. HMACSign_Sign demo_mac ''k'' x 9), reSignAll = True,
     reHideDetails = True, reApiUrl = ''''\<rparr>"

definition demo_list_req :: ListReq where
  "demo_list_req = \<lparr>lqPage = \<lparr>Page = 1, PerPage = 10\<rparr>, lqPath = ''/'', lqPassword = '''', lqRefresh = False\<rparr>"

definition demo_reply :: FsListResp where
  "demo_reply = \<lparr>lrContent = [\<lparr>orName = ''a'', orSize = 1, orIsDir = False, orModified = 0,
       orSign = HMACSign_Sign demo_mac ''k'' ''/home/a'' 9, orMountDetails = None\<rparr>], lrTotal = 1, lrReadme = '''', lrHeader = '''',
     lrWrite = True, lrWriteContentBypass = False, lrTools = []\<rparr>"

lemma demo_list: "\<exists>bal'. FsList demo_read demo_list_req demo_user Map.empty = Some (bal', ROk demo_reply)"
proof -
  have "map_option snd (FsList demo_read demo_list_req demo_user Map.empty) = Some (ROk demo_reply)" by code_simp
  then show ?thesis by (auto simp: map_option_case split: option.splits)
qed

theorem listed_objects_are_accessible_witness:
  "list_all (\<lambda>c. orName c = ''a'' \<and> IsSubPath (BasePath demo_user) ''/home/a''
     \<and> CanAccess (reMatch demo_read) demo_user None ''/home/a'' [] = Some True) (lrContent demo_reply)"
  unfolding list_all_iff
proof
  fix c assume c: "c \<in> set (lrContent demo_reply)"
  then have n: "orName c = ''a''" by (simp add: demo_reply_def)
  obtain bal' where l: "FsList demo_read demo_list_req demo_user Map.empty = Some (bal', ROk demo_reply)" using demo_list by blast
  have j: "JoinPath demo_user (lqPath demo_list_req) = Inr ''/home''" and e: "entry_name ''a''"
    and p: "''/home/a'' = path_join ''/home'' ''a''" and pw: "lqPassword demo_list_req = []"
    by code_simp+
  have near: "\<forall>q m. reNear demo_read q = Inr m \<longrightarrow> IsSubPath (mPath m) q"
    and re: "\<forall>line n. reMatch demo_read line '''' \<noteq> None \<longrightarrow> reMatch demo_read line n \<noteq> None"
    and same: "reNear demo_read ''/home/a'' = reNear demo_read ''/home''" "nearest_or (reNear demo_read) ''/home/a'' = Inr None"
    by (simp_all add: demo_read_def nearest_or_def)
  show "orName c = ''a'' \<and> IsSubPath (BasePath demo_user) ''/home/a''
     \<and> CanAccess (reMatch demo_read) demo_user None ''/home/a'' [] = Some True"
    using listed_objects_are_accessible[OF l j c _ _ near re, of "''/home/a''"] n e p pw same by simp
qed

theorem links_of_governed_entries_open_witness:
  "list_all (\<lambda>c. \<not> orIsDir c \<and> orName c = ''a'' \<and>
     snd (Down (reMounts demo_read) True (reNear demo_read) (HMACSign_Verify demo_mac ''k'' 7) ''/home/a'' (orSign c) Map.empty) = NextHandler ''/home/a'')
   (lrContent demo_reply)"
  unfolding list_all_iff
proof
  fix c assume c: "c \<in> set (lrContent demo_reply)"
  then have n: "orName c = ''a''" "\<not> orIsDir c" by (simp_all add: demo_reply_def)
  obtain bal' where l: "FsList demo_read demo_list_req demo_user Map.empty = Some (bal', ROk demo_reply)" using demo_list by blast
  have j: "JoinPath demo_user (lqPath demo_list_req) = Inr ''/home''" and e: "entry_name ''a''"
    and p: "''/home/a'' = path_join ''/home'' ''a''"
    and s: "sign_storage (demo_mounts [''/'']) ''/home'' False" "sign_storage (demo_mounts [''/'']) ''/home/a'' False"
    by code_simp+
  have near: "reNear demo_read ''/home/a'' = reNear demo_read ''/home''" "\<forall>q m. reNear demo_read q = Inr m \<longrightarrow> IsSubPath (mPath m) q"
    by (simp_all add: demo_read_def)
  have m: "reMounts demo_read = demo_mounts [''/'']" "reSignAll demo_read = True" by (simp_all add: demo_read_def)
  have sg: "reSign demo_read = (\<lambda>x. HMACSign_Sign demo_mac ''k'' x 9)" "int64_range 9" "(9 :: int) = 0 \<or> 7 \<le> (9 :: int)"
    by (simp_all add: demo_read_def int64_range_def)
  have "snd (Down (reMounts demo_read) (reSignAll demo_read) (reNear demo_read) (HMACSign_Verify demo_mac ''k'' 7) ''/home/a'' (orSign c) Map.empty)
      = NextHandler ''/home/a''"
    by (rule links_of_governed_entries_open[OF l j c n(2) _ _ near _ _ sg, of False]) (use e p n(1) s m in simp_all)
  then show "\<not> orIsDir c \<and> orName c = ''a'' \<and>
     snd (Down (reMounts demo_read) True (reNear demo_read) (HMACSign_Verify demo_mac ''k'' 7) ''/home/a'' (orSign c) Map.empty) = NextHandler ''/home/a''"
    using n m by simp
qed

text \<open>\<open>FsGet\<close> lists the parent directory for related files without asking whether the user may access it:
  a user confined to \<open>/home\<close> who asks for the own root is told of \<open>/home2.txt\<close>, with its signature.\<close>

lemma related_files_leave_the_base_path:
  "map_option (\<lambda>r. case snd r of ROk r \<Rightarrow> map (\<lambda>c. (orName c, orSign c)) (grRelated r) | RErr e \<Rightarrow> [])
     (FsGet demo_read \<lparr>gqPath = ''/'', gqPassword = ''''\<rparr> demo_user Map.empty)
   = Some [(''home2.txt'', HMACSign_Sign demo_mac ''k'' ''/home2.txt'' 9)]"
  "\<not> IsSubPath (BasePath demo_user) ''/home2.txt''"
  by code_simp+

text \<open>A file is judged by the meta of its directory: one whose own meta names other readers is listed, and
  \<open>FsGet\<close> refuses it.\<close>

definition secret_env :: "unit read_env" where
  "secret_env = demo_read\<lparr>reNear := (\<lambda>p. if p = ''/home/a'' then Inr (demo_meta\<lparr>mPath := ''/home/a'', ReadUsers := [9]\<rparr>) else Inl MetaNotFound)\<rparr>"

lemma file_with_own_meta_is_listed:
  "map_option (\<lambda>r. case snd r of ROk r \<Rightarrow> map orName (lrContent r) | RErr e \<Rightarrow> []) (FsList secret_env demo_list_req demo_user Map.empty) = Some [''a'']"
  "map_option snd (FsGet secret_env \<lparr>gqPath = ''/a'', gqPassword = ''pw''\<rparr> demo_user Map.empty) = Some (RErr 403)"
  by code_simp+

end
