(* ===== verification/Sharing.thy ===== *)
theory Sharing imports Fs_Read Login_Guard begin

text \<open>
  Shares: \<open>internal/model/sharing.go\<close>, \<open>internal/op/sharing.go\<close>, \<open>internal/db/sharing.go\<close>, package
  \<open>internal/sharing\<close> and the handlers of \<open>server/handles/sharing.go\<close>.  The table of shares is a list of
  rows; \<open>op\<close>'s cache of shares is only ever deleted from, so every lookup reads the table.  The JSON
  coding of the file list, random ids and the driver operations are fields of the environment.
\<close>

section \<open>Shares\<close>

record SharingDB =
  shID :: string
  FilesRaw :: string
  Expires :: "int option"
  Pwd :: string
  Accessed :: int
  MaxAccessed :: int
  CreatorId :: nat
  shDisabled :: bool
  shRemark :: string
  shReadme :: string
  shHeader :: string
  shOrderBy :: string
  shOrderDirection :: string
  shExtractFolder :: string

record Sharing =
  shDB :: SharingDB
  Files :: "string list"
  Creator :: "User option"

text \<open>Times are nanoseconds; \<open>zero_time\<close> is the zero \<open>time.Time\<close>.\<close>

definition zero_time :: int where "zero_time = - 62135596800 * 10 ^ 9"

definition Valid :: "int \<Rightarrow> Sharing \<Rightarrow> bool" where
  "Valid t0 s =
     (if shDisabled (shDB s) then False
      else if MaxAccessed (shDB s) > 0 \<and> Accessed (shDB s) \<ge> MaxAccessed (shDB s) then False
      else if length (Files s) = 0 then False
      else if (case Creator s of None \<Rightarrow> True | Some u \<Rightarrow> \<not> CanShare (Permission u)) then False
      else if (case Expires (shDB s) of None \<Rightarrow> False | Some x \<Rightarrow> x \<noteq> zero_time \<and> x < t0) then False
      else True)"

definition VerifyPwd :: "Sharing \<Rightarrow> string \<Rightarrow> bool" where
  "VerifyPwd s pwd \<longleftrightarrow> Pwd (shDB s) = '''' \<or> Pwd (shDB s) = pwd"

section \<open>The table\<close>

text \<open>A query by a struct ignores its zero fields, so an empty id finds the first row in key order.\<close>

definition db_GetSharingById :: "string \<Rightarrow> SharingDB list \<Rightarrow> SharingDB option" where
  "db_GetSharingById i rows =
     (if i = '''' then (case sort_key shID rows of [] \<Rightarrow> None | r # _ \<Rightarrow> Some r) else find (\<lambda>r. shID r = i) rows)"

text \<open>\<open>random.String\<close> gives the first candidate and the strings that extend it while it is taken.\<close>

fun free_id :: "SharingDB list \<Rightarrow> string list \<Rightarrow> string \<Rightarrow> string option" where
  "free_id rows ext i =
     (if length i < 12
      then (if find (\<lambda>r. shID r = i) rows = None then Some i
            else (case ext of [] \<Rightarrow> None | e # es \<Rightarrow> free_id rows es (i @ e)))
      else None)"

definition db_CreateSharing :: "string \<Rightarrow> string list \<Rightarrow> SharingDB \<Rightarrow> SharingDB list \<Rightarrow> SharingDB list \<times> string option" where
  "db_CreateSharing rnd ext s rows =
     (if shID s = '''' then
        (case free_id rows ext rnd of
           None \<Rightarrow> (rows, None)
         | Some i \<Rightarrow> (rows @ [s\<lparr>shID := i\<rparr>], Some i))
      else if find (\<lambda>r. shID r = shID s) rows \<noteq> None then (rows, None)
      else (rows @ [s], Some (shID s)))"

text \<open>\<open>Save\<close> updates the row of that key, and inserts it when there is none.\<close>

definition db_UpdateSharing :: "SharingDB \<Rightarrow> SharingDB list \<Rightarrow> SharingDB list" where
  "db_UpdateSharing s rows =
     (if find (\<lambda>r. shID r = shID s) rows \<noteq> None then map (\<lambda>r. if shID r = shID s then s else r) rows else rows @ [s])"

definition db_UpdateSharingId :: "string \<Rightarrow> string \<Rightarrow> SharingDB list \<Rightarrow> SharingDB list option" where
  "db_UpdateSharingId oldId newId rows =
     (if find (\<lambda>r. shID r = newId) rows \<noteq> None then None
      else Some (map (\<lambda>r. if shID r = oldId then r\<lparr>shID := newId\<rparr> else r) rows))"

definition db_DeleteSharingById :: "string \<Rightarrow> SharingDB list \<Rightarrow> SharingDB list option" where
  "db_DeleteSharingById i rows = (if i = '''' then None else Some (filter (\<lambda>r. shID r \<noteq> i) rows))"

definition db_DeleteSharingsByCreatorId :: "nat \<Rightarrow> SharingDB list \<Rightarrow> SharingDB list" where
  "db_DeleteSharingsByCreatorId creatorId rows = filter (\<lambda>r. CreatorId r \<noteq> creatorId) rows"

section \<open>Operations\<close>

datatype share_error = SharingNotFound | InvalidSharing | WrongShareCode | WrongArchivePassword | ShareOther

record 'v share_env = "'v read_env" +
  seMarshal :: "string list \<Rightarrow> string"
  seUnmarshal :: "string \<Rightarrow> string list option"
  seUserById :: "nat \<Rightarrow> User option"
  seUserByName :: "string \<Rightarrow> User option"
  seSorter :: sorter
  seValidId :: "string \<Rightarrow> bool"
  seForceProxy :: bool
  seShouldProxy :: "'v Driver \<Rightarrow> string \<Rightarrow> bool"
  seArchivePreview :: bool
  seArchiveMeta :: "'v Driver \<Rightarrow> string \<Rightarrow> share_error + string"
  seArchiveList :: "'v Driver \<Rightarrow> string \<Rightarrow> string \<Rightarrow> share_error + Obj list"
  seExtract :: "'v Driver \<Rightarrow> string \<Rightarrow> string \<Rightarrow> share_error + string"

definition files_of :: "('v, 'z) share_env_scheme \<Rightarrow> SharingDB \<Rightarrow> string list" where
  "files_of env s = (case seUnmarshal env (FilesRaw s) of None \<Rightarrow> [] | Some fs \<Rightarrow> fs)"

definition GetSharingById :: "('v, 'z) share_env_scheme \<Rightarrow> string \<Rightarrow> SharingDB list \<Rightarrow> Sharing option" where
  "GetSharingById env i rows =
     (case db_GetSharingById i rows of
        None \<Rightarrow> None
      | Some s \<Rightarrow>
          (case seUserById env (CreatorId s) of
             None \<Rightarrow> None
           | Some creator \<Rightarrow> Some \<lparr>shDB = s, Files = files_of env s, Creator = Some creator\<rparr>))"

definition makeJoined :: "('v, 'z) share_env_scheme \<Rightarrow> SharingDB list \<Rightarrow> Sharing list" where
  "makeJoined env sdb = map (\<lambda>s. \<lparr>shDB = s, Files = files_of env s, Creator = seUserById env (CreatorId s)\<rparr>) sdb"

definition GetSharingUnwrapPath :: "Sharing \<Rightarrow> string \<Rightarrow> string option" where
  "GetSharingUnwrapPath sharing path =
     (if length (Files sharing) = 0 then None
      else if (case Creator sharing of None \<Rightarrow> False
               | Some u \<Rightarrow> \<not> IsAdmin u \<and> list_ex (\<lambda>f. \<not> IsSubPath (BasePath u) f) (Files sharing)) then None
      else if length (Files sharing) = 1 then Some (path_join (hd (Files sharing)) path)
      else let path = drop 1 (FixAndCleanPath path) in
        if length path = 0 then None
        else let (child, rest) = (case cut_char slash path of None \<Rightarrow> (path, '''') | Some (a, b) \<Rightarrow> (a, b));
                 mapPath = (case find (\<lambda>c. child = path_base c) (Files sharing) of None \<Rightarrow> '''' | Some c \<Rightarrow> c)
             in if mapPath = '''' then None else Some (path_join mapPath rest))"

definition op_CreateSharing :: "('v, 'z) share_env_scheme \<Rightarrow> string \<Rightarrow> string list \<Rightarrow> Sharing \<Rightarrow> User \<Rightarrow> SharingDB list \<Rightarrow> SharingDB list \<times> string option" where
  "op_CreateSharing env rnd ext sharing creator rows =
     db_CreateSharing rnd ext ((shDB sharing)\<lparr>CreatorId := ID creator, FilesRaw := seMarshal env (map FixAndCleanPath (Files sharing))\<rparr>) rows"

text \<open>\<open>UpdateSharing(sharing)\<close> and \<open>UpdateSharing(sharing, true)\<close>.\<close>

definition op_UpdateSharing :: "('v, 'z) share_env_scheme \<Rightarrow> Sharing \<Rightarrow> User \<Rightarrow> SharingDB list \<Rightarrow> SharingDB list" where
  "op_UpdateSharing env sharing creator rows =
     db_UpdateSharing ((shDB sharing)\<lparr>CreatorId := ID creator, FilesRaw := seMarshal env (map FixAndCleanPath (Files sharing))\<rparr>) rows"

definition op_SaveSharing :: "Sharing \<Rightarrow> SharingDB list \<Rightarrow> SharingDB list" where
  "op_SaveSharing sharing rows = db_UpdateSharing (shDB sharing) rows"

section \<open>Package \<open>internal/sharing\<close>\<close>

text \<open>The head that all its operations share: the share itself, if it is there, valid and the code is right.\<close>

definition opened :: "('v, 'z) share_env_scheme \<Rightarrow> int \<Rightarrow> string \<Rightarrow> string \<Rightarrow> SharingDB list \<Rightarrow> share_error + Sharing" where
  "opened env t0 sid pwd rows =
     (case GetSharingById env sid rows of
        None \<Rightarrow> Inl SharingNotFound
      | Some sharing \<Rightarrow>
          if \<not> Valid t0 sharing then Inl InvalidSharing
          else if \<not> VerifyPwd sharing pwd then Inl WrongShareCode
          else Inr sharing)"

definition GetStorageVirtualFilesByPath :: "'v storagesMap \<Rightarrow> string \<Rightarrow> Obj list option" where
  "GetStorageVirtualFilesByPath m prefx = getStorageVirtualFilesByPath m prefx None (\<lambda>_. False) ''''"

definition share_root :: "string \<Rightarrow> Obj" where
  "share_root sid = Plain \<lparr>obID = '''', obPath = '''', obName = sid, obSize = 0, obModified = zero_time, IsFolder = True, Mask = 0\<rparr>"

definition sharing_get ::
  "('v, 'z) share_env_scheme \<Rightarrow> int \<Rightarrow> string \<Rightarrow> string \<Rightarrow> string \<Rightarrow> SharingDB list \<Rightarrow> balance_map \<Rightarrow>
    (balance_map \<times> (share_error + Sharing \<times> Obj)) option" where
  "sharing_get env t0 sid path pwd rows bal =
     (case opened env t0 sid pwd rows of Inl e \<Rightarrow> Some (bal, Inl e) | Inr sharing \<Rightarrow>
      let path = FixAndCleanPath path in
      if length (Files sharing) = 1 \<or> path \<noteq> ''/'' then
        (case GetSharingUnwrapPath sharing path of
           None \<Rightarrow> Some (bal, Inl ShareOther)
         | Some unwrapPath \<Rightarrow>
             if unwrapPath = ''/'' then Some (bal, Inr (sharing, share_root sid))
             else (case GetStorageVirtualFilesByPath (reMounts env) (path_dir unwrapPath) of
                 None \<Rightarrow> None
               | Some virtualFiles \<Rightarrow>
                   (case find (\<lambda>f. GetName f = path_base unwrapPath) virtualFiles of
                      Some f \<Rightarrow> Some (bal, Inr (sharing, f))
                    | None \<Rightarrow>
                        (case GetStorageAndActualPath (reMounts env) unwrapPath bal of
                           (bal, None) \<Rightarrow> Some (bal, Inl ShareOther)
                         | (bal, Some (storage, actualPath)) \<Rightarrow>
                             Some (bal, (case reGet env storage actualPath of
                                           Inl e \<Rightarrow> Inl ShareOther | Inr obj \<Rightarrow> Inr (sharing, obj)))))))
      else Some (bal, Inr (sharing, share_root sid)))"

text \<open>The loop of \<open>list\<close> over the files of a share with several: those that are not found are left out.\<close>

fun share_files :: "('v, 'z) share_env_scheme \<Rightarrow> string list \<Rightarrow> balance_map \<Rightarrow> (balance_map \<times> Obj list) option" where
  "share_files env [] bal = Some (bal, [])"
| "share_files env (f # fs) bal =
     (if f = ''/'' then share_files env fs bal
      else case GetStorageVirtualFilesByPath (reMounts env) (path_dir f) of
        None \<Rightarrow> None
      | Some virtualFiles \<Rightarrow>
          (case find (\<lambda>vf. GetName vf = path_base f) virtualFiles of
             Some vf \<Rightarrow> map_option (map_prod id (Cons vf)) (share_files env fs bal)
           | None \<Rightarrow>
               (case GetStorageAndActualPath (reMounts env) f bal of
                  (bal, None) \<Rightarrow> share_files env fs bal
                | (bal, Some (storage, actualPath)) \<Rightarrow>
                    (case reGet env storage actualPath of
                       Inl e \<Rightarrow> share_files env fs bal
                     | Inr obj \<Rightarrow> map_option (map_prod id (Cons obj)) (share_files env fs bal)))))"

definition share_sorted :: "('v, 'z) share_env_scheme \<Rightarrow> Sharing \<Rightarrow> Obj list \<Rightarrow> Obj list" where
  "share_sorted env sharing objs =
     ExtractFolder (SortFiles (seSorter env) objs (shOrderBy (shDB sharing)) (shOrderDirection (shDB sharing))) (shExtractFolder (shDB sharing))"

definition sharing_list ::
  "('v, 'z) share_env_scheme \<Rightarrow> int \<Rightarrow> string \<Rightarrow> string \<Rightarrow> string \<Rightarrow> bool \<Rightarrow> SharingDB list \<Rightarrow> balance_map \<Rightarrow>
    (balance_map \<times> (share_error + Sharing \<times> Obj list)) option" where
  "sharing_list env t0 sid path pwd refresh rows bal =
     (case opened env t0 sid pwd rows of Inl e \<Rightarrow> Some (bal, Inl e) | Inr sharing \<Rightarrow>
      let path = FixAndCleanPath path in
      if length (Files sharing) = 1 \<or> path \<noteq> ''/'' then
        (case GetSharingUnwrapPath sharing path of
           None \<Rightarrow> Some (bal, Inl ShareOther)
         | Some unwrapPath \<Rightarrow>
             (case GetStorageVirtualFilesByPath (reMounts env) unwrapPath of
                None \<Rightarrow> None
              | Some virtualFiles \<Rightarrow>
                  (case GetStorageAndActualPath (reMounts env) unwrapPath bal of
                     (bal, st) \<Rightarrow>
                       if st = None \<and> virtualFiles = [] then Some (bal, Inl ShareOther)
                       else (case (case st of None \<Rightarrow> Inr [] | Some (storage, actualPath) \<Rightarrow> reList env storage actualPath refresh) of
                           Inl e \<Rightarrow> if virtualFiles = [] then Some (bal, Inl ShareOther)
                             else Some (bal, Inr (sharing, share_sorted env sharing (Merge (\<lambda>_ _. False) [] [] virtualFiles)))
                         | Inr objs \<Rightarrow> Some (bal, Inr (sharing, share_sorted env sharing (Merge (\<lambda>_ _. False) [] objs virtualFiles)))))))
      else map_option (map_prod id (\<lambda>objs. Inr (sharing, share_sorted env sharing objs))) (share_files env (Files sharing) bal))"

text \<open>\<open>link\<close>, \<open>archiveMeta\<close> and \<open>archiveList\<close> resolve the path and call the driver.\<close>

definition share_call ::
  "('v, 'z) share_env_scheme \<Rightarrow> ('v Driver \<Rightarrow> string \<Rightarrow> share_error + 'a) \<Rightarrow> int \<Rightarrow> string \<Rightarrow> string \<Rightarrow> string \<Rightarrow> SharingDB list \<Rightarrow> balance_map \<Rightarrow>
    balance_map \<times> (share_error + Sharing \<times> 'a)" where
  "share_call env call t0 sid path pwd rows bal =
     (case opened env t0 sid pwd rows of Inl e \<Rightarrow> (bal, Inl e) | Inr sharing \<Rightarrow>
      let path = FixAndCleanPath path in
      if length (Files sharing) = 1 \<or> path \<noteq> ''/'' then
        (case GetSharingUnwrapPath sharing path of
           None \<Rightarrow> (bal, Inl ShareOther)
         | Some unwrapPath \<Rightarrow>
             (case GetStorageAndActualPath (reMounts env) unwrapPath bal of
                (bal, None) \<Rightarrow> (bal, Inl ShareOther)
              | (bal, Some (storage, actualPath)) \<Rightarrow> (bal, map_sum id (Pair sharing) (call storage actualPath))))
      else (bal, Inl ShareOther))"

definition absolute_url :: "('v, 'z) share_env_scheme \<Rightarrow> string \<Rightarrow> string" where
  "absolute_url env url =
     (if url \<noteq> '''' \<and> \<not> has_prefix url ''http://'' \<and> \<not> has_prefix url ''https://'' then reApiUrl env @ url else url)"

definition sharing_link ::
  "('v, 'z) share_env_scheme \<Rightarrow> int \<Rightarrow> string \<Rightarrow> string \<Rightarrow> string \<Rightarrow> SharingDB list \<Rightarrow> balance_map \<Rightarrow>
    balance_map \<times> (share_error + Sharing \<times> string)" where
  "sharing_link env =
     share_call env (\<lambda>storage actualPath. case reLink env storage actualPath of Inl e \<Rightarrow> Inl ShareOther | Inr url \<Rightarrow> Inr (absolute_url env url))"

definition sharing_archiveMeta ::
  "('v, 'z) share_env_scheme \<Rightarrow> int \<Rightarrow> string \<Rightarrow> string \<Rightarrow> string \<Rightarrow> SharingDB list \<Rightarrow> balance_map \<Rightarrow>
    balance_map \<times> (share_error + Sharing \<times> string)" where
  "sharing_archiveMeta env = share_call env (seArchiveMeta env)"

definition sharing_archiveList ::
  "('v, 'z) share_env_scheme \<Rightarrow> string \<Rightarrow> int \<Rightarrow> string \<Rightarrow> string \<Rightarrow> string \<Rightarrow> SharingDB list \<Rightarrow> balance_map \<Rightarrow>
    balance_map \<times> (share_error + Sharing \<times> Obj list)" where
  "sharing_archiveList env inner = share_call env (\<lambda>storage actualPath. seArchiveList env storage actualPath inner)"

section \<open>Visitors\<close>

text \<open>The state of the handlers: the table, the access cache, and the balance of the mounted storages.\<close>

record 'c share_sys =
  syRows :: "SharingDB list"
  syCache :: 'c
  syBal :: balance_map

datatype share_reply =
    ShareErr int
  | ShareObj Obj string
  | ShareList int "Obj list"
  | ShareText string
  | ShareRedirect string
  | ShareProxy string
  | ShareOk
  | ShareCrash

definition dealError :: "share_error \<Rightarrow> int" where
  "dealError e = (case e of WrongShareCode \<Rightarrow> 403 | WrongArchivePassword \<Rightarrow> 202 | _ \<Rightarrow> 500)"

definition AccessCountDelay :: int where "AccessCountDelay = 30 * minute"

definition access_key :: "string \<Rightarrow> string \<Rightarrow> string" where
  "access_key sid ip = sid @ '':'' @ ip"

definition countAccess :: "'c cache_api \<Rightarrow> int \<Rightarrow> string \<Rightarrow> Sharing \<Rightarrow> 'c share_sys \<Rightarrow> 'c share_sys" where
  "countAccess api t0 ip s sys =
     (let key = access_key (shID (shDB s)) ip in
      if cGet api t0 key (syCache sys) = None
      then sys\<lparr>syCache := cSet api t0 key 0 AccessCountDelay (syCache sys),
               syRows := op_SaveSharing (s\<lparr>shDB := (shDB s)\<lparr>Accessed := wrap64 (Accessed (shDB s) + 1)\<rparr>\<rparr>) (syRows sys)\<rparr>
      else sys)"

definition cut_sid :: "string \<Rightarrow> string \<times> string" where
  "cut_sid path = (case cut_char slash (trim_prefix path ''/'') of None \<Rightarrow> (trim_prefix path ''/'', '''') | Some (a, b) \<Rightarrow> (a, b))"

definition with_code :: "Sharing \<Rightarrow> string \<Rightarrow> string" where
  "with_code s url = (if Pwd (shDB s) \<noteq> '''' then url @ ''?pwd='' @ Pwd (shDB s) else url)"

definition SharingGet ::
  "'c cache_api \<Rightarrow> ('v, 'z) share_env_scheme \<Rightarrow> int \<Rightarrow> string \<Rightarrow> FsGetReq \<Rightarrow> 'c share_sys \<Rightarrow> 'c share_sys \<times> share_reply" where
  "SharingGet api env t0 ip req sys =
     (let (sid, path) = cut_sid (gqPath req) in
      if sid = '''' then (sys, ShareErr 400)
      else case sharing_get env t0 sid path (gqPassword req) (syRows sys) (syBal sys) of
        None \<Rightarrow> (sys, ShareCrash)
      | Some (bal, Inl e) \<Rightarrow> (sys\<lparr>syBal := bal\<rparr>, ShareErr (dealError e))
      | Some (bal, Inr (s, obj)) \<Rightarrow>
          let url = (if \<not> IsDir obj
                     then with_code s (reApiUrl env @ ''/sd'' @ EncodePath (''/'' @ sid @ ''/'' @ path) [True]) else '''')
          in (countAccess api t0 ip s (sys\<lparr>syBal := bal\<rparr>), ShareObj obj url))"

definition SharingList ::
  "'c cache_api \<Rightarrow> ('v, 'z) share_env_scheme \<Rightarrow> int \<Rightarrow> string \<Rightarrow> ListReq \<Rightarrow> 'c share_sys \<Rightarrow> 'c share_sys \<times> share_reply" where
  "SharingList api env t0 ip req sys =
     (let (sid, path) = cut_sid (lqPath req) in
      if sid = '''' then (sys, ShareErr 400)
      else case sharing_list env t0 sid path (lqPassword req) (lqRefresh req) (syRows sys) (syBal sys) of
        None \<Rightarrow> (sys, ShareCrash)
      | Some (bal, Inl e) \<Rightarrow> (sys\<lparr>syBal := bal\<rparr>, ShareErr (dealError e))
      | Some (bal, Inr (s, objs)) \<Rightarrow>
          (countAccess api t0 ip s (sys\<lparr>syBal := bal\<rparr>),
           (case pagination objs (lqPage req) of None \<Rightarrow> ShareCrash | Some (n, page) \<Rightarrow> ShareList n page)))"

definition SharingDown ::
  "'c cache_api \<Rightarrow> ('v, 'z) share_env_scheme \<Rightarrow> int \<Rightarrow> string \<Rightarrow> string \<Rightarrow> string \<Rightarrow> string \<Rightarrow> bool \<Rightarrow> 'c share_sys \<Rightarrow> 'c share_sys \<times> share_reply" where
  "SharingDown api env t0 ip sid path pwd d sys =
     (let path = FixAndCleanPath path in
      case (case opened env t0 sid pwd (syRows sys) of
              Inl e \<Rightarrow> Inl e
            | Inr s \<Rightarrow> if length (Files s) \<noteq> 1 \<and> path = ''/'' then Inl ShareOther else Inr s) of
        Inl e \<Rightarrow> (sys, ShareErr (dealError e))
      | Inr s \<Rightarrow>
          (case GetSharingUnwrapPath s path of
             None \<Rightarrow> (sys, ShareErr 500)
           | Some unwrapPath \<Rightarrow>
               (case GetStorageAndActualPath (reMounts env) unwrapPath (syBal sys) of
                  (bal, None) \<Rightarrow> (sys\<lparr>syBal := bal\<rparr>, ShareErr 500)
                | (bal, Some (storage, actualPath)) \<Rightarrow>
                    let sys = sys\<lparr>syBal := bal\<rparr> in
                    if seForceProxy env \<or> seShouldProxy env storage (path_base actualPath) then
                      (let url = GenerateDownProxyURL (reSign env) (dStorage storage) unwrapPath in
                       if \<not> d \<and> url \<noteq> '''' then (countAccess api t0 ip s sys, ShareRedirect url)
                       else case reLink env storage actualPath of
                         Inl e \<Rightarrow> (sys, ShareErr 500)
                       | Inr l \<Rightarrow> (countAccess api t0 ip s sys, ShareProxy l))
                    else (case reLink env storage actualPath of
                         Inl e \<Rightarrow> (sys, ShareErr 500)
                       | Inr l \<Rightarrow> (countAccess api t0 ip s sys, ShareRedirect l)))))"

definition SharingArchiveMeta ::
  "'c cache_api \<Rightarrow> ('v, 'z) share_env_scheme \<Rightarrow> int \<Rightarrow> string \<Rightarrow> FsGetReq \<Rightarrow> 'c share_sys \<Rightarrow> 'c share_sys \<times> share_reply" where
  "SharingArchiveMeta api env t0 ip req sys =
     (if \<not> seArchivePreview env then (sys, ShareErr 403)
      else let (sid, path) = cut_sid (gqPath req) in
        if sid = '''' then (sys, ShareErr 400)
        else case sharing_archiveMeta env t0 sid path (gqPassword req) (syRows sys) (syBal sys) of
          (bal, Inl e) \<Rightarrow> (sys\<lparr>syBal := bal\<rparr>, ShareErr (dealError e))
        | (bal, Inr (s, ret)) \<Rightarrow> (countAccess api t0 ip s (sys\<lparr>syBal := bal\<rparr>), ShareText ret))"

definition SharingArchiveList ::
  "'c cache_api \<Rightarrow> ('v, 'z) share_env_scheme \<Rightarrow> int \<Rightarrow> string \<Rightarrow> string \<Rightarrow> ListReq \<Rightarrow> 'c share_sys \<Rightarrow> 'c share_sys \<times> share_reply" where
  "SharingArchiveList api env t0 ip inner req sys =
     (if \<not> seArchivePreview env then (sys, ShareErr 403)
      else let (sid, path) = cut_sid (lqPath req) in
        if sid = '''' then (sys, ShareErr 400)
        else case sharing_archiveList env (FixAndCleanPath inner) t0 sid path (lqPassword req) (syRows sys) (syBal sys) of
          (bal, Inl e) \<Rightarrow> (sys\<lparr>syBal := bal\<rparr>, ShareErr (dealError e))
        | (bal, Inr (s, objs)) \<Rightarrow>
            (countAccess api t0 ip s (sys\<lparr>syBal := bal\<rparr>),
             (case pagination objs (lqPage req) of None \<Rightarrow> ShareCrash | Some (n, page) \<Rightarrow> ShareList n page)))"

text \<open>Extracting from a shared archive (through the driver, or by opening the file) is not counted.\<close>

definition SharingArchiveExtract ::
  "('v, 'z) share_env_scheme \<Rightarrow> int \<Rightarrow> string \<Rightarrow> string \<Rightarrow> string \<Rightarrow> string \<Rightarrow> 'c share_sys \<Rightarrow> 'c share_sys \<times> share_reply" where
  "SharingArchiveExtract env t0 sid path pwd inner sys =
     (if \<not> seArchivePreview env then (sys, ShareErr 403)
      else let path = FixAndCleanPath path in
        case (case opened env t0 sid pwd (syRows sys) of
                Inl e \<Rightarrow> Inl e
              | Inr s \<Rightarrow> if length (Files s) \<noteq> 1 \<and> path = ''/'' then Inl ShareOther else Inr s) of
          Inl e \<Rightarrow> (sys, ShareErr (dealError e))
        | Inr s \<Rightarrow>
            (case GetSharingUnwrapPath s path of
               None \<Rightarrow> (sys, ShareErr 500)
             | Some unwrapPath \<Rightarrow>
                 (case GetStorageAndActualPath (reMounts env) unwrapPath (syBal sys) of
                    (bal, None) \<Rightarrow> (sys\<lparr>syBal := bal\<rparr>, ShareErr 500)
                  | (bal, Some (storage, actualPath)) \<Rightarrow>
                      (sys\<lparr>syBal := bal\<rparr>,
                       (case seExtract env storage actualPath (FixAndCleanPath inner) of
                          Inl e \<Rightarrow> ShareErr (dealError e) | Inr l \<Rightarrow> ShareProxy l)))))"

section \<open>Owners\<close>

record UpdateSharingReq =
  uqFiles :: "string list"
  uqExpires :: "int option"
  uqPwd :: string
  uqMaxAccessed :: int
  uqDisabled :: bool
  uqRemark :: string
  uqReadme :: string
  uqHeader :: string
  uqOrderBy :: string
  uqOrderDirection :: string
  uqExtractFolder :: string
  uqCreatorName :: string
  uqAccessed :: int
  uqID :: string
  uqNewID :: string

definition no_files :: "UpdateSharingReq \<Rightarrow> bool" where
  "no_files req \<longleftrightarrow> length (uqFiles req) = 0 \<or> (length (uqFiles req) = 1 \<and> hd (uqFiles req) = '''')"

definition req_fields :: "UpdateSharingReq \<Rightarrow> SharingDB \<Rightarrow> SharingDB" where
  "req_fields req s = s\<lparr>Expires := uqExpires req, Pwd := uqPwd req, Accessed := uqAccessed req, MaxAccessed := uqMaxAccessed req,
     shDisabled := uqDisabled req, shOrderBy := uqOrderBy req, shOrderDirection := uqOrderDirection req,
     shExtractFolder := uqExtractFolder req, shHeader := uqHeader req, shReadme := uqReadme req, shRemark := uqRemark req\<rparr>"

definition new_row :: SharingDB where
  "new_row = \<lparr>shID = '''', FilesRaw = '''', Expires = None, Pwd = '''', Accessed = 0, MaxAccessed = 0, CreatorId = 0, shDisabled = False,
     shRemark = '''', shReadme = '''', shHeader = '''', shOrderBy = '''', shOrderDirection = '''', shExtractFolder = ''''\<rparr>"

definition h_CreateSharing ::
  "('v, 'z) share_env_scheme \<Rightarrow> string \<Rightarrow> string list \<Rightarrow> User \<Rightarrow> UpdateSharingReq option \<Rightarrow> SharingDB list \<Rightarrow> SharingDB list \<times> share_reply" where
  "h_CreateSharing env rnd ext reqUser req rows =
     (case req of None \<Rightarrow> (rows, ShareErr 400) | Some req \<Rightarrow>
      if no_files req then (rows, ShareErr 400)
      else if uqID req \<noteq> '''' \<and> \<not> seValidId env (uqID req) then (rows, ShareErr 400)
      else case (if IsAdmin reqUser \<and> uqCreatorName req \<noteq> ''''
                 then (case seUserByName env (uqCreatorName req) of None \<Rightarrow> Inl (ShareErr 400) | Some u \<Rightarrow> Inr u)
                 else if \<not> CanShare (Permission reqUser) \<or> (\<not> CanCustomizeShareID (Permission reqUser) \<and> uqID req \<noteq> '''')
                   then Inl (ShareErr 403) else Inr reqUser) of
        Inl e \<Rightarrow> (rows, e)
      | Inr user \<Rightarrow>
          let files = map FixAndCleanPath (uqFiles req) in
          if \<not> IsAdmin reqUser \<and> list_ex (\<lambda>f. \<not> IsSubPath (BasePath user) f) files then (rows, ShareErr 500)
          else (case op_CreateSharing env rnd ext
                  \<lparr>shDB = req_fields req (new_row\<lparr>shID := uqID req\<rparr>), Files = files, Creator = Some user\<rparr> user rows of
                (rows, None) \<Rightarrow> (rows, ShareErr 500) | (rows, Some i) \<Rightarrow> (rows, ShareText i)))"

definition h_UpdateSharing ::
  "('v, 'z) share_env_scheme \<Rightarrow> User \<Rightarrow> UpdateSharingReq option \<Rightarrow> SharingDB list \<Rightarrow> SharingDB list \<times> share_reply" where
  "h_UpdateSharing env reqUser req rows =
     (case req of None \<Rightarrow> (rows, ShareErr 400) | Some req \<Rightarrow>
      if no_files req then (rows, ShareErr 400)
      else case (if IsAdmin reqUser \<and> uqCreatorName req \<noteq> ''''
                 then (case seUserByName env (uqCreatorName req) of None \<Rightarrow> Inl (ShareErr 400) | Some u \<Rightarrow> Inr u)
                 else if \<not> CanShare (Permission reqUser) then Inl (ShareErr 403) else Inr reqUser) of
        Inl e \<Rightarrow> (rows, e)
      | Inr user \<Rightarrow>
          let files = map FixAndCleanPath (uqFiles req) in
          if \<not> IsAdmin reqUser \<and> list_ex (\<lambda>f. \<not> IsSubPath (BasePath user) f) files then (rows, ShareErr 500)
          else (case GetSharingById env (uqID req) rows of
              None \<Rightarrow> (rows, ShareErr 404)
            | Some s \<Rightarrow>
                if \<not> IsAdmin reqUser \<and> CreatorId (shDB s) \<noteq> ID user then (rows, ShareErr 404)
                else
                  let user = (if IsAdmin reqUser \<and> uqCreatorName req = '''' then the (Creator s) else user);
                      s = s\<lparr>shDB := req_fields req (shDB s), Files := files, Creator := Some user\<rparr>
                  in if uqNewID req \<noteq> '''' \<and> uqNewID req \<noteq> uqID req then
                    (if \<not> CanCustomizeShareID (Permission reqUser) then (rows, ShareErr 403)
                     else if \<not> seValidId env (uqNewID req) then (rows, ShareErr 400)
                     else case db_UpdateSharingId (shID (shDB s)) (uqNewID req) rows of
                       None \<Rightarrow> (rows, ShareErr 500)
                     | Some rows \<Rightarrow> (op_UpdateSharing env (s\<lparr>shDB := (shDB s)\<lparr>shID := uqNewID req\<rparr>\<rparr>) user rows, ShareOk))
                  else (op_UpdateSharing env s user rows, ShareOk)))"

text \<open>The share of another user: \<open>common.ErrorResp(c, nil, 404)\<close> panics.\<close>

definition h_DeleteSharing ::
  "('v, 'z) share_env_scheme \<Rightarrow> User \<Rightarrow> string \<Rightarrow> SharingDB list \<Rightarrow> SharingDB list \<times> share_reply" where
  "h_DeleteSharing env user sid rows =
     (case GetSharingById env sid rows of
        None \<Rightarrow> (rows, ShareErr 404)
      | Some s \<Rightarrow>
          if \<not> IsAdmin user \<and> CreatorId (shDB s) \<noteq> ID user then (rows, ShareCrash)
          else (case db_DeleteSharingById sid rows of None \<Rightarrow> (rows, ShareErr 500) | Some rows \<Rightarrow> (rows, ShareOk)))"

definition SetEnableSharing ::
  "('v, 'z) share_env_scheme \<Rightarrow> bool \<Rightarrow> User \<Rightarrow> string \<Rightarrow> SharingDB list \<Rightarrow> SharingDB list \<times> share_reply" where
  "SetEnableSharing env disable user sid rows =
     (case GetSharingById env sid rows of
        None \<Rightarrow> (rows, ShareErr 404)
      | Some s \<Rightarrow>
          if \<not> IsAdmin user \<and> CreatorId (shDB s) \<noteq> ID user then (rows, ShareErr 404)
          else (op_SaveSharing (s\<lparr>shDB := (shDB s)\<lparr>shDisabled := disable\<rparr>\<rparr>) rows, ShareOk))"

definition h_GetSharing :: "('v, 'z) share_env_scheme \<Rightarrow> User \<Rightarrow> string \<Rightarrow> SharingDB list \<Rightarrow> int + Sharing \<times> string \<times> int" where
  "h_GetSharing env user sid rows =
     (case GetSharingById env sid rows of
        None \<Rightarrow> Inl 404
      | Some s \<Rightarrow>
          let creator = the (Creator s) in
          if \<not> IsAdmin user \<and> ID creator \<noteq> ID user then Inl 404 else Inr (s, Username creator, Role creator))"

text \<open>\<open>ListSharings\<close>: the rows of the page in key order; \<open>None\<close> is the panic on a missing creator.\<close>

definition db_page :: "PageReq \<Rightarrow> 'a list \<Rightarrow> 'a list" where
  "db_page req rows = take (nat (PerPage req)) (drop (nat (wrap64 ((Page req - 1) * PerPage req))) rows)"

definition ListSharings :: "('v, 'z) share_env_scheme \<Rightarrow> User \<Rightarrow> PageReq \<Rightarrow> SharingDB list \<Rightarrow> ((Sharing \<times> string \<times> int) list \<times> int) option" where
  "ListSharings env user req rows =
     (let rows = (if IsAdmin user then rows else filter (\<lambda>r. CreatorId r = ID user) rows);
          page = makeJoined env (db_page (Validate req) (sort_key shID rows))
      in if list_ex (\<lambda>s. Creator s = None) page then None
         else Some (map (\<lambda>s. (s, Username (the (Creator s)), Role (the (Creator s)))) page, int (length rows)))"

text \<open>\<open>FsListSplit\<close> and \<open>FsGetSplit\<close>: a path under \<open>/@s\<close> goes to the share handlers, any other to the
  handlers of the files, unless a disabled guest asks.\<close>

datatype 'r split_route = SplitErr int | SplitShare 'r | SplitFs 'r

definition guest_disabled :: "User \<Rightarrow> bool" where
  "guest_disabled user \<longleftrightarrow> IsGuest user \<and> Disabled user"

definition FsListSplit :: "User \<Rightarrow> ListReq option \<Rightarrow> ListReq split_route" where
  "FsListSplit user req =
     (case req of
        None \<Rightarrow> SplitErr 400
      | Some req \<Rightarrow>
          let req = req\<lparr>lqPage := Validate (lqPage req)\<rparr> in
          if has_prefix (lqPath req) ''/@s'' then SplitShare (req\<lparr>lqPath := trim_prefix (lqPath req) ''/@s''\<rparr>)
          else if guest_disabled user then SplitErr 401 else SplitFs req)"

definition FsGetSplit :: "User \<Rightarrow> FsGetReq option \<Rightarrow> FsGetReq split_route" where
  "FsGetSplit user req =
     (case req of
        None \<Rightarrow> SplitErr 400
      | Some req \<Rightarrow>
          if has_prefix (gqPath req) ''/@s'' then SplitShare (req\<lparr>gqPath := trim_prefix (gqPath req) ''/@s''\<rparr>)
          else if guest_disabled user then SplitErr 401 else SplitFs req)"

section \<open>A share discloses its files only\<close>

lemma path_join_rel:
  assumes "normal_comps as" "normal_comps bs" "bs \<noteq> []"
  shows "path_join (mk_abs as) (join_char slash bs) = mk_abs (as @ bs)"
proof -
  have n: "normal_comps (as @ bs)" using assms by simp
  have "path_join (mk_abs as) (join_char slash bs)
      = mk_abs (clean_comps True [] (split_char slash (join_char slash as @ slash # join_char slash bs)))"
    by (simp add: path_join_def mk_abs_def path_clean_rooted)
  also have "split_char slash (join_char slash as @ slash # join_char slash bs) = (if as = [] then [[]] else as) @ bs"
    using assms by (cases "as = []") (simp_all add: split_join_append split_join_char normal_comps_def name_ok_def)
  finally show ?thesis using clean_comps_normal_id[OF n] assms(3) by (cases "as = []") (simp_all add: mk_abs_def)
qed

lemma clean_path:
  assumes "FixAndCleanPath p = p"
  shows "p = mk_abs (fix_comps p)" "normal_comps (fix_comps p)" "CHR 0x5C \<notin> set p"
  using fix_comps[of p] FixAndCleanPath_no_backslash[of p] assms by simp_all

lemma clean_joined:
  assumes "FixAndCleanPath f = f" "normal_comps bs" "\<forall>b \<in> set bs. CHR 0x5C \<notin> set b"
  shows "FixAndCleanPath (mk_abs (fix_comps f @ bs)) = mk_abs (fix_comps f @ bs)" "IsSubPath f (mk_abs (fix_comps f @ bs))"
proof -
  note F = clean_path[OF assms(1)]
  have n: "normal_comps (fix_comps f @ bs)" using F(2) assms(2) by simp
  have "CHR 0x5C \<notin> set (join_char slash (fix_comps f))" using F(1,3) by (metis mk_abs_def list.set_intros(2))
  then have "CHR 0x5C \<notin> set (mk_abs (fix_comps f @ bs))"
    using set_join_char[of slash bs] assms(3)
    by (cases "fix_comps f = [] \<or> bs = []") (auto simp: mk_abs_def join_char_append)
  then show c: "FixAndCleanPath (mk_abs (fix_comps f @ bs)) = mk_abs (fix_comps f @ bs)" using FixAndCleanPath_mk_abs[OF n] by simp
  show "IsSubPath f (mk_abs (fix_comps f @ bs))"
    using c n by (simp add: IsSubPath_comps fix_comps_def)
qed

definition in_scope :: "Sharing \<Rightarrow> string \<Rightarrow> bool" where
  "in_scope s p \<longleftrightarrow> (\<exists>f \<in> set (Files s). IsSubPath f p)
     \<and> (case Creator s of None \<Rightarrow> True | Some u \<Rightarrow> IsAdmin u \<or> IsSubPath (BasePath u) p)"

lemma GetSharingUnwrapPath_in_scope:
  assumes "GetSharingUnwrapPath s path = Some u" "\<forall>f \<in> set (Files s). FixAndCleanPath f = f" "FixAndCleanPath path = path"
  shows "in_scope s u \<and> FixAndCleanPath u = u"
proof -
  note P = clean_path[OF assms(3)]
  have pb: "\<forall>b \<in> set (fix_comps path). CHR 0x5C \<notin> set b"
  proof (cases "fix_comps path = []")
    case False
    then have "split_char slash path = [] # fix_comps path" using split_mk_abs P(1,2) by metis
    then show ?thesis using set_split_char[of _ slash path] P(3) by fastforce
  qed simp
  have base: "Files s \<noteq> []" "\<And>c f. Creator s = Some c \<Longrightarrow> f \<in> set (Files s) \<Longrightarrow> IsAdmin c \<or> IsSubPath (BasePath c) f"
    using assms(1) by (auto simp: GetSharingUnwrapPath_def list_ex_iff split: if_splits option.splits)
  obtain f bs where f: "f \<in> set (Files s)" "u = mk_abs (fix_comps f @ bs)" "normal_comps bs" "set bs \<subseteq> set (fix_comps path)"
  proof (cases "length (Files s) = 1")
    case True
    then obtain f where fs: "Files s = [f]" by (cases "Files s") auto
    then have "u = path_join f path" using assms(1) by (auto simp: GetSharingUnwrapPath_def split: if_splits)
    then have "u = mk_abs (fix_comps f @ fix_comps path)"
      using path_join_mk_abs[of "fix_comps f" "fix_comps path"] clean_path[of f] P(1,2) assms(2) fs by simp
    then show thesis using that[of f "fix_comps path"] fs P(2) by simp
  next
    case False
    obtain c cs where cs: "fix_comps path = c # cs"
      using assms(1,3) False P(1) by (cases "fix_comps path") (auto simp: GetSharingUnwrapPath_def mk_abs_def Let_def split: if_splits)
    then have d: "drop 1 (FixAndCleanPath path) = join_char slash (c # cs)" using P(1) assms(3) by (simp add: mk_abs_def)
    have cn: "slash \<notin> set c" "normal_comps cs" using P(2) cs by (simp_all add: name_ok_def)
    have "(case cut_char slash (join_char slash (c # cs)) of None \<Rightarrow> (join_char slash (c # cs), '''') | Some (a, b) \<Rightarrow> (a, b))
        = (c, join_char slash cs)"
      using cn by (cases "cs = []") (simp_all add: cut_char_append join_char_Cons cut_char_None[THEN iffD2])
    then obtain f where f: "find (\<lambda>x. c = path_base x) (Files s) = Some f" "u = path_join f (join_char slash cs)"
      using assms(1) False unfolding GetSharingUnwrapPath_def d Let_def by (auto split: if_splits option.splits)
    then have fin: "f \<in> set (Files s)" by (auto simp: find_Some_iff)
    then have ff: "f = mk_abs (fix_comps f)" "normal_comps (fix_comps f)" using clean_path assms(2) by blast+
    have "u = mk_abs (fix_comps f @ cs)"
    proof (cases "cs = []")
      case True
      moreover have "f \<noteq> []" using ff(1) by (metis mk_abs_nonempty(1))
      ultimately have "u = path_clean (f @ [slash])" using f(2) by (simp add: path_join_def)
      then have "u = path_clean (mk_abs (fix_comps f) @ [slash])" using ff(1) by simp
      then show ?thesis using True ff(2) path_clean_trailing_slash[OF ff(2)]
        by (cases "fix_comps f = []") (simp_all add: mk_abs_def path_clean_rooted)
    qed (use path_join_rel[OF ff(2) cn(2)] f(2) ff(1) in simp)
    then show thesis using that[of f cs] fin cn(2) cs by auto
  qed
  have bsn: "\<forall>b \<in> set bs. CHR 0x5C \<notin> set b" using f(4) pb by blast
  note C = clean_joined[OF _ f(3) bsn, of f]
  have "IsAdmin c \<or> IsSubPath (BasePath c) u" if "Creator s = Some c" for c
    using base(2)[OF that f(1)] C assms(2) f(1,2) by (auto simp: IsSubPath_comps dest: prefix_order.trans)
  then show ?thesis using C assms(2) f(1,2) by (auto simp: in_scope_def split: option.split)
qed

text \<open>Two environments with the same mounts and settings whose drivers agree on what is in the scope of a share.\<close>

definition scope_at :: "Sharing \<Rightarrow> 'v Driver \<Rightarrow> string \<Rightarrow> bool" where
  "scope_at s d a \<longleftrightarrow> in_scope s (GetFullPath (mount d) a)"

definition same_in_scope :: "Sharing \<Rightarrow> ('v, 'z) share_env_scheme \<Rightarrow> ('v, 'z) share_env_scheme \<Rightarrow> bool" where
  "same_in_scope s env env' \<longleftrightarrow>
     env' = env\<lparr>reGet := reGet env', reList := reList env', reLink := reLink env', seArchiveMeta := seArchiveMeta env',
              seArchiveList := seArchiveList env', seExtract := seExtract env'\<rparr>
     \<and> (\<forall>d a. scope_at s d a \<longrightarrow> reGet env' d a = reGet env d a \<and> reList env' d a = reList env d a \<and> reLink env' d a = reLink env d a
          \<and> seArchiveMeta env' d a = seArchiveMeta env d a \<and> seArchiveList env' d a = seArchiveList env d a
          \<and> seExtract env' d a = seExtract env d a)"

lemma same_in_scopeD:
  assumes "same_in_scope s env env'"
  shows "reMounts env' = reMounts env" "seUnmarshal env' = seUnmarshal env" "seUserById env' = seUserById env"
    "reApiUrl env' = reApiUrl env" "seSorter env' = seSorter env" "reSign env' = reSign env" "seForceProxy env' = seForceProxy env"
    "seShouldProxy env' = seShouldProxy env" "seArchivePreview env' = seArchivePreview env"
    "opened env' = opened env" "share_sorted env' = share_sorted env"
proof -
  obtain g l k am al x where e: "env' = env\<lparr>reGet := g, reList := l, reLink := k, seArchiveMeta := am, seArchiveList := al, seExtract := x\<rparr>"
    using assms unfolding same_in_scope_def by blast
  show f: "reMounts env' = reMounts env" "seUnmarshal env' = seUnmarshal env" "seUserById env' = seUserById env"
    "reApiUrl env' = reApiUrl env" "seSorter env' = seSorter env" "reSign env' = reSign env" "seForceProxy env' = seForceProxy env"
    "seShouldProxy env' = seShouldProxy env" "seArchivePreview env' = seArchivePreview env"
    by (simp_all add: e)
  have "files_of env' = files_of env" by (intro ext) (simp add: files_of_def f)
  then have "GetSharingById env' = GetSharingById env" by (intro ext) (simp only: GetSharingById_def f)
  then show "opened env' = opened env" by (intro ext) (simp only: opened_def)
  show "share_sorted env' = share_sorted env" by (intro ext) (simp only: share_sorted_def f)
qed

lemma resolved_scope:
  assumes "mounts_ok m" "in_scope s u \<and> FixAndCleanPath u = u" "GetStorageAndActualPath m u bal = (bal', Some (d, a))"
  shows "scope_at s d a"
  using GetStorageAndActualPath_full(2)[OF assms(1), of u bal d a] assms by (simp add: scope_at_def)

lemma unwrapped_agrees:
  assumes "mounts_ok (reMounts env)" "same_in_scope s env env'" "\<forall>f \<in> set (Files s). FixAndCleanPath f = f"
    and "GetSharingUnwrapPath s (FixAndCleanPath path) = Some u" "GetStorageAndActualPath (reMounts env) u bal = (bal', Some (d, a))"
  shows "reGet env' d a = reGet env d a" "reList env' d a = reList env d a" "reLink env' d a = reLink env d a"
    "seArchiveMeta env' d a = seArchiveMeta env d a" "seArchiveList env' d a = seArchiveList env d a" "seExtract env' d a = seExtract env d a"
proof -
  have "scope_at s d a"
    using resolved_scope[OF assms(1) GetSharingUnwrapPath_in_scope[OF assms(4,3)] assms(5)] by simp
  then show "reGet env' d a = reGet env d a" "reList env' d a = reList env d a" "reLink env' d a = reLink env d a"
    "seArchiveMeta env' d a = seArchiveMeta env d a" "seArchiveList env' d a = seArchiveList env d a" "seExtract env' d a = seExtract env d a"
    using assms(2) by (simp_all add: same_in_scope_def)
qed

lemma sharing_get_agrees:
  assumes "mounts_ok (reMounts env)" "\<And>s. opened env t0 sid pwd rows = Inr s \<Longrightarrow> same_in_scope s env env' \<and> (\<forall>f \<in> set (Files s). FixAndCleanPath f = f)"
    and "opened env' = opened env" "reMounts env' = reMounts env"
  shows "sharing_get env' t0 sid path pwd rows bal = sharing_get env t0 sid path pwd rows bal"
proof (cases "opened env t0 sid pwd rows")
  case (Inr s)
  note S = assms(2)[OF Inr]
  show ?thesis
    using unwrapped_agrees(1)[OF assms(1) conjunct1[OF S] conjunct2[OF S], of path]
    by (auto simp: sharing_get_def Inr assms(3,4) Let_def split: option.split prod.split)
qed (simp add: sharing_get_def assms(3))

lemma sharing_list_agrees:
  assumes "mounts_ok (reMounts env)" "\<And>s. opened env t0 sid pwd rows = Inr s \<Longrightarrow> same_in_scope s env env' \<and> (\<forall>f \<in> set (Files s). FixAndCleanPath f = f)"
    and "opened env' = opened env" "reMounts env' = reMounts env" "share_sorted env' = share_sorted env"
    and "\<And>s. opened env t0 sid pwd rows = Inr s \<Longrightarrow> length (Files s) = 1 \<or> FixAndCleanPath path \<noteq> ''/''"
  shows "sharing_list env' t0 sid path pwd r rows bal = sharing_list env t0 sid path pwd r rows bal"
proof (cases "opened env t0 sid pwd rows")
  case (Inr s)
  note S = assms(2)[OF Inr]
  show ?thesis
    using unwrapped_agrees(2)[OF assms(1) conjunct1[OF S] conjunct2[OF S], of path] assms(6)[OF Inr]
    by (auto simp: sharing_list_def Inr assms(3,4,5) Let_def split: option.split prod.split sum.split)
qed (simp add: sharing_list_def assms(3))

lemma share_call_agrees:
  assumes "mounts_ok (reMounts env)" "\<And>s. opened env t0 sid pwd rows = Inr s \<Longrightarrow> same_in_scope s env env' \<and> (\<forall>f \<in> set (Files s). FixAndCleanPath f = f)"
    and "opened env' = opened env" "reMounts env' = reMounts env"
    and "\<And>s d a. same_in_scope s env env' \<Longrightarrow> scope_at s d a \<Longrightarrow> call' d a = call d a"
  shows "share_call env' call' t0 sid path pwd rows bal = share_call env call t0 sid path pwd rows bal"
proof (cases "opened env t0 sid pwd rows")
  case (Inr s)
  note S = assms(2)[OF Inr]
  have "call' d a = call d a" if "GetSharingUnwrapPath s (FixAndCleanPath path) = Some u"
    "GetStorageAndActualPath (reMounts env) u bal = (bal', Some (d, a))" for u bal bal' d a
    using assms(5)[OF conjunct1[OF S]] resolved_scope[OF assms(1) GetSharingUnwrapPath_in_scope[OF that(1) conjunct2[OF S]] that(2)] by simp
  then show ?thesis
    by (auto simp: share_call_def Inr assms(3,4) Let_def split: option.split prod.split)
qed (simp add: share_call_def assms(3))

text \<open>The requests of a visitor, as the routes hand them to the handlers.\<close>

datatype visit =
    VGet FsGetReq
  | VList ListReq
  | VDown string string string bool
  | VArchiveMeta FsGetReq
  | VArchiveList string ListReq
  | VExtract string string string string

fun visit_path :: "visit \<Rightarrow> string \<times> string" where
  "visit_path (VGet req) = cut_sid (gqPath req)"
| "visit_path (VList req) = cut_sid (lqPath req)"
| "visit_path (VDown sid path pwd d) = (sid, path)"
| "visit_path (VArchiveMeta req) = cut_sid (gqPath req)"
| "visit_path (VArchiveList inner req) = cut_sid (lqPath req)"
| "visit_path (VExtract sid path pwd inner) = (sid, path)"

fun handle_visit ::
  "'c cache_api \<Rightarrow> ('v, 'z) share_env_scheme \<Rightarrow> int \<Rightarrow> string \<Rightarrow> visit \<Rightarrow> 'c share_sys \<Rightarrow> 'c share_sys \<times> share_reply" where
  "handle_visit api env t0 ip (VGet req) sys = SharingGet api env t0 ip req sys"
| "handle_visit api env t0 ip (VList req) sys = SharingList api env t0 ip req sys"
| "handle_visit api env t0 ip (VDown sid path pwd d) sys = SharingDown api env t0 ip sid path pwd d sys"
| "handle_visit api env t0 ip (VArchiveMeta req) sys = SharingArchiveMeta api env t0 ip req sys"
| "handle_visit api env t0 ip (VArchiveList inner req) sys = SharingArchiveList api env t0 ip inner req sys"
| "handle_visit api env t0 ip (VExtract sid path pwd inner) sys = SharingArchiveExtract env t0 sid path pwd inner sys"

definition lists_several :: "visit \<Rightarrow> Sharing \<Rightarrow> bool" where
  "lists_several v s \<longleftrightarrow> (\<exists>req. v = VList req) \<and> length (Files s) \<noteq> 1 \<and> FixAndCleanPath (snd (visit_path v)) = ''/''"

lemma opened_share: "opened env t0 sid pwd rows = Inr s \<Longrightarrow> GetSharingById env sid rows = Some s \<and> Valid t0 s"
  by (auto simp: opened_def split: option.splits if_splits)

text \<open>C30: A share discloses nothing beyond its scope: whatever a visitor asks of it, but for listing the root of a
  share of several files (\<open>several_files_leave_the_base_path\<close>), the answer is the same in every world in which
  the drivers agree on the objects at and below the shared files and, unless the creator is an administrator,
  below the creator's current base path.\<close>

theorem share_discloses_only_its_scope:
  assumes "mounts_ok (reMounts env)" "GetSharingById env (fst (visit_path v)) (syRows sys) = Some s"
    and "\<forall>f \<in> set (Files s). FixAndCleanPath f = f" "same_in_scope s env env'" "\<not> lists_several v s"
  shows "handle_visit api env' t0 ip v sys = handle_visit api env t0 ip v sys"
proof -
  note D = same_in_scopeD[OF assms(4)]
  have o: "same_in_scope s' env env' \<and> (\<forall>f \<in> set (Files s'). FixAndCleanPath f = f)"
    if "opened env t0 (fst (visit_path v)) pwd rows = Inr s'" "rows = syRows sys" for s' pwd rows
    using opened_share[OF that(1)] assms(2,3,4) that(2) by simp
  have call: "scope_at s' d a \<Longrightarrow> same_in_scope s' env env' \<Longrightarrow> seArchiveMeta env' d a = seArchiveMeta env d a
      \<and> seArchiveList env' d a = seArchiveList env d a" for s' d a by (simp add: same_in_scope_def)
  show ?thesis
  proof (cases v)
    case (VGet req)
    obtain sid path where p: "cut_sid (gqPath req) = (sid, path)" by fastforce
    have "sharing_get env' t0 sid path (gqPassword req) (syRows sys) (syBal sys) = sharing_get env t0 sid path (gqPassword req) (syRows sys) (syBal sys)"
      by (rule sharing_get_agrees[OF assms(1) _ D(10,1)]) (use o p VGet in simp)
    then show ?thesis by (simp only: VGet handle_visit.simps SharingGet_def p Let_def prod.case D)
  next
    case (VList req)
    obtain sid path where p: "cut_sid (lqPath req) = (sid, path)" by fastforce
    have "length (Files s') = 1 \<or> FixAndCleanPath path \<noteq> ''/''" if "opened env t0 sid (lqPassword req) (syRows sys) = Inr s'" for s'
      using opened_share[OF that] assms(2,5) p VList by (simp add: lists_several_def)
    then have "sharing_list env' t0 sid path (lqPassword req) (lqRefresh req) (syRows sys) (syBal sys)
        = sharing_list env t0 sid path (lqPassword req) (lqRefresh req) (syRows sys) (syBal sys)"
      by (intro sharing_list_agrees[OF assms(1) _ D(10,1,11)]) (use o p VList in simp_all)
    then show ?thesis by (simp only: VList handle_visit.simps SharingList_def p Let_def prod.case D)
  next
    case (VDown sid path pwd d)
    show ?thesis
    proof (cases "opened env t0 sid pwd (syRows sys)")
      case (Inr s')
      then have S: "same_in_scope s' env env'" "\<forall>f \<in> set (Files s'). FixAndCleanPath f = f" using o[of pwd _ s'] VDown by simp_all
      show ?thesis using unwrapped_agrees(3)[OF assms(1) S, of path]
        by (auto simp: VDown SharingDown_def Inr D Let_def split: option.split prod.split)
    qed (simp add: VDown SharingDown_def D)
  next
    case (VArchiveMeta req)
    obtain sid path where p: "cut_sid (gqPath req) = (sid, path)" by fastforce
    have "share_call env' (seArchiveMeta env') t0 sid path (gqPassword req) (syRows sys) (syBal sys)
        = share_call env (seArchiveMeta env) t0 sid path (gqPassword req) (syRows sys) (syBal sys)"
      by (rule share_call_agrees[OF assms(1) _ D(10,1)]) (use o p VArchiveMeta call in simp_all)
    then show ?thesis by (simp only: VArchiveMeta handle_visit.simps SharingArchiveMeta_def sharing_archiveMeta_def p Let_def prod.case D)
  next
    case (VArchiveList inner req)
    obtain sid path where p: "cut_sid (lqPath req) = (sid, path)" by fastforce
    have "share_call env' (\<lambda>storage actualPath. seArchiveList env' storage actualPath i) t0 sid path (lqPassword req) (syRows sys) (syBal sys)
        = share_call env (\<lambda>storage actualPath. seArchiveList env storage actualPath i) t0 sid path (lqPassword req) (syRows sys) (syBal sys)" for i
      by (rule share_call_agrees[OF assms(1) _ D(10,1)]) (use o p VArchiveList call in simp_all)
    then show ?thesis by (simp only: VArchiveList handle_visit.simps SharingArchiveList_def sharing_archiveList_def p Let_def prod.case D)
  next
    case (VExtract sid path pwd inner)
    show ?thesis
    proof (cases "opened env t0 sid pwd (syRows sys)")
      case (Inr s')
      then have S: "same_in_scope s' env env'" "\<forall>f \<in> set (Files s'). FixAndCleanPath f = f" using o[of pwd _ s'] VExtract by simp_all
      show ?thesis using unwrapped_agrees(6)[OF assms(1) S, of path]
        by (auto simp: VExtract SharingArchiveExtract_def Inr D Let_def split: option.split prod.split)
    qed (simp add: VExtract SharingArchiveExtract_def D)
  qed
qed

section \<open>The number of clients a share serves\<close>

definition served :: "share_reply \<Rightarrow> bool" where
  "served r = (case r of ShareErr _ \<Rightarrow> False | ShareCrash \<Rightarrow> False | _ \<Rightarrow> True)"

fun visit_run :: "'c cache_api \<Rightarrow> ('v, 'z) share_env_scheme \<Rightarrow> (int \<times> string \<times> visit) list \<Rightarrow> 'c share_sys \<Rightarrow> 'c share_sys \<times> (string \<times> share_reply) list" where
  "visit_run api env [] sys = (sys, [])"
| "visit_run api env ((t0, ip, v) # vs) sys =
     (case handle_visit api env t0 ip v sys of (sys, r) \<Rightarrow>
        (case visit_run api env vs sys of (sys, rs) \<Rightarrow> (sys, (ip, r) # rs)))"

definition served_clients :: "(string \<times> share_reply) list \<Rightarrow> string set" where
  "served_clients rs = {ip. \<exists>r. (ip, r) \<in> set rs \<and> served r}"

definition is_extract :: "visit \<Rightarrow> bool" where
  "is_extract v = (case v of VExtract _ _ _ _ \<Rightarrow> True | _ \<Rightarrow> False)"

lemma map_sum_Inr: "map_sum id f z = Inr y \<longleftrightarrow> (\<exists>w. z = Inr w \<and> f w = y)"
  by (cases z) auto

lemma share_call_opened: "share_call env call t0 sid path pwd rows bal = (bal', Inr (s, x)) \<Longrightarrow> opened env t0 sid pwd rows = Inr s"
  unfolding share_call_def by (auto simp: Let_def map_sum_Inr split: sum.splits if_splits option.splits prod.splits)

lemma sharing_get_opened: "sharing_get env t0 sid path pwd rows bal = Some (bal', Inr (s, x)) \<Longrightarrow> opened env t0 sid pwd rows = Inr s"
  unfolding sharing_get_def by (auto simp: Let_def split: sum.splits if_splits option.splits prod.splits)

lemma sharing_list_opened: "sharing_list env t0 sid path pwd r rows bal = Some (bal', Inr (s, x)) \<Longrightarrow> opened env t0 sid pwd rows = Inr s"
  unfolding sharing_list_def by (auto simp: Let_def split: sum.splits if_splits option.splits prod.splits)

definition same_table :: "'c share_sys \<Rightarrow> 'c share_sys \<Rightarrow> bool" where
  "same_table sys sys' \<longleftrightarrow> syRows sys' = syRows sys \<and> syCache sys' = syCache sys"

text \<open>A visit is refused and changes neither table nor cache, or it opened the share and was counted.\<close>

lemma visit_counted:
  assumes "handle_visit api env t0 ip v sys = (sys', r)" "\<not> is_extract v"
  shows "same_table sys sys' \<and> \<not> served r
     \<or> (\<exists>s pwd bal. opened env t0 (fst (visit_path v)) pwd (syRows sys) = Inr s \<and> sys' = countAccess api t0 ip s (sys\<lparr>syBal := bal\<rparr>))"
proof (cases v)
  case (VGet req)
  then show ?thesis using assms(1) sharing_get_opened[of env t0]
    by (auto simp: SharingGet_def Let_def same_table_def served_def split: prod.splits if_splits option.splits sum.splits) blast+
next
  case (VList req)
  then show ?thesis using assms(1) sharing_list_opened[of env t0]
    by (auto simp: SharingList_def Let_def same_table_def served_def split: prod.splits if_splits option.splits sum.splits) blast+
next
  case (VDown sid path pwd d)
  then show ?thesis using assms(1)
    by (auto simp: SharingDown_def Let_def same_table_def served_def split: prod.splits if_splits option.splits sum.splits)
next
  case (VArchiveMeta req)
  then show ?thesis using assms(1)
    by (auto simp: SharingArchiveMeta_def sharing_archiveMeta_def Let_def same_table_def served_def
        split: prod.splits if_splits option.splits sum.splits dest!: share_call_opened)
next
  case (VArchiveList inner req)
  then show ?thesis using assms(1)
    by (auto simp: SharingArchiveList_def sharing_archiveList_def Let_def same_table_def served_def
        split: prod.splits if_splits option.splits sum.splits dest!: share_call_opened)
qed (use assms(2) in \<open>simp add: is_extract_def\<close>)

lemma find_updated:
  "find (\<lambda>r. shID r = i) rows = Some r \<Longrightarrow> shID s = i \<Longrightarrow> find (\<lambda>r. shID r = i) (db_UpdateSharing s rows) = Some s"
proof -
  assume f: "find (\<lambda>r. shID r = i) rows = Some r" "shID s = i"
  have "find (\<lambda>r. shID r = i) xs \<noteq> None \<Longrightarrow> find (\<lambda>r. shID r = i) (map (\<lambda>r. if shID r = i then s else r) xs) = Some s" for xs
    using f(2) by (induction xs) auto
  then show ?thesis using f by (simp add: db_UpdateSharing_def)
qed

lemma opened_row:
  assumes "opened env t0 sid pwd rows = Inr s" "sid \<noteq> ''''"
  shows "find (\<lambda>r. shID r = sid) rows = Some (shDB s)" "Valid t0 s"
  using assms by (auto simp: opened_def GetSharingById_def db_GetSharingById_def split: option.splits if_splits)

definition counted_inv :: "('c \<Rightarrow> string \<Rightarrow> (int \<times> int) option) \<Rightarrow> string \<Rightarrow> int \<Rightarrow> int \<Rightarrow> string set \<Rightarrow> 'c share_sys \<Rightarrow> bool" where
  "counted_inv view sid mx a S sys \<longleftrightarrow> finite S
     \<and> (\<exists>r. find (\<lambda>r. shID r = sid) (syRows sys) = Some r \<and> MaxAccessed r = mx \<and> a + int (card S) \<le> Accessed r \<and> Accessed r \<le> mx)
     \<and> (\<forall>ip. ip \<notin> S \<longrightarrow> view (syCache sys) (access_key sid ip) = None)"

lemma counted_inv_step:
  assumes "cache_laws api view" "counted_inv view sid mx a S sys" "0 \<le> a" "0 < mx" "int64_range mx" "sid \<noteq> ''''"
    and "handle_visit api env t0 ip v sys = (sys', r)" "\<not> is_extract v" "fst (visit_path v) = sid"
  shows "\<exists>S'. S \<subseteq> S' \<and> (served r \<longrightarrow> ip \<in> S') \<and> counted_inv view sid mx a S' sys'"
  using visit_counted[OF assms(7,8)]
proof
  assume "same_table sys sys' \<and> \<not> served r"
  then show ?thesis using assms(2) by (intro exI[of _ S]) (simp add: counted_inv_def same_table_def)
next
  assume "\<exists>s pwd bal. opened env t0 (fst (visit_path v)) pwd (syRows sys) = Inr s \<and> sys' = countAccess api t0 ip s (sys\<lparr>syBal := bal\<rparr>)"
  then obtain s pwd bal where s: "opened env t0 sid pwd (syRows sys) = Inr s" and sys': "sys' = countAccess api t0 ip s (sys\<lparr>syBal := bal\<rparr>)"
    using assms(9) by blast
  note row = opened_row[OF s assms(6)]
  have r: "MaxAccessed (shDB s) = mx" "a + int (card S) \<le> Accessed (shDB s)" "finite S"
    and c: "\<And>ip. ip \<notin> S \<Longrightarrow> view (syCache sys) (access_key sid ip) = None"
    using assms(2) row(1) by (auto simp: counted_inv_def)
  have lt: "Accessed (shDB s) < mx" using row(2) r(1) assms(4) by (auto simp: Valid_def split: if_splits)
  have i: "shID (shDB s) = sid" using row(1) by (auto simp: find_Some_iff)
  show ?thesis
  proof (cases "cGet api t0 (access_key sid ip) (syCache sys) = None")
    case False
    then have "ip \<in> S" using c[of ip] assms(1) by (auto simp: cache_laws_def split: option.splits)
    moreover have "sys' = sys\<lparr>syBal := bal\<rparr>" using False i sys' by (auto simp: countAccess_def Let_def)
    ultimately show ?thesis using assms(2) by (intro exI[of _ S]) (simp add: counted_inv_def)
  next
    case True
    define s' where "s' = (shDB s)\<lparr>Accessed := wrap64 (Accessed (shDB s) + 1)\<rparr>"
    have a1: "Accessed s' = Accessed (shDB s) + 1" "MaxAccessed s' = mx" "shID s' = sid"
      using r lt assms(3,5) i wrap64_id[of "Accessed (shDB s) + 1"] by (simp_all add: s'_def int64_range_def)
    have "syRows sys' = db_UpdateSharing s' (syRows sys)"
      "syCache sys' = cSet api t0 (access_key sid ip) 0 AccessCountDelay (syCache sys)"
      using True i sys' by (simp_all add: countAccess_def Let_def op_SaveSharing_def s'_def)
    moreover have "find (\<lambda>r. shID r = sid) (db_UpdateSharing s' (syRows sys)) = Some s'" by (rule find_updated[OF row(1) a1(3)])
    moreover have "view (cSet api t0 (access_key sid ip) 0 AccessCountDelay (syCache sys)) (access_key sid ip') = None" if "ip' \<notin> insert ip S" for ip'
      using c[of ip'] that assms(1) by (simp add: cache_laws_def access_key_def)
    moreover have "card (insert ip S) \<le> Suc (card S)" by (rule card_insert_le_m1) simp_all
    ultimately show ?thesis using a1 r lt by (intro exI[of _ "insert ip S"]) (auto simp: counted_inv_def)
  qed
qed

lemma counted_inv_run:
  assumes "cache_laws api view" "0 \<le> a" "0 < mx" "int64_range mx" "sid \<noteq> ''''"
  shows "counted_inv view sid mx a S sys \<Longrightarrow> \<forall>(t0, ip, v) \<in> set visits. \<not> is_extract v \<and> fst (visit_path v) = sid \<Longrightarrow>
     visit_run api env visits sys = (sys', rs) \<Longrightarrow> \<exists>S'. S \<union> served_clients rs \<subseteq> S' \<and> counted_inv view sid mx a S' sys'"
proof (induction visits arbitrary: S sys rs)
  case Nil
  then show ?case by (auto simp: served_clients_def)
next
  case (Cons x visits)
  obtain t0 ip v where x: "x = (t0, ip, v)" by (cases x)
  obtain sys1 r where h: "handle_visit api env t0 ip v sys = (sys1, r)" by fastforce
  obtain sys2 rs2 where t: "visit_run api env visits sys1 = (sys2, rs2)" by fastforce
  have e: "sys2 = sys'" "rs = (ip, r) # rs2" using Cons.prems(3) x h t by simp_all
  obtain S1 where S1: "S \<subseteq> S1" "served r \<longrightarrow> ip \<in> S1" "counted_inv view sid mx a S1 sys1"
    using counted_inv_step[OF assms(1) Cons.prems(1) assms(2-5) h] Cons.prems(2) x by auto
  obtain S2 where S2: "S1 \<union> served_clients rs2 \<subseteq> S2" "counted_inv view sid mx a S2 sys'"
    using Cons.IH[OF S1(3) _ t[unfolded e(1)]] Cons.prems(2) by auto
  then have "S \<union> served_clients rs \<subseteq> S2" using S1(1,2) e(2) by (auto simp: served_clients_def)
  then show ?case using S2(2) by blast
qed

text \<open>C31: A share with an access limit serves at most as many different clients as the limit leaves, whatever
  they ask for and in whatever order, as long as each visit is handled before the next one begins, its owner does
  not change it, no client is remembered from before, and nobody extracts from a shared archive (which is not
  counted: \<open>extract_is_not_counted\<close>).\<close>

theorem unchanged_share_serves_bounded_clients:
  assumes "cache_laws api view" "sid \<noteq> ''''" "find (\<lambda>r. shID r = sid) (syRows sys) = Some r"
    and "0 \<le> Accessed r" "Accessed r \<le> MaxAccessed r" "0 < MaxAccessed r" "int64_range (MaxAccessed r)"
    and "\<forall>ip. view (syCache sys) (access_key sid ip) = None"
    and "\<forall>(t0, ip, v) \<in> set visits. \<not> is_extract v \<and> fst (visit_path v) = sid"
    and "visit_run api env visits sys = (sys', rs)"
  shows "int (card (served_clients rs)) \<le> MaxAccessed r - Accessed r"
proof -
  have "counted_inv view sid (MaxAccessed r) (Accessed r) {} sys" using assms(3,5,8) by (simp add: counted_inv_def)
  from counted_inv_run[OF assms(1,4,6,7,2) this assms(9,10)] obtain S' where
    S': "served_clients rs \<subseteq> S'" "counted_inv view sid (MaxAccessed r) (Accessed r) S' sys'" by auto
  then have "card (served_clients rs) \<le> card S'" by (intro card_mono) (auto simp: counted_inv_def)
  moreover have "Accessed r + int (card S') \<le> MaxAccessed r" using S'(2) by (auto simp: counted_inv_def)
  ultimately show ?thesis by simp
qed

section \<open>Users manage their own shares only\<close>

datatype owner_request =
    OCreate string "string list" "UpdateSharingReq option"
  | OUpdate "UpdateSharingReq option"
  | ODelete string
  | OEnable bool string

fun handle_owner :: "('v, 'z) share_env_scheme \<Rightarrow> User \<Rightarrow> owner_request \<Rightarrow> SharingDB list \<Rightarrow> SharingDB list \<times> share_reply" where
  "handle_owner env u (OCreate rnd ext req) rows = h_CreateSharing env rnd ext u req rows"
| "handle_owner env u (OUpdate req) rows = h_UpdateSharing env u req rows"
| "handle_owner env u (ODelete sid) rows = h_DeleteSharing env u sid rows"
| "handle_owner env u (OEnable disable sid) rows = SetEnableSharing env disable u sid rows"

abbreviation keys :: "SharingDB list \<Rightarrow> string list" where
  "keys rows \<equiv> map shID rows"

abbreviation others :: "User \<Rightarrow> SharingDB list \<Rightarrow> SharingDB list" where
  "others u rows \<equiv> filter (\<lambda>r. CreatorId r \<noteq> ID u) rows"

definition own_change :: "User \<Rightarrow> SharingDB list \<Rightarrow> SharingDB list \<Rightarrow> bool" where
  "own_change u rows rows' \<longleftrightarrow> distinct (keys rows') \<and> others u rows' = others u rows"

lemma find_key: "find (\<lambda>r. shID r = i) rows = None \<longleftrightarrow> i \<notin> set (keys rows)"
  by (auto simp: find_None_iff)

lemma GetSharingById_row:
  assumes "GetSharingById env i rows = Some s"
  shows "shDB s \<in> set rows" "i \<noteq> '''' \<Longrightarrow> shID (shDB s) = i"
proof -
  have r: "db_GetSharingById i rows = Some (shDB s)" using assms by (auto simp: GetSharingById_def split: option.splits)
  show "shDB s \<in> set rows"
  proof (cases "i = ''''")
    case True
    then obtain xs where "sort_key shID rows = shDB s # xs" using r by (auto simp: db_GetSharingById_def split: list.splits)
    then show ?thesis by (metis list.set_intros(1) set_sort)
  qed (use r in \<open>auto simp: db_GetSharingById_def find_Some_iff\<close>)
  show "i \<noteq> '''' \<Longrightarrow> shID (shDB s) = i" using r by (auto simp: db_GetSharingById_def find_Some_iff)
qed

lemma own_create:
  assumes "distinct (keys rows)" "db_CreateSharing rnd ext s rows = (rows', i)" "CreatorId s = ID u"
  shows "own_change u rows rows'"
proof -
  have free: "free_id rows ext i = Some j \<Longrightarrow> j \<notin> set (keys rows)" for i j ext
    by (induction rows ext i rule: free_id.induct) (auto simp: find_None_iff split: if_splits option.splits list.splits)
  show ?thesis
    using assms(2,1,3) free[of ext rnd] unfolding db_CreateSharing_def find_key own_change_def
    by (auto simp del: free_id.simps split: if_splits option.splits simp: find_key)
qed

lemma own_update:
  assumes "distinct (keys rows)" "\<And>r. r \<in> set rows \<Longrightarrow> shID r = shID s \<Longrightarrow> CreatorId r = ID u" "CreatorId s = ID u"
  shows "own_change u rows (db_UpdateSharing s rows)"
proof (cases "shID s \<in> set (keys rows)")
  case True
  let ?m = "map (\<lambda>r. if shID r = shID s then s else r) rows"
  have k: "keys ?m = keys rows" by simp
  have o: "others u ?m = others u rows"
    using assms(2,3) by (induction rows) auto
  have "find (\<lambda>r. shID r = shID s) rows \<noteq> None" using True find_key[of "shID s" rows] by blast
  then have m: "db_UpdateSharing s rows = ?m" by (simp add: db_UpdateSharing_def)
  show ?thesis unfolding own_change_def m k using o assms(1) by blast
next
  case False
  then have "find (\<lambda>r. shID r = shID s) rows = None" by (simp add: find_key)
  then show ?thesis using False assms(1,3) by (simp add: own_change_def db_UpdateSharing_def)
qed

lemma unique_row: "distinct (keys rows) \<Longrightarrow> r \<in> set rows \<Longrightarrow> s \<in> set rows \<Longrightarrow> shID r = shID s \<Longrightarrow> r = s"
  by (auto simp: distinct_map inj_on_def)

lemma own_rename:
  assumes "distinct (keys rows)" "s \<in> set rows" "CreatorId s = ID u" "db_UpdateSharingId (shID s) new rows = Some rows1"
    and "shID s' = new" "CreatorId s' = ID u"
  shows "own_change u rows (db_UpdateSharing s' rows1)"
proof -
  have new: "new \<notin> set (keys rows)" and rows1: "rows1 = map (\<lambda>r. if shID r = shID s then r\<lparr>shID := new\<rparr> else r) rows"
    using assms(4) by (auto simp: db_UpdateSharingId_def find_None_iff split: if_splits)
  have own: "r \<in> set rows \<Longrightarrow> shID r = shID s \<Longrightarrow> CreatorId r = ID u" for r
    using unique_row[OF assms(1) _ assms(2)] assms(3) by blast
  have "keys rows1 = map (\<lambda>i. if i = shID s then new else i) (keys rows)" by (simp add: rows1)
  moreover have "inj_on (\<lambda>i. if i = shID s then new else i) (set (keys rows))" using new by (auto simp: inj_on_def)
  ultimately have d: "distinct (keys rows1)" using assms(1) by (simp only: distinct_map)
  have o: "others u rows1 = others u rows" using own unfolding rows1 by (induction rows) auto
  have "CreatorId r = ID u" if r: "r \<in> set rows1" "shID r = shID s'" for r
  proof -
    obtain x where x: "x \<in> set rows" "r = (if shID x = shID s then x\<lparr>shID := new\<rparr> else x)" using r(1) by (auto simp: rows1)
    then show ?thesis using own[OF x(1)] new r(2) assms(5) by (cases "shID x = shID s") auto
  qed
  from own_update[OF d this assms(6)] show ?thesis using o by (simp add: own_change_def)
qed

lemma own_refl: "distinct (keys rows) \<Longrightarrow> own_change u rows rows"
  by (simp add: own_change_def)

text \<open>C32: A user who is not an administrator changes, enables, renames or deletes only the own shares: after
  any request the rows of everybody else are the same, in the same order, and share ids stay unique.\<close>

theorem users_manage_only_their_shares:
  assumes "\<not> IsAdmin u" "distinct (map shID rows)" "handle_owner env u q rows = (rows', reply)"
  shows "distinct (map shID rows') \<and> filter (\<lambda>r. CreatorId r \<noteq> ID u) rows' = filter (\<lambda>r. CreatorId r \<noteq> ID u) rows"
proof -
  note refl = own_refl[OF assms(2), of u]
  have row: "shDB s \<in> set rows" if "GetSharingById env i rows = Some s" for i s using GetSharingById_row(1)[OF that] .
  have "own_change u rows rows'"
  proof (cases q)
    case (OCreate rnd ext req)
    then show ?thesis using assms(1,3) refl own_create[OF assms(2)]
      by (auto simp: h_CreateSharing_def op_CreateSharing_def Let_def split: option.splits if_splits prod.splits)
  next
    case (OUpdate req)
    have upd: "own_change u rows (op_UpdateSharing env s' u rows)"
      if "GetSharingById env i rows = Some s" "CreatorId (shDB s) = ID u" "shID (shDB s') = shID (shDB s)" for i s s'
      unfolding op_UpdateSharing_def using unique_row[OF assms(2) _ row[OF that(1)]] that(2,3) by (intro own_update[OF assms(2)]) auto
    have ren: "own_change u rows (op_UpdateSharing env s' u rows1)"
      if "GetSharingById env i rows = Some s" "CreatorId (shDB s) = ID u" "db_UpdateSharingId (shID (shDB s)) (shID (shDB s')) rows = Some rows1" for i s s' rows1
      unfolding op_UpdateSharing_def by (rule own_rename[OF assms(2) row[OF that(1)] that(2,3)]) simp_all
    show ?thesis using assms(1,3) refl OUpdate
      apply (auto simp: h_UpdateSharing_def Let_def req_fields_def split: option.splits if_splits)
      apply ((erule upd | erule ren); simp)+
      done
  next
    case (ODelete sid)
    have "own_change u rows (filter (\<lambda>r. shID r \<noteq> sid) rows)" if "GetSharingById env sid rows = Some s" "CreatorId (shDB s) = ID u" "sid \<noteq> ''''" for s
    proof -
      have "r \<in> set rows \<Longrightarrow> CreatorId r \<noteq> ID u \<Longrightarrow> shID r \<noteq> sid" for r
        using unique_row[OF assms(2) _ row[OF that(1)]] GetSharingById_row(2)[OF that(1,3)] that(2) by metis
      then have "others u (filter (\<lambda>r. shID r \<noteq> sid) rows) = others u rows" by (auto intro: filter_cong)
      then show ?thesis using assms(2) by (simp add: own_change_def distinct_map_filter)
    qed
    then show ?thesis using assms(1,3) refl ODelete
      by (auto simp: h_DeleteSharing_def db_DeleteSharingById_def split: option.splits if_splits)
  next
    case (OEnable disable sid)
    have "own_change u rows (op_SaveSharing (s\<lparr>shDB := (shDB s)\<lparr>shDisabled := disable\<rparr>\<rparr>) rows)"
      if "GetSharingById env sid rows = Some s" "CreatorId (shDB s) = ID u" for s
      unfolding op_SaveSharing_def using unique_row[OF assms(2) _ row[OF that(1)]] that(2) by (intro own_update[OF assms(2)]) auto
    then show ?thesis using assms(1,3) refl OEnable by (auto simp: SetEnableSharing_def split: option.splits if_splits)
  qed
  then show ?thesis by (simp add: own_change_def)
qed

section \<open>The table stays well formed\<close>

definition wf_rows :: "('v, 'z) share_env_scheme \<Rightarrow> SharingDB list \<Rightarrow> bool" where
  "wf_rows env rows \<longleftrightarrow> distinct (keys rows) \<and> (\<forall>r \<in> set rows. \<forall>f \<in> set (files_of env r). FixAndCleanPath f = f)"

lemma wf_update:
  assumes "wf_rows env rows" "\<forall>f \<in> set (files_of env s). FixAndCleanPath f = f"
  shows "wf_rows env (db_UpdateSharing s rows)"
proof (cases "shID s \<in> set (keys rows)")
  case True
  let ?m = "map (\<lambda>r. if shID r = shID s then s else r) rows"
  have "find (\<lambda>r. shID r = shID s) rows \<noteq> None" using True find_key[of "shID s" rows] by blast
  then have m: "db_UpdateSharing s rows = ?m" by (simp add: db_UpdateSharing_def)
  have k: "keys ?m = keys rows" by simp
  show ?thesis using assms unfolding wf_rows_def m k by auto
next
  case False
  then have "find (\<lambda>r. shID r = shID s) rows = None" by (simp add: find_key)
  then show ?thesis using assms False by (auto simp: wf_rows_def db_UpdateSharing_def)
qed

lemma files_of_rename: "files_of env (r\<lparr>shID := i\<rparr>) = files_of env r"
  by (simp add: files_of_def)

lemma wf_rename:
  assumes "wf_rows env rows" "db_UpdateSharingId old new rows = Some rows1"
  shows "wf_rows env rows1"
proof -
  have new: "new \<notin> set (keys rows)" and rows1: "rows1 = map (\<lambda>r. if shID r = old then r\<lparr>shID := new\<rparr> else r) rows"
    using assms(2) by (auto simp: db_UpdateSharingId_def find_None_iff split: if_splits)
  have "keys rows1 = map (\<lambda>i. if i = old then new else i) (keys rows)" by (simp add: rows1)
  moreover have "inj_on (\<lambda>i. if i = old then new else i) (set (keys rows))" using new by (auto simp: inj_on_def)
  ultimately have "distinct (keys rows1)" using assms(1) by (simp only: wf_rows_def distinct_map)
  moreover have "\<forall>r \<in> set rows1. \<exists>r' \<in> set rows. files_of env r = files_of env r'" by (auto simp: rows1 files_of_rename)
  ultimately show ?thesis using assms(1) unfolding wf_rows_def by metis
qed

lemma free_id_fresh: "free_id rows ext i = Some j \<Longrightarrow> j \<notin> set (keys rows)"
  by (induction rows ext i rule: free_id.induct) (auto simp: find_None_iff split: if_splits option.splits list.splits)

lemma wf_snoc:
  "wf_rows env (rows @ [s]) \<longleftrightarrow> wf_rows env rows \<and> shID s \<notin> set (keys rows) \<and> (\<forall>f \<in> set (files_of env s). FixAndCleanPath f = f)"
  unfolding wf_rows_def by auto

lemma wf_create:
  assumes "wf_rows env rows" "\<forall>f \<in> set (files_of env s). FixAndCleanPath f = f"
  shows "wf_rows env (fst (db_CreateSharing rnd ext s rows))"
  using assms by (auto simp: db_CreateSharing_def find_key wf_snoc files_of_rename dest!: free_id_fresh split: option.split simp del: free_id.simps)

lemma wf_op:
  assumes "wf_rows env rows" "seUnmarshal env (seMarshal env (map FixAndCleanPath (Files s))) = Some (map FixAndCleanPath (Files s))"
  shows "wf_rows env (op_UpdateSharing env s u rows)" "wf_rows env (fst (op_CreateSharing env rnd ext s u rows))"
proof -
  have "\<forall>f \<in> set (files_of env ((shDB s)\<lparr>CreatorId := j, FilesRaw := seMarshal env (map FixAndCleanPath (Files s))\<rparr>)). FixAndCleanPath f = f" for j
    by (simp add: files_of_def assms(2))
  then show "wf_rows env (op_UpdateSharing env s u rows)" "wf_rows env (fst (op_CreateSharing env rnd ext s u rows))"
    unfolding op_UpdateSharing_def op_CreateSharing_def by (blast intro: wf_update[OF assms(1)] wf_create[OF assms(1)])+
qed

lemma wf_save:
  assumes "wf_rows env rows" "GetSharingById env i rows = Some s" "FilesRaw r = FilesRaw (shDB s)"
  shows "wf_rows env (db_UpdateSharing r rows)"
  using assms GetSharingById_row(1)[OF assms(2)] by (intro wf_update) (auto simp: wf_rows_def files_of_def)

definition codes :: "('v, 'z) share_env_scheme \<Rightarrow> UpdateSharingReq option \<Rightarrow> bool" where
  "codes env req = (case req of None \<Rightarrow> True | Some r \<Rightarrow>
     seUnmarshal env (seMarshal env (map FixAndCleanPath (uqFiles r))) = Some (map FixAndCleanPath (uqFiles r)))"

lemma wf_h_create:
  assumes "wf_rows env rows" "codes env req"
  shows "wf_rows env (fst (h_CreateSharing env rnd ext u req rows))"
proof (cases req)
  case (Some r)
  have W: "wf_rows env (fst (op_CreateSharing env rnd ext \<lparr>shDB = d, Files = map FixAndCleanPath (uqFiles r), Creator = c\<rparr> v rows))" for d c v
    using assms(2) by (intro wf_op(2)[OF assms(1)]) (simp add: codes_def Some comp_def)
  have *: "fst (case p of (rows, None) \<Rightarrow> (rows, ShareErr 500) | (rows, Some i) \<Rightarrow> (rows, ShareText i)) = fst p" for p :: "SharingDB list \<times> string option"
    by (simp split: prod.split option.split)
  show ?thesis unfolding h_CreateSharing_def Some Let_def option.case
    by (auto simp only: * fst_conv W assms(1) split: if_split sum.split)
qed (simp add: h_CreateSharing_def assms)

lemma wf_h_update:
  assumes "wf_rows env rows" "codes env req"
  shows "wf_rows env (fst (h_UpdateSharing env u req rows))"
proof (cases req)
  case (Some r)
  have W: "wf_rows env rows1 \<Longrightarrow> Files s = map FixAndCleanPath (uqFiles r) \<Longrightarrow> wf_rows env (fst (op_UpdateSharing env s v rows1, ShareOk))"
    for rows1 s v using assms(2) by (auto intro!: wf_op(1) simp add: codes_def Some comp_def)
  let ?ok = "\<lambda>x :: SharingDB list \<times> share_reply. wf_rows env (fst x)"
  note [split del] = if_split
  have i: "P (if b then x else y)" if "P x" "P y" for P b and x y :: "SharingDB list \<times> share_reply"
    using that by (cases b) simp_all
  show ?thesis unfolding h_UpdateSharing_def Some Let_def option.case
    apply (rule i[where P = ?ok], simp add: assms(1))
    apply (split sum.split, intro conjI allI impI, simp add: assms(1))
    apply (rule i[where P = ?ok], simp add: assms(1))
    apply (split option.split, intro conjI allI impI, simp add: assms(1))
    apply (rule i[where P = ?ok], simp add: assms(1))
    apply (rule i[where P = ?ok])
     apply (rule i[where P = ?ok], simp add: assms(1))
     apply (rule i[where P = ?ok], simp add: assms(1))
     apply (split option.split, intro conjI allI impI, simp add: assms(1))
     apply (rule W, erule wf_rename[OF assms(1)], simp)
    apply (rule W[OF assms(1)], simp)
    done
qed (simp add: h_UpdateSharing_def assms)

text \<open>C33: Every request, of an owner or of a visitor, leaves the table of shares well formed: ids are unique,
  and the files of every share are clean absolute paths.\<close>

theorem share_rows_stay_well_formed:
  assumes "wf_rows env (syRows sys)"
    "\<And>req rnd ext. q \<in> {OCreate rnd ext req, OUpdate req} \<Longrightarrow> codes env req"
  shows "wf_rows env (fst (handle_owner env u q (syRows sys))) \<and> wf_rows env (syRows (fst (handle_visit api env t0 ip v sys)))"
proof
  show "wf_rows env (fst (handle_owner env u q (syRows sys)))"
  proof (cases q)
    case (ODelete sid)
    have "wf_rows env (filter (\<lambda>r. shID r \<noteq> sid) (syRows sys))" using assms(1) by (auto simp: wf_rows_def distinct_map_filter)
    then show ?thesis using assms(1) ODelete by (auto simp: h_DeleteSharing_def db_DeleteSharingById_def split: option.split)
  next
    case (OEnable disable sid)
    then show ?thesis using assms(1) by (auto simp: SetEnableSharing_def op_SaveSharing_def split: option.split intro!: wf_save)
  qed (use assms wf_h_create wf_h_update in auto)
  obtain sys' r where h: "handle_visit api env t0 ip v sys = (sys', r)" by fastforce
  show "wf_rows env (syRows (fst (handle_visit api env t0 ip v sys)))"
  proof (cases "is_extract v")
    case True
    then show ?thesis using assms(1)
      by (auto simp: is_extract_def SharingArchiveExtract_def Let_def split: visit.splits sum.split option.split prod.split)
  next
    case False
    from visit_counted[OF h this] show ?thesis
    proof
      assume "same_table sys sys' \<and> \<not> served r"
      then show ?thesis using assms(1) h by (simp add: same_table_def)
    next
      assume "\<exists>s pwd bal. opened env t0 (fst (visit_path v)) pwd (syRows sys) = Inr s \<and> sys' = countAccess api t0 ip s (sys\<lparr>syBal := bal\<rparr>)"
      then obtain s pwd bal where o: "opened env t0 (fst (visit_path v)) pwd (syRows sys) = Inr s"
        and sys': "sys' = countAccess api t0 ip s (sys\<lparr>syBal := bal\<rparr>)" by blast
      have "wf_rows env (db_UpdateSharing (shDB s\<lparr>Accessed := k\<rparr>) (syRows sys))" for k
        by (rule wf_save[OF assms(1) conjunct1[OF opened_share[OF o]]]) simp
      then show ?thesis using h assms(1) by (simp add: sys' countAccess_def Let_def op_SaveSharing_def)
    qed
  qed
qed

section \<open>Witnesses and behaviours\<close>

definition demo_sharer :: User where
  "demo_sharer = demo_user\<lparr>Permission := 0x4000\<rparr>"

definition demo_share :: "unit share_env" where
  "demo_share = \<lparr>reMounts = demo_mounts [''/''], reDetails = (\<lambda>_. None), reEarly = (\<lambda>_. False), reNear = (\<lambda>_. Inl MetaNotFound),
     reMatch = (\<lambda>r n. Some (r = n)), reList = reList demo_read,
     reGet = (\<lambda>d p. if p = ''/home'' then Inr (demo_obj ''home'' True) else if p = ''/home/a'' then Inr (demo_obj ''a'' False)
                  else if p = ''/etc/b'' then Inr (demo_obj ''b'' False) else Inl ''not found''),
     reLink = (\<lambda>d p. Inr (''/d'' @ p)), reOther = (\<lambda>d p m. Inl ''none''), reUrl = (\<lambda>_. None), reProvider = (\<lambda>_. None),
     reMustProxy = (\<lambda>_. False), reTools = (\<lambda>_. []), reSign = (\<lambda>x. x), reSignAll = True, reHideDetails = True, reApiUrl = '''',
     seMarshal = join_char (CHR 0x0A), seUnmarshal = (\<lambda>s. Some (split_char (CHR 0x0A) s)),
     seUserById = (\<lambda>i. if i = 3 then Some demo_sharer else None), seUserByName = (\<lambda>_. None),
     seSorter = \<lparr>sort_Slice = (\<lambda>_ xs. xs), natural_less = (\<lambda>_ _. False)\<rparr>, seValidId = (\<lambda>_. True), seForceProxy = False,
     seShouldProxy = (\<lambda>_ _. False), seArchivePreview = True, seArchiveMeta = (\<lambda>_ _. Inr ''zip''),
     seArchiveList = (\<lambda>_ _ _. Inr []), seExtract = (\<lambda>_ _ _. Inr ''bytes'')\<rparr>"

definition demo_row :: SharingDB where
  "demo_row = new_row\<lparr>shID := ''s1'', FilesRaw := ''/home'', CreatorId := 3, MaxAccessed := 1\<rparr>"

definition demo_two :: SharingDB where
  "demo_two = new_row\<lparr>shID := ''s2'', FilesRaw := ''/home/a'' @ [CHR 0x0A] @ ''/etc/b'', CreatorId := 3\<rparr>"

definition demo_sys :: "demo_cache share_sys" where
  "demo_sys = \<lparr>syRows = [demo_row, demo_two], syCache = Map.empty, syBal = Map.empty\<rparr>"

definition demo_get :: visit where
  "demo_get = VGet \<lparr>gqPath = ''/s1/a'', gqPassword = ''''\<rparr>"

theorem share_discloses_only_its_scope_witness:
  "(case handle_visit demo_cache (demo_share\<lparr>reGet := (\<lambda>d p. if IsSubPath ''/home'' (GetFullPath (mount d) p) then reGet demo_share d p
        else Inr (demo_obj ''secret'' False))\<rparr>) 0 ''ip'' demo_get demo_sys of (sys, r) \<Rightarrow> r) = ShareObj (demo_obj ''a'' False) ''/sd/s1/a''"
proof -
  define env' where "env' = demo_share\<lparr>reGet := (\<lambda>d p. if IsSubPath ''/home'' (GetFullPath (mount d) p) then reGet demo_share d p
        else Inr (demo_obj ''secret'' False))\<rparr>"
  define s where "s = \<lparr>shDB = demo_row, Files = [''/home''], Creator = Some demo_sharer\<rparr>"
  have m: "reMounts demo_share = demo_mounts [''/'']" by (simp add: demo_share_def)
  have ok: "mounts_ok (reMounts demo_share)" unfolding m mounts_ok_def by code_simp
  have g: "GetSharingById demo_share (fst (visit_path demo_get)) (syRows demo_sys) = Some s" unfolding s_def by code_simp
  have c: "\<forall>f \<in> set (Files s). FixAndCleanPath f = f" unfolding s_def by code_simp
  have same: "same_in_scope s demo_share env'"
    by (auto simp: same_in_scope_def env'_def scope_at_def in_scope_def s_def)
  have n: "\<not> lists_several demo_get s" by (simp add: lists_several_def demo_get_def)
  have "snd (handle_visit demo_cache demo_share 0 ''ip'' demo_get demo_sys) = ShareObj (demo_obj ''a'' False) ''/sd/s1/a''" by code_simp
  then have "snd (handle_visit demo_cache env' 0 ''ip'' demo_get demo_sys) = ShareObj (demo_obj ''a'' False) ''/sd/s1/a''"
    using share_discloses_only_its_scope[OF ok g c same n, of demo_cache 0 "''ip''"] by simp
  then show ?thesis by (simp add: env'_def[symmetric] case_prod_beta)
qed

theorem unchanged_share_serves_bounded_clients_witness:
  "int (card (served_clients (snd (visit_run demo_cache demo_share [(0, ''x'', demo_get), (0, ''y'', demo_get)] demo_sys)))) \<le> 1 - 0
   \<and> served_clients (snd (visit_run demo_cache demo_share [(0, ''x'', demo_get), (0, ''y'', demo_get)] demo_sys)) \<noteq> {}"
proof -
  obtain sys' rs where run: "visit_run demo_cache demo_share [(0, ''x'', demo_get), (0, ''y'', demo_get)] demo_sys = (sys', rs)" by fastforce
  have f: "find (\<lambda>r. shID r = ''s1'') (syRows demo_sys) = Some demo_row" and d: "Accessed demo_row = 0" "MaxAccessed demo_row = 1"
    by code_simp+
  have v: "\<forall>(t0, ip, v) \<in> set [(0 :: int, ''x'', demo_get), (0, ''y'', demo_get)]. \<not> is_extract v \<and> fst (visit_path v) = ''s1''"
    by code_simp
  have "int (card (served_clients rs)) \<le> MaxAccessed demo_row - Accessed demo_row"
    by (rule unchanged_share_serves_bounded_clients[OF demo_cache_laws _ f _ _ _ _ _ v run]) (simp_all add: d int64_range_def demo_sys_def)
  moreover have "snd (visit_run demo_cache demo_share [(0, ''x'', demo_get), (0, ''y'', demo_get)] demo_sys)
      = [(''x'', ShareObj (demo_obj ''a'' False) ''/sd/s1/a''), (''y'', ShareErr 500)]" by code_simp
  moreover have "''x'' \<in> served_clients ((''x'', ShareObj o1 u) # rs')" for o1 u rs'
    unfolding served_clients_def by (rule CollectI, rule exI[of _ "ShareObj o1 u"]) (simp add: served_def)
  ultimately show ?thesis using run d by (metis empty_iff snd_conv)
qed

theorem users_manage_only_their_shares_witness:
  "filter (\<lambda>r. CreatorId r \<noteq> 3) (fst (handle_owner demo_share demo_sharer (ODelete ''s1'') [demo_row, demo_row\<lparr>shID := ''s3'', CreatorId := 4\<rparr>]))
   = [demo_row\<lparr>shID := ''s3'', CreatorId := 4\<rparr>]"
proof -
  let ?rows = "[demo_row, demo_row\<lparr>shID := ''s3'', CreatorId := 4\<rparr>]"
  obtain rows' reply where h: "handle_owner demo_share demo_sharer (ODelete ''s1'') ?rows = (rows', reply)" by fastforce
  have a: "\<not> IsAdmin demo_sharer" and d: "distinct (map shID ?rows)" and i: "ID demo_sharer = 3" by code_simp+
  show ?thesis using users_manage_only_their_shares[OF a d h] h i by (simp add: demo_row_def)
qed

definition demo_update :: UpdateSharingReq where
  "demo_update = \<lparr>uqFiles = [''home//b'', ''/home/c''], uqExpires = None, uqPwd = '''', uqMaxAccessed = 0, uqDisabled = False,
     uqRemark = '''', uqReadme = '''', uqHeader = '''', uqOrderBy = '''', uqOrderDirection = '''', uqExtractFolder = '''',
     uqCreatorName = '''', uqAccessed = 0, uqID = ''s1'', uqNewID = ''''\<rparr>"

theorem share_rows_stay_well_formed_witness:
  "wf_rows demo_share (fst (handle_owner demo_share demo_sharer (OUpdate (Some demo_update)) (syRows demo_sys)))
   \<and> map (files_of demo_share) (fst (handle_owner demo_share demo_sharer (OUpdate (Some demo_update)) (syRows demo_sys)))
     = [[''/home/b'', ''/home/c''], [''/home/a'', ''/etc/b'']]"
proof
  have c: "codes demo_share (Some demo_update)" by code_simp
  have w: "wf_rows demo_share (syRows demo_sys)" unfolding wf_rows_def by code_simp
  show "wf_rows demo_share (fst (handle_owner demo_share demo_sharer (OUpdate (Some demo_update)) (syRows demo_sys)))"
    by (rule share_rows_stay_well_formed[OF w, THEN conjunct1]) (use c in auto)
qed code_simp

text \<open>The last access that a limit allows is not a usable one: once counted, the share is invalid for the
  same client too, which can look at a file but no longer download it.\<close>

lemma last_access_cannot_download:
  "map snd (snd (visit_run demo_cache demo_share [(0, ''x'', demo_get), (1, ''x'', VDown ''s1'' ''/a'' '''' False)] demo_sys))
   = [ShareObj (demo_obj ''a'' False) ''/sd/s1/a'', ShareErr 500]"
  by code_simp

text \<open>\<open>countAccess\<close> saves the whole row as it was read: an access that overlaps with a request of the owner
  takes back what the owner did, and a share deleted meanwhile is there again.\<close>

lemma late_count_undoes_the_owner:
  "(case GetSharingById demo_share ''s1'' (syRows demo_sys) of None \<Rightarrow> False | Some s \<Rightarrow>
     let disabled = fst (handle_owner demo_share demo_sharer (OEnable True ''s1'') (syRows demo_sys));
         deleted = fst (handle_owner demo_share demo_sharer (ODelete ''s1'') (syRows demo_sys)) in
     map shDisabled disabled = [True, False]
     \<and> map shDisabled (syRows (countAccess demo_cache 0 ''ip'' s (demo_sys\<lparr>syRows := disabled\<rparr>))) = [False, False]
     \<and> map shID deleted = [''s2'']
     \<and> map shID (syRows (countAccess demo_cache 0 ''ip'' s (demo_sys\<lparr>syRows := deleted\<rparr>))) = [''s2'', ''s1''])"
  by code_simp

text \<open>Extracting from a shared archive is never counted.\<close>

lemma extract_is_not_counted:
  "syRows (fst (handle_visit api env t0 ip (VExtract sid path pwd inner) sys)) = syRows sys"
  by (auto simp: SharingArchiveExtract_def Let_def split: sum.split option.split prod.split)

text \<open>The listing of a share of several files does not look at the creator's base path, which the other
  requests do: \<open>/etc/b\<close> is out of the base path \<open>/home\<close>.\<close>

lemma several_files_leave_the_base_path:
  "snd (handle_visit demo_cache demo_share 0 ''ip'' (VList \<lparr>lqPage = \<lparr>Page = 1, PerPage = 9\<rparr>, lqPath = ''/s2'', lqPassword = '''', lqRefresh = False\<rparr>) demo_sys)
     = ShareList 2 [demo_obj ''a'' False, demo_obj ''b'' False]"
  "snd (handle_visit demo_cache demo_share 0 ''ip'' (VGet \<lparr>gqPath = ''/s2/b'', gqPassword = ''''\<rparr>) demo_sys) = ShareErr 500"
  by code_simp+

text \<open>Deleting the share of somebody else panics instead of being refused.\<close>

lemma delete_of_a_foreign_share_panics:
  "snd (handle_owner demo_share (demo_sharer\<lparr>ID := 9\<rparr>) (ODelete ''s1'') [demo_row]) = ShareCrash"
  by code_simp

text \<open>No handler of shares reads a meta: what a user may not read, or has no password for, can be shared by
  that user and then be read through the share.\<close>

lemma shares_ignore_metas:
  "handle_owner (env\<lparr>reNear := near\<rparr>) u q rows = handle_owner env u q rows"
proof -
  let ?e = "env\<lparr>reNear := near\<rparr>"
  have f: "seValidId ?e = seValidId env" "seUserByName ?e = seUserByName env" "seMarshal ?e = seMarshal env"
    "seUserById ?e = seUserById env" "seUnmarshal ?e = seUnmarshal env" by simp_all
  have "files_of ?e = files_of env" by (intro ext) (simp only: files_of_def f)
  then have "GetSharingById ?e = GetSharingById env" "op_CreateSharing ?e = op_CreateSharing env" "op_UpdateSharing ?e = op_UpdateSharing env"
    by (intro ext, simp only: GetSharingById_def op_CreateSharing_def op_UpdateSharing_def f)+
  then show ?thesis
    by (cases q) (simp_all only: handle_owner.simps h_CreateSharing_def h_UpdateSharing_def h_DeleteSharing_def SetEnableSharing_def f)
qed

end
