(* ===== verification/Router.thy ===== *)
theory Router imports Auth Downloads begin

text \<open>
  The routes of \<open>server/router.go\<close> with their middlewares, and what the middlewares of
  \<open>server/middlewares\<close> guarantee together: which credentials reach which handlers.  A route is given by
  its method, path, middlewares in the order in which they run, and the name of its handler.  The
  matching of a request to a route is the router library's; the theorems quantify over the route.
\<close>

section \<open>Middlewares\<close>

datatype middleware =
    MAuth bool | MAuthn | MRequireSession | MAuthNotGuest | MAuthAdmin | MAuthScope string
  | MFsUp | MSearchIndex | MUploadLimiter | MDownloadLimiter | MPathParse | MEmptyPathParse | MSharingIdParse
  | MSignCheck | MArchiveSignCheck

record route =
  rtMethod :: string
  rtPath :: string
  rtChain :: "middleware list"
  rtHandler :: string

text \<open>The values a request context carries: \<open>UserKey\<close>, \<open>TokenScopeKey\<close>, \<open>PathKey\<close>, \<open>SharingIDKey\<close>.\<close>

record request_ctx =
  cxUser :: "User option"
  cxScopes :: "string list option"
  cxPath :: "string option"
  cxSharing :: "string option"

record request_in =
  rqTime :: int
  rqAuthorization :: string
  rqFilePath :: string
  rqParam :: string
  rqSid :: string
  rqSign :: string
  rqListOk :: bool
  rqPruneOk :: bool

record 'v router_env =
  rvAuth :: auth_env
  rvMounts :: "'v storagesMap"
  rvNear :: "string \<Rightarrow> meta_error + Meta"
  rvSignAll :: bool
  rvVerify :: "string \<Rightarrow> string \<Rightarrow> sign_error option"
  rvVerifyArchive :: "string \<Rightarrow> string \<Rightarrow> sign_error option"
  rvSearchIndex :: string

record router_st =
  stSessions :: sessions
  stBal :: "string \<Rightarrow> nat option"

datatype outcome = Next request_ctx | Reply int | Panic

text \<open>\<open>FsUp\<close>: the code of a refusal.\<close>

definition FsUp :: "(string \<Rightarrow> meta_error + Meta) \<Rightarrow> User \<Rightarrow> string \<Rightarrow> int option" where
  "FsUp near user header =
     (case path_unescape header of None \<Rightarrow> Some 400 | Some path \<Rightarrow>
      case JoinPath user path of Inl e \<Rightarrow> Some 403 | Inr path \<Rightarrow>
      let parentPath = path_dir path in
      case nearest_or near parentPath of Inl r \<Rightarrow> Some 500 | Inr parentMeta \<Rightarrow>
      if \<not> CanWriteContent (Permission user) \<and> \<not> CanWriteContentBypassUserPerms parentMeta parentPath then Some 403
      else if \<not> CanWrite (Some user) parentMeta parentPath then Some 403
      else None)"

definition SearchIndex :: "string \<Rightarrow> int option" where
  "SearchIndex mode = (if mode = ''none'' then Some 404 else None)"

definition SharingIdParse :: "string \<Rightarrow> request_ctx \<Rightarrow> request_ctx" where
  "SharingIdParse sid c = c\<lparr>cxSharing := Some sid\<rparr>"

definition EmptyPathParse :: "request_ctx \<Rightarrow> request_ctx" where
  "EmptyPathParse c = c\<lparr>cxPath := Some ''/''\<rparr>"

definition PathParse :: "string \<Rightarrow> request_ctx \<Rightarrow> request_ctx" where
  "PathParse param c = c\<lparr>cxPath := Some (parsePath param)\<rparr>"

definition verdict :: "request_ctx \<Rightarrow> int option \<Rightarrow> outcome" where
  "verdict c r = (case r of None \<Rightarrow> Next c | Some code \<Rightarrow> Reply code)"

text \<open>The middlewares that read the user assert its type, and \<open>Down\<close> that of the path: without the value
  they panic.  \<open>Auth\<close> appends the scopes only for a token; the context of a request starts empty.\<close>

definition with_user :: "request_ctx \<Rightarrow> (User \<Rightarrow> int option) \<Rightarrow> outcome" where
  "with_user c f = (case cxUser c of None \<Rightarrow> Panic | Some u \<Rightarrow> verdict c (f u))"

definition sign_check :: "'v router_env \<Rightarrow> (string \<Rightarrow> string \<Rightarrow> sign_error option) \<Rightarrow> request_in \<Rightarrow> request_ctx \<Rightarrow> router_st \<Rightarrow> router_st \<times> outcome" where
  "sign_check env vf q c st =
     (case cxPath c of None \<Rightarrow> (st, Panic) | Some rawPath \<Rightarrow>
      (case Down (rvMounts env) (rvSignAll env) (rvNear env) vf rawPath (rqSign q) (stBal st) of
         (bal, NextHandler p) \<Rightarrow> (st\<lparr>stBal := bal\<rparr>, Next c)
       | (bal, ErrorPage code) \<Rightarrow> (st\<lparr>stBal := bal\<rparr>, Reply code)))"

definition granted :: "request_ctx \<Rightarrow> router_st \<Rightarrow> sessions \<times> auth_result \<Rightarrow> router_st \<times> outcome" where
  "granted c st r =
     (st\<lparr>stSessions := fst r\<rparr>,
      case snd r of Rejected code \<Rightarrow> Reply code
      | Granted u scopes \<Rightarrow> Next (c\<lparr>cxUser := Some u, cxScopes := (if scopes = None then cxScopes c else scopes)\<rparr>))"

fun run_middleware :: "'v router_env \<Rightarrow> request_in \<Rightarrow> middleware \<Rightarrow> request_ctx \<Rightarrow> router_st \<Rightarrow> router_st \<times> outcome" where
  "run_middleware env q (MAuth d) c st =
     granted c st (Auth d (rvAuth env) (rqListOk q) (rqPruneOk q) (rqTime q) (rqAuthorization q) (stSessions st))"
| "run_middleware env q MAuthn c st =
     granted c st (Authn (rvAuth env) (rqListOk q) (rqPruneOk q) (rqTime q) (rqAuthorization q) (stSessions st))"
| "run_middleware env q MRequireSession c st = (st, verdict c (RequireSession (cxScopes c)))"
| "run_middleware env q MAuthNotGuest c st = (st, with_user c AuthNotGuest)"
| "run_middleware env q MAuthAdmin c st = (st, with_user c AuthAdmin)"
| "run_middleware env q (MAuthScope s) c st = (st, verdict c (AuthScope s (cxScopes c)))"
| "run_middleware env q MFsUp c st = (st, with_user c (\<lambda>u. FsUp (rvNear env) u (rqFilePath q)))"
| "run_middleware env q MSearchIndex c st = (st, verdict c (SearchIndex (rvSearchIndex env)))"
| "run_middleware env q MUploadLimiter c st = (st, Next c)"
| "run_middleware env q MDownloadLimiter c st = (st, Next c)"
| "run_middleware env q MPathParse c st = (st, Next (PathParse (rqParam q) c))"
| "run_middleware env q MEmptyPathParse c st = (st, Next (EmptyPathParse c))"
| "run_middleware env q MSharingIdParse c st = (st, Next (SharingIdParse (rqSid q) c))"
| "run_middleware env q MSignCheck c st = sign_check env (rvVerify env) q c st"
| "run_middleware env q MArchiveSignCheck c st = sign_check env (rvVerifyArchive env) q c st"

fun run_chain :: "'v router_env \<Rightarrow> request_in \<Rightarrow> middleware list \<Rightarrow> request_ctx \<Rightarrow> router_st \<Rightarrow> router_st \<times> outcome" where
  "run_chain env q [] c st = (st, Next c)"
| "run_chain env q (m # ms) c st =
     (case run_middleware env q m c st of
        (st, Next c) \<Rightarrow> run_chain env q ms c st
      | (st, r) \<Rightarrow> (st, r))"

definition new_ctx :: request_ctx where
  "new_ctx = \<lparr>cxUser = None, cxScopes = None, cxPath = None, cxSharing = None\<rparr>"

text \<open>The request reaches the handler of the route with this context.\<close>

definition reaches :: "'v router_env \<Rightarrow> request_in \<Rightarrow> route \<Rightarrow> router_st \<Rightarrow> request_ctx \<Rightarrow> bool" where
  "reaches env q r st c \<longleftrightarrow> snd (run_chain env q (rtChain r) new_ctx st) = Next c"

section \<open>The routes\<close>

text \<open>A group puts its path and its middlewares in front of those of its routes.\<close>

definition group :: "string \<Rightarrow> middleware list \<Rightarrow> route list \<Rightarrow> route list" where
  "group path ms rs = map (\<lambda>r. r\<lparr>rtPath := path @ rtPath r, rtChain := ms @ rtChain r\<rparr>) rs"

definition GET :: "string \<Rightarrow> middleware list \<Rightarrow> string \<Rightarrow> route" where
  "GET path ms h = \<lparr>rtMethod = ''GET'', rtPath = path, rtChain = ms, rtHandler = h\<rparr>"

definition HEAD :: "string \<Rightarrow> middleware list \<Rightarrow> string \<Rightarrow> route" where
  "HEAD path ms h = \<lparr>rtMethod = ''HEAD'', rtPath = path, rtChain = ms, rtHandler = h\<rparr>"

definition POST :: "string \<Rightarrow> middleware list \<Rightarrow> string \<Rightarrow> route" where
  "POST path ms h = \<lparr>rtMethod = ''POST'', rtPath = path, rtChain = ms, rtHandler = h\<rparr>"

definition PUT :: "string \<Rightarrow> middleware list \<Rightarrow> string \<Rightarrow> route" where
  "PUT path ms h = \<lparr>rtMethod = ''PUT'', rtPath = path, rtChain = ms, rtHandler = h\<rparr>"

definition Any :: "string \<Rightarrow> middleware list \<Rightarrow> string \<Rightarrow> route" where
  "Any path ms h = \<lparr>rtMethod = ''*'', rtPath = path, rtChain = ms, rtHandler = h\<rparr>"

definition ScopeFSRead :: string where "ScopeFSRead = ''fs:read''"
definition ScopeFSWrite :: string where "ScopeFSWrite = ''fs:write''"
definition ScopeShare :: string where "ScopeShare = ''share:read''"
definition ScopeTaskRead :: string where "ScopeTaskRead = ''task:read''"
definition ScopeTaskWrite :: string where "ScopeTaskWrite = ''task:write''"

definition archive_routes :: "route list" where
  "archive_routes =
     [Any ''/meta'' [] ''FsArchiveMetaSplit'',
      Any ''/list'' [] ''FsArchiveListSplit'']"

definition fsAndShare :: "route list" where
  "fsAndShare =
     [Any ''/list'' [] ''FsListSplit'',
      Any ''/get'' [] ''FsGetSplit'']
     @ group ''/archive'' [] archive_routes"

definition multipart_routes :: "route list" where
  "multipart_routes =
     [POST ''/init'' [MFsUp, MAuthScope ScopeFSWrite] ''MultipartInit'',
      PUT ''/chunk'' [MAuthScope ScopeFSWrite, MUploadLimiter] ''MultipartChunk'',
      POST ''/complete'' [MAuthScope ScopeFSWrite] ''MultipartComplete'',
      GET ''/status'' [MAuthScope ScopeFSWrite] ''MultipartStatus'',
      POST ''/abort'' [MAuthScope ScopeFSWrite] ''MultipartAbort'']"

definition fs_routes :: "route list" where
  "fs_routes =
     [Any ''/search'' [MSearchIndex, MAuthScope ScopeFSRead] ''Search'',
      Any ''/other'' [MAuthScope ScopeFSRead] ''FsOther'',
      Any ''/dirs'' [MAuthScope ScopeFSRead] ''FsDirs'',
      POST ''/mkdir'' [MAuthScope ScopeFSWrite] ''FsMkdir'',
      POST ''/rename'' [MAuthScope ScopeFSWrite] ''FsRename'',
      POST ''/batch_rename'' [MAuthScope ScopeFSWrite] ''FsBatchRename'',
      POST ''/regex_rename'' [MAuthScope ScopeFSWrite] ''FsRegexRename'',
      POST ''/move'' [MAuthScope ScopeFSWrite] ''FsMove'',
      POST ''/recursive_move'' [MAuthScope ScopeFSWrite] ''FsRecursiveMove'',
      POST ''/copy'' [MAuthScope ScopeFSWrite] ''FsCopy'',
      POST ''/remove'' [MAuthScope ScopeFSWrite] ''FsRemove'',
      POST ''/remove_empty_directory'' [MAuthScope ScopeFSWrite] ''FsRemoveEmptyDirectory'',
      PUT ''/put'' [MFsUp, MAuthScope ScopeFSWrite, MUploadLimiter] ''FsStream'',
      PUT ''/form'' [MFsUp, MAuthScope ScopeFSWrite, MUploadLimiter] ''FsForm'',
      POST ''/link'' [MAuthAdmin, MRequireSession] ''Link'',
      POST ''/add_offline_download'' [MAuthScope ScopeFSWrite] ''AddOfflineDownload'',
      POST ''/archive/decompress'' [MAuthScope ScopeFSWrite] ''FsArchiveDecompress'',
      POST ''/torrent/parse'' [MAuthScope ScopeFSWrite] ''ParseTorrent'',
      POST ''/torrent/upload_parse'' [MAuthScope ScopeFSWrite] ''UploadTorrentAndParse'',
      POST ''/torrent/rapid_upload'' [MAuthScope ScopeFSWrite] ''TorrentRapidUpload'',
      POST ''/torrent/generate'' [MAuthScope ScopeFSWrite] ''GenerateTorrentForPath'',
      POST ''/get_direct_upload_info'' [MFsUp, MAuthScope ScopeFSWrite] ''FsGetDirectUploadInfo'']
     @ group ''/multipart'' [] multipart_routes"

text \<open>The handlers of \<open>taskRoute\<close> are closures; they are named after their manager and path.\<close>

definition taskRoute :: "string \<Rightarrow> route list" where
  "taskRoute name =
     [GET ''/undone'' [MAuthScope ScopeTaskRead] (name @ ''.undone''),
      GET ''/done'' [MAuthScope ScopeTaskRead] (name @ ''.done''),
      POST ''/info'' [MAuthScope ScopeTaskRead] (name @ ''.info''),
      POST ''/cancel'' [MAuthScope ScopeTaskWrite] (name @ ''.cancel''),
      POST ''/delete'' [MAuthScope ScopeTaskWrite] (name @ ''.delete''),
      POST ''/retry'' [MAuthScope ScopeTaskWrite] (name @ ''.retry''),
      POST ''/cancel_some'' [MAuthScope ScopeTaskWrite] (name @ ''.cancel_some''),
      POST ''/delete_some'' [MAuthScope ScopeTaskWrite] (name @ ''.delete_some''),
      POST ''/retry_some'' [MAuthScope ScopeTaskWrite] (name @ ''.retry_some''),
      POST ''/clear_done'' [MAuthScope ScopeTaskWrite] (name @ ''.clear_done''),
      POST ''/clear_succeeded'' [MAuthScope ScopeTaskWrite] (name @ ''.clear_succeeded''),
      POST ''/retry_failed'' [MAuthScope ScopeTaskWrite] (name @ ''.retry_failed'')]"

definition SetupTaskRoute :: "route list" where
  "SetupTaskRoute =
     group ''/upload'' [] (taskRoute ''UploadTaskManager'')
     @ group ''/copy'' [] (taskRoute ''CopyTaskManager'')
     @ group ''/move'' [] (taskRoute ''MoveTaskManager'')
     @ group ''/offline_download'' [] (taskRoute ''DownloadTaskManager'')
     @ group ''/offline_download_transfer'' [] (taskRoute ''TransferTaskManager'')
     @ group ''/decompress'' [] (taskRoute ''ArchiveDownloadTaskManager'')
     @ group ''/decompress_upload'' [] (taskRoute ''ArchiveContentUploadTaskManager'')"

definition sharing_routes :: "route list" where
  "sharing_routes =
     [Any ''/list'' [] ''ListSharings'',
      GET ''/get'' [] ''GetSharing'',
      POST ''/create'' [] ''CreateSharing'',
      POST ''/update'' [] ''UpdateSharing'',
      POST ''/delete'' [] ''DeleteSharing'',
      POST ''/enable'' [] ''SetEnableSharing(false)'',
      POST ''/disable'' [] ''SetEnableSharing(true)'']"

definition meta_routes :: "route list" where
  "meta_routes =
     [GET ''/list'' [] ''ListMetas'',
      GET ''/get'' [] ''GetMeta'',
      POST ''/create'' [] ''CreateMeta'',
      POST ''/update'' [] ''UpdateMeta'',
      POST ''/delete'' [] ''DeleteMeta'']"

definition user_routes :: "route list" where
  "user_routes =
     [GET ''/list'' [] ''ListUsers'',
      GET ''/get'' [] ''GetUser'',
      POST ''/create'' [] ''CreateUser'',
      POST ''/update'' [] ''UpdateUser'',
      POST ''/cancel_2fa'' [] ''Cancel2FAById'',
      POST ''/delete'' [] ''DeleteUser'',
      POST ''/del_cache'' [] ''DelUserCache'',
      GET ''/sshkey/list'' [] ''ListPublicKeys'',
      POST ''/sshkey/delete'' [] ''DeletePublicKey'']"

definition storage_routes :: "route list" where
  "storage_routes =
     [GET ''/list'' [] ''ListStorages'',
      GET ''/get'' [] ''GetStorage'',
      POST ''/create'' [] ''CreateStorage'',
      POST ''/update'' [] ''UpdateStorage'',
      POST ''/delete'' [] ''DeleteStorage'',
      POST ''/enable'' [] ''EnableStorage'',
      POST ''/disable'' [] ''DisableStorage'',
      POST ''/load_all'' [] ''LoadAllStorages'']"

definition driver_routes :: "route list" where
  "driver_routes =
     [GET ''/list'' [] ''ListDriverInfo'',
      GET ''/names'' [] ''ListDriverNames'',
      GET ''/info'' [] ''GetDriverInfo'']"

definition setting_routes :: "route list" where
  "setting_routes =
     [GET ''/get'' [] ''GetSetting'',
      GET ''/list'' [] ''ListSettings'',
      POST ''/save'' [] ''SaveSettings'',
      POST ''/delete'' [] ''DeleteSetting'',
      POST ''/default'' [] ''DefaultSettings'',
      POST ''/reset_token'' [] ''ResetToken'',
      POST ''/set_aria2'' [] ''SetAria2'',
      POST ''/set_qbit'' [] ''SetQbittorrent'',
      POST ''/set_transmission'' [] ''SetTransmission'',
      POST ''/set_115'' [] ''Set115'',
      POST ''/set_115_open'' [] ''Set115Open'',
      POST ''/set_123_pan'' [] ''Set123Pan'',
      POST ''/set_123_open'' [] ''Set123Open'',
      POST ''/set_pikpak'' [] ''SetPikPak'',
      POST ''/set_thunder'' [] ''SetThunder'',
      POST ''/set_thunderx'' [] ''SetThunderX'',
      POST ''/set_thunder_browser'' [] ''SetThunderBrowser'',
      POST ''/set_guangyapan'' [] ''SetGuangYaPan'']"

definition message_routes :: "route list" where
  "message_routes =
     [POST ''/get'' [] ''GetHandle'',
      POST ''/send'' [] ''SendHandle'']"

definition index_routes :: "route list" where
  "index_routes =
     [POST ''/build'' [MSearchIndex] ''BuildIndex'',
      POST ''/update'' [MSearchIndex] ''UpdateIndex'',
      POST ''/stop'' [MSearchIndex] ''StopIndex'',
      POST ''/clear'' [MSearchIndex] ''ClearIndex'',
      GET ''/progress'' [MSearchIndex] ''GetProgress'']"

definition scan_routes :: "route list" where
  "scan_routes =
     [POST ''/start'' [] ''StartManualScan'',
      POST ''/stop'' [] ''StopManualScan'',
      GET ''/progress'' [] ''GetManualScanProgress'']"

definition admin_routes :: "route list" where
  "admin_routes =
     group ''/meta'' [] meta_routes @ group ''/user'' [] user_routes @ group ''/storage'' [] storage_routes
     @ group ''/driver'' [] driver_routes @ group ''/setting'' [] setting_routes @ group ''/task'' [] SetupTaskRoute
     @ group ''/message'' [] message_routes @ group ''/index'' [] index_routes @ group ''/scan'' [] scan_routes"

definition down_routes :: "route list" where
  "down_routes =
     [GET ''/d/*path'' [MPathParse, MSignCheck, MDownloadLimiter] ''Down'',
      GET ''/p/*path'' [MPathParse, MSignCheck, MDownloadLimiter] ''Proxy'',
      HEAD ''/d/*path'' [MPathParse, MSignCheck] ''Down'',
      HEAD ''/p/*path'' [MPathParse, MSignCheck] ''Proxy'',
      GET ''/ad/*path'' [MPathParse, MArchiveSignCheck, MDownloadLimiter] ''ArchiveDown'',
      GET ''/ap/*path'' [MPathParse, MArchiveSignCheck, MDownloadLimiter] ''ArchiveProxy'',
      GET ''/ae/*path'' [MPathParse, MArchiveSignCheck, MDownloadLimiter] ''ArchiveInternalExtract'',
      HEAD ''/ad/*path'' [MPathParse, MArchiveSignCheck] ''ArchiveDown'',
      HEAD ''/ap/*path'' [MPathParse, MArchiveSignCheck] ''ArchiveProxy'',
      HEAD ''/ae/*path'' [MPathParse, MArchiveSignCheck] ''ArchiveInternalExtract'']"

definition share_down_routes :: "route list" where
  "share_down_routes =
     [GET ''/sd/:sid'' [MEmptyPathParse, MSharingIdParse, MDownloadLimiter] ''SharingDown'',
      GET ''/sd/:sid/*path'' [MPathParse, MSharingIdParse, MDownloadLimiter] ''SharingDown'',
      HEAD ''/sd/:sid'' [MEmptyPathParse, MSharingIdParse] ''SharingDown'',
      HEAD ''/sd/:sid/*path'' [MPathParse, MSharingIdParse] ''SharingDown'',
      GET ''/sad/:sid'' [MEmptyPathParse, MSharingIdParse, MDownloadLimiter] ''SharingArchiveExtract'',
      GET ''/sad/:sid/*path'' [MPathParse, MSharingIdParse, MDownloadLimiter] ''SharingArchiveExtract'',
      HEAD ''/sad/:sid'' [MEmptyPathParse, MSharingIdParse] ''SharingArchiveExtract'',
      HEAD ''/sad/:sid/*path'' [MPathParse, MSharingIdParse] ''SharingArchiveExtract'']"

definition login_routes :: "route list" where
  "login_routes =
     [POST ''/auth/login'' [] ''Login'',
      POST ''/auth/login/hash'' [] ''LoginHash'',
      POST ''/auth/login/ldap'' [] ''LoginLdap'',
      GET ''/auth/sso'' [] ''SSOLoginRedirect'',
      GET ''/auth/sso_callback'' [] ''SSOLoginCallback'',
      GET ''/auth/get_sso_id'' [] ''SSOLoginCallback'',
      GET ''/auth/sso_get_token'' [] ''SSOLoginCallback'',
      GET ''/authn/webauthn_begin_login'' [] ''BeginAuthnLogin'',
      POST ''/authn/webauthn_finish_login'' [] ''FinishAuthnLogin'']"

definition account_routes :: "route list" where
  "account_routes =
     [GET ''/me'' [MRequireSession] ''CurrentUser'',
      POST ''/me/update'' [MRequireSession] ''UpdateCurrent'',
      GET ''/me/sshkey/list'' [] ''ListMyPublicKey'',
      POST ''/me/sshkey/add'' [] ''AddMyPublicKey'',
      POST ''/me/sshkey/delete'' [] ''DeleteMyPublicKey'',
      GET ''/me/token/list'' [MRequireSession] ''ListMyTokens'',
      POST ''/me/token/create'' [MRequireSession] ''CreateMyToken'',
      POST ''/me/token/revoke'' [MRequireSession] ''RevokeMyToken'',
      POST ''/auth/2fa/generate'' [MRequireSession] ''Generate2FA'',
      POST ''/auth/2fa/verify'' [MRequireSession] ''Verify2FA'',
      GET ''/auth/logout'' [MRequireSession] ''LogOut'']"

definition webauthn_routes :: "route list" where
  "webauthn_routes =
     [GET ''/webauthn_begin_registration'' [] ''BeginAuthnRegistration'',
      POST ''/webauthn_finish_registration'' [] ''FinishAuthnRegistration'',
      POST ''/delete_authn'' [] ''DeleteAuthnLogin'',
      GET ''/getcredentials'' [] ''GetAuthnCredentials'']"

definition public_routes :: "route list" where
  "public_routes =
     [Any ''/settings'' [] ''PublicSettings'',
      Any ''/offline_download_tools'' [] ''OfflineDownloadTools'',
      Any ''/archive_extensions'' [] ''ArchiveExtensions'']"

text \<open>\<open>Init\<close>, below \<open>/api\<close> and for the downloads.  WebDAV, S3, MCP, the static files and the debug routes
  have handlers of their own for the credentials; \<open>auth\<close> is the group of \<open>Auth(false)\<close>.\<close>

definition auth_routes :: "route list" where
  "auth_routes =
     account_routes
     @ group ''/fs'' [] fs_routes
     @ group ''/task'' [MAuthNotGuest] SetupTaskRoute
     @ group ''/share'' [MAuthNotGuest, MAuthScope ScopeShare] sharing_routes
     @ group ''/admin'' [MAuthAdmin, MRequireSession] admin_routes"

definition api_routes :: "route list" where
  "api_routes =
     login_routes
     @ group ''/authn'' [MAuthn, MRequireSession] webauthn_routes
     @ group ''/public'' [] public_routes
     @ group '''' [MAuth False] auth_routes
     @ group ''/fs'' [MAuth True, MAuthScope ScopeFSRead] fsAndShare"

definition routes :: "route list" where
  "routes = down_routes @ share_down_routes @ group ''/api'' [] api_routes"

section \<open>Running a chain\<close>

fun is_auth :: "middleware \<Rightarrow> bool" where
  "is_auth (MAuth d) = True"
| "is_auth MAuthn = True"
| "is_auth m = False"

lemma run_middleware_keeps:
  assumes "run_middleware env q m c st = (st', Next c')" "\<not> is_auth m"
  shows "cxUser c' = cxUser c" "cxScopes c' = cxScopes c"
    "m = MAuthScope s \<Longrightarrow> AuthScope s (cxScopes c) = None"
    "m = MRequireSession \<Longrightarrow> cxScopes c = None"
    "m = MAuthAdmin \<Longrightarrow> \<exists>u. cxUser c = Some u \<and> IsAdmin u"
  using assms
  by (cases m; auto simp: with_user_def verdict_def sign_check_def PathParse_def EmptyPathParse_def SharingIdParse_def
      RequireSession_def AuthAdmin_def split: option.splits if_splits prod.splits down_result.splits)+

lemma run_chain_keeps:
  assumes "run_chain env q ms c st = (st', Next c')" "list_all (\<lambda>m. \<not> is_auth m) ms"
  shows "cxUser c' = cxUser c \<and> cxScopes c' = cxScopes c
    \<and> (\<forall>s. MAuthScope s \<in> set ms \<longrightarrow> AuthScope s (cxScopes c) = None)
    \<and> (MRequireSession \<in> set ms \<longrightarrow> cxScopes c = None)
    \<and> (MAuthAdmin \<in> set ms \<longrightarrow> (\<exists>u. cxUser c = Some u \<and> IsAdmin u))"
  using assms
proof (induction ms arbitrary: c st)
  case (Cons m ms)
  obtain st1 r where m: "run_middleware env q m c st = (st1, r)" by fastforce
  then obtain c1 where r: "r = Next c1" using Cons.prems(1) by (cases r) auto
  note k = run_middleware_keeps[OF m[unfolded r]]
  have n: "\<not> is_auth m" using Cons.prems(2) by simp
  show ?case using Cons.IH[of c1 st1] Cons.prems m r k(1,2)[OF n] k(3)[OF n] k(4,5)[OF n] by auto
qed simp

section \<open>What the routes ask for\<close>

text \<open>The intended table, by path: the routes that need no credential, and the scope a personal access token
  must have.\<close>

definition is_public :: "string \<Rightarrow> bool" where
  "is_public p \<longleftrightarrow> list_ex (has_prefix p)
     [''/d/'', ''/p/'', ''/ad/'', ''/ap/'', ''/ae/'', ''/sd/'', ''/sad/'', ''/api/public/'', ''/api/auth/login'', ''/api/auth/sso'',
      ''/api/auth/get_sso_id'', ''/api/authn/webauthn_begin_login'', ''/api/authn/webauthn_finish_login'']"

definition reading_paths :: "string list" where
  "reading_paths = [''/api/fs/list'', ''/api/fs/get'', ''/api/fs/archive/meta'', ''/api/fs/archive/list'', ''/api/fs/search'',
     ''/api/fs/other'', ''/api/fs/dirs'']"

definition required_scope :: "string \<Rightarrow> string option" where
  "required_scope p =
     (if has_prefix p ''/api/task/'' then
        Some (if list_ex (has_suffix p) [''/undone'', ''/done'', ''/info''] then ''task:read'' else ''task:write'')
      else if has_prefix p ''/api/share/'' then Some ''share:read''
      else if has_prefix p ''/api/fs/'' then
        (if p = ''/api/fs/link'' then None else if List.member reading_paths p then Some ''fs:read'' else Some ''fs:write'')
      else None)"

definition ssh_key_paths :: "string list" where
  "ssh_key_paths = [''/api/me/sshkey/list'', ''/api/me/sshkey/add'', ''/api/me/sshkey/delete'']"

definition admin_path :: "string \<Rightarrow> bool" where
  "admin_path p \<longleftrightarrow> has_prefix p ''/api/admin/'' \<or> p = ''/api/fs/link''"

definition route_ok :: "route \<Rightarrow> bool" where
  "route_ok r \<longleftrightarrow>
     (case rtChain r of [] \<Rightarrow> is_public (rtPath r) \<and> \<not> admin_path (rtPath r)
      | m # ms \<Rightarrow> list_all (\<lambda>m. \<not> is_auth m) ms
          \<and> (if is_auth m then
               if List.member ms MRequireSession then (if List.member ms MAuthAdmin then True else \<not> admin_path (rtPath r))
               else \<not> admin_path (rtPath r)
                 \<and> (case required_scope (rtPath r) of None \<Rightarrow> List.member ssh_key_paths (rtPath r)
                     | Some s \<Rightarrow> List.member ms (MAuthScope s))
             else is_public (rtPath r) \<and> \<not> admin_path (rtPath r)))"

lemmas route_defs = routes_def api_routes_def auth_routes_def

lemma group_append: "group p ms (xs @ ys) = group p ms xs @ group p ms ys"
  by (simp add: group_def)

lemma group_group: "group p ms (group p' ms' rs) = group (p @ p') (ms @ ms') rs"
  by (simp add: group_def)

lemma open_routes_ok: "list_all route_ok (down_routes @ share_down_routes @ group ''/api'' [] (login_routes @ group ''/public'' [] public_routes))"
  by code_simp

lemma account_routes_ok: "list_all route_ok (group ''/api'' [] (group ''/authn'' [MAuthn, MRequireSession] webauthn_routes @ group '''' [MAuth False] account_routes))"
  by code_simp

lemma fs_routes_ok: "list_all route_ok (group ''/api'' [] (group ''/fs'' [MAuth False] fs_routes @ group ''/fs'' [MAuth True, MAuthScope ScopeFSRead] fsAndShare))"
  by code_simp

lemma share_routes_ok: "list_all route_ok (group ''/api/share'' [MAuth False, MAuthNotGuest, MAuthScope ScopeShare] sharing_routes)"
  by code_simp

lemma admin_routes_ok: "list_all route_ok (group p [MAuth False, MAuthAdmin, MRequireSession] rs)"
  if "list_all (\<lambda>r. list_all (\<lambda>m. \<not> is_auth m) (rtChain r)) rs"
  using that by (induction rs) (simp_all add: group_def route_ok_def)

lemma admin_routes_chains: "list_all (\<lambda>r. list_all (\<lambda>m. \<not> is_auth m) (rtChain r)) admin_routes"
  by code_simp

lemma task_routes_ok: "list_all route_ok (group ''/api/task'' [MAuth False, MAuthNotGuest] SetupTaskRoute)"
  by code_simp

lemma routes_ok: "list_all route_ok routes"
  using open_routes_ok account_routes_ok fs_routes_ok share_routes_ok admin_routes_ok[OF admin_routes_chains, of "''/api/admin''"] task_routes_ok
  by (simp add: routes_def api_routes_def auth_routes_def group_append group_group)

section \<open>Which credentials reach which handlers\<close>

lemma auth_first:
  assumes "r \<in> set routes" "reaches env q r st c"
  obtains (public) "is_public (rtPath r)" "\<not> admin_path (rtPath r)"
  | (auth) m ms c1 st1 st2 where "rtChain r = m # ms" "is_auth m" "list_all (\<lambda>m. \<not> is_auth m) ms" "route_ok r"
      "run_middleware env q m new_ctx st = (st1, Next c1)" "run_chain env q ms c1 st1 = (st2, Next c)"
proof -
  have ok: "route_ok r" using assms(1) routes_ok by (simp add: list_all_iff)
  show thesis
  proof (cases "rtChain r")
    case Nil
    then show ?thesis using ok public by (simp add: route_ok_def)
  next
    case (Cons m ms)
    show ?thesis
    proof (cases "is_auth m")
      case True
      obtain st1 o1 where m: "run_middleware env q m new_ctx st = (st1, o1)" by fastforce
      obtain st2 o2 where run: "run_chain env q (rtChain r) new_ctx st = (st2, o2)" by fastforce
      then have o2: "o2 = Next c" using assms(2) by (simp add: reaches_def)
      then obtain c1 where o1: "o1 = Next c1" using run m Cons by (cases o1) auto
      have "run_chain env q ms c1 st1 = (st2, Next c)" using run m Cons by (simp add: o1 o2)
      then show ?thesis using auth[OF Cons True _ ok m[unfolded o1]] ok Cons by (simp add: route_ok_def)
    next
      case False
      then show ?thesis using ok Cons public by (simp add: route_ok_def)
    qed
  qed
qed

lemma auth_common_granted:
  assumes "snd (auth_common e guestOk l p t0 header s) = Granted u sc"
  shows "(Credential header = siteToken e \<and> adminUser e = Some u \<and> sc = None)
    \<or> (Credential header = '''' \<and> guestUsr e = Some u \<and> sc = None)
    \<or> (Credential header \<noteq> siteToken e \<and> IsPAT (Credential header)
        \<and> (\<exists>pat. ResolvePAT e t0 (Credential header) = Some (u, pat) \<and> sc = Some (ScopeList pat)))
    \<or> (\<not> IsPAT (Credential header) \<and> Credential header \<noteq> siteToken e \<and> sc = None
        \<and> (\<exists>cl. snd (ParseToken e l p t0 (Credential header) s) = Some cl \<and> nameUser e (ucUsername cl) = Some u
             \<and> ucPwdTS cl = PwdTS u \<and> \<not> Disabled u))"
  using assms unfolding auth_common_def Let_def
  by (auto split: if_splits option.splits prod.splits)

lemma auth_granted:
  assumes "run_middleware env q m new_ctx st = (st1, Next c)" "is_auth m"
  obtains u g where "cxUser c = Some u"
    "snd (auth_common (rvAuth env) g (rqListOk q) (rqPruneOk q) (rqTime q) (rqAuthorization q) (stSessions st)) = Granted u (cxScopes c)"
proof -
  obtain g where g: "granted new_ctx st (auth_common (rvAuth env) g (rqListOk q) (rqPruneOk q) (rqTime q) (rqAuthorization q) (stSessions st))
      = (st1, Next c)"
    using assms by (cases m) (auto simp: Auth_def Authn_def)
  then show thesis using that[of _ g] by (auto simp: granted_def new_ctx_def split: auth_result.splits)
qed

text \<open>C34: A request with a personal access token reaches a handler that needs a credential only with a token
  that is active, of a user who is not disabled, and carries the scope of the route by the table above.  The
  only exceptions are the three routes for the user's own SSH keys.\<close>

theorem access_token_stays_in_its_scopes:
  assumes "r \<in> set routes" "reaches env q r st c"
    and "IsPAT (Credential (rqAuthorization q))" "Credential (rqAuthorization q) \<noteq> siteToken (rvAuth env)"
    and "\<not> is_public (rtPath r)"
  shows "\<exists>u pat. ResolvePAT (rvAuth env) (rqTime q) (Credential (rqAuthorization q)) = Some (u, pat) \<and> cxUser c = Some u
    \<and> (rtPath r \<in> set ssh_key_paths \<or> (\<exists>s \<in> set (ScopeList pat). required_scope (rtPath r) = Some s))"
  using assms(1,2)
proof (cases rule: auth_first)
  case (auth m ms c1 st1 st2)
  obtain u g where u: "cxUser c1 = Some u"
    and G: "snd (auth_common (rvAuth env) g (rqListOk q) (rqPruneOk q) (rqTime q) (rqAuthorization q) (stSessions st)) = Granted u (cxScopes c1)"
    using auth_granted[OF auth(5,2)] by blast
  have "\<not> IsPAT ''''" by code_simp
  then have pre: "Credential (rqAuthorization q) \<noteq> ''''" using assms(3) by auto
  obtain pat where pat: "ResolvePAT (rvAuth env) (rqTime q) (Credential (rqAuthorization q)) = Some (u, pat)" "cxScopes c1 = Some (ScopeList pat)"
    using auth_common_granted[OF G] assms(3,4) pre by blast
  have k: "cxUser c = Some u" "\<And>s. MAuthScope s \<in> set ms \<Longrightarrow> s \<in> set (ScopeList pat)" "MRequireSession \<notin> set ms"
    using run_chain_keeps[OF auth(6,3)] u pat(2) by (auto simp: AuthScope_def split: if_splits)
  have "rtPath r \<in> set ssh_key_paths \<or> (\<exists>s. required_scope (rtPath r) = Some s \<and> MAuthScope s \<in> set ms)"
    using auth(4) k(3) unfolding route_ok_def auth(1) by (auto simp: auth(2) split: option.splits)
  then show ?thesis using k pat(1) by blast
qed (use assms(5) in blast)

text \<open>C35: A request reaches a handler of the administration, or the direct link of a file, only as an
  administrator: with the site token, or with a verified session that is not revoked, of an administrator
  who is not disabled and has not changed the password since.\<close>

theorem admin_routes_need_an_admin_session:
  assumes "r \<in> set routes" "reaches env q r st c" "admin_path (rtPath r)"
    and "\<And>g. guestUsr (rvAuth env) = Some g \<Longrightarrow> \<not> IsAdmin g"
  shows "\<exists>u. cxUser c = Some u \<and> IsAdmin u
    \<and> (Credential (rqAuthorization q) = siteToken (rvAuth env) \<and> adminUser (rvAuth env) = Some u
       \<or> (\<exists>cl. snd (ParseToken (rvAuth env) (rqListOk q) (rqPruneOk q) (rqTime q) (Credential (rqAuthorization q)) (stSessions st)) = Some cl
            \<and> nameUser (rvAuth env) (ucUsername cl) = Some u \<and> ucPwdTS cl = PwdTS u \<and> \<not> Disabled u))"
  using assms(1,2)
proof (cases rule: auth_first)
  case (auth m ms c1 st1 st2)
  obtain u g where u: "cxUser c1 = Some u"
    and G: "snd (auth_common (rvAuth env) g (rqListOk q) (rqPruneOk q) (rqTime q) (rqAuthorization q) (stSessions st)) = Granted u (cxScopes c1)"
    using auth_granted[OF auth(5,2)] by blast
  have "MAuthAdmin \<in> set ms" "MRequireSession \<in> set ms"
    using auth(4) assms(3) unfolding route_ok_def auth(1) by (auto simp: auth(2) split: if_splits)
  then have k: "cxUser c = Some u" "IsAdmin u" "cxScopes c1 = None" using run_chain_keeps[OF auth(6,3)] u by auto
  show ?thesis using auth_common_granted[OF G] k assms(4) by auto
qed (use assms(3) in blast)

section \<open>The middlewares find what they assert\<close>

text \<open>Which values are there when a middleware runs: of the user (\<open>u\<close>) and of the path (\<open>p\<close>).\<close>

fun chain_ready :: "bool \<Rightarrow> bool \<Rightarrow> middleware list \<Rightarrow> bool" where
  "chain_ready u p [] \<longleftrightarrow> True"
| "chain_ready u p (m # ms) \<longleftrightarrow>
     (m \<in> {MAuthNotGuest, MAuthAdmin, MFsUp} \<longrightarrow> u) \<and> (m \<in> {MSignCheck, MArchiveSignCheck} \<longrightarrow> p)
     \<and> chain_ready (u \<or> is_auth m) (p \<or> m \<in> {MPathParse, MEmptyPathParse}) ms"

lemma ready_step:
  assumes "(m \<in> {MAuthNotGuest, MAuthAdmin, MFsUp} \<longrightarrow> cxUser c \<noteq> None)" "(m \<in> {MSignCheck, MArchiveSignCheck} \<longrightarrow> cxPath c \<noteq> None)"
    and "run_middleware env q m c st = (st', r)"
  shows "r \<noteq> Panic" "r = Next c' \<Longrightarrow> (cxUser c' \<noteq> None \<longleftrightarrow> cxUser c \<noteq> None \<or> is_auth m)
    \<and> (cxPath c' \<noteq> None \<longleftrightarrow> cxPath c \<noteq> None \<or> m \<in> {MPathParse, MEmptyPathParse})"
  using assms
  by (cases m; auto simp: with_user_def verdict_def sign_check_def granted_def PathParse_def EmptyPathParse_def SharingIdParse_def
      split: option.splits if_splits prod.splits down_result.splits auth_result.splits)+

lemma ready_chain:
  "chain_ready (cxUser c \<noteq> None) (cxPath c \<noteq> None) ms \<Longrightarrow> snd (run_chain env q ms c st) \<noteq> Panic"
proof (induction ms arbitrary: c st)
  case (Cons m ms)
  obtain st1 r where m: "run_middleware env q m c st = (st1, r)" by fastforce
  note s = ready_step[OF _ _ m]
  show ?case
  proof (cases r)
    case (Next c1)
    have "chain_ready (cxUser c1 \<noteq> None) (cxPath c1 \<noteq> None) ms" using s(2)[OF _ _ Next] Cons.prems by simp
    then show ?thesis using Cons.IH m Next by simp
  next
    case Panic
    then show ?thesis using s(1) Cons.prems by simp
  qed (use m in simp)
qed simp

text \<open>No middleware of a route panics, whatever the request.\<close>

lemma routes_never_panic: "r \<in> set routes \<Longrightarrow> snd (run_chain env q (rtChain r) new_ctx st) \<noteq> Panic"
proof -
  assume r: "r \<in> set routes"
  have "list_all (\<lambda>r. chain_ready False False (rtChain r)) routes" by code_simp
  then have "chain_ready (cxUser new_ctx \<noteq> None) (cxPath new_ctx \<noteq> None) (rtChain r)" using r by (simp add: list_all_iff new_ctx_def)
  then show ?thesis by (rule ready_chain)
qed

section \<open>Witnesses and behaviours\<close>

text \<open>A token \<open>obk_1\<close> of Jane with the given scopes, an administrator, and nothing else.\<close>

definition root_user :: User where
  "root_user = jane\<lparr>ID := 1, Username := ''root'', Role := 2\<rparr>"

definition token_env :: "string \<Rightarrow> unit router_env" where
  "token_env scopes = \<lparr>rvAuth = (one_session ''site'')\<lparr>
       adminUser := Some root_user,
       idUser := (\<lambda>i. if i = ID jane then Some jane else None),
       tokenByHash := (\<lambda>h. if h = sha (one_session ''site'') ''obk_1''
          then Some \<lparr>atUserId = ID jane, atName = ''t'', atPrefix = ''obk_1'', TokenHash = h, Scopes = scopes, atExpiresAt = None, RevokedAt = None\<rparr>
          else None)\<rparr>,
     rvMounts = [], rvNear = (\<lambda>_. Inl MetaNotFound), rvSignAll = False, rvVerify = (\<lambda>_ _. None), rvVerifyArchive = (\<lambda>_ _. None),
     rvSearchIndex = ''none''\<rparr>"

definition with_header :: "string \<Rightarrow> request_in" where
  "with_header h = \<lparr>rqTime = 20, rqAuthorization = h, rqFilePath = '''', rqParam = '''', rqSid = '''', rqSign = '''', rqListOk = True, rqPruneOk = True\<rparr>"

definition router_start :: router_st where
  "router_start = \<lparr>stSessions = no_sessions, stBal = Map.empty\<rparr>"

definition jane_ctx :: "string list \<Rightarrow> request_ctx" where
  "jane_ctx scopes = new_ctx\<lparr>cxUser := Some jane, cxScopes := Some scopes\<rparr>"

lemmas route_lists = routes_def api_routes_def auth_routes_def account_routes_def fs_routes_def sharing_routes_def admin_routes_def
  storage_routes_def group_def GET_def POST_def Any_def

definition dirs_route :: route where
  "dirs_route = Any ''/api/fs/dirs'' [MAuth False, MAuthScope ScopeFSRead] ''FsDirs''"

definition storage_list_route :: route where
  "storage_list_route = GET ''/api/admin/storage/list'' [MAuth False, MAuthAdmin, MRequireSession] ''ListStorages''"

definition add_key_route :: route where
  "add_key_route = POST ''/api/me/sshkey/add'' [MAuth False] ''AddMyPublicKey''"

definition delete_share_route :: route where
  "delete_share_route = POST ''/api/share/delete'' [MAuth False, MAuthNotGuest, MAuthScope ScopeShare] ''DeleteSharing''"

lemma these_are_routes: "{dirs_route, storage_list_route, add_key_route, delete_share_route} \<subseteq> set routes"
  by (simp add: dirs_route_def storage_list_route_def add_key_route_def delete_share_route_def route_lists)

theorem access_token_stays_in_its_scopes_witness:
  "required_scope ''/api/fs/dirs'' \<in> Some ` set [''fs:read'']"
proof -
  let ?env = "token_env ''fs:read''" and ?q = "with_header ''Bearer obk_1''" and ?r = dirs_route
  have p: "rtPath ?r = ''/api/fs/dirs''" by code_simp
  have r: "?r \<in> set routes" using these_are_routes by simp
  have "reaches ?env ?q ?r router_start (jane_ctx [''fs:read''])" unfolding reaches_def by code_simp
  moreover have "IsPAT (Credential (rqAuthorization ?q))" "Credential (rqAuthorization ?q) \<noteq> siteToken (rvAuth ?env)"
    "\<not> is_public (rtPath ?r)" by code_simp+
  ultimately have "\<exists>u pat. ResolvePAT (rvAuth ?env) (rqTime ?q) (Credential (rqAuthorization ?q)) = Some (u, pat) \<and> cxUser (jane_ctx [''fs:read'']) = Some u
    \<and> (rtPath ?r \<in> set ssh_key_paths \<or> (\<exists>s \<in> set (ScopeList pat). required_scope (rtPath ?r) = Some s))"
    by (rule access_token_stays_in_its_scopes[OF r])
  moreover have "map_option (\<lambda>(u, pat). ScopeList pat) (ResolvePAT (rvAuth ?env) (rqTime ?q) (Credential (rqAuthorization ?q))) = Some [''fs:read'']"
    by code_simp
  moreover have "rtPath ?r \<notin> set ssh_key_paths" by code_simp
  ultimately show ?thesis using p by auto
qed

theorem admin_routes_need_an_admin_session_witness:
  "\<exists>u. cxUser (new_ctx\<lparr>cxUser := Some root_user\<rparr>) = Some u \<and> IsAdmin u"
proof -
  let ?env = "token_env ''fs:read''" and ?q = "with_header ''site''" and ?r = storage_list_route
  have r: "?r \<in> set routes" using these_are_routes by simp
  have "reaches ?env ?q ?r router_start (new_ctx\<lparr>cxUser := Some root_user\<rparr>)" unfolding reaches_def by code_simp
  moreover have "admin_path (rtPath ?r)" by code_simp
  moreover have "\<not> IsAdmin g" if "guestUsr (rvAuth ?env) = Some g" for g
    using that by (auto simp: token_env_def one_session_def IsAdmin_def GUEST_def ADMIN_def)
  ultimately show ?thesis using admin_routes_need_an_admin_session[OF r] by blast
qed

text \<open>A token with no scope at all adds an SSH key to its user's account, which signs in without the token:
  the three routes lack \<open>RequireSession\<close>.\<close>

lemma any_token_adds_ssh_keys:
  "reaches (token_env '''') (with_header ''Bearer obk_1'') add_key_route router_start (jane_ctx [])"
  unfolding reaches_def by code_simp

text \<open>The scope \<open>share:read\<close> lets a token create, change and delete shares.\<close>

lemma share_read_deletes_shares:
  "reaches (token_env ''share:read'') (with_header ''Bearer obk_1'') delete_share_route router_start (jane_ctx [''share:read''])"
  unfolding reaches_def by code_simp

text \<open>The debug route of paths has no \<open>PathParse\<close> in front of \<open>Down\<close>, which panics without the path.\<close>

lemma debug_path_panics:
  "snd (run_chain env q [MSignCheck] new_ctx st) = Panic"
  by (simp add: sign_check_def new_ctx_def)

end
