(* ===== verification/Op_Cache.thy ===== *)
theory Op_Cache imports Mounts begin

text \<open>
  The caches of \<open>internal/cache\<close> and \<open>internal/op/cache.go\<close>: keyed entries with a deadline, the listing of a
  directory with its lazily sorted copy, and the removal of a directory with the listings below it.  A
  cache is an association list with one entry per key.  Times and durations are in nanoseconds.
\<close>

section \<open>Keyed entries that expire\<close>

type_synonym 'v keyed = "(string \<times> 'v \<times> int) list"

definition kc_delete :: "string \<Rightarrow> 'v keyed \<Rightarrow> 'v keyed" where
  "kc_delete key c = filter (\<lambda>e. fst e \<noteq> key) c"

definition kc_set :: "int \<Rightarrow> string \<Rightarrow> 'v \<Rightarrow> int \<Rightarrow> 'v keyed \<Rightarrow> 'v keyed" where
  "kc_set t key v ttl c = (key, v, t + ttl) # kc_delete key c"

definition kc_get :: "int \<Rightarrow> string \<Rightarrow> 'v keyed \<Rightarrow> 'v keyed \<times> 'v option" where
  "kc_get t key c =
     (case map_of c key of None \<Rightarrow> (c, None)
      | Some (v, expires) \<Rightarrow> if t > expires then (kc_delete key c, None) else (c, Some v))"

definition kc_pop :: "string \<Rightarrow> 'v keyed \<Rightarrow> 'v keyed \<times> 'v option" where
  "kc_pop key c = (case map_of c key of None \<Rightarrow> (c, None) | Some (v, expires) \<Rightarrow> (kc_delete key c, Some v))"

definition kc_GC :: "int \<Rightarrow> 'v keyed \<Rightarrow> 'v keyed" where
  "kc_GC t c = filter (\<lambda>e. \<not> t > snd (snd e)) c"

text \<open>The assignment through the pointer to a cached value.\<close>

definition kc_update :: "string \<Rightarrow> ('v \<Rightarrow> 'v) \<Rightarrow> 'v keyed \<Rightarrow> 'v keyed" where
  "kc_update key f c = map (\<lambda>(k, v, expires). if k = key then (k, f v, expires) else (k, v, expires)) c"

lemma map_of_kc_delete [simp]: "map_of (kc_delete k c) = (map_of c)(k := None)"
proof (rule ext)
  fix x show "map_of (kc_delete k c) x = ((map_of c)(k := None)) x"
    by (induction c) (auto simp: kc_delete_def)
qed

lemma map_of_kc_set [simp]: "map_of (kc_set t k v ttl c) = (map_of c)(k \<mapsto> (v, t + ttl))"
  by (simp add: kc_set_def)

lemma map_of_kc_update [simp]:
  "map_of (kc_update k f c) = (case map_of c k of None \<Rightarrow> map_of c | Some (v, x) \<Rightarrow> (map_of c)(k \<mapsto> (f v, x)))"
proof (rule ext)
  fix x show "map_of (kc_update k f c) x = (case map_of c k of None \<Rightarrow> map_of c | Some (v, y) \<Rightarrow> (map_of c)(k \<mapsto> (f v, y))) x"
    by (induction c) (auto simp: kc_update_def split: option.splits prod.splits)
qed

section \<open>The listing of a directory\<close>

record dir_cache =
  dcObjs :: "Obj list"
  dcSorted :: "Obj list"
  dirtyRemove :: bool
  dirtyUpdate :: bool

definition newDirectoryCache :: "Obj list \<Rightarrow> dir_cache" where
  "newDirectoryCache objs = \<lparr>dcObjs = objs, dcSorted = objs, dirtyRemove = False, dirtyUpdate = False\<rparr>"

fun remove_named :: "string \<Rightarrow> Obj list \<Rightarrow> Obj list" where
  "remove_named name [] = []"
| "remove_named name (x # xs) = (if GetName x = name then xs else x # remove_named name xs)"

definition RemoveObject :: "string \<Rightarrow> dir_cache \<Rightarrow> dir_cache" where
  "RemoveObject name dc =
     (if list_ex (\<lambda>x. GetName x = name) (dcObjs dc)
      then dc\<lparr>dcObjs := remove_named name (dcObjs dc), dirtyRemove := True\<rparr> else dc)"

fun replace_named :: "string \<Rightarrow> Obj \<Rightarrow> Obj list \<Rightarrow> Obj list option" where
  "replace_named name y [] = None"
| "replace_named name y (x # xs) = (if GetName x = name then Some (y # xs) else map_option (Cons x) (replace_named name y xs))"

definition UpdateObject :: "string \<Rightarrow> Obj \<Rightarrow> dir_cache \<Rightarrow> dir_cache" where
  "UpdateObject oldName newObj dc =
     (case (if oldName \<noteq> '''' then replace_named oldName newObj (dcObjs dc) else None) of
        Some objs \<Rightarrow> dc\<lparr>dcObjs := objs, dirtyUpdate := True\<rparr>
      | None \<Rightarrow> dc\<lparr>dcObjs := dcObjs dc @ [newObj], dirtyUpdate := True\<rparr>)"

text \<open>\<open>localSort\<close> is the driver's \<open>LocalSort\<close>; the result is the new value of the cache and the listing.\<close>

definition GetSortedObjects :: "sorter \<Rightarrow> bool \<Rightarrow> Storage \<Rightarrow> dir_cache \<Rightarrow> dir_cache \<times> Obj list" where
  "GetSortedObjects srt localSort s dc =
     (if \<not> dirtyRemove dc \<and> \<not> dirtyUpdate dc then (dc, dcSorted dc)
      else
        let sorted1 = dcObjs dc;
            sorted1 = (if dirtyUpdate dc
              then ExtractFolder (if localSort then SortFiles srt sorted1 (OrderBy s) (OrderDirection s) else sorted1) (sExtractFolder s)
              else sorted1)
        in (dc\<lparr>dcSorted := sorted1, dirtyRemove := False, dirtyUpdate := False\<rparr>, sorted1))"

section \<open>Deleting a directory from the caches\<close>

record 'l caches =
  chDirs :: "dir_cache keyed"
  chLinks :: "string \<Rightarrow> string \<Rightarrow> 'l option"

definition DeleteKey :: "string \<Rightarrow> 'l caches \<Rightarrow> 'l caches" where
  "DeleteKey key c = c\<lparr>chLinks := (chLinks c)(key := Map.empty)\<rparr>"

definition child_dirs :: "string \<Rightarrow> Obj list \<Rightarrow> string list" where
  "child_dirs key objs = map (\<lambda>x. path_join key (GetName x)) (filter IsDir objs)"

definition child_files :: "string \<Rightarrow> Obj list \<Rightarrow> string list" where
  "child_files key objs = map (\<lambda>x. path_join key (GetName x)) (filter (\<lambda>x. \<not> IsDir x) objs)"

text \<open>\<open>deleteDirectoryTree\<close>, with the pending calls as a list: a call pops the listing of its key, and goes on
  with the directories of that listing.\<close>

function (sequential) delete_trees :: "string list \<Rightarrow> 'l caches \<Rightarrow> 'l caches" where
  "delete_trees [] c = c"
| "delete_trees (k # ks) c =
     (case kc_pop k (chDirs c) of
        (_, None) \<Rightarrow> delete_trees ks c
      | (ds, Some dc) \<Rightarrow>
          delete_trees (child_dirs k (dcObjs dc) @ ks)
            (fold DeleteKey (child_files k (dcObjs dc)) (c\<lparr>chDirs := ds\<rparr>)))"
  by pat_completeness auto

lemma fold_DeleteKey_dirs [simp]: "chDirs (fold DeleteKey ks c) = chDirs c"
  by (induction ks arbitrary: c) (simp_all add: DeleteKey_def)

lemma kc_pop_length: "kc_pop k c = (c', Some v) \<Longrightarrow> length c' < length c"
  by (auto simp: kc_pop_def kc_delete_def split: option.splits dest!: map_of_SomeD intro!: length_filter_less)

termination delete_trees
  by (relation "measures [\<lambda>(ks, c). length (chDirs c), \<lambda>(ks, c). length ks]") (auto dest!: kc_pop_length[OF sym])

definition deleteDirectoryTree :: "string \<Rightarrow> 'l caches \<Rightarrow> 'l caches" where
  "deleteDirectoryTree key c = delete_trees [key] c"

definition Key :: "Storage \<Rightarrow> string \<Rightarrow> string" where
  "Key s path = GetFullPath (MountPath s) path"

definition DeleteDirectoryTree :: "bool \<Rightarrow> Storage \<Rightarrow> string \<Rightarrow> 'l caches \<Rightarrow> 'l caches" where
  "DeleteDirectoryTree noCache s dirPath c = (if noCache then c else deleteDirectoryTree (Key s dirPath) c)"

definition DeleteDirectory :: "bool \<Rightarrow> Storage \<Rightarrow> string \<Rightarrow> 'l caches \<Rightarrow> 'l caches" where
  "DeleteDirectory noCache s dirPath c = (if noCache then c else c\<lparr>chDirs := kc_delete (Key s dirPath) (chDirs c)\<rparr>)"

definition removeDirectoryObject :: "int \<Rightarrow> bool \<Rightarrow> Storage \<Rightarrow> string \<Rightarrow> Obj \<Rightarrow> 'l caches \<Rightarrow> 'l caches" where
  "removeDirectoryObject t noCache s dirPath obj c =
     (let key = Key s dirPath;
          c = (if \<not> IsDir obj then DeleteKey (path_join key (GetName obj)) c else c)
      in if noCache then c
         else case kc_get t key (chDirs c) of
           (ds, None) \<Rightarrow> c\<lparr>chDirs := ds\<rparr>
         | (ds, Some _) \<Rightarrow>
             let c = c\<lparr>chDirs := ds\<rparr>;
                 c = (if IsDir obj then deleteDirectoryTree (path_join key (GetName obj)) c else c)
             in c\<lparr>chDirs := kc_update key (RemoveObject (GetName obj)) (chDirs c)\<rparr>)"

end
