(* ===== verification/Op_Fs.thy ===== *)
theory Op_Fs imports Op_Cache Go_File begin

text \<open>
  The operations of one mounted storage, \<open>internal/op/fs.go\<close>: they look objects up in the cached
  listings, ask the driver, and keep the listings and links in the caches up to date.  The driver is
  the record \<open>op_env\<close> of the interfaces it implements, over a world of its own; an optional interface
  is an option.  A path is given by its components in reverse order where the code recurses on it.
  Calls that join a running call for the same key (\<open>singleflight\<close>), and the hooks that inform the search
  index, are not modelled.
\<close>

section \<open>Drivers\<close>

datatype op_error =
    StorageNotInit | ObjectNotFound | NotFolder | NotFile | PermissionDenied | NotImplement | NotSupport
  | ObjectAlreadyExists | Endless | OpOther string

datatype 'w root_kind = GetRooter "'w \<Rightarrow> op_error + Obj" | IRootId string | IRootPath string | NoRoot

record put_file =
  pfName :: string
  pfSize :: int
  pfModified :: int

record 'w op_env =
  oeStorage :: Storage
  oeCheckStatus :: bool
  oeNoCache :: bool
  oeLocalSort :: bool
  oeNoOverwrite :: bool
  oeSorter :: sorter
  oeMapping :: "string \<Rightarrow> string"
  oeGlob :: "string \<Rightarrow> string \<Rightarrow> bool option"
  dvRoot :: "'w root_kind"
  dvGetter :: "(string \<Rightarrow> 'w \<Rightarrow> op_error + Obj) option"
  dvList :: "Obj \<Rightarrow> 'w \<Rightarrow> op_error + Obj list"
  dvMakeDir :: "(Obj \<Rightarrow> string \<Rightarrow> 'w \<Rightarrow> 'w \<times> (op_error + Obj option)) option"
  dvMove :: "(Obj \<Rightarrow> Obj \<Rightarrow> 'w \<Rightarrow> 'w \<times> (op_error + Obj option)) option"
  dvRename :: "(Obj \<Rightarrow> string \<Rightarrow> 'w \<Rightarrow> 'w \<times> (op_error + Obj option)) option"
  dvCopy :: "(Obj \<Rightarrow> Obj \<Rightarrow> 'w \<Rightarrow> 'w \<times> (op_error + Obj option)) option"
  dvRemove :: "(Obj \<Rightarrow> 'w \<Rightarrow> 'w \<times> (op_error + unit)) option"
  dvPut :: "(Obj \<Rightarrow> put_file \<Rightarrow> 'w \<Rightarrow> 'w \<times> (op_error + Obj option)) option"
  dvPutURL :: "(Obj \<Rightarrow> string \<Rightarrow> string \<Rightarrow> 'w \<Rightarrow> 'w \<times> (op_error + Obj option)) option"
  dvDirectInfo :: "(string \<Rightarrow> Obj \<Rightarrow> string \<Rightarrow> int \<Rightarrow> 'w \<Rightarrow> op_error + string) option"

record ('w, 'l) op_st =
  opWorld :: 'w
  opCaches :: "'l caches"

abbreviation opDirs :: "('w, 'l) op_st \<Rightarrow> dir_cache keyed" where
  "opDirs st \<equiv> chDirs (opCaches st)"

definition with_dirs :: "('w, 'l) op_st \<Rightarrow> dir_cache keyed \<Rightarrow> ('w, 'l) op_st" where
  "with_dirs st ds = st\<lparr>opCaches := (opCaches st)\<lparr>chDirs := ds\<rparr>\<rparr>"

definition on_caches :: "('l caches \<Rightarrow> 'l caches) \<Rightarrow> ('w, 'l) op_st \<Rightarrow> ('w, 'l) op_st" where
  "on_caches f st = st\<lparr>opCaches := f (opCaches st)\<rparr>"

text \<open>\<open>if err != nil { return err }\<close> after a call.\<close>

definition and_then :: "'s \<times> ('e + 'a) \<Rightarrow> ('s \<Rightarrow> 'a \<Rightarrow> 's \<times> ('e + 'b)) \<Rightarrow> 's \<times> ('e + 'b)" where
  "and_then r f = (case r of (s, Inl e) \<Rightarrow> (s, Inl e) | (s, Inr x) \<Rightarrow> f s x)"

definition checked :: "'w op_env \<Rightarrow> (('w, 'l) op_st \<Rightarrow> ('w, 'l) op_st \<times> (op_error + 'a)) \<Rightarrow> ('w, 'l) op_st \<Rightarrow> ('w, 'l) op_st \<times> (op_error + 'a)" where
  "checked env f st = (if oeCheckStatus env \<and> Status (oeStorage env) \<noteq> ''work'' then (st, Inl StorageNotInit) else f st)"

definition path_of :: "string list \<Rightarrow> string" where
  "path_of rp = mk_abs (rev rp)"

definition comps_rev :: "string \<Rightarrow> string list" where
  "comps_rev path = rev (fix_comps path)"

abbreviation key_of :: "'w op_env \<Rightarrow> string list \<Rightarrow> string" where
  "key_of env rp \<equiv> Key (oeStorage env) (path_of rp)"

definition root_obj :: "'w op_env \<Rightarrow> 'w \<Rightarrow> op_error + Obj" where
  "root_obj env w =
     (case dvRoot env of
        GetRooter f \<Rightarrow> f w
      | IRootId i \<Rightarrow> Inr (Plain \<lparr>obID = i, obPath = '''', obName = ''root'', obSize = 0, obModified = sModified (oeStorage env), IsFolder = True, Mask = Locked\<rparr>)
      | IRootPath p \<Rightarrow> Inr (Plain \<lparr>obID = '''', obPath = p, obName = ''root'', obSize = 0, obModified = sModified (oeStorage env), IsFolder = True, Mask = Locked\<rparr>)
      | NoRoot \<Rightarrow> Inl (OpOther ''please implement GetRooter or IRootPath or IRootId interface''))"

definition wrapObjName :: "'w op_env \<Rightarrow> Obj \<Rightarrow> Obj" where
  "wrapObjName env obj = (if dvGetter env = None then WrapObjName (oeMapping env) obj else obj)"

definition wrapObjsName :: "'w op_env \<Rightarrow> Obj list \<Rightarrow> Obj list" where
  "wrapObjsName env objs = (if dvGetter env = None then WrapObjsName (oeMapping env) objs else objs)"

section \<open>Listing a directory\<close>

text \<open>The time to live of a listing, in minutes: that of the first matching line of the custom policies that
  has a number.\<close>

fun policy_ttl :: "(string \<Rightarrow> string \<Rightarrow> bool option) \<Rightarrow> string \<Rightarrow> int \<Rightarrow> string list \<Rightarrow> int" where
  "policy_ttl glob path ttl [] = ttl"
| "policy_ttl glob path ttl (l # ls) =
     (case cut_char (CHR '':'') (trim_space l) of
        None \<Rightarrow> policy_ttl glob path ttl ls
      | Some (pattern, ttlstr) \<Rightarrow>
          if glob pattern path \<noteq> Some True then policy_ttl glob path ttl ls
          else (case parse_int ttlstr of Some configTtl \<Rightarrow> configTtl | None \<Rightarrow> policy_ttl glob path ttl ls))"

definition list_ttl :: "'w op_env \<Rightarrow> string \<Rightarrow> int" where
  "list_ttl env path =
     (let s = oeStorage env; policies = CustomCachePolicies s;
          ttl = (if length policies > 0 then policy_ttl (oeGlob env) path (CacheExpiration s) (split_char (CHR 0x0A) policies) else CacheExpiration s)
      in wrap64 (60 * 10 ^ 9 * wrap64 ttl))"

definition arrange :: "'w op_env \<Rightarrow> Obj list \<Rightarrow> Obj list" where
  "arrange env files =
     (let s = oeStorage env; files = wrapObjsName env files;
          files = (if oeLocalSort env then SortFiles (oeSorter env) files (OrderBy s) (OrderDirection s) else files)
      in ExtractFolder files (sExtractFolder s))"

definition cache_listing :: "'w op_env \<Rightarrow> int \<Rightarrow> string \<Rightarrow> Obj list \<Rightarrow> 'l caches \<Rightarrow> 'l caches" where
  "cache_listing env t path files c =
     (let key = Key (oeStorage env) path in
      if oeNoCache env then c
      else if length files > 0 then c\<lparr>chDirs := kc_set t key (newDirectoryCache files) (list_ttl env path) (chDirs c)\<rparr>
      else deleteDirectoryTree key c)"

text \<open>The closure of \<open>list\<close>: \<open>get_dir\<close> is the call of \<open>GetUnwrap\<close>.\<close>

definition fetch_listing :: "'w op_env \<Rightarrow> int \<Rightarrow> (('w, 'l) op_st \<Rightarrow> ('w, 'l) op_st \<times> (op_error + Obj)) \<Rightarrow> string \<Rightarrow>
    ('w, 'l) op_st \<Rightarrow> ('w, 'l) op_st \<times> (op_error + Obj list)" where
  "fetch_listing env t get_dir path st =
     and_then (get_dir st) (\<lambda>st dir.
       if \<not> IsDir dir then (st, Inl NotFolder)
       else case dvList env dir (opWorld st) of
         Inl e \<Rightarrow> (st, Inl e)
       | Inr files \<Rightarrow> (let files = arrange env files in (on_caches (cache_listing env t path files) st, Inr files)))"

text \<open>The sorted listing of a cached directory; the cached value remembers it.\<close>

definition cached_listing :: "'w op_env \<Rightarrow> int \<Rightarrow> string \<Rightarrow> ('w, 'l) op_st \<Rightarrow> ('w, 'l) op_st \<times> Obj list option" where
  "cached_listing env t key st =
     (case kc_get t key (opDirs st) of
        (ds, None) \<Rightarrow> (with_dirs st ds, None)
      | (ds, Some dc) \<Rightarrow>
          (case GetSortedObjects (oeSorter env) (oeLocalSort env) (oeStorage env) dc of
             (dc, objs) \<Rightarrow> (with_dirs st (kc_update key (\<lambda>_. dc) ds), Some objs)))"

definition list_with :: "'w op_env \<Rightarrow> int \<Rightarrow> (('w, 'l) op_st \<Rightarrow> ('w, 'l) op_st \<times> (op_error + Obj)) \<Rightarrow> string \<Rightarrow> bool \<Rightarrow>
    (Obj list \<Rightarrow> op_error option) \<Rightarrow> ('w, 'l) op_st \<Rightarrow> ('w, 'l) op_st \<times> (op_error + Obj list)" where
  "list_with env t get_dir path refresh validator st =
     (case (if refresh then (st, None) else cached_listing env t (Key (oeStorage env) path) st) of
        (st, hit) \<Rightarrow>
          if (case hit of None \<Rightarrow> False | Some objs \<Rightarrow> validator objs = None) then (st, Inr (the hit))
          else and_then (fetch_listing env t get_dir path st) (\<lambda>st objs.
            case validator objs of Some e \<Rightarrow> (st, Inl e) | None \<Rightarrow> (st, Inr objs)))"

section \<open>Looking an object up\<close>

definition find_named :: "string \<Rightarrow> Obj list \<Rightarrow> Obj option" where
  "find_named name objs = find (\<lambda>f. GetName f = name) objs"

definition not_temp :: "bool \<Rightarrow> string \<Rightarrow> Obj list \<Rightarrow> op_error option" where
  "not_temp excludeTemp name objs =
     (case find_named name objs of None \<Rightarrow> None
      | Some f \<Rightarrow> if excludeTemp \<and> ObjHasMask f Temp then Some ObjectNotFound else None)"

definition unwrapped :: "('w, 'l) op_st \<times> (op_error + Obj) \<Rightarrow> ('w, 'l) op_st \<times> (op_error + Obj)" where
  "unwrapped r = (case r of (st, Inl e) \<Rightarrow> (st, Inl e) | (st, Inr obj) \<Rightarrow> (st, Inr (UnwrapObjName obj)))"

text \<open>The second half of \<open>Get\<close>, when the cached listing of the parent has not answered: \<open>list\<close> is the call
  of \<open>list\<close> for the parent, whose error is dropped.\<close>

definition get_uncached :: "'w op_env \<Rightarrow> string list \<Rightarrow> bool \<Rightarrow> (('w, 'l) op_st \<Rightarrow> ('w, 'l) op_st \<times> (op_error + Obj list)) \<Rightarrow> string \<Rightarrow>
    ('w, 'l) op_st \<Rightarrow> ('w, 'l) op_st \<times> (op_error + Obj)" where
  "get_uncached env rp relist list_parent name st =
     (let go = (if relist then
          (case list_parent st of
             (st, Inr objs) \<Rightarrow> (case find_named name objs of Some f \<Rightarrow> (st, Inr f) | None \<Rightarrow> (st, Inl ObjectNotFound))
           | (st, Inl e) \<Rightarrow> (st, Inl ObjectNotFound))
        else (st, Inl ObjectNotFound))
      in case dvGetter env of
           None \<Rightarrow> go
         | Some g \<Rightarrow> (case g (path_of rp) (opWorld st) of
              Inr obj \<Rightarrow> (st, Inr obj)
            | Inl e \<Rightarrow> if e \<noteq> NotImplement \<and> e \<noteq> NotSupport then (st, Inl e) else go))"

fun Get_at :: "'w op_env \<Rightarrow> int \<Rightarrow> bool \<Rightarrow> string list \<Rightarrow> ('w, 'l) op_st \<Rightarrow> ('w, 'l) op_st \<times> (op_error + Obj)" where
  "Get_at env t ex [] st = (st, root_obj env (opWorld st))"
| "Get_at env t ex (name # ds) st =
     (case cached_listing env t (key_of env ds) st of
        (st, files) \<Rightarrow>
          (let found = (case files of None \<Rightarrow> None | Some fs \<Rightarrow> find_named name fs);
               refresh = (case found of None \<Rightarrow> False | Some f \<Rightarrow> ex \<and> ObjHasMask f Temp);
               parent = list_with env t (\<lambda>st. unwrapped (Get_at env t True ds st)) (path_of ds) refresh (not_temp ex name)
           in if found \<noteq> None \<and> \<not> refresh then (st, Inr (the found))
              else get_uncached env (name # ds) (files = None \<or> refresh) parent name st))"

definition op_Get :: "'w op_env \<Rightarrow> int \<Rightarrow> bool \<Rightarrow> string \<Rightarrow> ('w, 'l) op_st \<Rightarrow> ('w, 'l) op_st \<times> (op_error + Obj)" where
  "op_Get env t excludeTemp path = checked env (Get_at env t excludeTemp (comps_rev path))"

definition GetUnwrap :: "'w op_env \<Rightarrow> int \<Rightarrow> string list \<Rightarrow> ('w, 'l) op_st \<Rightarrow> ('w, 'l) op_st \<times> (op_error + Obj)" where
  "GetUnwrap env t rp st = unwrapped (Get_at env t True rp st)"

definition List_at :: "'w op_env \<Rightarrow> int \<Rightarrow> bool \<Rightarrow> string list \<Rightarrow> ('w, 'l) op_st \<Rightarrow> ('w, 'l) op_st \<times> (op_error + Obj list)" where
  "List_at env t refresh rp = list_with env t (GetUnwrap env t rp) (path_of rp) refresh (\<lambda>_. None)"

definition op_List :: "'w op_env \<Rightarrow> int \<Rightarrow> bool \<Rightarrow> string \<Rightarrow> ('w, 'l) op_st \<Rightarrow> ('w, 'l) op_st \<times> (op_error + Obj list)" where
  "op_List env t refresh path = checked env (List_at env t refresh (comps_rev path))"

section \<open>Changing a storage\<close>

text \<open>Below, \<open>newObj\<close> is the object a driver returns for what it made, if it does.\<close>

definition temp_object :: "string \<Rightarrow> int \<Rightarrow> int \<Rightarrow> bool \<Rightarrow> Obj" where
  "temp_object name sz modified isDir =
     Plain \<lparr>obID = '''', obPath = '''', obName = name, obSize = sz, obModified = modified, IsFolder = isDir, Mask = Temp\<rparr>"

text \<open>\<open>if cache, exist := Cache.dirCache.Get(key); exist\<close>.\<close>

definition if_cached :: "int \<Rightarrow> string \<Rightarrow> ('l caches \<Rightarrow> 'l caches) \<Rightarrow> 'l caches \<Rightarrow> 'l caches" where
  "if_cached t key f c =
     (case kc_get t key (chDirs c) of
        (ds, None) \<Rightarrow> c\<lparr>chDirs := ds\<rparr>
      | (ds, Some _) \<Rightarrow> f (c\<lparr>chDirs := ds\<rparr>))"

definition update_dir :: "string \<Rightarrow> (dir_cache \<Rightarrow> dir_cache) \<Rightarrow> 'l caches \<Rightarrow> 'l caches" where
  "update_dir key f c = c\<lparr>chDirs := kc_update key f (chDirs c)\<rparr>"

definition call_driver :: "('w \<Rightarrow> 'w \<times> (op_error + 'a)) \<Rightarrow> ('w, 'l) op_st \<Rightarrow> ('w, 'l) op_st \<times> (op_error + 'a)" where
  "call_driver f st = (case f (opWorld st) of (w, r) \<Rightarrow> (st\<lparr>opWorld := w\<rparr>, r))"

definition after_make_dir :: "'w op_env \<Rightarrow> int \<Rightarrow> string list \<Rightarrow> string \<Rightarrow> Obj option \<Rightarrow> 'l caches \<Rightarrow> 'l caches" where
  "after_make_dir env t ds dirName newObj c =
     (if oeNoCache env then c
      else if_cached t (key_of env ds) (update_dir (key_of env ds) (UpdateObject ''''
             (wrapObjName env (case newObj of None \<Rightarrow> temp_object dirName 0 t True | Some obj \<Rightarrow> obj)))) c)"

fun MakeDir_at :: "'w op_env \<Rightarrow> int \<Rightarrow> string list \<Rightarrow> ('w, 'l) op_st \<Rightarrow> ('w, 'l) op_st \<times> (op_error + unit)" where
  "MakeDir_at env t [] st =
     (case Get_at env t False [] st of
        (st, Inr f) \<Rightarrow> if IsDir f then (st, Inr ()) else (st, Inl (OpOther ''file exists''))
      | (st, Inl e) \<Rightarrow> if e \<noteq> ObjectNotFound then (st, Inl e) else (st, Inl Endless))"
| "MakeDir_at env t (dirName # ds) st =
     (case Get_at env t False (dirName # ds) st of
        (st, Inr f) \<Rightarrow> if IsDir f then (st, Inr ()) else (st, Inl (OpOther ''file exists''))
      | (st, Inl e) \<Rightarrow>
          if e \<noteq> ObjectNotFound then (st, Inl e)
          else and_then (MakeDir_at env t ds st) (\<lambda>st _.
            and_then (GetUnwrap env t ds st) (\<lambda>st parentDir.
              if \<not> IsDir parentDir then (st, Inl NotFolder)
              else if ObjHasMask parentDir NoWrite then (st, Inl PermissionDenied)
              else case dvMakeDir env of None \<Rightarrow> (st, Inl NotImplement) | Some mk \<Rightarrow>
                (case call_driver (mk parentDir dirName) st of
                   (st, r) \<Rightarrow>
                     (case r of
                        Inl e \<Rightarrow> if e \<noteq> ObjectAlreadyExists then (st, Inl e) else (on_caches (after_make_dir env t ds dirName None) st, Inr ())
                      | Inr newObj \<Rightarrow> (on_caches (after_make_dir env t ds dirName newObj) st, Inr ()))))))"

definition op_MakeDir :: "'w op_env \<Rightarrow> int \<Rightarrow> string \<Rightarrow> ('w, 'l) op_st \<Rightarrow> ('w, 'l) op_st \<times> (op_error + unit)" where
  "op_MakeDir env t path = checked env (MakeDir_at env t (comps_rev path))"

definition after_move :: "'w op_env \<Rightarrow> int \<Rightarrow> string list \<Rightarrow> string list \<Rightarrow> Obj \<Rightarrow> Obj option \<Rightarrow> 'l caches \<Rightarrow> 'l caches" where
  "after_move env t ds dst srcRawObj newObj c =
     (let srcKey = key_of env ds; dstKey = key_of env dst; name = GetName srcRawObj;
          c = (if \<not> IsDir srcRawObj then DeleteKey (path_join dstKey name) (DeleteKey (path_join srcKey name) c) else c)
      in if oeNoCache env then c
         else let c = if_cached t srcKey (\<lambda>c. update_dir srcKey (RemoveObject name)
                        (if IsDir srcRawObj then deleteDirectoryTree (path_join srcKey name) c else c)) c
         in if_cached t dstKey (update_dir dstKey (UpdateObject name
              (case newObj of None \<Rightarrow> ObjWrapMask srcRawObj Temp | Some obj \<Rightarrow> wrapObjName env obj))) c)"

definition Move_at :: "'w op_env \<Rightarrow> int \<Rightarrow> string list \<Rightarrow> string list \<Rightarrow> ('w, 'l) op_st \<Rightarrow> ('w, 'l) op_st \<times> (op_error + unit)" where
  "Move_at env t src dst st =
     (case src of [] \<Rightarrow> (st, Inl (OpOther ''move root folder is not allowed'')) | name # ds \<Rightarrow>
      if dst = ds then (st, Inl (OpOther ''move in place''))
      else and_then (Get_at env t True src st) (\<lambda>st srcRawObj.
        if ObjHasMask srcRawObj NoMove then (st, Inl PermissionDenied)
        else and_then (GetUnwrap env t dst st) (\<lambda>st dstDir.
          if ObjHasMask dstDir NoWrite then (st, Inl PermissionDenied)
          else case dvMove env of None \<Rightarrow> (st, Inl NotImplement) | Some mv \<Rightarrow>
            and_then (call_driver (mv (UnwrapObjName srcRawObj) dstDir) st) (\<lambda>st newObj.
              (on_caches (after_move env t ds dst srcRawObj newObj) st, Inr ())))))"

definition op_Move :: "'w op_env \<Rightarrow> int \<Rightarrow> string \<Rightarrow> string \<Rightarrow> ('w, 'l) op_st \<Rightarrow> ('w, 'l) op_st \<times> (op_error + unit)" where
  "op_Move env t srcPath dstDirPath = checked env (Move_at env t (comps_rev srcPath) (comps_rev dstDirPath))"

definition after_rename :: "'w op_env \<Rightarrow> int \<Rightarrow> string list \<Rightarrow> Obj \<Rightarrow> string \<Rightarrow> Obj option \<Rightarrow> 'l caches \<Rightarrow> 'l caches" where
  "after_rename env t ds srcRawObj dstName newObj c =
     (let dirKey = key_of env ds; oldName = GetName srcRawObj;
          c = (if \<not> IsDir srcRawObj then DeleteKey (path_join dirKey dstName) (DeleteKey (path_join dirKey oldName) c) else c)
      in if oeNoCache env then c
         else if_cached t dirKey (\<lambda>c. update_dir dirKey (UpdateObject oldName
                (wrapObjName env (case newObj of None \<Rightarrow> ObjWrapMask (ObjWrapName dstName (UnwrapObjName srcRawObj)) Temp | Some obj \<Rightarrow> obj)))
                (if IsDir srcRawObj then deleteDirectoryTree (path_join dirKey oldName) c else c)) c)"

definition Rename_at :: "'w op_env \<Rightarrow> int \<Rightarrow> string list \<Rightarrow> string \<Rightarrow> ('w, 'l) op_st \<Rightarrow> ('w, 'l) op_st \<times> (op_error + unit)" where
  "Rename_at env t src dstName st =
     (case src of [] \<Rightarrow> (st, Inl (OpOther ''rename root folder is not allowed'')) | name # ds \<Rightarrow>
      and_then (Get_at env t True src st) (\<lambda>st srcRawObj.
        if ObjHasMask srcRawObj NoRename then (st, Inl PermissionDenied)
        else case dvRename env of None \<Rightarrow> (st, Inl NotImplement) | Some rn \<Rightarrow>
          and_then (call_driver (rn (UnwrapObjName srcRawObj) dstName) st) (\<lambda>st newObj.
            (on_caches (after_rename env t ds srcRawObj dstName newObj) st, Inr ()))))"

definition op_Rename :: "'w op_env \<Rightarrow> int \<Rightarrow> string \<Rightarrow> string \<Rightarrow> ('w, 'l) op_st \<Rightarrow> ('w, 'l) op_st \<times> (op_error + unit)" where
  "op_Rename env t srcPath dstName = checked env (Rename_at env t (comps_rev srcPath) dstName)"

definition after_copy :: "'w op_env \<Rightarrow> int \<Rightarrow> string list \<Rightarrow> Obj \<Rightarrow> Obj option \<Rightarrow> 'l caches \<Rightarrow> 'l caches" where
  "after_copy env t dst srcRawObj newObj c =
     (let dstKey = key_of env dst; name = GetName srcRawObj;
          c = (if \<not> IsDir srcRawObj then DeleteKey (path_join dstKey name) c else c)
      in if oeNoCache env then c
         else if_cached t dstKey (update_dir dstKey (UpdateObject name
              (case newObj of None \<Rightarrow> ObjWrapMask srcRawObj Temp | Some obj \<Rightarrow> wrapObjName env obj))) c)"

definition Copy_at :: "'w op_env \<Rightarrow> int \<Rightarrow> string list \<Rightarrow> string list \<Rightarrow> ('w, 'l) op_st \<Rightarrow> ('w, 'l) op_st \<times> (op_error + unit)" where
  "Copy_at env t src dst st =
     (if dst = (case src of [] \<Rightarrow> [] | name # ds \<Rightarrow> ds) then (st, Inl (OpOther ''copy in place''))
      else and_then (Get_at env t True src st) (\<lambda>st srcRawObj.
        and_then (GetUnwrap env t dst st) (\<lambda>st dstDir.
          if ObjHasMask dstDir NoWrite then (st, Inl PermissionDenied)
          else case dvCopy env of None \<Rightarrow> (st, Inl NotImplement) | Some cp \<Rightarrow>
            and_then (call_driver (cp (UnwrapObjName srcRawObj) dstDir) st) (\<lambda>st newObj.
              (on_caches (after_copy env t dst srcRawObj newObj) st, Inr ())))))"

definition op_Copy :: "'w op_env \<Rightarrow> int \<Rightarrow> string \<Rightarrow> string \<Rightarrow> ('w, 'l) op_st \<Rightarrow> ('w, 'l) op_st \<times> (op_error + unit)" where
  "op_Copy env t srcPath dstDirPath = checked env (Copy_at env t (comps_rev srcPath) (comps_rev dstDirPath))"

definition Remove_at :: "'w op_env \<Rightarrow> int \<Rightarrow> string list \<Rightarrow> ('w, 'l) op_st \<Rightarrow> ('w, 'l) op_st \<times> (op_error + unit)" where
  "Remove_at env t path st =
     (case path of [] \<Rightarrow> (st, Inl (OpOther ''delete root folder is not allowed'')) | name # ds \<Rightarrow>
      (case Get_at env t True path st of
         (st, Inl e) \<Rightarrow> if e = ObjectNotFound then (st, Inr ()) else (st, Inl e)
       | (st, Inr rawObj) \<Rightarrow>
           if ObjHasMask rawObj NoRemove then (st, Inl PermissionDenied)
           else case dvRemove env of None \<Rightarrow> (st, Inl NotImplement) | Some rm \<Rightarrow>
             and_then (call_driver (rm (UnwrapObjName rawObj)) st) (\<lambda>st _.
               (on_caches (removeDirectoryObject t (oeNoCache env) (oeStorage env) (path_of ds) rawObj) st, Inr ()))))"

definition op_Remove :: "'w op_env \<Rightarrow> int \<Rightarrow> string \<Rightarrow> ('w, 'l) op_st \<Rightarrow> ('w, 'l) op_st \<times> (op_error + unit)" where
  "op_Remove env t path = checked env (Remove_at env t (comps_rev path))"

text \<open>\<open>Put\<close> of a file whose size is known, to a storage that does not hold indices only.\<close>

definition after_put :: "'w op_env \<Rightarrow> int \<Rightarrow> string list \<Rightarrow> string \<Rightarrow> put_file \<Rightarrow> Obj option \<Rightarrow> 'l caches \<Rightarrow> 'l caches" where
  "after_put env t dst dstPath file newObj c =
     (let c = DeleteKey (Key (oeStorage env) dstPath) c in
      if oeNoCache env then c
      else let obj = wrapObjName env (case newObj of
               None \<Rightarrow> temp_object (pfName file) (pfSize file) (pfModified file) False | Some obj \<Rightarrow> obj)
      in if_cached t (key_of env dst) (update_dir (key_of env dst) (UpdateObject (GetName obj) obj)) c)"

definition settle_put :: "'w op_env \<Rightarrow> int \<Rightarrow> bool \<Rightarrow> string list \<Rightarrow> string \<Rightarrow> op_error option \<Rightarrow> ('w, 'l) op_st \<Rightarrow> ('w, 'l) op_st \<times> (op_error + unit)" where
  "settle_put env t renamed tempPath name err st =
     (case err of
        Some e \<Rightarrow> ((if renamed then fst (Rename_at env t tempPath name st) else st), Inl e)
      | None \<Rightarrow> if renamed then Remove_at env t tempPath st else (st, Inr ()))"

definition upload :: "'w op_env \<Rightarrow> int \<Rightarrow> string list \<Rightarrow> string \<Rightarrow> put_file \<Rightarrow> bool \<Rightarrow> string list \<Rightarrow> ('w, 'l) op_st \<Rightarrow> ('w, 'l) op_st \<times> (op_error + unit)" where
  "upload env t dst dstPath file renamed tempPath st =
     (case MakeDir_at env t dst st of (st, made) \<Rightarrow>
      case (case made of Inl e \<Rightarrow> if e \<noteq> ObjectAlreadyExists then Some e else None | Inr _ \<Rightarrow> None) of
        Some e \<Rightarrow> (st, Inl e)
      | None \<Rightarrow> and_then (GetUnwrap env t dst st) (\<lambda>st parentDir.
          if ObjHasMask parentDir NoWrite then (st, Inl PermissionDenied)
          else case dvPut env of None \<Rightarrow> (st, Inl NotImplement) | Some put \<Rightarrow>
            (case call_driver (put parentDir file) st of
               (st, Inl e) \<Rightarrow> settle_put env t renamed tempPath (pfName file) (Some e) st
             | (st, Inr newObj) \<Rightarrow>
                 settle_put env t renamed tempPath (pfName file) None (on_caches (after_put env t dst dstPath file newObj) st))))"

definition Put_at :: "'w op_env \<Rightarrow> int \<Rightarrow> string list \<Rightarrow> put_file \<Rightarrow> ('w, 'l) op_st \<Rightarrow> ('w, 'l) op_st \<times> (op_error + unit)" where
  "Put_at env t dst file st =
     (let dstPath = path_join (path_of dst) (pfName file);
          tempName = pfName file @ ''.openlist_to_delete'';
          tempPath = path_join (path_of dst) tempName
      in case GetUnwrap env t (comps_rev dstPath) st of
           (st, Inl e) \<Rightarrow> upload env t dst dstPath file False (comps_rev tempPath) st
         | (st, Inr fi) \<Rightarrow>
             if GetSize fi = 0 then and_then (Remove_at env t (comps_rev dstPath) st) (\<lambda>st _.
               upload env t dst dstPath file False (comps_rev tempPath) st)
             else if oeNoOverwrite env then and_then (Rename_at env t (comps_rev dstPath) tempName st) (\<lambda>st _.
               upload env t dst dstPath file (GetSize fi > 0) (comps_rev tempPath) st)
             else upload env t dst dstPath file False (comps_rev tempPath) st)"

definition op_Put :: "'w op_env \<Rightarrow> int \<Rightarrow> string \<Rightarrow> put_file \<Rightarrow> ('w, 'l) op_st \<Rightarrow> ('w, 'l) op_st \<times> (op_error + unit)" where
  "op_Put env t dstDirPath file = checked env (Put_at env t (comps_rev dstDirPath) file)"

text \<open>\<open>PutURL\<close> has the driver fetch a file, and refuses a name that is there.\<close>

definition PutURL_at :: "'w op_env \<Rightarrow> int \<Rightarrow> string list \<Rightarrow> string \<Rightarrow> string \<Rightarrow> ('w, 'l) op_st \<Rightarrow> ('w, 'l) op_st \<times> (op_error + unit)" where
  "PutURL_at env t dst dstName url st =
     (let dstPath = path_join (path_of dst) dstName in
      case Get_at env t False (comps_rev dstPath) st of
        (st, Inr x) \<Rightarrow> (st, Inl ObjectAlreadyExists)
      | (st, Inl e) \<Rightarrow>
          and_then (MakeDir_at env t dst st) (\<lambda>st _.
            and_then (GetUnwrap env t dst st) (\<lambda>st dstDir.
              if ObjHasMask dstDir NoWrite then (st, Inl PermissionDenied)
              else case dvPutURL env of None \<Rightarrow> (st, Inl NotImplement) | Some put \<Rightarrow>
                and_then (call_driver (put dstDir dstName url) st) (\<lambda>st newObj.
                  (on_caches (after_put env t dst dstPath \<lparr>pfName = dstName, pfSize = 0, pfModified = t\<rparr> newObj) st, Inr ())))))"

definition op_PutURL :: "'w op_env \<Rightarrow> int \<Rightarrow> string \<Rightarrow> string \<Rightarrow> string \<Rightarrow> ('w, 'l) op_st \<Rightarrow> ('w, 'l) op_st \<times> (op_error + unit)" where
  "op_PutURL env t dstDirPath dstName url = checked env (PutURL_at env t (comps_rev dstDirPath) dstName url)"

text \<open>What a client needs to upload to the storage's provider by itself: the directory is made first.\<close>

definition DirectUpload_at :: "'w op_env \<Rightarrow> int \<Rightarrow> string \<Rightarrow> string list \<Rightarrow> string \<Rightarrow> int \<Rightarrow> bool \<Rightarrow> ('w, 'l) op_st \<Rightarrow> ('w, 'l) op_st \<times> (op_error + string)" where
  "DirectUpload_at env t tool dst dstName fileSize overwrite st =
     (let found = (if overwrite then (st, Inl ObjectNotFound) else Get_at env t False (comps_rev (path_join (path_of dst) dstName)) st)
      in case found of
           (st, Inr x) \<Rightarrow> (st, Inl ObjectAlreadyExists)
         | (st, Inl e) \<Rightarrow>
             if e \<noteq> ObjectNotFound then (st, Inl e)
             else and_then (MakeDir_at env t dst st) (\<lambda>st _.
               and_then (GetUnwrap env t dst st) (\<lambda>st dstDir.
                 (st, (the (dvDirectInfo env)) tool dstDir dstName fileSize (opWorld st)))))"

definition GetDirectUploadInfo :: "'w op_env \<Rightarrow> int \<Rightarrow> string \<Rightarrow> string \<Rightarrow> string \<Rightarrow> int \<Rightarrow> bool \<Rightarrow> ('w, 'l) op_st \<Rightarrow> ('w, 'l) op_st \<times> (op_error + string)" where
  "GetDirectUploadInfo env t tool dstDirPath dstName fileSize overwrite st =
     (if dvDirectInfo env = None then (st, Inl NotImplement)
      else checked env (DirectUpload_at env t tool (comps_rev dstDirPath) dstName fileSize overwrite) st)"

end
