(* ===== verification/Op_Coherence.thy ===== *)
theory Op_Coherence imports Op_Fs "HOL-Library.Sublist" begin

text \<open>
  The directory cache of a storage is transparent: whatever operations a server performs, its listings
  show what the driver has.  The driver is described by an abstract tree that its operations change;
  the invariant relates every cached listing to the tree, and keeps the cached listings closed under
  parents, which is what the removal of a directory from the cache needs.  Paths are reversed: the
  first component is the name.
\<close>

section \<open>Keys of paths\<close>

definition actual_comps :: "Storage \<Rightarrow> string list" where
  "actual_comps s = comps_of (GetActualMountPath (MountPath s))"

definition mount_normal :: "Storage \<Rightarrow> bool" where
  "mount_normal s \<longleftrightarrow> normal_comps (actual_comps s) \<and> GetActualMountPath (MountPath s) = mk_abs (actual_comps s)"

definition pkey :: "Storage \<Rightarrow> string list \<Rightarrow> string" where
  "pkey s p = Key s (path_of p)"

lemma normal_rev [simp]: "normal_comps (rev p) = normal_comps p"
  by (simp add: normal_comps_def)

lemma pkey_abs: "mount_normal s \<Longrightarrow> normal_comps p \<Longrightarrow> pkey s p = mk_abs (actual_comps s @ rev p)"
  unfolding mount_normal_def pkey_def Key_def GetFullPath_def path_of_def by (metis normal_rev path_join_mk_abs)

lemma pkey_inj: "mount_normal s \<Longrightarrow> normal_comps p \<Longrightarrow> normal_comps q \<Longrightarrow> pkey s p = pkey s q \<longleftrightarrow> p = q"
  using pkey_abs comps_of_mk_abs by (metis mount_normal_def normal_rev normal_comps_simps(3) same_append_eq rev_rev_ident)

lemma pkey_child:
  assumes "mount_normal s" "normal_comps p" "name_ok n"
  shows "path_join (pkey s p) n = pkey s (n # p)"
  using path_join_name[of "actual_comps s @ rev p" n] assms by (simp add: pkey_abs mount_normal_def)

section \<open>Deleting a tree of listings\<close>

definition kinds :: "Obj list \<Rightarrow> (string \<times> bool) list" where
  "kinds objs = map (\<lambda>x. (GetName x, IsDir x)) objs"

definition cached :: "'v keyed \<Rightarrow> string \<Rightarrow> bool" where
  "cached ds k \<longleftrightarrow> map_of ds k \<noteq> None"

text \<open>All keys are of paths, and a listing names the directories whose listings are cached.\<close>

definition dirs_shaped :: "Storage \<Rightarrow> dir_cache keyed \<Rightarrow> bool" where
  "dirs_shaped s ds \<longleftrightarrow> (\<forall>k dc x. map_of ds k = Some (dc, x) \<longrightarrow> (\<exists>p. normal_comps p \<and> k = pkey s p
     \<and> (\<forall>n b. (n, b) \<in> set (kinds (dcObjs dc)) \<longrightarrow> name_ok n)
     \<and> (\<forall>n. normal_comps (n # p) \<and> cached ds (pkey s (n # p)) \<longrightarrow> (n, True) \<in> set (kinds (dcObjs dc)))))"

definition closed_but :: "Storage \<Rightarrow> string list set \<Rightarrow> dir_cache keyed \<Rightarrow> bool" where
  "closed_but s P ds \<longleftrightarrow> (\<forall>n p. normal_comps (n # p) \<and> cached ds (pkey s (n # p)) \<longrightarrow>
     (n # p) \<in> P \<or> cached ds (pkey s p))"

lemma closed_butD: "closed_but s P ds \<Longrightarrow> normal_comps (n # p) \<Longrightarrow> cached ds (pkey s (n # p)) \<Longrightarrow> n # p \<notin> P \<Longrightarrow> cached ds (pkey s p)"
  unfolding closed_but_def by blast

text \<open>The entries that are not at or below a path of a set.\<close>

definition outside :: "Storage \<Rightarrow> string list set \<Rightarrow> dir_cache keyed \<Rightarrow> (string \<Rightarrow> (dir_cache \<times> int) option)" where
  "outside s P ds = (\<lambda>k. if \<exists>p \<in> P. \<exists>q. normal_comps q \<and> suffix p q \<and> k = pkey s q then None else map_of ds k)"

lemma outside_None: "map_of ds k = None \<Longrightarrow> outside s P ds k = None"
  by (simp add: outside_def)

lemma outside_at:
  assumes "mount_normal s" "normal_comps q"
  shows "outside s P ds (pkey s q) = (if \<exists>p \<in> P. suffix p q then None else map_of ds (pkey s q))"
  using pkey_inj[OF assms(1)] assms(2) by (auto simp: outside_def)

lemma shapedD: "dirs_shaped s ds \<Longrightarrow> cached ds k \<Longrightarrow> \<exists>p. normal_comps p \<and> k = pkey s p"
  unfolding dirs_shaped_def cached_def by fast

lemma shaped_delete: "dirs_shaped s ds \<Longrightarrow> dirs_shaped s (kc_delete k ds)"
  unfolding dirs_shaped_def cached_def by (auto split: if_splits) (metis option.discI)+

lemma closed_chain:
  assumes "closed_but s P ds" "mount_normal s" "\<not> cached ds (pkey s p)" "suffix p q" "normal_comps q" "cached ds (pkey s q)"
  shows "\<exists>r \<in> P. r \<noteq> p \<and> suffix p r \<and> suffix r q"
  using assms(4-6)
proof (induction q)
  case Nil
  then show ?case using assms(3) by simp
next
  case (Cons n q)
  show ?case
  proof (cases "n # q = p \<or> n # q \<in> P")
    case True
    then have "n # q \<in> P" "n # q \<noteq> p" using Cons.prems(3) assms(3) by auto
    then show ?thesis using Cons.prems(1) by auto
  next
    case False
    then have "cached ds (pkey s q)" by (intro closed_butD[OF assms(1) Cons.prems(2,3)]) simp
    moreover have "suffix p q" using Cons.prems(1) False by (auto simp: suffix_Cons)
    ultimately show ?thesis using Cons.IH Cons.prems(2) by (auto intro: suffix_ConsI)
  qed
qed

lemma closed_reaches:
  assumes "closed_but s P ds" "mount_normal s" "strict_suffix p q" "normal_comps q" "cached ds (pkey s q)"
  shows "(\<exists>r \<in> P. strict_suffix p r \<and> suffix r q) \<or> (\<exists>n. suffix (n # p) q \<and> cached ds (pkey s (n # p)))"
  using assms(3-5)
proof (induction q)
  case (Cons n q)
  show ?case
  proof (cases "q = p \<or> n # q \<in> P")
    case True
    then show ?thesis using Cons.prems by auto
  next
    case False
    then have "cached ds (pkey s q)" by (intro closed_butD[OF assms(1) Cons.prems(2,3)]) simp
    moreover have "strict_suffix p q" using Cons.prems(1) False by (auto simp: strict_suffix_def suffix_Cons)
    ultimately show ?thesis using Cons.IH Cons.prems(2) by (auto intro: suffix_ConsI)
  qed
qed simp

lemma child_dirs_keys:
  assumes "mount_normal s" "normal_comps p" "\<forall>n b. (n, b) \<in> set (kinds objs) \<longrightarrow> name_ok n"
  shows "child_dirs (pkey s p) objs = map (pkey s) (map (\<lambda>x. GetName x # p) (filter IsDir objs))"
proof -
  have "name_ok (GetName x)" if "x \<in> set objs" for x using assms(3) that by (force simp: kinds_def)
  then show ?thesis using assms(1,2) by (auto simp: child_dirs_def pkey_child)
qed

lemma outside_cong:
  assumes "\<And>q. normal_comps q \<Longrightarrow> cached ds (pkey s q) \<Longrightarrow> (\<exists>p \<in> P. suffix p q) \<longleftrightarrow> (\<exists>p \<in> Q. suffix p q)"
  shows "outside s P ds = outside s Q ds"
proof
  fix k
  show "outside s P ds k = outside s Q ds k"
  proof (cases "cached ds k")
    case True
    then have "(\<exists>p \<in> P. \<exists>q. normal_comps q \<and> suffix p q \<and> k = pkey s q) \<longleftrightarrow> (\<exists>p \<in> Q. \<exists>q. normal_comps q \<and> suffix p q \<and> k = pkey s q)"
      using assms by blast
    then show ?thesis by (simp only: outside_def)
  next
    case False
    then have "map_of ds k = None" by (simp add: cached_def del: not_None_eq)
    then show ?thesis by (simp only: outside_None)
  qed
qed

lemma outside_miss:
  assumes "closed_but s P ds" "mount_normal s" "\<not> cached ds (pkey s p)"
  shows "outside s P ds = outside s (P - {p}) ds"
proof (rule outside_cong)
  fix q assume q: "normal_comps q" "cached ds (pkey s q)"
  show "(\<exists>p \<in> P. suffix p q) \<longleftrightarrow> (\<exists>p \<in> P - {p}. suffix p q)"
    using closed_chain[OF assms(1-3) _ q] by (cases "suffix p q") blast+
qed

lemma closed_miss:
  "closed_but s P ds \<Longrightarrow> \<not> cached ds (pkey s p) \<Longrightarrow> closed_but s (P - {p}) ds"
  unfolding closed_but_def by blast

lemma cached_delete [simp]: "cached (kc_delete k ds) k' \<longleftrightarrow> cached ds k' \<and> k' \<noteq> k"
  by (auto simp: cached_def)

lemma closed_pop:
  assumes "closed_but s P ds" "mount_normal s" "normal_comps p" "dirs_shaped s ds" "map_of ds (pkey s p) = Some (dc, x)"
  shows "closed_but s ((\<lambda>x. GetName x # p) ` set (filter IsDir (dcObjs dc)) \<union> (P - {p})) (kc_delete (pkey s p) ds)"
  unfolding closed_but_def
proof (intro allI impI)
  fix n q assume a: "normal_comps (n # q) \<and> cached (kc_delete (pkey s p) ds) (pkey s (n # q))"
  then have c: "cached ds (pkey s (n # q))" "n # q \<noteq> p" by auto
  let ?C = "(\<lambda>x. GetName x # p) ` set (filter IsDir (dcObjs dc))"
  show "n # q \<in> ?C \<union> (P - {p}) \<or> cached (kc_delete (pkey s p) ds) (pkey s q)"
  proof (cases "n # q \<in> P")
    case False
    then have "cached ds (pkey s q)" using closed_butD[OF assms(1)] a c by blast
    moreover have "n # q \<in> ?C" if "q = p"
    proof -
      obtain p' where "normal_comps p'" "pkey s p = pkey s p'" "\<forall>n. normal_comps (n # p') \<and> cached ds (pkey s (n # p')) \<longrightarrow> (n, True) \<in> set (kinds (dcObjs dc))"
        using assms(4,5) unfolding dirs_shaped_def by blast
      then have "(n, True) \<in> set (kinds (dcObjs dc))" using pkey_inj[OF assms(2,3)] a c that by metis
      then show ?thesis using that by (auto simp: kinds_def)
    qed
    ultimately show ?thesis using pkey_inj[OF assms(2)] assms(3) a by (cases "q = p") auto
  qed (use c in auto)
qed

lemma outside_pop:
  assumes "closed_but s P ds" "mount_normal s" "normal_comps p" "p \<in> P" "dirs_shaped s ds" "map_of ds (pkey s p) = Some (dc, x)"
    "\<forall>p \<in> P. normal_comps p"
  shows "outside s P ds = outside s ((\<lambda>x. GetName x # p) ` set (filter IsDir (dcObjs dc)) \<union> (P - {p})) (kc_delete (pkey s p) ds)"
proof
  fix k
  let ?C = "(\<lambda>x. GetName x # p) ` set (filter IsDir (dcObjs dc))"
  have names: "normal_comps c" if c: "c \<in> ?C" for c
  proof -
    obtain p' where "pkey s p = pkey s p'" "\<forall>n b. (n, b) \<in> set (kinds (dcObjs dc)) \<longrightarrow> name_ok n"
      using assms(5,6) unfolding dirs_shaped_def by blast
    then show ?thesis using c assms(3) by (force simp: kinds_def)
  qed
  show "outside s P ds k = outside s (?C \<union> (P - {p})) (kc_delete (pkey s p) ds) k"
  proof (cases "cached ds k")
    case False
    then have "map_of ds k = None" "map_of (kc_delete (pkey s p) ds) k = None" by (simp_all add: cached_def del: not_None_eq)
    then show ?thesis by (simp only: outside_None)
  next
    case True
    then obtain q where q: "normal_comps q" "k = pkey s q" "cached ds (pkey s q)"
      using shapedD[OF assms(5)] by blast
    have "(\<exists>c \<in> ?C. suffix c q) \<or> (\<exists>r \<in> P - {p}. suffix r q)" if "suffix p q" "q \<noteq> p"
    proof -
      have "strict_suffix p q" using that by (simp add: strict_suffix_def)
      from closed_reaches[OF assms(1,2) this q(1,3)] show ?thesis
      proof
        assume "\<exists>r \<in> P. strict_suffix p r \<and> suffix r q"
        then show ?thesis by (auto simp: strict_suffix_def)
      next
        assume "\<exists>n. suffix (n # p) q \<and> cached ds (pkey s (n # p))"
        then obtain n where n: "suffix (n # p) q" "cached ds (pkey s (n # p))" by blast
        then have nc: "normal_comps (n # p)" using q(1) by (auto simp: suffix_def)
        obtain p' where "normal_comps p'" "pkey s p = pkey s p'" "\<forall>n. normal_comps (n # p') \<and> cached ds (pkey s (n # p')) \<longrightarrow> (n, True) \<in> set (kinds (dcObjs dc))"
          using assms(5,6) unfolding dirs_shaped_def by blast
        then have "(n, True) \<in> set (kinds (dcObjs dc))" using pkey_inj[OF assms(2,3)] nc n(2) by metis
        then show ?thesis using n(1) by (force simp: kinds_def)
      qed
    qed
    moreover have "suffix p q" if "c \<in> ?C" "suffix c q" for c using that by (auto intro: suffix_ConsD)
    ultimately have "(\<exists>p \<in> P. suffix p q) \<longleftrightarrow> q = p \<or> (\<exists>r \<in> ?C \<union> (P - {p}). suffix r q)" using assms(4) by blast
    then show ?thesis unfolding q(2) outside_at[OF assms(2) q(1)] using pkey_inj[OF assms(2) q(1) assms(3)] by auto
  qed
qed

lemma delete_trees_outside:
  assumes "mount_normal s" "\<forall>p \<in> set ps. normal_comps p" "dirs_shaped s (chDirs c)" "closed_but s (set ps) (chDirs c)"
  shows "map_of (chDirs (delete_trees (map (pkey s) ps) c)) = outside s (set ps) (chDirs c)"
  using assms
proof (induction "map (pkey s) ps" c arbitrary: ps rule: delete_trees.induct)
  case (1 c)
  then show ?case by (simp add: outside_def)
next
  case (2 k ks c)
  obtain p qs where ps: "ps = p # qs" "k = pkey s p" "ks = map (pkey s) qs" using 2(3) by (cases ps) auto
  have p: "normal_comps p" "p \<in> set ps" using 2(5) ps by auto
  show ?case
  proof (cases "map_of (chDirs c) k")
    case None
    then have pop: "kc_pop k (chDirs c) = (chDirs c, None)" by (simp add: kc_pop_def)
    have nc: "\<not> cached (chDirs c) (pkey s p)" using None ps by (simp add: cached_def)
    have cl: "closed_but s (set qs) (chDirs c)"
      using closed_miss[OF 2(7) nc] ps unfolding closed_but_def by auto
    have "outside s (set ps) (chDirs c) = outside s (set qs) (chDirs c)"
      using outside_miss[OF 2(7) 2(4) nc] outside_miss[OF cl 2(4) nc] ps by simp
    then show ?thesis using 2(1)[OF pop[symmetric] _ ps(3) 2(4) _ 2(6) cl] 2(5) pop ps by simp
  next
    case (Some e)
    obtain dc x where e: "e = (dc, x)" by fastforce
    have pop: "kc_pop k (chDirs c) = (kc_delete k (chDirs c), Some dc)" using Some e by (simp add: kc_pop_def)
    have names: "\<forall>n b. (n, b) \<in> set (kinds (dcObjs dc)) \<longrightarrow> name_ok n" using 2(6) Some e unfolding dirs_shaped_def by blast
    let ?cs = "map (\<lambda>x. GetName x # p) (filter IsDir (dcObjs dc))"
    let ?c = "fold DeleteKey (child_files k (dcObjs dc)) (c\<lparr>chDirs := kc_delete k (chDirs c)\<rparr>)"
    have keys: "child_dirs k (dcObjs dc) @ ks = map (pkey s) (?cs @ qs)" using child_dirs_keys[OF 2(4) p(1) names] ps by simp
    have nrm: "\<forall>p \<in> set (?cs @ qs). normal_comps p" using names p(1) 2(5) ps by (force simp: kinds_def)
    have closed0: "closed_but s (set ?cs \<union> (set ps - {p})) (kc_delete k (chDirs c))"
      using closed_pop[OF 2(7) 2(4) p(1) 2(6)] Some e ps by simp
    then have closed: "closed_but s (set (?cs @ qs)) (chDirs ?c)" using ps unfolding closed_but_def by auto
    have "map_of (chDirs (delete_trees (map (pkey s) (?cs @ qs)) ?c)) = outside s (set (?cs @ qs)) (chDirs ?c)"
      by (rule 2(2)[OF pop[symmetric] refl keys 2(4) nrm _ closed, simplified keys]) (simp add: shaped_delete[OF 2(6)])
    moreover have "(\<lambda>x. GetName x # p) ` A - {p} = (\<lambda>x. GetName x # p) ` A" for A by auto
    then have "outside s (set (?cs @ qs)) (kc_delete k (chDirs c)) = outside s (set ps) (chDirs c)"
      using outside_pop[OF 2(7) 2(4) p 2(6) _ 2(5)] Some e ps
        outside_miss[of s "set (?cs @ qs)" "kc_delete k (chDirs c)" p] closed 2(4)
      by (cases "p \<in> set qs") (simp_all add: Un_Diff)
    ultimately show ?thesis using pop keys ps by (simp del: map_append)
  qed
qed

section \<open>Listings that show a directory\<close>

type_synonym tree = "string list \<Rightarrow> (string \<Rightarrow> bool option) option"
type_synonym denotes = "Obj \<Rightarrow> string list \<Rightarrow> bool"

text \<open>The listing has the names and kinds of the directory, and its objects that are not temporary denote
  the entries.\<close>

definition objs_show :: "denotes \<Rightarrow> string list \<Rightarrow> Obj list \<Rightarrow> (string \<Rightarrow> bool option) \<Rightarrow> bool" where
  "objs_show D p objs S \<longleftrightarrow> distinct (map GetName objs) \<and> map_of (kinds objs) = S
     \<and> (\<forall>x \<in> set objs. \<not> ObjHasMask x Temp \<longrightarrow> D (UnwrapObjName x) (GetName x # p))"

lemma fst_kinds [simp]: "map fst (kinds objs) = map GetName objs" "fst ` set (kinds objs) = GetName ` set objs"
  by (simp_all add: kinds_def image_image)

lemma objs_show_perm:
  assumes "objs_show D p xs S" "mset ys = mset xs"
  shows "objs_show D p ys S"
proof -
  have sy: "set ys = set xs" using assms(2) by (rule mset_eq_setD)
  have "mset (map GetName ys) = mset (map GetName xs)" using assms(2) by simp
  then have "distinct (map GetName ys) = distinct (map GetName xs)" by (rule mset_eq_imp_distinct_iff)
  then have d: "distinct (map GetName ys)" using assms(1) by (simp add: objs_show_def)
  have "set (kinds ys) = set (kinds xs)" using sy by (simp add: kinds_def)
  then have "map_of (kinds ys) = map_of (kinds xs)"
    using map_of_inject_set[of "kinds ys" "kinds xs"] d assms(1) by (simp add: objs_show_def)
  then show ?thesis using assms(1) d sy by (simp add: objs_show_def)
qed

lemma objs_show_mono:
  assumes "objs_show D p xs S" "\<And>x n. D x (n # p) \<Longrightarrow> D' x (n # p)"
  shows "objs_show D' p xs S"
  using assms unfolding objs_show_def by blast

lemma objs_show_some: "objs_show D p objs S \<Longrightarrow> S n = Some b \<longleftrightarrow> (n, b) \<in> set (kinds objs)"
  by (auto simp: objs_show_def)

lemma objs_show_none: "objs_show D p objs S \<Longrightarrow> S n = None \<longleftrightarrow> n \<notin> GetName ` set objs"
  unfolding objs_show_def by (metis fst_kinds(2) map_of_eq_None_iff)

lemma objs_show_find:
  assumes "objs_show D p objs S"
  shows "find_named n objs = None \<longleftrightarrow> S n = None"
    "find_named n objs = Some x \<Longrightarrow> x \<in> set objs \<and> GetName x = n \<and> S n = Some (IsDir x)"
proof -
  show "find_named n objs = None \<longleftrightarrow> S n = None"
    using objs_show_none[OF assms] by (auto simp: find_named_def find_None_iff)
  assume "find_named n objs = Some x"
  then have x: "x \<in> set objs" "GetName x = n" by (auto simp: find_named_def find_Some_iff)
  then have "(n, IsDir x) \<in> set (kinds objs)" by (auto simp: kinds_def)
  then show "x \<in> set objs \<and> GetName x = n \<and> S n = Some (IsDir x)" using x objs_show_some[OF assms] by simp
qed

lemma remove_named_filter: "distinct (map GetName xs) \<Longrightarrow> remove_named n xs = filter (\<lambda>x. GetName x \<noteq> n) xs"
proof (induction xs)
  case (Cons x xs)
  have "filter (\<lambda>y. GetName y \<noteq> GetName x) xs = xs" using Cons.prems by (auto simp: filter_id_conv) (metis image_eqI)
  then show ?case using Cons by auto
qed simp

lemma map_of_filter_out: "map_of (filter (\<lambda>e. fst e \<noteq> n) xs) = (map_of xs)(n := None)"
  by (rule ext) (induction xs; auto)

lemma objs_show_remove:
  assumes "objs_show D p objs S"
  shows "objs_show D p (remove_named n objs) (S(n := None))"
proof -
  have r: "remove_named n objs = filter (\<lambda>x. GetName x \<noteq> n) objs" using assms remove_named_filter by (simp add: objs_show_def)
  have "kinds (filter (\<lambda>x. GetName x \<noteq> n) objs) = filter (\<lambda>e. fst e \<noteq> n) (kinds objs)"
    by (simp add: kinds_def filter_map comp_def)
  then show ?thesis using assms by (auto simp: r objs_show_def map_of_filter_out distinct_map_filter)
qed

lemma objs_show_append:
  assumes "objs_show D p objs S" "S (GetName y) = None" "\<not> ObjHasMask y Temp \<longrightarrow> D (UnwrapObjName y) (GetName y # p)"
  shows "objs_show D p (objs @ [y]) (S(GetName y \<mapsto> IsDir y))"
proof -
  have "GetName y \<notin> GetName ` set objs" using objs_show_none[OF assms(1)] assms(2) by simp
  moreover have "map_of (kinds objs @ [(n, b)]) = (map_of (kinds objs))(n \<mapsto> b)" if "map_of (kinds objs) n = None" for n b
    using that by (auto simp: map_add_def fun_eq_iff split: option.split)
  ultimately show ?thesis using assms by (auto simp: objs_show_def kinds_def)
qed

lemma replace_named_mset: "replace_named n y xs = Some ys \<Longrightarrow> mset ys = add_mset y (mset (remove_named n xs))"
  by (induction xs arbitrary: ys) (auto split: if_splits)

lemma replace_named_None: "replace_named n y xs = None \<longleftrightarrow> n \<notin> GetName ` set xs"
  by (induction xs) auto

lemma objs_show_update:
  assumes "objs_show D p objs S" "n \<noteq> ''''" "GetName y = n \<or> S (GetName y) = None"
    "\<not> ObjHasMask y Temp \<longrightarrow> D' (UnwrapObjName y) (GetName y # p)" "dcObjs dc = objs"
    "\<And>x m. m \<noteq> n \<Longrightarrow> D x (m # p) \<Longrightarrow> D' x (m # p)"
  shows "objs_show D' p (dcObjs (UpdateObject n y dc)) ((S(n := None))(GetName y \<mapsto> IsDir y))"
proof -
  have rm: "objs_show D p (remove_named n objs) (S(n := None))" by (rule objs_show_remove[OF assms(1)])
  have "GetName x \<noteq> n" if "x \<in> set (remove_named n objs)" for x
    using objs_show_none[OF rm, of n] that by auto
  then have "objs_show D' p (remove_named n objs) (S(n := None))"
    using rm assms(6) unfolding objs_show_def by blast
  then have ap: "objs_show D' p (remove_named n objs @ [y]) ((S(n := None))(GetName y \<mapsto> IsDir y))"
    using assms(3,4) by (intro objs_show_append) auto
  have "mset (dcObjs (UpdateObject n y dc)) = mset (remove_named n objs @ [y])"
  proof (cases "replace_named n y objs")
    case None
    then have "n \<notin> GetName ` set objs" using replace_named_None by blast
    then have "remove_named n objs = objs" by (induction objs) auto
    then show ?thesis using None assms(2,5) by (simp add: UpdateObject_def)
  next
    case (Some ys)
    then show ?thesis using replace_named_mset[OF Some] assms(2,5) by (simp add: UpdateObject_def)
  qed
  then show ?thesis by (rule objs_show_perm[OF ap])
qed

lemma objs_show_make:
  assumes "objs_show D p objs S" "S (GetName y) = None" "\<not> ObjHasMask y Temp \<longrightarrow> D (UnwrapObjName y) (GetName y # p)" "dcObjs dc = objs"
  shows "objs_show D p (dcObjs (UpdateObject '''' y dc)) (S(GetName y \<mapsto> IsDir y))"
  using objs_show_append[OF assms(1-3)] assms(4) by (simp add: UpdateObject_def)

definition dc_settled :: "dir_cache \<Rightarrow> bool" where
  "dc_settled dc \<longleftrightarrow> dirtyRemove dc \<or> dirtyUpdate dc \<or> mset (dcSorted dc) = mset (dcObjs dc)"

lemma dc_settled_simps [simp]: "dc_settled (newDirectoryCache objs)" "dc_settled dc \<Longrightarrow> dc_settled (RemoveObject n dc)" "dc_settled (UpdateObject m y dc)"
  by (auto simp: dc_settled_def newDirectoryCache_def RemoveObject_def UpdateObject_def split: option.split)

lemma GetSorted_mset:
  assumes "GetSortedObjects srt b s dc = (dc', objs)" "dc_settled dc" "sorter_law srt"
  shows "mset objs = mset (dcObjs dc)" "dcObjs dc' = dcObjs dc" "dc_settled dc'"
  using assms by (auto simp: GetSortedObjects_def Let_def dc_settled_def mset_SortFiles split: if_splits)

lemma dcObjs_RemoveObject: "dcObjs (RemoveObject n dc) = remove_named n (dcObjs dc)"
proof -
  have "\<not> list_ex (\<lambda>x. GetName x = n) xs \<Longrightarrow> remove_named n xs = xs" for xs by (induction xs) auto
  then show ?thesis by (simp add: RemoveObject_def)
qed

section \<open>Coherence of the cached listings\<close>

definition tree_ok :: "tree \<Rightarrow> bool" where
  "tree_ok T \<longleftrightarrow> T [] \<noteq> None \<and> (\<forall>n p. T (n # p) \<noteq> None \<longleftrightarrow> (\<exists>S. T p = Some S \<and> S n = Some True))
     \<and> (\<forall>p S n. T p = Some S \<and> S n \<noteq> None \<longrightarrow> name_ok n)"

lemma tree_child: "tree_ok T \<Longrightarrow> T (n # p) \<noteq> None \<longleftrightarrow> (\<exists>S. T p = Some S \<and> S n = Some True)"
  unfolding tree_ok_def by blast

lemma tree_name: "tree_ok T \<Longrightarrow> T p = Some S \<Longrightarrow> S n = Some b \<Longrightarrow> name_ok n"
  unfolding tree_ok_def by (metis option.discI)

lemma tree_normal: "tree_ok T \<Longrightarrow> T p \<noteq> None \<Longrightarrow> normal_comps p"
proof (induction p)
  case (Cons n p)
  then obtain S where "T p = Some S" "S n = Some True" using tree_child by blast
  then show ?case using Cons tree_name by auto
qed simp

text \<open>A cached listing that lives until \<open>tend\<close> and shows its directory.\<close>

definition entry_ok :: "int \<Rightarrow> tree \<Rightarrow> denotes \<Rightarrow> string list \<Rightarrow> dir_cache \<times> int \<Rightarrow> bool" where
  "entry_ok tend T D p e \<longleftrightarrow> tend \<le> snd e \<and> dc_settled (fst e) \<and> (\<exists>S. T p = Some S \<and> objs_show D p (dcObjs (fst e)) S)"

definition coherent :: "Storage \<Rightarrow> int \<Rightarrow> tree \<Rightarrow> denotes \<Rightarrow> dir_cache keyed \<Rightarrow> bool" where
  "coherent s tend T D ds \<longleftrightarrow>
     (\<forall>k. cached ds k \<longrightarrow> (\<exists>p. normal_comps p \<and> k = pkey s p))
     \<and> (\<forall>p e. normal_comps p \<and> map_of ds (pkey s p) = Some e \<longrightarrow> entry_ok tend T D p e)
     \<and> (\<forall>n p. normal_comps (n # p) \<and> cached ds (pkey s (n # p)) \<longrightarrow> cached ds (pkey s p))"

lemma coherent_key: "coherent s tend T D ds \<Longrightarrow> cached ds k \<Longrightarrow> \<exists>p. normal_comps p \<and> k = pkey s p"
  and coherent_entry: "coherent s tend T D ds \<Longrightarrow> normal_comps p \<Longrightarrow> map_of ds (pkey s p) = Some e \<Longrightarrow> entry_ok tend T D p e"
  and coherent_parent: "coherent s tend T D ds \<Longrightarrow> normal_comps (n # p) \<Longrightarrow> cached ds (pkey s (n # p)) \<Longrightarrow> cached ds (pkey s p)"
  unfolding coherent_def by blast+

lemma coherent_tree: "coherent s tend T D ds \<Longrightarrow> normal_comps p \<Longrightarrow> cached ds (pkey s p) \<Longrightarrow> T p \<noteq> None"
  using coherent_entry by (fastforce simp: cached_def entry_ok_def)

lemma coherent_closed: "coherent s tend T D ds \<Longrightarrow> closed_but s P ds"
  unfolding closed_but_def using coherent_parent by blast

lemma coherent_shaped:
  assumes "coherent s tend T D ds" "tree_ok T"
  shows "dirs_shaped s ds"
  unfolding dirs_shaped_def
proof (intro allI impI)
  fix k dc x assume e: "map_of ds k = Some (dc, x)"
  then obtain p where p: "normal_comps p" "k = pkey s p" using coherent_key[OF assms(1), of k] by (auto simp: cached_def)
  then have ok: "entry_ok tend T D p (dc, x)" using coherent_entry[OF assms(1)] e by blast
  then obtain S where S: "T p = Some S" "objs_show D p (dcObjs dc) S" by (auto simp: entry_ok_def)
  have "name_ok n" if "(n, b) \<in> set (kinds (dcObjs dc))" for n b
    using objs_show_some[OF S(2)] tree_name[OF assms(2) S(1)] that by blast
  moreover have "(n, True) \<in> set (kinds (dcObjs dc))" if "normal_comps (n # p)" "cached ds (pkey s (n # p))" for n
    using coherent_tree[OF assms(1) that] tree_child[OF assms(2), of n p] S objs_show_some[OF S(2)] by auto
  ultimately show "\<exists>p. normal_comps p \<and> k = pkey s p \<and> (\<forall>n b. (n, b) \<in> set (kinds (dcObjs dc)) \<longrightarrow> name_ok n)
      \<and> (\<forall>n. normal_comps (n # p) \<and> cached ds (pkey s (n # p)) \<longrightarrow> (n, True) \<in> set (kinds (dcObjs dc)))"
    using p by blast
qed

text \<open>What keeps coherence when the tree changes: entries of changed directories show the new ones, the others are as they
  were, no entry is new, and none loses its parent.\<close>

lemma coherent_change:
  assumes "coherent s tend T D ds"
    and "\<And>k. cached ds' k \<Longrightarrow> cached ds k"
    and "\<And>p e. normal_comps p \<Longrightarrow> map_of ds' (pkey s p) = Some e \<Longrightarrow> entry_ok tend T' D' p e \<or>
        (map_of ds (pkey s p) = Some e \<and> T' p = T p \<and> (\<forall>x n. D x (n # p) \<longrightarrow> D' x (n # p)))"
    and "\<And>n p. normal_comps (n # p) \<Longrightarrow> cached ds' (pkey s (n # p)) \<Longrightarrow> cached ds' (pkey s p)"
  shows "coherent s tend T' D' ds'"
  unfolding coherent_def
proof (intro conjI allI impI)
  fix k assume "cached ds' k"
  then show "\<exists>p. normal_comps p \<and> k = pkey s p" using coherent_key[OF assms(1)] assms(2) by blast
next
  fix p e assume "normal_comps p \<and> map_of ds' (pkey s p) = Some e"
  then have p: "normal_comps p" "map_of ds' (pkey s p) = Some e" by auto
  from assms(3)[OF p] show "entry_ok tend T' D' p e"
  proof
    assume o: "map_of ds (pkey s p) = Some e \<and> T' p = T p \<and> (\<forall>x n. D x (n # p) \<longrightarrow> D' x (n # p))"
    then have "entry_ok tend T D p e" using coherent_entry[OF assms(1) p(1)] by blast
    then show ?thesis using o objs_show_mono[of D p "dcObjs (fst e)" _ D'] by (auto simp: entry_ok_def)
  qed
next
  fix n p assume "normal_comps (n # p) \<and> cached ds' (pkey s (n # p))"
  then show "cached ds' (pkey s p)" using assms(4) by blast
qed

lemma cached_update [simp]: "cached (kc_update k f ds) k' \<longleftrightarrow> cached ds k'"
  by (auto simp: cached_def split: option.splits)

lemma get_live:
  assumes "coherent s tend T D ds" "t \<le> tend" "normal_comps p"
  shows "kc_get t (pkey s p) ds = (ds, map_option fst (map_of ds (pkey s p)))"
  using coherent_entry[OF assms(1,3)] assms(2) by (fastforce simp: kc_get_def entry_ok_def split: option.split)

text \<open>Updating the listing of one directory.\<close>

lemma coherent_update:
  assumes "coherent s tend T D ds" "mount_normal s" "normal_comps p"
    and "\<And>dc S. T p = Some S \<Longrightarrow> dc_settled dc \<Longrightarrow> objs_show D p (dcObjs dc) S \<Longrightarrow> dc_settled (f dc) \<and> (\<exists>S'. T' p = Some S' \<and> objs_show D' p (dcObjs (f dc)) S')"
    and "\<And>q. q \<noteq> p \<Longrightarrow> normal_comps q \<Longrightarrow> cached ds (pkey s q) \<Longrightarrow> T' q = T q \<and> (\<forall>x n. D x (n # q) \<longrightarrow> D' x (n # q))"
  shows "coherent s tend T' D' (kc_update (pkey s p) f ds)"
proof (rule coherent_change[OF assms(1)])
  fix q e assume q: "normal_comps q" "map_of (kc_update (pkey s p) f ds) (pkey s q) = Some e"
  then obtain dc x where o: "map_of ds (pkey s q) = Some (dc, x)" and e: "e = (if q = p then (f dc, x) else (dc, x))"
    using pkey_inj[OF assms(2) q(1) assms(3)] by (fastforce split: option.splits if_splits)
  show "entry_ok tend T' D' q e \<or> (map_of ds (pkey s q) = Some e \<and> T' q = T q \<and> (\<forall>x n. D x (n # q) \<longrightarrow> D' x (n # q)))"
  proof (cases "q = p")
    case True
    have "entry_ok tend T D p (dc, x)" using coherent_entry[OF assms(1) q(1) o] True by simp
    then show ?thesis using assms(4) e True by (fastforce simp: entry_ok_def)
  next
    case False
    then show ?thesis using assms(5)[OF False q(1)] o e by (simp add: cached_def)
  qed
next
  fix n q assume "normal_comps (n # q)" "cached (kc_update (pkey s p) f ds) (pkey s (n # q))"
  then show "cached (kc_update (pkey s p) f ds) (pkey s q)" using coherent_parent[OF assms(1)] by simp
qed simp

text \<open>Deleting the listings of a directory and below it.\<close>

lemma delete_tree_outside:
  assumes "coherent s tend T D (chDirs c)" "tree_ok T" "mount_normal s" "normal_comps p"
  shows "map_of (chDirs (deleteDirectoryTree (pkey s p) c)) = outside s {p} (chDirs c)"
  using delete_trees_outside[OF assms(3) _ coherent_shaped[OF assms(1,2)] coherent_closed[OF assms(1)], of "[p]"] assms(4)
  by (simp add: deleteDirectoryTree_def)

lemma coherent_delete_tree:
  assumes "coherent s tend T D (chDirs c)" "tree_ok T" "mount_normal s" "normal_comps p"
  shows "coherent s tend T D (chDirs (deleteDirectoryTree (pkey s p) c))"
    "normal_comps q \<Longrightarrow> suffix p q \<Longrightarrow> \<not> cached (chDirs (deleteDirectoryTree (pkey s p) c)) (pkey s q)"
proof -
  let ?ds = "chDirs (deleteDirectoryTree (pkey s p) c)"
  note m = delete_tree_outside[OF assms]
  have at: "map_of ?ds (pkey s q) = (if suffix p q then None else map_of (chDirs c) (pkey s q))" if "normal_comps q" for q
    using outside_at[OF assms(3) that, of "{p}"] by (simp add: m)
  show "coherent s tend T D ?ds"
  proof (rule coherent_change[OF assms(1)])
    show "cached ?ds k \<Longrightarrow> cached (chDirs c) k" for k by (auto simp: cached_def m outside_def split: if_splits)
  next
    fix q e assume "normal_comps q" "map_of ?ds (pkey s q) = Some e"
    then show "entry_ok tend T D q e \<or> (map_of (chDirs c) (pkey s q) = Some e \<and> T q = T q \<and> (\<forall>x n. D x (n # q) \<longrightarrow> D x (n # q)))"
      by (auto simp: at split: if_splits)
  next
    fix n q assume q: "normal_comps (n # q)" "cached ?ds (pkey s (n # q))"
    then have "cached (chDirs c) (pkey s (n # q))" "\<not> suffix p (n # q)" using at[OF q(1)] by (auto simp: cached_def split: if_splits)
    then show "cached ?ds (pkey s q)"
      using at[of q] q(1) coherent_parent[OF assms(1) q(1)] by (auto simp: cached_def suffix_Cons)
  qed
  show "normal_comps q \<Longrightarrow> suffix p q \<Longrightarrow> \<not> cached ?ds (pkey s q)" using at by (simp add: cached_def)
qed

end
