(* ===== verification/Op_Lookup.thy ===== *)
theory Op_Lookup imports Op_Coherence begin

text \<open>
  What is relied on of a driver, and what the lookups of a storage answer: a listing shows the directory
  of the tree, an object that is found denotes its path, and the cache stays coherent.
\<close>

section \<open>What is relied on of a driver\<close>

text \<open>The tree with an entry cut out, and with one put in: \<open>sub\<close> is the tree below it, by relative paths.\<close>

definition prune :: "string \<Rightarrow> string list \<Rightarrow> tree \<Rightarrow> tree" where
  "prune n p T = (\<lambda>q. if suffix (n # p) q then None else if q = p then map_option (\<lambda>S. S(n := None)) (T p) else T q)"

definition graft :: "string \<Rightarrow> string list \<Rightarrow> bool \<Rightarrow> tree \<Rightarrow> tree \<Rightarrow> tree" where
  "graft n p b sub T = (\<lambda>q. if suffix (n # p) q then sub (take (length q - Suc (length p)) q)
     else if q = p then map_option (\<lambda>S. S(n \<mapsto> b)) (T p) else T q)"

definition subtree :: "string list \<Rightarrow> tree \<Rightarrow> tree" where
  "subtree p T = (\<lambda>r. T (r @ p))"

definition new_dir :: tree where
  "new_dir = (\<lambda>r. if r = [] then Some Map.empty else None)"

definition no_dir :: tree where
  "no_dir = (\<lambda>r. None)"

text \<open>Objects go on denoting what a change does not move or remove.\<close>

definition keeps :: "denotes \<Rightarrow> denotes \<Rightarrow> (string list \<Rightarrow> bool) \<Rightarrow> bool" where
  "keeps D D' P \<longleftrightarrow> (\<forall>x q. P q \<and> D x q \<longrightarrow> D' x q)"

definition new_ok :: "denotes \<Rightarrow> string \<Rightarrow> string list \<Rightarrow> bool \<Rightarrow> Obj option \<Rightarrow> bool" where
  "new_ok D n p b obj \<longleftrightarrow> (case obj of None \<Rightarrow> True | Some x \<Rightarrow> GetName x = n \<and> IsDir x = b \<and> D x (n # p))"

text \<open>A call of a driver: it keeps the driver in order, changes nothing when it fails, and else does what
  it says.\<close>

definition call_law :: "('w \<Rightarrow> bool) \<Rightarrow> ('w \<Rightarrow> tree) \<Rightarrow> ('w \<Rightarrow> denotes) \<Rightarrow> 'w \<Rightarrow> 'w \<times> (op_error + 'a) \<Rightarrow> (op_error \<Rightarrow> bool) \<Rightarrow> ('w \<Rightarrow> 'a \<Rightarrow> bool) \<Rightarrow> bool" where
  "call_law wok tree den w r E Q \<longleftrightarrow> wok (fst r)
     \<and> (case snd r of Inl e \<Rightarrow> tree (fst r) = tree w \<and> keeps (den w) (den (fst r)) (\<lambda>_. True) \<and> E e | Inr x \<Rightarrow> Q (fst r) x)"

definition read_laws :: "'w op_env \<Rightarrow> ('w \<Rightarrow> bool) \<Rightarrow> ('w \<Rightarrow> tree) \<Rightarrow> ('w \<Rightarrow> denotes) \<Rightarrow> bool" where
  "read_laws env wok tree den \<longleftrightarrow> (\<forall>w. wok w \<longrightarrow> tree_ok (tree w)
     \<and> (\<exists>x. root_obj env w = Inr x \<and> IsDir x \<and> den w (UnwrapObjName x) [])
     \<and> (\<forall>d p S. den w d p \<and> tree w p = Some S \<longrightarrow> (\<exists>fs. dvList env d w = Inr fs \<and> distinct (map GetName fs)
          \<and> map_of (kinds fs) = S \<and> (\<forall>f \<in> set fs. den w f (GetName f # p) \<and> \<not> ObjHasMask f Temp))))"

definition make_law :: "'w op_env \<Rightarrow> ('w \<Rightarrow> bool) \<Rightarrow> ('w \<Rightarrow> tree) \<Rightarrow> ('w \<Rightarrow> denotes) \<Rightarrow> bool" where
  "make_law env wok tree den \<longleftrightarrow> (\<forall>w mk d p n S. wok w \<and> dvMakeDir env = Some mk \<and> den w d p \<and> tree w p = Some S \<and> name_ok n \<longrightarrow>
     call_law wok tree den w (mk d n w) (\<lambda>e. e = ObjectAlreadyExists \<longrightarrow> S n \<noteq> None)
       (\<lambda>w' x. S n = None \<and> tree w' = graft n p True new_dir (tree w) \<and> keeps (den w) (den w') (\<lambda>_. True) \<and> new_ok (den w') n p True x))"

definition move_law :: "'w op_env \<Rightarrow> ('w \<Rightarrow> bool) \<Rightarrow> ('w \<Rightarrow> tree) \<Rightarrow> ('w \<Rightarrow> denotes) \<Rightarrow> bool" where
  "move_law env wok tree den \<longleftrightarrow> (\<forall>w mv x n p b d q S. wok w \<and> dvMove env = Some mv \<and> den w x (n # p) \<and> tree w p = Some S \<and> S n = Some b
       \<and> den w d q \<longrightarrow>
     call_law wok tree den w (mv x d w) (\<lambda>e. True)
       (\<lambda>w' y. (\<exists>S'. tree w q = Some S' \<and> S' n = None) \<and> \<not> suffix (n # p) q \<and> tree w' = graft n q b (subtree (n # p) (tree w)) (prune n p (tree w))
          \<and> keeps (den w) (den w') (\<lambda>r. \<not> suffix (n # p) r) \<and> new_ok (den w') n q b y))"

definition rename_law :: "'w op_env \<Rightarrow> ('w \<Rightarrow> bool) \<Rightarrow> ('w \<Rightarrow> tree) \<Rightarrow> ('w \<Rightarrow> denotes) \<Rightarrow> bool" where
  "rename_law env wok tree den \<longleftrightarrow> (\<forall>w rn x n p b n' S. wok w \<and> dvRename env = Some rn \<and> den w x (n # p) \<and> tree w p = Some S \<and> S n = Some b \<longrightarrow>
     call_law wok tree den w (rn x n' w) (\<lambda>e. True)
       (\<lambda>w' y. S n' = None \<and> name_ok n' \<and> tree w' = graft n' p b (subtree (n # p) (tree w)) (prune n p (tree w))
          \<and> keeps (den w) (den w') (\<lambda>r. \<not> suffix (n # p) r) \<and> new_ok (den w') n' p b y))"

definition copy_law :: "'w op_env \<Rightarrow> ('w \<Rightarrow> bool) \<Rightarrow> ('w \<Rightarrow> tree) \<Rightarrow> ('w \<Rightarrow> denotes) \<Rightarrow> bool" where
  "copy_law env wok tree den \<longleftrightarrow> (\<forall>w cp x n p b d q S. wok w \<and> dvCopy env = Some cp \<and> den w x (n # p) \<and> tree w p = Some S \<and> S n = Some b
       \<and> den w d q \<longrightarrow>
     call_law wok tree den w (cp x d w) (\<lambda>e. True)
       (\<lambda>w' y. (\<exists>S'. tree w q = Some S' \<and> (S' n = None \<or> S' n = Some False \<and> \<not> b)) \<and> tree w' = graft n q b (subtree (n # p) (tree w)) (tree w)
          \<and> keeps (den w) (den w') (\<lambda>_. True) \<and> new_ok (den w') n q b y))"

definition remove_law :: "'w op_env \<Rightarrow> ('w \<Rightarrow> bool) \<Rightarrow> ('w \<Rightarrow> tree) \<Rightarrow> ('w \<Rightarrow> denotes) \<Rightarrow> bool" where
  "remove_law env wok tree den \<longleftrightarrow> (\<forall>w rm x n p b S. wok w \<and> dvRemove env = Some rm \<and> den w x (n # p) \<and> tree w p = Some S \<and> S n = Some b \<longrightarrow>
     call_law wok tree den w (rm x w) (\<lambda>e. True)
       (\<lambda>w' _. tree w' = prune n p (tree w) \<and> keeps (den w) (den w') (\<lambda>r. \<not> suffix (n # p) r)))"

text \<open>The effect of a file put to a directory.\<close>

definition put_effect :: "('w \<Rightarrow> tree) \<Rightarrow> ('w \<Rightarrow> denotes) \<Rightarrow> string \<Rightarrow> string list \<Rightarrow> 'w \<Rightarrow> 'w \<Rightarrow> Obj option \<Rightarrow> bool" where
  "put_effect tree den n p w w' x \<longleftrightarrow> name_ok n \<and> (\<exists>S. tree w p = Some S \<and> S n \<noteq> Some True) \<and> tree w' = graft n p False no_dir (tree w)
     \<and> keeps (den w) (den w') (\<lambda>_. True) \<and> new_ok (den w') n p False x"

definition put_law :: "'w op_env \<Rightarrow> ('w \<Rightarrow> bool) \<Rightarrow> ('w \<Rightarrow> tree) \<Rightarrow> ('w \<Rightarrow> denotes) \<Rightarrow> bool" where
  "put_law env wok tree den \<longleftrightarrow> (\<forall>w put d p file. wok w \<and> dvPut env = Some put \<and> den w d p \<longrightarrow>
     call_law wok tree den w (put d file w) (\<lambda>e. True) (put_effect tree den (pfName file) p w))"

definition put_url_law :: "'w op_env \<Rightarrow> ('w \<Rightarrow> bool) \<Rightarrow> ('w \<Rightarrow> tree) \<Rightarrow> ('w \<Rightarrow> denotes) \<Rightarrow> bool" where
  "put_url_law env wok tree den \<longleftrightarrow> (\<forall>w put d p n url. wok w \<and> dvPutURL env = Some put \<and> den w d p \<longrightarrow>
     call_law wok tree den w (put d n url w) (\<lambda>e. True) (put_effect tree den n p w))"

definition driver_laws :: "'w op_env \<Rightarrow> ('w \<Rightarrow> bool) \<Rightarrow> ('w \<Rightarrow> tree) \<Rightarrow> ('w \<Rightarrow> denotes) \<Rightarrow> bool" where
  "driver_laws env wok tree den \<longleftrightarrow> read_laws env wok tree den \<and> make_law env wok tree den \<and> move_law env wok tree den
     \<and> rename_law env wok tree den \<and> copy_law env wok tree den \<and> remove_law env wok tree den \<and> put_law env wok tree den
     \<and> put_url_law env wok tree den"

text \<open>The storages of the theorem: cached, listed by \<open>List\<close> alone, with no map of characters.\<close>

definition plain_env :: "'w op_env \<Rightarrow> bool" where
  "plain_env env \<longleftrightarrow> mount_normal (oeStorage env) \<and> dvGetter env = None \<and> \<not> oeNoCache env
     \<and> oeMapping env = (\<lambda>n. n) \<and> sorter_law (oeSorter env)"

definition in_order :: "'w op_env \<Rightarrow> ('w \<Rightarrow> bool) \<Rightarrow> ('w \<Rightarrow> tree) \<Rightarrow> ('w \<Rightarrow> denotes) \<Rightarrow> int \<Rightarrow> ('w, 'l) op_st \<Rightarrow> bool" where
  "in_order env wok tree den tend st \<longleftrightarrow>
     wok (opWorld st) \<and> coherent (oeStorage env) tend (tree (opWorld st)) (den (opWorld st)) (opDirs st)"

text \<open>Listings made now live until the end.\<close>

definition lasting :: "'w op_env \<Rightarrow> int \<Rightarrow> int \<Rightarrow> bool" where
  "lasting env t tend \<longleftrightarrow> t \<le> tend \<and> (\<forall>path. tend \<le> t + list_ttl env path)"

lemma laws_tree: "driver_laws env wok tree den \<Longrightarrow> wok w \<Longrightarrow> tree_ok (tree w)"
  and laws_root: "driver_laws env wok tree den \<Longrightarrow> wok w \<Longrightarrow> \<exists>x. root_obj env w = Inr x \<and> IsDir x \<and> den w (UnwrapObjName x) []"
  and laws_list: "driver_laws env wok tree den \<Longrightarrow> wok w \<Longrightarrow> den w d p \<Longrightarrow> tree w p = Some S \<Longrightarrow>
     \<exists>fs. dvList env d w = Inr fs \<and> distinct (map GetName fs) \<and> map_of (kinds fs) = S \<and> (\<forall>f \<in> set fs. den w f (GetName f # p) \<and> \<not> ObjHasMask f Temp)"
  unfolding driver_laws_def read_laws_def by blast+

lemma make_lawD:
  assumes "driver_laws env wok tree den" "wok w" "dvMakeDir env = Some mk" "den w d p" "tree w p = Some S" "name_ok n"
  shows "call_law wok tree den w (mk d n w) (\<lambda>e. e = ObjectAlreadyExists \<longrightarrow> S n \<noteq> None)
       (\<lambda>w' x. S n = None \<and> tree w' = graft n p True new_dir (tree w) \<and> keeps (den w) (den w') (\<lambda>_. True) \<and> new_ok (den w') n p True x)"
proof -
  have "make_law env wok tree den" using assms(1) by (simp add: driver_laws_def)
  from this[unfolded make_law_def, rule_format, of w mk d p S n] show ?thesis using assms(2-) by simp
qed

lemma move_lawD:
  assumes "driver_laws env wok tree den" "wok w" "dvMove env = Some mv" "den w x (n # p)" "tree w p = Some S" "S n = Some b" "den w d q"
  shows "call_law wok tree den w (mv x d w) (\<lambda>e. True)
       (\<lambda>w' y. (\<exists>S'. tree w q = Some S' \<and> S' n = None) \<and> \<not> suffix (n # p) q \<and> tree w' = graft n q b (subtree (n # p) (tree w)) (prune n p (tree w))
          \<and> keeps (den w) (den w') (\<lambda>r. \<not> suffix (n # p) r) \<and> new_ok (den w') n q b y)"
proof -
  have "move_law env wok tree den" using assms(1) by (simp add: driver_laws_def)
  from this[unfolded move_law_def, rule_format, of w mv x n p S b d q] show ?thesis using assms(2-) by simp
qed

lemma rename_lawD:
  assumes "driver_laws env wok tree den" "wok w" "dvRename env = Some rn" "den w x (n # p)" "tree w p = Some S" "S n = Some b"
  shows "call_law wok tree den w (rn x n' w) (\<lambda>e. True)
       (\<lambda>w' y. S n' = None \<and> name_ok n' \<and> tree w' = graft n' p b (subtree (n # p) (tree w)) (prune n p (tree w))
          \<and> keeps (den w) (den w') (\<lambda>r. \<not> suffix (n # p) r) \<and> new_ok (den w') n' p b y)"
proof -
  have "rename_law env wok tree den" using assms(1) by (simp add: driver_laws_def)
  from this[unfolded rename_law_def, rule_format, of w rn x n p S b n'] show ?thesis using assms(2-) by simp
qed

lemma copy_lawD:
  assumes "driver_laws env wok tree den" "wok w" "dvCopy env = Some cp" "den w x (n # p)" "tree w p = Some S" "S n = Some b" "den w d q"
  shows "call_law wok tree den w (cp x d w) (\<lambda>e. True)
       (\<lambda>w' y. (\<exists>S'. tree w q = Some S' \<and> (S' n = None \<or> S' n = Some False \<and> \<not> b)) \<and> tree w' = graft n q b (subtree (n # p) (tree w)) (tree w)
          \<and> keeps (den w) (den w') (\<lambda>_. True) \<and> new_ok (den w') n q b y)"
proof -
  have "copy_law env wok tree den" using assms(1) by (simp add: driver_laws_def)
  from this[unfolded copy_law_def, rule_format, of w cp x n p S b d q] show ?thesis using assms(2-) by simp
qed

lemma remove_lawD:
  assumes "driver_laws env wok tree den" "wok w" "dvRemove env = Some rm" "den w x (n # p)" "tree w p = Some S" "S n = Some b"
  shows "call_law wok tree den w (rm x w) (\<lambda>e. True)
       (\<lambda>w' _. tree w' = prune n p (tree w) \<and> keeps (den w) (den w') (\<lambda>r. \<not> suffix (n # p) r))"
proof -
  have "remove_law env wok tree den" using assms(1) by (simp add: driver_laws_def)
  from this[unfolded remove_law_def, rule_format, of w rm x n p S b] show ?thesis using assms(2-) by simp
qed

lemma put_lawD:
  assumes "driver_laws env wok tree den" "wok w" "dvPut env = Some put" "den w d p"
  shows "call_law wok tree den w (put d file w) (\<lambda>e. True) (put_effect tree den (pfName file) p w)"
proof -
  have "put_law env wok tree den" using assms(1) by (simp add: driver_laws_def)
  from this[unfolded put_law_def, rule_format, of w put d p "file"] show ?thesis using assms(2-) by simp
qed

lemma put_url_lawD:
  assumes "driver_laws env wok tree den" "wok w" "dvPutURL env = Some put" "den w d p"
  shows "call_law wok tree den w (put d n url w) (\<lambda>e. True) (put_effect tree den n p w)"
proof -
  have "put_url_law env wok tree den" using assms(1) by (simp add: driver_laws_def)
  from this[unfolded put_url_law_def, rule_format, of w put d p n url] show ?thesis using assms(2-) by simp
qed

section \<open>Looking up and listing\<close>

lemma arrange_show:
  assumes "plain_env env" "distinct (map GetName fs)" "map_of (kinds fs) = S" "\<forall>f \<in> set fs. D f (GetName f # p) \<and> \<not> ObjHasMask f Temp"
  shows "objs_show D p (arrange env fs) S \<and> (\<forall>f \<in> set (arrange env fs). \<not> ObjHasMask f Temp)"
proof -
  let ?ws = "WrapObjsName (\<lambda>n. n) fs"
  have w: "set ?ws = WrapObjName (\<lambda>n. n) ` set fs" "map GetName ?ws = map GetName fs" "kinds ?ws = kinds fs"
    by (simp_all add: WrapObjsName_def kinds_def)
  have m: "mset (arrange env fs) = mset ?ws"
    using assms(1) by (simp add: arrange_def wrapObjsName_def plain_env_def Let_def mset_SortFiles)
  have "objs_show D p ?ws S" using assms(2-4) w by (simp add: objs_show_def)
  then have "objs_show D p (arrange env fs) S" using objs_show_perm m by blast
  moreover have "set (arrange env fs) = set ?ws" using m by (rule mset_eq_setD)
  ultimately show ?thesis using assms(4) w(1) by (auto simp: ObjHasMask_def)
qed

lemma coherent_set:
  assumes "coherent s tend T D ds" "mount_normal s" "T p = Some S" "objs_show D p files S" "tend \<le> t + ttl" "normal_comps p"
    "\<forall>n q. p = n # q \<longrightarrow> cached ds (pkey s q)"
  shows "coherent s tend T D (kc_set t (pkey s p) (newDirectoryCache files) ttl ds)"
  unfolding coherent_def
proof (intro conjI allI impI)
  let ?ds = "kc_set t (pkey s p) (newDirectoryCache files) ttl ds"
  have c: "cached ?ds k \<longleftrightarrow> cached ds k \<or> k = pkey s p" for k by (auto simp: cached_def)
  fix k assume "cached ?ds k"
  then show "\<exists>p. normal_comps p \<and> k = pkey s p" using c coherent_key[OF assms(1)] assms(6) by blast
next
  let ?ds = "kc_set t (pkey s p) (newDirectoryCache files) ttl ds"
  fix q e assume q: "normal_comps q \<and> map_of ?ds (pkey s q) = Some e"
  show "entry_ok tend T D q e"
  proof (cases "q = p")
    case True
    then show ?thesis using q assms(3-5) by (auto simp: entry_ok_def newDirectoryCache_def dc_settled_def)
  next
    case False
    then show ?thesis using q coherent_entry[OF assms(1), of q e] pkey_inj[OF assms(2), of q p] assms(6) by auto
  qed
next
  let ?ds = "kc_set t (pkey s p) (newDirectoryCache files) ttl ds"
  have c: "cached ?ds k \<longleftrightarrow> cached ds k \<or> k = pkey s p" for k by (auto simp: cached_def)
  fix n q assume q: "normal_comps (n # q) \<and> cached ?ds (pkey s (n # q))"
  show "cached ?ds (pkey s q)"
  proof (cases "n # q = p")
    case True
    then show ?thesis using assms(7) c by blast
  next
    case False
    then show ?thesis using q c coherent_parent[OF assms(1), of n q] pkey_inj[OF assms(2), of "n # q" p] assms(6) by blast
  qed
qed

lemma opDirs_simps [simp]:
  "opDirs (with_dirs st ds) = ds" "opWorld (with_dirs st ds) = opWorld st"
  "opWorld (on_caches f st) = opWorld st" "opCaches (on_caches f st) = f (opCaches st)"
  "with_dirs st (opDirs st) = st"
  by (simp_all add: with_dirs_def on_caches_def)

lemma cached_listing_ok:
  assumes "plain_env env" "in_order env wok tree den tend st" "t \<le> tend" "normal_comps p"
    and "cached_listing env t (key_of env p) st = (st', r)"
  shows "in_order env wok tree den tend st'" "opWorld st' = opWorld st" "\<And>k. cached (opDirs st') k \<longleftrightarrow> cached (opDirs st) k"
    "r = None \<longleftrightarrow> \<not> cached (opDirs st) (pkey (oeStorage env) p)"
    "r = Some objs \<Longrightarrow> \<exists>S. tree (opWorld st) p = Some S \<and> objs_show (den (opWorld st)) p objs S"
proof -
  let ?s = "oeStorage env" and ?T = "tree (opWorld st)" and ?D = "den (opWorld st)" and ?k = "pkey (oeStorage env) p"
  have coh: "coherent ?s tend ?T ?D (opDirs st)" and mn: "mount_normal ?s" and srt: "sorter_law (oeSorter env)"
    using assms(1,2) by (simp_all add: in_order_def plain_env_def)
  have g: "kc_get t ?k (opDirs st) = (opDirs st, map_option fst (map_of (opDirs st) ?k))" by (rule get_live[OF coh assms(3,4)])
  have all: "in_order env wok tree den tend st' \<and> opWorld st' = opWorld st \<and> (\<forall>k. cached (opDirs st') k \<longleftrightarrow> cached (opDirs st) k)
      \<and> (r = None \<longleftrightarrow> \<not> cached (opDirs st) ?k) \<and> (\<forall>objs. r = Some objs \<longrightarrow> (\<exists>S. ?T p = Some S \<and> objs_show ?D p objs S))"
  proof (cases "map_of (opDirs st) ?k")
    case None
    then have "st' = st" "r = None" using assms(5) g by (simp_all add: cached_listing_def pkey_def)
    then show ?thesis using None assms(2) by (simp add: cached_def)
  next
    case (Some e)
    obtain dc x where e: "e = (dc, x)" by fastforce
    obtain dc' objs' where gs: "GetSortedObjects (oeSorter env) (oeLocalSort env) ?s dc = (dc', objs')" by fastforce
    have ok: "entry_ok tend ?T ?D p (dc, x)" using coherent_entry[OF coh assms(4)] Some e by blast
    then have st: "dc_settled dc" by (simp add: entry_ok_def)
    note m = GetSorted_mset[OF gs st srt]
    have eq: "st' = with_dirs st (kc_update ?k (\<lambda>_. dc') (opDirs st))" "r = Some objs'"
      using assms(5) g Some e gs by (simp_all add: cached_listing_def pkey_def)
    obtain S where S: "?T p = Some S" "objs_show ?D p (dcObjs dc) S" using ok by (auto simp: entry_ok_def)
    have "objs_show ?D p objs' S" using objs_show_perm[OF S(2) m(1)] .
    moreover have "coherent ?s tend ?T ?D (kc_update ?k (\<lambda>_. dc') (opDirs st))"
      by (rule coherent_update[OF coh mn assms(4)]) (use m S in auto)
    ultimately show ?thesis using eq assms(2) Some S(1) by (simp add: in_order_def) (simp add: cached_def)
  qed
  then show "in_order env wok tree den tend st'" "opWorld st' = opWorld st" "\<And>k. cached (opDirs st') k \<longleftrightarrow> cached (opDirs st) k"
    "r = None \<longleftrightarrow> \<not> cached (opDirs st) ?k"
    "r = Some objs \<Longrightarrow> \<exists>S. ?T p = Some S \<and> objs_show ?D p objs S" by blast+
qed

text \<open>A call of \<open>GetUnwrap\<close> for a directory that is to be listed.\<close>

definition found_dir :: "Storage \<Rightarrow> tree \<Rightarrow> denotes \<Rightarrow> string list \<Rightarrow> dir_cache keyed \<Rightarrow> op_error + Obj \<Rightarrow> bool" where
  "found_dir s T D p ds r \<longleftrightarrow>
     (case r of Inl e \<Rightarrow> T p = None
      | Inr d \<Rightarrow> (IsDir d \<longleftrightarrow> T p \<noteq> None) \<and> D d p \<and> (\<forall>n q. p = n # q \<longrightarrow> cached ds (pkey s q)))"

lemma fetch_listing_ok:
  assumes "driver_laws env wok tree den" "plain_env env" "lasting env t tend" "normal_comps p"
    and get: "get_dir st = (st1, r1)" "in_order env wok tree den tend st1" "opWorld st1 = opWorld st"
      "found_dir (oeStorage env) (tree (opWorld st)) (den (opWorld st)) p (opDirs st1) r1"
    and "fetch_listing env t get_dir (path_of p) st = (st', r)"
  shows "in_order env wok tree den tend st' \<and> opWorld st' = opWorld st
    \<and> (case r of Inl e \<Rightarrow> tree (opWorld st) p = None
       | Inr objs \<Rightarrow> (\<exists>S. tree (opWorld st) p = Some S \<and> objs_show (den (opWorld st)) p objs S)
           \<and> (\<forall>f \<in> set objs. \<not> ObjHasMask f Temp) \<and> (objs \<noteq> [] \<longrightarrow> cached (opDirs st') (pkey (oeStorage env) p)))"
proof (cases r1)
  case (Inl e)
  then show ?thesis using assms by (auto simp: fetch_listing_def and_then_def found_dir_def)
next
  case (Inr d)
  let ?T = "tree (opWorld st)" and ?D = "den (opWorld st)" and ?s = "oeStorage env"
  have d: "IsDir d \<longleftrightarrow> ?T p \<noteq> None" "?D d p" "\<forall>n q. p = n # q \<longrightarrow> cached (opDirs st1) (pkey ?s q)"
    using get(4) Inr by (simp_all add: found_dir_def)
  have coh: "wok (opWorld st)" "coherent ?s tend ?T ?D (opDirs st1)" and mn: "mount_normal ?s"
    using get(2,3) assms(2) by (simp_all add: in_order_def plain_env_def)
  show ?thesis
  proof (cases "IsDir d")
    case False
    then show ?thesis using assms(9) get d(1) Inr by (auto simp: fetch_listing_def and_then_def)
  next
    case True
    then obtain S where S: "?T p = Some S" using d(1) by auto
    obtain fs where fs: "dvList env d (opWorld st) = Inr fs" "distinct (map GetName fs)" "map_of (kinds fs) = S"
      "\<forall>f \<in> set fs. ?D f (GetName f # p) \<and> \<not> ObjHasMask f Temp"
      using laws_list[OF assms(1) coh(1) d(2) S] by blast
    note ar = arrange_show[of env fs S ?D p, OF assms(2) fs(2-4)]
    let ?a = "arrange env fs"
    have r: "st' = on_caches (cache_listing env t (path_of p) ?a) st1" "r = Inr ?a"
      using assms(9) get(1,3) Inr True fs(1) by (simp_all add: fetch_listing_def and_then_def Let_def)
    have "coherent ?s tend ?T ?D (opDirs st') \<and> (?a \<noteq> [] \<longrightarrow> cached (opDirs st') (pkey ?s p))"
    proof (cases "?a = []")
      case True
      then have "opDirs st' = chDirs (deleteDirectoryTree (pkey ?s p) (opCaches st1))"
        using r(1) assms(2) by (simp add: cache_listing_def plain_env_def Let_def pkey_def)
      then show ?thesis using coherent_delete_tree(1)[OF _ laws_tree[OF assms(1) coh(1)] mn assms(4)] coh(2) True by simp
    next
      case False
      then have "opDirs st' = kc_set t (pkey ?s p) (newDirectoryCache ?a) (list_ttl env (path_of p)) (opDirs st1)"
        using r(1) assms(2) by (simp add: cache_listing_def plain_env_def Let_def pkey_def)
      then show ?thesis
        using coherent_set[OF coh(2) mn S conjunct1[OF ar] _ assms(4) d(3), of t "list_ttl env (path_of p)"] assms(3)
        by (simp add: lasting_def) (simp add: cached_def)
    qed
    then show ?thesis using r S ar get(3) coh(1) by (auto simp: in_order_def)
  qed
qed

text \<open>What \<open>Get\<close> answers for a path.\<close>

definition got :: "Storage \<Rightarrow> tree \<Rightarrow> denotes \<Rightarrow> bool \<Rightarrow> string list \<Rightarrow> dir_cache keyed \<Rightarrow> op_error + Obj \<Rightarrow> bool" where
  "got s T D ex p ds r \<longleftrightarrow>
     (case p of
        [] \<Rightarrow> (\<exists>x. r = Inr x \<and> IsDir x \<and> D (UnwrapObjName x) [])
      | n # q \<Rightarrow>
          (case r of
             Inl e \<Rightarrow> e = ObjectNotFound \<and> (\<forall>S. T q = Some S \<longrightarrow> S n = None)
           | Inr x \<Rightarrow> (\<exists>S. T q = Some S \<and> S n = Some (IsDir x)) \<and> GetName x = n \<and> (ex \<longrightarrow> \<not> ObjHasMask x Temp)
               \<and> (\<not> ObjHasMask x Temp \<longrightarrow> D (UnwrapObjName x) p) \<and> cached ds (pkey s q)))"

lemma got_found_dir:
  assumes "got s T D True p ds r" "tree_ok T" "unwrapped (st, r) = (st1, r1)"
  shows "st1 = st \<and> found_dir s T D p ds r1"
proof (cases p)
  case Nil
  then show ?thesis using assms by (auto simp: got_def unwrapped_def found_dir_def tree_ok_def)
next
  case (Cons n q)
  show ?thesis
  proof (cases r)
    case (Inl e)
    then show ?thesis using assms Cons tree_child[OF assms(2), of n q] by (auto simp: got_def unwrapped_def found_dir_def)
  next
    case (Inr x)
    then show ?thesis using assms Cons tree_child[OF assms(2), of n q] by (auto simp: got_def unwrapped_def found_dir_def)
  qed
qed

lemma found_in_listing:
  assumes "objs_show D q objs S" "T q = Some S" "cached ds (pkey s q)"
  shows "find_named n objs = Some x \<Longrightarrow> \<not> (ex \<and> ObjHasMask x Temp) \<Longrightarrow> got s T D ex (n # q) ds (Inr x)"
    "find_named n objs = None \<Longrightarrow> got s T D ex (n # q) ds (Inl ObjectNotFound)"
  using objs_show_find[OF assms(1), of n] assms by (auto simp: got_def objs_show_def)

lemma Get_at_ok:
  fixes st :: "('w, 'l) op_st"
  assumes "driver_laws env wok tree den" "plain_env env" "lasting env t tend"
  shows "normal_comps rp \<Longrightarrow> in_order env wok tree den tend st \<Longrightarrow> Get_at env t ex rp st = (st', r) \<Longrightarrow>
    in_order env wok tree den tend st' \<and> opWorld st' = opWorld st
    \<and> got (oeStorage env) (tree (opWorld st)) (den (opWorld st)) ex rp (opDirs st') r"
proof (induction rp arbitrary: ex st st' r)
  case Nil
  then have "wok (opWorld st)" by (simp add: in_order_def)
  then show ?case using laws_root[OF assms(1)] Nil by (fastforce simp: got_def)
next
  case (Cons n q)
  let ?T = "tree (opWorld st)" and ?D = "den (opWorld st)" and ?s = "oeStorage env" and ?k = "pkey (oeStorage env) q"
  have q: "normal_comps q" and wok: "wok (opWorld st)" and nog: "dvGetter env = None" and t: "t \<le> tend"
    using Cons.prems assms by (simp_all add: in_order_def plain_env_def lasting_def)
  obtain st1 files where cl: "cached_listing env t (key_of env q) st = (st1, files)" by fastforce
  note c = cached_listing_ok[OF assms(2) Cons.prems(2) t q cl]
  define found where "found = (case files of None \<Rightarrow> None | Some fs \<Rightarrow> find_named n fs)"
  define refresh where "refresh = (case found of None \<Rightarrow> False | Some f \<Rightarrow> ex \<and> ObjHasMask f Temp)"
  define relist where "relist = (files = None \<or> refresh)"
  let ?get = "\<lambda>st :: ('w, 'l) op_st. unwrapped (Get_at env t True q st)"
  define lp where "lp = list_with env t ?get (path_of q) refresh (not_temp ex n)"
  have run: "(if found \<noteq> None \<and> \<not> refresh then (st1, Inr (the found)) else get_uncached env (n # q) relist lp n st1) = (st', r)"
    using Cons.prems(3) cl unfolding found_def refresh_def relist_def lp_def by (simp add: Let_def)
  consider (hit) x where "found = Some x" "\<not> refresh" | (none) fs where "found = None" "files = Some fs" | (fetch) "relist" "found = None \<or> refresh"
  proof (cases found)
    case None
    then show ?thesis using that(2,3) by (cases files) (auto simp: relist_def)
  next
    case (Some x)
    then show ?thesis using that(1,3) by (cases refresh) (auto simp: relist_def)
  qed
  then show ?case
  proof cases
    case hit
    then obtain fs where fs: "files = Some fs" "find_named n fs = Some x" by (auto simp: found_def split: option.splits)
    obtain S where S: "?T q = Some S" "objs_show ?D q fs S" using c(5)[OF fs(1)] by blast
    have "st' = st1" "r = Inr x" using run hit by auto
    then show ?thesis using found_in_listing(1)[of ?D q fs S ?T "opDirs st'" ?s n x ex, OF S(2,1) _ fs(2)] c fs(1) hit refresh_def by (auto split: option.splits)
  next
    case none
    obtain S where S: "?T q = Some S" "objs_show ?D q fs S" using c(5)[OF none(2)] by blast
    have "find_named n fs = None" using none by (simp add: found_def)
    moreover have "st' = st1" "r = Inl ObjectNotFound"
      using run none nog by (simp_all add: get_uncached_def refresh_def relist_def)
    ultimately show ?thesis using found_in_listing(2)[of ?D q fs S ?T "opDirs st'" ?s n ex, OF S(2,1)] c none(2) by auto
  next
    case fetch
    obtain st2 r2 where g2: "Get_at env t True q st1 = (st2, r2)" by fastforce
    obtain st3 r3 where g3: "unwrapped (st2, r2) = (st3, r3)" by fastforce
    note IH = Cons.IH[OF q c(1) g2]
    note fd = got_found_dir[OF _ laws_tree[OF assms(1) wok] g3, of ?s ?D q "opDirs st2"]
    have f3: "st3 = st2" "found_dir ?s ?T ?D q (opDirs st2) r3" using fd IH c(2) by auto
    obtain st4 r4 where f4: "fetch_listing env t ?get (path_of q) st1 = (st4, r4)" by fastforce
    have get: "?get st1 = (st2, r3)" using g2 g3 f3(1) by simp
    have F: "in_order env wok tree den tend st4 \<and> opWorld st4 = opWorld st1 \<and> (case r4 of Inl e \<Rightarrow> tree (opWorld st1) q = None
       | Inr objs \<Rightarrow> (\<exists>S. tree (opWorld st1) q = Some S \<and> objs_show (den (opWorld st1)) q objs S)
           \<and> (\<forall>f \<in> set objs. \<not> ObjHasMask f Temp) \<and> (objs \<noteq> [] \<longrightarrow> cached (opDirs st4) (pkey ?s q)))"
      by (rule fetch_listing_ok[OF assms q get _ _ _ f4]) (use IH c f3 in auto)
    have miss: "lp st1 = and_then (st4, r4) (\<lambda>st objs. case not_temp ex n objs of Some e \<Rightarrow> (st, Inl e) | None \<Rightarrow> (st, Inr objs))"
    proof (cases refresh)
      case True
      then show ?thesis by (simp add: lp_def list_with_def f4)
    next
      case False
      then have "files = None" using fetch(1) by (simp add: relist_def)
      then have nc: "\<not> cached (opDirs st1) ?k" using c(3,4) by simp
      have "cached_listing env t ?k st1 = (st1, None)"
      proof -
        have "map_of (opDirs st1) ?k = None" using nc by (simp add: cached_def del: not_None_eq)
        then show ?thesis by (simp add: cached_listing_def kc_get_def)
      qed
      then show ?thesis using False by (simp add: lp_def list_with_def f4 pkey_def)
    qed
    have run2: "get_uncached env (n # q) relist lp n st1 = (st', r)" using run fetch(2) by auto
    show ?thesis
    proof (cases r4)
      case (Inl e)
      then have "st' = st4" "r = Inl ObjectNotFound" using run2 miss fetch(1) nog by (simp_all add: get_uncached_def and_then_def)
      then show ?thesis using F Inl c(2) by (auto simp: got_def)
    next
      case (Inr objs)
      then obtain S where S: "?T q = Some S" "objs_show ?D q objs S" "\<forall>f \<in> set objs. \<not> ObjHasMask f Temp" "objs \<noteq> [] \<longrightarrow> cached (opDirs st4) ?k"
        using F c(2) by auto
      have nt: "not_temp ex n objs = None" using S(3) objs_show_find(2)[OF S(2), of n] by (auto simp: not_temp_def split: option.split)
      show ?thesis
      proof (cases "find_named n objs")
        case None
        then have "st' = st4" "r = Inl ObjectNotFound" using run2 miss fetch(1) nog Inr nt by (simp_all add: get_uncached_def and_then_def)
        then show ?thesis using F c(2) objs_show_find(1)[OF S(2), of n] None S(1) by (auto simp: got_def)
      next
        case (Some x)
        then have eq: "st' = st4" "r = Inr x" using run2 miss fetch(1) nog Inr nt by (simp_all add: get_uncached_def and_then_def)
        have "x \<in> set objs" using objs_show_find(2)[OF S(2) Some] by blast
        then have "got ?s ?T ?D ex (n # q) (opDirs st4) (Inr x)"
          using found_in_listing(1)[of ?D q objs S ?T "opDirs st4" ?s n x ex, OF S(2,1) _ Some] S(3,4) by auto
        then show ?thesis using F c(2) eq by simp
      qed
    qed
  qed
qed

section \<open>Changing the tree and the listings\<close>

lemma tree_up: "tree_ok T \<Longrightarrow> suffix p q \<Longrightarrow> T q \<noteq> None \<Longrightarrow> T p \<noteq> None"
proof (induction q)
  case (Cons n q)
  then show ?case using tree_child[OF Cons.prems(1), of n q] by (auto simp: suffix_Cons)
qed simp

lemma not_suffix_Cons [simp]: "\<not> suffix (n # p) p" "suffix (n # p) (m # p) \<longleftrightarrow> m = n"
proof -
  have l: "suffix xs ys \<Longrightarrow> length xs \<le> length ys" for xs ys :: "'a list" by (auto simp: suffix_def)
  show "\<not> suffix (n # p) p" using l by fastforce
  then show "suffix (n # p) (m # p) \<longleftrightarrow> m = n" by (auto simp: suffix_Cons)
qed

lemma nothing_below:
  assumes "coherent s tend T D ds" "tree_ok T" "T p = Some S" "S n \<noteq> Some True" "suffix (n # p) q" "normal_comps q"
  shows "\<not> cached ds (pkey s q)"
proof
  assume "cached ds (pkey s q)"
  then have "T q \<noteq> None" using coherent_tree[OF assms(1,6)] by blast
  then have "T (n # p) \<noteq> None" using tree_up[OF assms(2,5)] by blast
  then show False using tree_child[OF assms(2), of n p] assms(3,4) by simp
qed

lemma uncached_below:
  assumes "coherent s tend T D ds" "mount_normal s" "\<not> cached ds (pkey s p)" "suffix (n # p) q" "normal_comps q"
  shows "\<not> cached ds (pkey s q)"
proof
  assume "cached ds (pkey s q)"
  then have "\<exists>r \<in> {}. r \<noteq> p \<and> suffix p r \<and> suffix r q"
    by (rule closed_chain[OF coherent_closed[OF assms(1)] assms(2,3) suffix_ConsD[OF assms(4)] assms(5)])
  then show False by simp
qed

lemma coherent_prune:
  assumes "coherent s tend T D ds" "mount_normal s" "normal_comps p" "T p = Some S"
    and clear: "\<And>q. normal_comps q \<Longrightarrow> suffix (n # p) q \<Longrightarrow> \<not> cached ds (pkey s q)"
    and keep: "keeps D D' (\<lambda>r. \<not> suffix (n # p) r)"
  shows "coherent s tend (prune n p T) D' (kc_update (pkey s p) (RemoveObject n) ds)"
proof (rule coherent_update[OF assms(1-3)])
  fix dc S1 assume S1: "T p = Some S1" and dc: "dc_settled dc" "objs_show D p (dcObjs dc) S1"
  have rm: "objs_show D p (remove_named n (dcObjs dc)) (S1(n := None))" by (rule objs_show_remove[OF dc(2)])
  have "GetName x \<noteq> n" if "x \<in> set (remove_named n (dcObjs dc))" for x using objs_show_none[OF rm, of n] that by auto
  then have "objs_show D' p (remove_named n (dcObjs dc)) (S1(n := None))"
    using rm keep unfolding objs_show_def keeps_def by auto
  then show "dc_settled (RemoveObject n dc) \<and> (\<exists>S'. prune n p T p = Some S' \<and> objs_show D' p (dcObjs (RemoveObject n dc)) S')"
    using dc(1) S1 by (simp add: prune_def dcObjs_RemoveObject)
next
  fix q assume q: "q \<noteq> p" "normal_comps q" "cached ds (pkey s q)"
  then have n: "\<not> suffix (n # p) q" using clear by blast
  moreover have "\<not> suffix (n # p) (m # q)" for m using n q(1) by (auto simp: suffix_Cons)
  ultimately show "prune n p T q = T q \<and> (\<forall>x m. D x (m # q) \<longrightarrow> D' x (m # q))" using q(1) keep by (auto simp: prune_def keeps_def)
qed

lemma coherent_graft:
  assumes "coherent s tend T D ds" "mount_normal s" "normal_comps p" "T p = Some S"
    and clear: "\<And>q. normal_comps q \<Longrightarrow> suffix (n # p) q \<Longrightarrow> \<not> cached ds (pkey s q)"
    and keep: "keeps D D' (\<lambda>_. True)"
    and shows_new: "\<And>dc. dc_settled dc \<Longrightarrow> objs_show D p (dcObjs dc) S \<Longrightarrow> dc_settled (f dc) \<and> objs_show D' p (dcObjs (f dc)) (S(n \<mapsto> b))"
  shows "coherent s tend (graft n p b sub T) D' (kc_update (pkey s p) f ds)"
proof (rule coherent_update[OF assms(1-3)])
  fix dc S1 assume "T p = Some S1" "dc_settled dc" "objs_show D p (dcObjs dc) S1"
  then show "dc_settled (f dc) \<and> (\<exists>S'. graft n p b sub T p = Some S' \<and> objs_show D' p (dcObjs (f dc)) S')"
    using shows_new assms(4) by (simp add: graft_def)
next
  fix q assume q: "q \<noteq> p" "normal_comps q" "cached ds (pkey s q)"
  then have "\<not> suffix (n # p) q" using clear by blast
  then show "graft n p b sub T q = T q \<and> (\<forall>x m. D x (m # q) \<longrightarrow> D' x (m # q))" using q(1) keep by (auto simp: graft_def keeps_def)
qed

lemma coherent_replace:
  assumes "coherent s tend T D ds" "mount_normal s" "normal_comps p" "T p = Some S" "n \<noteq> ''''" "S n' = None" "n' \<noteq> n"
    and clear: "\<And>q. normal_comps q \<Longrightarrow> suffix (n # p) q \<or> suffix (n' # p) q \<Longrightarrow> \<not> cached ds (pkey s q)"
    and keep: "keeps D D' (\<lambda>r. \<not> suffix (n # p) r)"
    and y: "GetName y = n'" "IsDir y = b" "\<not> ObjHasMask y Temp \<longrightarrow> D' (UnwrapObjName y) (n' # p)"
  shows "coherent s tend (graft n' p b sub (prune n p T)) D' (kc_update (pkey s p) (UpdateObject n y) ds)"
proof (rule coherent_update[OF assms(1-3)])
  fix dc S1 assume S1: "T p = Some S1" and dc: "dc_settled dc" "objs_show D p (dcObjs dc) S1"
  have "objs_show D' p (dcObjs (UpdateObject n y dc)) ((S1(n := None))(GetName y \<mapsto> IsDir y))"
    by (rule objs_show_update[OF dc(2) assms(5)]) (use assms(4,6) S1 y keep in \<open>auto simp: keeps_def\<close>)
  then show "dc_settled (UpdateObject n y dc) \<and> (\<exists>S'. graft n' p b sub (prune n p T) p = Some S' \<and> objs_show D' p (dcObjs (UpdateObject n y dc)) S')"
    using S1 y by (simp add: graft_def prune_def)
next
  fix q assume q: "q \<noteq> p" "normal_comps q" "cached ds (pkey s q)"
  then have n: "\<not> suffix (n # p) q" "\<not> suffix (n' # p) q" using clear by blast+
  moreover have "\<not> suffix (n # p) (m # q)" for m using n q(1) by (auto simp: suffix_Cons)
  ultimately show "graft n' p b sub (prune n p T) q = T q \<and> (\<forall>x m. D x (m # q) \<longrightarrow> D' x (m # q))"
    using q(1) keep by (auto simp: graft_def prune_def keeps_def)
qed

lemma if_cached_live:
  assumes "coherent s tend T D (chDirs c)" "t \<le> tend" "normal_comps p"
  shows "if_cached t (pkey s p) f c = (if cached (chDirs c) (pkey s p) then f c else c)"
  using get_live[OF assms] by (simp add: if_cached_def cached_def split: option.split)

lemma kc_update_miss: "\<not> cached ds k \<Longrightarrow> kc_update k f ds = ds"
proof -
  assume "\<not> cached ds k"
  then have "k \<notin> fst ` set ds" by (simp add: cached_def map_of_eq_None_iff del: not_None_eq)
  then show ?thesis unfolding kc_update_def by (intro map_idI) force
qed

text \<open>An update of one listing, where the code first asks whether it is there.\<close>

lemma dirs_update_if_cached:
  assumes "coherent s tend T D (chDirs c)" "t \<le> tend" "normal_comps p"
  shows "chDirs (if_cached t (pkey s p) (update_dir (pkey s p) f) c) = kc_update (pkey s p) f (chDirs c)"
  using if_cached_live[OF assms] by (simp add: update_dir_def kc_update_miss)

lemma DeleteKey_dirs [simp]: "chDirs (DeleteKey k c) = chDirs c"
  by (simp add: DeleteKey_def)

text \<open>Cutting an entry out of a cached listing, with the listings below it.\<close>

definition cut_entry :: "Storage \<Rightarrow> string \<Rightarrow> string list \<Rightarrow> bool \<Rightarrow> 'l caches \<Rightarrow> 'l caches" where
  "cut_entry s n p b c = (if b then deleteDirectoryTree (pkey s (n # p)) c else c)"

lemma cut_entry_ok:
  assumes "coherent s tend T D (chDirs c)" "tree_ok T" "mount_normal s" "normal_comps p" "name_ok n" "T p = Some S" "S n = Some b"
  shows "coherent s tend T D (chDirs (cut_entry s n p b c))"
    "normal_comps q \<Longrightarrow> suffix (n # p) q \<Longrightarrow> \<not> cached (chDirs (cut_entry s n p b c)) (pkey s q)"
    "cached (chDirs (cut_entry s n p b c)) (pkey s p) \<longleftrightarrow> cached (chDirs c) (pkey s p)"
proof -
  have np: "normal_comps (n # p)" using assms(4,5) by simp
  note d = coherent_delete_tree[OF assms(1-3) np]
  show "coherent s tend T D (chDirs (cut_entry s n p b c))" using d(1) assms(1) by (simp add: cut_entry_def)
  show "normal_comps q \<Longrightarrow> suffix (n # p) q \<Longrightarrow> \<not> cached (chDirs (cut_entry s n p b c)) (pkey s q)"
    using d(2)[of q] nothing_below[OF assms(1,2,6), of n q] assms(7) by (cases b) (simp_all add: cut_entry_def)
  show "cached (chDirs (cut_entry s n p b c)) (pkey s p) \<longleftrightarrow> cached (chDirs c) (pkey s p)"
    using delete_tree_outside[OF assms(1-3) np] outside_at[OF assms(3,4), of "{n # p}"] by (simp add: cut_entry_def cached_def)
qed

lemma coherent_cut:
  assumes "coherent s tend T D (chDirs c)" "tree_ok T" "mount_normal s" "normal_comps p" "name_ok n" "T p = Some S" "S n = Some b" "t \<le> tend"
    and "keeps D D' (\<lambda>r. \<not> suffix (n # p) r)"
  shows "coherent s tend (prune n p T) D' (chDirs (if_cached t (pkey s p) (\<lambda>c. update_dir (pkey s p) (RemoveObject n)
           (if b then deleteDirectoryTree (path_join (pkey s p) n) c else c)) c))"
proof (cases "cached (chDirs c) (pkey s p)")
  case True
  note cut = cut_entry_ok[OF assms(1-7)]
  show ?thesis
    using coherent_prune[OF cut(1) assms(3,4,6) cut(2) assms(9)] if_cached_live[OF assms(1,8,4)] True pkey_child[OF assms(3-5)]
    by (cases b) (simp_all add: update_dir_def cut_entry_def)
next
  case False
  show ?thesis
    using coherent_prune[OF assms(1,3,4,6) uncached_below[OF assms(1,3) False] assms(9)] if_cached_live[OF assms(1,8,4)] False
    by (simp add: kc_update_miss)
qed

lemma coherent_swap:
  assumes "coherent s tend T D (chDirs c)" "tree_ok T" "mount_normal s" "normal_comps p" "name_ok n" "T p = Some S" "S n = Some b" "t \<le> tend"
    and "keeps D D' (\<lambda>r. \<not> suffix (n # p) r)" "S n' = None"
    and y: "GetName y = n'" "IsDir y = b" "\<not> ObjHasMask y Temp \<longrightarrow> D' (UnwrapObjName y) (n' # p)"
  shows "coherent s tend (graft n' p b sub (prune n p T)) D' (chDirs (if_cached t (pkey s p) (\<lambda>c. update_dir (pkey s p) (UpdateObject n y)
           (if b then deleteDirectoryTree (path_join (pkey s p) n) c else c)) c))"
proof -
  have ne: "n \<noteq> ''''" "n' \<noteq> n" using assms(5,7,10) by (auto simp: name_ok_def)
  show ?thesis
  proof (cases "cached (chDirs c) (pkey s p)")
    case True
    note cut = cut_entry_ok[OF assms(1-7)]
    have "\<not> cached (chDirs (cut_entry s n p b c)) (pkey s q)" if "normal_comps q" "suffix (n # p) q \<or> suffix (n' # p) q" for q
      using that cut(2) nothing_below[OF cut(1) assms(2,6), of n' q] assms(10) by auto
    from coherent_replace[OF cut(1) assms(3,4,6) ne(1) assms(10) ne(2) this assms(9) y]
    show ?thesis
      using if_cached_live[OF assms(1,8,4)] True pkey_child[OF assms(3-5)]
      by (cases b) (simp_all add: update_dir_def cut_entry_def)
  next
    case False
    have "\<not> cached (chDirs c) (pkey s q)" if "normal_comps q" "suffix (n # p) q \<or> suffix (n' # p) q" for q
      using that uncached_below[OF assms(1,3) False] by blast
    from coherent_replace[OF assms(1,3,4,6) ne(1) assms(10) ne(2) this assms(9) y]
    show ?thesis using if_cached_live[OF assms(1,8,4)] False by (simp add: kc_update_miss)
  qed
qed

end
