(* ===== verification/Memory_Driver.thy ===== *)
theory Memory_Driver imports Op_Lookup begin

text \<open>
  A driver that keeps a tree of names in memory, with all the calls: directories can be made, files put,
  and both moved, renamed, copied and removed.  It satisfies what the operations rely on of a driver.
\<close>

section \<open>The tree of a map of paths\<close>

definition map_tree :: "(string list \<Rightarrow> bool option) \<Rightarrow> tree" where
  "map_tree M p = (if p = [] \<or> M p = Some True then Some (\<lambda>n. M (n # p)) else None)"

definition map_ok :: "(string list \<Rightarrow> bool option) \<Rightarrow> bool" where
  "map_ok M \<longleftrightarrow> M [] = None \<and> (\<forall>n p b. M (n # p) = Some b \<longrightarrow> name_ok n \<and> (p = [] \<or> M p = Some True))"

lemma map_okD: "map_ok M \<Longrightarrow> M (n # p) = Some b \<Longrightarrow> name_ok n \<and> (p = [] \<or> M p = Some True)"
  unfolding map_ok_def by blast

lemma map_tree_ok: "map_ok M \<Longrightarrow> tree_ok (map_tree M)"
proof -
  assume M: "map_ok M"
  have "map_tree M (n # p) \<noteq> None \<longleftrightarrow> (\<exists>S. map_tree M p = Some S \<and> S n = Some True)" for n p
    using map_okD[OF M, of n p] unfolding map_tree_def by (cases "M (n # p)") auto
  moreover have "name_ok n" if "map_tree M p = Some S" "S n \<noteq> None" for p S n
    using map_okD[OF M] that by (auto simp: map_tree_def split: if_splits)
  moreover have "map_tree M [] \<noteq> None" by (simp add: map_tree_def)
  ultimately show ?thesis unfolding tree_ok_def by blast
qed

lemma map_below: "map_ok M \<Longrightarrow> M p \<noteq> Some True \<Longrightarrow> p \<noteq> [] \<Longrightarrow> r \<noteq> [] \<Longrightarrow> M (r @ p) = None"
proof (induction r)
  case (Cons n r)
  show ?case
  proof (rule ccontr)
    assume "M ((n # r) @ p) \<noteq> None"
    then have "M (r @ p) = Some True" using map_okD[OF Cons.prems(1), of n "r @ p"] Cons.prems(3) by auto
    then show False using Cons by (cases "r = []") auto
  qed
qed simp

lemma map_ok_put:
  assumes "map_ok M" "map_tree M p \<noteq> None" "name_ok n" "M (n # p) = None \<or> M (n # p) = Some False \<and> \<not> b"
  shows "map_ok (M(n # p \<mapsto> b))"
proof -
  let ?M = "M(n # p \<mapsto> b)"
  have "name_ok m \<and> (q = [] \<or> ?M q = Some True)" if "?M (m # q) = Some b'" for m q b'
  proof (cases "m = n \<and> q = p")
    case True
    then show ?thesis using assms(2,3) by (auto simp: map_tree_def split: if_splits)
  next
    case False
    then have "M (m # q) = Some b'" using that by (auto split: if_splits)
    then have "name_ok m" "q = [] \<or> M q = Some True" using map_okD[OF assms(1)] by blast+
    then show ?thesis using assms(4) by auto
  qed
  moreover have "?M [] = None" using assms(1) by (simp add: map_ok_def)
  ultimately show ?thesis unfolding map_ok_def by blast
qed

lemma map_tree_put:
  assumes "map_ok M" "map_tree M p \<noteq> None" "M (n # p) = None \<or> M (n # p) = Some False \<and> \<not> b"
  shows "map_tree (M(n # p \<mapsto> b)) = graft n p b (if b then new_dir else no_dir) (map_tree M)"
proof
  fix q
  show "map_tree (M(n # p \<mapsto> b)) q = graft n p b (if b then new_dir else no_dir) (map_tree M) q"
  proof (cases "suffix (n # p) q")
    case True
    then obtain r where q: "q = r @ n # p" by (auto simp: suffix_def)
    have none: "M (s @ n # p) = None" if "s \<noteq> []" for s using map_below[OF assms(1), of "n # p" s] assms(3) that by auto
    show ?thesis
    proof (cases "r = []")
      case True
      then show ?thesis using none[of "[m]" for m] by (auto simp: q map_tree_def graft_def new_dir_def no_dir_def)
    next
      case False
      then have "M (r @ n # p) = None" "r @ n # p \<noteq> n # p" using none by auto
      then show ?thesis using False by (simp add: q map_tree_def graft_def new_dir_def no_dir_def)
    qed
  next
    case False
    then have "q \<noteq> n # p" by auto
    then show ?thesis using False assms(2) by (auto simp: map_tree_def graft_def fun_upd_def split: if_splits)
  qed
qed

definition map_cut :: "string list \<Rightarrow> (string list \<Rightarrow> bool option) \<Rightarrow> (string list \<Rightarrow> bool option)" where
  "map_cut p M = (\<lambda>q. if suffix p q then None else M q)"

lemma map_ok_cut: "map_ok M \<Longrightarrow> map_ok (map_cut (n # p) M)"
proof -
  assume M: "map_ok M"
  have "name_ok m \<and> (q = [] \<or> map_cut (n # p) M q = Some True)" if "map_cut (n # p) M (m # q) = Some b" for m q b
  proof -
    have "\<not> suffix (n # p) (m # q)" "M (m # q) = Some b" using that by (auto simp: map_cut_def split: if_splits)
    then show ?thesis using map_okD[OF M, of m q] by (auto simp: map_cut_def suffix_Cons)
  qed
  moreover have "map_cut (n # p) M [] = None" using M by (simp add: map_ok_def map_cut_def)
  ultimately show ?thesis unfolding map_ok_def by blast
qed

lemma map_tree_cut:
  assumes "map_ok M"
  shows "map_tree (map_cut (n # p) M) = prune n p (map_tree M)"
proof
  fix q
  show "map_tree (map_cut (n # p) M) q = prune n p (map_tree M) q"
  proof (cases "suffix (n # p) q")
    case True
    then show ?thesis by (auto simp: map_tree_def map_cut_def prune_def)
  next
    case False
    have "(\<lambda>m. map_cut (n # p) M (m # q)) = (if q = p then (\<lambda>m. M (m # p))(n := None) else (\<lambda>m. M (m # q)))"
      using False by (auto simp: map_cut_def suffix_Cons fun_eq_iff)
    then show ?thesis using False by (auto simp: map_tree_def map_cut_def prune_def)
  qed
qed

lemma suffix_at_end [simp]: "suffix q (r @ q)"
  by (simp add: suffix_def)

text \<open>A copy of what is at \<open>src\<close> put to \<open>n # q\<close>.\<close>

definition map_paste :: "string list \<Rightarrow> string list \<Rightarrow> (string list \<Rightarrow> bool option) \<Rightarrow> (string list \<Rightarrow> bool option) \<Rightarrow> (string list \<Rightarrow> bool option)" where
  "map_paste src dst M M0 = (\<lambda>r. if suffix dst r then M (take (length r - length dst) r @ src) else M0 r)"

lemma map_paste_below [simp]: "map_paste src dst M M0 (r @ dst) = M (r @ src)"
  by (simp add: map_paste_def)

lemma map_ok_paste:
  assumes "map_ok M" "map_ok M0" "src \<noteq> []" "map_tree M0 q \<noteq> None" "name_ok n"
  shows "map_ok (map_paste src (n # q) M M0)"
proof -
  let ?M = "map_paste src (n # q) M M0"
  have at: "?M r = M0 r" if "\<not> suffix (n # q) r" for r using that by (simp add: map_paste_def)
  have q: "q = [] \<or> ?M q = Some True" using assms(4) at[of q] by (auto simp: map_tree_def suffix_def split: if_splits)
  have "name_ok m \<and> (r = [] \<or> ?M r = Some True)" if e: "?M (m # r) = Some c" for m r c
  proof (cases "suffix (n # q) (m # r)")
    case True
    then consider "m = n" "r = q" | s where "r = s @ n # q" unfolding suffix_Cons by (auto simp: suffix_def)
    then show ?thesis
    proof cases
      case 2
      then have "M (m # s @ src) = Some c" using e map_paste_below[of src "n # q" M M0 "m # s"] by simp
      then show ?thesis using map_okD[OF assms(1), of m "s @ src" c] assms(3) 2 map_paste_below[of src "n # q" M M0 s] by simp
    qed (use q assms(5) in auto)
  next
    case False
    then have "M0 (m # r) = Some c" "\<not> suffix (n # q) r" using e at by (auto simp: suffix_Cons)
    then show ?thesis using map_okD[OF assms(2), of m r c] at by simp
  qed
  moreover have "?M [] = None" using assms(2) by (simp add: map_paste_def map_ok_def)
  ultimately show ?thesis unfolding map_ok_def by blast
qed

lemma map_tree_paste:
  assumes "src \<noteq> []" "map_tree M0 q \<noteq> None" "M src = Some b"
  shows "map_tree (map_paste src (n # q) M M0) = graft n q b (subtree src (map_tree M)) (map_tree M0)"
proof
  fix r
  let ?M = "map_paste src (n # q) M M0"
  have nq: "\<not> suffix (n # q) q" by (auto simp: suffix_def)
  show "map_tree ?M r = graft n q b (subtree src (map_tree M)) (map_tree M0) r"
  proof (cases "suffix (n # q) r")
    case True
    then obtain s where r: "r = s @ n # q" by (auto simp: suffix_def)
    have "?M (m # s @ n # q) = M (m # s @ src)" for m using map_paste_below[of src "n # q" M M0 "m # s"] by simp
    then show ?thesis using assms(1) by (simp add: r map_tree_def graft_def subtree_def)
  next
    case False
    have "?M (m # r) = (if r = q \<and> m = n then Some b else M0 (m # r))" for m
      using False assms(3) by (auto simp: map_paste_def suffix_Cons)
    then show ?thesis using False assms(2,3) nq by (auto simp: map_tree_def graft_def map_paste_def fun_eq_iff)
  qed
qed

section \<open>The driver\<close>

type_synonym mem = "(string list \<times> bool) list"

definition mem_obj :: "string list \<Rightarrow> bool \<Rightarrow> Obj" where
  "mem_obj p b = Plain \<lparr>obID = '''', obPath = path_of p, obName = (case p of [] \<Rightarrow> ''root'' | n # _ \<Rightarrow> n), obSize = 1, obModified = 0,
     IsFolder = b, Mask = 0\<rparr>"

definition mem_at :: "Obj \<Rightarrow> string list" where
  "mem_at x = rev (comps_of (obPath (plain_of x)))"

definition mem_children :: "string list \<Rightarrow> mem \<Rightarrow> mem" where
  "mem_children p w = filter (\<lambda>e. tl (fst e) = p) w"

definition mem_list :: "Obj \<Rightarrow> mem \<Rightarrow> op_error + Obj list" where
  "mem_list d w = Inr (map (\<lambda>e. mem_obj (fst e) (snd e)) (mem_children (mem_at d) w))"

definition mem_make :: "Obj \<Rightarrow> string \<Rightarrow> mem \<Rightarrow> mem \<times> (op_error + Obj option)" where
  "mem_make d n w =
     (case map_of w (n # mem_at d) of
        Some _ \<Rightarrow> (w, Inl ObjectAlreadyExists)
      | None \<Rightarrow> ((n # mem_at d, True) # w, Inr None))"

definition mem_remove :: "Obj \<Rightarrow> mem \<Rightarrow> mem \<times> (op_error + unit)" where
  "mem_remove x w = (filter (\<lambda>e. \<not> suffix (mem_at x) (fst e)) w, Inr ())"

definition mem_put :: "Obj \<Rightarrow> put_file \<Rightarrow> mem \<Rightarrow> mem \<times> (op_error + Obj option)" where
  "mem_put d file w =
     (let p = mem_at d; n = pfName file in
      if \<not> name_ok n \<or> \<not> (p = [] \<or> map_of w p = Some True) \<or> map_of w (n # p) = Some True then (w, Inl (OpOther ''cannot put''))
      else ((n # p, False) # filter (\<lambda>e. fst e \<noteq> n # p) w, Inr (Some (mem_obj (n # p) False))))"

definition mem_copies :: "string list \<Rightarrow> string list \<Rightarrow> mem \<Rightarrow> mem" where
  "mem_copies src dst w = map (\<lambda>e. (take (length (fst e) - length src) (fst e) @ dst, snd e)) (filter (\<lambda>e. suffix src (fst e)) w)"

lemma mem_copies_keys: "r \<in> fst ` set (mem_copies src dst w) \<Longrightarrow> suffix dst r"
  by (auto simp: mem_copies_def)

lemma mem_copies_map: "map_of (mem_copies src dst w) (r @ dst) = map_of w (r @ src)"
proof (induction w)
  case (Cons e w)
  show ?case
  proof (cases "suffix src (fst e)")
    case True
    then obtain s where "fst e = s @ src" by (auto simp: suffix_def)
    then show ?thesis using Cons by (cases e) (auto simp: mem_copies_def)
  next
    case False
    then have "fst e \<noteq> r @ src" by auto
    then show ?thesis using Cons False by (cases e) (auto simp: mem_copies_def)
  qed
qed (simp add: mem_copies_def)

lemma mem_copies_distinct: "distinct (map fst w) \<Longrightarrow> distinct (map fst (mem_copies src dst w))"
proof (induction w)
  case (Cons e w)
  show ?case
  proof (cases "suffix src (fst e)")
    case True
    then obtain s where s: "fst e = s @ src" by (auto simp: suffix_def)
    have "s @ dst \<notin> fst ` set (mem_copies src dst w)"
      using mem_copies_map[of src dst w s] Cons.prems s by (metis distinct.simps(2) list.map(2) image_set map_of_eq_None_iff)
    then show ?thesis using Cons s by (simp add: mem_copies_def image_image)
  next
    case False
    then show ?thesis using Cons by (simp add: mem_copies_def)
  qed
qed (simp add: mem_copies_def)

lemma map_of_pasted:
  assumes "\<And>r. suffix dst r \<Longrightarrow> map_of w0 r = None"
  shows "map_of (mem_copies src dst w @ w0) = map_paste src dst (map_of w) (map_of w0)"
proof
  fix r
  show "map_of (mem_copies src dst w @ w0) r = map_paste src dst (map_of w) (map_of w0) r"
  proof (cases "suffix dst r")
    case True
    then obtain s where r: "r = s @ dst" by (auto simp: suffix_def)
    then show ?thesis using assms[OF True] mem_copies_map[of src dst w s] map_paste_below[of src dst "map_of w" "map_of w0" s]
      by (auto simp: map_add_def split: option.splits)
  next
    case False
    then have "map_of (mem_copies src dst w) r = None" using mem_copies_keys map_of_eq_None_iff by metis
    then show ?thesis using False by (simp add: map_paste_def map_add_def)
  qed
qed

text \<open>The calls: an entry is moved, renamed or copied with everything below it, to a name that is free.\<close>

definition mem_free :: "string list \<Rightarrow> string \<Rightarrow> mem \<Rightarrow> bool" where
  "mem_free q n w \<longleftrightarrow> name_ok n \<and> (q = [] \<or> map_of w q = Some True) \<and> map_of w (n # q) = None"

definition mem_transfer :: "bool \<Rightarrow> string list \<Rightarrow> string list \<Rightarrow> string \<Rightarrow> mem \<Rightarrow> mem \<times> (op_error + Obj option)" where
  "mem_transfer keep src q n w =
     (case map_of w src of
        None \<Rightarrow> (w, Inl ObjectNotFound)
      | Some b \<Rightarrow>
          if \<not> mem_free q n w \<or> \<not> keep \<and> suffix src q then (w, Inl (OpOther ''cannot transfer''))
          else (mem_copies src (n # q) w @ (if keep then w else filter (\<lambda>e. \<not> suffix src (fst e)) w), Inr (Some (mem_obj (n # q) b))))"

definition mem_move :: "Obj \<Rightarrow> Obj \<Rightarrow> mem \<Rightarrow> mem \<times> (op_error + Obj option)" where
  "mem_move x d w = mem_transfer False (mem_at x) (mem_at d) (hd (mem_at x)) w"

definition mem_rename :: "Obj \<Rightarrow> string \<Rightarrow> mem \<Rightarrow> mem \<times> (op_error + Obj option)" where
  "mem_rename x n w = mem_transfer False (mem_at x) (tl (mem_at x)) n w"

definition mem_copy :: "Obj \<Rightarrow> Obj \<Rightarrow> mem \<Rightarrow> mem \<times> (op_error + Obj option)" where
  "mem_copy x d w = mem_transfer True (mem_at x) (mem_at d) (hd (mem_at x)) w"

definition mem_put_url :: "Obj \<Rightarrow> string \<Rightarrow> string \<Rightarrow> mem \<Rightarrow> mem \<times> (op_error + Obj option)" where
  "mem_put_url d n url w = mem_put d \<lparr>pfName = n, pfSize = 1, pfModified = 0\<rparr> w"

definition mem_env :: "Storage \<Rightarrow> mem op_env" where
  "mem_env s = \<lparr>oeStorage = s, oeCheckStatus = False, oeNoCache = False, oeLocalSort = True, oeNoOverwrite = False,
     oeSorter = \<lparr>sort_Slice = slice_stable, natural_less = (\<lambda>a b. length a < length b)\<rparr>, oeMapping = (\<lambda>n. n), oeGlob = (\<lambda>_ _. None), dvRoot = IRootPath ''/'', dvGetter = None,
     dvList = mem_list, dvMakeDir = Some mem_make, dvMove = Some mem_move, dvRename = Some mem_rename,
     dvCopy = Some mem_copy, dvRemove = Some mem_remove, dvPut = Some mem_put,
     dvPutURL = Some mem_put_url, dvDirectInfo = None\<rparr>"

definition mem_ok :: "mem \<Rightarrow> bool" where
  "mem_ok w \<longleftrightarrow> distinct (map fst w) \<and> map_ok (map_of w)"

definition mem_tree :: "mem \<Rightarrow> tree" where
  "mem_tree w = map_tree (map_of w)"

definition mem_den :: "mem \<Rightarrow> denotes" where
  "mem_den w x p \<longleftrightarrow> normal_comps p \<and> obPath (plain_of x) = path_of p"

lemma mem_den_at: "mem_den w x p \<Longrightarrow> mem_at x = p"
  by (simp add: mem_den_def mem_at_def path_of_def)

lemma mem_obj_simps [simp]: "GetName (mem_obj (n # p) b) = n" "IsDir (mem_obj p b) = b" "ObjHasMask (mem_obj p b) Temp = False"
  "mem_den w (mem_obj p b) q \<longleftrightarrow> normal_comps q \<and> path_of p = path_of q"
  by (simp_all add: mem_obj_def IsDir_def ObjHasMask_def mem_den_def)

lemma keeps_mem [simp]: "keeps (mem_den w) (mem_den w') P"
  by (simp add: keeps_def mem_den_def)

lemma mem_ok_entry: "mem_ok w \<Longrightarrow> e \<in> set w \<Longrightarrow> \<exists>n p. fst e = n # p \<and> map_of w (n # p) = Some (snd e) \<and> name_ok n \<and> normal_comps p"
proof -
  assume w: "mem_ok w" "e \<in> set w"
  then have m: "map_of w (fst e) = Some (snd e)" "map_ok (map_of w)" by (simp_all add: mem_ok_def)
  then obtain n p where e: "fst e = n # p" by (cases "fst e") (auto simp: map_ok_def)
  then have n: "name_ok n" "p = [] \<or> map_of w p = Some True" using map_okD[OF m(2)] m(1) by auto
  have "map_tree (map_of w) p \<noteq> None" using n(2) by (simp add: map_tree_def)
  then have "normal_comps p" using tree_normal[OF map_tree_ok[OF m(2)]] by blast
  then show ?thesis using e m(1) n by simp
qed

lemma mem_children_map: "mem_ok w \<Longrightarrow> map_of (map (\<lambda>e. (hd (fst e), snd e)) (mem_children p w)) n = map_of w (n # p)"
proof -
  assume "mem_ok w"
  then have ne: "\<And>e. e \<in> set w \<Longrightarrow> fst e \<noteq> []" using mem_ok_entry by fastforce
  show ?thesis using ne
  proof (induction w)
    case (Cons e w)
    then show ?case by (cases "fst e") (auto simp: mem_children_def)
  qed (simp add: mem_children_def)
qed

lemma mem_children_distinct: "mem_ok w \<Longrightarrow> distinct (map (\<lambda>e. hd (fst e)) (mem_children p w))"
proof -
  assume w: "mem_ok w"
  then have ne: "\<And>e. e \<in> set w \<Longrightarrow> fst e \<noteq> []" using mem_ok_entry by fastforce
  have "distinct (map fst w)" using w by (simp add: mem_ok_def)
  then show ?thesis using ne
  proof (induction w)
    case (Cons e w)
    have "hd (fst e) \<notin> (\<lambda>e. hd (fst e)) ` set (mem_children p w)" if "tl (fst e) = p"
    proof
      assume "hd (fst e) \<in> (\<lambda>e. hd (fst e)) ` set (mem_children p w)"
      then obtain f where f: "f \<in> set w" "tl (fst f) = p" "hd (fst f) = hd (fst e)" by (auto simp: mem_children_def)
      then have "fst f = fst e" using Cons.prems(2)[of e] Cons.prems(2)[of f] that by (metis list.set_intros list.expand)
      then show False using Cons.prems(1) f(1) by (auto simp: image_iff)
    qed
    then show ?case using Cons by (simp add: mem_children_def)
  qed (simp add: mem_children_def)
qed

lemma mem_pasted:
  assumes "mem_ok w" "mem_ok w0" "src \<noteq> []" "map_tree (map_of w0) q \<noteq> None" "name_ok n" "map_of w0 (n # q) = None" "map_of w src = Some b"
  shows "mem_ok (mem_copies src (n # q) w @ w0)"
    and "mem_tree (mem_copies src (n # q) w @ w0) = graft n q b (subtree src (mem_tree w)) (mem_tree w0)"
proof -
  have w: "distinct (map fst w)" "map_ok (map_of w)" "distinct (map fst w0)" "map_ok (map_of w0)" using assms(1,2) by (simp_all add: mem_ok_def)
  have none: "map_of w0 r = None" if "suffix (n # q) r" for r
  proof -
    obtain s where "r = s @ n # q" using \<open>suffix (n # q) r\<close> by (auto simp: suffix_def)
    then show ?thesis using map_below[OF w(4), of "n # q" s] assms(6) by (cases "s = []") auto
  qed
  note m = map_of_pasted[of "n # q" w0 src w, OF none]
  have "fst ` set (mem_copies src (n # q) w) \<inter> fst ` set w0 = {}"
    using mem_copies_keys[of _ src "n # q" w] none by (metis disjoint_iff map_of_eq_None_iff)
  then have "distinct (map fst (mem_copies src (n # q) w @ w0))" using mem_copies_distinct[OF w(1)] w(3) by simp
  then show "mem_ok (mem_copies src (n # q) w @ w0)"
    unfolding mem_ok_def using m map_ok_paste[OF w(2,4) assms(3-5)] by auto
  show "mem_tree (mem_copies src (n # q) w @ w0) = graft n q b (subtree src (mem_tree w)) (mem_tree w0)"
    using m map_tree_paste[where M = "map_of w" and b = b and n = n, OF assms(3,4,7)] by (simp add: mem_tree_def)
qed


lemma mem_cut:
  assumes "mem_ok w"
  shows "mem_ok (filter (\<lambda>e. \<not> suffix (n # p) (fst e)) w)"
    and "map_of (filter (\<lambda>e. \<not> suffix (n # p) (fst e)) w) = map_cut (n # p) (map_of w)"
    and "mem_tree (filter (\<lambda>e. \<not> suffix (n # p) (fst e)) w) = prune n p (mem_tree w)"
proof -
  let ?w = "filter (\<lambda>e. \<not> suffix (n # p) (fst e)) w"
  have w: "distinct (map fst w)" "map_ok (map_of w)" using assms by (simp_all add: mem_ok_def)
  show m: "map_of ?w = map_cut (n # p) (map_of w)"
  proof
    show "map_of ?w q = map_cut (n # p) (map_of w) q" for q by (induction w) (auto simp: map_cut_def)
  qed
  have "distinct (map fst ?w)" using w(1) by (rule distinct_map_filter)
  then show "mem_ok ?w" using m map_ok_cut[OF w(2), of n p] by (simp add: mem_ok_def)
  show "mem_tree ?w = prune n p (mem_tree w)" using m map_tree_cut[OF w(2), of n p] by (simp add: mem_tree_def)
qed

text \<open>What a transfer does, for the laws of the three calls.\<close>

lemma mem_transfer_law:
  assumes w: "mem_ok w" and src: "mem_tree w p = Some S" "S n = Some b" and n: "normal_comps p" "normal_comps q"
  shows "call_law mem_ok mem_tree mem_den w (mem_transfer keep (n # p) q n' w) (\<lambda>e. True)
    (\<lambda>w' y. (\<exists>S'. mem_tree w q = Some S' \<and> S' n' = None) \<and> name_ok n' \<and> (keep \<or> \<not> suffix (n # p) q)
       \<and> mem_tree w' = graft n' q b (subtree (n # p) (mem_tree w)) (if keep then mem_tree w else prune n p (mem_tree w))
       \<and> new_ok (mem_den w') n' q b y)"
proof (cases "mem_free q n' w \<and> (keep \<or> \<not> suffix (n # p) q)")
  case True
  let ?w = "if keep then w else filter (\<lambda>e. \<not> suffix (n # p) (fst e)) w"
  have m: "map_of w (n # p) = Some b" using src by (auto simp: mem_tree_def map_tree_def split: if_splits)
  have fr: "name_ok n'" "q = [] \<or> map_of w q = Some True" "map_of w (n' # q) = None" using True by (simp_all add: mem_free_def)
  have m0: "map_of ?w r = (if \<not> keep \<and> suffix (n # p) r then None else map_of w r)" for r
    using mem_cut(2)[OF w, of n p] by (simp add: map_cut_def)
  have "mem_ok ?w" using mem_cut(1)[OF w, of n p] w by simp
  moreover have "map_tree (map_of ?w) q \<noteq> None" using fr(2) True m0[of q] by (auto simp: map_tree_def)
  moreover have "map_of ?w (n' # q) = None" using fr(3) m0[of "n' # q"] by simp
  ultimately have "mem_ok (mem_copies (n # p) (n' # q) w @ ?w)"
    and "mem_tree (mem_copies (n # p) (n' # q) w @ ?w) = graft n' q b (subtree (n # p) (mem_tree w)) (mem_tree ?w)"
    using mem_pasted[of w ?w "n # p" q n' b] w m fr(1) by simp_all
  moreover have "mem_transfer keep (n # p) q n' w = (mem_copies (n # p) (n' # q) w @ ?w, Inr (Some (mem_obj (n' # q) b)))"
    using True m by (auto simp: mem_transfer_def)
  moreover have "mem_tree ?w = (if keep then mem_tree w else prune n p (mem_tree w))" using mem_cut(3)[OF w] by simp
  moreover have "mem_tree w q = Some (\<lambda>m. map_of w (m # q))" using fr(2) by (auto simp: mem_tree_def map_tree_def)
  ultimately show ?thesis using fr n True by (simp add: call_law_def new_ok_def)
next
  case False
  have "map_of w (n # p) = Some b" using src by (auto simp: mem_tree_def map_tree_def split: if_splits)
  then have "mem_transfer keep (n # p) q n' w = (w, Inl (OpOther ''cannot transfer''))" using False by (auto simp: mem_transfer_def)
  then show ?thesis using w by (simp add: call_law_def)
qed

lemma mem_read_laws: "read_laws (mem_env s) mem_ok mem_tree mem_den"
  unfolding read_laws_def
proof (intro allI impI conjI)
  fix w assume w: "mem_ok w"
  then show "tree_ok (mem_tree w)" by (simp add: mem_tree_def mem_ok_def map_tree_ok)
  show "\<exists>x. root_obj (mem_env s) w = Inr x \<and> IsDir x \<and> mem_den w (UnwrapObjName x) []"
    by (simp add: root_obj_def mem_env_def IsDir_def mem_den_def path_of_def mk_abs_def)
next
  fix w d p S assume w: "mem_ok w" and d: "mem_den w d p \<and> mem_tree w p = Some S"
  let ?cs = "mem_children p w" and ?fs = "map (\<lambda>e. mem_obj (fst e) (snd e)) (mem_children p w)"
  have "dvList (mem_env s) d w = Inr ?fs" using mem_den_at[OF conjunct1[OF d]] by (simp add: mem_env_def mem_list_def)
  moreover have e: "\<exists>n. fst e = n # p \<and> normal_comps (n # p)" if "e \<in> set ?cs" for e
    using that mem_ok_entry[OF w, of e] by (auto simp: mem_children_def)
  then have nm: "GetName (mem_obj (fst e) (snd e)) = hd (fst e)" if "e \<in> set ?cs" for e using that by fastforce
  moreover have "map GetName ?fs = map (\<lambda>e. hd (fst e)) ?cs" using nm by simp
  then have "distinct (map GetName ?fs)" using mem_children_distinct[OF w] by metis
  moreover have "kinds ?fs = map (\<lambda>e. (hd (fst e), snd e)) ?cs" using nm by (simp add: kinds_def)
  then have "map_of (kinds ?fs) = S" using mem_children_map[OF w, of p] d by (auto simp: mem_tree_def map_tree_def split: if_splits)
  moreover have "mem_den w f (GetName f # p) \<and> \<not> ObjHasMask f Temp" if "f \<in> set ?fs" for f using that e by fastforce
  ultimately show "\<exists>fs. dvList (mem_env s) d w = Inr fs \<and> distinct (map GetName fs) \<and> map_of (kinds fs) = S
      \<and> (\<forall>f \<in> set fs. mem_den w f (GetName f # p) \<and> \<not> ObjHasMask f Temp)" by blast
qed

lemma mem_make_law: "make_law (mem_env s) mem_ok mem_tree mem_den"
  unfolding make_law_def
proof (intro allI impI)
  fix w :: mem and mk d p n S
  assume a: "mem_ok w \<and> dvMakeDir (mem_env s) = Some mk \<and> mem_den w d p \<and> mem_tree w p = Some S \<and> name_ok n"
  then have mk: "mk = mem_make" "mem_at d = p" and w: "distinct (map fst w)" "map_ok (map_of w)" and n: "name_ok n" "mem_tree w p = Some S"
    using mem_den_at by (auto simp: mem_env_def mem_ok_def)
  have S: "S = (\<lambda>n. map_of w (n # p))" using n(2) by (auto simp: mem_tree_def map_tree_def split: if_splits)
  show "call_law mem_ok mem_tree mem_den w (mk d n w) (\<lambda>e. e = ObjectAlreadyExists \<longrightarrow> S n \<noteq> None)
      (\<lambda>w' x. S n = None \<and> mem_tree w' = graft n p True new_dir (mem_tree w) \<and> keeps (mem_den w) (mem_den w') (\<lambda>_. True)
        \<and> new_ok (mem_den w') n p True x)"
  proof (cases "map_of w (n # p)")
    case None
    have t: "map_tree (map_of w) p \<noteq> None" using n(2) by (simp add: mem_tree_def)
    have "map_ok ((map_of w)(n # p \<mapsto> True))" by (rule map_ok_put[OF w(2) t n(1)]) (simp add: None)
    moreover have "map_tree ((map_of w)(n # p \<mapsto> True)) = graft n p True new_dir (map_tree (map_of w))"
      using map_tree_put[OF w(2) t, of n True] None by simp
    moreover have "n # p \<notin> fst ` set w" using None by (simp add: map_of_eq_None_iff)
    ultimately show ?thesis using None w by (simp add: call_law_def mk mem_make_def mem_ok_def mem_tree_def new_ok_def S)
  next
    case (Some b)
    then show ?thesis using a by (simp add: call_law_def mk mem_make_def S)
  qed
qed

lemma mem_remove_law: "remove_law (mem_env s) mem_ok mem_tree mem_den"
  unfolding remove_law_def
proof (intro allI impI)
  fix w :: mem and rm x n p b S
  assume a: "mem_ok w \<and> dvRemove (mem_env s) = Some rm \<and> mem_den w x (n # p) \<and> mem_tree w p = Some S \<and> S n = Some b"
  let ?w = "filter (\<lambda>e. \<not> suffix (n # p) (fst e)) w"
  have rm: "rm x w = (?w, Inr ())" using a mem_den_at by (auto simp: mem_env_def mem_remove_def)
  show "call_law mem_ok mem_tree mem_den w (rm x w) (\<lambda>e. True)
      (\<lambda>w' _. mem_tree w' = prune n p (mem_tree w) \<and> keeps (mem_den w) (mem_den w') (\<lambda>r. \<not> suffix (n # p) r))"
    using mem_cut(1,3)[of w n p] a by (simp add: call_law_def rm)
qed

lemma mem_put_law: "put_law (mem_env s) mem_ok mem_tree mem_den"
  unfolding put_law_def
proof (intro allI impI)
  fix w :: mem and put d p and f :: put_file
  assume a: "mem_ok w \<and> dvPut (mem_env s) = Some put \<and> mem_den w d p"
  let ?n = "pfName f"
  let ?w = "(?n # p, False) # filter (\<lambda>e. fst e \<noteq> ?n # p) w"
  have put: "put = mem_put" "mem_at d = p" and w: "distinct (map fst w)" "map_ok (map_of w)" and np: "normal_comps p"
    using a mem_den_at by (auto simp: mem_env_def mem_ok_def mem_den_def)
  show "call_law mem_ok mem_tree mem_den w (put d f w) (\<lambda>e. True) (put_effect mem_tree mem_den ?n p w)"
  proof (cases "\<not> name_ok ?n \<or> \<not> (p = [] \<or> map_of w p = Some True) \<or> map_of w (?n # p) = Some True")
    case True
    then have "put d f w = (w, Inl (OpOther ''cannot put''))" unfolding put(1) mem_put_def Let_def put(2) by simp
    then show ?thesis using a by (simp add: call_law_def)
  next
    case False
    then have r: "put d f w = (?w, Inr (Some (mem_obj (?n # p) False)))" unfolding put(1) mem_put_def Let_def put(2) by simp
    have t: "map_tree (map_of w) p = Some (\<lambda>m. map_of w (m # p))" using False by (auto simp: map_tree_def)
    have c: "map_of w (?n # p) = None \<or> map_of w (?n # p) = Some False \<and> \<not> False" using False by (cases "map_of w (?n # p)") auto
    have m: "map_of ?w = (map_of w)(?n # p \<mapsto> False)"
    proof (rule ext)
      show "map_of ?w q = ((map_of w)(?n # p \<mapsto> False)) q" for q by (induction w) auto
    qed
    have "map_ok (map_of ?w)" unfolding m by (rule map_ok_put[OF w(2)]) (use t False c in auto)
    moreover have "map_tree (map_of ?w) = graft ?n p False no_dir (map_tree (map_of w))" unfolding m
      using map_tree_put[OF w(2) _ c] t by simp
    moreover have "distinct (map fst ?w)" using distinct_map_filter[OF w(1)] by auto
    ultimately show ?thesis using False t np by (simp add: call_law_def r mem_ok_def mem_tree_def new_ok_def put_effect_def)
  qed
qed

lemma mem_move_law: "move_law (mem_env s) mem_ok mem_tree mem_den"
  unfolding move_law_def
proof (intro allI impI)
  fix w :: mem and mv x n p b d q S
  assume a: "mem_ok w \<and> dvMove (mem_env s) = Some mv \<and> mem_den w x (n # p) \<and> mem_tree w p = Some S \<and> S n = Some b \<and> mem_den w d q"
  then have "mv x d w = mem_transfer False (n # p) q n w" "normal_comps p" "normal_comps q"
    using mem_den_at[of w x "n # p"] mem_den_at[of w d q] by (auto simp: mem_env_def mem_move_def mem_den_def)
  then show "call_law mem_ok mem_tree mem_den w (mv x d w) (\<lambda>e. True)
      (\<lambda>w' y. (\<exists>S'. mem_tree w q = Some S' \<and> S' n = None) \<and> \<not> suffix (n # p) q
        \<and> mem_tree w' = graft n q b (subtree (n # p) (mem_tree w)) (prune n p (mem_tree w))
        \<and> keeps (mem_den w) (mem_den w') (\<lambda>r. \<not> suffix (n # p) r) \<and> new_ok (mem_den w') n q b y)"
    using mem_transfer_law[of w p S n b q False n] a by (auto simp: call_law_def split: sum.splits)
qed

lemma mem_rename_law: "rename_law (mem_env s) mem_ok mem_tree mem_den"
  unfolding rename_law_def
proof (intro allI impI)
  fix w :: mem and rn x n p b n' S
  assume a: "mem_ok w \<and> dvRename (mem_env s) = Some rn \<and> mem_den w x (n # p) \<and> mem_tree w p = Some S \<and> S n = Some b"
  then have "rn x n' w = mem_transfer False (n # p) p n' w" "normal_comps p"
    using mem_den_at[of w x "n # p"] by (auto simp: mem_env_def mem_rename_def mem_den_def)
  then show "call_law mem_ok mem_tree mem_den w (rn x n' w) (\<lambda>e. True)
      (\<lambda>w' y. S n' = None \<and> name_ok n' \<and> mem_tree w' = graft n' p b (subtree (n # p) (mem_tree w)) (prune n p (mem_tree w))
        \<and> keeps (mem_den w) (mem_den w') (\<lambda>r. \<not> suffix (n # p) r) \<and> new_ok (mem_den w') n' p b y)"
    using mem_transfer_law[of w p S n b p False n'] a by (auto simp: call_law_def split: sum.splits)
qed

lemma mem_copy_law: "copy_law (mem_env s) mem_ok mem_tree mem_den"
  unfolding copy_law_def
proof (intro allI impI)
  fix w :: mem and cp x n p b d q S
  assume a: "mem_ok w \<and> dvCopy (mem_env s) = Some cp \<and> mem_den w x (n # p) \<and> mem_tree w p = Some S \<and> S n = Some b \<and> mem_den w d q"
  then have "cp x d w = mem_transfer True (n # p) q n w" "normal_comps p" "normal_comps q"
    using mem_den_at[of w x "n # p"] mem_den_at[of w d q] by (auto simp: mem_env_def mem_copy_def mem_den_def)
  then show "call_law mem_ok mem_tree mem_den w (cp x d w) (\<lambda>e. True)
      (\<lambda>w' y. (\<exists>S'. mem_tree w q = Some S' \<and> (S' n = None \<or> S' n = Some False \<and> \<not> b))
        \<and> mem_tree w' = graft n q b (subtree (n # p) (mem_tree w)) (mem_tree w)
        \<and> keeps (mem_den w) (mem_den w') (\<lambda>_. True) \<and> new_ok (mem_den w') n q b y)"
    using mem_transfer_law[of w p S n b q True n] a by (auto simp: call_law_def split: sum.splits)
qed

lemma mem_put_url_law: "put_url_law (mem_env s) mem_ok mem_tree mem_den"
  unfolding put_url_law_def
proof (intro allI impI)
  fix w :: mem and put d p n url
  assume a: "mem_ok w \<and> dvPutURL (mem_env s) = Some put \<and> mem_den w d p"
  then have "put d n url w = mem_put d \<lparr>pfName = n, pfSize = 1, pfModified = 0\<rparr> w" by (auto simp: mem_env_def mem_put_url_def)
  moreover have "dvPut (mem_env s) = Some mem_put" by (simp add: mem_env_def)
  ultimately show "call_law mem_ok mem_tree mem_den w (put d n url w) (\<lambda>e. True) (put_effect mem_tree mem_den n p w)"
    using mem_put_law[of s, unfolded put_law_def, rule_format, of w mem_put d p "\<lparr>pfName = n, pfSize = 1, pfModified = 0\<rparr>"] a by simp
qed

theorem mem_laws: "driver_laws (mem_env s) mem_ok mem_tree mem_den"
  using mem_read_laws mem_make_law mem_move_law mem_rename_law mem_copy_law mem_remove_law mem_put_law mem_put_url_law
  by (simp add: driver_laws_def)

end
