(* ===== verification/Op_Refine.thy ===== *)
theory Op_Refine imports Memory_Driver begin

text \<open>
  The operations that change a storage keep its cached listings coherent, so that after any sequence of
  them a listing shows what the driver has.
\<close>

section \<open>Every operation keeps the cache coherent\<close>

lemma coherent_same_tree:
  assumes "coherent s tend T D ds" "keeps D D' (\<lambda>_. True)"
  shows "coherent s tend T D' ds"
  by (rule coherent_change[OF assms(1)]) (use assms(2) coherent_parent[OF assms(1)] in \<open>auto simp: keeps_def\<close>)

lemma call_failed:
  assumes "in_order env wok tree den tend st" "call_law wok tree den (opWorld st) (w', Inl e) E Q"
  shows "in_order env wok tree den tend (st\<lparr>opWorld := w'\<rparr>)"
  using assms coherent_same_tree by (auto simp: in_order_def call_law_def)

lemma in_order_update:
  assumes "wok w'" "coherent (oeStorage env) tend (tree w') (den w') (chDirs (f (opCaches st)))"
  shows "in_order env wok tree den tend (on_caches f (st\<lparr>opWorld := w'\<rparr>))"
  using assms by (simp add: in_order_def)

lemma Temp_masks [simp]:
  "ObjHasMask (ObjWrapMask x Temp) Temp" "ObjHasMask (temp_object n sz tm b) Temp" "ObjHasMask (WrapObjName f x) m = ObjHasMask x m"
  by (simp_all add: ObjHasMask_def Temp_def temp_object_def)

text \<open>The object that goes into the listing: the driver's, or a temporary one.\<close>

lemma new_entry:
  assumes "new_ok D n p b x" "GetName tmp = n" "IsDir tmp = b" "ObjHasMask tmp Temp" "plain_env env"
    and "y \<in> {case x of None \<Rightarrow> tmp | Some obj \<Rightarrow> wrapObjName env obj, wrapObjName env (case x of None \<Rightarrow> tmp | Some obj \<Rightarrow> obj)}"
  shows "GetName y = n" "IsDir y = b" "\<not> ObjHasMask y Temp \<longrightarrow> D (UnwrapObjName y) (n # p)"
  using assms by (auto simp: new_ok_def plain_env_def wrapObjName_def split: option.splits)

lemma temp_object_simps [simp]: "GetName (temp_object n sz m b) = n" "IsDir (temp_object n sz m b) = b"
  by (simp_all add: temp_object_def)

text \<open>Looking up before an operation.\<close>

lemma GetUnwrap_ok:
  fixes st :: "('w, 'l) op_st"
  assumes "driver_laws env wok tree den" "plain_env env" "lasting env t tend"
    and "normal_comps rp" "in_order env wok tree den tend st" "GetUnwrap env t rp st = (st', r)"
  shows "in_order env wok tree den tend st'" "opWorld st' = opWorld st"
    "found_dir (oeStorage env) (tree (opWorld st)) (den (opWorld st)) rp (opDirs st') r"
proof -
  obtain st1 r1 where g: "Get_at env t True rp st = (st1, r1)" by fastforce
  note G = Get_at_ok[OF assms(1-5) g]
  have "tree_ok (tree (opWorld st))" using laws_tree[OF assms(1)] assms(5) by (simp add: in_order_def)
  then have "st' = st1 \<and> found_dir (oeStorage env) (tree (opWorld st)) (den (opWorld st)) rp (opDirs st1) r"
    using got_found_dir[of "oeStorage env" "tree (opWorld st)" "den (opWorld st)" rp "opDirs st1" r1 st1 st' r] G assms(6) g by (simp add: GetUnwrap_def)
  then show "in_order env wok tree den tend st'" "opWorld st' = opWorld st"
    "found_dir (oeStorage env) (tree (opWorld st)) (den (opWorld st)) rp (opDirs st') r" using G by auto
qed

lemma Remove_at_ok:
  fixes st :: "('w, 'l) op_st"
  assumes L: "driver_laws env wok tree den" "plain_env env" "lasting env t tend"
    and "normal_comps rp" "in_order env wok tree den tend st" "Remove_at env t rp st = (st', r)"
  shows "in_order env wok tree den tend st'"
proof (cases rp)
  case Nil
  then show ?thesis using assms by (simp add: Remove_at_def)
next
  case (Cons n p)
  let ?w = "opWorld st" and ?s = "oeStorage env"
  obtain st1 r1 where g: "Get_at env t True rp st = (st1, r1)" by fastforce
  note G = Get_at_ok[OF L assms(4,5) g]
  have st1: "in_order env wok tree den tend st1" "opWorld st1 = ?w" "got ?s (tree ?w) (den ?w) True (n # p) (opDirs st1) r1" using G Cons by auto
  show ?thesis
  proof (cases "\<exists>x rm. r1 = Inr x \<and> \<not> ObjHasMask x NoRemove \<and> dvRemove env = Some rm")
    case False
    then have "st' = st1" using assms(6) g Cons by (auto simp: Remove_at_def split: sum.splits if_splits option.splits)
    then show ?thesis using st1 by simp
  next
    case True
    then obtain x rm where x: "r1 = Inr x" "\<not> ObjHasMask x NoRemove" "dvRemove env = Some rm" by blast
    obtain S where S: "tree ?w p = Some S" "S n = Some (IsDir x)" "GetName x = n" "den ?w (UnwrapObjName x) (n # p)"
      using st1(3) x(1) by (auto simp: got_def)
    obtain w' r2 where rm: "rm (UnwrapObjName x) ?w = (w', r2)" by fastforce
    have ord: "wok ?w" "coherent ?s tend (tree ?w) (den ?w) (opDirs st1)" "tree_ok (tree ?w)"
      using st1 laws_tree[OF L(1)] by (auto simp: in_order_def)
    have law: "call_law wok tree den ?w (w', r2) (\<lambda>e. True) (\<lambda>w' _. tree w' = prune n p (tree ?w) \<and> keeps (den ?w) (den w') (\<lambda>r. \<not> suffix (n # p) r))"
      using remove_lawD[OF L(1) ord(1) x(3) S(4,1,2)] rm by simp
    have env: "mount_normal ?s" "\<not> oeNoCache env" "normal_comps p" "name_ok n" "t \<le> tend"
      using L(2,3) assms(4) Cons by (simp_all add: plain_env_def lasting_def)
    show ?thesis
    proof (cases r2)
      case (Inl e)
      then have "st' = st1\<lparr>opWorld := w'\<rparr>" using assms(6) g Cons x rm st1(2) by (simp add: Remove_at_def call_driver_def and_then_def)
      then show ?thesis using call_failed[OF st1(1)] law Inl st1(2) by simp
    next
      case (Inr u)
      then have st': "st' = on_caches (removeDirectoryObject t False ?s (path_of p) x) (st1\<lparr>opWorld := w'\<rparr>)"
        using assms(6) g Cons x rm st1(2) env(2) by (simp add: Remove_at_def call_driver_def and_then_def)
      have w': "wok w'" "tree w' = prune n p (tree ?w)" "keeps (den ?w) (den w') (\<lambda>r. \<not> suffix (n # p) r)"
        using law Inr by (simp_all add: call_law_def)
      let ?c = "if \<not> IsDir x then DeleteKey (path_join (pkey ?s p) n) (opCaches st1) else opCaches st1"
      have "chDirs ?c = opDirs st1" by simp
      then have "coherent ?s tend (prune n p (tree ?w)) (den w') (chDirs (if_cached t (pkey ?s p) (\<lambda>c. update_dir (pkey ?s p) (RemoveObject n)
           (if IsDir x then deleteDirectoryTree (path_join (pkey ?s p) n) c else c)) ?c))"
        using coherent_cut[of ?s tend "tree ?w" "den ?w" ?c p n S "IsDir x" t "den w'"] ord env S w'(3) by simp
      moreover have "removeDirectoryObject t False ?s (path_of p) x (opCaches st1) = if_cached t (pkey ?s p) (\<lambda>c. update_dir (pkey ?s p) (RemoveObject n)
           (if IsDir x then deleteDirectoryTree (path_join (pkey ?s p) n) c else c)) ?c"
        by (simp add: removeDirectoryObject_def if_cached_def update_dir_def Let_def pkey_def S(3) split: prod.split option.split)
      ultimately show ?thesis unfolding st' by (intro in_order_update w'(1)) (simp add: w'(2))
    qed
  qed
qed

text \<open>The object an operation starts from.\<close>

lemma Get_source:
  fixes st :: "('w, 'l) op_st"
  assumes "driver_laws env wok tree den" "plain_env env" "lasting env t tend"
    and "normal_comps (n # p)" "in_order env wok tree den tend st" "Get_at env t True (n # p) st = (st1, Inr x)"
  obtains S where "in_order env wok tree den tend st1" "opWorld st1 = opWorld st"
    "tree (opWorld st) p = Some S" "S n = Some (IsDir x)" "GetName x = n" "den (opWorld st) (UnwrapObjName x) (n # p)"
  using Get_at_ok[OF assms] that by (auto simp: got_def)

lemma env_facts:
  assumes "plain_env env" "lasting env t tend"
  shows "mount_normal (oeStorage env)" "\<not> oeNoCache env" "t \<le> tend"
  using assms by (simp_all add: plain_env_def lasting_def)

lemma in_order_facts:
  assumes "driver_laws env wok tree den" "in_order env wok tree den tend st"
  shows "wok (opWorld st)" "tree_ok (tree (opWorld st))" "coherent (oeStorage env) tend (tree (opWorld st)) (den (opWorld st)) (opDirs st)"
  using assms laws_tree by (auto simp: in_order_def)

lemma Rename_at_ok:
  fixes st :: "('w, 'l) op_st"
  assumes L: "driver_laws env wok tree den" "plain_env env" "lasting env t tend"
    and "normal_comps rp" "in_order env wok tree den tend st" "Rename_at env t rp n' st = (st', r)"
  shows "in_order env wok tree den tend st'"
proof (cases rp)
  case Nil
  then show ?thesis using assms by (simp add: Rename_at_def)
next
  case (Cons n p)
  let ?w = "opWorld st" and ?s = "oeStorage env"
  obtain st1 r1 where g: "Get_at env t True (n # p) st = (st1, r1)" by fastforce
  have np: "normal_comps (n # p)" using assms(4) Cons by simp
  show ?thesis
  proof (cases "\<exists>x rn. r1 = Inr x \<and> \<not> ObjHasMask x NoRename \<and> dvRename env = Some rn")
    case False
    then have "st' = st1" using assms(6) g Cons by (auto simp: Rename_at_def and_then_def split: sum.splits if_splits option.splits)
    then show ?thesis using Get_at_ok[OF L np assms(5) g] by simp
  next
    case True
    then obtain x rn where x: "r1 = Inr x" "\<not> ObjHasMask x NoRename" "dvRename env = Some rn" by blast
    obtain S where S: "in_order env wok tree den tend st1" "opWorld st1 = ?w" "tree ?w p = Some S" "S n = Some (IsDir x)" "GetName x = n"
      "den ?w (UnwrapObjName x) (n # p)" using Get_source[OF L np assms(5) g[unfolded x(1)]] by blast
    obtain w' r2 where rn: "rn (UnwrapObjName x) n' ?w = (w', r2)" by fastforce
    note ord = in_order_facts[OF L(1) S(1), unfolded S(2)] and env = env_facts[OF L(2,3)]
    note law = rename_lawD[OF L(1) ord(1) x(3) S(6,3,4), of n', unfolded rn]
    show ?thesis
    proof (cases r2)
      case (Inl e)
      then have "st' = st1\<lparr>opWorld := w'\<rparr>" using assms(6) g Cons x rn S(2) by (simp add: Rename_at_def call_driver_def and_then_def)
      then show ?thesis using call_failed[OF S(1)] law Inl S(2) by simp
    next
      case (Inr y)
      then have st': "st' = on_caches (after_rename env t p x n' y) (st1\<lparr>opWorld := w'\<rparr>)"
        using assms(6) g Cons x rn S(2) by (simp add: Rename_at_def call_driver_def and_then_def)
      have w': "wok w'" "S n' = None" "tree w' = graft n' p (IsDir x) (subtree (n # p) (tree ?w)) (prune n p (tree ?w))"
        "keeps (den ?w) (den w') (\<lambda>r. \<not> suffix (n # p) r)" "new_ok (den w') n' p (IsDir x) y"
        using law Inr by (simp_all add: call_law_def)
      define z where "z = wrapObjName env (case y of None \<Rightarrow> ObjWrapMask (ObjWrapName n' (UnwrapObjName x)) Temp | Some obj \<Rightarrow> obj)"
      note z = new_entry[OF w'(5), of "ObjWrapMask (ObjWrapName n' (UnwrapObjName x)) Temp" env z]
      let ?c = "if \<not> IsDir x then DeleteKey (path_join (pkey ?s p) n') (DeleteKey (path_join (pkey ?s p) n) (opCaches st1)) else opCaches st1"
      have "chDirs ?c = opDirs st1" by simp
      then have "coherent ?s tend (tree w') (den w') (chDirs (if_cached t (pkey ?s p) (\<lambda>c. update_dir (pkey ?s p) (UpdateObject n z)
           (if IsDir x then deleteDirectoryTree (path_join (pkey ?s p) n) c else c)) ?c))"
        unfolding w'(3) using coherent_swap[of ?s tend "tree ?w" "den ?w" ?c p n S "IsDir x" t "den w'" n' z] ord env S np w' z L(2)
        by (simp add: z_def)
      then show ?thesis unfolding st' using env(2)
        by (intro in_order_update w'(1), cases "IsDir x") (simp_all add: after_rename_def Let_def S(5) z_def pkey_def)
    qed
  qed
qed

lemma coherent_add:
  assumes "coherent s tend T D (chDirs c)" "tree_ok T" "mount_normal s" "normal_comps p" "T p = Some S" "t \<le> tend" "keeps D D' (\<lambda>_. True)"
    and "n \<noteq> ''''" "S n = None \<or> S n = Some False" "GetName y = n" "IsDir y = b" "\<not> ObjHasMask y Temp \<longrightarrow> D' (UnwrapObjName y) (n # p)"
  shows "coherent s tend (graft n p b sub T) D' (chDirs (if_cached t (pkey s p) (update_dir (pkey s p) (UpdateObject n y)) c))"
  unfolding dirs_update_if_cached[OF assms(1,6,4)]
proof (rule coherent_graft[OF assms(1,3,4,5) nothing_below[OF assms(1,2,5)] assms(7)])
  fix dc assume dc: "dc_settled dc" "objs_show D p (dcObjs dc) S"
  have "objs_show D' p (dcObjs (UpdateObject n y dc)) ((S(n := None))(GetName y \<mapsto> IsDir y))"
    by (rule objs_show_update[OF dc(2) assms(8)]) (use assms(7,10,12) in \<open>auto simp: keeps_def\<close>)
  then show "dc_settled (UpdateObject n y dc) \<and> objs_show D' p (dcObjs (UpdateObject n y dc)) (S(n \<mapsto> b))" using assms(10,11) by simp
qed (use assms(9) in auto)

text \<open>The lookups of a source and of a destination, in this order.\<close>

lemma Get_two:
  fixes st :: "('w, 'l) op_st"
  assumes L: "driver_laws env wok tree den" "plain_env env" "lasting env t tend"
    and "normal_comps (n # p)" "normal_comps q" "in_order env wok tree den tend st"
    and "Get_at env t True (n # p) st = (st1, Inr x)" "GetUnwrap env t q st1 = (st2, Inr d)"
  obtains S where "in_order env wok tree den tend st2" "opWorld st2 = opWorld st"
    "tree (opWorld st) p = Some S" "S n = Some (IsDir x)" "GetName x = n" "den (opWorld st) (UnwrapObjName x) (n # p)"
    "den (opWorld st) d q"
proof -
  obtain S where S: "in_order env wok tree den tend st1" "opWorld st1 = opWorld st" "tree (opWorld st) p = Some S" "S n = Some (IsDir x)"
    "GetName x = n" "den (opWorld st) (UnwrapObjName x) (n # p)" using Get_source[OF L assms(4,6,7)] by blast
  note d = GetUnwrap_ok[OF L assms(5) S(1) assms(8), unfolded S(2)]
  have "den (opWorld st) d q" using d(3) by (simp add: found_dir_def)
  then show thesis using that[of S] d(1,2) S(3-6) by blast
qed

lemma Copy_at_ok:
  fixes st :: "('w, 'l) op_st"
  assumes L: "driver_laws env wok tree den" "plain_env env" "lasting env t tend"
    and "normal_comps (n # p)" "normal_comps q" "in_order env wok tree den tend st" "Copy_at env t (n # p) q st = (st', r)"
  shows "in_order env wok tree den tend st'"
proof -
  let ?w = "opWorld st" and ?s = "oeStorage env"
  obtain st1 r1 where g1: "Get_at env t True (n # p) st = (st1, r1)" by fastforce
  obtain st2 r2 where g2: "GetUnwrap env t q st1 = (st2, r2)" by fastforce
  have ok1: "in_order env wok tree den tend st1" using Get_at_ok[OF L assms(4,6) g1] by simp
  have ok2: "in_order env wok tree den tend st2" using GetUnwrap_ok[OF L assms(5) ok1 g2] by simp
  show ?thesis
  proof (cases "\<exists>x d cp. q \<noteq> p \<and> r1 = Inr x \<and> r2 = Inr d \<and> \<not> ObjHasMask d NoWrite \<and> dvCopy env = Some cp")
    case False
    then have "st' = st \<or> st' = st1 \<or> st' = st2"
      using assms(7) g1 g2 by (auto simp: Copy_at_def and_then_def split: sum.splits if_splits option.splits)
    then show ?thesis using ok1 ok2 assms(6) by blast
  next
    case True
    then obtain x d cp where x: "q \<noteq> p" "r1 = Inr x" "r2 = Inr d" "\<not> ObjHasMask d NoWrite" "dvCopy env = Some cp" by blast
    obtain S where S: "in_order env wok tree den tend st2" "opWorld st2 = ?w" "tree ?w p = Some S" "S n = Some (IsDir x)" "GetName x = n"
      "den ?w (UnwrapObjName x) (n # p)" "den ?w d q" using Get_two[OF L assms(4-6) g1[unfolded x(2)] g2[unfolded x(3)]] by blast
    obtain w' r3 where cp: "cp (UnwrapObjName x) d ?w = (w', r3)" by fastforce
    note ord = in_order_facts[OF L(1) S(1), unfolded S(2)] and env = env_facts[OF L(2,3)]
    note law = copy_lawD[OF L(1) ord(1) x(5) S(6,3,4,7), unfolded cp]
    show ?thesis
    proof (cases r3)
      case (Inl e)
      then have "st' = st2\<lparr>opWorld := w'\<rparr>" using assms(7) g1 g2 x cp S(2) by (simp add: Copy_at_def call_driver_def and_then_def)
      then show ?thesis using call_failed[OF S(1)] law Inl S(2) by simp
    next
      case (Inr y)
      then have st': "st' = on_caches (after_copy env t q x y) (st2\<lparr>opWorld := w'\<rparr>)"
        using assms(7) g1 g2 x cp S(2) by (simp add: Copy_at_def call_driver_def and_then_def)
      obtain S' where w': "wok w'" "tree ?w q = Some S'" "S' n = None \<or> S' n = Some False" "tree w' = graft n q (IsDir x) (subtree (n # p) (tree ?w)) (tree ?w)"
        "keeps (den ?w) (den w') (\<lambda>_. True)" "new_ok (den w') n q (IsDir x) y"
        using law Inr by (auto simp: call_law_def)
      define z where "z = (case y of None \<Rightarrow> ObjWrapMask x Temp | Some obj \<Rightarrow> wrapObjName env obj)"
      note z = new_entry[OF w'(6), of "ObjWrapMask x Temp" env z]
      let ?c = "if \<not> IsDir x then DeleteKey (path_join (pkey ?s q) n) (opCaches st2) else opCaches st2"
      have "chDirs ?c = opDirs st2" by simp
      moreover have "n \<noteq> ''''" using assms(4) by (simp add: name_ok_def)
      ultimately have "coherent ?s tend (tree w') (den w') (chDirs (if_cached t (pkey ?s q) (update_dir (pkey ?s q) (UpdateObject n z)) ?c))"
        unfolding w'(4) using coherent_add[of ?s tend "tree ?w" "den ?w" ?c q S' t "den w'" n z] ord env S assms(5) w' z L(2) by (simp add: z_def)
      then show ?thesis unfolding st' using env(2)
        by (intro in_order_update w'(1), cases "IsDir x") (simp_all add: after_copy_def Let_def S(5) z_def pkey_def)
    qed
  qed
qed

lemma tree_ok_prune: "tree_ok T \<Longrightarrow> tree_ok (prune n p T)"
proof -
  assume T: "tree_ok T"
  have "prune n p T (m # r) \<noteq> None \<longleftrightarrow> (\<exists>S. prune n p T r = Some S \<and> S m = Some True)" for m r
  proof (cases "suffix (n # p) (m # r)")
    case True
    then show ?thesis by (auto simp: prune_def suffix_Cons)
  next
    case False
    then have "\<not> suffix (n # p) r" "\<not> (r = p \<and> m = n)" by (auto simp: suffix_Cons)
    moreover have "m # r = p \<or> m # r \<noteq> p" by blast
    ultimately show ?thesis using False tree_child[OF T, of m r] by (auto simp: prune_def)
  qed
  moreover have "name_ok m" if "prune n p T r = Some S" "S m \<noteq> None" for r S m
    using that tree_name[OF T, of r] by (auto simp: prune_def split: if_splits)
  moreover have "prune n p T [] \<noteq> None" using T by (auto simp: prune_def tree_ok_def)
  ultimately show ?thesis unfolding tree_ok_def by blast
qed

lemma Move_at_ok:
  fixes st :: "('w, 'l) op_st"
  assumes L: "driver_laws env wok tree den" "plain_env env" "lasting env t tend"
    and "normal_comps src" "normal_comps q" "in_order env wok tree den tend st" "Move_at env t src q st = (st', r)"
  shows "in_order env wok tree den tend st'"
proof (cases src)
  case Nil
  then show ?thesis using assms by (simp add: Move_at_def)
next
  case (Cons n p)
  let ?w = "opWorld st" and ?s = "oeStorage env"
  have np: "normal_comps (n # p)" using assms(4) Cons by simp
  obtain st1 r1 where g1: "Get_at env t True (n # p) st = (st1, r1)" by fastforce
  obtain st2 r2 where g2: "GetUnwrap env t q st1 = (st2, r2)" by fastforce
  have ok1: "in_order env wok tree den tend st1" using Get_at_ok[OF L np assms(6) g1] by simp
  have ok2: "in_order env wok tree den tend st2" using GetUnwrap_ok[OF L assms(5) ok1 g2] by simp
  show ?thesis
  proof (cases "\<exists>x d mv. q \<noteq> p \<and> r1 = Inr x \<and> \<not> ObjHasMask x NoMove \<and> r2 = Inr d \<and> \<not> ObjHasMask d NoWrite \<and> dvMove env = Some mv")
    case False
    then have "st' = st \<or> st' = st1 \<or> st' = st2"
      using assms(7) g1 g2 Cons by (auto simp: Move_at_def and_then_def split: sum.splits if_splits option.splits)
    then show ?thesis using ok1 ok2 assms(6) by blast
  next
    case True
    then obtain x d mv where x: "q \<noteq> p" "r1 = Inr x" "r2 = Inr d" "\<not> ObjHasMask d NoWrite" "dvMove env = Some mv" "\<not> ObjHasMask x NoMove" by blast
    obtain S where S: "in_order env wok tree den tend st2" "opWorld st2 = ?w" "tree ?w p = Some S" "S n = Some (IsDir x)" "GetName x = n"
      "den ?w (UnwrapObjName x) (n # p)" "den ?w d q" using Get_two[OF L np assms(5,6) g1[unfolded x(2)] g2[unfolded x(3)]] by blast
    obtain w' r3 where mv: "mv (UnwrapObjName x) d ?w = (w', r3)" by fastforce
    note ord = in_order_facts[OF L(1) S(1), unfolded S(2)] and env = env_facts[OF L(2,3)]
    note law = move_lawD[OF L(1) ord(1) x(5) S(6,3,4,7), unfolded mv]
    show ?thesis
    proof (cases r3)
      case (Inl e)
      then have "st' = st2\<lparr>opWorld := w'\<rparr>" using assms(7) g1 g2 x mv S(2) Cons by (simp add: Move_at_def call_driver_def and_then_def)
      then show ?thesis using call_failed[OF S(1)] law Inl S(2) by simp
    next
      case (Inr y)
      then have st': "st' = on_caches (after_move env t p q x y) (st2\<lparr>opWorld := w'\<rparr>)"
        using assms(7) g1 g2 x mv S(2) Cons by (simp add: Move_at_def call_driver_def and_then_def)
      obtain S' where w': "wok w'" "tree ?w q = Some S'" "S' n = None" "\<not> suffix (n # p) q"
        "tree w' = graft n q (IsDir x) (subtree (n # p) (tree ?w)) (prune n p (tree ?w))"
        "keeps (den ?w) (den w') (\<lambda>r. \<not> suffix (n # p) r)" "new_ok (den w') n q (IsDir x) y"
        using law Inr by (auto simp: call_law_def)
      define z where "z = (case y of None \<Rightarrow> ObjWrapMask x Temp | Some obj \<Rightarrow> wrapObjName env obj)"
      note z = new_entry[OF w'(7), of "ObjWrapMask x Temp" env z]
      define D where "D = (\<lambda>y r. den ?w y r \<and> \<not> suffix (n # p) r)"
      have D: "keeps (den ?w) D (\<lambda>r. \<not> suffix (n # p) r)" "keeps D (den w') (\<lambda>_. True)" using w'(6) by (auto simp: D_def keeps_def)
      let ?T = "prune n p (tree ?w)"
      let ?c = "if \<not> IsDir x then DeleteKey (path_join (pkey ?s q) n) (DeleteKey (path_join (pkey ?s p) n) (opCaches st2)) else opCaches st2"
      let ?c1 = "if_cached t (pkey ?s p) (\<lambda>c. update_dir (pkey ?s p) (RemoveObject n) (if IsDir x then deleteDirectoryTree (path_join (pkey ?s p) n) c else c)) ?c"
      have "chDirs ?c = opDirs st2" by simp
      then have c1: "coherent ?s tend ?T D (chDirs ?c1)"
        using coherent_cut[of ?s tend "tree ?w" "den ?w" ?c p n S "IsDir x" t D] ord env S np D(1) by simp
      have Tq: "?T q = Some S'" using w'(2,4) x(1) by (simp add: prune_def)
      have zf: "GetName z = n" "IsDir z = IsDir x" "\<not> ObjHasMask z Temp \<longrightarrow> den w' (UnwrapObjName z) (n # q)"
        using z S(5) L(2) by (simp_all add: z_def)
      have "n \<noteq> ''''" using np by (simp add: name_ok_def)
      then have "coherent ?s tend (tree w') (den w') (chDirs (if_cached t (pkey ?s q) (update_dir (pkey ?s q) (UpdateObject n z)) ?c1))"
        unfolding w'(5) by (intro coherent_add[OF c1 tree_ok_prune[OF ord(2)] env(1) assms(5) Tq env(3) D(2) _ _ zf]) (use w'(3) in auto)
      then show ?thesis unfolding st' using env(2)
        by (intro in_order_update w'(1), cases "IsDir x") (simp_all add: after_move_def Let_def S(5) z_def pkey_def)
    qed
  qed
qed

text \<open>\<open>MakeDir\<close> makes the missing directories above its path: the tree changes only if there was no directory at the path.\<close>

lemma make_entry:
  assumes "coherent s tend T D (chDirs c)" "tree_ok T" "mount_normal s" "normal_comps p" "T p = Some S" "t \<le> tend" "keeps D D' (\<lambda>_. True)"
    and "S n = None" "GetName y = n" "IsDir y" "\<not> ObjHasMask y Temp \<longrightarrow> D' (UnwrapObjName y) (n # p)"
  shows "coherent s tend (graft n p True sub T) D' (chDirs (if_cached t (pkey s p) (update_dir (pkey s p) (UpdateObject '''' y)) c))"
  unfolding dirs_update_if_cached[OF assms(1,6,4)]
proof (rule coherent_graft[OF assms(1,3,4,5) nothing_below[OF assms(1,2,5)] assms(7)])
  fix dc assume dc: "dc_settled dc" "objs_show D p (dcObjs dc) S"
  have "objs_show D' p (dcObjs dc) S" using dc(2) by (rule objs_show_mono) (use assms(7) in \<open>auto simp: keeps_def\<close>)
  then show "dc_settled (UpdateObject '''' y dc) \<and> objs_show D' p (dcObjs (UpdateObject '''' y dc)) (S(n \<mapsto> True))"
    using objs_show_make[of D' p "dcObjs dc" S y dc] assms(8-11) by simp
qed (use assms(8) in auto)

lemma make_step_ok:
  fixes st :: "('w, 'l) op_st"
  assumes L: "driver_laws env wok tree den" "plain_env env" "lasting env t tend" "normal_comps (n # p)"
    and st: "in_order env wok tree den tend st" "tree (opWorld st) p = Some S" "S n = None" "den (opWorld st) d p"
    and mk: "dvMakeDir env = Some mk" "call_driver (mk d n) st = (st', r)"
  shows "case r of Inl e \<Rightarrow> e \<noteq> ObjectAlreadyExists \<and> in_order env wok tree den tend st'
    | Inr x \<Rightarrow> in_order env wok tree den tend (on_caches (after_make_dir env t p n x) st') \<and> tree (opWorld st') (n # p) = Some Map.empty"
proof -
  let ?w = "opWorld st" and ?s = "oeStorage env"
  obtain w' r' where w: "mk d n ?w = (w', r')" by fastforce
  have st': "st' = st\<lparr>opWorld := w'\<rparr>" "r = r'" using mk(2) w by (simp_all add: call_driver_def)
  note ord = in_order_facts[OF L(1) st(1)] and env = env_facts[OF L(2,3)]
  have np: "normal_comps p" "name_ok n" using L(4) by simp_all
  note law = make_lawD[OF L(1) ord(1) mk(1) st(4,2) np(2), unfolded w]
  show ?thesis
  proof (cases r')
    case (Inl e)
    then have "e \<noteq> ObjectAlreadyExists" using law st(3) by (auto simp: call_law_def)
    then show ?thesis using call_failed[OF st(1)] law Inl st' by simp
  next
    case (Inr x)
    then have w': "wok w'" "tree w' = graft n p True new_dir (tree ?w)" "keeps (den ?w) (den w') (\<lambda>_. True)" "new_ok (den w') n p True x"
      using law by (simp_all add: call_law_def)
    define z where "z = wrapObjName env (case x of None \<Rightarrow> temp_object n 0 t True | Some obj \<Rightarrow> obj)"
    have z: "GetName z = n" "IsDir z = True" "\<not> ObjHasMask z Temp \<longrightarrow> den w' (UnwrapObjName z) (n # p)"
      using new_entry[OF w'(4), of "temp_object n 0 t True" env z] L(2) by (simp_all add: z_def)
    have "coherent ?s tend (tree w') (den w') (chDirs (if_cached t (pkey ?s p) (update_dir (pkey ?s p) (UpdateObject '''' z)) (opCaches st)))"
      unfolding w'(2) by (intro make_entry[OF ord(3,2) env(1) np(1) st(2) env(3) w'(3) st(3) z(1) _ z(3)]) (simp add: z)
    then have "in_order env wok tree den tend (on_caches (after_make_dir env t p n x) st')" unfolding st' using env(2)
      by (intro in_order_update w'(1)) (simp add: after_make_dir_def z_def pkey_def)
    moreover have "tree w' (n # p) = Some Map.empty" by (simp add: w'(2) graft_def new_dir_def)
    ultimately show ?thesis using Inr st' by simp
  qed
qed

lemma MakeDir_at_ok:
  fixes st :: "('w, 'l) op_st"
  assumes L: "driver_laws env wok tree den" "plain_env env" "lasting env t tend"
  shows "normal_comps p \<Longrightarrow> in_order env wok tree den tend st \<Longrightarrow> MakeDir_at env t p st = (st', r) \<Longrightarrow>
    in_order env wok tree den tend st'
    \<and> (if tree (opWorld st) p \<noteq> None then tree (opWorld st') = tree (opWorld st)
       else r = Inr () \<longrightarrow> tree (opWorld st') p = Some Map.empty)"
proof (induction p arbitrary: st st' r)
  case Nil
  obtain st1 r1 where g: "Get_at env t False [] st = (st1, r1)" by fastforce
  note G = Get_at_ok[OF L Nil(1,2) g]
  have "tree (opWorld st) [] \<noteq> None" using in_order_facts(2)[OF L(1) Nil(2)] by (simp add: tree_ok_def)
  moreover obtain x where "r1 = Inr x" "IsDir x" using G by (auto simp: got_def)
  ultimately show ?case using G Nil(3) unfolding MakeDir_at.simps g by simp
next
  case (Cons n p)
  let ?w = "opWorld st" and ?s = "oeStorage env"
  obtain st1 r1 where g: "Get_at env t False (n # p) st = (st1, r1)" by fastforce
  have g1: "in_order env wok tree den tend st1" "opWorld st1 = ?w" "got ?s (tree ?w) (den ?w) False (n # p) (opDirs st1) r1"
    using Get_at_ok[OF L Cons(2,3) g] by simp_all
  note tok = in_order_facts(2)[OF L(1) Cons(3)]
  show ?case
  proof (cases r1)
    case (Inr x)
    then have "if IsDir x then tree ?w (n # p) \<noteq> None else tree ?w (n # p) = None"
      using g1(3) tree_child[OF tok, of n p] by (auto simp: got_def)
    then show ?thesis using Inr g1(1,2) Cons(4) g by (auto split: if_splits)
  next
    case (Inl e)
    then have e: "e = ObjectNotFound" "\<And>S. tree ?w p = Some S \<Longrightarrow> S n = None" using g1(3) by (auto simp: got_def)
    then have none: "tree ?w (n # p) = None" using tree_child[OF tok, of n p] by auto
    obtain st2 r2 where m: "MakeDir_at env t p st1 = (st2, r2)" by fastforce
    obtain st3 r3 where d: "GetUnwrap env t p st2 = (st3, r3)" by fastforce
    have np: "normal_comps p" using Cons(2) by simp
    note M = Cons(1)[OF np g1(1) m, unfolded g1(2)]
    note D = GetUnwrap_ok[OF L np conjunct1[OF M] d]
    show ?thesis
    proof (cases "\<exists>pd mk. r2 = Inr () \<and> r3 = Inr pd \<and> IsDir pd \<and> \<not> ObjHasMask pd NoWrite \<and> dvMakeDir env = Some mk")
      case False
      have "(st' = st2 \<or> st' = st3) \<and> r \<noteq> Inr ()"
      proof (cases r2)
        case (Inl e2)
        then show ?thesis using Cons(4) by (auto simp del: Get_at.simps simp: g \<open>r1 = Inl e\<close> e(1) m and_then_def)
      next
        case (Inr u)
        then show ?thesis using Cons(4) False
          by (cases r3; cases "dvMakeDir env") (auto simp del: Get_at.simps simp: g \<open>r1 = Inl e\<close> e(1) m d and_then_def split: if_splits)
      qed
      then show ?thesis using M D(1) none by auto
    next
      case True
      then obtain pd mk where x: "r2 = Inr ()" "r3 = Inr pd" "IsDir pd" "\<not> ObjHasMask pd NoWrite" "dvMakeDir env = Some mk" by blast
      then obtain S where S: "tree (opWorld st3) p = Some S" "den (opWorld st3) pd p" using D(2,3) by (auto simp: found_dir_def)
      have "S n = None" using M x(1) S(1) D(2) e(2) by (cases "tree ?w p") auto
      obtain st4 r4 where c: "call_driver (mk pd n) st3 = (st4, r4)" by fastforce
      note step = make_step_ok[OF L Cons(2) D(1) S(1) \<open>S n = None\<close> S(2) x(5) c]
      have "(st', r) = (case r4 of Inl e \<Rightarrow> if e \<noteq> ObjectAlreadyExists then (st4, Inl e) else (on_caches (after_make_dir env t p n None) st4, Inr ())
        | Inr y \<Rightarrow> (on_caches (after_make_dir env t p n y) st4, Inr ()))"
        using Cons(4) x(3-5) by (simp del: Get_at.simps add: g Inl e(1) m x(1) d x(2) c and_then_def)
      moreover have "opWorld (on_caches f st4) = opWorld st4" for f by (simp add: on_caches_def)
      ultimately show ?thesis using step none by (cases r4) simp_all
    qed
  qed
qed

text \<open>\<open>Put\<close>, with the removal or the renaming of the file it replaces.\<close>

lemma settle_put_ok:
  fixes st :: "('w, 'l) op_st"
  assumes L: "driver_laws env wok tree den" "plain_env env" "lasting env t tend"
    and "normal_comps tmp" "in_order env wok tree den tend st" "settle_put env t renamed tmp name err st = (st', r)"
  shows "in_order env wok tree den tend st'"
proof -
  obtain st1 r1 where a: "Rename_at env t tmp name st = (st1, r1)" by fastforce
  obtain st2 r2 where b: "Remove_at env t tmp st = (st2, r2)" by fastforce
  show ?thesis using assms(5,6) Rename_at_ok[OF L assms(4,5) a] Remove_at_ok[OF L assms(4,5) b]
    by (auto simp: settle_put_def a b split: option.splits if_splits)
qed

lemma put_step_ok:
  fixes st :: "('w, 'l) op_st"
  assumes L: "driver_laws env wok tree den" "plain_env env" "lasting env t tend" "normal_comps p"
    and st: "in_order env wok tree den tend st"
    and put: "call_law wok tree den (opWorld st) (put (opWorld st)) (\<lambda>e. True) (put_effect tree den (pfName file) p (opWorld st))"
      "call_driver put st = (st', r)"
  shows "case r of Inl e \<Rightarrow> in_order env wok tree den tend st'
    | Inr x \<Rightarrow> in_order env wok tree den tend (on_caches (after_put env t p dstPath file x) st')"
proof -
  let ?w = "opWorld st" and ?s = "oeStorage env" and ?n = "pfName file"
  obtain w' r' where w: "put ?w = (w', r')" by fastforce
  have st': "st' = st\<lparr>opWorld := w'\<rparr>" "r = r'" using put(2) w by (simp_all add: call_driver_def)
  note ord = in_order_facts[OF L(1) st] and env = env_facts[OF L(2,3)]
  note law = put(1)[unfolded w]
  show ?thesis
  proof (cases r')
    case (Inl e)
    then show ?thesis using call_failed[OF st] law st' by simp
  next
    case (Inr x)
    then obtain S where w': "wok w'" "name_ok ?n" "tree ?w p = Some S" "S ?n \<noteq> Some True" "tree w' = graft ?n p False no_dir (tree ?w)"
      "keeps (den ?w) (den w') (\<lambda>_. True)" "new_ok (den w') ?n p False x" using law by (auto simp: call_law_def put_effect_def)
    define z where "z = wrapObjName env (case x of None \<Rightarrow> temp_object ?n (pfSize file) (pfModified file) False | Some obj \<Rightarrow> obj)"
    have z: "GetName z = ?n" "IsDir z = False" "\<not> ObjHasMask z Temp \<longrightarrow> den w' (UnwrapObjName z) (?n # p)"
      using new_entry[OF w'(7), of "temp_object ?n (pfSize file) (pfModified file) False" env z] L(2) by (simp_all add: z_def)
    have "S ?n = None \<or> S ?n = Some False" using w'(4) by (cases "S ?n") auto
    moreover have "?n \<noteq> ''''" using w'(2) by (simp add: name_ok_def)
    moreover have "coherent ?s tend (tree ?w) (den ?w) (chDirs (DeleteKey (Key ?s dstPath) (opCaches st)))" using ord(3) by simp
    ultimately have "coherent ?s tend (tree w') (den w') (chDirs (if_cached t (pkey ?s p) (update_dir (pkey ?s p) (UpdateObject ?n z))
        (DeleteKey (Key ?s dstPath) (opCaches st))))"
      unfolding w'(5) by (intro coherent_add[OF _ ord(2) env(1) L(4) w'(3) env(3) w'(6) _ _ z]) auto
    then have "in_order env wok tree den tend (on_caches (after_put env t p dstPath file x) st')" unfolding st' using env(2)
      by (intro in_order_update w'(1)) (simp add: after_put_def Let_def z_def[symmetric] z(1) pkey_def)
    then show ?thesis using Inr st' by simp
  qed
qed

lemma upload_ok:
  fixes st :: "('w, 'l) op_st"
  assumes L: "driver_laws env wok tree den" "plain_env env" "lasting env t tend"
    and n: "normal_comps p" "normal_comps tmp" and ok: "in_order env wok tree den tend st" "upload env t p dstPath file renamed tmp st = (st', r)"
  shows "in_order env wok tree den tend st'"
proof -
  obtain st1 r1 where m: "MakeDir_at env t p st = (st1, r1)" by fastforce
  have ok1: "in_order env wok tree den tend st1" using MakeDir_at_ok[OF L n(1) ok(1) m] by simp
  obtain st2 r2 where g: "GetUnwrap env t p st1 = (st2, r2)" by fastforce
  note G = GetUnwrap_ok[OF L n(1) ok1 g]
  let ?go = "case r1 of Inl e \<Rightarrow> e = ObjectAlreadyExists | Inr _ \<Rightarrow> True"
  show ?thesis
  proof (cases "\<exists>d put. ?go \<and> r2 = Inr d \<and> \<not> ObjHasMask d NoWrite \<and> dvPut env = Some put")
    case False
    then have "st' = st1 \<or> st' = st2" using ok(2) by (auto simp: upload_def m g and_then_def split: sum.splits if_splits option.splits)
    then show ?thesis using ok1 G(1) by blast
  next
    case True
    then obtain d put where x: "?go" "r2 = Inr d" "\<not> ObjHasMask d NoWrite" "dvPut env = Some put" by blast
    have d: "den (opWorld st2) d p" using G(2,3) x(2) by (simp add: found_dir_def)
    obtain st3 r3 where c: "call_driver (put d file) st2 = (st3, r3)" by fastforce
    note step = put_step_ok[OF L n(1) G(1) put_lawD[OF L(1) in_order_facts(1)[OF L(1) G(1)] x(4) d] c, of dstPath]
    have "(st', r) = (case r3 of Inl e \<Rightarrow> settle_put env t renamed tmp (pfName file) (Some e) st3
       | Inr newObj \<Rightarrow> settle_put env t renamed tmp (pfName file) None (on_caches (after_put env t p dstPath file newObj) st3))"
      using ok(2) x by (auto simp: upload_def m g c and_then_def split: sum.splits if_splits)
    then show ?thesis
    proof (cases r3)
      case (Inl e)
      then show ?thesis using step \<open>(st', r) = _\<close> settle_put_ok[OF L n(2), of st3 renamed "pfName file" "Some e" st' r] by simp
    next
      case (Inr y)
      then show ?thesis using step \<open>(st', r) = _\<close>
          settle_put_ok[OF L n(2), of "on_caches (after_put env t p dstPath file y) st3" renamed "pfName file" None st' r] by simp
    qed
  qed
qed

lemma normal_comps_rev [simp]: "normal_comps (comps_rev p)"
  by (simp add: comps_rev_def fix_comps)

lemma Put_at_ok:
  fixes st :: "('w, 'l) op_st"
  assumes L: "driver_laws env wok tree den" "plain_env env" "lasting env t tend"
    and "normal_comps p" "in_order env wok tree den tend st" "Put_at env t p file st = (st', r)"
  shows "in_order env wok tree den tend st'"
proof -
  define dp where "dp = path_join (path_of p) (pfName file)"
  define tp where "tp = comps_rev (path_join (path_of p) (pfName file @ ''.openlist_to_delete''))"
  have n: "normal_comps tp" by (simp add: tp_def)
  have up: "in_order env wok tree den tend s \<Longrightarrow> upload env t p dp file renamed tp s = (s', q) \<Longrightarrow> in_order env wok tree den tend s'"
    for renamed s s' q by (rule upload_ok[OF L assms(4) n])
  obtain st1 r1 where g: "GetUnwrap env t (comps_rev dp) st = (st1, r1)" by fastforce
  have ok1: "in_order env wok tree den tend st1" using GetUnwrap_ok(1)[OF L normal_comps_rev assms(5) g] .
  obtain st2 r2 where a: "Remove_at env t (comps_rev dp) st1 = (st2, r2)" by fastforce
  have ok2: "in_order env wok tree den tend st2" using Remove_at_ok[OF L normal_comps_rev ok1 a] .
  obtain st3 r3 where b: "Rename_at env t (comps_rev dp) (pfName file @ ''.openlist_to_delete'') st1 = (st3, r3)" by fastforce
  have ok3: "in_order env wok tree den tend st3" using Rename_at_ok[OF L normal_comps_rev ok1 b] .
  have run: "(case r1 of Inl e \<Rightarrow> upload env t p dp file False tp st1
      | Inr fi \<Rightarrow> if GetSize fi = 0 then and_then (st2, r2) (\<lambda>st _. upload env t p dp file False tp st)
          else if oeNoOverwrite env then and_then (st3, r3) (\<lambda>st _. upload env t p dp file (GetSize fi > 0) tp st)
          else upload env t p dp file False tp st1) = (st', r)"
    using assms(6) unfolding Put_at_def Let_def dp_def[symmetric] tp_def[symmetric] g a b prod.case .
  show ?thesis
  proof (cases r1)
    case (Inl e)
    then show ?thesis using run up[OF ok1] by simp
  next
    case (Inr fi)
    then show ?thesis using run up[OF ok1] up[OF ok2] up[OF ok3] ok2 ok3
      by (auto simp: and_then_def split: if_splits sum.splits)
  qed
qed

lemma PutURL_at_ok:
  fixes st :: "('w, 'l) op_st"
  assumes L: "driver_laws env wok tree den" "plain_env env" "lasting env t tend"
    and "normal_comps p" "in_order env wok tree den tend st" "PutURL_at env t p n url st = (st', r)"
  shows "in_order env wok tree den tend st'"
proof -
  define dp where "dp = path_join (path_of p) n"
  let ?file = "\<lparr>pfName = n, pfSize = 0, pfModified = t\<rparr>"
  obtain st1 r1 where g: "Get_at env t False (comps_rev dp) st = (st1, r1)" by fastforce
  have ok1: "in_order env wok tree den tend st1" using Get_at_ok[OF L normal_comps_rev assms(5) g] by blast
  obtain st2 r2 where m: "MakeDir_at env t p st1 = (st2, r2)" by fastforce
  have ok2: "in_order env wok tree den tend st2" using MakeDir_at_ok[OF L assms(4) ok1 m] by simp
  obtain st3 r3 where d: "GetUnwrap env t p st2 = (st3, r3)" by fastforce
  note D = GetUnwrap_ok[OF L assms(4) ok2 d]
  have run: "(st', r) = (case r1 of Inr x \<Rightarrow> (st1, Inl ObjectAlreadyExists)
      | Inl e \<Rightarrow> and_then (st2, r2) (\<lambda>st _. and_then (GetUnwrap env t p st) (\<lambda>st dstDir.
          if ObjHasMask dstDir NoWrite then (st, Inl PermissionDenied)
          else case dvPutURL env of None \<Rightarrow> (st, Inl NotImplement) | Some put \<Rightarrow>
            and_then (call_driver (put dstDir n url) st) (\<lambda>st newObj. (on_caches (after_put env t p dp ?file newObj) st, Inr ())))))"
    using assms(6) unfolding PutURL_at_def Let_def dp_def[symmetric] g m prod.case by simp
  show ?thesis
  proof (cases "\<exists>pd put. r3 = Inr pd \<and> \<not> ObjHasMask pd NoWrite \<and> dvPutURL env = Some put")
    case False
    then have "st' = st1 \<or> st' = st2 \<or> st' = st3" using run by (auto simp: and_then_def d split: sum.splits if_splits option.splits)
    then show ?thesis using ok1 ok2 D(1) by blast
  next
    case True
    then obtain pd put where x: "r3 = Inr pd" "\<not> ObjHasMask pd NoWrite" "dvPutURL env = Some put" by blast
    have pd: "den (opWorld st3) pd p" using D(2,3) x(1) by (simp add: found_dir_def)
    obtain st4 r4 where c: "call_driver (put pd n url) st3 = (st4, r4)" by fastforce
    note law = put_url_lawD[OF L(1) in_order_facts(1)[OF L(1) D(1)] x(3) pd, of n url]
    have law': "call_law wok tree den (opWorld st3) (put pd n url (opWorld st3)) (\<lambda>e. True) (put_effect tree den (pfName ?file) p (opWorld st3))"
      using law by simp
    note step = put_step_ok[OF L assms(4) D(1) law' c, of dp]
    show ?thesis
    proof (cases r4)
      case (Inl e)
      then have "st' = st1 \<or> st' = st2 \<or> st' = st4" using run x c d by (auto simp: and_then_def split: sum.splits)
      then show ?thesis using step Inl ok1 ok2 by auto
    next
      case (Inr y)
      then have "st' = st1 \<or> st' = st2 \<or> st' = on_caches (after_put env t p dp ?file y) st4"
        using run x c d by (auto simp: and_then_def split: sum.splits)
      then show ?thesis using step Inr ok1 ok2 by auto
    qed
  qed
qed

lemma DirectUpload_at_ok:
  fixes st :: "('w, 'l) op_st"
  assumes L: "driver_laws env wok tree den" "plain_env env" "lasting env t tend"
    and "normal_comps p" "in_order env wok tree den tend st" "DirectUpload_at env t tool p n sz overwrite st = (st', r)"
  shows "in_order env wok tree den tend st'"
proof -
  obtain st1 r1 where g: "(if overwrite then (st, Inl ObjectNotFound) else Get_at env t False (comps_rev (path_join (path_of p) n)) st) = (st1, r1)"
    by fastforce
  have ok1: "in_order env wok tree den tend st1"
  proof (cases overwrite)
    case False
    then have "Get_at env t False (comps_rev (path_join (path_of p) n)) st = (st1, r1)" using g by simp
    then show ?thesis using Get_at_ok[OF L normal_comps_rev assms(5)] by blast
  qed (use g assms(5) in auto)
  obtain st2 r2 where m: "MakeDir_at env t p st1 = (st2, r2)" by fastforce
  have ok2: "in_order env wok tree den tend st2" using MakeDir_at_ok[OF L assms(4) ok1 m] by simp
  obtain st3 r3 where d: "GetUnwrap env t p st2 = (st3, r3)" by fastforce
  note D = GetUnwrap_ok[OF L assms(4) ok2 d]
  have "st' = st1 \<or> st' = st2 \<or> st' = st3"
    using assms(6) unfolding DirectUpload_at_def Let_def g
    by (cases r1; cases r2) (auto simp: m d and_then_def split: sum.splits if_splits)
  then show ?thesis using ok1 ok2 D(1) by blast
qed

text \<open>A listing shows the directory.\<close>

lemma List_at_ok:
  fixes st :: "('w, 'l) op_st"
  assumes L: "driver_laws env wok tree den" "plain_env env" "lasting env t tend"
    and "normal_comps p" "in_order env wok tree den tend st" "List_at env t refresh p st = (st', r)"
  shows "in_order env wok tree den tend st'" "opWorld st' = opWorld st"
    "case r of Inl e \<Rightarrow> tree (opWorld st) p = None
     | Inr objs \<Rightarrow> \<exists>S. tree (opWorld st) p = Some S \<and> objs_show (den (opWorld st)) p objs S"
proof -
  obtain st1 hit where h: "(if refresh then (st, None) else cached_listing env t (key_of env p) st) = (st1, hit)" by fastforce
  have t: "t \<le> tend" using L(3) by (simp add: lasting_def)
  have H: "in_order env wok tree den tend st1" "opWorld st1 = opWorld st"
    "\<And>objs. hit = Some objs \<Longrightarrow> \<exists>S. tree (opWorld st) p = Some S \<and> objs_show (den (opWorld st)) p objs S"
  proof (atomize (full), cases refresh)
    case True
    then show "in_order env wok tree den tend st1 \<and> opWorld st1 = opWorld st
      \<and> (\<forall>objs. hit = Some objs \<longrightarrow> (\<exists>S. tree (opWorld st) p = Some S \<and> objs_show (den (opWorld st)) p objs S))" using h assms(5) by auto
  next
    case False
    then have c: "cached_listing env t (key_of env p) st = (st1, hit)" using h by simp
    then show "in_order env wok tree den tend st1 \<and> opWorld st1 = opWorld st
      \<and> (\<forall>objs. hit = Some objs \<longrightarrow> (\<exists>S. tree (opWorld st) p = Some S \<and> objs_show (den (opWorld st)) p objs S))"
      using cached_listing_ok(1,2,5)[OF L(2) assms(5) t assms(4) c] by blast
  qed
  show "in_order env wok tree den tend st'" "opWorld st' = opWorld st"
    "case r of Inl e \<Rightarrow> tree (opWorld st) p = None
     | Inr objs \<Rightarrow> \<exists>S. tree (opWorld st) p = Some S \<and> objs_show (den (opWorld st)) p objs S"
  proof (atomize (full), cases hit)
    case (Some objs)
    then have "st' = st1" "r = Inr objs" using assms(6) h by (simp_all add: List_at_def list_with_def)
    then show "in_order env wok tree den tend st' \<and> opWorld st' = opWorld st \<and> (case r of Inl e \<Rightarrow> tree (opWorld st) p = None
       | Inr objs \<Rightarrow> \<exists>S. tree (opWorld st) p = Some S \<and> objs_show (den (opWorld st)) p objs S)" using H Some by simp
  next
    case None
    obtain st2 r2 where g: "GetUnwrap env t p st1 = (st2, r2)" by fastforce
    obtain st3 r3 where f: "fetch_listing env t (GetUnwrap env t p) (path_of p) st1 = (st3, r3)" by fastforce
    note G = GetUnwrap_ok[OF L assms(4) H(1) g]
    note F = fetch_listing_ok[OF L assms(4) g G f]
    have "(st', r) = (st3, r3)" using assms(6) h None f by (simp add: List_at_def list_with_def and_then_def split: sum.splits)
    then show "in_order env wok tree den tend st' \<and> opWorld st' = opWorld st \<and> (case r of Inl e \<Rightarrow> tree (opWorld st) p = None
       | Inr objs \<Rightarrow> \<exists>S. tree (opWorld st) p = Some S \<and> objs_show (den (opWorld st)) p objs S)"
      using F H(2) by (auto split: sum.splits)
  qed
qed

section \<open>Sequences of operations\<close>

datatype op_call =
    ListCall bool string | GetCall bool string | MakeDirCall string | MoveCall string string | RenameCall string string
  | CopyCall string string | RemoveCall string | PutCall string put_file | PutURLCall string string string
  | DirectUploadCall string string string int bool

definition run_call :: "'w op_env \<Rightarrow> int \<Rightarrow> op_call \<Rightarrow> ('w, 'l) op_st \<Rightarrow> ('w, 'l) op_st" where
  "run_call env t c st =
     (case c of
        ListCall refresh path \<Rightarrow> fst (op_List env t refresh path st)
      | GetCall ex path \<Rightarrow> fst (op_Get env t ex path st)
      | MakeDirCall path \<Rightarrow> fst (op_MakeDir env t path st)
      | MoveCall src dst \<Rightarrow> fst (op_Move env t src dst st)
      | RenameCall src name \<Rightarrow> fst (op_Rename env t src name st)
      | CopyCall src dst \<Rightarrow> fst (op_Copy env t src dst st)
      | RemoveCall path \<Rightarrow> fst (op_Remove env t path st)
      | PutCall dst file \<Rightarrow> fst (op_Put env t dst file st)
      | PutURLCall dst name url \<Rightarrow> fst (op_PutURL env t dst name url st)
      | DirectUploadCall tool dst name sz overwrite \<Rightarrow> fst (GetDirectUploadInfo env t tool dst name sz overwrite st))"

definition run_calls :: "'w op_env \<Rightarrow> (int \<times> op_call) list \<Rightarrow> ('w, 'l) op_st \<Rightarrow> ('w, 'l) op_st" where
  "run_calls env calls st = fold (\<lambda>(t, c). run_call env t c) calls st"

definition fresh :: "'w \<Rightarrow> ('w, 'l) op_st" where
  "fresh w = \<lparr>opWorld = w, opCaches = \<lparr>chDirs = [], chLinks = (\<lambda>_. Map.empty)\<rparr>\<rparr>"

text \<open>Calls within the time for which listings are kept; a copy is not of the root.\<close>

definition call_fits :: "'w op_env \<Rightarrow> int \<Rightarrow> int \<times> op_call \<Rightarrow> bool" where
  "call_fits env tend tc \<longleftrightarrow> lasting env (fst tc) tend \<and> (case snd tc of CopyCall src dst \<Rightarrow> comps_rev src \<noteq> [] | _ \<Rightarrow> True)"

lemma checked_ok:
  assumes "in_order env wok tree den tend st" "\<And>st' r. f st = (st', r) \<Longrightarrow> in_order env wok tree den tend st'"
  shows "in_order env wok tree den tend (fst (checked env f st))"
  using assms by (cases "f st") (auto simp: checked_def)

lemma run_call_ok:
  fixes st :: "('w, 'l) op_st"
  assumes L: "driver_laws env wok tree den" "plain_env env" "call_fits env tend (t, c)" and st: "in_order env wok tree den tend st"
  shows "in_order env wok tree den tend (run_call env t c st)"
proof -
  have T: "lasting env t tend" using L(3) by (simp add: call_fits_def)
  note k = checked_ok[OF st]
  show ?thesis
  proof (cases c)
    case (ListCall refresh p)
    show ?thesis unfolding ListCall run_call_def op_List_def op_call.case by (rule k) (rule List_at_ok(1)[OF L(1,2) T normal_comps_rev st])
  next
    case (GetCall ex p)
    show ?thesis unfolding GetCall run_call_def op_Get_def op_call.case
      by (rule k) (rule conjunct1[OF Get_at_ok[OF L(1,2) T normal_comps_rev st]])
  next
    case (MakeDirCall p)
    show ?thesis unfolding MakeDirCall run_call_def op_MakeDir_def op_call.case
      by (rule k) (rule conjunct1[OF MakeDir_at_ok[OF L(1,2) T normal_comps_rev st]])
  next
    case (MoveCall a b)
    show ?thesis unfolding MoveCall run_call_def op_Move_def op_call.case
      by (rule k) (rule Move_at_ok[OF L(1,2) T normal_comps_rev normal_comps_rev st])
  next
    case (RenameCall a b)
    show ?thesis unfolding RenameCall run_call_def op_Rename_def op_call.case by (rule k) (rule Rename_at_ok[OF L(1,2) T normal_comps_rev st])
  next
    case (CopyCall a b)
    then obtain n p where a: "comps_rev a = n # p" using L(3) by (cases "comps_rev a") (auto simp: call_fits_def)
    have "normal_comps (n # p)" using normal_comps_rev[of a] a by simp
    then show ?thesis unfolding CopyCall run_call_def op_Copy_def op_call.case a
      by (intro k) (rule Copy_at_ok[OF L(1,2) T _ normal_comps_rev st])
  next
    case (RemoveCall p)
    show ?thesis unfolding RemoveCall run_call_def op_Remove_def op_call.case by (rule k) (rule Remove_at_ok[OF L(1,2) T normal_comps_rev st])
  next
    case (PutCall a f)
    show ?thesis unfolding PutCall run_call_def op_Put_def op_call.case by (rule k) (rule Put_at_ok[OF L(1,2) T normal_comps_rev st])
  next
    case (PutURLCall a n u)
    show ?thesis unfolding PutURLCall run_call_def op_PutURL_def op_call.case by (rule k) (rule PutURL_at_ok[OF L(1,2) T normal_comps_rev st])
  next
    case (DirectUploadCall tool a n sz ov)
    have "in_order env wok tree den tend (fst (checked env (DirectUpload_at env t tool (comps_rev a) n sz ov) st))"
      by (rule k) (rule DirectUpload_at_ok[OF L(1,2) T normal_comps_rev st])
    then show ?thesis using st by (simp add: DirectUploadCall run_call_def GetDirectUploadInfo_def)
  qed
qed

lemma fresh_ok: "wok w \<Longrightarrow> in_order env wok tree den tend (fresh w)"
  by (simp add: in_order_def fresh_def coherent_def cached_def)

lemma run_calls_ok:
  assumes "driver_laws env wok tree den" "plain_env env" "list_all (call_fits env tend) calls" "in_order env wok tree den tend st"
  shows "in_order env wok tree den tend (run_calls env calls st)"
  using assms(3,4) by (induction calls arbitrary: st) (auto simp: run_calls_def run_call_ok[OF assms(1,2)])

text \<open>C36: Listings show the driver.  Take a storage that is cached, lists by \<open>List\<close> alone, and maps no characters, and a
  driver that keeps the laws: what it lists is its tree, a call that fails changes nothing, and one that succeeds
  does just what it says, onto a name that was free (a file that is put or copied may replace a file).  If the
  tree changes by these operations only, then after any of them, for as long as the first listing lives, a
  listing, from the cache or not, has the names and kinds that the driver has at that time, and it fails just
  for a path that is not of a directory.\<close>

theorem listings_show_the_driver:
  fixes st :: "('w, 'l) op_st"
  assumes "driver_laws env wok tree den" "plain_env env" "wok w" "list_all (call_fits env tend) calls" "lasting env t tend"
    and "st = run_calls env calls (fresh w)" "oeCheckStatus env \<longrightarrow> Status (oeStorage env) = ''work''"
    and "op_List env t refresh path st = (st', r)"
  shows "case r of
      Inl e \<Rightarrow> tree (opWorld st) (comps_rev path) = None
    | Inr objs \<Rightarrow> distinct (map GetName objs) \<and> tree (opWorld st) (comps_rev path) = Some (map_of (kinds objs))"
proof -
  have ok: "in_order env wok tree den tend st" unfolding assms(6) by (rule run_calls_ok[OF assms(1,2,4) fresh_ok[of wok w, OF assms(3)]])
  have "List_at env t refresh (comps_rev path) st = (st', r)" using assms(7,8) by (auto simp: op_List_def checked_def)
  note L = List_at_ok(3)[OF assms(1,2,5) normal_comps_rev ok this]
  show ?thesis using L by (cases r) (auto simp: objs_show_def)
qed

text \<open>C37: Lookups show the driver: for such a storage, driver and time (see the listings above), \<open>Get\<close> of a path other
  than the root finds just the entries that the driver has after the operations, and answers
  \<open>ObjectNotFound\<close> for the others.\<close>

theorem lookups_show_the_driver:
  fixes st :: "('w, 'l) op_st"
  assumes "driver_laws env wok tree den" "plain_env env" "wok w" "list_all (call_fits env tend) calls" "lasting env t tend"
    and "st = run_calls env calls (fresh w)" "oeCheckStatus env \<longrightarrow> Status (oeStorage env) = ''work''" "comps_rev path = name # dir"
    and "op_Get env t excludeTemp path st = (st', r)"
  shows "case r of
      Inl e \<Rightarrow> e = ObjectNotFound \<and> Option.bind (tree (opWorld st) dir) (\<lambda>S. S name) = None
    | Inr x \<Rightarrow> GetName x = name \<and> Option.bind (tree (opWorld st) dir) (\<lambda>S. S name) = Some (IsDir x)"
proof -
  have ok: "in_order env wok tree den tend st" unfolding assms(6) by (rule run_calls_ok[OF assms(1,2,4) fresh_ok[of wok w, OF assms(3)]])
  have "normal_comps (name # dir)" using normal_comps_rev[of path] assms(8) by simp
  moreover have "Get_at env t excludeTemp (name # dir) st = (st', r)" using assms(7-9) by (auto simp: op_Get_def checked_def)
  ultimately have "got (oeStorage env) (tree (opWorld st)) (den (opWorld st)) excludeTemp (name # dir) (opDirs st') r"
    using Get_at_ok[OF assms(1,2,5) _ ok] by blast
  then show ?thesis by (cases "tree (opWorld st) dir"; cases r) (auto simp: got_def)
qed

text \<open>A run on the driver in memory.\<close>

definition demo_env :: "mem op_env" where
  "demo_env = mem_env (demo_storage ''/m'')"

definition demo_file :: "string \<Rightarrow> put_file" where
  "demo_file n = \<lparr>pfName = n, pfSize = 1, pfModified = 0\<rparr>"

definition demo_calls :: "(int \<times> op_call) list" where
  "demo_calls = [(0, MakeDirCall ''/a/b''), (1, PutCall ''/a'' (demo_file ''f'')), (2, ListCall False ''/a''), (3, ListCall False ''/a/b''),
     (4, CopyCall ''/a/f'' ''/a/b''), (4, RenameCall ''/a/f'' ''g''), (4, MoveCall ''/a/b/f'' ''/''), (5, MoveCall ''/f'' ''/a''),
     (5, RemoveCall ''/a/b'')]"

definition demo_run :: "(mem, unit) op_st" where
  "demo_run = run_calls demo_env demo_calls (fresh [])"

lemma demo_env_plain: "plain_env demo_env"
proof -
  have "mount_normal (demo_storage ''/m'')" by code_simp
  then show ?thesis by (simp add: plain_env_def demo_env_def mem_env_def sorter_law_def)
qed

lemma demo_lasting: "0 \<le> t \<Longrightarrow> t \<le> 9 \<Longrightarrow> lasting demo_env t 9"
  by (simp add: lasting_def list_ttl_def demo_env_def mem_env_def demo_storage_def wrap64_def)

lemma demo_calls_fit: "list_all (call_fits demo_env 9) demo_calls"
proof -
  have "comps_rev ''/a/f'' \<noteq> []" by code_simp
  then show ?thesis by (simp add: demo_calls_def call_fits_def demo_lasting)
qed

lemma demo_start: "mem_ok []"
  by (simp add: mem_ok_def map_ok_def)

lemma demo_online: "oeCheckStatus demo_env \<longrightarrow> Status (oeStorage demo_env) = ''work''"
  by (simp add: demo_env_def mem_env_def)

theorem listings_show_the_driver_witness:
  "mem_tree (opWorld demo_run) [''a''] = Some (map_of [(''g'', False), (''f'', False)])"
proof -
  obtain st' r where l: "op_List demo_env 5 False ''/a'' demo_run = (st', r)" by fastforce
  have "map_sum id kinds (snd (op_List demo_env 5 False ''/a'' demo_run)) = Inr [(''g'', False), (''f'', False)]" by code_simp
  then obtain objs where r: "r = Inr objs" "kinds objs = [(''g'', False), (''f'', False)]" using l by (cases r) auto
  have c: "comps_rev ''/a'' = [''a'']" by code_simp
  show ?thesis using listings_show_the_driver[of demo_env mem_ok mem_tree mem_den "[]" 9 demo_calls 5 demo_run False "''/a''" st' r,
      OF mem_laws[of "demo_storage ''/m''", folded demo_env_def] demo_env_plain demo_start demo_calls_fit _ demo_run_def demo_online l] r c
    by (simp add: demo_lasting)
qed

theorem lookups_show_the_driver_witness:
  "Option.bind (mem_tree (opWorld demo_run) [''a'']) (\<lambda>S. S ''b'') = None"
proof -
  obtain st' r where g: "op_Get demo_env 5 True ''/a/b'' demo_run = (st', r)" by fastforce
  have "map_sum id GetName (snd (op_Get demo_env 5 True ''/a/b'' demo_run)) = Inl ObjectNotFound" by code_simp
  then have r: "r = Inl ObjectNotFound" using g by (cases r) auto
  have c: "comps_rev ''/a/b'' = [''b'', ''a'']" by code_simp
  show ?thesis using lookups_show_the_driver[of demo_env mem_ok mem_tree mem_den "[]" 9 demo_calls 5 demo_run "''/a/b''" "''b''" "[''a'']" True st' r,
      OF mem_laws[of "demo_storage ''/m''", folded demo_env_def] demo_env_plain demo_start demo_calls_fit _ demo_run_def demo_online c g] r
    by (simp add: demo_lasting)
qed

end
