(* ===== verification/Op_Limits.thy ===== *)
theory Op_Limits imports Op_Refine begin

text \<open>
  Where the operations of a storage do less than they mean to: each lemma is a run of the model on the driver
  in memory, or on a listing of a few objects.
\<close>

section \<open>Listings\<close>

text \<open>After an object has been added to a listing and then one removed, the sorted copy is no longer sorted: it is
  made anew from the objects in the order in which they were added.\<close>

definition demo_listing :: dir_cache where
  "demo_listing = newDirectoryCache [mem_obj [''bb''] False, mem_obj [''ccc''] False]"

definition shown :: "dir_cache \<Rightarrow> dir_cache \<times> string list" where
  "shown dc = map_prod id (map GetName) (GetSortedObjects (oeSorter demo_env) True ((oeStorage demo_env)\<lparr>OrderBy := ''name''\<rparr>) dc)"

lemma sorted_order_is_lost:
  "snd (shown (UpdateObject '''' (mem_obj [''a''] False) demo_listing)) = [''a'', ''bb'', ''ccc'']"
  "snd (shown (RemoveObject ''ccc'' (fst (shown (UpdateObject '''' (mem_obj [''a''] False) demo_listing))))) = [''bb'', ''a'']"
  by code_simp+

text \<open>A rename onto a name that is in the directory, which replaces that object on many drivers, leaves two
  objects of the name in the listing.\<close>

lemma rename_onto_existing_shows_two:
  "map GetName (dcObjs (UpdateObject ''bb'' (ObjWrapName ''ccc'' (mem_obj [''bb''] False)) demo_listing)) = [''ccc'', ''ccc'']"
  by code_simp

section \<open>Operations\<close>

text \<open>A driver that cannot list at the moment: the removal of a file reports success, and the file is there.\<close>

definition broken_env :: "mem op_env" where
  "broken_env = demo_env\<lparr>dvList := (\<lambda>d w. Inl (OpOther ''timeout''))\<rparr>"

lemma remove_succeeds_when_listing_fails:
  "snd (op_List broken_env 0 False ''/'' (fresh [([''f''], False)] :: (mem, unit) op_st)) = Inl (OpOther ''timeout'')"
  "map_prod opWorld id (op_Remove broken_env 0 ''/f'' (fresh [([''f''], False)] :: (mem, unit) op_st)) = ([([''f''], False)], Inr ())"
  by code_simp+

text \<open>A driver that finds single objects by itself: the listing of the parent need not be cached, and then the
  listing of a removed directory stays.\<close>

definition getter_env :: "mem op_env" where
  "getter_env = demo_env\<lparr>dvGetter := Some (\<lambda>path w.
     case map_of w (comps_rev path) of None \<Rightarrow> Inl ObjectNotFound | Some b \<Rightarrow> Inr (mem_obj (comps_rev path) b))\<rparr>"

definition getter_run :: "(mem, unit) op_st" where
  "getter_run = run_calls getter_env [(0, ListCall False ''/d''), (1, RemoveCall ''/d'')] (fresh [([''d''], True), ([''f'', ''d''], False)])"

lemma removed_directory_is_listed:
  "opWorld getter_run = []"
  "map_sum id kinds (snd (op_List getter_env 2 False ''/d'' getter_run)) = Inr [(''f'', False)]"
  by code_simp+

text \<open>A storage that cannot overwrite: a file is put out of the way, and when the upload is refused before it starts, it
  stays there.\<close>

definition no_write_env :: "mem op_env" where
  "no_write_env = demo_env\<lparr>oeNoOverwrite := True,
     dvRoot := GetRooter (\<lambda>w. Inr (ObjWrapMask (mem_obj [] True) NoWrite))\<rparr>"

lemma refused_upload_moves_the_file_away:
  "map_prod opWorld id (op_Put no_write_env 0 ''/'' (demo_file ''f'') (fresh [([''f''], False)] :: (mem, unit) op_st))
     = ([([''f.openlist_to_delete''], False)], Inl PermissionDenied)"
  by code_simp

end
