(* ===== verification/Http_Range.thy ===== *)
theory Http_Range imports Go_Path begin

text \<open>
  Byte ranges, \<open>pkg/http_range\<close>: the header of a request is parsed into ranges of the content, and a range is
  written as the header of a request to a storage provider.
\<close>

record http_range =
  Start :: int
  Length :: int

datatype range_err = ErrNoOverlap | ErrInvalid

definition ContentRange :: "http_range \<Rightarrow> int \<Rightarrow> string" where
  "ContentRange r size0 = ''bytes '' @ format_int (Start r) @ ''-'' @ format_int (wrap64 (wrap64 (Start r + Length r) - 1)) @ ''/'' @ format_int size0"

section \<open>Parsing a header\<close>

text \<open>\<open>bytes=-n\<close>: the last \<open>n\<close> bytes.\<close>

definition parse_suffix :: "int \<Rightarrow> string \<Rightarrow> range_err + http_range option" where
  "parse_suffix size0 end0 =
     (if end0 = '''' \<or> hd end0 = CHR ''-'' then Inl ErrInvalid
      else case parse_int end0 of
        None \<Rightarrow> Inl ErrInvalid
      | Some i \<Rightarrow> if i < 0 then Inl ErrInvalid
          else let i = (if i > size0 then size0 else i); start = wrap64 (size0 - i)
               in Inr (Some \<lparr>Start = start, Length = wrap64 (size0 - start)\<rparr>))"

text \<open>\<open>bytes=a-b\<close> or \<open>bytes=a-\<close>; \<^const>\<open>None\<close> is a range behind the content, which is left out.\<close>

definition parse_from :: "int \<Rightarrow> string \<Rightarrow> string \<Rightarrow> range_err + http_range option" where
  "parse_from size0 start end0 =
     (case parse_int start of
        None \<Rightarrow> Inl ErrInvalid
      | Some i \<Rightarrow>
          if i < 0 then Inl ErrInvalid
          else if i \<ge> size0 then Inr None
          else if end0 = '''' then Inr (Some \<lparr>Start = i, Length = wrap64 (size0 - i)\<rparr>)
          else (case parse_int end0 of
            None \<Rightarrow> Inl ErrInvalid
          | Some j \<Rightarrow>
              if i > j then Inl ErrInvalid
              else let j = (if j \<ge> size0 then wrap64 (size0 - 1) else j)
                   in Inr (Some \<lparr>Start = i, Length = wrap64 (wrap64 (j - i) + 1)\<rparr>)))"

fun parse_ranges :: "int \<Rightarrow> string list \<Rightarrow> http_range list \<Rightarrow> bool \<Rightarrow> range_err + http_range list" where
  "parse_ranges size0 [] ranges noOverlap = (if noOverlap \<and> ranges = [] then Inl ErrNoOverlap else Inr ranges)"
| "parse_ranges size0 (ra # ras) ranges noOverlap =
     (let ra = trim_string ra in
      if ra = '''' then parse_ranges size0 ras ranges noOverlap
      else case cut_char (CHR ''-'') ra of
        None \<Rightarrow> Inl ErrInvalid
      | Some (before, after) \<Rightarrow>
          (let start = trim_string before; end0 = trim_string after
           in case (if start = '''' then parse_suffix size0 end0 else parse_from size0 start end0) of
                Inl e \<Rightarrow> Inl e
              | Inr None \<Rightarrow> parse_ranges size0 ras ranges True
              | Inr (Some r) \<Rightarrow> parse_ranges size0 ras (ranges @ [r]) noOverlap))"

definition ParseRange :: "string \<Rightarrow> int \<Rightarrow> range_err + http_range list" where
  "ParseRange s size0 =
     (if s = '''' then Inr []
      else if \<not> has_prefix s ''bytes='' then Inl ErrInvalid
      else parse_ranges size0 (split_char (CHR '','') (drop (length ''bytes='') s)) [] False)"

text \<open>The range of a response: \<^const>\<open>None\<close> is the panic of a slice whose end is before its start.  The numbers are
  those of \<open>strconv.ParseInt\<close>, which are 0 or the nearest bound in case of an error.\<close>

definition parse_int_val :: "string \<Rightarrow> int \<times> bool" where
  "parse_int_val s =
     (case parse_int s of
        Some v \<Rightarrow> (v, True)
      | None \<Rightarrow>
          let neg = has_prefix s ''-''; ds = (if has_prefix s ''-'' \<or> has_prefix s ''+'' then tl s else s)
          in (if ds = [] \<or> digits_val 0 ds = None then 0 else if neg then - (2 ^ 63) else 2 ^ 63 - 1, False))"

definition ParseContentRange :: "string \<Rightarrow> (int \<times> int \<times> bool) option" where
  "ParseContentRange s =
     (if s = '''' \<or> \<not> has_prefix s ''bytes '' then Some (0, 0, False)
      else case (index_char (CHR ''-'') s, index_char (CHR ''/'') s) of
        (Some p1, Some p2) \<Rightarrow>
          if p2 < p1 + 1 then None
          else let (start, ok1) = parse_int_val (trim_string (drop (length ''bytes '') (take p1 s)));
                   (end0, ok2) = parse_int_val (trim_string (drop (p1 + 1) (take p2 s)))
               in Some (start, end0, ok1 \<and> ok2)
      | _ \<Rightarrow> Some (0, 0, False))"

text \<open>The header \<open>Range\<close> of a request: \<^const>\<open>None\<close> when it is deleted.\<close>

definition ApplyRangeToHttpHeader :: "http_range \<Rightarrow> string option" where
  "ApplyRangeToHttpHeader p =
     (if Start p = 0 \<and> Length p < 0 then None
      else Some (''bytes='' @ format_int (Start p) @ ''-''
        @ (if Length p \<ge> 0 then format_int (wrap64 (wrap64 (Start p + Length p) - 1)) else '''')))"

section \<open>Ranges lie within the content\<close>

definition range_in :: "int \<Rightarrow> http_range \<Rightarrow> bool" where
  "range_in size0 r \<longleftrightarrow> 0 \<le> Start r \<and> 0 \<le> Length r \<and> Start r + Length r \<le> size0"

lemma int64_between: "int64_range s \<Longrightarrow> 0 \<le> x \<Longrightarrow> x \<le> s \<Longrightarrow> int64_range x"
  by (simp add: int64_range_def)

lemma parse_suffix_in:
  assumes "0 \<le> size0" "int64_range size0" "parse_suffix size0 e = Inr (Some r)"
  shows "range_in size0 r"
proof -
  obtain i where i: "parse_int e = Some i" "0 \<le> i" using assms(3) by (auto simp: parse_suffix_def split: if_splits option.splits)
  define k where "k = (if i > size0 then size0 else i)"
  have k: "0 \<le> k" "k \<le> size0" using i(2) assms(1) by (auto simp: k_def)
  have r: "r = \<lparr>Start = wrap64 (size0 - k), Length = wrap64 (size0 - wrap64 (size0 - k))\<rparr>"
    using assms(3) i by (simp add: parse_suffix_def Let_def k_def split: if_splits)
  have "wrap64 (size0 - k) = size0 - k" "wrap64 k = k" using int64_between[OF assms(2)] k by (auto intro!: wrap64_id)
  then show ?thesis using r k by (simp add: range_in_def)
qed

lemma parse_from_in:
  assumes "int64_range size0" "parse_from size0 s e = Inr (Some r)"
  shows "range_in size0 r \<and> 0 < Length r"
proof -
  note w = wrap64_id[OF int64_between[OF assms(1)]]
  obtain i where i: "parse_int s = Some i" "0 \<le> i" "i < size0" using assms(2) by (auto simp: parse_from_def split: if_splits option.splits)
  show ?thesis
  proof (cases "e = ''''")
    case True
    then show ?thesis using assms(2) i w[of "size0 - i"] by (auto simp: parse_from_def range_in_def)
  next
    case False
    then obtain j where j: "parse_int e = Some j" "i \<le> j" using assms(2) i by (auto simp: parse_from_def split: if_splits option.splits)
    define k where "k = (if j \<ge> size0 then size0 - 1 else j)"
    have k: "i \<le> k" "k < size0" using i j(2) by (auto simp: k_def)
    have "r = \<lparr>Start = i, Length = wrap64 (wrap64 ((if j \<ge> size0 then wrap64 (size0 - 1) else j) - i) + 1)\<rparr>"
      using assms(2) False i j by (simp add: parse_from_def Let_def split: if_splits)
    moreover have "wrap64 (size0 - 1) = size0 - 1" using w[of "size0 - 1"] i by simp
    ultimately have "r = \<lparr>Start = i, Length = wrap64 (wrap64 (k - i) + 1)\<rparr>" by (simp add: k_def split: if_splits)
    moreover have "wrap64 (wrap64 (k - i) + 1) = k - i + 1" using w[of "k - i"] w[of "k - i + 1"] k i by simp
    ultimately show ?thesis using i k by (simp add: range_in_def)
  qed
qed

lemma parse_ranges_in:
  assumes "0 \<le> size0" "int64_range size0"
  shows "parse_ranges size0 ras rs b = Inr rs' \<Longrightarrow> list_all (range_in size0) rs \<Longrightarrow> list_all (range_in size0) rs'"
proof (induction ras arbitrary: rs b)
  case Nil
  then show ?case by (auto split: if_splits)
next
  case (Cons ra ras)
  show ?case
  proof (cases "trim_string ra = ''''")
    case True
    then show ?thesis using Cons by (simp add: Let_def)
  next
    case False
    then obtain a c where ac: "cut_char (CHR ''-'') (trim_string ra) = Some (a, c)" using Cons(2) by (auto simp: Let_def split: option.splits)
    define o1 where "o1 = (if trim_string a = '''' then parse_suffix size0 (trim_string c) else parse_from size0 (trim_string a) (trim_string c))"
    have run: "(case o1 of Inl e \<Rightarrow> Inl e | Inr None \<Rightarrow> parse_ranges size0 ras rs True | Inr (Some r) \<Rightarrow> parse_ranges size0 ras (rs @ [r]) b) = Inr rs'"
      using Cons(2) False ac by (simp add: Let_def o1_def split: if_splits)
    have "range_in size0 r" if "o1 = Inr (Some r)" for r
      using that parse_suffix_in[OF assms] parse_from_in[OF assms(2)] by (auto simp: o1_def split: if_splits)
    then show ?thesis using run Cons(1)[of rs True] Cons(1)[of "rs @ [_]" b] Cons(3) by (auto split: sum.splits option.splits)
  qed
qed

text \<open>Every range that a header is parsed into lies within the content.\<close>

lemma ParseRange_within_content:
  assumes "0 \<le> size0" "int64_range size0" "ParseRange s size0 = Inr rs"
  shows "list_all (range_in size0) rs"
  using assms(3) parse_ranges_in[OF assms(1,2)] by (auto simp: ParseRange_def split: if_splits)

section \<open>A range that is sent comes back\<close>

lemma is_digit_no_ws: "is_digit c \<Longrightarrow> \<not> ascii_ws c"
  by (auto simp: ascii_ws_def)

lemma range_spec_trim:
  assumes "\<And>c. c \<in> set a \<Longrightarrow> is_digit c" "\<And>c. c \<in> set b \<Longrightarrow> is_digit c"
  shows "trim_string (a @ CHR ''-'' # b) = a @ CHR ''-'' # b" "trim_string a = a" "trim_string b = b" "cut_char (CHR ''-'') (a @ CHR ''-'' # b) = Some (a, b)"
    "split_char (CHR '','') (a @ CHR ''-'' # b) = [a @ CHR ''-'' # b]"
proof -
  have "\<not> ascii_ws (CHR ''-'')" by (simp add: ascii_ws_def)
  then show "trim_string (a @ CHR ''-'' # b) = a @ CHR ''-'' # b" "trim_string a = a" "trim_string b = b"
    using assms is_digit_no_ws by (auto intro!: trim_string_id)
  have "CHR ''-'' \<notin> set a" using assms(1) is_digit_not(1) by blast
  then show "cut_char (CHR ''-'') (a @ CHR ''-'' # b) = Some (a, b)" by (rule cut_char_append)
  have "CHR '','' \<notin> set (a @ CHR ''-'' # b)" using assms(1)[of "CHR '',''"] assms(2)[of "CHR '',''"] is_digit_not(5) by auto
  then show "split_char (CHR '','') (a @ CHR ''-'' # b) = [a @ CHR ''-'' # b]" by (rule split_char_single)
qed

lemma parse_one:
  assumes "a \<noteq> ''''" "\<And>c. c \<in> set a \<Longrightarrow> is_digit c" "\<And>c. c \<in> set b \<Longrightarrow> is_digit c" "parse_from size0 a b = Inr (Some r)"
  shows "ParseRange (''bytes='' @ a @ CHR ''-'' # b) size0 = Inr [r]"
  using range_spec_trim[OF assms(2,3)] assms(1,4) by (simp add: ParseRange_def)

text \<open>The header that is sent for a range of the content is parsed into that range, with its end if it has none.\<close>

theorem ApplyRange_ParseRange:
  assumes "int64_range size0" "0 \<le> Start p" "Start p < size0" "Length p \<noteq> 0" "Start p + Length p \<le> size0"
    and "ApplyRangeToHttpHeader p = Some h"
  shows "ParseRange h size0 = Inr [if Length p < 0 then p\<lparr>Length := size0 - Start p\<rparr> else p]"
proof -
  note w = wrap64_id[OF int64_between[OF assms(1)]]
  let ?a = "format_int (Start p)"
  have s: "int64_range (Start p)" "parse_int ?a = Some (Start p)" using int64_between[OF assms(1)] assms(2,3) by (simp_all add: parse_format_int)
  have da: "c \<in> set ?a \<Longrightarrow> is_digit c" for c using format_int_nonneg_chars assms(2) by blast
  show ?thesis
  proof (cases "Length p < 0")
    case True
    then have h: "h = ''bytes='' @ ?a @ CHR ''-'' # ''''" using assms(6) by (auto simp: ApplyRangeToHttpHeader_def split: if_splits)
    have "parse_from size0 ?a '''' = Inr (Some (p\<lparr>Length := size0 - Start p\<rparr>))"
      using s assms(2,3) w[of "size0 - Start p"] by (simp add: parse_from_def)
    then show ?thesis unfolding h using parse_one[of ?a "''''" size0] da True by simp
  next
    case False
    define j where "j = Start p + Length p - 1"
    have j: "0 \<le> j" "Start p \<le> j" "j < size0" using False assms by (auto simp: j_def)
    have wj: "wrap64 (wrap64 (Start p + Length p) - 1) = j" using w[of "Start p + Length p"] w[of j] j assms(2,5) by (simp add: j_def)
    then have h: "h = ''bytes='' @ ?a @ CHR ''-'' # format_int j" using assms(6) False by (simp add: ApplyRangeToHttpHeader_def split: if_splits)
    have "int64_range j" using int64_between[OF assms(1)] j by simp
    then have pj: "parse_int (format_int j) = Some j" by (rule parse_format_int)
    have "wrap64 (wrap64 (j - Start p) + 1) = Length p" using w[of "j - Start p"] w[of "Length p"] j assms(2,5) by (simp add: j_def)
    then have "parse_from size0 ?a (format_int j) = Inr (Some p)" using s pj j assms(2,3) by (simp add: parse_from_def)
    moreover have "c \<in> set (format_int j) \<Longrightarrow> is_digit c" for c using format_int_nonneg_chars j(1) by blast
    ultimately show ?thesis unfolding h using parse_one[of ?a "format_int j" size0] da False by simp
  qed
qed

text \<open>A range of no bytes cannot be written: its header ends before it starts.\<close>

lemma empty_range_is_invalid:
  "ApplyRangeToHttpHeader \<lparr>Start = 5, Length = 0\<rparr> = Some ''bytes=5-4'' \<and> ParseRange ''bytes=5-4'' 10 = Inl ErrInvalid"
  by code_simp

text \<open>A response with the parts of its range in the wrong order stops the goroutine that reads it.\<close>

lemma content_range_panics: "ParseContentRange ''bytes */10-'' = None"
  by code_simp

end
