(* ===== verification/Serve_Content.thy ===== *)
theory Serve_Content imports Http_Range begin

text \<open>
  Serving content over HTTP, \<open>internal/net/serve.go\<close> and \<open>internal/net/util.go\<close>: the preconditions of RFC 7232, the ranges of
  RFC 7233, and the copying of the bytes that a range reader gives.  Times are in nanoseconds since the epoch;
  the zero time is \<^const>\<open>None\<close>.  Left out are the header \<open>Last-Modified\<close> of the answer and the removal of the
  checked headers from the request.
\<close>

section \<open>Entity tags\<close>

fun scan_quoted :: "string \<Rightarrow> (string \<times> string) option" where
  "scan_quoted [] = None"
| "scan_quoted (c # cs) =
     (if c = CHR 0x22 then Some ([c], cs)
      else if c = CHR 0x21 \<or> (0x23 \<le> (of_char c :: nat) \<and> (of_char c :: nat) \<le> 0x7E) \<or> 0x80 \<le> (of_char c :: nat)
        then map_option (\<lambda>(a, b). (c # a, b)) (scan_quoted cs)
      else None)"

definition scanETag :: "string \<Rightarrow> string \<times> string" where
  "scanETag s =
     (let s = trim_string s; start = (if has_prefix s ''W/'' then 2 else 0)
      in if length (drop start s) < 2 \<or> s ! start \<noteq> CHR 0x22 then ('''', '''')
         else case scan_quoted (drop (start + 1) s) of
           None \<Rightarrow> ('''', '''')
         | Some (q, remain) \<Rightarrow> (take (start + 1) s @ q, remain))"

definition etagStrongMatch :: "string \<Rightarrow> string \<Rightarrow> bool" where
  "etagStrongMatch a b \<longleftrightarrow> a = b \<and> a \<noteq> '''' \<and> hd a = CHR 0x22"

definition etagWeakMatch :: "string \<Rightarrow> string \<Rightarrow> bool" where
  "etagWeakMatch a b \<longleftrightarrow> trim_prefix a ''W/'' = trim_prefix b ''W/''"

lemma scan_quoted_length: "scan_quoted s = Some (a, b) \<Longrightarrow> length b < length s"
  by (induction s arbitrary: a b) (auto split: if_splits)

lemma trim_string_length: "length (trim_string s) \<le> length s"
  using length_dropWhile_le[of ascii_ws "rev (dropWhile ascii_ws s)"] length_dropWhile_le[of ascii_ws s] by (simp add: trim_string_def)

lemma scanETag_length: "scanETag s = (t, r) \<Longrightarrow> t \<noteq> '''' \<Longrightarrow> length r < length s"
proof -
  assume a: "scanETag s = (t, r)" "t \<noteq> ''''"
  define k where "k = (if has_prefix (trim_string s) ''W/'' then 2 else 0 :: nat)"
  obtain q where "scan_quoted (drop (k + 1) (trim_string s)) = Some (q, r)"
    using a by (auto simp: scanETag_def Let_def k_def split: if_splits option.splits)
  then have "length r < length (drop (k + 1) (trim_string s))" by (rule scan_quoted_length)
  then show "length r < length s" using trim_string_length[of s] by simp
qed

text \<open>The list of tags of \<open>If-Match\<close> or \<open>If-None-Match\<close>: whether one of them matches.\<close>

function (sequential) some_etag :: "(string \<Rightarrow> bool) \<Rightarrow> string \<Rightarrow> bool" where
  "some_etag matches s =
     (let s = trim_string s in
      if s = '''' then False
      else if hd s = CHR '','' then some_etag matches (tl s)
      else if hd s = CHR ''*'' then True
      else (let (etag, remain) = scanETag s in
            if etag = '''' then False else if matches etag then True else some_etag matches remain))"
  by pat_completeness auto
termination
proof (relation "measure (\<lambda>(m, s). length s)")
  fix s s' :: string assume "s' = trim_string s" "s' \<noteq> ''''"
  then have "s' \<noteq> ''''" "length s' \<le> length s" using trim_string_length[of s] by simp_all
  then have "length (tl s') < length s" by (cases s') simp_all
  then show "((m, tl s'), (m, s)) \<in> measure (\<lambda>(m, s). length s)" for m :: "string \<Rightarrow> bool" by simp
next
  fix s s' :: string and p t r assume "s' = trim_string s" "p = scanETag s'" "(t, r) = p" "t \<noteq> ''''"
  then have "length r < length s'" using scanETag_length[of s' t r] by simp
  then show "((m, r), (m, s)) \<in> measure (\<lambda>(m, s). length s)" for m :: "string \<Rightarrow> bool" using \<open>s' = trim_string s\<close> trim_string_length[of s] by simp
qed simp

declare some_etag.simps [simp del]

section \<open>Preconditions\<close>

datatype condResult = condNone | condTrue | condFalse

record http_req =
  rqMethod :: string
  rqHeader :: "string \<Rightarrow> string"

text \<open>What the handler has set of the answer, and the parameters: the MIME type of a name, the parsing of a date and the boundary
  between parts.\<close>

record serve_env =
  svEtag :: string
  svType :: "string list option"
  svEncoding :: string
  mimeOf :: "string \<Rightarrow> string"
  parseTime :: "string \<Rightarrow> int option"
  boundary :: string

definition is_get :: "http_req \<Rightarrow> bool" where
  "is_get r \<longleftrightarrow> rqMethod r = ''GET'' \<or> rqMethod r = ''HEAD''"

definition isZeroTime :: "int option \<Rightarrow> bool" where
  "isZeroTime t \<longleftrightarrow> t = None \<or> t = Some 0"

definition truncate_second :: "int \<Rightarrow> int" where
  "truncate_second t = t - t mod 10 ^ 9"

definition checkIfMatch :: "serve_env \<Rightarrow> http_req \<Rightarrow> condResult" where
  "checkIfMatch env r =
     (let im = rqHeader r ''If-Match'' in
      if im = '''' then condNone
      else if some_etag (\<lambda>t. etagStrongMatch t (svEtag env)) im then condTrue else condFalse)"

definition checkIfUnmodifiedSince :: "serve_env \<Rightarrow> http_req \<Rightarrow> int option \<Rightarrow> condResult" where
  "checkIfUnmodifiedSince env r modtime =
     (let ius = rqHeader r ''If-Unmodified-Since'' in
      if ius = '''' then condNone
      else if isZeroTime modtime then condNone
      else case parseTime env ius of
        None \<Rightarrow> condNone
      | Some t \<Rightarrow> if truncate_second (the modtime) \<le> t then condTrue else condFalse)"

definition checkIfNoneMatch :: "serve_env \<Rightarrow> http_req \<Rightarrow> condResult" where
  "checkIfNoneMatch env r =
     (let inm = rqHeader r ''If-None-Match'' in
      if inm = '''' then condNone
      else if some_etag (\<lambda>t. etagWeakMatch t (svEtag env)) inm then condFalse else condTrue)"

definition checkIfModifiedSince :: "serve_env \<Rightarrow> http_req \<Rightarrow> int option \<Rightarrow> condResult" where
  "checkIfModifiedSince env r modtime =
     (if \<not> is_get r then condNone
      else let ims = rqHeader r ''If-Modified-Since'' in
      if ims = '''' then condNone
      else if isZeroTime modtime then condNone
      else case parseTime env ims of
        None \<Rightarrow> condNone
      | Some t \<Rightarrow> if truncate_second (the modtime) \<le> t then condFalse else condTrue)"

definition checkIfRange :: "serve_env \<Rightarrow> http_req \<Rightarrow> int option \<Rightarrow> condResult" where
  "checkIfRange env r modtime =
     (if \<not> is_get r then condNone
      else let ir = rqHeader r ''If-Range'' in
      if ir = '''' then condNone
      else let etag = fst (scanETag ir) in
      if etag \<noteq> '''' then (if etagStrongMatch etag (svEtag env) then condTrue else condFalse)
      else case (modtime, parseTime env ir) of
        (Some m, Some t) \<Rightarrow> if t div 10 ^ 9 = m div 10 ^ 9 then condTrue else condFalse
      | _ \<Rightarrow> condFalse)"

text \<open>The status of an answer without content, or the header \<open>Range\<close> that is to be honoured.\<close>

definition checkPreconditions :: "serve_env \<Rightarrow> http_req \<Rightarrow> int option \<Rightarrow> int + string" where
  "checkPreconditions env r modtime =
     (let ch = checkIfMatch env r;
          ch = (if ch = condNone then checkIfUnmodifiedSince env r modtime else ch)
      in if ch = condFalse then Inl 412
         else let inm = checkIfNoneMatch env r in
         if inm = condFalse then (if is_get r then Inl 304 else Inl 412)
         else if inm = condNone \<and> checkIfModifiedSince env r modtime = condFalse then Inl 304
         else let rangeHeader = rqHeader r ''Range''
              in if rangeHeader \<noteq> '''' \<and> checkIfRange env r modtime = condFalse then Inr '''' else Inr rangeHeader)"

section \<open>Content\<close>

fun sumRangesSize :: "int \<Rightarrow> http_range list \<Rightarrow> int" where
  "sumRangesSize n [] = n"
| "sumRangesSize n (ra # ras) = sumRangesSize (wrap64 (n + Length ra)) ras"

text \<open>The writer of \<open>mime/multipart\<close>: what \<open>CreatePart\<close> and \<open>Close\<close> write.\<close>

definition crlf :: string where "crlf = [CHR 0x0D, CHR 0x0A]"

definition part_head :: "string \<Rightarrow> string \<Rightarrow> int \<Rightarrow> bool \<Rightarrow> http_range \<Rightarrow> string" where
  "part_head bnd contentType size0 first ra =
     (if first then '''' else crlf) @ ''--'' @ bnd @ crlf @ ''Content-Range: '' @ ContentRange ra size0 @ crlf
       @ ''Content-Type: '' @ contentType @ crlf @ crlf"

definition parts_end :: "string \<Rightarrow> string" where
  "parts_end bnd = crlf @ ''--'' @ bnd @ ''--'' @ crlf"

fun rangesMIMESize :: "string \<Rightarrow> string \<Rightarrow> int \<Rightarrow> bool \<Rightarrow> int \<Rightarrow> int \<Rightarrow> http_range list \<Rightarrow> int" where
  "rangesMIMESize bnd contentType size0 first w encSize [] = wrap64 (encSize + wrap64 (w + int (length (parts_end bnd))))"
| "rangesMIMESize bnd contentType size0 first w encSize (ra # ras) =
     rangesMIMESize bnd contentType size0 False (wrap64 (w + int (length (part_head bnd contentType size0 first ra)))) (wrap64 (encSize + Length ra)) ras"

text \<open>A range reader: the status code of its error, if it has one, or the bytes that its reader gives until it ends.\<close>

type_synonym range_reader = "http_range \<Rightarrow> int option + string"

text \<open>\<open>CopyWithBufferN\<close>: the bytes that are copied, and whether there were enough.\<close>

definition CopyWithBufferN :: "string \<Rightarrow> int \<Rightarrow> string \<times> bool" where
  "CopyWithBufferN src n = (take (nat n) src, int (length (take (nat n) src)) = n)"

text \<open>The goroutine that writes the parts to a pipe, until something fails.\<close>

fun write_parts :: "range_reader \<Rightarrow> string \<Rightarrow> string \<Rightarrow> int \<Rightarrow> bool \<Rightarrow> http_range list \<Rightarrow> string" where
  "write_parts rr bnd contentType size0 first [] = parts_end bnd"
| "write_parts rr bnd contentType size0 first (ra # ras) =
     part_head bnd contentType size0 first ra
     @ (case rr ra of
          Inl e \<Rightarrow> ''''
        | Inr reader \<Rightarrow>
            (case CopyWithBufferN reader (Length ra) of
               (bs, ok) \<Rightarrow> bs @ (if ok then write_parts rr bnd contentType size0 False ras else '''')))"

text \<open>An answer: a status alone, an error with its \<open>Content-Range\<close>, or content with its status, \<open>Content-Type\<close>, \<open>Content-Range\<close>,
  the declared length, the bytes that are sent, and whether all of them could be sent.\<close>

record content =
  cCode :: int
  cType :: string
  cRange :: "string option"
  cLength :: "int option"
  cBody :: string
  cComplete :: bool

datatype answer = StatusOnly int | HttpError int "string option" | Content content

definition error_code :: "int option \<Rightarrow> int" where
  "error_code e = (case e of Some c \<Rightarrow> c | None \<Rightarrow> 416)"

definition content_type :: "serve_env \<Rightarrow> string \<Rightarrow> string" where
  "content_type env name = (case svType env of None \<Rightarrow> mimeOf env name | Some [] \<Rightarrow> '''' | Some (t # _) \<Rightarrow> t)"

definition send_content :: "serve_env \<Rightarrow> http_req \<Rightarrow> int \<Rightarrow> string \<Rightarrow> string option \<Rightarrow> string \<Rightarrow> int \<Rightarrow> answer" where
  "send_content env r code ctype crange sendContent sendSize =
     (let (body, ok) = (if rqMethod r \<noteq> ''HEAD'' then CopyWithBufferN sendContent sendSize else ('''', True))
      in Content \<lparr>cCode = code, cType = ctype, cRange = crange, cLength = (if svEncoding env = '''' then Some sendSize else None),
           cBody = body, cComplete = ok\<rparr>)"

definition send_ranges :: "serve_env \<Rightarrow> http_req \<Rightarrow> string \<Rightarrow> int \<Rightarrow> range_reader \<Rightarrow> http_range list \<Rightarrow> answer" where
  "send_ranges env r contentType size0 rr ranges =
     (case ranges of
        [] \<Rightarrow> (case rr \<lparr>Start = 0, Length = -1\<rparr> of
                Inl e \<Rightarrow> HttpError (error_code e) None
              | Inr reader \<Rightarrow> send_content env r 200 contentType None reader size0)
      | [ra] \<Rightarrow> (case rr ra of
                Inl e \<Rightarrow> HttpError (error_code e) None
              | Inr reader \<Rightarrow> send_content env r 206 contentType (Some (ContentRange ra size0)) reader (Length ra))
      | _ \<Rightarrow> send_content env r 206 (''multipart/byteranges; boundary='' @ boundary env) None
               (write_parts rr (boundary env) contentType size0 True ranges)
               (rangesMIMESize (boundary env) contentType size0 True 0 0 ranges))"

definition net_ServeHTTP :: "serve_env \<Rightarrow> http_req \<Rightarrow> string \<Rightarrow> int option \<Rightarrow> int \<Rightarrow> range_reader \<Rightarrow> answer" where
  "net_ServeHTTP env r name modTime size0 rr =
     (case checkPreconditions env r modTime of
        Inl code \<Rightarrow> StatusOnly code
      | Inr rangeReq \<Rightarrow>
          if size0 < 0 then HttpError 500 None
          else (case ParseRange rangeReq size0 of
            Inl ErrInvalid \<Rightarrow> HttpError 416 None
          | Inl ErrNoOverlap \<Rightarrow>
              if size0 = 0 then send_ranges env r (content_type env name) size0 rr []
              else HttpError 416 (Some (''bytes */'' @ format_int size0))
          | Inr ranges \<Rightarrow>
              send_ranges env r (content_type env name) size0 rr (if sumRangesSize 0 ranges > size0 then [] else ranges)))"

section \<open>Exactly the bytes that were asked for\<close>

definition slice_of :: "string \<Rightarrow> http_range \<Rightarrow> string" where
  "slice_of b r = take (nat (Length r)) (drop (nat (Start r)) b)"

text \<open>What is relied on of a range reader: the reader of a range of the content gives its bytes, and may go on.\<close>

definition reads_content :: "range_reader \<Rightarrow> string \<Rightarrow> bool" where
  "reads_content rr b \<longleftrightarrow>
     (\<forall>r. range_in (int (length b)) r \<longrightarrow> (\<exists>bs. rr r = Inr bs \<and> take (nat (Length r)) bs = slice_of b r))
     \<and> (\<exists>bs. rr \<lparr>Start = 0, Length = -1\<rparr> = Inr bs \<and> take (length b) bs = b)"

fun mime_body :: "string \<Rightarrow> string \<Rightarrow> string \<Rightarrow> bool \<Rightarrow> http_range list \<Rightarrow> string" where
  "mime_body b bnd contentType first [] = parts_end bnd"
| "mime_body b bnd contentType first (ra # ras) =
     part_head bnd contentType (int (length b)) first ra @ slice_of b ra @ mime_body b bnd contentType False ras"

text \<open>The answer to a request whose preconditions hold, in terms of the content.\<close>

definition answer_of :: "serve_env \<Rightarrow> http_req \<Rightarrow> int \<Rightarrow> string \<Rightarrow> string option \<Rightarrow> string \<Rightarrow> answer" where
  "answer_of env r code ctype crange body =
     Content \<lparr>cCode = code, cType = ctype, cRange = crange, cLength = (if svEncoding env = '''' then Some (int (length body)) else None),
       cBody = (if rqMethod r = ''HEAD'' then '''' else body), cComplete = True\<rparr>"

definition serve_spec :: "serve_env \<Rightarrow> http_req \<Rightarrow> string \<Rightarrow> string \<Rightarrow> string \<Rightarrow> answer" where
  "serve_spec env r name rangeReq b =
     (let size0 = int (length b); ctype = content_type env name; whole = answer_of env r 200 ctype None b
      in case ParseRange rangeReq size0 of
           Inl ErrInvalid \<Rightarrow> HttpError 416 None
         | Inl ErrNoOverlap \<Rightarrow> if b = '''' then whole else HttpError 416 (Some (''bytes */'' @ format_int size0))
         | Inr ranges \<Rightarrow>
             if ranges = [] \<or> sum_list (map Length ranges) > size0 then whole
             else if length ranges = 1 then answer_of env r 206 ctype (Some (ContentRange (hd ranges) size0)) (slice_of b (hd ranges))
             else answer_of env r 206 (''multipart/byteranges; boundary='' @ boundary env) None (mime_body b (boundary env) ctype True ranges))"

lemma wrap64_add [simp]: "wrap64 (wrap64 a + b) = wrap64 (a + b)" "wrap64 (a + wrap64 b) = wrap64 (a + b)"
  by (simp_all add: wrap64_def mod_simps algebra_simps)

lemma sumRangesSize_wrap: "sumRangesSize (wrap64 n) rs = wrap64 (n + sum_list (map Length rs))"
  by (induction rs arbitrary: n) (simp_all add: add.assoc)

lemma slice_length: "range_in (int (length b)) r \<Longrightarrow> int (length (slice_of b r)) = Length r"
  by (auto simp: range_in_def slice_of_def)

lemma mime_length_ge:
  "list_all (range_in (int (length b))) rs \<Longrightarrow> sum_list (map Length rs) \<le> int (length (mime_body b bnd ct first rs))"
proof (induction rs arbitrary: first)
  case (Cons ra rs)
  then have "sum_list (map Length rs) \<le> int (length (mime_body b bnd ct False rs))" by simp
  then show ?case using slice_length[of b ra] Cons.prems by simp
qed simp

lemma rangesMIMESize_wrap:
  "list_all (range_in (int (length b))) rs \<Longrightarrow>
   rangesMIMESize bnd ct (int (length b)) first (wrap64 w) (wrap64 e) rs = wrap64 (w + e + int (length (mime_body b bnd ct first rs)))"
proof (induction rs arbitrary: first w e)
  case Nil
  have "wrap64 (wrap64 e + wrap64 (wrap64 w + int (length (parts_end bnd)))) = wrap64 (e + (w + int (length (parts_end bnd))))" by simp
  then show ?case by (simp only: rangesMIMESize.simps mime_body.simps ac_simps)
next
  case (Cons ra rs)
  then show ?case using slice_length[of b ra] by (simp add: algebra_simps)
qed

lemma write_parts_all:
  assumes "reads_content rr b" "list_all (range_in (int (length b))) rs"
  shows "write_parts rr bnd ct (int (length b)) first rs = mime_body b bnd ct first rs"
  using assms(2)
proof (induction rs arbitrary: first)
  case (Cons ra rs)
  then have ra: "range_in (int (length b)) ra" by simp
  then obtain bs where bs: "rr ra = Inr bs" "take (nat (Length ra)) bs = slice_of b ra" using assms(1) by (auto simp: reads_content_def)
  then have "CopyWithBufferN bs (Length ra) = (slice_of b ra, True)" using slice_length[OF ra] by (simp add: CopyWithBufferN_def)
  then show ?case using Cons bs(1) by simp
qed simp

lemma send_content_all:
  assumes "take (nat n) bs = body" "int (length body) = n"
  shows "send_content env r code ct cr bs n = answer_of env r code ct cr body"
  using assms by (auto simp: send_content_def answer_of_def CopyWithBufferN_def)

text \<open>C38: a request whose preconditions hold is answered with exactly the bytes of the content that its range asks for, under the
  declared length: the whole content, one range, several ranges in parts, or 416.\<close>

theorem ServeHTTP_sends_the_range:
  assumes "checkPreconditions env r modTime = Inr rangeReq" "reads_content rr b" "int64_range (int (length b))"
    and "list_all (\<lambda>ranges. int64_range (int (length (mime_body b (boundary env) (content_type env name) True ranges))))
      (case ParseRange rangeReq (int (length b)) of Inl e \<Rightarrow> [] | Inr ranges \<Rightarrow> [ranges])"
  shows "net_ServeHTTP env r name modTime (int (length b)) rr = serve_spec env r name rangeReq b"
proof -
  let ?n = "int (length b)" and ?ct = "content_type env name"
  have whole: "send_ranges env r ?ct ?n rr [] = answer_of env r 200 ?ct None b"
  proof -
    obtain bs where "rr \<lparr>Start = 0, Length = -1\<rparr> = Inr bs" "take (length b) bs = b" using assms(2) by (auto simp: reads_content_def)
    then show ?thesis using send_content_all[of ?n bs b] by (simp add: send_ranges_def)
  qed
  show ?thesis
  proof (cases "ParseRange rangeReq ?n")
    case (Inl e)
    then show ?thesis using assms(1) whole by (cases e; cases "b = ''''") (simp_all add: net_ServeHTTP_def serve_spec_def Let_def)
  next
    case (Inr ranges)
    have all: "list_all (range_in ?n) ranges" by (rule ParseRange_within_content[OF _ assms(3) Inr]) simp
    have m: "int64_range (int (length (mime_body b (boundary env) ?ct True ranges)))" using assms(4) Inr by simp
    have pos: "0 \<le> sum_list (map Length ranges)" using all by (induction ranges) (auto simp: range_in_def)
    then have "int64_range (sum_list (map Length ranges))" using mime_length_ge[OF all, of "boundary env" ?ct True] m by (simp add: int64_range_def)
    then have sum: "sumRangesSize 0 ranges = sum_list (map Length ranges)"
      using sumRangesSize_wrap[of 0 ranges] wrap64_id[of 0] by (simp add: wrap64_id int64_range_def)
    consider (none) "ranges = [] \<or> sum_list (map Length ranges) > ?n" | (one) ra where "ranges = [ra]" "\<not> Length ra > ?n"
      | (many) a c rs where "ranges = a # c # rs" "\<not> sum_list (map Length ranges) > ?n"
      by (cases ranges rule: list.exhaust[case_product list.exhaust]) (metis that list.exhaust sum_list.Cons list.simps(8,9) sum_list.Nil add.right_neutral)+
    then show ?thesis
    proof cases
      case none
      then show ?thesis using assms(1) whole Inr sum by (auto simp: net_ServeHTTP_def serve_spec_def Let_def)
    next
      case one
      then have ra: "range_in ?n ra" using all by simp
      then obtain bs where bs: "rr ra = Inr bs" "take (nat (Length ra)) bs = slice_of b ra" using assms(2) by (auto simp: reads_content_def)
      have "send_ranges env r ?ct ?n rr [ra] = answer_of env r 206 ?ct (Some (ContentRange ra ?n)) (slice_of b ra)"
        using send_content_all[OF bs(2) slice_length[OF ra]] bs(1) by (simp add: send_ranges_def)
      then show ?thesis using assms(1) Inr sum one by (simp add: net_ServeHTTP_def serve_spec_def Let_def)
    next
      case many
      let ?body = "mime_body b (boundary env) ?ct True ranges"
      have "rangesMIMESize (boundary env) ?ct ?n True 0 0 ranges = int (length ?body)"
        using rangesMIMESize_wrap[OF all, of "boundary env" ?ct True 0 0] m wrap64_id by (simp add: wrap64_id int64_range_def)
      moreover have "write_parts rr (boundary env) ?ct ?n True ranges = ?body" by (rule write_parts_all[OF assms(2) all])
      ultimately have "send_ranges env r ?ct ?n rr ranges = answer_of env r 206 (''multipart/byteranges; boundary='' @ boundary env) None ?body"
        using many(1) send_content_all[of "int (length ?body)" ?body ?body] by (simp add: send_ranges_def del: write_parts.simps rangesMIMESize.simps mime_body.simps)
      then show ?thesis using assms(1) Inr sum many by (simp add: net_ServeHTTP_def serve_spec_def Let_def del: mime_body.simps)
    qed
  qed
qed

text \<open>A request for three bytes, from a reader that goes on to the end.\<close>

definition demo_serve :: serve_env where
  "demo_serve = \<lparr>svEtag = '''', svType = None, svEncoding = '''', mimeOf = (\<lambda>_. ''text/plain''), parseTime = (\<lambda>_. None), boundary = ''x''\<rparr>"

definition demo_get :: "string \<Rightarrow> http_req" where
  "demo_get rng = \<lparr>rqMethod = ''GET'', rqHeader = (\<lambda>h. if h = ''Range'' then rng else '''')\<rparr>"

definition demo_reader :: "string \<Rightarrow> range_reader" where
  "demo_reader b r = Inr (drop (nat (Start r)) b)"

lemma demo_reader_reads: "reads_content (demo_reader b) b"
  by (simp add: reads_content_def demo_reader_def slice_of_def)

theorem ServeHTTP_sends_the_range_witness:
  "net_ServeHTTP demo_serve (demo_get ''bytes=6-8'') ''a.txt'' None 11 (demo_reader ''hello world'')
     = Content \<lparr>cCode = 206, cType = ''text/plain'', cRange = Some ''bytes 6-8/11'', cLength = Some 3, cBody = ''wor'', cComplete = True\<rparr>"
proof -
  let ?b = "''hello world''"
  have pre: "checkPreconditions demo_serve (demo_get ''bytes=6-8'') None = Inr ''bytes=6-8''" by code_simp
  have p: "ParseRange ''bytes=6-8'' (int (length ?b)) = Inr [\<lparr>Start = 6, Length = 3\<rparr>]" by code_simp
  have m: "int64_range (int (length (mime_body ?b (boundary demo_serve) (content_type demo_serve ''a.txt'') True [\<lparr>Start = 6, Length = 3\<rparr>])))" by code_simp
  have n: "int64_range (int (length ?b))" by code_simp
  have "net_ServeHTTP demo_serve (demo_get ''bytes=6-8'') ''a.txt'' None (int (length ?b)) (demo_reader ?b) = serve_spec demo_serve (demo_get ''bytes=6-8'') ''a.txt'' ''bytes=6-8'' ?b"
    by (rule ServeHTTP_sends_the_range[OF pre demo_reader_reads n]) (unfold p, use m in simp)
  moreover have "serve_spec demo_serve (demo_get ''bytes=6-8'') ''a.txt'' ''bytes=6-8'' ?b
     = Content \<lparr>cCode = 206, cType = ''text/plain'', cRange = Some ''bytes 6-8/11'', cLength = Some 3, cBody = ''wor'', cComplete = True\<rparr>" by code_simp
  moreover have "int (length ?b) = 11" by simp
  ultimately show ?thesis by metis
qed

end
