(* ===== verification/Downloader.thy ===== *)
theory Downloader imports Serve_Content "HOL-Library.Sublist" begin

text \<open>
  The downloader of \<open>internal/net/request.go\<close>: it splits a range into parts that several workers request, and gives the bytes in
  order.  A part is a state that requests change: whichever worker makes them, at whatever time.  The channel,
  the limit on workers, the delays between attempts and the memory of the buffers are not modelled.
\<close>

section \<open>The parts of a range\<close>

record download_cfg =
  dlPartSize :: int
  dlRetries :: nat

definition DefaultDownloadPartSize :: int where "DefaultDownloadPartSize = 8 * 1024 * 1024"

text \<open>The configured part size, bounded when memory is short.\<close>

definition effective_part_size :: "int \<Rightarrow> int option \<Rightarrow> int" where
  "effective_part_size cfg maxBlock =
     (let p = (if cfg = 0 then DefaultDownloadPartSize else cfg)
      in case maxBlock of None \<Rightarrow> p | Some m \<Rightarrow> if p > m then m else p)"

definition download_range :: "int \<Rightarrow> http_range \<Rightarrow> http_range" where
  "download_range size0 r = (if Length r < 0 \<or> wrap64 (Start r + Length r) > size0 then r\<lparr>Length := wrap64 (size0 - Start r)\<rparr> else r)"

definition max_part :: "int \<Rightarrow> int \<Rightarrow> int" where
  "max_part P len = (if len > P then go_div (wrap64 (wrap64 (len + P) - 1)) P else 1)"

text \<open>The size of the next part: the first two share the odd rest.\<close>

definition part_size :: "int \<Rightarrow> int \<Rightarrow> nat \<Rightarrow> int" where
  "part_size P len nextChunk =
     (let firstSize = go_mod len P; minSize = go_div P 2
      in if nextChunk = 0 then (if firstSize > 0 then max firstSize minSize else P)
         else if nextChunk = 1 then (if firstSize > 0 \<and> firstSize < minSize then P + (firstSize - minSize) else P)
         else P)"

text \<open>The calls of \<open>sendChunkTask\<close> that make a part.\<close>

fun plan_parts :: "nat \<Rightarrow> int \<Rightarrow> int \<Rightarrow> nat \<Rightarrow> int \<Rightarrow> int \<Rightarrow> http_range list" where
  "plan_parts 0 P len nextChunk pos maxPos = []"
| "plan_parts (Suc fuel) P len nextChunk pos maxPos =
     (if pos \<ge> maxPos then []
      else let sz = part_size P len nextChunk
           in \<lparr>Start = pos, Length = sz\<rparr> # plan_parts fuel P len (Suc nextChunk) (pos + sz) maxPos)"

definition download_plan :: "int \<Rightarrow> http_range \<Rightarrow> http_range list" where
  "download_plan P r = plan_parts (nat (max_part P (Length r))) P (Length r) 0 (Start r) (Start r + Length r)"

text \<open>Consecutive ranges from \<open>s\<close> to \<open>e\<close>.\<close>

fun tiles :: "int \<Rightarrow> int \<Rightarrow> http_range list \<Rightarrow> bool" where
  "tiles s e [] \<longleftrightarrow> s = e"
| "tiles s e (r # rs) \<longleftrightarrow> Start r = s \<and> tiles (s + Length r) e rs"

lemma tail_parts:
  assumes "0 < P" "1 < n"
  shows "tiles pos (pos + P * int k) (plan_parts k P len n pos (pos + P * int k))
    \<and> length (plan_parts k P len n pos (pos + P * int k)) = k
    \<and> list_all (\<lambda>r. Length r = P) (plan_parts k P len n pos (pos + P * int k))"
  using assms(2)
proof (induction k arbitrary: n pos)
  case (Suc k)
  have "part_size P len n = P" using Suc.prems by (simp add: part_size_def Let_def)
  moreover have "pos + P * int (Suc k) = (pos + P) + P * int k" by (simp add: algebra_simps)
  moreover have "pos < (pos + P) + P * int k" using assms(1) by (simp add: add_strict_increasing)
  ultimately show ?case using Suc.IH[of "Suc n" "pos + P"] Suc.prems by (simp add: add.assoc)
qed simp

text \<open>The parts of a range that is longer than a part: they follow each other from its start to its end, as many as were counted,
  and none is empty or longer than a part.\<close>

lemma download_plan_tiles:
  assumes "0 < P" "P < Length r" "int64_range (Length r + P)" "0 \<le> Start r"
  shows "tiles (Start r) (Start r + Length r) (download_plan P r)" "int (length (download_plan P r)) = max_part P (Length r)"
    "list_all (\<lambda>p. 0 < Length p \<and> Length p \<le> P) (download_plan P r)"
proof -
  define q where "q = Length r div P"
  define f where "f = Length r mod P"
  have L: "Length r = P * q + f" "0 \<le> f" "f < P" using assms(1) by (simp_all add: q_def f_def)
  have q1: "1 \<le> q" using assms(1,2) by (simp add: q_def pos_imp_zdiv_pos_iff int_one_le_iff_zero_less)
  have "wrap64 (Length r + P) = Length r + P" "wrap64 (Length r + P - 1) = Length r + P - 1"
    using assms(1-3) by (auto simp: int64_range_def intro!: wrap64_id)
  then have mp: "max_part P (Length r) = (Length r + P - 1) div P" using assms(1,2) by (simp add: max_part_def go_div_nonneg)
  have count: "max_part P (Length r) = (if f = 0 then q else q + 1)"
  proof -
    have e: "Length r + P - 1 = P * (if f = 0 then q else q + 1) + (if f = 0 then P - 1 else f - 1)" using L(1) by (simp add: algebra_simps)
    have "(Length r + P - 1) div P = (if f = 0 then q else q + 1)" unfolding e using assms(1) L(2,3) by auto
    then show ?thesis using mp by simp
  qed
  have h: "go_mod (Length r) P = f" "go_div P 2 = P div 2" using assms(1,2) by (simp_all add: go_mod_nonneg go_div_nonneg f_def)
  have s0: "part_size P (Length r) 0 = (if f > 0 then max f (P div 2) else P)"
    and s1: "part_size P (Length r) 1 = (if f > 0 \<and> f < P div 2 then P + (f - P div 2) else P)"
    by (simp_all add: part_size_def h Let_def)
  have both: "if f = 0 then part_size P (Length r) 0 = P \<and> part_size P (Length r) 1 = P
      else part_size P (Length r) 0 + part_size P (Length r) 1 = P + f"
    using s0 s1 L(2) by (auto simp: max_def)
  have bounds: "0 < part_size P (Length r) 0 \<and> part_size P (Length r) 0 \<le> P" "0 < part_size P (Length r) 1 \<and> part_size P (Length r) 1 \<le> P"
    using s0 s1 L(2,3) assms(1) by (auto simp: max_def)
  define a where "a = part_size P (Length r) 0"
  define b where "b = part_size P (Length r) 1"
  note both = both[folded a_def b_def] and bounds = bounds[folded a_def b_def]
  obtain k where k: "nat (max_part P (Length r)) = Suc (Suc k)" "Length r = a + b + P * int k"
  proof (cases "f = 0")
    case True
    have "2 \<le> q"
    proof (rule ccontr)
      assume "\<not> 2 \<le> q"
      then have "q = 1" using q1 by simp
      then show False using L(1) True assms(2) by simp
    qed
    then have "nat (max_part P (Length r)) = Suc (Suc (nat (q - 2)))" using count True by simp
    moreover have "Length r = a + b + P * int (nat (q - 2))" using both True L(1) \<open>2 \<le> q\<close> by (simp add: algebra_simps)
    ultimately show thesis using that by blast
  next
    case False
    have "nat (max_part P (Length r)) = Suc (Suc (nat (q - 1)))" using count False q1 by simp
    moreover have "Length r = a + b + P * int (nat (q - 1))" using both False L(1) q1 by (simp add: algebra_simps)
    ultimately show thesis using that by blast
  qed
  define s where "s = Start r"
  define e where "e = s + Length r"
  have e: "e = (s + a + b) + P * int k" using k(2) by (simp add: e_def)
  have pk: "0 \<le> P * int k" using assms(1) by simp
  have plan: "download_plan P r = \<lparr>Start = s, Length = a\<rparr> # \<lparr>Start = s + a, Length = b\<rparr>
      # plan_parts k P (Length r) (Suc (Suc 0)) (s + a + b) e"
  proof -
    have "\<not> s \<ge> e" "\<not> s + a \<ge> e" using bounds e pk by linarith+
    then show ?thesis unfolding download_plan_def k(1) s_def[symmetric] e_def[symmetric] plan_parts.simps
      by (simp add: Let_def a_def b_def)
  qed
  note t = tail_parts[of P "Suc (Suc 0)" "s + a + b" k "Length r", OF assms(1), folded e]
  show "tiles (Start r) (Start r + Length r) (download_plan P r)" unfolding plan s_def[symmetric] e_def[symmetric] using t by simp
  show "int (length (download_plan P r)) = max_part P (Length r)" unfolding plan using t k(1) by simp
  show "list_all (\<lambda>p. 0 < Length p \<and> Length p \<le> P) (download_plan P r)" unfolding plan using t bounds assms(1) by (auto simp: list_all_iff)
qed

section \<open>Requesting a part\<close>

record http_resp =
  rsContentRange :: string
  rsContentLength :: int
  rsBody :: string
  rsBroken :: bool

datatype http_reply = ReplyError "int option" | Reply http_resp

definition checkTotalBytes :: "int \<Rightarrow> http_resp \<Rightarrow> bool" where
  "checkTotalBytes size0 resp =
     (let contentRange = rsContentRange resp in
      if contentRange = '''' then (if rsContentLength resp > 0 then rsContentLength resp else -1) = size0
      else let totalStr = path_base contentRange in
        totalStr \<noteq> ''*'' \<and> parse_int totalStr = Some size0)"

datatype attempt_err = NeedRetry | InfiniteRetry | CancelConcurrency | Fatal

text \<open>One request for the part \<open>i\<close>, of which \<open>want\<close> bytes are missing and \<open>room\<close> bytes are left in its buffer: what it writes there, and
  its error.  \<open>cancel\<close> is the decision, when the server is overloaded, to give the part to another worker.\<close>

definition tryDownloadChunk :: "int \<Rightarrow> nat \<Rightarrow> bool \<Rightarrow> nat \<Rightarrow> int \<Rightarrow> http_reply \<Rightarrow> string \<times> attempt_err option" where
  "tryDownloadChunk size0 i cancel room want reply =
     (case reply of
        ReplyError None \<Rightarrow> ('''', Some Fatal)
      | ReplyError (Some code) \<Rightarrow>
          if code = 416 then ('''', Some Fatal)
          else if i = 0 then ('''', Some (if code \<in> {429, 502, 503, 504} then NeedRetry else Fatal))
          else ('''', Some (if cancel then CancelConcurrency else InfiniteRetry))
      | Reply resp \<Rightarrow>
          if i = 0 \<and> \<not> checkTotalBytes size0 resp then ('''', Some Fatal)
          else let w = take room (rsBody resp) in
            if rsBroken resp \<or> length (rsBody resp) > room then (w, Some NeedRetry)
            else if int (length w) \<noteq> want then (w, Some NeedRetry)
            else (w, None))"

datatype part_state = Active | Done | Failed

record dl_part =
  dpStart :: int
  dpSize :: int
  dpBuf :: string
  dpRetry :: nat
  dpState :: part_state

definition part_start :: "http_range \<Rightarrow> dl_part" where
  "part_start r = \<lparr>dpStart = Start r, dpSize = Length r, dpBuf = '''', dpRetry = 0, dpState = Active\<rparr>"

text \<open>One turn of the loop of \<open>downloadChunk\<close>; the reply depends on the range that is asked for.\<close>

definition downloadChunk_turn :: "download_cfg \<Rightarrow> int \<Rightarrow> nat \<Rightarrow> nat \<Rightarrow> bool \<times> (http_range \<Rightarrow> http_reply) \<Rightarrow> dl_part \<Rightarrow> dl_part" where
  "downloadChunk_turn cfg size0 i limit ev p =
     (if dpState p \<noteq> Active then p
      else let (w, err) = tryDownloadChunk size0 i (fst ev) (limit - length (dpBuf p)) (dpSize p) (snd ev \<lparr>Start = dpStart p, Length = dpSize p\<rparr>);
               n = int (length w); p' = p\<lparr>dpBuf := dpBuf p @ w\<rparr>
           in case err of
                None \<Rightarrow> p'\<lparr>dpState := Done\<rparr>
              | Some NeedRetry \<Rightarrow>
                  (let p' = p'\<lparr>dpStart := dpStart p + n, dpSize := dpSize p - n\<rparr>
                   in if dpRetry p < dlRetries cfg then p'\<lparr>dpRetry := dpRetry p + 1\<rparr> else p'\<lparr>dpState := Failed\<rparr>)
              | Some InfiniteRetry \<Rightarrow> p'
              | Some CancelConcurrency \<Rightarrow> p'\<lparr>dpRetry := 0\<rparr>
              | Some Fatal \<Rightarrow> p'\<lparr>dpState := Failed\<rparr>)"

definition download_part :: "download_cfg \<Rightarrow> int \<Rightarrow> nat \<Rightarrow> (bool \<times> (http_range \<Rightarrow> http_reply)) list \<Rightarrow> http_range \<Rightarrow> dl_part" where
  "download_part cfg size0 i evs r = fold (downloadChunk_turn cfg size0 i (nat (Length r))) evs (part_start r)"

text \<open>What the reader of the download gives when all parts are done: the buffers, by their number.\<close>

definition downloaded :: "download_cfg \<Rightarrow> int \<Rightarrow> (nat \<Rightarrow> (bool \<times> (http_range \<Rightarrow> http_reply)) list) \<Rightarrow> http_range list \<Rightarrow> string option" where
  "downloaded cfg size0 evs plan =
     (let ps = map (\<lambda>(i, r). download_part cfg size0 i (evs i) r) (enumerate 0 plan)
      in if list_all (\<lambda>p. dpState p = Done) ps then Some (concat (map dpBuf ps)) else None)"

section \<open>A download gives the bytes of its range\<close>

text \<open>A server may fail, break off or send more than it was asked for; what it sends are the bytes from the start of the range.\<close>

definition honest :: "string \<Rightarrow> (bool \<times> (http_range \<Rightarrow> http_reply)) \<Rightarrow> bool" where
  "honest b ev \<longleftrightarrow> (\<forall>r resp. snd ev r = Reply resp \<and> 0 \<le> Start r \<longrightarrow> prefix (rsBody resp) (drop (nat (Start r)) b))"

definition front_of :: "string \<Rightarrow> http_range \<Rightarrow> string \<Rightarrow> bool" where
  "front_of b r bs \<longleftrightarrow> bs = take (length bs) (slice_of b r)"

definition part_inv :: "string \<Rightarrow> http_range \<Rightarrow> dl_part \<Rightarrow> bool" where
  "part_inv b r p \<longleftrightarrow> front_of b r (dpBuf p) \<and> length (dpBuf p) \<le> nat (Length r)
     \<and> (dpState p = Active \<longrightarrow> dpStart p = Start r + int (length (dpBuf p)) \<and> dpSize p = Length r - int (length (dpBuf p)))
     \<and> (dpState p = Done \<longrightarrow> int (length (dpBuf p)) = Length r)"

lemma written_slice:
  assumes "0 \<le> Start r" "prefix body (drop (nat (Start r + int k)) b)" "buf = take k (slice_of b r)" "length buf = k" "k \<le> nat (Length r)"
  shows "buf @ take (nat (Length r) - k) body = take (k + length (take (nat (Length r) - k) body)) (slice_of b r)"
proof -
  obtain rest where rest: "drop (nat (Start r + int k)) b = body @ rest" using assms(2) by (auto simp: prefix_def)
  have "drop k (slice_of b r) = take (nat (Length r) - k) (body @ rest)"
    using rest assms(1) by (simp add: slice_of_def drop_take nat_add_distrib add.commute flip: rest)
  then have "take (length (take (nat (Length r) - k) body)) (drop k (slice_of b r)) = take (nat (Length r) - k) body" by (simp add: min_def)
  then show ?thesis using assms(3,4) by (simp add: take_add)
qed

lemma turn_inv:
  assumes "0 \<le> Start r" "0 \<le> Length r" "honest b ev" "part_inv b r p"
  shows "part_inv b r (downloadChunk_turn cfg size0 i (nat (Length r)) ev p)"
proof (cases "dpState p = Active")
  case False
  then show ?thesis using assms(4) by (simp add: downloadChunk_turn_def)
next
  case True
  let ?k = "length (dpBuf p)"
  have p: "dpBuf p = take ?k (slice_of b r)" "?k \<le> nat (Length r)" "dpStart p = Start r + int ?k" "dpSize p = Length r - int ?k"
    using assms(4) True by (simp_all add: part_inv_def front_of_def)
  define reply where "reply = snd ev \<lparr>Start = dpStart p, Length = dpSize p\<rparr>"
  obtain w err where t: "tryDownloadChunk size0 i (fst ev) (nat (Length r) - ?k) (dpSize p) reply = (w, err)" by fastforce
  have w: "w = '''' \<or> (\<exists>resp. reply = Reply resp \<and> w = take (nat (Length r) - ?k) (rsBody resp))" "err = None \<Longrightarrow> int (length w) = dpSize p"
    "length w \<le> nat (Length r) - ?k" "err \<noteq> Some NeedRetry \<Longrightarrow> err \<noteq> None \<Longrightarrow> w = ''''"
    using t by (auto simp: tryDownloadChunk_def Let_def split: http_reply.splits option.splits if_splits)
  have buf: "dpBuf p @ w = take (?k + length w) (slice_of b r)"
    using w(1)
  proof
    assume "w = ''''"
    then show ?thesis using p(1) by simp
  next
    assume "\<exists>resp. reply = Reply resp \<and> w = take (nat (Length r) - ?k) (rsBody resp)"
    then obtain resp where resp: "reply = Reply resp" "w = take (nat (Length r) - ?k) (rsBody resp)" by blast
    then have "prefix (rsBody resp) (drop (nat (Start r + int ?k)) b)"
      using assms(1) p(3) assms(3)[unfolded honest_def, rule_format, of "\<lparr>Start = dpStart p, Length = dpSize p\<rparr>" resp] by (simp add: reply_def)
    then show ?thesis unfolding resp(2) by (rule written_slice[OF assms(1) _ p(1) refl p(2)])
  qed
  have fr: "front_of b r (dpBuf p @ w)" using buf unfolding front_of_def length_append .
  have len: "?k + length w \<le> nat (Length r)" using w(3) p(2) by simp
  have fr0: "front_of b r (dpBuf p)" using assms(4) by (simp add: part_inv_def)
  have turn: "downloadChunk_turn cfg size0 i (nat (Length r)) ev p = (let n = int (length w); p' = p\<lparr>dpBuf := dpBuf p @ w\<rparr> in case err of
                None \<Rightarrow> p'\<lparr>dpState := Done\<rparr>
              | Some NeedRetry \<Rightarrow>
                  (let p' = p'\<lparr>dpStart := dpStart p + n, dpSize := dpSize p - n\<rparr>
                   in if dpRetry p < dlRetries cfg then p'\<lparr>dpRetry := dpRetry p + 1\<rparr> else p'\<lparr>dpState := Failed\<rparr>)
              | Some InfiniteRetry \<Rightarrow> p'
              | Some CancelConcurrency \<Rightarrow> p'\<lparr>dpRetry := 0\<rparr>
              | Some Fatal \<Rightarrow> p'\<lparr>dpState := Failed\<rparr>)"
    using True t unfolding downloadChunk_turn_def reply_def by (simp add: Let_def split: option.split attempt_err.split)
  show ?thesis
  proof (cases err)
    case None
    then show ?thesis using turn fr len w(2) p(4) assms(2) by (simp add: part_inv_def)
  next
    case (Some e)
    then show ?thesis using turn True fr fr0 len w(4) p(2,3,4)
      by (cases e) (auto simp: part_inv_def Let_def)
  qed
qed

lemma download_part_inv:
  assumes "0 \<le> Start r" "0 \<le> Length r" "list_all (honest b) evs"
  shows "part_inv b r (download_part cfg size0 i evs r)"
proof -
  have "part_inv b r p \<Longrightarrow> part_inv b r (fold (downloadChunk_turn cfg size0 i (nat (Length r))) evs p)" for p
    using assms(3) by (induction evs arbitrary: p) (auto simp: turn_inv[OF assms(1,2)])
  moreover have "part_inv b r (part_start r)" by (simp add: part_inv_def part_start_def front_of_def)
  ultimately show ?thesis by (simp add: download_part_def)
qed

lemma tiles_slices:
  assumes "0 \<le> s" "tiles s e rs" "list_all (\<lambda>r. 0 \<le> Length r) rs"
  shows "concat (map (slice_of b) rs) = take (nat (e - s)) (drop (nat s) b) \<and> s \<le> e"
  using assms
proof (induction rs arbitrary: s)
  case (Cons r rs)
  then have r: "Start r = s" "0 \<le> Length r" "tiles (s + Length r) e rs" by simp_all
  have IH: "concat (map (slice_of b) rs) = take (nat (e - (s + Length r))) (drop (nat (s + Length r)) b) \<and> s + Length r \<le> e"
    using Cons.IH[of "s + Length r"] r Cons.prems by simp
  then have "s + Length r \<le> e" by blast
  then have "nat (e - s) = nat (Length r) + nat (e - (s + Length r))" using r(2) by arith
  moreover have "nat (s + Length r) = nat (Length r) + nat s" using r(2) Cons.prems(1) by simp
  moreover have "slice_of b r = take (nat (Length r)) (drop (nat s) b)" using r(1) by (simp add: slice_of_def)
  ultimately show ?case using IH r(2) by (simp add: take_add add.commute)
qed simp

lemma tiles_starts: "tiles a e ps \<Longrightarrow> 0 \<le> a \<Longrightarrow> \<forall>p \<in> set ps. 0 \<le> Length p \<Longrightarrow> \<forall>p \<in> set ps. 0 \<le> Start p"
  by (induction ps arbitrary: a) auto

text \<open>C39: when all parts of a download are done, however often their requests failed, broke off or were given to other workers, the
  bytes that it gives are those of the range.\<close>

theorem download_gives_the_range:
  assumes "0 < dlPartSize cfg" "dlPartSize cfg < Length r" "int64_range (Length r + dlPartSize cfg)" "range_in (int (length b)) r"
    and "list_all (list_all (honest b)) (map evs [0..<nat (max_part (dlPartSize cfg) (Length r))])"
    and "downloaded cfg (int (length b)) evs (download_plan (dlPartSize cfg) r) = Some bytes"
  shows "bytes = slice_of b r"
proof -
  let ?plan = "download_plan (dlPartSize cfg) r"
  have s: "0 \<le> Start r" using assms(4) by (simp add: range_in_def)
  note plan = download_plan_tiles[OF assms(1-3) s]
  have n: "nat (max_part (dlPartSize cfg) (Length r)) = length ?plan" using plan(2) by simp
  let ?part = "\<lambda>(i, p). download_part cfg (int (length b)) i (evs i) p"
  have done0: "\<forall>x \<in> set (enumerate 0 ?plan). dpState (?part x) = Done" and bytes: "bytes = concat (map (\<lambda>x. dpBuf (?part x)) (enumerate 0 ?plan))"
    using assms(6) by (auto simp: downloaded_def Let_def list_all_iff comp_def split: if_splits)
  have nn: "\<forall>p \<in> set ?plan. 0 \<le> Start p \<and> 0 \<le> Length p"
  proof -
    have "\<forall>p \<in> set ?plan. 0 \<le> Length p" using plan(3) by (auto simp: list_all_iff)
    then show ?thesis using tiles_starts[OF plan(1) s] by blast
  qed
  have "dpBuf (?part x) = slice_of b (snd x)" if x: "x \<in> set (enumerate 0 ?plan)" for x
  proof -
    obtain i p where ip: "x = (i, p)" by fastforce
    then have i: "i < length ?plan" "p \<in> set ?plan" using x by (auto simp: in_set_enumerate_eq)
    have "list_all (honest b) (evs i)" using assms(5) i(1) n by (simp add: list_all_iff)
    then have "part_inv b p (?part x)" using download_part_inv nn i(2) ip by simp
    moreover have "dpState (?part x) = Done" using done0 x by blast
    ultimately have "dpBuf (?part x) = take (nat (Length p)) (slice_of b p)" unfolding part_inv_def front_of_def by (metis nat_int)
    then show ?thesis using ip by (simp add: slice_of_def)
  qed
  then have "map (\<lambda>x. dpBuf (?part x)) (enumerate 0 ?plan) = map (\<lambda>x. slice_of b (snd x)) (enumerate 0 ?plan)" by (intro map_cong) auto
  also have "\<dots> = map (slice_of b) ?plan" by (metis (no_types, lifting) map_snd_enumerate comp_apply list.map_comp map_eq_conv)
  finally have "bytes = concat (map (slice_of b) ?plan)" using bytes by simp
  also have "\<dots> = slice_of b r"
    using tiles_slices[OF s plan(1), of b] nn by (simp add: list_all_iff slice_of_def)
  finally show ?thesis .
qed

text \<open>A download in three parts, whose second part is refused once and broken off once.\<close>

definition demo_server :: "nat \<Rightarrow> bool \<Rightarrow> string \<Rightarrow> bool \<times> (http_range \<Rightarrow> http_reply)" where
  "demo_server n broken b = (False, \<lambda>r. Reply \<lparr>rsContentRange = ''bytes 0-0/11'', rsContentLength = 0, rsBody = take n (slice_of b r), rsBroken = broken\<rparr>)"

definition demo_events :: "string \<Rightarrow> nat \<Rightarrow> (bool \<times> (http_range \<Rightarrow> http_reply)) list" where
  "demo_events b i = (if i = 1 then [(False, \<lambda>r. ReplyError (Some 429)), demo_server 1 True b, demo_server 9 False b] else [demo_server 9 False b])"

lemma demo_server_honest: "honest b (demo_server n broken b)" "honest b (c, \<lambda>r. ReplyError e)"
  by (auto simp: honest_def demo_server_def slice_of_def take_is_prefix)

definition demo_cfg :: download_cfg where
  "demo_cfg = \<lparr>dlPartSize = 4, dlRetries = 3\<rparr>"

theorem download_gives_the_range_witness:
  "downloaded demo_cfg 11 (demo_events ''hello world'') (download_plan 4 \<lparr>Start = 1, Length = 10\<rparr>) = Some ''ello world''"
proof -
  let ?b = "''hello world''" and ?r = "\<lparr>Start = 1, Length = 10\<rparr>"
  have "map_option (\<lambda>_. ()) (downloaded demo_cfg (int (length ?b)) (demo_events ?b) (download_plan (dlPartSize demo_cfg) ?r)) = Some ()" by code_simp
  then obtain bytes where d: "downloaded demo_cfg (int (length ?b)) (demo_events ?b) (download_plan (dlPartSize demo_cfg) ?r) = Some bytes" by auto
  have h: "list_all (list_all (honest ?b)) (map (demo_events ?b) [0..<nat (max_part (dlPartSize demo_cfg) (Length ?r))])"
    by (auto simp: list_all_iff demo_events_def demo_server_honest split: if_splits)
  have "bytes = slice_of ?b ?r"
    by (rule download_gives_the_range[OF _ _ _ _ h d]) (simp_all add: demo_cfg_def int64_range_def range_in_def)
  moreover have "slice_of ?b ?r = ''ello world''" by code_simp
  moreover have "int (length ?b) = 11" "dlPartSize demo_cfg = 4" by (simp_all add: demo_cfg_def)
  ultimately show ?thesis using d by metis
qed

text \<open>A server that sends more than it was asked for: the part is full, but the surplus counts as an error, and the next
  request is for no bytes.\<close>

lemma surplus_is_requested_again:
  "download_part demo_cfg 11 0 [(False, \<lambda>r. Reply \<lparr>rsContentRange = '''', rsContentLength = 11, rsBody = ''hello world'', rsBroken = False\<rparr>)]
     \<lparr>Start = 0, Length = 4\<rparr> = \<lparr>dpStart = 4, dpSize = 0, dpBuf = ''hell'', dpRetry = 1, dpState = Active\<rparr>"
  by code_simp

end
