(* ===== verification/Chunk_Driver.thy ===== *)
theory Chunk_Driver imports Serve_Content begin

text \<open>
  The chunk driver, \<open>drivers/chunk/driver.go\<close>: a file is stored as a directory of parts in another storage, and
  read as the sequence of its parts.  That storage is a parameter: a put of a named part, and the link and the
  size of a part.  Thumbnails, hashes of files and times are not modelled.
\<close>

record chunk_cfg =
  PartSize :: int
  ChunkPrefix :: string
  CustomExt :: string
  StoreHash :: bool
  ChunkLargeFileOnly :: bool

definition chunk_Init :: "chunk_cfg \<Rightarrow> bool" where
  "chunk_Init d \<longleftrightarrow> PartSize d > 0 \<and> ChunkPrefix d \<noteq> ''''"

definition getPartName :: "chunk_cfg \<Rightarrow> int \<Rightarrow> string" where
  "getPartName d part = format_int part @ CustomExt d"

section \<open>Storing a file\<close>

text \<open>\<open>rput name bytes\<close> puts a file to the directory of the parts; the result is the new remote and whether it succeeded.\<close>

record 'w remote =
  rput :: "string \<Rightarrow> string \<Rightarrow> 'w \<Rightarrow> 'w \<times> bool"
  rremove :: "'w \<Rightarrow> 'w"
  rdirect :: "string \<Rightarrow> 'w \<Rightarrow> 'w \<times> bool"

fun put_hashes :: "chunk_cfg \<Rightarrow> 'w remote \<Rightarrow> (string \<times> string) list \<Rightarrow> 'w \<Rightarrow> 'w" where
  "put_hashes d rm [] w = w"
| "put_hashes d rm ((alg, v) # hs) w = put_hashes d rm hs (fst (rput rm (''hash_'' @ alg @ ''_'' @ v @ CustomExt d) [CHR 0x00] w))"

definition part_counts :: "chunk_cfg \<Rightarrow> int \<Rightarrow> int \<times> int" where
  "part_counts d sz =
     (let fullPartCount = go_div sz (PartSize d); tailSize = go_mod sz (PartSize d)
      in if tailSize = 0 \<and> fullPartCount > 0 then (fullPartCount - 1, PartSize d) else (fullPartCount, tailSize))"

text \<open>The loop over the full parts and the last put; \<open>n\<close> full parts are left.\<close>

fun put_parts :: "chunk_cfg \<Rightarrow> 'w remote \<Rightarrow> nat \<Rightarrow> int \<Rightarrow> string \<Rightarrow> 'w \<Rightarrow> 'w \<times> bool" where
  "put_parts d rm 0 partIndex reader w = rput rm (getPartName d partIndex) reader w"
| "put_parts d rm (Suc n) partIndex reader w =
     (case rput rm (getPartName d partIndex) (take (nat (PartSize d)) reader) w of
        (w, True) \<Rightarrow> put_parts d rm n (partIndex + 1) (drop (nat (PartSize d)) reader) w
      | (w, False) \<Rightarrow> (w, False))"

definition chunk_Put :: "chunk_cfg \<Rightarrow> 'w remote \<Rightarrow> (string \<times> string) list \<Rightarrow> string \<Rightarrow> 'w \<Rightarrow> 'w \<times> bool" where
  "chunk_Put d rm hashes file w =
     (let sz = int (length file) in
      if ChunkLargeFileOnly d \<and> sz \<le> PartSize d then rdirect rm file w
      else let w = (if StoreHash d then put_hashes d rm hashes w else w);
               (fullPartCount, tailSize) = part_counts d sz
           in case put_parts d rm (nat fullPartCount) 0 file w of
                (w, True) \<Rightarrow> (w, True)
              | (w, False) \<Rightarrow> (rremove rm w, False))"

section \<open>Finding the parts of a file\<close>

record part_obj =
  poName :: string
  poSize :: int
  poDir :: bool

definition trim_suffix :: "string \<Rightarrow> string \<Rightarrow> string" where
  "trim_suffix s p = (if has_suffix s p then take (length s - length p) s else s)"

text \<open>The sizes by index, from \<open>[-1]\<close>; \<^const>\<open>None\<close> is the panic of a negative index.\<close>

fun scan_chunks :: "chunk_cfg \<Rightarrow> part_obj list \<Rightarrow> int \<times> int list \<Rightarrow> (int \<times> int list) option" where
  "scan_chunks d [] st = Some st"
| "scan_chunks d (ob # obs) (totalSize, chunkSizes) =
     (if poDir ob then scan_chunks d obs (totalSize, chunkSizes)
      else if has_prefix (poName ob) ''hash_'' then scan_chunks d obs (totalSize, chunkSizes)
      else case parse_int (trim_suffix (poName ob) (CustomExt d)) of
        None \<Rightarrow> scan_chunks d obs (totalSize, chunkSizes)
      | Some idx \<Rightarrow>
          if idx < 0 then None
          else let i = nat idx; total = wrap64 (totalSize + poSize ob)
               in if length chunkSizes > i then scan_chunks d obs (total, chunkSizes[i := poSize ob])
                  else scan_chunks d obs (total, (chunkSizes @ replicate (i + 1 - length chunkSizes) 0)[i := poSize ob]))"

definition chunk_scan :: "chunk_cfg \<Rightarrow> part_obj list \<Rightarrow> (int \<times> int list) option" where
  "chunk_scan d objs = scan_chunks d objs (0, [-1])"

definition chunks_complete :: "int list \<Rightarrow> bool" where
  "chunks_complete sizes \<longleftrightarrow> hd sizes \<noteq> -1 \<and> 0 \<notin> set (butlast (tl sizes))"

text \<open>How a directory with the prefix is shown: as a file of the size of its parts, or as the directory it is.\<close>

definition show_chunk_dir :: "chunk_cfg \<Rightarrow> string \<Rightarrow> part_obj list \<Rightarrow> (string \<times> int \<times> bool) option" where
  "show_chunk_dir d rawName objs =
     map_option (\<lambda>(total, sizes).
       if chunks_complete sizes then (drop (length (ChunkPrefix d)) rawName, total, False) else (rawName, 0, True)) (chunk_scan d objs)"

section \<open>Reading a range of a file\<close>

datatype chunk_err = PartMissing nat | PartSize_mismatch nat | PartError "int option" | InvalidRange

text \<open>\<open>links i\<close> is the link of part \<open>i\<close>: its size and its range reader.\<close>

fun merged_read :: "(nat \<Rightarrow> int option + int \<times> range_reader) \<Rightarrow> nat \<Rightarrow> int list \<Rightarrow> bool \<Rightarrow> int \<Rightarrow> int \<Rightarrow> string \<Rightarrow> chunk_err + string" where
  "merged_read links idx [] readFrom start len acc = Inl InvalidRange"
| "merged_read links idx (chunkSize # sizes) readFrom start len acc =
     (if readFrom then
        (case links idx of
           Inl e \<Rightarrow> Inl (PartError e)
         | Inr (chunkSize2, rrf) \<Rightarrow>
             if chunkSize2 \<noteq> chunkSize then Inl (PartSize_mismatch idx)
             else let newLength = wrap64 (len - chunkSize2) in
               (case rrf \<lparr>Start = 0, Length = (if newLength \<ge> 0 then -1 else len)\<rparr> of
                  Inl e \<Rightarrow> Inl (PartError e)
                | Inr bs \<Rightarrow> if newLength \<le> 0 then Inr (acc @ bs) else merged_read links (idx + 1) sizes True start newLength (acc @ bs)))
      else let newStart = wrap64 (start - chunkSize) in
        if newStart \<ge> 0 then merged_read links (idx + 1) sizes False newStart len acc
        else (case links idx of
           Inl e \<Rightarrow> Inl (PartError e)
         | Inr (chunkSize2, rrf) \<Rightarrow>
             if chunkSize2 \<noteq> chunkSize then Inl (PartSize_mismatch idx)
             else (case rrf \<lparr>Start = start, Length = -1\<rparr> of
                  Inl e \<Rightarrow> Inl (PartError e)
                | Inr bs \<Rightarrow>
                    (let newLength = wrap64 (len - wrap64 (chunkSize2 - start))
                     in if newLength \<le> 0 then Inr bs else merged_read links (idx + 1) sizes True start newLength (acc @ bs)))))"

definition mergedRrf :: "(nat \<Rightarrow> int option + int \<times> range_reader) \<Rightarrow> int \<Rightarrow> int list \<Rightarrow> http_range \<Rightarrow> chunk_err + string" where
  "mergedRrf links fileSize sizes r =
     (let start = Start r;
          len = (if Length r < 0 \<or> wrap64 (start + Length r) > fileSize then wrap64 (fileSize - start) else Length r)
      in if len = 0 then Inr '''' else merged_read links 0 sizes False start len '''')"

text \<open>\<open>Link\<close> refuses a file that misses a part.\<close>

definition chunk_Link :: "(nat \<Rightarrow> int option + int \<times> range_reader) \<Rightarrow> int \<Rightarrow> int list \<Rightarrow> chunk_err + (http_range \<Rightarrow> chunk_err + string)" where
  "chunk_Link links fileSize sizes =
     (if hd sizes = -1 then Inl (PartMissing 0)
      else if 0 \<in> set (butlast (tl sizes)) then Inl (PartMissing (Suc (length (takeWhile (\<lambda>s. s \<noteq> 0) (tl sizes)))))
      else Inr (mergedRrf links fileSize sizes))"

section \<open>A range of the parts is a range of the file\<close>

definition part_reads :: "range_reader \<Rightarrow> string \<Rightarrow> bool" where
  "part_reads rr p \<longleftrightarrow>
     (\<forall>s. 0 \<le> s \<and> s \<le> int (length p) \<longrightarrow> rr \<lparr>Start = s, Length = -1\<rparr> = Inr (drop (nat s) p))
     \<and> (\<forall>l. 0 < l \<and> l < int (length p) \<longrightarrow> (\<exists>bs. rr \<lparr>Start = 0, Length = l\<rparr> = Inr bs \<and> take (nat l) bs = take (nat l) p))"

definition links_read :: "(nat \<Rightarrow> int option + int \<times> range_reader) \<Rightarrow> nat \<Rightarrow> string list \<Rightarrow> bool" where
  "links_read links idx ps \<longleftrightarrow> (\<forall>i < length ps. \<exists>rr. links (idx + i) = Inr (int (length (ps ! i)), rr) \<and> part_reads rr (ps ! i))"

definition sizes_of :: "string list \<Rightarrow> int list" where
  "sizes_of ps = map (\<lambda>p. int (length p)) ps"

lemma links_read_Cons:
  assumes "links_read links idx (p # ps)"
  obtains rr where "links idx = Inr (int (length p), rr)" "part_reads rr p" "links_read links (idx + 1) ps"
proof -
  have "\<exists>rr. links (idx + 0) = Inr (int (length ((p # ps) ! 0)), rr) \<and> part_reads rr ((p # ps) ! 0)"
    using assms unfolding links_read_def by (metis length_greater_0_conv list.discI)
  then obtain rr where rr: "links idx = Inr (int (length p), rr)" "part_reads rr p" by auto
  have "links_read links (idx + 1) ps" unfolding links_read_def
  proof (intro allI impI)
    fix i assume "i < length ps"
    then show "\<exists>rr. links (idx + 1 + i) = Inr (int (length (ps ! i)), rr) \<and> part_reads rr (ps ! i)"
      using assms unfolding links_read_def by (drule_tac x = "Suc i" in spec) simp
  qed
  then show thesis using that rr by blast
qed

lemma read_rest:
  "links_read links idx ps \<Longrightarrow> 0 < len \<Longrightarrow> len \<le> int (length (concat ps)) \<Longrightarrow> int64_range (int (length (concat ps))) \<Longrightarrow>
   \<exists>t. merged_read links idx (sizes_of ps) True start len acc = Inr (acc @ t) \<and> take (nat len) t = take (nat len) (concat ps)"
proof (induction ps arbitrary: idx len acc)
  case (Cons p ps)
  obtain rr where rr: "links idx = Inr (int (length p), rr)" "part_reads rr p" "links_read links (idx + 1) ps"
    using links_read_Cons[OF Cons.prems(1)] .
  define nl where "nl = len - int (length p)"
  have nl: "wrap64 (len - int (length p)) = nl" using Cons.prems(2-4) by (auto simp: nl_def int64_range_def intro!: wrap64_id)
  have whole: "rr \<lparr>Start = 0, Length = -1\<rparr> = Inr p" using rr(2) by (auto simp: part_reads_def dest!: spec[where x = 0])
  show ?case
  proof (cases "nl < 0")
    case True
    then obtain bs where "rr \<lparr>Start = 0, Length = len\<rparr> = Inr bs" "take (nat len) bs = take (nat len) p"
      using rr(2) Cons.prems(2) by (auto simp: part_reads_def nl_def)
    moreover have "nat len \<le> length p" using True by (simp add: nl_def)
    ultimately show ?thesis using rr(1) nl True by (simp add: sizes_of_def Let_def)
  next
    case False
    show ?thesis
    proof (cases "nl = 0")
      case True
      then have "nat len = length p" by (simp add: nl_def)
      then show ?thesis using rr(1) nl True whole by (simp add: sizes_of_def Let_def)
    next
      case pos: False
      have "nl \<le> int (length (concat ps))" "int64_range (int (length (concat ps)))" using Cons.prems(3,4) by (simp_all add: nl_def int64_range_def)
      then obtain t where t: "merged_read links (idx + 1) (sizes_of ps) True start nl (acc @ p) = Inr ((acc @ p) @ t)" "take (nat nl) t = take (nat nl) (concat ps)"
        using Cons.IH[OF rr(3), of nl "acc @ p"] False pos by auto
      have "merged_read links idx (sizes_of (p # ps)) True start len acc = Inr (acc @ (p @ t))"
        using rr(1) nl False pos whole t(1) by (simp add: sizes_of_def Let_def)
      moreover have "nat len = length p + nat nl" using False by (simp add: nl_def)
      then have "take (nat len) (p @ t) = take (nat len) (concat (p # ps))" using t(2) by simp
      ultimately show ?thesis by blast
    qed
  qed
qed simp

lemma read_from:
  "links_read links idx ps \<Longrightarrow> 0 \<le> start \<Longrightarrow> 0 < len \<Longrightarrow> start + len \<le> int (length (concat ps)) \<Longrightarrow> int64_range (int (length (concat ps))) \<Longrightarrow>
   \<exists>t. merged_read links idx (sizes_of ps) False start len '''' = Inr t \<and> take (nat len) t = take (nat len) (drop (nat start) (concat ps))"
proof (induction ps arbitrary: idx start)
  case (Cons p ps)
  obtain rr where rr: "links idx = Inr (int (length p), rr)" "part_reads rr p" "links_read links (idx + 1) ps"
    using links_read_Cons[OF Cons.prems(1)] .
  have ns: "wrap64 (start - int (length p)) = start - int (length p)" using Cons.prems(2-5) by (auto simp: int64_range_def intro!: wrap64_id)
  have rest: "int64_range (int (length (concat ps)))" using Cons.prems(5) by (simp add: int64_range_def)
  show ?case
  proof (cases "start - int (length p) \<ge> 0")
    case True
    have "start - int (length p) + len \<le> int (length (concat ps))" using Cons.prems(4) by simp
    then obtain t where "merged_read links (idx + 1) (sizes_of ps) False (start - int (length p)) len '''' = Inr t"
      "take (nat len) t = take (nat len) (drop (nat (start - int (length p))) (concat ps))"
      using Cons.IH[OF rr(3) True Cons.prems(3) _ rest] by blast
    moreover have "drop (nat start) (p @ concat ps) = drop (nat (start - int (length p))) (concat ps)"
      using True by (simp add: nat_diff_distrib')
    ultimately show ?thesis using True ns by (simp add: sizes_of_def Let_def)
  next
    case False
    define r where "r = drop (nat start) p"
    have lr: "int (length r) = int (length p) - start" using False Cons.prems(2) by (simp add: r_def)
    have rd: "rr \<lparr>Start = start, Length = -1\<rparr> = Inr r" using rr(2) False Cons.prems(2) by (simp add: part_reads_def r_def)
    have whole: "drop (nat start) (concat (p # ps)) = r @ concat ps" using False Cons.prems(2) by (simp add: r_def)
    define nl where "nl = len - int (length r)"
    have "wrap64 (int (length p) - start) = int (length r)" "wrap64 (len - int (length r)) = nl"
      using lr Cons.prems(2-5) False by (auto simp: nl_def int64_range_def intro!: wrap64_id)
    then have nl: "wrap64 (len - wrap64 (int (length p) - start)) = nl" by simp
    show ?thesis
    proof (cases "nl \<le> 0")
      case True
      then have "nat len \<le> length r" by (simp add: nl_def)
      then have "take (nat len) r = take (nat len) (drop (nat start) (concat (p # ps)))" unfolding whole by simp
      moreover have "merged_read links idx (sizes_of (p # ps)) False start len '''' = Inr r"
        using rr(1) rd nl ns False True by (simp add: sizes_of_def Let_def)
      ultimately show ?thesis by blast
    next
      case pos: False
      have "nl \<le> int (length (concat ps))" using Cons.prems(4) lr by (simp add: nl_def)
      then obtain t where t: "merged_read links (idx + 1) (sizes_of ps) True start nl r = Inr (r @ t)" "take (nat nl) t = take (nat nl) (concat ps)"
        using read_rest[OF rr(3), of nl start r] pos rest by auto
      have "merged_read links idx (sizes_of (p # ps)) False start len '''' = Inr (r @ t)"
        using rr(1) rd nl ns False pos t(1) by (simp add: sizes_of_def Let_def)
      moreover have "nat len = length r + nat nl" using pos by (simp add: nl_def)
      then have "take (nat len) (r @ t) = take (nat len) (drop (nat start) (concat (p # ps)))" unfolding whole using t(2) by simp
      ultimately show ?thesis by blast
    qed
  qed
qed simp

lemma mergedRrf_reads:
  assumes "links_read links 0 ps" "int64_range (int (length (concat ps)))"
  shows "reads_content (\<lambda>r. case mergedRrf links (int (length (concat ps))) (sizes_of ps) r of Inl e \<Rightarrow> Inl None | Inr bs \<Rightarrow> Inr bs) (concat ps)"
proof -
  let ?n = "int (length (concat ps))" and ?b = "concat ps"
  have run: "\<exists>t. mergedRrf links ?n (sizes_of ps) r = Inr t \<and> take (nat l) t = take (nat l) (drop (nat (Start r)) ?b)"
    if "l = (if Length r < 0 \<or> wrap64 (Start r + Length r) > ?n then wrap64 (?n - Start r) else Length r)" "0 \<le> Start r" "0 \<le> l" "Start r + l \<le> ?n" for r l
  proof (cases "l = 0")
    case True
    then show ?thesis using that(1) by (simp add: mergedRrf_def Let_def)
  next
    case False
    then show ?thesis using read_from[OF assms(1) that(2), of l] that assms(2) by (simp add: mergedRrf_def Let_def split: if_splits)
  qed
  have "\<exists>bs. mergedRrf links ?n (sizes_of ps) r = Inr bs \<and> take (nat (Length r)) bs = slice_of ?b r" if r: "range_in ?n r" for r
  proof -
    have "wrap64 (Start r + Length r) = Start r + Length r" using r assms(2) by (auto simp: range_in_def int64_range_def intro!: wrap64_id)
    then show ?thesis using run[of "Length r" r] r by (simp add: range_in_def slice_of_def)
  qed
  moreover have "\<exists>bs. mergedRrf links ?n (sizes_of ps) \<lparr>Start = 0, Length = -1\<rparr> = Inr bs \<and> take (length ?b) bs = ?b"
    using run[of ?n "\<lparr>Start = 0, Length = -1\<rparr>"] assms(2) by (simp add: wrap64_id)
  ultimately show ?thesis unfolding reads_content_def by fastforce
qed

section \<open>A listing of the parts gives their sizes\<close>

definition scan_state :: "(nat \<Rightarrow> int) \<Rightarrow> nat set \<Rightarrow> int \<times> int list \<Rightarrow> bool" where
  "scan_state L A st \<longleftrightarrow> finite A \<and> fst st = sum L A \<and> 1 \<le> length (snd st)
     \<and> (\<forall>i < length (snd st). snd st ! i = (if i \<in> A then L i else if i = 0 then -1 else 0))
     \<and> (\<forall>i \<in> A. i < length (snd st)) \<and> (length (snd st) = 1 \<or> length (snd st) - 1 \<in> A)"

lemma scan_state_add:
  assumes "scan_state L A (tot, sz)" "i \<notin> A"
  shows "scan_state L (insert i A) (tot + L i, if length sz > i then sz[i := L i] else (sz @ replicate (i + 1 - length sz) 0)[i := L i])"
  using assms unfolding scan_state_def by (auto simp: nth_list_update nth_append)

lemma trim_suffix_append [simp]: "trim_suffix (s @ e) e = s"
  by (simp add: trim_suffix_def has_suffix_iff)

lemma part_name_index: "0 \<le> i \<Longrightarrow> int64_range i \<Longrightarrow> parse_int (trim_suffix (getPartName d i) (CustomExt d)) = Some i"
  by (simp add: getPartName_def parse_format_int)

lemma part_name_not_hash: "0 \<le> i \<Longrightarrow> \<not> has_prefix (getPartName d i) ''hash_''"
proof
  assume i: "0 \<le> i" "has_prefix (getPartName d i) ''hash_''"
  obtain c cs where c: "format_int i = c # cs" by (meson format_int_nonempty neq_Nil_conv)
  then have "is_digit c" using format_int_nonneg_chars[OF i(1), of c] by simp
  moreover have "c = CHR ''h''" using i(2) c by (auto simp: getPartName_def)
  ultimately show False by (simp add: is_digit_def)
qed

lemma part_name_inj: "getPartName d i = getPartName d j \<longleftrightarrow> i = j"
  using format_int_inj by (auto simp: getPartName_def)

text \<open>The objects of a directory of \<open>k\<close> parts with the sizes \<open>L\<close>, in any order, between objects that record hashes.\<close>

definition part_objs :: "chunk_cfg \<Rightarrow> nat \<Rightarrow> (nat \<Rightarrow> int) \<Rightarrow> part_obj list \<Rightarrow> bool" where
  "part_objs d k L objs \<longleftrightarrow> distinct (map poName objs)
     \<and> (\<forall>ob \<in> set objs. \<not> poDir ob \<and> (has_prefix (poName ob) ''hash_'' \<or> (\<exists>i < k. poName ob = getPartName d (int i) \<and> poSize ob = L i)))"

definition indices :: "chunk_cfg \<Rightarrow> nat \<Rightarrow> part_obj list \<Rightarrow> nat set" where
  "indices d k objs = {i. i < k \<and> getPartName d (int i) \<in> poName ` set objs}"

lemma scan_chunks_state:
  assumes "int64_range (int k)" "\<And>i. i < k \<Longrightarrow> 0 \<le> L i" "int64_range (sum L {..<k})"
  shows "part_objs d k L objs \<Longrightarrow> scan_state L A st \<Longrightarrow> A \<subseteq> {..<k} \<Longrightarrow> A \<inter> indices d k objs = {} \<Longrightarrow>
    \<exists>st'. scan_chunks d objs st = Some st' \<and> scan_state L (A \<union> indices d k objs) st'"
proof (induction objs arbitrary: A st)
  case Nil
  then show ?case by (simp add: indices_def)
next
  case (Cons ob objs)
  obtain tot sz where st: "st = (tot, sz)" by fastforce
  have po: "part_objs d k L objs" using Cons.prems(1) by (auto simp: part_objs_def)
  show ?case
  proof (cases "has_prefix (poName ob) ''hash_''")
    case True
    then have "getPartName d (int i) \<noteq> poName ob" for i using part_name_not_hash[of "int i" d] by auto
    then have "indices d k (ob # objs) = indices d k objs" by (auto simp: indices_def)
    moreover have "scan_chunks d (ob # objs) st = scan_chunks d objs st" using True Cons.prems(1) st by (auto simp: part_objs_def)
    ultimately show ?thesis using Cons.IH[OF po Cons.prems(2,3)] Cons.prems(4) by simp
  next
    case False
    then obtain i where i: "i < k" "poName ob = getPartName d (int i)" "poSize ob = L i" "\<not> poDir ob"
      using Cons.prems(1) by (auto simp: part_objs_def)
    have ind: "indices d k (ob # objs) = insert i (indices d k objs)" using i(1,2) part_name_inj[of d] by (auto simp: indices_def)
    have "poName ob \<notin> poName ` set objs" using Cons.prems(1) by (simp add: part_objs_def)
    then have "i \<notin> indices d k objs" using i(2) by (simp add: indices_def)
    moreover have iA: "i \<notin> A" using Cons.prems(4) ind by auto
    ultimately have dis: "insert i A \<inter> indices d k objs = {}" using Cons.prems(4) ind by auto
    define sz' where "sz' = (if length sz > i then sz[i := L i] else (sz @ replicate (i + 1 - length sz) 0)[i := L i])"
    have s': "scan_state L (insert i A) (tot + L i, sz')" using scan_state_add[of L A tot sz i] Cons.prems(2) iA by (simp add: st sz'_def)
    then have "tot + L i = sum L (insert i A)" by (simp add: scan_state_def)
    moreover have "sum L (insert i A) \<le> sum L {..<k}" "0 \<le> sum L (insert i A)"
      using i(1) Cons.prems(3) assms(2) by (auto intro!: sum_mono2 sum_nonneg)
    ultimately have w: "wrap64 (tot + L i) = tot + L i" using assms(3) by (auto simp: int64_range_def intro!: wrap64_id)
    have "int64_range (int i)" using i(1) assms(1) by (simp add: int64_range_def)
    then have "parse_int (trim_suffix (poName ob) (CustomExt d)) = Some (int i)" using part_name_index[of "int i" d] i(2) by simp
    then have "scan_chunks d (ob # objs) st = scan_chunks d objs (tot + L i, sz')"
      using False i w by (simp add: st Let_def sz'_def)
    then show ?thesis using Cons.IH[OF po s' _ dis] Cons.prems(3) i(1) ind by (simp add: insert_commute)
  qed
qed

lemma chunk_scan_sizes:
  assumes "int64_range (int k)" "\<And>i. i < k \<Longrightarrow> 0 \<le> L i" "int64_range (sum L {..<k})" "0 < k"
    and "part_objs d k L objs" "indices d k objs = {..<k}"
  shows "chunk_scan d objs = Some (sum L {..<k}, map L [0..<k])"
proof -
  have "scan_state L {} (0, [-1])" by (simp add: scan_state_def)
  then obtain st where st: "chunk_scan d objs = Some st" "scan_state L {..<k} st"
    using scan_chunks_state[OF assms(1-3,5), of "{}" "(0, [-1])"] assms(6) by (auto simp: chunk_scan_def)
  have "length (snd st) = k"
  proof -
    have "k - 1 < length (snd st)" using st(2) assms(4) by (auto simp: scan_state_def)
    moreover have "length (snd st) \<le> k" using st(2) assms(4) by (auto simp: scan_state_def)
    ultimately show ?thesis by simp
  qed
  then have "snd st = map L [0..<k]" using st(2) by (intro nth_equalityI) (auto simp: scan_state_def)
  moreover have "fst st = sum L {..<k}" using st(2) by (simp add: scan_state_def)
  ultimately show ?thesis using st(1) by (metis prod.collapse)
qed

section \<open>A file that is stored is read back\<close>

fun cut_parts :: "nat \<Rightarrow> nat \<Rightarrow> string \<Rightarrow> string list" where
  "cut_parts P 0 c = [c]"
| "cut_parts P (Suc n) c = take P c # cut_parts P n (drop P c)"

lemma cut_parts_simps [simp]: "concat (cut_parts P n c) = c" "length (cut_parts P n c) = Suc n"
  by (induction n arbitrary: c) simp_all

lemma cut_parts_full: "n * P < length c \<Longrightarrow> p \<in> set (cut_parts P n c) \<Longrightarrow> 0 < P \<Longrightarrow> p \<noteq> ''''"
proof (induction n arbitrary: c)
  case (Suc n)
  have "n * P < length (drop P c)" using Suc.prems(1) by simp
  then have "p \<in> set (cut_parts P n (drop P c)) \<Longrightarrow> p \<noteq> ''''" using Suc.IH Suc.prems(3) by blast
  moreover have "take P c \<noteq> ''''" using Suc.prems(1,3) by auto
  ultimately show ?case using Suc.prems(2) by auto
qed auto

text \<open>What is relied on of the storage of the parts: a put that succeeds stores the bytes under the
  name, and one that fails leaves the other files alone.\<close>

definition store_law :: "'w remote \<Rightarrow> ('w \<Rightarrow> string \<Rightarrow> string option) \<Rightarrow> bool" where
  "store_law rm files \<longleftrightarrow> (\<forall>n b w. case rput rm n b w of (w', ok) \<Rightarrow>
     (\<forall>x. x \<noteq> n \<longrightarrow> files w' x = files w x) \<and> (ok \<longrightarrow> files w' n = Some b))"

lemma store_lawE:
  assumes "store_law rm files" "rput rm n b w = (w', ok)"
  shows "(\<forall>x. x \<noteq> n \<longrightarrow> files w' x = files w x) \<and> (ok \<longrightarrow> files w' n = Some b)"
proof -
  have "case rput rm n b w of (w', ok) \<Rightarrow> (\<forall>x. x \<noteq> n \<longrightarrow> files w' x = files w x) \<and> (ok \<longrightarrow> files w' n = Some b)"
    using assms(1)[unfolded store_law_def, THEN spec, of n, THEN spec, of b, THEN spec, of w] .
  then show ?thesis unfolding assms(2) prod.case .
qed

lemma store_law_frame: "store_law rm files \<Longrightarrow> rput rm n b w = (w', ok) \<Longrightarrow> x \<noteq> n \<Longrightarrow> files w' x = files w x"
  using conjunct1[OF store_lawE, of rm files n b w w' ok] by simp

lemma store_lawD:
  assumes "store_law rm files" "rput rm n b w = (w', True)"
  shows "files w' = (files w)(n \<mapsto> b)"
  using store_lawE[OF assms] by (simp add: fun_eq_iff)

lemma put_parts_files:
  assumes "store_law rm files"
  shows "put_parts d rm n i reader w = (w', True) \<Longrightarrow>
    (\<forall>j < Suc n. files w' (getPartName d (i + int j)) = Some (cut_parts (nat (PartSize d)) n reader ! j))
    \<and> (\<forall>x. (\<forall>j < Suc n. x \<noteq> getPartName d (i + int j)) \<longrightarrow> files w' x = files w x)"
proof (induction n arbitrary: i reader w)
  case 0
  then show ?case using store_lawD[OF assms] by simp
next
  case (Suc n)
  let ?P = "nat (PartSize d)"
  obtain w1 where w1: "rput rm (getPartName d i) (take ?P reader) w = (w1, True)" "put_parts d rm n (i + 1) (drop ?P reader) w1 = (w', True)"
    using Suc.prems by (auto split: prod.splits bool.splits)
  have f1: "files w1 = (files w)(getPartName d i \<mapsto> take ?P reader)" using store_lawD[OF assms w1(1)] by simp
  note IH = Suc.IH[OF w1(2)]
  have shift: "(\<forall>j < Suc (Suc n). Q j) \<longleftrightarrow> Q 0 \<and> (\<forall>j < Suc n. Q (Suc j))" for Q :: "nat \<Rightarrow> bool"
    using All_less_Suc2[of "Suc n" Q] by blast
  have "\<forall>j < Suc n. getPartName d i \<noteq> getPartName d (i + 1 + int j)" using part_name_inj[of d] by auto
  then have "files w' (getPartName d i) = Some (take ?P reader)" using IH f1 by simp
  moreover have "files w' x = files w x" if "x \<noteq> getPartName d i" "\<forall>j < Suc n. x \<noteq> getPartName d (i + 1 + int j)" for x
    using IH f1 that by simp
  ultimately show ?case using IH by (simp add: shift algebra_simps)
qed

lemma put_hashes_files:
  assumes "store_law rm files"
  shows "\<not> has_prefix x ''hash_'' \<Longrightarrow> files (put_hashes d rm hs w) x = files w x"
proof (induction hs arbitrary: w)
  case (Cons h hs)
  obtain alg v where h: "h = (alg, v)" by fastforce
  let ?n = "''hash_'' @ alg @ ''_'' @ v @ CustomExt d"
  have "x \<noteq> ?n" using Cons.prems has_prefix_append[of "''hash_''" "alg @ ''_'' @ v @ CustomExt d"] by auto
  obtain w1 ok where w1: "rput rm ?n [CHR 0x00] w = (w1, ok)" by fastforce
  then have "files w1 x = files w x" using store_law_frame[OF assms w1] \<open>x \<noteq> ?n\<close> by simp
  then show ?case using Cons w1 h by simp
qed simp

text \<open>The number of full parts leaves one part, which is empty only for an empty file.\<close>

lemma part_counts_bounds:
  assumes "0 < PartSize d" "part_counts d (int (length file)) = (full, tail)"
  shows "0 \<le> full" "full * PartSize d \<le> int (length file)" "file \<noteq> '''' \<Longrightarrow> full * PartSize d < int (length file)"
proof -
  let ?P = "PartSize d" and ?n = "int (length file)"
  have n: "?n = ?n div ?P * ?P + ?n mod ?P" by simp
  have q: "0 \<le> ?n div ?P" "0 \<le> ?n mod ?P" using assms(1) by (simp_all add: pos_imp_zdiv_nonneg_iff)
  have f: "full = (if ?n mod ?P = 0 \<and> ?n div ?P > 0 then ?n div ?P - 1 else ?n div ?P)"
    using assms by (auto simp: part_counts_def go_div_nonneg go_mod_nonneg Let_def split: if_splits)
  show "0 \<le> full" using f q by auto
  have "full * ?P \<le> ?n div ?P * ?P" using f assms(1) by (auto intro!: mult_right_mono)
  then show "full * ?P \<le> ?n" using n q(2) by linarith
  show "full * ?P < ?n" if "file \<noteq> ''''"
  proof (cases "?n mod ?P = 0 \<and> ?n div ?P > 0")
    case True
    then have "full = ?n div ?P - 1" using f by simp
    then have "full * ?P = ?n div ?P * ?P - ?P" by (simp only: left_diff_distrib mult_1)
    then show ?thesis using n True assms(1) by linarith
  next
    case False
    have "?n mod ?P \<noteq> 0"
    proof
      assume "?n mod ?P = 0"
      then have "?n div ?P = 0" using False q(1) by linarith
      then have "?n = 0" using n \<open>?n mod ?P = 0\<close> by simp
      then show False using that by simp
    qed
    moreover have "full * ?P = ?n div ?P * ?P" using f False by auto
    ultimately show ?thesis using n q(2) by linarith
  qed
qed

text \<open>The listing of the directory, and the links of the parts in it.\<close>

definition lists_parts :: "part_obj list \<Rightarrow> (string \<Rightarrow> string option) \<Rightarrow> bool" where
  "lists_parts objs f \<longleftrightarrow> distinct (map poName objs) \<and> (\<forall>ob \<in> set objs. \<not> poDir ob)
     \<and> map_of (map (\<lambda>ob. (poName ob, poSize ob)) objs) = (\<lambda>n. map_option (\<lambda>b. int (length b)) (f n))"

definition links_parts :: "chunk_cfg \<Rightarrow> (nat \<Rightarrow> int option + int \<times> range_reader) \<Rightarrow> (string \<Rightarrow> string option) \<Rightarrow> bool" where
  "links_parts d links f \<longleftrightarrow> (\<forall>i b. f (getPartName d (int i)) = Some b \<longrightarrow> (\<exists>rr. links i = Inr (int (length b), rr) \<and> part_reads rr b))"

definition only_hashes :: "(string \<Rightarrow> string option) \<Rightarrow> bool" where
  "only_hashes f \<longleftrightarrow> (\<forall>n. f n \<noteq> None \<longrightarrow> has_prefix n ''hash_'')"

lemma listed_parts:
  assumes "lists_parts objs f" "\<And>j. j < k \<Longrightarrow> f (getPartName d (int j)) = Some (ps ! j)"
    and "\<And>x. (\<forall>j < k. x \<noteq> getPartName d (int j)) \<Longrightarrow> f x \<noteq> None \<Longrightarrow> has_prefix x ''hash_''"
  shows "part_objs d k (\<lambda>j. int (length (ps ! j))) objs" "indices d k objs = {..<k}"
proof -
  let ?m = "map (\<lambda>ob. (poName ob, poSize ob)) objs"
  have dist: "distinct (map fst ?m)" using assms(1) by (simp add: lists_parts_def comp_def)
  have m: "map_of ?m = (\<lambda>n. map_option (\<lambda>b. int (length b)) (f n))" using assms(1) by (simp add: lists_parts_def)
  have at: "\<exists>b. f (poName ob) = Some b \<and> poSize ob = int (length b)" if "ob \<in> set objs" for ob
  proof -
    have "map_of ?m (poName ob) = Some (poSize ob)" using dist that by (auto intro!: map_of_is_SomeI)
    then show ?thesis unfolding m by (cases "f (poName ob)") auto
  qed
  have "has_prefix (poName ob) ''hash_'' \<or> (\<exists>i < k. poName ob = getPartName d (int i) \<and> poSize ob = int (length (ps ! i)))" if "ob \<in> set objs" for ob
    using at[OF that] assms(2) assms(3)[of "poName ob"] by fastforce
  then show "part_objs d k (\<lambda>j. int (length (ps ! j))) objs" using assms(1) by (simp add: part_objs_def lists_parts_def)
  have "getPartName d (int i) \<in> poName ` set objs" if "i < k" for i
  proof -
    have "map_of ?m (getPartName d (int i)) = Some (int (length (ps ! i)))" unfolding m using assms(2)[OF that] by simp
    then show ?thesis by (auto dest!: map_of_SomeD)
  qed
  then show "indices d k objs = {..<k}" by (auto simp: indices_def)
qed

text \<open>C40: A file that the chunk driver has stored in a directory where no parts were (nothing but files that hold a
  hash), with the storage of its parts keeping what is put there and the driver chunking files of any size, is
  listed with its size, and the reader of its link answers every range of the file: what it gives begins with
  the bytes of the range (and may go on after them: \<open>first_part_is_read_to_its_end\<close>).\<close>

theorem chunk_file_roundtrip:
  assumes "chunk_Init d" "store_law rm files" "int64_range (int (length file))" "\<not> ChunkLargeFileOnly d" "only_hashes (files w)"
    and "chunk_Put d rm hashes file w = (w', True)" "lists_parts objs (files w')" "links_parts d links (files w')"
  shows "\<exists>sizes rd. chunk_scan d objs = Some (int (length file), sizes) \<and> chunks_complete sizes \<and> chunk_Link links (int (length file)) sizes = Inr rd
    \<and> reads_content (\<lambda>r. map_sum (\<lambda>_. None) id (rd r)) file"
proof -
  let ?P = "nat (PartSize d)"
  obtain full tail where pc: "part_counts d (int (length file)) = (full, tail)" by fastforce
  define w1 where "w1 = (if StoreHash d then put_hashes d rm hashes w else w)"
  have P: "0 < PartSize d" using assms(1) by (simp add: chunk_Init_def)
  note b = part_counts_bounds[OF P pc]
  have put: "put_parts d rm (nat full) 0 file w1 = (w', True)"
    using assms(4,6) pc by (auto simp: chunk_Put_def Let_def w1_def split: prod.splits bool.splits)
  define ps where "ps = cut_parts ?P (nat full) file"
  define k where "k = Suc (nat full)"
  have ps: "length ps = k" "concat ps = file" by (simp_all add: ps_def k_def)
  have at: "files w' (getPartName d (int j)) = Some (ps ! j)" if "j < k" for j
    using put_parts_files[OF assms(2) put] that by (simp add: ps_def k_def)
  have w1_files: "files w1 x = files w x" if "\<not> has_prefix x ''hash_''" for x
    using put_hashes_files[OF assms(2) that, of d hashes w] by (simp add: w1_def)
  have else0: "has_prefix x ''hash_''" if "\<forall>j < k. x \<noteq> getPartName d (int j)" "files w' x \<noteq> None" for x
  proof (rule ccontr)
    assume n: "\<not> has_prefix x ''hash_''"
    have "files w' x = files w1 x" using put_parts_files[OF assms(2) put] that(1) by (simp add: k_def)
    then show False using w1_files[OF n] that(2) assms(5) n by (auto simp: only_hashes_def)
  qed
  note l = listed_parts[where ps = ps and k = k and d = d, OF assms(7) at else0]
  let ?L = "\<lambda>j. int (length (ps ! j))"
  have sizes: "map ?L [0..<k] = sizes_of ps" unfolding sizes_of_def ps(1)[symmetric] by (rule nth_equalityI) simp_all
  have "sum ?L {..<k} = sum_list (map ?L [0..<k])" by (simp add: interv_sum_list_conv_sum_set_nat atLeast0LessThan)
  also have "\<dots> = int (length file)"
  proof -
    have "sum_list (sizes_of qs) = int (length (concat qs))" for qs by (induction qs) (simp_all add: sizes_of_def)
    then show ?thesis using sizes ps(2) by simp
  qed
  finally have total: "sum ?L {..<k} = int (length file)" .
  have "full \<le> int (length file)" using b(1,2) P by (metis dual_order.trans int_one_le_iff_zero_less mult.right_neutral mult_left_mono)
  then have k64: "int64_range (int k)"
  proof (cases "file = ''''")
    case True
    then have "full = 0" using b(1) \<open>full \<le> int (length file)\<close> by simp
    then show ?thesis by (simp add: k_def int64_range_def)
  next
    case False
    have "full * 1 \<le> full * PartSize d" using b(1) P by (intro mult_left_mono) auto
    then show ?thesis using b(1,3) False assms(3) by (simp add: k_def int64_range_def)
  qed
  have scan: "chunk_scan d objs = Some (int (length file), sizes_of ps)"
    using chunk_scan_sizes[OF k64 _ _ _ l] total sizes assms(3) by (simp add: k_def)
  have complete: "hd (sizes_of ps) \<noteq> -1 \<and> 0 \<notin> set (butlast (tl (sizes_of ps)))"
  proof
    have "ps \<noteq> []" using ps(1) by (auto simp: k_def)
    then show "hd (sizes_of ps) \<noteq> -1" by (cases ps) (simp_all add: sizes_of_def)
    show "0 \<notin> set (butlast (tl (sizes_of ps)))"
    proof (cases "file = ''''")
      case True
      then have "nat full = 0" using \<open>full \<le> int (length file)\<close> b(1) by simp
      then show ?thesis by (simp add: ps_def sizes_of_def)
    next
      case False
      have "nat full * ?P < length file" using b(1) b(3)[OF False] P by (simp add: zless_nat_conj nat_mult_distrib flip: of_nat_less_iff[where ?'a = int])
      then have "p \<noteq> ''''" if "p \<in> set ps" for p using cut_parts_full that P by (simp add: ps_def)
      then have "0 \<notin> set (sizes_of ps)" by (auto simp: sizes_of_def)
      then show ?thesis by (cases "sizes_of ps") (auto dest: in_set_butlastD)
    qed
  qed
  have "links_read links 0 ps" using assms(8) at ps(1) by (simp add: links_read_def links_parts_def)
  then have r1: "reads_content (\<lambda>r. case mergedRrf links (int (length file)) (sizes_of ps) r of Inl e \<Rightarrow> Inl None | Inr bs \<Rightarrow> Inr bs) file"
    using mergedRrf_reads[of links ps] ps(2) assms(3) by simp
  have r2: "(\<lambda>r. case mergedRrf links (int (length file)) (sizes_of ps) r of Inl e \<Rightarrow> Inl None | Inr bs \<Rightarrow> Inr bs)
     = (\<lambda>r. map_sum (\<lambda>_. None) id (mergedRrf links (int (length file)) (sizes_of ps) r))" by (auto simp: fun_eq_iff split: sum.splits)
  show ?thesis using scan complete r1[unfolded r2]
    by (intro exI[of _ "sizes_of ps"] exI[of _ "mergedRrf links (int (length file)) (sizes_of ps)"]) (simp add: chunks_complete_def chunk_Link_def)
qed

text \<open>A directory as a list of files.\<close>

definition demo_remote :: "(string \<times> string) list remote" where
  "demo_remote = \<lparr>rput = (\<lambda>n b w. ((n, b) # filter (\<lambda>e. fst e \<noteq> n) w, True)), rremove = (\<lambda>w. []), rdirect = (\<lambda>b w. (w, True))\<rparr>"

definition demo_chunk :: chunk_cfg where
  "demo_chunk = \<lparr>PartSize = 2, ChunkPrefix = ''[chunk]'', CustomExt = ''.c'', StoreHash = True, ChunkLargeFileOnly = False\<rparr>"

definition demo_objs :: "(string \<times> string) list \<Rightarrow> part_obj list" where
  "demo_objs w = map (\<lambda>(n, b). \<lparr>poName = n, poSize = int (length b), poDir = False\<rparr>) w"

definition demo_part_reader :: "string \<Rightarrow> range_reader" where
  "demo_part_reader b r = Inr (if Length r < 0 then drop (nat (Start r)) b else slice_of b r)"

definition demo_links :: "(string \<times> string) list \<Rightarrow> nat \<Rightarrow> int option + int \<times> range_reader" where
  "demo_links w i = (case map_of w (getPartName demo_chunk (int i)) of None \<Rightarrow> Inl None | Some b \<Rightarrow> Inr (int (length b), demo_part_reader b))"

definition demo_stored :: "(string \<times> string) list" where
  "demo_stored = fst (chunk_Put demo_chunk demo_remote [(''md5'', ''x'')] ''hello'' [])"

lemma demo_remote_law: "store_law demo_remote map_of"
proof -
  have "map_of ((n, b) # filter (\<lambda>e. fst e \<noteq> n) w) = (map_of w)(n \<mapsto> b)" for n b :: string and w
  proof (rule ext)
    have "x \<noteq> n \<Longrightarrow> map_of (filter (\<lambda>e. fst e \<noteq> n) w) x = map_of w x" for x by (induction w) auto
    then show "map_of ((n, b) # filter (\<lambda>e. fst e \<noteq> n) w) x = ((map_of w)(n \<mapsto> b)) x" for x by simp
  qed
  then show ?thesis by (simp add: store_law_def demo_remote_def)
qed

lemma demo_part_reads: "part_reads (demo_part_reader b) b"
  by (auto simp: part_reads_def demo_part_reader_def slice_of_def)

lemma demo_links_ok: "links_parts demo_chunk (demo_links w) (map_of w)"
  by (auto simp: links_parts_def demo_links_def demo_part_reads)

lemma demo_lists: "distinct (map fst w) \<Longrightarrow> lists_parts (demo_objs w) (map_of w)"
proof -
  assume d: "distinct (map fst w)"
  have "map_of (map (\<lambda>(n, b). (n, int (length b))) w) = (\<lambda>n. map_option (\<lambda>b. int (length b)) (map_of w n))"
    by (induction w) (auto simp: fun_eq_iff)
  then show ?thesis using d by (simp add: lists_parts_def demo_objs_def comp_def case_prod_unfold) 
qed

theorem chunk_file_roundtrip_witness:
  "map_option fst (chunk_scan demo_chunk (demo_objs demo_stored)) = Some 5"
proof -
  have c: "chunk_Init demo_chunk" "int64_range (int (length ''hello''))" "\<not> ChunkLargeFileOnly demo_chunk" "only_hashes (map_of ([] :: (string \<times> string) list))"
    by (simp_all add: chunk_Init_def demo_chunk_def int64_range_def only_hashes_def)
  have "snd (chunk_Put demo_chunk demo_remote [(''md5'', ''x'')] ''hello'' [])" by code_simp
  then have put: "chunk_Put demo_chunk demo_remote [(''md5'', ''x'')] ''hello'' [] = (demo_stored, True)" by (simp add: demo_stored_def prod_eq_iff)
  have d: "distinct (map fst demo_stored)" by code_simp
  show ?thesis
    using chunk_file_roundtrip[OF c(1) demo_remote_law c(2-4) put demo_lists[OF d] demo_links_ok] by auto
qed

text \<open>A shorter file put in the place of a longer one keeps the parts of the old file behind its own.\<close>

lemma shorter_file_keeps_old_parts:
  "map_option fst (chunk_scan demo_chunk (demo_objs (fst (chunk_Put demo_chunk demo_remote [] ''ab'' demo_stored)))) = Some 5"
  "mergedRrf (demo_links (fst (chunk_Put demo_chunk demo_remote [] ''ab'' demo_stored))) 5 [2, 2, 1] \<lparr>Start = 0, Length = 5\<rparr> = Inr ''abllo''"
  by code_simp+

text \<open>A file with a negative number as its name stops the listing; a file whose last part is missing is shown as a shorter file.\<close>

lemma negative_part_panics: "chunk_scan demo_chunk [\<lparr>poName = ''-1.c'', poSize = 1, poDir = False\<rparr>] = None"
  by code_simp

lemma missing_tail_is_complete:
  "show_chunk_dir demo_chunk ''[chunk]f'' (filter (\<lambda>ob. poName ob \<noteq> ''2.c'') (demo_objs demo_stored)) = Some (''f'', 4, False)"
  by code_simp

text \<open>The reader of a range that ends in the part where it starts goes on to the end of the part.\<close>

lemma first_part_is_read_to_its_end:
  "mergedRrf (demo_links demo_stored) 5 [2, 2, 1] \<lparr>Start = 0, Length = 1\<rparr> = Inr ''he''"
  by code_simp

end
