(* ===== verification/Spec2Isabelle.thy ===== *)
theory Spec2Isabelle imports Paths Multipart_Lifecycle Webdav_Requests Fs_Requests Login_Guard Auth Storage_Trees Sharing Router Op_Limits Downloader Chunk_Driver begin

text \<open>
  A verification library for OpenBox, a file list and WebDAV server in Go that shows many storages
  (cloud drives, local directories) as one tree.  File names below are under \<open>src/\<close>.

  \<^bold>\<open>The program.\<close>  A request comes in over HTTP (\<open>server/router.go\<close>: the JSON API, the download routes,
  shares, and WebDAV), passes middlewares that say who the user is (\<open>server/middlewares\<close>,
  \<open>server/common/auth.go\<close>), and reaches a handler (\<open>server/handles\<close>, \<open>server/webdav\<close>).  The handler
  joins the path of the request to the base path of the user, asks the metas (\<open>internal/op/meta.go\<close>)
  and the permission bits (\<open>internal/model/user.go\<close>) whether the request is allowed, and calls package
  \<open>internal/fs\<close>.  That finds the mounted storage of a path (\<open>internal/op/storage.go\<close>) and runs the
  operation on it (\<open>internal/op/fs.go\<close>), which looks objects up in cached listings
  (\<open>internal/op/cache.go\<close>) and calls the driver.  Copies and moves between storages are tasks
  (\<open>internal/fs/copy_move.go\<close>, \<open>internal/task_group\<close>).  Large uploads arrive as chunks in any order
  and leave as one stream (\<open>internal/multipart\<close>); contents are fetched in parts in parallel
  (\<open>internal/net/request.go\<close>) and served with HTTP ranges (\<open>internal/net/serve.go\<close>).

  \<^bold>\<open>Theories and code.\<close>  A theory imports those it calls.

  \<^item> Language and library: \<open>Go_Base\<close> (wrap-around of \<open>int64\<close> and \<open>uint64\<close>, \<open>strings\<close>, maps, generic
    lemmas and the collections \<open>go_simps\<close>, \<open>inv_simps\<close>, \<open>frame_simps\<close>), \<open>Go_Path\<close> (package \<open>path\<close>),
    \<open>Go_File\<close> (files as byte lists), \<open>Go_Heap\<close> (\<open>container/heap\<close> behind the locale \<open>heap_interface\<close>).
  \<^item> Paths and access: \<open>Paths\<close> (\<open>pkg/utils/path.go\<close>, \<open>balance.go\<close>), \<open>Access\<close> (\<open>internal/model/user.go\<close>,
    \<open>server/common/check.go\<close>), \<open>Metas\<close> (\<open>internal/op/meta.go\<close>: the cache of metas, the nearest meta),
    \<open>Login_Guard\<close> (\<open>internal/model/login_guard.go\<close> and the four sign-ins), \<open>Auth\<close> (credentials, personal
    access tokens, sessions and their revocation), \<open>Router\<close> (the route table with its middlewares).
  \<^item> Files over the API: \<open>Fs_World\<close> (package \<open>fs\<close> as a record, handlers as state actions that record
    their calls), \<open>Fs_Manage\<close> and \<open>Fs_Requests\<close> (\<open>server/handles/fsmanage.go\<close>, \<open>fsbatch.go\<close>),
    \<open>Fs_Read\<close> (\<open>fsread.go\<close>, \<open>internal/fs/list.go\<close>, \<open>get.go\<close>), \<open>Downloads\<close> (signatures and the
    download guard), \<open>Sharing\<close> (shares: rows, owners, visitors).
  \<^item> WebDAV: \<open>Webdav_Lock\<close> (\<open>server/webdav/lock.go\<close> on an explicit store), \<open>Webdav_Heap\<close> (its expiry heap
    and its walk), \<open>Webdav_Lock_Spec\<close>, \<open>Webdav_Lock_Refine\<close>, \<open>Webdav_Locks\<close> (what it means, and the proof),
    \<open>Webdav_If\<close> (\<open>if.go\<close>), \<open>Webdav_Handler\<close> (\<open>webdav.go\<close>, \<open>file.go\<close>), \<open>Webdav_Contract\<close> (handlers over the
    locks), \<open>Webdav_Props\<close> (\<open>prop.go\<close>, \<open>PROPFIND\<close>), \<open>Webdav_Requests\<close> (the dispatcher).
  \<^item> Storages: \<open>Objects\<close> (\<open>internal/model/obj.go\<close>, \<open>object.go\<close>), \<open>Mounts\<close> (\<open>internal/op/storage.go\<close>),
    \<open>Op_Cache\<close> (\<open>internal/op/cache.go\<close>, \<open>internal/cache\<close>), \<open>Op_Fs\<close> (\<open>internal/op/fs.go\<close>), \<open>Op_Coherence\<close>,
    \<open>Op_Lookup\<close>, \<open>Op_Refine\<close> (the cache is transparent), \<open>Memory_Driver\<close> (a driver on which the laws hold),
    \<open>Op_Limits\<close> (where it is not), \<open>Storage_Transfer\<close> and \<open>Storage_Trees\<close> (copy and move).
  \<^item> Contents: \<open>Multipart_Window\<close>, \<open>Multipart_Stream\<close>, \<open>Multipart_Contract\<close> (\<open>internal/multipart/window.go\<close>,
    any interleaving), \<open>Multipart_Session\<close>, \<open>Multipart_Lifecycle\<close> (\<open>session.go\<close>), \<open>Http_Range\<close>,
    \<open>Serve_Content\<close> (\<open>pkg/http_range\<close>, \<open>internal/net/serve.go\<close>), \<open>Downloader\<close> (\<open>internal/net/request.go\<close>),
    \<open>Chunk_Driver\<close> (\<open>drivers/chunk/driver.go\<close>).

  \<^bold>\<open>How code is written down.\<close>  A struct is a record, an enumeration or a set of error values a
  datatype, a Go \<open>error\<close> the left side of a sum, a panic \<^const>\<open>None\<close>.  \<open>int64\<close> values are \<^typ>\<open>int\<close> with the
  wrap-around written out where a value can leave the range, permission bits and chunk checksums are
  words.  Pointers that are shared (lock nodes, upload sessions) are addresses of an explicit store.
  What is not in the repository is a parameter with named laws: drivers (\<open>read_laws\<close>, \<open>put_law\<close> and the
  others of \<open>Op_Lookup\<close>; \<open>storage_laws\<close> of \<open>Storage_Transfer\<close>; \<open>store_law\<close> of \<open>Chunk_Driver\<close>), the database
  (the locale \<open>meta_store\<close>; lists of rows for users, tokens, storages and shares), the expiring
  cache (\<open>cache_laws\<close>), HMAC, SHA-256, JWT, JSON and XML coding, the clock and random identifiers.
  Every law is satisfied by a concrete function in the witness of a theorem that needs it.

  \<^bold>\<open>Concurrency.\<close>  Upload windows and sessions are step relations (\<open>wstep\<close>, \<open>mstep\<close>) whose steps are the
  critical sections and the unlocked copies between them, so their theorems hold for every
  interleaving; transfer tasks run in any order, fail and are cancelled at any step (\<open>task_step\<close>); the
  parts of a download are changed by workers in any order.  The lock system holds its mutex
  throughout each operation, so its operations are the steps.  Sign-ins, visits to shares, the
  operations of a storage and the lookups of metas are run one after the other, although the code
  does not synchronise them: what a race can do is shown by separate lemmas
  (\<open>Metas.UpdateMeta_race_keeps_the_old_meta\<close> and the lemmas on shares), and the properties say that they
  are about sequential runs.

  \<^bold>\<open>Interfaces.\<close>  \<open>heap_interface\<close> (\<open>Less\<close>, \<open>Swap\<close> and the slice that \<open>container/heap\<close> sees) is interpreted
  by the expiry heap of the lock system, which keeps the index of every node up to date; \<open>meta_store\<close>
  (what \<open>meta.go\<close> relies on of the database) by a table of rows; \<open>lock_system\<close> (what the handlers rely
  on of a WebDAV lock system) by the in-memory one.

  \<^bold>\<open>What the lemmas show.\<close>
  \<^item> Uploads: whatever the order of chunks, reads and closes, the reader gets a prefix of the file,
    slots are owned by one writer, the awaited chunk can always make progress; a session has at most
    one pipeline, and is found by its own user and destination only.
  \<^item> Access: joined paths stay below the base path; the decision of \<open>CanAccess\<close> is that of the governing
    meta; the cache of metas shows the database; every call that a request of the API or of WebDAV
    makes is permitted and confined, with the exceptions stated and shown to occur.
  \<^item> Locks: no operation panics or runs for ever, locks never conflict, and each operation implements an
    operation on a plain map from tokens to locks; the handlers release their temporary locks.
  \<^item> Sessions, tokens, signatures and shares: who is let through, for how long, and what a visitor can
    learn of the storages.
  \<^item> Storages: the longest mount is found; the cached listings show what the driver has after any
    sequence of operations; a move removes no source whose files have not arrived, unless an upload
    failed and left its own file behind.
  \<^item> Contents: ranges are parsed and answered as a reference over the bytes says; a download in parts
    gives the bytes of its range; files that are stored in parts are read back.

  \<^bold>\<open>Bounds and termination.\<close>  Loops over data are recursive functions; the loops of the expiry heap and
  the walk to the root have termination proofs with a measure.  Loops that the code could run for ever are
  \<open>partial_function (option)\<close>: \<open>getNearestMeta\<close> (it returns on every path: \<open>Metas.GetNearestMeta_nearest\<close>),
  \<open>collectExpiredNodes\<close> (it returns in every reachable state of the lock system), \<open>walkFS\<close> (on finite
  trees), \<open>rm_empty_loop\<close> and \<open>recmove_loop\<close> (over an unknown storage, which may be an endless tree; the
  properties are about requests that are answered), \<open>verify_call\<close> (\<open>Storage_Transfer.verifyAndRemove_returns\<close>, on storages with
  finite trees).  \<open>plan_parts\<close> recurses at most \<open>max_part\<close> times, which is the
  bound of the loop in the code; the lemmas on it show that the parts tile the range.

  \<^bold>\<open>Where the model is coarser than the code.\<close>
  \<^item> \<open>finishAttempt\<close> merges the reading of the checksums and the close of the window, which run outside
    the lock of the session, with the critical section that records the result.
  \<^item> The slice behind the expiry heap is read with total operations; the invariant keeps every index that
    is used in range, so no panic is lost.
  \<^item> The database is a list of rows with single statements as steps; transactions that fail half-way
    are not considered.
  \<^item> \<open>fs.List\<close> is a parameter of the batch handlers; its filter by the meta in the context is modelled in
    \<open>Fs_Read\<close>.
  \<^item> \<open>tryDownloadChunk\<close> has no channel, limit of workers or delay: a request gives some bytes and ends well
    or not.
  \<^item> Thumbnails, hashes of files, creation times, file types and log lines are left out of replies.

  \<^bold>\<open>Not modelled.\<close>  The clients of storage providers under \<open>drivers/\<close> but for the chunk driver (JSON and
  HTTP against services that are not in the repository), the FTP, SFTP and S3 servers and the MCP server
  (adapters of third-party servers; their sign-ins are modelled), the search index, offline downloads
  and archive tools (clients of external programs and libraries), the task queue (a third-party
  module), streams with their caches and rate limits, the administration of storages, users and
  settings (gorm rows), single sign-on and WebAuthn, process start and configuration, and the
  web pages.
\<close>

end
